(* ===== verification/Prelude.thy ===== *)
theory Prelude
  imports Main "HOL-Library.AList" "HOL-Library.Product_Lexorder" "HOL-Library.Option_ord"
begin

text \<open>
  Shared vocabulary of the development: instants and durations, association
  lists standing for the hash maps of the code, and the generic lemmas the
  component theories use.

  An instant (\<open>SystemTime\<close>, \<open>DateTime<Utc>\<close>) is a number of microseconds since
  the epoch, the resolution of the database's \<open>timestamptz\<close> from which every
  stored instant is read. A duration is a number of microseconds too.

  A hash map is an association list. Its iteration order is the order of the
  list, so a theorem that quantifies over the list holds for every iteration
  order the hash map may have.
\<close>

named_theorems alist_simps
named_theorems tz_laws

type_synonym instant = int
type_synonym duration = int

text \<open>An identifier of a row; only its equality and its order are used.\<close>

type_synonym uuid = nat

definition secs :: "int \<Rightarrow> duration" where
  "secs n = n * 1000000"

definition days_dur :: "int \<Rightarrow> duration" where
  "days_dur n = secs (n * 86400)"

text \<open>\<open>later.duration_since(earlier).unwrap_or(Duration::ZERO)\<close>.\<close>

definition since :: "instant \<Rightarrow> instant \<Rightarrow> duration" where
  "since later earlier = max 0 (later - earlier)"

lemma since_nonneg [simp]: "0 \<le> since a b"
  by (simp add: since_def)

lemma since_pos: "b < a \<Longrightarrow> since a b = a - b"
  by (simp add: since_def)

lemma find_holds: "List.find P xs = Some x \<Longrightarrow> x \<in> set xs \<and> P x"
  by (induction xs) (auto split: if_splits)

section \<open>Association lists as hash maps\<close>

abbreviation keys_distinct :: "('k \<times> 'v) list \<Rightarrow> bool" where
  "keys_distinct m \<equiv> distinct (map fst m)"

text \<open>\<open>HashMap::retain\<close> with a test on the value.\<close>

definition retain_values :: "('v \<Rightarrow> bool) \<Rightarrow> ('k \<times> 'v) list \<Rightarrow> ('k \<times> 'v) list" where
  "retain_values P m = filter (\<lambda>(k, v). P v) m"

lemma keys_distinct_retain: "keys_distinct m \<Longrightarrow> keys_distinct (retain_values P m)"
  by (induction m) (auto simp: retain_values_def)

lemma map_of_retain:
  "keys_distinct m \<Longrightarrow>
   map_of (retain_values P m) k =
     (case map_of m k of None \<Rightarrow> None | Some v \<Rightarrow> if P v then Some v else None)"
proof (induction m)
  case Nil
  then show ?case by (simp add: retain_values_def)
next
  case (Cons a m)
  obtain x v where a: "a = (x, v)" by force
  have notin: "x \<notin> set (map fst m)" using Cons.prems by (simp add: a)
  then have out: "map_of m x = None" by (simp add: map_of_eq_None_iff)
  have "map_of (retain_values P m) k =
      (case map_of m k of None \<Rightarrow> None | Some v \<Rightarrow> if P v then Some v else None)"
    using Cons by (simp add: a)
  then show ?case by (auto simp: a out retain_values_def)
qed

lemma length_retain_le: "length (retain_values P m) \<le> length m"
  by (simp add: retain_values_def)

lemma set_retain: "kv \<in> set (retain_values P m) \<longleftrightarrow> kv \<in> set m \<and> P (snd kv)"
  by (auto simp: retain_values_def)

lemma keys_distinct_update: "keys_distinct m \<Longrightarrow> keys_distinct (AList.update k v m)"
  by (rule distinct_update)

lemma keys_distinct_delete: "keys_distinct m \<Longrightarrow> keys_distinct (AList.delete k m)"
  by (rule distinct_delete)

lemma map_of_alist_update: "map_of (AList.update k v m) k' = (if k' = k then Some v else map_of m k')"
  by (simp add: update_conv)

lemma map_of_alist_delete: "map_of (AList.delete k m) k' = (if k' = k then None else map_of m k')"
  by (simp add: delete_conv')

lemma set_alist_update_subset: "set (AList.update k v m) \<subseteq> insert (k, v) (set m)"
  by (induction m) auto

lemma set_alist_delete: "set (AList.delete k m) = {kv \<in> set m. fst kv \<noteq> k}"
  by (auto simp: AList.delete_eq)

lemmas alist_keys = keys_distinct_update keys_distinct_delete keys_distinct_retain

declare map_of_alist_update [alist_simps] map_of_alist_delete [alist_simps]

text \<open>The sum of a measure over the values, under update and deletion.\<close>

definition sum_values :: "('v \<Rightarrow> nat) \<Rightarrow> ('k \<times> 'v) list \<Rightarrow> nat" where
  "sum_values f m = sum_list (map (\<lambda>(k, v). f v) m)"

lemma sum_values_simps [simp]:
  "sum_values f [] = 0"
  "sum_values f ((k, v) # m) = f v + sum_values f m"
  by (simp_all add: sum_values_def)

lemma sum_values_update:
  "keys_distinct m \<Longrightarrow>
   sum_values f (AList.update k v m) + (case map_of m k of None \<Rightarrow> 0 | Some w \<Rightarrow> f w)
     = sum_values f m + f v"
proof (induction m)
  case Nil
  then show ?case by simp
next
  case (Cons a m)
  obtain x u where a: "a = (x, u)" by force
  have out: "map_of m x = None" using Cons.prems by (simp add: a map_of_eq_None_iff)
  show ?case using Cons by (cases "x = k") (auto simp: a out split: option.splits)
qed

lemma sum_values_delete:
  "keys_distinct m \<Longrightarrow>
   sum_values f (AList.delete k m) + (case map_of m k of None \<Rightarrow> 0 | Some w \<Rightarrow> f w)
     = sum_values f m"
proof (induction m)
  case Nil
  then show ?case by simp
next
  case (Cons a m)
  obtain x v where a: "a = (x, v)" by force
  show ?case
  proof (cases "x = k")
    case True
    with Cons.prems have "AList.delete k m = m"
      by (simp add: a)
    with True show ?thesis by (simp add: a)
  next
    case False
    with Cons show ?thesis by (simp add: a split: option.splits)
  qed
qed

lemma sum_values_ge: "map_of m k = Some v \<Longrightarrow> f v \<le> sum_values f m"
  by (induction m) (auto split: if_splits)

section \<open>Iterator adapters\<close>

text \<open>\<open>Iterator::min_by_key\<close>: the first of the elements with the least key.\<close>

fun min_by_key :: "('x \<Rightarrow> 'k::linorder) \<Rightarrow> 'x list \<Rightarrow> 'x option" where
  "min_by_key f [] = None"
| "min_by_key f (x # xs) =
     (case min_by_key f xs of
        None \<Rightarrow> Some x
      | Some y \<Rightarrow> if f x \<le> f y then Some x else Some y)"

lemma min_by_key_None [simp]: "min_by_key f xs = None \<longleftrightarrow> xs = []"
  by (cases xs) (auto split: option.splits)

lemma min_by_key_in: "min_by_key f xs = Some y \<Longrightarrow> y \<in> set xs"
  by (induction xs arbitrary: y) (auto split: option.splits if_splits)

lemma min_by_key_le: "min_by_key f xs = Some y \<Longrightarrow> x \<in> set xs \<Longrightarrow> f y \<le> f x"
proof (induction xs arbitrary: y)
  case Nil
  then show ?case by simp
next
  case (Cons z zs)
  then show ?case
    by (cases "min_by_key f zs") (auto split: if_splits intro: order_trans)
qed

text \<open>\<open>values().max()\<close> over naturals, \<open>unwrap_or(0)\<close>.\<close>

definition max_or_0 :: "nat list \<Rightarrow> nat" where
  "max_or_0 xs = foldr max xs 0"

lemma max_or_0_ge: "x \<in> set xs \<Longrightarrow> x \<le> max_or_0 xs"
  by (induction xs) (auto simp: max_or_0_def)

lemma max_or_0_in: "xs \<noteq> [] \<Longrightarrow> max_or_0 xs \<in> set xs"
proof (induction xs)
  case Nil
  then show ?case by simp
next
  case (Cons x xs)
  then show ?case by (cases "xs = []") (auto simp: max_or_0_def max_def)
qed

text \<open>\<open>min\<close> of a list of instants.\<close>

fun min_list_opt :: "'k::linorder list \<Rightarrow> 'k option" where
  "min_list_opt [] = None"
| "min_list_opt (x # xs) =
     (case min_list_opt xs of None \<Rightarrow> Some x | Some y \<Rightarrow> Some (min x y))"

lemma min_list_opt_None [simp]: "min_list_opt xs = None \<longleftrightarrow> xs = []"
  by (cases xs) (auto split: option.splits)

lemma min_list_opt_Some: "min_list_opt xs = Some y \<Longrightarrow> y \<in> set xs \<and> (\<forall>x \<in> set xs. y \<le> x)"
proof (induction xs arbitrary: y)
  case Nil
  then show ?case by simp
next
  case (Cons z zs)
  then show ?case
    by (cases "min_list_opt zs") (auto simp: min_le_iff_disj, auto simp: min_def)
qed

section \<open>Budgets: a contract several limiters share\<close>

text \<open>
  A limiter answers each request with a boolean (admitted or not) and a new
  state. The contract: while a window \<open>w\<close> is open in a state, every admission is
  paid for out of the admissions that are \<open>left\<close>. The login lock, the report
  limit and the sliding windows all satisfy it; the bound on the number of
  admissions is proved once, here.
\<close>

fun admissions :: "('s \<Rightarrow> 'e \<Rightarrow> bool \<times> 's) \<Rightarrow> 's \<Rightarrow> 'e list \<Rightarrow> nat" where
  "admissions step s [] = 0"
| "admissions step s (e # es) =
     (let (b, s') = step s e in (if b then 1 else 0) + admissions step s' es)"

fun run_in :: "('s \<Rightarrow> 'e \<Rightarrow> bool \<times> 's) \<Rightarrow> ('s \<Rightarrow> 'e \<Rightarrow> bool) \<Rightarrow> 's \<Rightarrow> 'e list \<Rightarrow> bool" where
  "run_in step ok s [] = True"
| "run_in step ok s (e # es) = (ok s e \<and> run_in step ok (snd (step s e)) es)"

locale window_budget =
  fixes step :: "'s \<Rightarrow> 'e \<Rightarrow> bool \<times> 's"
    and inside :: "'w \<Rightarrow> 's \<Rightarrow> 'e \<Rightarrow> bool"
    and good :: "'w \<Rightarrow> 's \<Rightarrow> bool"
    and left :: "'w \<Rightarrow> 's \<Rightarrow> nat"
  assumes good_step: "good w s \<Longrightarrow> inside w s e \<Longrightarrow> good w (snd (step s e))"
    and paid: "good w s \<Longrightarrow> inside w s e \<Longrightarrow> fst (step s e) \<Longrightarrow>
                 Suc (left w (snd (step s e))) \<le> left w s"
    and kept: "good w s \<Longrightarrow> inside w s e \<Longrightarrow> \<not> fst (step s e) \<Longrightarrow>
                 left w (snd (step s e)) \<le> left w s"
begin

lemma admissions_bounded:
  "good w s \<Longrightarrow> run_in step (inside w) s es \<Longrightarrow> admissions step s es \<le> left w s"
proof (induction es arbitrary: s)
  case Nil
  then show ?case by simp
next
  case (Cons e es)
  let ?s = "snd (step s e)"
  have ok: "inside w s e" and rest: "run_in step (inside w) ?s es"
    using Cons.prems by simp_all
  have "admissions step ?s es \<le> left w ?s"
    using Cons.IH good_step [OF Cons.prems(1) ok] rest by blast
  then show ?case
    using paid [OF Cons.prems(1) ok] kept [OF Cons.prems(1) ok]
    by (auto simp: Let_def split: prod.splits)
qed

end

end
