(* ===== verification/Throttle.thy ===== *)
theory Throttle
  imports Prelude "HOL-Library.Word"
begin

text \<open>
  The login throttle, \<open>apps/api/src/auth/throttle.rs\<close>: which client an address
  stands for, the decision table (\<open>Entry\<close>, \<open>Table\<close>, \<open>Changes\<close>), and the
  transactions of \<open>LoginThrottle\<close> over the rows of \<open>login_throttle\<close>.
\<close>

section \<open>The address a client is counted under\<close>

datatype ip_addr = V4 "32 word" | V6 "128 word"

definition IPV6_GROUP_PREFIX :: nat where
  "IPV6_GROUP_PREFIX = 64"

text \<open>\<open>Ipv6Addr::to_ipv4_mapped\<close>: the addresses \<open>::ffff:a.b.c.d\<close>.\<close>

definition to_ipv4_mapped :: "128 word \<Rightarrow> 32 word option" where
  "to_ipv4_mapped v6 = (if drop_bit 32 v6 = 0xFFFF then Some (ucast v6) else None)"

definition address_scope :: "ip_addr \<Rightarrow> ip_addr" where
  "address_scope ip =
     (case ip of
        V4 _ \<Rightarrow> ip
      | V6 v6 \<Rightarrow>
          (case to_ipv4_mapped v6 of
             Some v4 \<Rightarrow> V4 v4
           | None \<Rightarrow>
               let host_bits = 128 - IPV6_GROUP_PREFIX
               in V6 (push_bit host_bits (drop_bit host_bits v6))))"

section \<open>Entries\<close>

definition MAX_FAILURES :: nat where "MAX_FAILURES = 10"
definition WINDOW :: duration where "WINDOW = secs (15 * 60)"
definition LOCKOUT :: duration where "LOCKOUT = secs (15 * 60)"
definition MAX_TRACKED :: nat where "MAX_TRACKED = 10000"
definition MAX_PAIRS_PER_IP :: nat where "MAX_PAIRS_PER_IP = 50"

lemma windows_pos [simp]: "0 < WINDOW" "0 < LOCKOUT" "\<not> WINDOW < 0" "\<not> LOCKOUT < 0"
  by (simp_all add: WINDOW_def LOCKOUT_def secs_def)

datatype decision = Allow | Locked duration

record entry =
  attempts :: nat
  window_start :: instant
  locked_until :: "instant option"

definition purge_cutoff :: "instant \<Rightarrow> instant" where
  "purge_cutoff now = now - (WINDOW + LOCKOUT)"

definition fresh :: "instant \<Rightarrow> entry" where
  "fresh now = \<lparr>attempts = 0, window_start = now, locked_until = None\<rparr>"

definition locked_at :: "entry \<Rightarrow> instant \<Rightarrow> instant option" where
  "locked_at e now =
     (case locked_until e of
        None \<Rightarrow> None
      | Some until \<Rightarrow> if until > now then Some until else None)"

definition is_stale :: "entry \<Rightarrow> instant \<Rightarrow> bool" where
  "is_stale e now \<longleftrightarrow>
     locked_at e now = None \<and>
     (locked_until e \<noteq> None \<or> since now (window_start e) > WINDOW)"

definition frees_at :: "entry \<Rightarrow> instant \<Rightarrow> instant" where
  "frees_at e now =
     (case locked_at e now of Some until \<Rightarrow> until | None \<Rightarrow> window_start e + WINDOW)"

section \<open>The table of pairs\<close>

record ('a, 'e) table =
  by_ip :: "('a \<times> ('e \<times> entry) list) list"
  total :: nat

definition empty_table :: "('a, 'e) table" where
  "empty_table = \<lparr>by_ip = [], total = 0\<rparr>"

text \<open>\<open>by_ip.get(&ip)\<close>, with no pairs for an address the table does not hold.\<close>

definition pairs_of :: "('a, 'e) table \<Rightarrow> 'a \<Rightarrow> ('e \<times> entry) list" where
  "pairs_of t ip = (case map_of (by_ip t) ip of None \<Rightarrow> [] | Some pairs \<Rightarrow> pairs)"

definition get :: "('a, 'e) table \<Rightarrow> 'a \<Rightarrow> 'e \<Rightarrow> entry option" where
  "get t ip email =
     (case map_of (by_ip t) ip of None \<Rightarrow> None | Some pairs \<Rightarrow> map_of pairs email)"

text \<open>\<open>by_ip.entry(ip).or_default().insert(email, entry)\<close>.\<close>

definition put :: "'a \<Rightarrow> 'e \<Rightarrow> entry \<Rightarrow> ('a, 'e) table \<Rightarrow> ('a, 'e) table" where
  "put ip email e t =
     t\<lparr>by_ip := AList.update ip (AList.update email e (pairs_of t ip)) (by_ip t)\<rparr>"

definition load :: "('a, 'e) table \<Rightarrow> 'a \<Rightarrow> 'e \<Rightarrow> entry \<Rightarrow> ('a, 'e) table" where
  "load t ip email e =
     (let t' = put ip email e t
      in if get t ip email = None then t'\<lparr>total := total t + 1\<rparr> else t')"

definition held_by :: "('a, 'e) table \<Rightarrow> 'a \<Rightarrow> nat" where
  "held_by t ip = (case map_of (by_ip t) ip of None \<Rightarrow> 0 | Some pairs \<Rightarrow> length pairs)"

text \<open>Keep the pairs of an address if some are left, drop the address otherwise.\<close>

definition store_pairs ::
    "'a \<Rightarrow> ('e \<times> entry) list \<Rightarrow> ('a \<times> ('e \<times> entry) list) list \<Rightarrow>
     ('a \<times> ('e \<times> entry) list) list" where
  "store_pairs ip pairs m = (if pairs = [] then AList.delete ip m else AList.update ip pairs m)"

definition remove :: "('a, 'e) table \<Rightarrow> 'a \<Rightarrow> 'e \<Rightarrow> ('a, 'e) table" where
  "remove t ip email =
     (case map_of (by_ip t) ip of
        None \<Rightarrow> t
      | Some pairs \<Rightarrow>
          t\<lparr>by_ip := store_pairs ip (AList.delete email pairs) (by_ip t),
            total := (if map_of pairs email \<noteq> None then total t - 1 else total t)\<rparr>)"

definition reclaim_address :: "('a, 'e) table \<Rightarrow> 'a \<Rightarrow> instant \<Rightarrow> ('a, 'e) table" where
  "reclaim_address t ip now =
     (case map_of (by_ip t) ip of
        None \<Rightarrow> t
      | Some pairs \<Rightarrow>
          let kept = retain_values (\<lambda>e. \<not> is_stale e now) pairs
          in t\<lparr>by_ip := store_pairs ip kept (by_ip t),
               total := total t - (length pairs - length kept)\<rparr>)"

definition address_frees_up_in :: "('a, 'e) table \<Rightarrow> 'a \<Rightarrow> instant \<Rightarrow> duration" where
  "address_frees_up_in t ip now =
     (case min_list_opt (map (\<lambda>(_, e). frees_at e now) (pairs_of t ip)) of
        None \<Rightarrow> 0
      | Some at \<Rightarrow> since at now)"

definition drop_stale ::
    "instant \<Rightarrow> ('a \<times> ('e \<times> entry) list) list \<Rightarrow> ('a \<times> ('e \<times> entry) list) list" where
  "drop_stale now m =
     filter (\<lambda>(ip, pairs). pairs \<noteq> [])
       (map (\<lambda>(ip, pairs). (ip, retain_values (\<lambda>e. \<not> is_stale e now) pairs)) m)"

definition eviction_key :: "instant \<Rightarrow> entry \<Rightarrow> nat \<times> instant" where
  "eviction_key now e =
     (case locked_at e now of None \<Rightarrow> (0, window_start e) | Some until \<Rightarrow> (1, until))"

definition eviction_candidates ::
    "('a \<times> ('e \<times> entry) list) list \<Rightarrow> ('a \<times> 'e \<times> entry) list" where
  "eviction_candidates m =
     (let most = max_or_0 (map (\<lambda>(_, pairs). length pairs) m)
      in concat (map (\<lambda>(ip, pairs). map (\<lambda>(email, e). (ip, email, e)) pairs)
                  (filter (\<lambda>(_, pairs). length pairs = most) m)))"

definition make_room :: "('a, 'e) table \<Rightarrow> instant \<Rightarrow> ('a, 'e) table" where
  "make_room t now =
     (if total t < MAX_TRACKED then t
      else
        let kept = drop_stale now (by_ip t);
            t1 = t\<lparr>by_ip := kept, total := sum_values length kept\<rparr>
        in if total t1 < MAX_TRACKED then t1
           else (case min_by_key (\<lambda>(_, _, e). eviction_key now e) (eviction_candidates kept) of
                   None \<Rightarrow> t1
                 | Some (ip, email, _) \<Rightarrow> remove t1 ip email))"

definition refuse_at_share ::
    "('a, 'e) table \<Rightarrow> 'a \<Rightarrow> 'e \<Rightarrow> instant \<Rightarrow> decision option \<times> ('a, 'e) table" where
  "refuse_at_share t ip email now =
     (if get t ip email \<noteq> None then (None, t)
      else
        let t1 = reclaim_address t ip now
        in (if held_by t1 ip \<ge> MAX_PAIRS_PER_IP
            then Some (Locked (address_frees_up_in t1 ip now)) else None, t1))"

text \<open>The entry's own part of an admission: the lock is checked, the attempt counted.\<close>

definition attempt :: "entry \<Rightarrow> instant \<Rightarrow> decision \<times> entry" where
  "attempt e now =
     (case locked_at e now of
        Some until \<Rightarrow> (Locked (since until now), e)
      | None \<Rightarrow>
          let e1 = (if is_stale e now then fresh now else e);
              e2 = e1\<lparr>attempts := attempts e1 + 1\<rparr>;
              e3 = (if attempts e2 \<ge> MAX_FAILURES
                    then e2\<lparr>locked_until := Some (now + LOCKOUT)\<rparr> else e2)
          in (Allow, e3))"

text \<open>\<open>Table::admit\<close>; \<open>None\<close> is the panic of its \<open>expect\<close>.\<close>

definition admit ::
    "('a, 'e) table \<Rightarrow> 'a \<Rightarrow> 'e \<Rightarrow> instant \<Rightarrow> (decision \<times> ('a, 'e) table) option" where
  "admit t ip email now =
     (case refuse_at_share t ip email now of
        (Some refused, t1) \<Rightarrow> Some (refused, t1)
      | (None, t1) \<Rightarrow>
          let t2 =
            (if get t1 ip email = None then
               let t' = put ip email (fresh now) (make_room t1 now)
               in t'\<lparr>total := total t' + 1\<rparr>
             else t1)
          in (case get t2 ip email of
                None \<Rightarrow> None
              | Some e \<Rightarrow>
                  let (d, e') = attempt e now in Some (d, put ip email e' t2)))"

section \<open>What an admission changed\<close>

record ('a, 'e) changes =
  removed :: "('a \<times> 'e) list"
  written :: "('a \<times> 'e \<times> entry) list"

definition all_pairs :: "('a, 'e) table \<Rightarrow> ('a \<times> 'e \<times> entry) list" where
  "all_pairs t =
     concat (map (\<lambda>(ip, pairs). map (\<lambda>(email, e). (ip, email, e)) pairs) (by_ip t))"

definition between :: "('a, 'e) table \<Rightarrow> ('a, 'e) table \<Rightarrow> ('a, 'e) changes" where
  "between before after =
     \<lparr>removed = map (\<lambda>(ip, email, e). (ip, email))
                  (filter (\<lambda>(ip, email, e). get after ip email = None) (all_pairs before)),
      written = filter (\<lambda>(ip, email, e). get before ip email \<noteq> Some e) (all_pairs after)\<rparr>"

section \<open>The table invariant\<close>

text \<open>
  \<open>table_wf\<close>: one bucket per address, one entry per pair, no empty bucket.
  \<open>tallied n\<close>: the counter \<open>total\<close> is what the buckets hold plus the \<open>n\<close> rows of the
  store the table was not handed (\<open>n = 0\<close> when the whole store is loaded).
\<close>

definition buckets_wf :: "('a \<times> ('e \<times> entry) list) list \<Rightarrow> bool" where
  "buckets_wf m \<longleftrightarrow> keys_distinct m \<and>
     (\<forall>ip pairs. (ip, pairs) \<in> set m \<longrightarrow> keys_distinct pairs \<and> pairs \<noteq> [])"

definition table_wf :: "('a, 'e) table \<Rightarrow> bool" where
  "table_wf t \<longleftrightarrow> buckets_wf (by_ip t)"

definition tallied :: "nat \<Rightarrow> ('a, 'e) table \<Rightarrow> bool" where
  "tallied n t \<longleftrightarrow> total t = n + sum_values length (by_ip t)"

definition share_kept :: "('a, 'e) table \<Rightarrow> bool" where
  "share_kept t \<longleftrightarrow> (\<forall>ip. held_by t ip \<le> MAX_PAIRS_PER_IP)"

lemma wf_bucket: "table_wf t \<Longrightarrow> map_of (by_ip t) ip = Some pairs \<Longrightarrow> keys_distinct pairs \<and> pairs \<noteq> []"
  by (auto simp: table_wf_def buckets_wf_def dest: map_of_SomeD)

lemma wf_pairs_of: "table_wf t \<Longrightarrow> keys_distinct (pairs_of t ip)"
  by (auto simp: pairs_of_def dest: wf_bucket split: option.split)

lemma get_pairs_of: "get t ip email = map_of (pairs_of t ip) email"
  by (simp add: get_def pairs_of_def split: option.split)

lemma held_by_pairs_of: "held_by t ip = length (pairs_of t ip)"
  by (simp add: held_by_def pairs_of_def split: option.split)

lemma pairs_of_total [simp]: "pairs_of (t\<lparr>total := n\<rparr>) ip = pairs_of t ip"
  by (simp add: pairs_of_def)

lemma get_total [simp]: "get (t\<lparr>total := n\<rparr>) ip email = get t ip email"
  by (simp add: get_def)

lemma held_by_total [simp]: "held_by (t\<lparr>total := n\<rparr>) ip = held_by t ip"
  by (simp add: held_by_def)

lemma wf_total [simp]: "table_wf (t\<lparr>total := n\<rparr>) = table_wf t"
  by (simp add: table_wf_def)

lemma pairs_of_put:
  "pairs_of (put ip email e t) ip' =
     (if ip' = ip then AList.update email e (pairs_of t ip) else pairs_of t ip')"
  by (simp add: put_def pairs_of_def alist_simps)

lemma pairs_of_store:
  "(case map_of (store_pairs ip pairs m) ip' of None \<Rightarrow> [] | Some ps \<Rightarrow> ps) =
     (if ip' = ip then pairs else case map_of m ip' of None \<Rightarrow> [] | Some ps \<Rightarrow> ps)"
  by (simp add: store_pairs_def alist_simps)

lemma pairs_of_remove:
  "pairs_of (remove t ip email) ip' =
     (if ip' = ip then AList.delete email (pairs_of t ip) else pairs_of t ip')"
  by (cases "map_of (by_ip t) ip")
     (auto simp: remove_def pairs_of_def pairs_of_store)

lemma pairs_of_reclaim:
  "pairs_of (reclaim_address t ip now) ip' =
     (if ip' = ip then retain_values (\<lambda>e. \<not> is_stale e now) (pairs_of t ip) else pairs_of t ip')"
  by (cases "map_of (by_ip t) ip")
     (auto simp: reclaim_address_def pairs_of_def pairs_of_store Let_def retain_values_def)

lemma get_put:
  "get (put ip email e t) ip' email' =
     (if ip' = ip \<and> email' = email then Some e else get t ip' email')"
  by (simp add: get_pairs_of pairs_of_put alist_simps)

lemma get_remove:
  "get (remove t ip email) ip' email' =
     (if ip' = ip \<and> email' = email then None else get t ip' email')"
  by (simp add: get_pairs_of pairs_of_remove alist_simps)

lemma get_reclaim:
  "table_wf t \<Longrightarrow>
   get (reclaim_address t ip now) ip' email' =
     (case get t ip' email' of
        None \<Rightarrow> None
      | Some e \<Rightarrow> if ip' = ip \<and> is_stale e now then None else Some e)"
  by (auto simp: get_pairs_of pairs_of_reclaim map_of_retain wf_pairs_of split: option.split)

lemma held_by_put:
  "held_by (put ip email e t) ip' =
     (if ip' = ip then held_by t ip + (if get t ip email = None then 1 else 0) else held_by t ip')"
  by (auto simp: held_by_pairs_of pairs_of_put get_pairs_of map_of_eq_None_iff
      length_map [of fst, symmetric] update_keys simp del: length_map)

lemma held_by_reclaim_le: "held_by (reclaim_address t ip now) ip' \<le> held_by t ip'"
  by (simp add: held_by_pairs_of pairs_of_reclaim length_retain_le)

lemma held_by_remove_le: "held_by (remove t ip email) ip' \<le> held_by t ip'"
  by (simp add: held_by_pairs_of pairs_of_remove length_delete_le)

lemma buckets_update:
  assumes "buckets_wf m" "keys_distinct pairs" "pairs \<noteq> []"
  shows "buckets_wf (AList.update ip pairs m)"
proof -
  have "(ip', ps) = (ip, pairs) \<or> (ip', ps) \<in> set m"
    if "(ip', ps) \<in> set (AList.update ip pairs m)" for ip' ps
    using that set_alist_update_subset [of ip pairs m] by blast
  with assms show ?thesis
    by (fastforce simp: buckets_wf_def keys_distinct_update)
qed

lemma buckets_store:
  assumes "buckets_wf m" "keys_distinct pairs"
  shows "buckets_wf (store_pairs ip pairs m)"
proof (cases "pairs = []")
  case True
  with assms(1) show ?thesis
    by (auto simp: store_pairs_def buckets_wf_def keys_distinct_delete set_alist_delete)
next
  case False
  with assms show ?thesis by (simp add: store_pairs_def buckets_update)
qed

lemma wf_put: "table_wf t \<Longrightarrow> table_wf (put ip email e t)"
  by (simp add: table_wf_def put_def buckets_update keys_distinct_update wf_pairs_of)

lemma wf_remove: "table_wf t \<Longrightarrow> table_wf (remove t ip email)"
  by (cases "map_of (by_ip t) ip")
     (auto simp: remove_def table_wf_def keys_distinct_delete
       dest: wf_bucket [unfolded table_wf_def] intro!: buckets_store)

lemma wf_reclaim: "table_wf t \<Longrightarrow> table_wf (reclaim_address t ip now)"
  by (cases "map_of (by_ip t) ip")
     (auto simp: reclaim_address_def Let_def table_wf_def keys_distinct_retain
       dest: wf_bucket [unfolded table_wf_def] intro!: buckets_store)

lemma drop_stale_Cons:
  "drop_stale now ((ip, pairs) # m) =
     (let kept = retain_values (\<lambda>e. \<not> is_stale e now) pairs
      in if kept = [] then drop_stale now m else (ip, kept) # drop_stale now m)"
  by (simp add: drop_stale_def Let_def)

lemma drop_stale_keys: "set (map fst (drop_stale now m)) \<subseteq> set (map fst m)"
  by (force simp: drop_stale_def)

lemma map_of_drop_stale:
  "keys_distinct m \<Longrightarrow>
   map_of (drop_stale now m) ip =
     (case map_of m ip of
        None \<Rightarrow> None
      | Some pairs \<Rightarrow>
          let kept = retain_values (\<lambda>e. \<not> is_stale e now) pairs
          in if kept = [] then None else Some kept)"
proof (induction m)
  case Nil
  then show ?case by (simp add: drop_stale_def)
next
  case (Cons a m)
  obtain x pairs where a: "a = (x, pairs)" by force
  have "map_of m x = None" using Cons.prems by (simp add: a map_of_eq_None_iff)
  with Cons show ?case by (auto simp: a drop_stale_Cons Let_def split: option.splits)
qed

lemma keys_drop_stale: "keys_distinct m \<Longrightarrow> keys_distinct (drop_stale now m)"
proof (induction m)
  case Nil
  then show ?case by (simp add: drop_stale_def)
next
  case (Cons a m)
  obtain x pairs where a: "a = (x, pairs)" by force
  from Cons drop_stale_keys [of now m] show ?case
    by (auto simp: a drop_stale_Cons Let_def)
qed

lemma buckets_drop_stale: "buckets_wf m \<Longrightarrow> buckets_wf (drop_stale now m)"
  unfolding buckets_wf_def
proof (intro conjI allI impI)
  fix ip pairs
  assume wf: "keys_distinct m \<and>
      (\<forall>ip pairs. (ip, pairs) \<in> set m \<longrightarrow> keys_distinct pairs \<and> pairs \<noteq> [])"
  assume "(ip, pairs) \<in> set (drop_stale now m)"
  then obtain ps where "(ip, ps) \<in> set m"
    and "pairs = retain_values (\<lambda>e. \<not> is_stale e now) ps" and "pairs \<noteq> []"
    by (auto simp: drop_stale_def)
  with wf show "keys_distinct pairs" and "pairs \<noteq> []"
    by (auto intro: keys_distinct_retain)
qed (auto intro: keys_drop_stale)

lemma pairs_of_drop_stale:
  "table_wf t \<Longrightarrow>
   pairs_of (t\<lparr>by_ip := drop_stale now (by_ip t), total := n\<rparr>) ip =
     retain_values (\<lambda>e. \<not> is_stale e now) (pairs_of t ip)"
  by (auto simp: pairs_of_def table_wf_def buckets_wf_def map_of_drop_stale Let_def
      retain_values_def split: option.split)

lemma tallied_put:
  assumes "table_wf t" "tallied n t"
  shows "tallied n ((put ip email e t)\<lparr>total := total t + (if get t ip email = None then 1 else 0)\<rparr>)"
proof -
  have kd: "keys_distinct (by_ip t)" using assms(1) by (simp add: table_wf_def buckets_wf_def)
  have len: "length (AList.update email e (pairs_of t ip)) =
      length (pairs_of t ip) + (if get t ip email = None then 1 else 0)"
    using held_by_put [of ip email e t ip] by (simp add: held_by_pairs_of pairs_of_put)
  have "sum_values length (by_ip (put ip email e t)) + length (pairs_of t ip) =
      sum_values length (by_ip t) + length (AList.update email e (pairs_of t ip))"
    using sum_values_update [OF kd, of length ip "AList.update email e (pairs_of t ip)"]
    by (simp add: put_def pairs_of_def split: option.splits)
  with assms(2) show ?thesis by (simp add: tallied_def len)
qed

lemma total_put [simp]: "total (put ip email e t) = total t"
  by (simp add: put_def)

lemma tallied_put_held:
  "table_wf t \<Longrightarrow> tallied n t \<Longrightarrow> get t ip email \<noteq> None \<Longrightarrow> tallied n (put ip email e t)"
  using tallied_put [of t n ip email e] by (auto simp: tallied_def)

lemma tallied_put_new:
  "table_wf t \<Longrightarrow> tallied n t \<Longrightarrow> get t ip email = None \<Longrightarrow>
   tallied n ((put ip email e t)\<lparr>total := total t + 1\<rparr>)"
  using tallied_put [of t n ip email e] by simp

lemma sum_values_store:
  assumes "keys_distinct m" "map_of m ip = Some old"
  shows "sum_values length (store_pairs ip pairs m) + length old =
    sum_values length m + length pairs"
  using sum_values_update [OF assms(1), of length ip pairs]
    sum_values_delete [OF assms(1), of length ip] assms(2)
  by (auto simp: store_pairs_def)

lemma tallied_remove:
  assumes wf: "table_wf t" and tal: "tallied n t"
  shows "tallied n (remove t ip email)"
proof (cases "map_of (by_ip t) ip")
  case None
  with tal show ?thesis by (simp add: remove_def)
next
  case (Some pairs)
  have kd: "keys_distinct (by_ip t)" and kp: "keys_distinct pairs"
    using wf wf_bucket [OF wf Some] by (auto simp: table_wf_def buckets_wf_def)
  have "length pairs = length (AList.delete email pairs) + (if map_of pairs email \<noteq> None then 1 else 0)"
    using sum_values_delete [OF kp, of "\<lambda>_. 1" email]
    by (auto simp: sum_values_def case_prod_beta' map_replicate_const sum_list_replicate
        split: option.splits)
  with sum_values_store [OF kd Some, of "AList.delete email pairs"] tal
  show ?thesis by (auto simp: remove_def Some tallied_def)
qed

lemma tallied_reclaim:
  assumes wf: "table_wf t" and tal: "tallied n t"
  shows "tallied n (reclaim_address t ip now)"
proof (cases "map_of (by_ip t) ip")
  case None
  with tal show ?thesis by (simp add: reclaim_address_def)
next
  case (Some pairs)
  have kd: "keys_distinct (by_ip t)"
    using wf by (simp add: table_wf_def buckets_wf_def)
  let ?kept = "retain_values (\<lambda>e. \<not> is_stale e now) pairs"
  have "length ?kept \<le> length pairs" by (rule length_retain_le)
  with sum_values_store [OF kd Some, of ?kept] tal
  show ?thesis by (simp add: reclaim_address_def Some tallied_def Let_def)
qed

lemma total_reclaim_le: "total (reclaim_address t ip now) \<le> total t"
  by (simp add: reclaim_address_def Let_def split: option.split)

lemma sum_drop_stale_le: "sum_values length (drop_stale now m) \<le> sum_values length m"
proof (induction m)
  case Nil
  then show ?case by (simp add: drop_stale_def)
next
  case (Cons a m)
  obtain x pairs where "a = (x, pairs)" by force
  with Cons length_retain_le [of "\<lambda>e. \<not> is_stale e now" pairs] show ?case
    by (auto simp: drop_stale_Cons Let_def)
qed

section \<open>Making room\<close>

definition live_pairs :: "('a, 'e) table \<Rightarrow> instant \<Rightarrow> 'a \<Rightarrow> ('e \<times> entry) list" where
  "live_pairs t now ip = retain_values (\<lambda>e. \<not> is_stale e now) (pairs_of t ip)"

definition without_stale :: "('a, 'e) table \<Rightarrow> instant \<Rightarrow> ('a, 'e) table" where
  "without_stale t now =
     t\<lparr>by_ip := drop_stale now (by_ip t),
       total := sum_values length (drop_stale now (by_ip t))\<rparr>"

definition victim :: "('a, 'e) table \<Rightarrow> instant \<Rightarrow> ('a \<times> 'e \<times> entry) option" where
  "victim t now = min_by_key (\<lambda>(_, _, e). eviction_key now e) (eviction_candidates (by_ip t))"

lemma make_room_cases:
  "make_room t now =
     (if total t < MAX_TRACKED then t
      else if total (without_stale t now) < MAX_TRACKED then without_stale t now
      else (case victim (without_stale t now) now of
              None \<Rightarrow> without_stale t now
            | Some (ip, email, _) \<Rightarrow> remove (without_stale t now) ip email))"
  unfolding make_room_def without_stale_def victim_def Let_def by simp

lemma wf_without_stale: "table_wf t \<Longrightarrow> table_wf (without_stale t now)"
  by (simp add: without_stale_def table_wf_def buckets_drop_stale)

lemma pairs_of_without_stale:
  "table_wf t \<Longrightarrow> pairs_of (without_stale t now) ip = live_pairs t now ip"
  unfolding without_stale_def live_pairs_def by (rule pairs_of_drop_stale)

lemma get_without_stale:
  "table_wf t \<Longrightarrow>
   get (without_stale t now) ip email =
     (case get t ip email of
        None \<Rightarrow> None
      | Some e \<Rightarrow> if is_stale e now then None else Some e)"
  by (auto simp: get_pairs_of pairs_of_without_stale live_pairs_def map_of_retain wf_pairs_of
      split: option.split)

lemma tallied_without_stale: "tallied 0 (without_stale t now)"
  by (simp add: tallied_def without_stale_def)

lemma total_without_stale_le: "tallied n t \<Longrightarrow> total (without_stale t now) \<le> total t"
  using sum_drop_stale_le [of now "by_ip t"] by (simp add: tallied_def without_stale_def)

lemma candidate_in:
  "(ip, email, e) \<in> set (eviction_candidates m) \<longleftrightarrow>
     (\<exists>pairs. (ip, pairs) \<in> set m \<and> (email, e) \<in> set pairs \<and>
        length pairs = max_or_0 (map (\<lambda>(_, pairs). length pairs) m))"
  by (force simp: eviction_candidates_def Let_def)

lemma bucket_pairs_of:
  "table_wf t \<Longrightarrow> (ip, pairs) \<in> set (by_ip t) \<longleftrightarrow> pairs_of t ip = pairs \<and> pairs \<noteq> []"
  by (auto simp: table_wf_def buckets_wf_def pairs_of_def dest: map_of_SomeD
      split: option.splits)
     (auto intro: eq_key_imp_eq_value)

lemma candidates_iff:
  assumes "table_wf t"
  shows "(ip, email, e) \<in> set (eviction_candidates (by_ip t)) \<longleftrightarrow>
    get t ip email = Some e \<and> (\<forall>ip'. held_by t ip' \<le> held_by t ip)"
proof -
  let ?most = "max_or_0 (map (\<lambda>(_, pairs). length pairs) (by_ip t))"
  have le: "held_by t ip' \<le> ?most" for ip'
  proof (cases "map_of (by_ip t) ip'")
    case None
    then show ?thesis by (simp add: held_by_def)
  next
    case (Some pairs)
    then have "length pairs \<in> set (map (\<lambda>(_, pairs). length pairs) (by_ip t))"
      by (force dest: map_of_SomeD)
    with Some show ?thesis by (simp add: held_by_def max_or_0_ge)
  qed
  have reach: "\<exists>ip'. held_by t ip' = ?most" if "by_ip t \<noteq> []"
    using max_or_0_in [of "map (\<lambda>(_, pairs). length pairs) (by_ip t)"] that assms
    by (force simp: held_by_pairs_of bucket_pairs_of)
  have wfp: "keys_distinct (pairs_of t ip)" by (rule wf_pairs_of [OF assms])
  have iff: "(ip, email, e) \<in> set (eviction_candidates (by_ip t)) \<longleftrightarrow>
      get t ip email = Some e \<and> held_by t ip = ?most"
    by (auto simp: candidate_in bucket_pairs_of [OF assms] get_pairs_of held_by_pairs_of wfp
        dest: map_of_SomeD)
  show ?thesis
  proof (cases "get t ip email = Some e")
    case True
    then have "by_ip t \<noteq> []" by (auto simp: get_def)
    then obtain ip' where "held_by t ip' = ?most" using reach by blast
    with le show ?thesis unfolding iff by (metis le_antisym)
  next
    case False
    then show ?thesis by (simp add: iff)
  qed
qed

lemma victim_Some:
  assumes "table_wf t" "victim t now = Some (ip, email, e)"
  shows "get t ip email = Some e" "held_by t ip' \<le> held_by t ip"
    "get t ip' email' = Some e' \<Longrightarrow> held_by t ip' = held_by t ip \<Longrightarrow>
       eviction_key now e \<le> eviction_key now e'"
proof -
  have c: "(ip, email, e) \<in> set (eviction_candidates (by_ip t))"
    using assms(2) unfolding victim_def by (rule min_by_key_in)
  then show "get t ip email = Some e" and le: "held_by t ip' \<le> held_by t ip" for ip'
    by (simp_all add: candidates_iff [OF assms(1)])
  show "eviction_key now e \<le> eviction_key now e'"
    if "get t ip' email' = Some e'" "held_by t ip' = held_by t ip"
  proof -
    have "(ip', email', e') \<in> set (eviction_candidates (by_ip t))"
      using that le by (simp add: candidates_iff [OF assms(1)])
    from min_by_key_le [OF assms(2) [unfolded victim_def] this] show ?thesis by simp
  qed
qed

lemma victim_None: "table_wf t \<Longrightarrow> victim t now = None \<Longrightarrow> by_ip t = []"
proof (rule ccontr)
  assume wf: "table_wf t" and none: "victim t now = None" and ne: "by_ip t \<noteq> []"
  have "max_or_0 (map (\<lambda>(_, pairs). length pairs) (by_ip t)) \<in>
      set (map (\<lambda>(_, pairs). length pairs) (by_ip t))"
    using ne by (intro max_or_0_in) simp
  then obtain ip pairs where "(ip, pairs) \<in> set (by_ip t)"
    and len: "length pairs = max_or_0 (map (\<lambda>(_, pairs). length pairs) (by_ip t))"
    by force
  moreover from this have "pairs \<noteq> []" using wf by (auto simp: bucket_pairs_of)
  ultimately have "eviction_candidates (by_ip t) \<noteq> []"
    using candidate_in [of ip "fst (hd pairs)" "snd (hd pairs)" "by_ip t"]
    by (metis hd_in_set list.set(1) empty_iff prod.collapse)
  with none show False by (simp add: victim_def)
qed

lemma wf_make_room: "table_wf t \<Longrightarrow> table_wf (make_room t now)"
  by (auto simp: make_room_cases wf_without_stale wf_remove split: option.split)

lemma tallied_make_room:
  "table_wf t \<Longrightarrow> tallied n t \<Longrightarrow> n = 0 \<or> total t < MAX_TRACKED \<Longrightarrow> tallied n (make_room t now)"
  by (auto simp: make_room_cases tallied_without_stale tallied_remove wf_without_stale
      split: option.split)

lemma held_by_make_room_le: "table_wf t \<Longrightarrow> held_by (make_room t now) ip \<le> held_by t ip"
proof -
  assume wf: "table_wf t"
  have w: "held_by (without_stale t now) ip \<le> held_by t ip"
    by (simp add: held_by_pairs_of pairs_of_without_stale [OF wf] live_pairs_def length_retain_le)
  show ?thesis
    using w held_by_remove_le [of "without_stale t now"]
    by (auto simp: make_room_cases split: option.split intro: le_trans)
qed

lemma total_make_room:
  assumes wf: "table_wf t" and tal: "tallied n t" and le: "total t \<le> MAX_TRACKED"
  shows "total (make_room t now) < MAX_TRACKED"
proof -
  let ?w = "without_stale t now"
  have wle: "total ?w \<le> MAX_TRACKED"
    using total_without_stale_le [OF tal, of now] le by simp
  have pos: "0 < MAX_TRACKED" by (simp add: MAX_TRACKED_def)
  show ?thesis
  proof (cases "total t < MAX_TRACKED \<or> total ?w < MAX_TRACKED")
    case True
    then show ?thesis by (auto simp: make_room_cases)
  next
    case False
    then have full: "total ?w \<ge> MAX_TRACKED" by simp
    show ?thesis
    proof (cases "victim ?w now")
      case None
      then have "by_ip ?w = []" by (rule victim_None [OF wf_without_stale [OF wf]])
      then have "total ?w = 0" using tallied_without_stale [of t now] by (simp add: tallied_def)
      with full pos show ?thesis by simp
    next
      case (Some v)
      obtain ip email e where v: "v = (ip, email, e)" by (cases v) auto
      have held: "get ?w ip email = Some e"
        using victim_Some(1) [OF wf_without_stale [OF wf]] Some v by simp
      then obtain pairs where "map_of (by_ip ?w) ip = Some pairs" "map_of pairs email = Some e"
        by (auto simp: get_def split: option.splits)
      then have "total (remove ?w ip email) = total ?w - 1" by (simp add: remove_def)
      with False Some v wle pos show ?thesis by (simp add: make_room_cases)
    qed
  qed
qed

lemma get_make_room_kept:
  "table_wf t \<Longrightarrow> get (make_room t now) ip email = Some e \<Longrightarrow> get t ip email = Some e"
  by (auto simp: make_room_cases get_without_stale get_remove
      split: if_splits option.splits)

lemma get_make_room_None:
  "table_wf t \<Longrightarrow> get t ip email = None \<Longrightarrow> get (make_room t now) ip email = None"
  using get_make_room_kept [of t now ip email] by (cases "get (make_room t now) ip email") auto

section \<open>Admissions\<close>

lemma attempt_locked:
  "locked_at e now = Some until \<Longrightarrow> attempt e now = (Locked (since until now), e)"
  by (simp add: attempt_def)

lemma attempt_free:
  "locked_at e now = None \<Longrightarrow> fst (attempt e now) = Allow"
  by (simp add: attempt_def Let_def)

lemma admit_held:
  "get t ip email = Some e \<Longrightarrow>
   admit t ip email now = Some (fst (attempt e now), put ip email (snd (attempt e now)) t)"
  by (simp add: admit_def refuse_at_share_def case_prod_beta' Let_def)

lemma admit_at_share:
  "get t ip email = None \<Longrightarrow> held_by (reclaim_address t ip now) ip \<ge> MAX_PAIRS_PER_IP \<Longrightarrow>
   admit t ip email now =
     Some (Locked (address_frees_up_in (reclaim_address t ip now) ip now), reclaim_address t ip now)"
  by (simp add: admit_def refuse_at_share_def Let_def)

lemma pairs_of_put_total:
  "pairs_of ((put ip email e t)\<lparr>total := n\<rparr>) ip' =
     (if ip' = ip then AList.update email e (pairs_of t ip) else pairs_of t ip')"
  by (simp add: pairs_of_put)

lemma get_reclaim_None:
  "table_wf t \<Longrightarrow> get t ip email = None \<Longrightarrow> get (reclaim_address t ip' now) ip email = None"
  by (simp add: get_reclaim)

definition admit_new :: "('a, 'e) table \<Rightarrow> 'a \<Rightarrow> 'e \<Rightarrow> instant \<Rightarrow> decision \<times> ('a, 'e) table" where
  "admit_new t ip email now =
     (let t1 = make_room (reclaim_address t ip now) now;
          t2 = (put ip email (fresh now) t1)\<lparr>total := total t1 + 1\<rparr>;
          (d, e) = attempt (fresh now) now
      in (d, put ip email e t2))"

lemma admit_within_share:
  assumes "table_wf t" "get t ip email = None"
    and "held_by (reclaim_address t ip now) ip < MAX_PAIRS_PER_IP"
  shows "admit t ip email now = Some (admit_new t ip email now)"
  using assms
  by (simp add: admit_def refuse_at_share_def Let_def get_reclaim_None admit_new_def
      case_prod_beta' get_put)

lemma attempt_fresh:
  "attempt (fresh now) now = (Allow, (fresh now)\<lparr>attempts := 1\<rparr>)"
  by (simp add: attempt_def fresh_def locked_at_def is_stale_def since_def MAX_FAILURES_def
      less_imp_le)

lemma admit_total: "table_wf t \<Longrightarrow> \<exists>d t'. admit t ip email now = Some (d, t')"
proof -
  assume wf: "table_wf t"
  show ?thesis
  proof (cases "get t ip email")
    case (Some e)
    then show ?thesis by (simp add: admit_held)
  next
    case None
    then show ?thesis
      using admit_at_share [of t ip email now] admit_within_share [OF wf None, of now]
      by (cases "held_by (reclaim_address t ip now) ip \<ge> MAX_PAIRS_PER_IP")
         (auto intro: prod.exhaust)
  qed
qed

text \<open>The three ways an admission goes, as one case rule.\<close>

lemma admit_cases [consumes 2, case_names held share new]:
  assumes "table_wf t" "admit t ip email now = Some (d, t')"
  obtains (held) e where "get t ip email = Some e" "d = fst (attempt e now)"
      "t' = put ip email (snd (attempt e now)) t"
  | (share) "get t ip email = None" "held_by (reclaim_address t ip now) ip \<ge> MAX_PAIRS_PER_IP"
      "d = Locked (address_frees_up_in t' ip now)" "t' = reclaim_address t ip now"
  | (new) "get t ip email = None" "held_by (reclaim_address t ip now) ip < MAX_PAIRS_PER_IP"
      "(d, t') = admit_new t ip email now"
proof (cases "get t ip email")
  case (Some e)
  with assms(2) have "d = fst (attempt e now)" "t' = put ip email (snd (attempt e now)) t"
    by (simp_all add: admit_held)
  with Some show thesis by (rule held)
next
  case None
  show thesis
  proof (cases "held_by (reclaim_address t ip now) ip \<ge> MAX_PAIRS_PER_IP")
    case True
    with assms(2) None show thesis by (intro share) (auto simp: admit_at_share)
  next
    case False
    with assms None show thesis by (intro new) (simp_all add: admit_within_share)
  qed
qed

lemma admit_new_parts:
  assumes wf: "table_wf t" and new: "get t ip email = None"
    and t': "(d, t') = admit_new t ip email now"
  shows "d = Allow" "table_wf t'"
    "get t' ip' email' =
       (if ip' = ip \<and> email' = email then Some ((fresh now)\<lparr>attempts := 1\<rparr>)
        else get (make_room (reclaim_address t ip now) now) ip' email')"
    "total t' = total (make_room (reclaim_address t ip now) now) + 1"
    "held_by t' ip' =
       held_by (make_room (reclaim_address t ip now) now) ip' + (if ip' = ip then 1 else 0)"
proof -
  let ?r = "make_room (reclaim_address t ip now) now"
  let ?t2 = "(put ip email (fresh now) ?r)\<lparr>total := total ?r + 1\<rparr>"
  have d: "d = Allow" and t'_eq: "t' = put ip email ((fresh now)\<lparr>attempts := 1\<rparr>) ?t2"
    using t' by (simp_all add: admit_new_def attempt_fresh Let_def)
  have wf_r: "table_wf ?r" by (intro wf_make_room wf_reclaim wf)
  have none: "get ?r ip email = None"
    by (rule get_make_room_None [OF wf_reclaim [OF wf] get_reclaim_None [OF wf new]])
  show "d = Allow" by (rule d)
  show "table_wf t'" unfolding t'_eq by (intro wf_put) (simp add: wf_put wf_r)
  show "get t' ip' email' =
       (if ip' = ip \<and> email' = email then Some ((fresh now)\<lparr>attempts := 1\<rparr>)
        else get ?r ip' email')"
    by (auto simp: t'_eq get_put)
  show "total t' = total ?r + 1" by (simp add: t'_eq)
  show "held_by t' ip' = held_by ?r ip' + (if ip' = ip then 1 else 0)"
    by (simp add: t'_eq held_by_put get_put none)
qed

lemma tallied_admit_new:
  assumes wf: "table_wf t" and tal: "tallied n t" and new: "get t ip email = None"
    and room: "n = 0 \<or> total t < MAX_TRACKED" and t': "(d, t') = admit_new t ip email now"
  shows "tallied n t'"
proof -
  let ?r = "make_room (reclaim_address t ip now) now"
  let ?t2 = "(put ip email (fresh now) ?r)\<lparr>total := total ?r + 1\<rparr>"
  have wf_r: "table_wf ?r" by (intro wf_make_room wf_reclaim wf)
  have tal_r: "tallied n ?r"
    using room total_reclaim_le [of t ip now]
    by (intro tallied_make_room wf_reclaim tallied_reclaim wf tal) auto
  have none: "get ?r ip email = None"
    by (rule get_make_room_None [OF wf_reclaim [OF wf] get_reclaim_None [OF wf new]])
  have "tallied n ?t2" by (rule tallied_put_new [OF wf_r tal_r none])
  then have "tallied n (put ip email ((fresh now)\<lparr>attempts := 1\<rparr>) ?t2)"
    by (intro tallied_put_held) (simp_all add: wf_put wf_r get_put)
  then show ?thesis using t' by (simp add: admit_new_def attempt_fresh Let_def)
qed

section \<open>What the table keeps, whatever it is asked\<close>

definition table_ok :: "('a, 'e) table \<Rightarrow> bool" where
  "table_ok t \<longleftrightarrow> table_wf t \<and> tallied 0 t \<and> share_kept t \<and> total t \<le> MAX_TRACKED"

lemma table_ok_empty: "table_ok (empty_table :: ('a, 'e) table)"
  by (simp add: table_ok_def empty_table_def table_wf_def buckets_wf_def tallied_def
      share_kept_def held_by_def)

lemma share_kept_admit:
  assumes wf: "table_wf t" and share: "share_kept t" and adm: "admit t ip email now = Some (d, t')"
  shows "share_kept t'"
  using wf adm
proof (cases rule: admit_cases)
  case (held e)
  with share show ?thesis by (simp add: share_kept_def held_by_put)
next
  case share
  with \<open>share_kept t\<close> show ?thesis
    by (auto simp: share_kept_def intro: le_trans [OF held_by_reclaim_le])
next
  case new
  have "held_by t' ip' \<le> MAX_PAIRS_PER_IP" for ip'
    using admit_new_parts(5) [OF wf new(1) new(3), of ip'] new(2) share
      held_by_make_room_le [OF wf_reclaim [OF wf], of ip now now ip']
      held_by_reclaim_le [of t ip now ip']
    by (auto simp: share_kept_def split: if_splits dest: spec [of _ ip'] intro: le_trans)
  then show ?thesis by (simp add: share_kept_def)
qed

lemma wf_admit:
  assumes wf: "table_wf t" and adm: "admit t ip email now = Some (d, t')"
  shows "table_wf t'"
  using wf adm
proof (cases rule: admit_cases)
  case (held e)
  with wf show ?thesis by (simp add: wf_put)
next
  case share
  with wf show ?thesis by (simp add: wf_reclaim)
next
  case new
  with wf show ?thesis by (blast intro: admit_new_parts(2))
qed

lemma tallied_admit:
  assumes wf: "table_wf t" and tal: "tallied n t" and room: "n = 0 \<or> total t < MAX_TRACKED"
    and adm: "admit t ip email now = Some (d, t')"
  shows "tallied n t'"
  using wf adm
proof (cases rule: admit_cases)
  case (held e)
  with wf tal show ?thesis by (auto intro: tallied_put_held)
next
  case share
  with wf tal show ?thesis by (auto intro: tallied_reclaim)
next
  case new
  with wf tal room show ?thesis by (blast intro: tallied_admit_new)
qed

lemma total_admit:
  assumes wf: "table_wf t" and tal: "tallied n t" and le: "total t \<le> MAX_TRACKED"
    and adm: "admit t ip email now = Some (d, t')"
  shows "total t' \<le> MAX_TRACKED"
  using wf adm
proof (cases rule: admit_cases)
  case (held e)
  with le show ?thesis by simp
next
  case share
  with le total_reclaim_le [of t ip now] show ?thesis by simp
next
  case new
  have "total (make_room (reclaim_address t ip now) now) < MAX_TRACKED"
    using le total_reclaim_le [of t ip now]
    by (intro total_make_room [OF wf_reclaim [OF wf] tallied_reclaim [OF wf tal]]) simp
  with admit_new_parts(4) [OF wf new(1) new(3)] show ?thesis by simp
qed

text \<open>
  C1. Asked anything by anyone, the table stays within its two bounds: an admission always
  answers (the \<open>expect\<close> cannot panic), no address ever holds more than
  \<open>MAX_PAIRS_PER_IP\<close> pairs, the table never tracks more than \<open>MAX_TRACKED\<close> pairs, and
  \<open>total\<close> is exactly the number of pairs held.
\<close>

theorem admit_keeps_bounds:
  assumes "table_ok t"
  shows "\<exists>d t'. admit t ip email now = Some (d, t') \<and> table_ok t' \<and>
           held_by t' ip' \<le> MAX_PAIRS_PER_IP \<and> total t' \<le> MAX_TRACKED"
proof -
  have t: "table_wf t" "tallied 0 t" "share_kept t" "total t \<le> MAX_TRACKED"
    using assms by (simp_all add: table_ok_def)
  obtain d t' where adm: "admit t ip email now = Some (d, t')"
    using admit_total [OF t(1)] by blast
  have "table_ok t'"
    using wf_admit [OF t(1) adm] tallied_admit [OF t(1,2) _ adm] share_kept_admit [OF t(1,3) adm]
      total_admit [OF t(1,2,4) adm]
    by (simp add: table_ok_def)
  with adm show ?thesis by (auto simp: table_ok_def share_kept_def)
qed

lemma admit_keeps_bounds_witness:
  "\<exists>d t'. admit (empty_table :: (nat, nat) table) 1 2 0 = Some (d, t') \<and> table_ok t' \<and>
     held_by t' 1 \<le> MAX_PAIRS_PER_IP \<and> total t' \<le> MAX_TRACKED"
  by (rule admit_keeps_bounds [OF table_ok_empty])

section \<open>Ten attempts per window\<close>

text \<open>One attempt on the table, as the limiter of one watched pair sees it.\<close>

definition watch_step ::
    "'a \<Rightarrow> 'e \<Rightarrow> ('a, 'e) table \<Rightarrow> 'a \<times> 'e \<times> instant \<Rightarrow> bool \<times> ('a, 'e) table" where
  "watch_step ip email t req =
     (let (ip', email', now) = req
      in case admit t ip' email' now of
           None \<Rightarrow> (False, t)
         | Some (d, t') \<Rightarrow> (d = Allow \<and> ip' = ip \<and> email' = email, t'))"

text \<open>The watched pair's window opened at \<open>w\<close>, and is open or locked until it ends.\<close>

definition in_window :: "'a \<Rightarrow> 'e \<Rightarrow> instant \<Rightarrow> ('a, 'e) table \<Rightarrow> bool" where
  "in_window ip email w t \<longleftrightarrow> table_wf t \<and>
     (case get t ip email of
        None \<Rightarrow> False
      | Some e \<Rightarrow> window_start e = w \<and>
          (case locked_until e of
             None \<Rightarrow> attempts e < MAX_FAILURES
           | Some until \<Rightarrow> w + WINDOW \<le> until))"

definition request_in_window ::
    "instant \<Rightarrow> ('a, 'e) table \<Rightarrow> 'a \<times> 'e \<times> instant \<Rightarrow> bool" where
  "request_in_window w t req \<longleftrightarrow>
     (let (ip, email, now) = req
      in w \<le> now \<and> now < w + WINDOW \<and> (total t < MAX_TRACKED \<or> get t ip email \<noteq> None))"

lemma request_in_window_iff:
  "request_in_window w t (ip, email, now) \<longleftrightarrow>
     w \<le> now \<and> now < w + WINDOW \<and> (total t < MAX_TRACKED \<or> get t ip email \<noteq> None)"
  by (simp add: request_in_window_def)

definition attempts_left :: "'a \<Rightarrow> 'e \<Rightarrow> instant \<Rightarrow> ('a, 'e) table \<Rightarrow> nat" where
  "attempts_left ip email w t =
     (case get t ip email of
        None \<Rightarrow> 0
      | Some e \<Rightarrow> if locked_until e = None then MAX_FAILURES - attempts e else 0)"

lemma in_window_not_stale:
  "in_window ip email w t \<Longrightarrow> get t ip email = Some e \<Longrightarrow> now < w + WINDOW \<Longrightarrow> \<not> is_stale e now"
  by (auto simp: in_window_def is_stale_def locked_at_def since_def max_def
      split: option.splits if_splits)

lemma watched_kept:
  assumes wf: "table_wf t" and g: "get t ip email = Some e" and live: "\<not> is_stale e now"
    and room: "total t < MAX_TRACKED \<or> get t ip' email' \<noteq> None"
    and other: "ip' \<noteq> ip \<or> email' \<noteq> email" and adm: "admit t ip' email' now = Some (d, t')"
  shows "get t' ip email = Some e"
  using wf adm
proof (cases rule: admit_cases)
  case (held e')
  with g other show ?thesis by (auto simp: get_put)
next
  case share
  with wf g live show ?thesis by (simp add: get_reclaim)
next
  case new
  have "total (reclaim_address t ip' now) < MAX_TRACKED"
    using room new(1) total_reclaim_le [of t ip' now] by simp
  then have "make_room (reclaim_address t ip' now) now = reclaim_address t ip' now"
    by (simp add: make_room_cases)
  with admit_new_parts(3) [OF wf new(1) new(3)] other g live wf
  show ?thesis by (auto simp: get_reclaim)
qed

lemma watch_budget:
  assumes win: "in_window ip email w t" and req: "request_in_window w t r"
    and r: "watch_step ip email t r = (b, t')"
  shows "in_window ip email w t' \<and>
    (if b then 1 else 0) + attempts_left ip email w t' \<le> attempts_left ip email w t"
proof -
  obtain ip' email' now where r3: "r = (ip', email', now)" by (cases r) auto
  have wf: "table_wf t" and now: "w \<le> now" "now < w + WINDOW"
    and room: "total t < MAX_TRACKED \<or> get t ip' email' \<noteq> None"
    using win req by (auto simp: in_window_def request_in_window_def r3)
  obtain e where g: "get t ip email = Some e" and ws: "window_start e = w"
    using win by (auto simp: in_window_def split: option.splits)
  have live: "\<not> is_stale e now" using in_window_not_stale [OF win g now(2)] .
  obtain d t1 where adm: "admit t ip' email' now = Some (d, t1)"
    using admit_total [OF wf] by blast
  have t': "t' = t1" and b: "b \<longleftrightarrow> d = Allow \<and> ip' = ip \<and> email' = email"
    using r by (auto simp: watch_step_def r3 adm)
  have wf': "table_wf t1" by (rule wf_admit [OF wf adm])
  show ?thesis
  proof (cases "ip' = ip \<and> email' = email")
    case False
    then have "get t1 ip email = Some e"
      using watched_kept [OF wf g live room _ adm] by blast
    then show ?thesis
      using win False g wf' by (simp add: t' b in_window_def attempts_left_def)
  next
    case True
    then have t1: "d = fst (attempt e now)" "t1 = put ip email (snd (attempt e now)) t"
      using adm g by (simp_all add: admit_held)
    show ?thesis
    proof (cases "locked_until e")
      case None
      with live show ?thesis
        using win g ws now wf' True
        by (auto simp: t' b t1 in_window_def attempts_left_def get_put attempt_def locked_at_def
            Let_def MAX_FAILURES_def WINDOW_def LOCKOUT_def secs_def)
    next
      case (Some until)
      with win g now have "locked_at e now = Some until"
        by (simp add: in_window_def locked_at_def)
      then show ?thesis
        using win g wf' True Some
        by (auto simp: t' b t1 in_window_def attempts_left_def get_put attempt_locked)
    qed
  qed
qed

interpretation pair_budget: window_budget "watch_step ip email"
    "\<lambda>w. request_in_window w" "in_window ip email" "attempts_left ip email"
  for ip :: 'a and email :: 'e
proof
  fix w and t :: "('a, 'e) table" and r
  assume win: "in_window ip email w t" and req: "request_in_window w t r"
  obtain b t' where s: "watch_step ip email t r = (b, t')" by force
  note budget = watch_budget [OF win req s]
  show "in_window ip email w (snd (watch_step ip email t r))" using budget by (simp add: s)
  show "Suc (attempts_left ip email w (snd (watch_step ip email t r))) \<le> attempts_left ip email w t"
    if "fst (watch_step ip email t r)" using budget that by (simp add: s)
  show "attempts_left ip email w (snd (watch_step ip email t r)) \<le> attempts_left ip email w t"
    if "\<not> fst (watch_step ip email t r)" using budget that by (simp add: s)
qed

lemma total_watch_step:
  assumes wf: "table_wf t" and room: "total t < MAX_TRACKED"
  shows "total (snd (watch_step ip email t r)) \<le> total t + 1"
proof -
  obtain ip' email' now where r3: "r = (ip', email', now)" by (cases r) auto
  obtain d t1 where adm: "admit t ip' email' now = Some (d, t1)"
    using admit_total [OF wf] by blast
  have "total t1 \<le> total t + 1"
    using wf adm
  proof (cases rule: admit_cases)
    case (held e)
    then show ?thesis by simp
  next
    case share
    then show ?thesis using total_reclaim_le [of t ip' now] by simp
  next
    case new
    have "total (reclaim_address t ip' now) \<le> total t" by (rule total_reclaim_le)
    with room admit_new_parts(4) [OF wf new(1) new(3)] show ?thesis by (simp add: make_room_cases)
  qed
  then show ?thesis by (simp add: watch_step_def r3 adm)
qed

lemma wf_watch_step: "table_wf t \<Longrightarrow> table_wf (snd (watch_step ip email t r))"
  by (auto simp: watch_step_def wf_admit split: prod.split option.split)

lemma run_in_window:
  assumes "table_wf t" and "total t + length reqs \<le> MAX_TRACKED"
    and "list_all (\<lambda>(_, _, now). w \<le> now \<and> now < w + WINDOW) reqs"
  shows "run_in (watch_step ip email) (request_in_window w) t reqs"
  using assms
proof (induction reqs arbitrary: t)
  case Nil
  then show ?case by simp
next
  case (Cons r reqs)
  obtain ip' email' now where r: "r = (ip', email', now)" by (cases r) auto
  let ?t = "snd (watch_step ip email t r)"
  have room: "total t < MAX_TRACKED" using Cons.prems(2) by simp
  have "run_in (watch_step ip email) (request_in_window w) ?t reqs"
    using Cons.prems total_watch_step [OF Cons.prems(1) room, of ip email r]
      wf_watch_step [OF Cons.prems(1)]
    by (intro Cons.IH) auto
  with Cons.prems(3) room show ?case by (simp add: request_in_window_iff r)
qed

text \<open>
  An attempt at \<open>w\<close> opens a window for a pair: the table does not hold the pair, or its
  lock has passed, or it has no lock and its window of fifteen minutes is over.
\<close>

definition opens_window :: "('a, 'e) table \<Rightarrow> 'a \<Rightarrow> 'e \<Rightarrow> instant \<Rightarrow> bool" where
  "opens_window t ip email w \<longleftrightarrow>
     (case get t ip email of
        None \<Rightarrow> True
      | Some e \<Rightarrow>
          (case locked_until e of
             Some until \<Rightarrow> until \<le> w
           | None \<Rightarrow> window_start e + secs (15 * 60) < w))"

lemma opens_window_stale:
  "opens_window t ip email w \<Longrightarrow> get t ip email = Some e \<Longrightarrow> locked_at e w = None \<and> is_stale e w"
  by (auto simp: opens_window_def is_stale_def locked_at_def since_def WINDOW_def secs_def max_def
      split: option.splits)

lemma attempt_stale:
  "locked_at e now = None \<and> is_stale e now \<Longrightarrow>
   attempt e now = (Allow, (fresh now)\<lparr>attempts := 1\<rparr>)"
  by (simp add: attempt_def fresh_def MAX_FAILURES_def)

lemma opened_window:
  assumes wf: "table_wf t" and opens: "opens_window t ip email w"
    and first: "admit t ip email w = Some (Allow, t1)"
  shows "get t1 ip email = Some ((fresh w)\<lparr>attempts := 1\<rparr>)"
  using wf first
proof (cases rule: admit_cases)
  case (held e)
  then show ?thesis using attempt_stale [OF opens_window_stale [OF opens held(1)]] by (simp add: get_put)
next
  case new
  then show ?thesis using admit_new_parts(3) [OF wf new(1) new(3)] by simp
qed simp

text \<open>
  C2. Ten attempts per window. An attempt on a pair is admitted at \<open>w\<close> and opens a window:
  the table did not hold the pair, or held it with a lock that has passed or a window that is
  over. It is then followed, within the fifteen minutes from \<open>w\<close>, by any number of attempts
  on that pair mixed in any order with any others from any address. However they
  interleave, at most ten attempts on the pair are admitted, the first included, as long as
  the table has room for the new pairs (no eviction). An attempt that falls in a window
  already running is not covered: the ones admitted earlier in it count with it.
\<close>

theorem ten_admissions_per_window:
  assumes wf: "table_wf t" and opens: "opens_window t ip email w"
    and first: "admit t ip email w = Some (Allow, t1)"
    and room: "total t + length reqs < MAX_TRACKED"
    and times: "list_all (\<lambda>(_, _, now). w \<le> now \<and> now < w + secs (15 * 60)) reqs"
  shows "admissions (watch_step ip email) t ((ip, email, w) # reqs) \<le> 10"
proof -
  have step: "watch_step ip email t (ip, email, w) = (True, t1)"
    by (simp add: watch_step_def first)
  have wf1: "table_wf t1" by (rule wf_admit [OF wf first])
  have total1: "total t1 \<le> total t + 1"
    using total_watch_step [OF wf, of ip email "(ip, email, w)"] room by (simp add: step)
  have run: "run_in (watch_step ip email) (request_in_window w) t1 reqs"
    using run_in_window [OF wf1 _ times [folded WINDOW_def]] total1 room by simp
  note g1 = opened_window [OF wf opens first]
  then have "in_window ip email w t1"
    by (simp add: in_window_def wf1 fresh_def MAX_FAILURES_def)
  from pair_budget.admissions_bounded [OF this run] g1
  show ?thesis by (simp add: step attempts_left_def fresh_def MAX_FAILURES_def)
qed

text \<open>A pair left with nine attempts sixteen minutes ago opens a new window.\<close>

lemma ten_admissions_per_window_witness:
  "admissions (watch_step (1 :: nat) (2 :: nat))
     \<lparr>by_ip = [(1, [(2, \<lparr>attempts = 9, window_start = 0, locked_until = None\<rparr>)])], total = 1\<rparr>
     ((1, 2, secs (16 * 60)) # replicate 20 (1, 2, secs (17 * 60))) \<le> 10"
proof (rule ten_admissions_per_window)
  let ?t = "\<lparr>by_ip = [(1 :: nat, [(2 :: nat, \<lparr>attempts = 9, window_start = 0, locked_until = None\<rparr>)])],
    total = 1\<rparr>"
  show "table_wf ?t" by (simp add: table_wf_def buckets_wf_def)
  show "opens_window ?t 1 2 (secs (16 * 60))" by (simp add: opens_window_def get_def secs_def)
  show "admit ?t 1 2 (secs (16 * 60)) =
      Some (Allow, \<lparr>by_ip = [(1, [(2, (fresh (secs (16 * 60)))\<lparr>attempts := 1\<rparr>)])], total = 1\<rparr>)"
    by code_simp
  show "total ?t + length (replicate 20 (1 :: nat, 2 :: nat, secs (17 * 60))) < MAX_TRACKED"
    by (simp add: MAX_TRACKED_def)
  show "list_all (\<lambda>(_, _, now). secs (16 * 60) \<le> now \<and> now < secs (16 * 60) + secs (15 * 60))
      (replicate 20 (1 :: nat, 2 :: nat, secs (17 * 60)))"
    by (simp add: list_all_iff secs_def)
qed

text \<open>
  The attempt that reaches \<open>MAX_FAILURES\<close> is still admitted and locks the pair: for
  the next \<open>LOCKOUT\<close> every attempt on it is refused, told the time that is really left, and
  leaves the table exactly as it is, so refused attempts never extend the lock.
\<close>

theorem tenth_attempt_locks:
  assumes held: "get t ip email = Some e" and nine: "attempts e + 1 = MAX_FAILURES"
    and unlocked: "locked_until e = None" and fresh_window: "since now (window_start e) \<le> WINDOW"
    and later: "now \<le> again" "again < now + LOCKOUT"
  shows "\<exists>t'. admit t ip email now = Some (Allow, t') \<and>
           admit t' ip email again = Some (Locked (now + LOCKOUT - again), t')"
proof -
  let ?e = "e\<lparr>attempts := MAX_FAILURES, locked_until := Some (now + LOCKOUT)\<rparr>"
  let ?t = "put ip email ?e t"
  have "attempt e now = (Allow, ?e)"
    using nine unlocked fresh_window by (simp add: attempt_def locked_at_def is_stale_def Let_def)
  then have one: "admit t ip email now = Some (Allow, ?t)" by (simp add: admit_held [OF held])
  have "locked_at ?e again = Some (now + LOCKOUT)" using later by (simp add: locked_at_def)
  then have "attempt ?e again = (Locked (now + LOCKOUT - again), ?e)"
    using later by (simp add: attempt_locked since_pos)
  moreover have "put ip email ?e ?t = ?t"
    by (simp add: put_def pairs_of_def alist_simps)
  ultimately have "admit ?t ip email again = Some (Locked (now + LOCKOUT - again), ?t)"
    by (simp add: admit_held [of ?t ip email ?e] get_put)
  with one show ?thesis by blast
qed

lemma tenth_attempt_locks_witness:
  "\<exists>t'. admit \<lparr>by_ip = [(1 :: nat, [(2 :: nat, \<lparr>attempts = 9, window_start = 0, locked_until = None\<rparr>)])],
              total = 1\<rparr> 1 2 60 = Some (Allow, t') \<and>
        admit t' 1 2 100 = Some (Locked (60 + LOCKOUT - 100), t')"
  by (rule tenth_attempt_locks [where e = "\<lparr>attempts = 9, window_start = 0, locked_until = None\<rparr>"])
     (simp_all add: get_def MAX_FAILURES_def since_def WINDOW_def LOCKOUT_def secs_def)

section \<open>Who is evicted\<close>

lemma get_live: "table_wf t \<Longrightarrow> get t ip email = Some e \<Longrightarrow> \<not> is_stale e now \<Longrightarrow>
    get (without_stale t now) ip email = Some e"
  by (simp add: get_without_stale)

text \<open>
  Making room costs a live pair only when the table is full of live pairs, and then only
  one pair, of an address that holds the most live pairs: no other address holds more than
  its own, and among the addresses holding as many, no pair is preferable as a victim (an
  unlocked pair before a locked one, then the earliest). So a household holding one pair is
  evicted only when every address of the table holds at most one.
\<close>

theorem eviction_spares_the_small:
  assumes wf: "table_wf t" and g: "get t ip email = Some e" and live: "\<not> is_stale e now"
  shows "get (make_room t now) ip email = Some e \<or>
    (get (make_room t now) ip email = None \<and> MAX_TRACKED \<le> total t \<and>
     (\<forall>ip'. length (live_pairs t now ip') \<le> length (live_pairs t now ip)) \<and>
     (\<forall>ip' email' e'. get t ip' email' = Some e' \<longrightarrow> \<not> is_stale e' now \<longrightarrow>
        length (live_pairs t now ip') = length (live_pairs t now ip) \<longrightarrow>
        eviction_key now e \<le> eviction_key now e') \<and>
     (\<forall>ip' email' e'. get t ip' email' = Some e' \<longrightarrow> \<not> is_stale e' now \<longrightarrow>
        (ip', email') \<noteq> (ip, email) \<longrightarrow> get (make_room t now) ip' email' = Some e'))"
proof (cases "get (make_room t now) ip email")
  case (Some e')
  with get_make_room_kept [OF wf Some] g show ?thesis by simp
next
  case gone: None
  let ?w = "without_stale t now"
  have wfw: "table_wf ?w" by (rule wf_without_stale [OF wf])
  have held: "held_by ?w ip' = length (live_pairs t now ip')" for ip'
    by (simp add: held_by_pairs_of pairs_of_without_stale [OF wf])
  have gw: "get ?w ip email = Some e" by (rule get_live [OF wf g live])
  have full: "MAX_TRACKED \<le> total t" using g gone by (auto simp: make_room_cases split: if_splits)
  obtain vip vemail ve where v: "victim ?w now = Some (vip, vemail, ve)"
    and room: "make_room t now = remove ?w vip vemail"
    using g gw gone by (auto simp: make_room_cases split: if_splits option.splits)
  have me: "vip = ip" "vemail = email" using gone gw by (auto simp: room get_remove split: if_splits)
  have "ve = e" using victim_Some(1) [OF wfw v] gw me by simp
  have best: "eviction_key now e \<le> eviction_key now e'"
    if "get t ip' email' = Some e'" "\<not> is_stale e' now"
      "length (live_pairs t now ip') = length (live_pairs t now ip)" for ip' email' e'
    using victim_Some(3) [OF wfw v, of ip' email' e'] get_live [OF wf that(1,2)] that(3) me held
      \<open>ve = e\<close> by simp
  have most: "length (live_pairs t now ip') \<le> length (live_pairs t now ip)" for ip'
    using victim_Some(2) [OF wfw v, of ip'] me held by simp
  have rest: "get (make_room t now) ip' email' = Some e'"
    if "get t ip' email' = Some e'" "\<not> is_stale e' now" "(ip', email') \<noteq> (ip, email)"
    for ip' email' e'
    using get_live [OF wf that(1,2)] that(3) me by (auto simp: room get_remove)
  from gone full most best rest show ?thesis by blast
qed

lemma eviction_spares_the_small_witness:
  "let t = \<lparr>by_ip = [(1 :: nat, [(2 :: nat, fresh 0)])], total = 1\<rparr>
   in get (make_room t 60) 1 2 = Some (fresh 0) \<or>
    (get (make_room t 60) 1 2 = None \<and> MAX_TRACKED \<le> total t \<and>
     (\<forall>ip'. length (live_pairs t 60 ip') \<le> length (live_pairs t 60 1)) \<and>
     (\<forall>ip' email' e'. get t ip' email' = Some e' \<longrightarrow> \<not> is_stale e' 60 \<longrightarrow>
        length (live_pairs t 60 ip') = length (live_pairs t 60 1) \<longrightarrow>
        eviction_key 60 (fresh 0) \<le> eviction_key 60 e') \<and>
     (\<forall>ip' email' e'. get t ip' email' = Some e' \<longrightarrow> \<not> is_stale e' 60 \<longrightarrow>
        (ip', email') \<noteq> (1, 2) \<longrightarrow> get (make_room t 60) ip' email' = Some e'))"
  unfolding Let_def
  by (rule eviction_spares_the_small)
     (simp_all add: table_wf_def buckets_wf_def get_def fresh_def is_stale_def locked_at_def
       since_def WINDOW_def secs_def)

section \<open>Which clients share a key\<close>

lemma masked_not_mapped:
  "to_ipv4_mapped (push_bit 64 (drop_bit 64 v)) = None"
proof -
  have "\<not> bit (drop_bit 32 (push_bit 64 (drop_bit 64 v)) :: 128 word) 0"
    by (simp add: bit_drop_bit_eq bit_push_bit_iff)
  moreover have "bit (0xFFFF :: 128 word) 0" by simp
  ultimately have "drop_bit 32 (push_bit 64 (drop_bit 64 v)) \<noteq> (0xFFFF :: 128 word)" by metis
  then show ?thesis by (simp add: to_ipv4_mapped_def)
qed

lemma drop_push_drop: "drop_bit 64 (push_bit 64 (drop_bit 64 v)) = drop_bit 64 (v :: 128 word)"
  by (rule bit_word_eqI) (auto simp: bit_simps dest: bit_imp_le_length)

lemma masked_eq_iff:
  "push_bit 64 (drop_bit 64 v) = push_bit 64 (drop_bit 64 w) \<longleftrightarrow>
   drop_bit 64 (v :: 128 word) = drop_bit 64 w"
  by (metis drop_push_drop)

text \<open>
  The key of a client. Two IPv6 addresses that do not carry an IPv4 one are counted
  together exactly when they are in the same /64; the IPv4-mapped form of an address is
  counted as that IPv4 address, never folded with the others of \<open>::/64\<close>; and reducing an
  address twice changes nothing.
\<close>

theorem address_scope_groups:
  "address_scope (V4 a) = V4 a \<and>
   (to_ipv4_mapped v = Some a \<longrightarrow> address_scope (V6 v) = V4 a) \<and>
   (to_ipv4_mapped v = None \<longrightarrow> to_ipv4_mapped w = None \<longrightarrow>
      (address_scope (V6 v) = address_scope (V6 w) \<longleftrightarrow> drop_bit 64 v = drop_bit 64 w)) \<and>
   address_scope (address_scope ip) = address_scope ip"
proof -
  have v6: "address_scope (V6 v) = V6 (push_bit 64 (drop_bit 64 v))" if "to_ipv4_mapped v = None" for v
    using that by (simp add: address_scope_def IPV6_GROUP_PREFIX_def)
  have mapped: "address_scope (V6 v) = V4 a" if "to_ipv4_mapped v = Some a" for v a
    using that by (simp add: address_scope_def)
  have "address_scope (address_scope ip) = address_scope ip"
  proof (cases ip)
    case (V4 x)
    then show ?thesis by (simp add: address_scope_def)
  next
    case (V6 v)
    show ?thesis
    proof (cases "to_ipv4_mapped v")
      case None
      then show ?thesis
        by (simp add: V6 v6 v6 [OF masked_not_mapped] drop_push_drop)
    next
      case (Some a)
      then show ?thesis by (simp add: V6 mapped) (simp add: address_scope_def)
    qed
  qed
  then show ?thesis using v6 mapped masked_eq_iff by (simp add: address_scope_def)
qed

lemma address_scope_groups_witness:
  "to_ipv4_mapped 0xFFFF0A000001 = Some 0x0A000001 \<and>
   address_scope (V6 0xFFFF0A000001) = V4 0x0A000001 \<and>
   address_scope (V6 0x20010DB8000000010000000000000001) =
     address_scope (V6 0x20010DB800000001FFFFFFFFFFFFFFFF)"
proof -
  have m: "to_ipv4_mapped 0xFFFF0A000001 = Some 0x0A000001" by (simp add: to_ipv4_mapped_def)
  have n: "to_ipv4_mapped 0x20010DB8000000010000000000000001 = None"
    "to_ipv4_mapped 0x20010DB800000001FFFFFFFFFFFFFFFF = None" by (simp_all add: to_ipv4_mapped_def)
  have d: "drop_bit 64 (0x20010DB8000000010000000000000001 :: 128 word) =
      drop_bit 64 0x20010DB800000001FFFFFFFFFFFFFFFF" by simp
  from m n d show ?thesis
    using address_scope_groups [of "0x0A000001" "0xFFFF0A000001" 0 "V4 0"]
      address_scope_groups [of 0 "0x20010DB8000000010000000000000001"
        "0x20010DB800000001FFFFFFFFFFFFFFFF" "V4 0"] by blast
qed

end
