(* ===== verification/Throttle_Store.thy ===== *)
theory Throttle_Store
  imports Throttle
begin

text \<open>
  The rows of \<open>login_throttle\<close> and the transactions of \<open>LoginThrottle\<close>
  (\<open>apps/api/src/auth/throttle.rs\<close>). A row is keyed by the pseudonym of the address
  (\<open>scope\<close>) and of the pair; the pseudonyms are opaque here, since the decision only compares
  them. A transaction runs at READ COMMITTED: what other transactions commit between two of
  its statements is an argument, \<open>env\<close>, a function on the rows per gap between statements.
  An error of the database rolls the transaction back and is a value of \<open>db_error\<close>.
\<close>

section \<open>Rows\<close>

record login_row =
  row_attempts :: int
  row_window_start :: instant
  row_locked_until :: "instant option"

type_synonym ('s, 'p) login_rows = "(('s \<times> 'p) \<times> login_row) list"

datatype db_error = UniqueViolation | Panicked

definition I32_MAX :: int where "I32_MAX = 2147483647"

definition entry_from_row :: "login_row \<Rightarrow> entry" where
  "entry_from_row r =
     \<lparr>attempts = (if 0 \<le> row_attempts r then nat (row_attempts r) else 0),
      window_start = row_window_start r, locked_until = row_locked_until r\<rparr>"

text \<open>The bindings of \<open>write\<close>: \<open>i32::try_from(entry.attempts).unwrap_or(i32::MAX)\<close>.\<close>

definition row_of_entry :: "entry \<Rightarrow> login_row" where
  "row_of_entry e =
     \<lparr>row_attempts = (if int (attempts e) \<le> I32_MAX then int (attempts e) else I32_MAX),
      row_window_start = window_start e, row_locked_until = locked_until e\<rparr>"

definition load_rows ::
    "('s, 'p) table \<Rightarrow> ('s, 'p) login_rows \<Rightarrow> ('s, 'p) table" where
  "load_rows t rows = foldl (\<lambda>t ((s, p), r). load t s p (entry_from_row r)) t rows"

definition load_address ::
    "('s, 'p) login_rows \<Rightarrow> 's \<Rightarrow> ('s, 'p) table \<Rightarrow> ('s, 'p) table" where
  "load_address db scope t = load_rows t (filter (\<lambda>((s, _), _). s = scope) db)"

definition load_all :: "('s, 'p) login_rows \<Rightarrow> ('s, 'p) table \<Rightarrow> ('s, 'p) table" where
  "load_all db t = load_rows t db"

text \<open>
  The loop of \<open>write\<close> over \<open>changes.written\<close>: a pair \<open>before\<close> held is updated in place and
  the loop stops with \<open>false\<close> when its row is gone; a new pair is inserted, and the primary
  key refuses a second row.
\<close>

fun write_rows ::
    "('s, 'p) table \<Rightarrow> ('s \<times> 'p \<times> entry) list \<Rightarrow> ('s, 'p) login_rows \<Rightarrow>
     db_error + (bool \<times> ('s, 'p) login_rows)" where
  "write_rows before [] db = Inr (True, db)"
| "write_rows before ((s, p, e) # ws) db =
     (if get before s p \<noteq> None then
        (if map_of db (s, p) = None then Inr (False, db)
         else write_rows before ws (AList.update (s, p) (row_of_entry e) db))
      else
        (if map_of db (s, p) \<noteq> None then Inl UniqueViolation
         else write_rows before ws (AList.update (s, p) (row_of_entry e) db)))"

definition delete_rows :: "('s \<times> 'p) list \<Rightarrow> ('s, 'p) login_rows \<Rightarrow> ('s, 'p) login_rows" where
  "delete_rows ks db = filter (\<lambda>(k, _). k \<notin> set ks) db"

definition write_changes ::
    "('s, 'p) table \<Rightarrow> ('s, 'p) changes \<Rightarrow> ('s, 'p) login_rows \<Rightarrow>
     db_error + (bool \<times> ('s, 'p) login_rows)" where
  "write_changes before ch db = write_rows before (written ch) (delete_rows (removed ch) db)"

definition purge_expired :: "('s, 'p) login_rows \<Rightarrow> instant \<Rightarrow> nat \<times> ('s, 'p) login_rows" where
  "purge_expired db now =
     (let kept = filter (\<lambda>(_, r). \<not> row_window_start r \<le> purge_cutoff now) db
      in (length db - length kept, kept))"

section \<open>The admission transaction\<close>

text \<open>The tail of \<open>LoginThrottle::admit\<close>, under the table lock.\<close>

definition admit_newcomer ::
    "(nat \<Rightarrow> ('s, 'p) login_rows \<Rightarrow> ('s, 'p) login_rows) \<Rightarrow> instant \<Rightarrow> 's \<Rightarrow> 'p \<Rightarrow>
     ('s, 'p) login_rows \<Rightarrow> db_error + (decision \<times> ('s, 'p) login_rows)" where
  "admit_newcomer env now scope pair db =
     (let db1 = snd (purge_expired (env 2 db) now);
          db2 = env 3 db1;
          total' = length db2;
          db3 = env 4 db2;
          table = (if total' \<ge> MAX_TRACKED then load_all db3 empty_table
                   else (load_address db3 scope empty_table)\<lparr>total := total'\<rparr>)
      in case admit table scope pair now of
           None \<Rightarrow> Inl Panicked
         | Some (d, table') \<Rightarrow>
             (case write_changes table (between table table') (env 5 db3) of
                Inl err \<Rightarrow> Inl err
              | Inr (_, db4) \<Rightarrow> Inr (d, db4)))"

text \<open>
  \<open>LoginThrottle::admit\<close>: \<open>now\<close> is the clock read under the address lock, \<open>now2\<close> the one read
  under the table lock.
\<close>

definition login_admit ::
    "(nat \<Rightarrow> ('s, 'p) login_rows \<Rightarrow> ('s, 'p) login_rows) \<Rightarrow> instant \<Rightarrow> instant \<Rightarrow> 's \<Rightarrow> 'p \<Rightarrow>
     ('s, 'p) login_rows \<Rightarrow> db_error + (decision \<times> ('s, 'p) login_rows)" where
  "login_admit env now now2 scope pair db =
     (let db0 = env 0 db;
          loaded = load_address db0 scope empty_table
      in case refuse_at_share loaded scope pair now of
           (Some refused, table) \<Rightarrow>
             (case write_changes loaded (between loaded table) (env 1 db0) of
                Inl err \<Rightarrow> Inl err
              | Inr (_, db1) \<Rightarrow> Inr (refused, db1))
         | (None, table) \<Rightarrow>
             (if get table scope pair \<noteq> None then
                (case admit table scope pair now of
                   None \<Rightarrow> Inl Panicked
                 | Some (d, table') \<Rightarrow>
                     (case write_changes loaded (between loaded table') (env 1 db0) of
                        Inl err \<Rightarrow> Inl err
                      | Inr (True, db1) \<Rightarrow> Inr (d, db1)
                      | Inr (False, db1) \<Rightarrow> admit_newcomer env now2 scope pair db1))
              else admit_newcomer env now2 scope pair db0))"

definition record_success :: "'s \<Rightarrow> 'p \<Rightarrow> ('s, 'p) login_rows \<Rightarrow> ('s, 'p) login_rows" where
  "record_success scope pair db = AList.delete (scope, pair) db"

section \<open>Rows and tables agree\<close>

definition row_entry :: "('s, 'p) login_rows \<Rightarrow> 's \<Rightarrow> 'p \<Rightarrow> entry option" where
  "row_entry db s p = map_option entry_from_row (map_of db (s, p))"

text \<open>What every row written by the code satisfies.\<close>

definition entry_ok :: "entry \<Rightarrow> bool" where
  "entry_ok e \<longleftrightarrow> attempts e \<le> MAX_FAILURES \<and>
     (case locked_until e of
        None \<Rightarrow> attempts e < MAX_FAILURES
      | Some until \<Rightarrow> until \<le> window_start e + WINDOW + LOCKOUT)"

definition rows_ok :: "('s, 'p) login_rows \<Rightarrow> bool" where
  "rows_ok db \<longleftrightarrow> keys_distinct db \<and> (\<forall>s p e. row_entry db s p = Some e \<longrightarrow> entry_ok e)"

lemma entry_ok_attempt: "entry_ok e \<Longrightarrow> entry_ok (snd (attempt e now))"
  by (auto simp: entry_ok_def attempt_def Let_def is_stale_def fresh_def locked_at_def since_def
      MAX_FAILURES_def split: option.splits if_splits)

lemma entry_row_roundtrip: "entry_ok e \<Longrightarrow> entry_from_row (row_of_entry e) = e"
  by (simp add: entry_ok_def entry_from_row_def row_of_entry_def I32_MAX_def MAX_FAILURES_def)

lemma get_load: "get (load t s p e) s' p' = (if s' = s \<and> p' = p then Some e else get t s' p')"
  by (simp add: load_def Let_def get_put)

lemma wf_load: "table_wf t \<Longrightarrow> table_wf (load t s p e)"
  by (simp add: load_def Let_def wf_put)

lemma tallied_load: "table_wf t \<Longrightarrow> tallied n t \<Longrightarrow> tallied n (load t s p e)"
  using tallied_put_new [of t n s p e] tallied_put_held [of t n s p e]
  by (auto simp: load_def Let_def)

lemma load_rows_Cons: "load_rows t (((s, p), r) # rows) = load_rows (load t s p (entry_from_row r)) rows"
  by (simp add: load_rows_def)

lemma wf_load_rows: "table_wf t \<Longrightarrow> table_wf (load_rows t rows)"
  by (induction rows arbitrary: t) (auto simp: load_rows_Cons wf_load, simp add: load_rows_def)

lemma tallied_load_rows: "table_wf t \<Longrightarrow> tallied n t \<Longrightarrow> tallied n (load_rows t rows)"
  by (induction rows arbitrary: t)
     (auto simp: load_rows_Cons wf_load tallied_load, simp add: load_rows_def)

lemma get_load_rows:
  "keys_distinct rows \<Longrightarrow>
   get (load_rows t rows) s p =
     (case map_of rows (s, p) of None \<Rightarrow> get t s p | Some r \<Rightarrow> Some (entry_from_row r))"
proof (induction rows arbitrary: t)
  case Nil
  then show ?case by (simp add: load_rows_def)
next
  case (Cons a rows)
  obtain s' p' r where a: "a = ((s', p'), r)" by (metis prod.collapse)
  have "map_of rows (s', p') = None" using Cons.prems by (simp add: a map_of_eq_None_iff)
  with Cons show ?case by (auto simp: a load_rows_Cons get_load split: option.split)
qed

lemma get_empty [simp]: "get empty_table s p = None"
  by (simp add: get_def empty_table_def)

lemma wf_empty [simp]: "table_wf empty_table"
  by (simp add: table_wf_def buckets_wf_def empty_table_def)

lemma tallied_empty [simp]: "tallied 0 empty_table"
  by (simp add: tallied_def empty_table_def)

lemma map_of_filter_key:
  "map_of (filter (\<lambda>(k, _). P k) m) k = (if P k then map_of m k else None)"
  by (induction m) auto

lemma keys_distinct_filter: "keys_distinct m \<Longrightarrow> keys_distinct (filter P m)"
  by (induction m) auto

lemma get_load_all:
  "keys_distinct db \<Longrightarrow> get (load_all db empty_table) s p = row_entry db s p"
  by (simp add: load_all_def get_load_rows row_entry_def split: option.split)

lemma get_load_address:
  assumes "keys_distinct db"
  shows "get (load_address db scope empty_table) s p = (if s = scope then row_entry db s p else None)"
proof -
  have f: "filter (\<lambda>((s, _), _). s = scope) db = filter (\<lambda>(k, _). fst k = scope) db"
    by (intro filter_cong) auto
  show ?thesis
    unfolding load_address_def f
    using assms
    by (simp add: get_load_rows keys_distinct_filter map_of_filter_key row_entry_def
        split: option.split)
qed

lemma wf_load_address [simp]: "table_wf (load_address db scope empty_table)"
  by (simp add: load_address_def wf_load_rows)

lemma wf_load_all [simp]: "table_wf (load_all db empty_table)"
  by (simp add: load_all_def wf_load_rows)

lemma all_pairs_iff: "table_wf t \<Longrightarrow> (s, p, e) \<in> set (all_pairs t) \<longleftrightarrow> get t s p = Some e"
  by (force simp: all_pairs_def get_pairs_of bucket_pairs_of wf_pairs_of)

definition bucket_keys :: "('a \<times> ('e \<times> entry) list) list \<Rightarrow> ('a \<times> 'e) list" where
  "bucket_keys m = concat (map (\<lambda>(ip, pairs). map (\<lambda>(email, e). (ip, email)) pairs) m)"

lemma bucket_keys_all_pairs: "map (\<lambda>(s, p, e). (s, p)) (all_pairs t) = bucket_keys (by_ip t)"
  by (simp add: all_pairs_def bucket_keys_def map_concat comp_def case_prod_unfold)

lemma bucket_keys_fst: "k \<in> set (bucket_keys m) \<Longrightarrow> fst k \<in> fst ` set m"
  by (force simp: bucket_keys_def)

lemma distinct_bucket_keys: "buckets_wf m \<Longrightarrow> distinct (bucket_keys m)"
proof (induction m)
  case Nil
  then show ?case by (simp add: bucket_keys_def)
next
  case (Cons a m)
  obtain ip pairs where a: "a = (ip, pairs)" by force
  have wf: "buckets_wf m" and kd: "keys_distinct pairs" and out: "ip \<notin> fst ` set m"
    using Cons.prems by (auto simp: a buckets_wf_def)
  have "inj_on (\<lambda>(email, e). (ip, email)) (set pairs)"
    using kd by (auto simp: inj_on_def intro: eq_key_imp_eq_value)
  then have "distinct (map (\<lambda>(email, e). (ip, email)) pairs)"
    using kd by (simp add: distinct_map)
  moreover have "bucket_keys (a # m) = map (\<lambda>(email, e). (ip, email)) pairs @ bucket_keys m"
    by (simp add: bucket_keys_def a)
  ultimately show ?case using Cons.IH [OF wf] out bucket_keys_fst [of _ m] by fastforce
qed

lemma distinct_all_pairs: "table_wf t \<Longrightarrow> distinct (map (\<lambda>(s, p, e). (s, p)) (all_pairs t))"
  by (simp add: bucket_keys_all_pairs distinct_bucket_keys table_wf_def)

lemma length_all_pairs: "length (all_pairs t) = sum_values length (by_ip t)"
  by (simp add: all_pairs_def sum_values_def length_concat comp_def case_prod_unfold)

text \<open>A store and a table that hold the same pairs have the same size.\<close>

lemma length_rows_table:
  assumes "keys_distinct db" "table_wf t"
    and "\<And>s p. map_of db (s, p) = None \<longleftrightarrow> get t s p = None"
  shows "length db = sum_values length (by_ip t)"
proof -
  let ?keys = "map (\<lambda>(s, p, e). (s, p)) (all_pairs t)"
  have "set (map fst db) = set ?keys"
  proof (intro set_eqI)
    fix k :: "'a \<times> 'b"
    obtain s p where k: "k = (s, p)" by force
    have "k \<in> set (map fst db) \<longleftrightarrow> map_of db (s, p) \<noteq> None"
      by (simp add: k map_of_eq_None_iff)
    also have "\<dots> \<longleftrightarrow> (\<exists>e. (s, p, e) \<in> set (all_pairs t))"
      using assms(3) [of s p] by (auto simp: all_pairs_iff [OF assms(2)])
    also have "\<dots> \<longleftrightarrow> k \<in> set ?keys" by (force simp: k)
    finally show "k \<in> set (map fst db) \<longleftrightarrow> k \<in> set ?keys" .
  qed
  then have "length (map fst db) = length ?keys"
    using assms(1) distinct_all_pairs [OF assms(2)] by (metis distinct_card)
  then show ?thesis by (simp add: length_all_pairs)
qed

section \<open>Writing changes back\<close>

definition lookup_written :: "('s \<times> 'p \<times> entry) list \<Rightarrow> 's \<Rightarrow> 'p \<Rightarrow> entry option" where
  "lookup_written ws s p = map_of (map (\<lambda>(s, p, e). ((s, p), e)) ws) (s, p)"

lemma written_keys: "map fst (map (\<lambda>(s, p, e). ((s, p), e)) ws) = map (\<lambda>(s, p, e). (s, p)) ws"
  by (simp add: comp_def case_prod_unfold)

lemma write_rows_spec:
  assumes "distinct (map (\<lambda>(s, p, e). (s, p)) ws)" "keys_distinct db"
    and "\<forall>(s, p, e) \<in> set ws. get before s p = None \<longleftrightarrow> map_of db (s, p) = None"
  shows "\<exists>db'. write_rows before ws db = Inr (True, db') \<and> keys_distinct db' \<and>
    (\<forall>s p. map_of db' (s, p) =
       (case lookup_written ws s p of Some e \<Rightarrow> Some (row_of_entry e) | None \<Rightarrow> map_of db (s, p)))"
  using assms
proof (induction ws arbitrary: db)
  case Nil
  then show ?case by (simp add: lookup_written_def)
next
  case (Cons w ws)
  obtain s p e where w: "w = (s, p, e)" by (cases w) auto
  let ?db = "AList.update (s, p) (row_of_entry e) db"
  have out: "lookup_written ws s p = None"
    using Cons.prems(1) by (force simp: w lookup_written_def map_of_eq_None_iff)
  have "\<forall>(s', p', e') \<in> set ws. get before s' p' = None \<longleftrightarrow> map_of ?db (s', p') = None"
    using Cons.prems(1,3) by (force simp: w alist_simps)
  then obtain db' where db': "write_rows before ws ?db = Inr (True, db')" "keys_distinct db'"
    "\<forall>s' p'. map_of db' (s', p') =
       (case lookup_written ws s' p' of Some e \<Rightarrow> Some (row_of_entry e) | None \<Rightarrow> map_of ?db (s', p'))"
    using Cons.IH [of ?db] Cons.prems(1,2) keys_distinct_update [OF Cons.prems(2)]
    by (auto simp: w)
  have "write_rows before (w # ws) db = Inr (True, db')"
    using Cons.prems(3) db'(1) by (simp add: w)
  moreover have "map_of db' (s', p') =
      (case lookup_written (w # ws) s' p' of Some e \<Rightarrow> Some (row_of_entry e) | None \<Rightarrow> map_of db (s', p'))"
    for s' p'
    using db'(3) out by (auto simp: w lookup_written_def alist_simps split: option.splits)
  ultimately show ?case using db'(2) by blast
qed

lemma lookup_between:
  assumes "table_wf after"
  shows "lookup_written (written (between before after)) s p =
    (if get after s p \<noteq> None \<and> get before s p \<noteq> get after s p then get after s p else None)"
proof -
  let ?ws = "written (between before after)"
  let ?m = "map (\<lambda>(s, p, e). ((s, p), e)) ?ws"
  have "distinct (map (\<lambda>(s, p, e). (s, p)) ?ws)"
    using distinct_all_pairs [OF assms] by (simp add: between_def distinct_map_filter)
  then have kd: "keys_distinct ?m" by (simp only: written_keys)
  have mem: "((s, p), e) \<in> set ?m \<longleftrightarrow> get after s p = Some e \<and> get before s p \<noteq> Some e" for e
    by (force simp: between_def all_pairs_iff [OF assms])
  have iff: "lookup_written ?ws s p = Some e \<longleftrightarrow> get after s p = Some e \<and> get before s p \<noteq> Some e"
    for e
    unfolding lookup_written_def map_of_eq_Some_iff [OF kd] by (rule mem)
  show ?thesis
  proof (cases "lookup_written ?ws s p")
    case None
    with iff [of "the (get after s p)"] show ?thesis by (cases "get after s p") auto
  next
    case (Some e)
    with iff [of e] show ?thesis by simp
  qed
qed

lemma distinct_written: "table_wf after \<Longrightarrow>
    distinct (map (\<lambda>(s, p, e). (s, p)) (written (between before after)))"
  using distinct_all_pairs [of after] by (simp add: between_def distinct_map_filter)

lemma removed_iff: "table_wf before \<Longrightarrow>
    (s, p) \<in> set (removed (between before after)) \<longleftrightarrow> get before s p \<noteq> None \<and> get after s p = None"
  by (force simp: between_def all_pairs_iff)

lemma map_of_delete_rows:
  "map_of (delete_rows ks db) k = (if k \<in> set ks then None else map_of db k)"
  unfolding delete_rows_def by (simp add: map_of_filter_key [of "\<lambda>k. k \<notin> set ks"])

lemma keys_distinct_delete_rows: "keys_distinct db \<Longrightarrow> keys_distinct (delete_rows ks db)"
  by (simp add: delete_rows_def keys_distinct_filter)

lemma row_entry_None: "row_entry db s p = None \<longleftrightarrow> map_of db (s, p) = None"
  by (simp add: row_entry_def)

definition table_entries_ok :: "('s, 'p) table \<Rightarrow> bool" where
  "table_entries_ok t \<longleftrightarrow> (\<forall>s p e. get t s p = Some e \<longrightarrow> entry_ok e)"

text \<open>
  The diff of an admission is faithful: applied to the rows the table was read from, it leaves
  exactly the pairs of the table the admission produced, and leaves the other rows alone.
\<close>

lemma write_between:
  assumes kd: "keys_distinct db" and wf: "table_wf before" "table_wf after"
    and ok: "table_entries_ok after"
    and read: "\<And>s p. get before s p \<noteq> None \<Longrightarrow> row_entry db s p = get before s p"
    and new: "\<And>s p. get before s p = None \<Longrightarrow> get after s p \<noteq> None \<Longrightarrow> map_of db (s, p) = None"
  shows "\<exists>db'. write_changes before (between before after) db = Inr (True, db') \<and> keys_distinct db' \<and>
    (\<forall>s p. row_entry db' s p =
       (if get before s p = None \<and> get after s p = None then row_entry db s p else get after s p))"
proof -
  let ?ch = "between before after"
  let ?db = "delete_rows (removed ?ch) db"
  have del: "map_of ?db (s, p) =
      (if get before s p \<noteq> None \<and> get after s p = None then None else map_of db (s, p))" for s p
    by (simp add: map_of_delete_rows removed_iff [OF wf(1)])
  have "\<forall>(s, p, e) \<in> set (written ?ch). get before s p = None \<longleftrightarrow> map_of ?db (s, p) = None"
  proof (clarify)
    fix s p e
    assume "(s, p, e) \<in> set (written ?ch)"
    then have "get after s p = Some e" by (simp add: between_def all_pairs_iff [OF wf(2)])
    then show "get before s p = None \<longleftrightarrow> map_of ?db (s, p) = None"
      using read [of s p] new [of s p] by (cases "get before s p") (auto simp: del row_entry_def)
  qed
  from write_rows_spec [OF distinct_written [OF wf(2)] keys_distinct_delete_rows [OF kd] this]
  obtain db' where db': "write_rows before (written ?ch) ?db = Inr (True, db')" "keys_distinct db'"
    "\<And>s p. map_of db' (s, p) =
       (case lookup_written (written ?ch) s p of
          Some e \<Rightarrow> Some (row_of_entry e) | None \<Rightarrow> map_of ?db (s, p))"
    by blast
  have "row_entry db' s p =
      (if get before s p = None \<and> get after s p = None then row_entry db s p else get after s p)" for s p
    using read [of s p] ok
    by (cases "get after s p")
       (auto simp: row_entry_def db'(3) lookup_between [OF wf(2)] del table_entries_ok_def
         entry_row_roundtrip split: option.split)
  with db' show ?thesis by (auto simp: write_changes_def)
qed

section \<open>One admission only looks at its own address\<close>

lemma pairs_of_load:
  "pairs_of (load t s p e) s' =
     (if s' = s then AList.update p e (pairs_of t s) else pairs_of t s')"
  by (simp add: load_def Let_def pairs_of_put)

lemma pairs_of_load_filter:
  assumes "pairs_of t scope = pairs_of u scope"
  shows "pairs_of (load_rows t rows) scope =
    pairs_of (load_rows u (filter (\<lambda>((s, _), _). s = scope) rows)) scope"
  using assms
proof (induction rows arbitrary: t u)
  case Nil
  then show ?case by (simp add: load_rows_def)
next
  case (Cons a rows)
  obtain s p r where a: "a = ((s, p), r)" by (metis prod.collapse)
  show ?case
  proof (cases "s = scope")
    case True
    then show ?thesis using Cons.prems
      by (simp add: a load_rows_Cons) (rule Cons.IH, simp add: pairs_of_load)
  next
    case False
    then show ?thesis using Cons.prems
      by (simp add: a load_rows_Cons) (rule Cons.IH, simp add: pairs_of_load)
  qed
qed

lemma pairs_of_load_address:
  "pairs_of (load_address db scope empty_table) scope = pairs_of (load_all db empty_table) scope"
  unfolding load_address_def load_all_def by (rule pairs_of_load_filter [symmetric]) simp

lemma make_room_id: "total t < MAX_TRACKED \<Longrightarrow> make_room t now = t"
  by (simp add: make_room_cases)

lemma admit_local:
  assumes wf: "table_wf a" "table_wf b" and same: "pairs_of a ip = pairs_of b ip"
    and cond: "get a ip email \<noteq> None \<or> MAX_PAIRS_PER_IP \<le> held_by (reclaim_address a ip now) ip \<or>
      (total a < MAX_TRACKED \<and> total b < MAX_TRACKED)"
    and adm: "admit a ip email now = Some (d, a')"
  shows "\<exists>b'. admit b ip email now = Some (d, b') \<and> pairs_of a' ip = pairs_of b' ip \<and>
    (\<forall>ip'. ip' \<noteq> ip \<longrightarrow> pairs_of a' ip' = pairs_of a ip' \<and> pairs_of b' ip' = pairs_of b ip')"
  using wf(1) adm
proof (cases rule: admit_cases)
  case (held e)
  then have "get b ip email = Some e" using same by (simp add: get_pairs_of)
  then show ?thesis using held same by (auto simp: admit_held pairs_of_put)
next
  case share
  have none: "get b ip email = None" using share(1) same by (simp add: get_pairs_of)
  have eq: "pairs_of (reclaim_address a ip now) ip = pairs_of (reclaim_address b ip now) ip"
    using same by (simp add: pairs_of_reclaim)
  then have "admit b ip email now = Some (d, reclaim_address b ip now)"
    using share by (simp add: admit_at_share [OF none] held_by_pairs_of address_frees_up_in_def)
  then show ?thesis using share(4) eq by (auto simp: pairs_of_reclaim)
next
  case new
  have none: "get b ip email = None" using new(1) same by (simp add: get_pairs_of)
  have eq: "pairs_of (reclaim_address a ip now) ip = pairs_of (reclaim_address b ip now) ip"
    using same by (simp add: pairs_of_reclaim)
  have room: "total (reclaim_address a ip now) < MAX_TRACKED" "total (reclaim_address b ip now) < MAX_TRACKED"
    using cond new(1,2) total_reclaim_le [of a ip now] total_reclaim_le [of b ip now] by auto
  have adm_b: "admit b ip email now = Some (admit_new b ip email now)"
    using new(2) eq by (intro admit_within_share [OF wf(2) none]) (simp add: held_by_pairs_of)
  obtain b' where b': "admit_new b ip email now = (d, b')"
    using new(3) by (simp add: admit_new_def attempt_fresh Let_def)
  have "pairs_of a' ip' = pairs_of b' ip'" if "ip' = ip" for ip'
    using new(3) b' that eq
    by (auto simp: admit_new_def attempt_fresh Let_def make_room_id room pairs_of_put)
  moreover have "pairs_of a' ip' = pairs_of a ip'" "pairs_of b' ip' = pairs_of b ip'" if "ip' \<noteq> ip" for ip'
    using new(3) b' that
    by (auto simp: admit_new_def attempt_fresh Let_def make_room_id room pairs_of_put pairs_of_reclaim)
  ultimately show ?thesis using adm_b b' by auto
qed

lemma entry_ok_fresh: "entry_ok (fresh now)" "entry_ok ((fresh now)\<lparr>attempts := 1\<rparr>)"
  by (simp_all add: entry_ok_def fresh_def MAX_FAILURES_def)

lemma entries_ok_admit:
  assumes wf: "table_wf t" and ok: "table_entries_ok t" and adm: "admit t ip email now = Some (d, t')"
  shows "table_entries_ok t'"
  using wf adm
proof (cases rule: admit_cases)
  case (held e)
  with ok show ?thesis by (auto simp: table_entries_ok_def get_put entry_ok_attempt)
next
  case share
  with ok wf show ?thesis
    by (auto simp: table_entries_ok_def get_reclaim split: option.splits if_splits)
next
  case new
  show ?thesis
    unfolding table_entries_ok_def
  proof (intro allI impI)
    fix s p e assume g: "get t' s p = Some e"
    show "entry_ok e"
    proof (cases "s = ip \<and> p = email")
      case True
      with g admit_new_parts(3) [OF wf new(1,3), of s p] entry_ok_fresh(2) [of now]
      show ?thesis by simp
    next
      case False
      then have "get (make_room (reclaim_address t ip now) now) s p = Some e"
        using g admit_new_parts(3) [OF wf new(1,3), of s p] by auto
      then have "get (reclaim_address t ip now) s p = Some e"
        by (rule get_make_room_kept [OF wf_reclaim [OF wf]])
      then have "get t s p = Some e" using wf by (auto simp: get_reclaim split: option.splits if_splits)
      with ok show ?thesis by (simp add: table_entries_ok_def)
    qed
  qed
qed

section \<open>The store refines the table\<close>

definition agrees :: "('s, 'p) login_rows \<Rightarrow> ('s, 'p) table \<Rightarrow> bool" where
  "agrees db t \<longleftrightarrow> (\<forall>s p. row_entry db s p = get t s p)"

abbreviation table_of :: "('s, 'p) login_rows \<Rightarrow> ('s, 'p) table" where
  "table_of db \<equiv> load_all db empty_table"

lemma total_table_of: "keys_distinct db \<Longrightarrow> total (table_of db) = length db"
  using tallied_load_rows [OF wf_empty tallied_empty, of db]
    length_rows_table [of db "table_of db"]
  by (simp add: load_all_def [symmetric] tallied_def get_load_all row_entry_None)

lemma entries_ok_loaded:
  "rows_ok db \<Longrightarrow> table_entries_ok (load_address db scope empty_table)"
  "rows_ok db \<Longrightarrow> table_entries_ok (table_of db)"
  by (auto simp: table_entries_ok_def rows_ok_def get_load_address get_load_all split: if_splits)

lemma entries_ok_total [simp]: "table_entries_ok (t\<lparr>total := n\<rparr>) = table_entries_ok t"
  by (simp add: table_entries_ok_def)

lemma write_admitted:
  assumes ok: "rows_ok db"
    and a: "a = (load_address db scope empty_table)\<lparr>total := n\<rparr>"
    and cond: "get a scope pair \<noteq> None \<or>
      MAX_PAIRS_PER_IP \<le> held_by (reclaim_address a scope now) scope \<or>
      (n < MAX_TRACKED \<and> length db < MAX_TRACKED)"
    and adm: "admit a scope pair now = Some (d, a')"
  shows "\<exists>db' b'. write_changes a (between a a') db = Inr (True, db') \<and> rows_ok db' \<and>
    admit (table_of db) scope pair now = Some (d, b') \<and> agrees db' b'"
proof -
  let ?T = "table_of db"
  have kd: "keys_distinct db" using ok by (simp add: rows_ok_def)
  have wfa: "table_wf a" by (simp add: a)
  have same: "pairs_of a scope = pairs_of ?T scope" by (simp add: a pairs_of_load_address)
  have ga: "get a s p = (if s = scope then row_entry db s p else None)" for s p
    by (simp add: a get_load_address [OF kd])
  obtain b' where b': "admit ?T scope pair now = Some (d, b')" "pairs_of a' scope = pairs_of b' scope"
    "\<And>s. s \<noteq> scope \<Longrightarrow> pairs_of a' s = pairs_of a s \<and> pairs_of b' s = pairs_of ?T s"
    using admit_local [OF wfa wf_load_all same _ adm] cond total_table_of [OF kd] by (auto simp: a)
  have other: "get a' s p = None" "get b' s p = row_entry db s p" if "s \<noteq> scope" for s p
    using b'(3) [OF that] ga [of s p] that get_load_all [OF kd, of s p] by (simp_all add: get_pairs_of)
  have own: "get a' scope p = get b' scope p" for p using b'(2) by (simp add: get_pairs_of)
  have ok': "table_entries_ok a'"
    using entries_ok_admit [OF wfa _ adm] entries_ok_loaded(1) [OF ok] by (simp add: a)
  have read: "row_entry db s p = get a s p" if "get a s p \<noteq> None" for s p
    using that ga [of s p] by (auto split: if_splits)
  have new: "map_of db (s, p) = None" if "get a s p = None" "get a' s p \<noteq> None" for s p
    using that ga [of s p] other(1) [of s p] row_entry_None [of db s p] by (cases "s = scope") auto
  from write_between [OF kd wfa wf_admit [OF wfa adm] ok' read new]
  obtain db' where db': "write_changes a (between a a') db = Inr (True, db')" "keys_distinct db'"
    "\<And>s p. row_entry db' s p =
       (if get a s p = None \<and> get a' s p = None then row_entry db s p else get a' s p)"
    by blast
  have agree: "row_entry db' s p = get b' s p" for s p
    using db'(3) [of s p] ga [of s p] other [of s p] own [of p] by (cases "s = scope") auto
  have "rows_ok db'"
    using entries_ok_admit [OF wf_load_all entries_ok_loaded(2) [OF ok] b'(1)] agree db'(2)
    by (simp add: rows_ok_def table_entries_ok_def)
  with db'(1) b'(1) agree show ?thesis by (auto simp: agrees_def)
qed

lemma purge_rows:
  "snd (purge_expired db now) = filter (\<lambda>(_, r). \<not> row_window_start r \<le> purge_cutoff now) db"
  by (simp add: purge_expired_def Let_def)

lemma map_of_filter_val:
  "keys_distinct m \<Longrightarrow> map_of (filter (\<lambda>(_, v). P v) m) k =
     (case map_of m k of None \<Rightarrow> None | Some v \<Rightarrow> if P v then Some v else None)"
  using map_of_retain [of m P k] by (simp add: retain_values_def)

lemma row_entry_purge:
  "keys_distinct db \<Longrightarrow> row_entry (snd (purge_expired db now)) s p =
     (case row_entry db s p of
        None \<Rightarrow> None
      | Some e \<Rightarrow> if window_start e \<le> purge_cutoff now then None else Some e)"
  by (simp add: purge_rows row_entry_def map_of_filter_val entry_from_row_def split: option.split)

lemma rows_ok_purge: "rows_ok db \<Longrightarrow> rows_ok (snd (purge_expired db now))"
proof -
  assume ok: "rows_ok db"
  have "keys_distinct (snd (purge_expired db now))"
    using ok by (simp add: rows_ok_def purge_rows keys_distinct_filter)
  with ok show ?thesis by (auto simp: rows_ok_def row_entry_purge split: option.splits if_splits)
qed

lemma length_purge: "length (snd (purge_expired db now)) \<le> length db"
  by (simp add: purge_rows)

text \<open>
  The purge never forgets anything the throttle still needs: every row
  \<open>purge_expired\<close> deletes is stale at that instant (not locked, its window over), and every
  other row is kept as it is.
\<close>

theorem purge_only_stale:
  assumes ok: "rows_ok db" and row: "row_entry db s p = Some e"
  shows "row_entry (snd (purge_expired db now)) s p = (if window_start e \<le> purge_cutoff now then None else Some e)
    \<and> (row_entry (snd (purge_expired db now)) s p = None \<longrightarrow> is_stale e now)"
proof -
  have kd: "keys_distinct db" and e: "entry_ok e" using ok row by (auto simp: rows_ok_def)
  have "is_stale e now" if "window_start e \<le> purge_cutoff now"
  proof -
    have late: "window_start e + WINDOW + LOCKOUT \<le> now" using that by (simp add: purge_cutoff_def)
    have "locked_at e now = None"
      using e late by (auto simp: entry_ok_def locked_at_def split: option.splits)
    moreover have "WINDOW < since now (window_start e)"
      using late by (simp add: since_def WINDOW_def LOCKOUT_def secs_def)
    ultimately show ?thesis by (simp add: is_stale_def)
  qed
  with row show ?thesis by (simp add: row_entry_purge [OF kd])
qed

lemma purge_only_stale_witness:
  "row_entry (snd (purge_expired [((1 :: nat, 2 :: nat), row_of_entry (fresh 0))] (secs 1800))) 1 2 = None
   \<and> is_stale (fresh 0) (secs 1800)"
proof -
  have row: "row_entry [((1 :: nat, 2 :: nat), row_of_entry (fresh 0))] 1 2 = Some (fresh 0)"
    by (simp add: row_entry_def entry_row_roundtrip entry_ok_fresh(1))
  moreover from row have "rows_ok [((1 :: nat, 2 :: nat), row_of_entry (fresh 0))]"
    by (simp add: rows_ok_def row_entry_def entry_row_roundtrip entry_ok_fresh(1))
  moreover have "window_start (fresh 0) \<le> purge_cutoff (secs 1800)"
    by (simp add: fresh_def purge_cutoff_def WINDOW_def LOCKOUT_def secs_def)
  ultimately show ?thesis
    using purge_only_stale [of "[((1 :: nat, 2 :: nat), row_of_entry (fresh 0))]" 1 2 "fresh 0" "secs 1800"]
    by simp
qed

text \<open>
  What the transaction promises over a table that holds every row: a held pair, or a new one
  past its address's share, is decided on the rows as they are; a new pair within the share
  is decided on the rows the purge leaves, at the later clock.
\<close>

definition deciding_rows ::
    "('s, 'p) login_rows \<Rightarrow> 's \<Rightarrow> 'p \<Rightarrow> instant \<Rightarrow> instant \<Rightarrow> ('s, 'p) login_rows \<times> instant" where
  "deciding_rows db scope pair now now2 =
     (if row_entry db scope pair \<noteq> None \<or>
         MAX_PAIRS_PER_IP \<le> held_by (reclaim_address (table_of db) scope now) scope
      then (db, now) else (snd (purge_expired db now2), now2))"

lemma admit_newcomer_refines:
  fixes db :: "('s, 'p) login_rows" and now :: instant
  assumes ok: "rows_ok db" and len: "length db \<le> MAX_TRACKED"
  defines "db1 \<equiv> snd (purge_expired db now)"
  shows "\<exists>d db' t'. admit_newcomer (\<lambda>_ rows. rows) now scope pair db = Inr (d, db') \<and> rows_ok db' \<and>
    admit (table_of db1) scope pair now = Some (d, t') \<and> agrees db' t'"
proof -
  have ok1: "rows_ok db1" unfolding db1_def by (rule rows_ok_purge [OF ok])
  then have kd1: "keys_distinct db1" by (simp add: rows_ok_def)
  show ?thesis
  proof (cases "length db1 < MAX_TRACKED")
    case True
    let ?a = "(load_address db1 scope empty_table)\<lparr>total := length db1\<rparr>"
    obtain d a' where adm: "admit ?a scope pair now = Some (d, a')"
      using admit_total [of ?a scope pair now] by auto
    from write_admitted [OF ok1 refl _ adm] True
    obtain db' b' where "write_changes ?a (between ?a a') db1 = Inr (True, db')" "rows_ok db'"
      "admit (table_of db1) scope pair now = Some (d, b')" "agrees db' b'" by auto
    then show ?thesis using True adm
      by (simp add: admit_newcomer_def Let_def db1_def [symmetric])
  next
    case False
    let ?T = "table_of db1"
    obtain d t' where adm: "admit ?T scope pair now = Some (d, t')"
      using admit_total [OF wf_load_all, of db1 scope pair now] by blast
    have g: "get ?T s p = row_entry db1 s p" for s p by (rule get_load_all [OF kd1])
    have ok': "table_entries_ok t'"
      by (rule entries_ok_admit [OF wf_load_all entries_ok_loaded(2) [OF ok1] adm])
    have wf': "table_wf t'" by (rule wf_admit [OF wf_load_all adm])
    have "\<exists>db'. write_changes ?T (between ?T t') db1 = Inr (True, db') \<and> keys_distinct db' \<and>
      (\<forall>s p. row_entry db' s p =
         (if get ?T s p = None \<and> get t' s p = None then row_entry db1 s p else get t' s p))"
      by (rule write_between [OF kd1 wf_load_all wf' ok']) (simp_all add: g row_entry_None)
    then obtain db' where db': "write_changes ?T (between ?T t') db1 = Inr (True, db')" "keys_distinct db'"
      "\<And>s p. row_entry db' s p = get t' s p" by (force simp: g)
    then have "rows_ok db'" "agrees db' t'"
      using ok' by (simp_all add: rows_ok_def agrees_def table_entries_ok_def)
    then show ?thesis using False adm db'(1)
      by (simp add: admit_newcomer_def Let_def db1_def [symmetric])
  qed
qed

text \<open>
  C3. The store implements the table. Run alone, one transaction answers what \<open>Table::admit\<close>
  answers on a table holding every row, and leaves exactly that table's pairs in the rows,
  although it reads the rows of one address only (unless the table is full) and writes back
  only what changed. It never fails and never panics.
\<close>

theorem store_refines_table:
  assumes ok: "rows_ok db" and len: "length db \<le> MAX_TRACKED"
  shows "\<exists>d db' t'. login_admit (\<lambda>_ rows. rows) now now2 scope pair db = Inr (d, db') \<and> rows_ok db' \<and>
    (let (rows, clock) = deciding_rows db scope pair now now2
     in admit (table_of rows) scope pair clock = Some (d, t')) \<and> agrees db' t'"
proof -
  let ?a = "load_address db scope empty_table"
  have kd: "keys_distinct db" using ok by (simp add: rows_ok_def)
  have a: "?a = ?a\<lparr>total := total ?a\<rparr>" by simp
  have ga: "get ?a scope pair = row_entry db scope pair" by (simp add: get_load_address [OF kd])
  have held: "held_by (reclaim_address ?a scope now) scope =
      held_by (reclaim_address (table_of db) scope now) scope"
    by (simp add: held_by_pairs_of pairs_of_reclaim pairs_of_load_address)
  obtain d a' where adm: "admit ?a scope pair now = Some (d, a')"
    using admit_total [OF wf_load_address, of db scope scope pair now] by blast
  show ?thesis
  proof (cases "row_entry db scope pair")
    case (Some e)
    from write_admitted [OF ok a _ adm] Some ga
    obtain db' b' where w: "write_changes ?a (between ?a a') db = Inr (True, db')" "rows_ok db'"
      "admit (table_of db) scope pair now = Some (d, b')" "agrees db' b'" by auto
    have "login_admit (\<lambda>_ rows. rows) now now2 scope pair db = Inr (d, db')"
      using Some ga adm w(1) by (simp add: login_admit_def refuse_at_share_def Let_def)
    with w Some show ?thesis by (simp add: deciding_rows_def)
  next
    case none: None
    show ?thesis
    proof (cases "MAX_PAIRS_PER_IP \<le> held_by (reclaim_address ?a scope now) scope")
      case True
      from write_admitted [OF ok a _ adm] True
      obtain db' b' where w: "write_changes ?a (between ?a a') db = Inr (True, db')" "rows_ok db'"
        "admit (table_of db) scope pair now = Some (d, b')" "agrees db' b'" by auto
      have "a' = reclaim_address ?a scope now" "d = Locked (address_frees_up_in a' scope now)"
        using adm True none ga by (auto simp: admit_at_share)
      then have "login_admit (\<lambda>_ rows. rows) now now2 scope pair db = Inr (d, db')"
        using none ga True w(1) by (simp add: login_admit_def refuse_at_share_def Let_def)
      with w True held show ?thesis by (simp add: deciding_rows_def)
    next
      case False
      then have "login_admit (\<lambda>_ rows. rows) now now2 scope pair db =
          admit_newcomer (\<lambda>_ rows. rows) now2 scope pair db"
        using none ga get_reclaim_None [OF wf_load_address, of db scope scope pair scope now]
        by (simp add: login_admit_def refuse_at_share_def Let_def)
      with admit_newcomer_refines [OF ok len, of now2 scope pair] none False held
      show ?thesis by (simp add: deciding_rows_def)
    qed
  qed
qed

lemma rows_ok_Nil: "rows_ok []"
  by (simp add: rows_ok_def row_entry_def)

lemma store_refines_table_witness:
  "\<exists>d db' t'. login_admit (\<lambda>_ rows. rows) 0 1 (1 :: nat) (2 :: nat) [] = Inr (d, db') \<and> rows_ok db' \<and>
    (let (rows, clock) = deciding_rows [] 1 2 0 1
     in admit (table_of rows) 1 2 clock = Some (d, t')) \<and> agrees db' t'"
  by (rule store_refines_table [OF rows_ok_Nil]) simp

section \<open>The ceiling holds under interleaving\<close>

abbreviation row_keys :: "('s, 'p) login_rows \<Rightarrow> ('s \<times> 'p) set" where
  "row_keys db \<equiv> set (map fst db)"

text \<open>
  What the other replicas may do between two statements. Without the table lock they may do
  anything that keeps the ceiling themselves; while this transaction holds the table lock
  nobody else inserts: rows may only be updated or deleted.
\<close>

definition keeps_ceiling :: "(('s, 'p) login_rows \<Rightarrow> ('s, 'p) login_rows) \<Rightarrow> bool" where
  "keeps_ceiling f \<longleftrightarrow> (\<forall>db. keys_distinct db \<and> length db \<le> MAX_TRACKED \<longrightarrow>
     keys_distinct (f db) \<and> length (f db) \<le> MAX_TRACKED)"

definition never_inserts :: "(('s, 'p) login_rows \<Rightarrow> ('s, 'p) login_rows) \<Rightarrow> bool" where
  "never_inserts f \<longleftrightarrow> (\<forall>db. keys_distinct db \<longrightarrow>
     keys_distinct (f db) \<and> row_keys (f db) \<subseteq> row_keys db)"

lemma length_keys: "keys_distinct db \<Longrightarrow> length db = card (row_keys db)"
  by (metis distinct_card length_map)

lemma length_keys_mono:
  "keys_distinct db \<Longrightarrow> keys_distinct db' \<Longrightarrow> row_keys db \<subseteq> row_keys db' \<Longrightarrow> length db \<le> length db'"
  by (simp only: length_keys) (rule card_mono, simp_all)

lemma write_rows_keys:
  "write_rows before ws db = Inr (b, db') \<Longrightarrow> keys_distinct db \<Longrightarrow>
   keys_distinct db' \<and>
   row_keys db' \<subseteq> row_keys db \<union> {(s, p). get before s p = None \<and> (\<exists>e. (s, p, e) \<in> set ws)}"
proof (induction ws arbitrary: db)
  case Nil
  then show ?case by simp
next
  case (Cons w ws)
  obtain s p e where w: "w = (s, p, e)" by (cases w) auto
  let ?db = "AList.update (s, p) (row_of_entry e) db"
  show ?case
  proof (cases "get before s p \<noteq> None \<and> map_of db (s, p) = None")
    case True
    then show ?thesis using Cons.prems by (auto simp: w)
  next
    case False
    then have rest: "write_rows before ws ?db = Inr (b, db')"
      using Cons.prems(1) by (auto simp: w split: if_splits)
    have keys: "row_keys ?db = insert (s, p) (row_keys db)" by (simp add: dom_update)
    have "get before s p = None \<or> (s, p) \<in> row_keys db"
      using False by (auto simp: map_of_eq_None_iff)
    with Cons.IH [OF rest keys_distinct_update [OF Cons.prems(2)]] keys
    show ?thesis by (auto simp: w)
  qed
qed

lemma write_changes_keys:
  assumes w: "write_changes before (between before after) db = Inr (b, db')"
    and kd: "keys_distinct db" and wf: "table_wf before" "table_wf after"
  shows "keys_distinct db'"
    "(s, p) \<in> row_keys db' \<Longrightarrow>
       ((s, p) \<in> row_keys db \<and> (get before s p = None \<or> get after s p \<noteq> None)) \<or>
       (get before s p = None \<and> get after s p \<noteq> None)"
proof -
  let ?ch = "between before after"
  note keys = write_rows_keys [OF w [unfolded write_changes_def] keys_distinct_delete_rows [OF kd]]
  from keys show "keys_distinct db'" by simp
  show "((s, p) \<in> row_keys db \<and> (get before s p = None \<or> get after s p \<noteq> None)) \<or>
      (get before s p = None \<and> get after s p \<noteq> None)" if "(s, p) \<in> row_keys db'"
  proof -
    from that keys consider "(s, p) \<in> row_keys (delete_rows (removed ?ch) db)"
      | e where "get before s p = None" "(s, p, e) \<in> set (written ?ch)" by blast
    then show ?thesis
    proof cases
      case 1
      then have "(s, p) \<in> row_keys db" "(s, p) \<notin> set (removed ?ch)"
        by (auto simp: delete_rows_def)
      then show ?thesis by (auto simp: removed_iff [OF wf(1)])
    next
      case 2
      then show ?thesis by (simp add: between_def all_pairs_iff [OF wf(2)])
    qed
  qed
qed

lemma admit_adds_one:
  assumes "table_wf t" "admit t ip email now = Some (d, t')" "get t' s p \<noteq> None"
  shows "get t s p \<noteq> None \<or> (s = ip \<and> p = email)"
  using assms(1,2)
proof (cases rule: admit_cases)
  case (held e)
  with assms(3) show ?thesis by (auto simp: get_put split: if_splits)
next
  case share
  with assms(1,3) show ?thesis by (auto simp: get_reclaim split: option.splits if_splits)
next
  case new
  show ?thesis
  proof (rule ccontr)
    assume no: "\<not> (get t s p \<noteq> None \<or> (s = ip \<and> p = email))"
    then have "get (make_room (reclaim_address t ip now) now) s p = None"
      by (intro get_make_room_None wf_reclaim get_reclaim_None assms(1)) auto
    with admit_new_parts(3) [OF assms(1) new(1,3), of s p] no assms(3) show False by auto
  qed
qed

lemma length_rows_le_table:
  assumes "keys_distinct db" "table_wf t"
    and "\<And>s p. (s, p) \<in> row_keys db \<Longrightarrow> get t s p \<noteq> None"
  shows "length db \<le> sum_values length (by_ip t)"
proof -
  let ?keys = "map (\<lambda>(s, p, e). (s, p)) (all_pairs t)"
  have "(s, p) \<in> set ?keys" if mem: "(s, p) \<in> row_keys db" for s p
  proof -
    obtain e where "get t s p = Some e" using assms(3) [OF mem] by blast
    then have "(s, p, e) \<in> set (all_pairs t)" by (simp add: all_pairs_iff [OF assms(2)])
    then show ?thesis by force
  qed
  then have "row_keys db \<subseteq> set ?keys" by auto
  then have "card (row_keys db) \<le> card (set ?keys)" by (rule card_mono [OF finite_set])
  also have "\<dots> \<le> length ?keys" by (rule card_length)
  finally show ?thesis by (simp add: length_keys [OF assms(1)] length_all_pairs)
qed

lemma newcomer_ceiling:
  assumes kd: "keys_distinct db" and len: "length db \<le> MAX_TRACKED"
    and env2: "keeps_ceiling (env 2)"
    and env: "never_inserts (env 3)" "never_inserts (env 4)" "never_inserts (env 5)"
    and run: "admit_newcomer env now scope pair db = Inr (d, db')"
  shows "keys_distinct db' \<and> length db' \<le> MAX_TRACKED"
proof -
  define db1 where "db1 = snd (purge_expired (env 2 db) now)"
  define db2 where "db2 = env 3 db1"
  define db3 where "db3 = env 4 db2"
  define db5 where "db5 = env 5 db3"
  have c2: "keys_distinct (env 2 db)" "length (env 2 db) \<le> MAX_TRACKED"
    using env2 kd len by (simp_all add: keeps_ceiling_def)
  have k1: "keys_distinct db1" using c2(1) by (simp add: db1_def purge_rows keys_distinct_filter)
  have l1: "length db1 \<le> MAX_TRACKED"
    using length_purge [of "env 2 db" now] c2(2) by (simp add: db1_def)
  have k2: "keys_distinct db2" and s2: "row_keys db2 \<subseteq> row_keys db1"
    using env(1) k1 unfolding never_inserts_def db2_def by blast+
  have k3: "keys_distinct db3" and s3: "row_keys db3 \<subseteq> row_keys db2"
    using env(2) k2 unfolding never_inserts_def db3_def by blast+
  have k5: "keys_distinct db5" and s5: "row_keys db5 \<subseteq> row_keys db3"
    using env(3) k3 unfolding never_inserts_def db5_def by blast+
  have l2: "length db2 \<le> MAX_TRACKED" using length_keys_mono [OF k2 k1 s2] l1 by simp
  let ?t = "if length db2 \<ge> MAX_TRACKED then table_of db3
            else (load_address db3 scope empty_table)\<lparr>total := length db2\<rparr>"
  have wft: "table_wf ?t" by simp
  obtain t' b where adm: "admit ?t scope pair now = Some (d, t')"
    and w: "write_changes ?t (between ?t t') db5 = Inr (b, db')"
    using run unfolding admit_newcomer_def Let_def db1_def [symmetric] db2_def [symmetric]
      db3_def [symmetric] db5_def [symmetric]
    by (auto split: option.splits sum.splits prod.splits)
  have wf': "table_wf t'" by (rule wf_admit [OF wft adm])
  note keys = write_changes_keys [OF w k5 wft wf']
  show ?thesis
  proof (cases "length db2 \<ge> MAX_TRACKED")
    case True
    have T: "?t = table_of db3" using True by simp
    have l3: "length db3 \<le> MAX_TRACKED" using length_keys_mono [OF k3 k2 s3] l2 by simp
    have tal: "tallied 0 (table_of db3)"
      unfolding load_all_def by (rule tallied_load_rows) simp_all
    have adm': "admit (table_of db3) scope pair now = Some (d, t')" using adm T by simp
    have "total t' \<le> MAX_TRACKED"
      using total_admit [OF wf_load_all tal _ adm'] l3 by (simp add: total_table_of [OF k3])
    moreover have "tallied 0 t'" using tallied_admit [OF wf_load_all tal _ adm'] by simp
    moreover have "get t' s p \<noteq> None" if "(s, p) \<in> row_keys db'" for s p
    proof -
      have "(s, p) \<in> row_keys db5 \<Longrightarrow> get ?t s p \<noteq> None"
        using s5 T get_load_all [OF k3, of s p] row_entry_None [of db3 s p]
        by (auto simp: map_of_eq_None_iff)
      with keys(2) [OF that] show ?thesis by argo
    qed
    then have "length db' \<le> sum_values length (by_ip t')"
      by (rule length_rows_le_table [OF keys(1) wf'])
    ultimately show ?thesis using keys(1) by (simp add: tallied_def)
  next
    case False
    have "row_keys db' \<subseteq> insert (scope, pair) (row_keys db5)"
    proof
      fix k assume k: "k \<in> row_keys db'"
      obtain s p where "k = (s, p)" by force
      with k keys(2) [of s p] admit_adds_one [OF wft adm, of s p]
      show "k \<in> insert (scope, pair) (row_keys db5)" by blast
    qed
    then have "card (row_keys db') \<le> card (insert (scope, pair) (row_keys db5))"
      by (rule card_mono [rotated]) simp
    also have "\<dots> \<le> card (row_keys db5) + 1" by (simp add: card_insert_if)
    finally have "length db' \<le> length db5 + 1" by (simp add: length_keys [OF keys(1)] length_keys [OF k5])
    moreover have "length db5 \<le> length db2" by (rule length_keys_mono [OF k5 k2]) (use s3 s5 in blast)
    ultimately show ?thesis using False keys(1) by simp
  qed
qed

lemma update_only_ceiling:
  assumes kd: "keys_distinct db" and len: "length db \<le> MAX_TRACKED"
    and wf: "table_wf before" "table_wf after"
    and same: "\<And>s p. get after s p \<noteq> None \<Longrightarrow> get before s p \<noteq> None"
    and w: "write_changes before (between before after) db = Inr (b, db')"
  shows "keys_distinct db' \<and> length db' \<le> MAX_TRACKED"
proof -
  note keys = write_changes_keys [OF w kd wf]
  have "row_keys db' \<subseteq> row_keys db"
  proof
    fix k assume k: "k \<in> row_keys db'"
    obtain s p where "k = (s, p)" by force
    with k keys(2) [of s p] same [of s p] show "k \<in> row_keys db" by blast
  qed
  from length_keys_mono [OF keys(1) kd this] len keys(1) show ?thesis by simp
qed

text \<open>
  C4. Whatever the other replicas do meanwhile, as long as they follow the same protocol
  (keep the ceiling, and never insert while another holds the table lock), an admission that
  commits leaves at most \<open>MAX_TRACKED\<close> rows, at most one per pair; a pair whose row went
  between its read and its write is decided again rather than written back past the ceiling.
\<close>

theorem ceiling_under_interleaving:
  assumes kd: "keys_distinct db" and len: "length db \<le> MAX_TRACKED"
    and before_lock: "keeps_ceiling (env 0)" "keeps_ceiling (env 1)" "keeps_ceiling (env 2)"
    and under_lock: "never_inserts (env 3)" "never_inserts (env 4)" "never_inserts (env 5)"
    and run: "login_admit env now now2 scope pair db = Inr (d, db')"
  shows "keys_distinct db' \<and> length db' \<le> MAX_TRACKED"
proof -
  let ?a = "load_address (env 0 db) scope empty_table"
  have c0: "keys_distinct (env 0 db)" "length (env 0 db) \<le> MAX_TRACKED"
    using before_lock(1) kd len by (simp_all add: keeps_ceiling_def)
  then have c1: "keys_distinct (env 1 (env 0 db))" "length (env 1 (env 0 db)) \<le> MAX_TRACKED"
    using before_lock(2) by (simp_all add: keeps_ceiling_def)
  note newcomer = newcomer_ceiling [OF _ _ before_lock(3) under_lock]
  have recl: "get (reclaim_address ?a scope now) s p \<noteq> None \<Longrightarrow> get ?a s p \<noteq> None" for s p
    by (erule contrapos_nn) (rule get_reclaim_None [OF wf_load_address])
  show ?thesis
  proof (cases "get ?a scope pair")
    case (Some e)
    let ?b = "put scope pair (snd (attempt e now)) ?a"
    let ?w = "write_changes ?a (between ?a ?b) (env 1 (env 0 db))"
    have eq: "login_admit env now now2 scope pair db =
        (case ?w of Inl err \<Rightarrow> Inl err | Inr (True, db1) \<Rightarrow> Inr (fst (attempt e now), db1)
         | Inr (False, db1) \<Rightarrow> admit_newcomer env now2 scope pair db1)"
      using Some by (simp add: login_admit_def refuse_at_share_def admit_held Let_def)
    show ?thesis
    proof (cases ?w)
      case (Inl err)
      with run eq show ?thesis by simp
    next
      case (Inr r)
      obtain b db1 where r: "r = (b, db1)" by force
      have "keys_distinct db1 \<and> length db1 \<le> MAX_TRACKED"
        by (rule update_only_ceiling [OF c1 wf_load_address wf_put [OF wf_load_address] _ Inr [unfolded r]])
           (use Some in \<open>auto simp: get_put split: if_splits\<close>)
      moreover have "(if b then Inr (fst (attempt e now), db1) else admit_newcomer env now2 scope pair db1)
          = Inr (d, db')"
        using run eq Inr r by (simp split: bool.splits)
      ultimately show ?thesis using newcomer [of db1] by (simp split: if_splits)
    qed
  next
    case None
    show ?thesis
    proof (cases "MAX_PAIRS_PER_IP \<le> held_by (reclaim_address ?a scope now) scope")
      case True
      with run None obtain b
        where w: "write_changes ?a (between ?a (reclaim_address ?a scope now)) (env 1 (env 0 db)) = Inr (b, db')"
        by (auto simp: login_admit_def refuse_at_share_def Let_def split: sum.splits prod.splits)
      show ?thesis
        by (rule update_only_ceiling [OF c1 wf_load_address wf_reclaim [OF wf_load_address] _ w])
           (rule recl)
    next
      case False
      with run None have "admit_newcomer env now2 scope pair (env 0 db) = Inr (d, db')"
        using get_reclaim_None [OF wf_load_address None, of scope now]
        by (simp add: login_admit_def refuse_at_share_def Let_def)
      then show ?thesis using newcomer c0 by blast
    qed
  qed
qed

lemma ceiling_under_interleaving_witness:
  "keys_distinct [((1 :: nat, 2 :: nat), row_of_entry ((fresh 5)\<lparr>attempts := 1\<rparr>))] \<and>
   length [((1 :: nat, 2 :: nat), row_of_entry ((fresh 5)\<lparr>attempts := 1\<rparr>))] \<le> MAX_TRACKED"
proof (rule ceiling_under_interleaving)
  let ?env = "\<lambda>i rows. if i = (1 :: nat) then [] else rows :: (nat, nat) login_rows"
  let ?db = "[((1 :: nat, 2 :: nat), row_of_entry (fresh 0))]"
  show "login_admit ?env 3 5 1 2 ?db = Inr (Allow, [((1, 2), row_of_entry ((fresh 5)\<lparr>attempts := 1\<rparr>))])"
    by code_simp
qed (simp_all add: keeps_ceiling_def never_inserts_def MAX_TRACKED_def)

end
