(* ===== verification/Rate_Limit.thy ===== *)
theory Rate_Limit
  imports Prelude
begin

text \<open>
  Sliding-window rate limits, \<open>apps/api/src/rate_limit.rs\<close>: the decision
  (\<open>SlidingWindow\<close>) and the transaction of \<open>SlidingLimiter::admit\<close> over the rows of
  \<open>rate_limit_log\<close>, with the sweep of the rows every admission of which left the window.
\<close>

section \<open>The decision\<close>

record sliding_window =
  limit :: nat
  window :: duration

definition admit_window :: "sliding_window \<Rightarrow> instant list \<Rightarrow> instant \<Rightarrow> bool \<times> instant list" where
  "admit_window w log now =
     (let log1 = filter (\<lambda>at. since now at < window w) log
      in if length log1 \<ge> limit w then (False, log1) else (True, log1 @ [now]))"

definition forgets :: "sliding_window \<Rightarrow> instant list \<Rightarrow> instant \<Rightarrow> bool" where
  "forgets w log now \<longleftrightarrow> list_all (\<lambda>at. since now at \<ge> window w) log"

section \<open>The log table\<close>

type_synonym ('k, 'b) limit_log = "(('k \<times> 'b) \<times> instant list) list"

text \<open>\<open>SELECT max(a) FROM unnest(admitted) AS a\<close>: NULL on an empty array.\<close>

definition newest :: "instant list \<Rightarrow> instant option" where
  "newest log = map_option uminus (min_list_opt (map uminus log))"

definition left_window :: "instant \<Rightarrow> instant list \<Rightarrow> bool" where
  "left_window horizon log = (case newest log of None \<Rightarrow> False | Some a \<Rightarrow> a \<le> horizon)"

text \<open>
  The sweep at the end of an admission: the rows of the same limit that left the window,
  except those \<open>held\<close> by another admission (\<open>FOR UPDATE SKIP LOCKED\<close>).
\<close>

definition sweep :: "('k \<times> 'b \<Rightarrow> bool) \<Rightarrow> 'k \<Rightarrow> instant \<Rightarrow> ('k, 'b) limit_log \<Rightarrow> ('k, 'b) limit_log" where
  "sweep held kind horizon rows =
     filter (\<lambda>((k, b), log). \<not> (k = kind \<and> left_window horizon log \<and> \<not> held (k, b))) rows"

definition limiter_admit ::
    "('k \<times> 'b \<Rightarrow> bool) \<Rightarrow> 'k \<Rightarrow> sliding_window \<Rightarrow> 'b \<Rightarrow> instant \<Rightarrow> ('k, 'b) limit_log \<Rightarrow>
     bool \<times> ('k, 'b) limit_log" where
  "limiter_admit held kind rule bucket now rows =
     (let before = (case map_of rows (kind, bucket) of None \<Rightarrow> [] | Some log \<Rightarrow> log);
          (admitted, log) = admit_window rule before now;
          rows1 = (if log = [] then AList.delete (kind, bucket) rows
                   else if log \<noteq> before then AList.update (kind, bucket) log rows
                   else rows);
          horizon = now - window rule
      in (admitted, sweep held kind horizon rows1))"

text \<open>The hourly purge: \<open>LIMITS\<close> gives each kind its window; an unknown kind is kept.\<close>

definition purge_limits ::
    "('k \<times> sliding_window) list \<Rightarrow> ('k, 'b) limit_log \<Rightarrow> instant \<Rightarrow> nat \<times> ('k, 'b) limit_log" where
  "purge_limits limits rows now =
     (let kept = filter (\<lambda>((k, b), log).
                   \<not> (\<exists>(kind, rule) \<in> set limits. k = kind \<and> left_window (now - window rule) log)) rows
      in (length rows - length kept, kept))"

section \<open>At most \<open>limit\<close> admissions in any window\<close>

text \<open>The instants admitted by a run of requests, and the log it ends with.\<close>

fun admitted_at :: "sliding_window \<Rightarrow> instant list \<Rightarrow> instant list \<Rightarrow> instant list" where
  "admitted_at w log [] = []"
| "admitted_at w log (now # ts) =
     (let (ok, log') = admit_window w log now
      in (if ok then now # admitted_at w log' ts else admitted_at w log' ts))"

definition within :: "sliding_window \<Rightarrow> instant \<Rightarrow> instant list \<Rightarrow> instant list" where
  "within w t as = filter (\<lambda>a. t - window w < a \<and> a \<le> t) as"

lemma filter_within:
  assumes "sorted (as @ [now])" "0 < window w"
  shows "filter (\<lambda>at. since now at < window w) as = within w now as"
  using assms by (auto simp: within_def since_def sorted_append intro!: filter_cong)

lemma within_mono:
  assumes "t \<le> now"
  shows "within w now (within w t as) = within w now (filter (\<lambda>a. a \<le> t) as)"
  unfolding within_def filter_filter using assms by (intro filter_cong) auto

text \<open>
  The log after each request is exactly the admissions still in the window, as long as the
  clock does not go back; so the log's length is the number of admissions in the window.
\<close>

lemma admitted_bound_aux:
  assumes "0 < window w" "sorted (past @ ts)" "log = within w prev past" "\<forall>a \<in> set past. a \<le> prev"
    "\<forall>t \<in> set ts. prev \<le> t"
    and past_ok: "\<forall>a \<in> set past. length (within w a past) \<le> limit w"
  shows "\<forall>a \<in> set (past @ admitted_at w log ts).
    length (within w a (past @ admitted_at w log ts)) \<le> limit w"
  using assms(2-)
proof (induction ts arbitrary: past log prev)
  case Nil
  then show ?case by simp
next
  case (Cons now ts)
  have prev_now: "prev \<le> now" using Cons.prems(4) by simp
  have past_now: "\<forall>a \<in> set past. a \<le> now" using Cons.prems(1) by (auto simp: sorted_append)
  have le_past: "filter (\<lambda>a. a \<le> prev) past = past" using Cons.prems(3) by (simp add: filter_id_conv)
  have sorted_log: "sorted (log @ [now])"
    using Cons.prems(1,2) past_now by (auto simp: sorted_append within_def sorted_wrt_filter)
  let ?log1 = "filter (\<lambda>at. since now at < window w) log"
  have log1: "?log1 = within w now past"
    using filter_within [OF sorted_log assms(1)] within_mono [OF prev_now, of w past]
    by (simp add: Cons.prems(2) le_past)
  have sorted_ts: "sorted (past @ ts)" and ts_now: "\<forall>t \<in> set ts. now \<le> t"
    using Cons.prems(1) by (auto simp: sorted_append)
  show ?case
  proof (cases "length ?log1 \<ge> limit w")
    case True
    then have "admitted_at w log (now # ts) = admitted_at w ?log1 ts"
      by (simp add: admit_window_def Let_def)
    then show ?thesis
      using Cons.IH [OF sorted_ts log1 past_now ts_now Cons.prems(5)] by simp
  next
    case False
    let ?past = "past @ [now]"
    have adm: "admitted_at w log (now # ts) = now # admitted_at w (?log1 @ [now]) ts"
      using False by (simp add: admit_window_def Let_def)
    have log': "?log1 @ [now] = within w now ?past"
      using assms(1) by (simp add: log1) (simp add: within_def)
    have sorted': "sorted (?past @ ts)" using Cons.prems(1) by simp
    have le': "\<forall>a \<in> set ?past. a \<le> now" using past_now by auto
    have keep: "within w a ?past = within w a past" if "a \<in> set past" "a < now" for a
      using that by (simp add: within_def)
    have new: "length (within w now ?past) \<le> limit w"
      using False log1 log' by (metis length_append_singleton not_less_eq_eq)
    have ok': "\<forall>a \<in> set ?past. length (within w a ?past) \<le> limit w"
    proof
      fix a assume "a \<in> set ?past"
      then consider "a = now" | "a \<in> set past" "a < now" using past_now by force
      then show "length (within w a ?past) \<le> limit w"
        using new keep Cons.prems(5) by cases auto
    qed
    from Cons.IH [OF sorted' log' le' ts_now ok'] show ?thesis unfolding adm by simp
  qed
qed

lemma within_last:
  assumes "within w t as \<noteq> []"
  shows "\<exists>a \<in> set as. a \<le> t \<and> length (within w t as) \<le> length (within w a as)"
proof -
  let ?m = "Max (set (within w t as))"
  have fin: "finite (set (within w t as))" "set (within w t as) \<noteq> {}" using assms by simp_all
  have m: "?m \<in> set (within w t as)" using Max_in [OF fin] .
  have sub: "within w t as = within w t (within w ?m as)"
  proof -
    have "t - window w < a \<and> a \<le> t \<longleftrightarrow> (?m - window w < a \<and> a \<le> ?m) \<and> (t - window w < a \<and> a \<le> t)"
      if "a \<in> set as" for a
    proof -
      have "a \<le> ?m" if "t - window w < a \<and> a \<le> t"
        using that \<open>a \<in> set as\<close> by (intro Max_ge [OF fin(1)]) (simp add: within_def)
      moreover have "?m \<le> t" using m by (simp add: within_def)
      ultimately show ?thesis by auto
    qed
    then show ?thesis unfolding within_def filter_filter by (intro filter_cong) auto
  qed
  have "length (within w t (within w ?m as)) \<le> length (within w ?m as)"
    unfolding within_def by (rule length_filter_le)
  moreover have "?m \<in> set as" "?m \<le> t" using m by (simp_all add: within_def)
  ultimately show ?thesis using sub by metis
qed

text \<open>
  C5. The window slides. Requests arrive at any instants in clock order, starting from an
  empty log: whatever window of length \<open>window\<close> one looks at, ending at any instant \<open>t\<close>, at
  most \<open>limit\<close> requests were admitted inside it.
\<close>

theorem at_most_limit_in_any_window:
  assumes "0 < window w" "sorted ts"
  shows "length (within w t (admitted_at w [] ts)) \<le> limit w"
proof (cases "within w t (admitted_at w [] ts) = []")
  case True
  then show ?thesis by simp
next
  case False
  then obtain a where a: "a \<in> set (admitted_at w [] ts)"
    "length (within w t (admitted_at w [] ts)) \<le> length (within w a (admitted_at w [] ts))"
    using within_last by blast
  have "\<forall>a \<in> set ([] @ admitted_at w [] ts). length (within w a ([] @ admitted_at w [] ts)) \<le> limit w"
  proof (cases ts)
    case Nil
    then show ?thesis by simp
  next
    case (Cons x xs)
    show ?thesis
      by (rule admitted_bound_aux [where prev = x])
         (use assms Cons in \<open>auto simp: within_def\<close>)
  qed
  with a show ?thesis by fastforce
qed

lemma at_most_limit_in_any_window_witness:
  "length (within \<lparr>limit = 2, window = 10\<rparr> 9
      (admitted_at \<lparr>limit = 2, window = 10\<rparr> [] [0, 3, 5, 9, 11, 12])) \<le> 2 \<and>
   admitted_at \<lparr>limit = 2, window = 10\<rparr> [] [0, 3, 5, 9, 11, 12] = [0, 3, 11]"
proof
  show "length (within \<lparr>limit = 2, window = 10\<rparr> 9
      (admitted_at \<lparr>limit = 2, window = 10\<rparr> [] [0, 3, 5, 9, 11, 12])) \<le> 2"
    using at_most_limit_in_any_window [of "\<lparr>limit = 2, window = 10\<rparr>" "[0, 3, 5, 9, 11, 12]" 9] by simp
  show "admitted_at \<lparr>limit = 2, window = 10\<rparr> [] [0, 3, 5, 9, 11, 12] = [0, 3, 11]" by code_simp
qed

section \<open>Forgetting a subject never changes a decision\<close>

lemma newest_ge: "newest log = Some m \<Longrightarrow> a \<in> set log \<Longrightarrow> a \<le> m"
  by (auto simp: newest_def dest!: min_list_opt_Some)

lemma left_window_forgets: "left_window (now - window w) log \<Longrightarrow> forgets w log now"
  by (force simp: left_window_def forgets_def list_all_iff since_def split: option.splits
      dest: newest_ge)

lemma forgotten_admit: "forgets w log now \<Longrightarrow> admit_window w log now = admit_window w [] now"
  by (auto simp: forgets_def admit_window_def list_all_iff filter_empty_conv Let_def not_less)

lemma forgets_mono: "forgets w log now \<Longrightarrow> now \<le> later \<Longrightarrow> forgets w log later"
  by (auto simp: forgets_def list_all_iff since_def)

text \<open>The log the table keeps for a subject; none stands for the empty one.\<close>

definition log_of :: "('k, 'b) limit_log \<Rightarrow> 'k \<Rightarrow> 'b \<Rightarrow> instant list" where
  "log_of rows kind bucket = (case map_of rows (kind, bucket) of None \<Rightarrow> [] | Some log \<Rightarrow> log)"

lemma map_of_filter_pair:
  "keys_distinct m \<Longrightarrow> map_of (filter P m) k =
     (case map_of m k of None \<Rightarrow> None | Some v \<Rightarrow> if P (k, v) then Some v else None)"
proof (induction m)
  case Nil
  then show ?case by simp
next
  case (Cons a m)
  obtain x v where a: "a = (x, v)" by force
  have out: "map_of m x = None" using Cons.prems by (simp add: a map_of_eq_None_iff)
  with Cons show ?case by (auto simp: a split: option.splits)
qed

lemma log_of_sweep:
  assumes "keys_distinct rows"
  shows "log_of (sweep held kind h rows) k b =
    (if k = kind \<and> left_window h (log_of rows k b) \<and> \<not> held (k, b) then [] else log_of rows k b)"
proof (cases "map_of rows (k, b)")
  case None
  then show ?thesis by (simp add: sweep_def log_of_def map_of_filter_pair [OF assms])
next
  case (Some log)
  then show ?thesis by (auto simp: sweep_def log_of_def map_of_filter_pair [OF assms])
qed

lemma keys_distinct_sweep: "keys_distinct rows \<Longrightarrow> keys_distinct (sweep held kind h rows)"
  unfolding sweep_def by (simp add: distinct_map_filter)

text \<open>
  C6. The store decides as the pure window does, and the sweep is invisible. One admission
  of a subject answers what \<open>SlidingWindow::admit\<close> answers on that subject's log and keeps
  the log it leaves; every subject of this limit is decided at any later instant exactly as if
  nothing had been swept, whichever rows are skipped because another admission holds them;
  and the logs of the other limits are not touched.
\<close>

theorem limiter_admit_refines:
  assumes kd: "keys_distinct rows" and later: "now \<le> later"
  shows "fst (limiter_admit held kind rule bucket now rows) = fst (admit_window rule (log_of rows kind bucket) now) \<and>
    keys_distinct (snd (limiter_admit held kind rule bucket now rows)) \<and>
    admit_window rule (log_of (snd (limiter_admit held kind rule bucket now rows)) kind b) later =
      admit_window rule (if b = bucket then snd (admit_window rule (log_of rows kind bucket) now)
                         else log_of rows kind b) later \<and>
    (kind' \<noteq> kind \<longrightarrow>
       log_of (snd (limiter_admit held kind rule bucket now rows)) kind' b = log_of rows kind' b)"
proof -
  let ?before = "log_of rows kind bucket"
  obtain ok log where adm: "admit_window rule ?before now = (ok, log)" by force
  define rows1 where "rows1 = (if log = [] then AList.delete (kind, bucket) rows
                else if log \<noteq> ?before then AList.update (kind, bucket) log rows else rows)"
  let ?rows2 = "sweep held kind (now - window rule) rows1"
  have res: "limiter_admit held kind rule bucket now rows = (ok, ?rows2)"
    using adm by (simp add: limiter_admit_def Let_def log_of_def [symmetric] rows1_def)
  have kd1: "keys_distinct rows1" using kd by (simp add: rows1_def alist_keys)
  have log1: "log_of rows1 k b = (if k = kind \<and> b = bucket then log else log_of rows k b)" for k b
    by (auto simp: rows1_def log_of_def alist_simps split: option.splits)
  have same: "admit_window rule (log_of ?rows2 kind b) later = admit_window rule (log_of rows1 kind b) later"
  proof (cases "left_window (now - window rule) (log_of rows1 kind b) \<and> \<not> held (kind, b)")
    case True
    then have "forgets rule (log_of rows1 kind b) later"
      using left_window_forgets forgets_mono [OF _ later] by blast
    with True show ?thesis by (simp add: log_of_sweep [OF kd1] forgotten_admit)
  next
    case False
    then show ?thesis by (auto simp: log_of_sweep [OF kd1])
  qed
  have other: "kind' \<noteq> kind \<longrightarrow> log_of ?rows2 kind' b = log_of rows kind' b"
    by (simp add: log_of_sweep [OF kd1] log1)
  show ?thesis
    unfolding res adm snd_conv fst_conv
    using keys_distinct_sweep [OF kd1] same other log1 [of kind b] by simp
qed

lemma limiter_admit_refines_witness:
  "fst (limiter_admit (\<lambda>_. False) (1 :: nat) \<lparr>limit = 2, window = 10\<rparr> (7 :: nat) 30 [((1, 8), [3, 5])]) = True \<and>
   snd (limiter_admit (\<lambda>_. False) (1 :: nat) \<lparr>limit = 2, window = 10\<rparr> (7 :: nat) 30 [((1, 8), [3, 5])])
     = [((1, 7), [30])] \<and>
   admit_window \<lparr>limit = 2, window = 10\<rparr> (log_of (snd (limiter_admit (\<lambda>_. False) (1 :: nat)
      \<lparr>limit = 2, window = 10\<rparr> (7 :: nat) 30 [((1, 8), [3, 5])])) 1 8) 31 =
   admit_window \<lparr>limit = 2, window = 10\<rparr> [3, 5] 31"
proof (intro conjI)
  have kd: "keys_distinct [((1 :: nat, 8 :: nat), [3, 5 :: instant])]" by simp
  note r = limiter_admit_refines [OF kd, of 30 31 "\<lambda>_. False" 1 "\<lparr>limit = 2, window = 10\<rparr>" 7 8 0]
  show "admit_window \<lparr>limit = 2, window = 10\<rparr> (log_of (snd (limiter_admit (\<lambda>_. False) (1 :: nat)
      \<lparr>limit = 2, window = 10\<rparr> (7 :: nat) 30 [((1, 8), [3, 5])])) 1 8) 31 =
   admit_window \<lparr>limit = 2, window = 10\<rparr> [3, 5] 31"
    using r by (simp add: log_of_def)
  show "fst (limiter_admit (\<lambda>_. False) (1 :: nat) \<lparr>limit = 2, window = 10\<rparr> (7 :: nat) 30 [((1, 8), [3, 5])]) = True"
    by code_simp
  show "snd (limiter_admit (\<lambda>_. False) (1 :: nat) \<lparr>limit = 2, window = 10\<rparr> (7 :: nat) 30 [((1, 8), [3, 5])])
     = [((1, 7), [30])]"
    by code_simp
qed

end
