(* ===== verification/Csp_Throttle.thy ===== *)
theory Csp_Throttle
  imports Prelude
begin

text \<open>
  The limit on CSP violation reports, \<open>apps/api/src/csp_report_throttle.rs\<close>: the
  window of one address (\<open>Entry\<close>), the refusal of newcomers on a full table, and the
  transaction of \<open>ReportThrottle::admit\<close> over the rows of \<open>csp_report_throttle\<close>. The gaps
  between the statements of a transaction are an argument, as in \<open>Throttle_Store\<close>.
\<close>

section \<open>One address\<close>

definition MAX_REPORTS :: nat where "MAX_REPORTS = 100"
definition REPORT_WINDOW :: duration where "REPORT_WINDOW = secs (15 * 60)"
definition MAX_TRACKED_ADDRESSES :: nat where "MAX_TRACKED_ADDRESSES = 10000"

datatype report_decision = Report_Allow | Refused duration

record report_entry =
  requests :: nat
  report_start :: instant

definition first_report :: "instant \<Rightarrow> report_entry" where
  "first_report now = \<lparr>requests = 1, report_start = now\<rparr>"

definition ends_at :: "report_entry \<Rightarrow> instant" where
  "ends_at e = report_start e + REPORT_WINDOW"

definition report_stale :: "report_entry \<Rightarrow> instant \<Rightarrow> bool" where
  "report_stale e now \<longleftrightarrow> now \<ge> ends_at e"

definition admit_report :: "report_entry \<Rightarrow> instant \<Rightarrow> report_decision \<times> report_entry" where
  "admit_report e now =
     (let e1 = (if report_stale e now then \<lparr>requests = 0, report_start = now\<rparr> else e)
      in if requests e1 \<ge> MAX_REPORTS then (Refused (since (ends_at e1) now), e1)
         else (Report_Allow, e1\<lparr>requests := requests e1 + 1\<rparr>))"

definition refuse_newcomer :: "nat \<Rightarrow> instant option \<Rightarrow> instant \<Rightarrow> report_decision option" where
  "refuse_newcomer held earliest now =
     (if held \<ge> MAX_TRACKED_ADDRESSES
      then Some (Refused (case earliest of None \<Rightarrow> 0 | Some start \<Rightarrow> since (start + REPORT_WINDOW) now))
      else None)"

section \<open>The table\<close>

record report_row =
  row_requests :: int
  row_start :: instant

type_synonym 's report_rows = "('s \<times> report_row) list"

datatype report_error = ReportUniqueViolation

definition report_entry_of_row :: "report_row \<Rightarrow> report_entry" where
  "report_entry_of_row r =
     \<lparr>requests = (if 0 \<le> row_requests r then nat (row_requests r) else 0), report_start = row_start r\<rparr>"

definition report_row_of_entry :: "report_entry \<Rightarrow> report_row" where
  "report_row_of_entry e =
     \<lparr>row_requests = (if int (requests e) \<le> 2147483647 then int (requests e) else 2147483647),
      row_start = report_start e\<rparr>"

definition purge_reports :: "'s report_rows \<Rightarrow> instant \<Rightarrow> nat \<times> 's report_rows" where
  "purge_reports rows now =
     (let kept = filter (\<lambda>(_, r). \<not> row_start r \<le> now - REPORT_WINDOW) rows
      in (length rows - length kept, kept))"

text \<open>The tail of \<open>ReportThrottle::admit\<close>, under the table lock.\<close>

definition admit_new_address ::
    "(nat \<Rightarrow> 's report_rows \<Rightarrow> 's report_rows) \<Rightarrow> instant \<Rightarrow> 's \<Rightarrow> 's report_rows \<Rightarrow>
     report_error + (report_decision \<times> 's report_rows)" where
  "admit_new_address env now scope rows =
     (let insert_first = (\<lambda>rows.
            if map_of rows scope \<noteq> None then Inl ReportUniqueViolation
            else Inr (Report_Allow, AList.update scope (report_row_of_entry (first_report now)) rows));
          rows1 = env 2 rows
      in if length rows1 \<ge> MAX_TRACKED_ADDRESSES then
           let rows2 = snd (purge_reports (env 3 rows1) now);
               rows3 = env 4 rows2
           in (case refuse_newcomer (length rows3) (min_list_opt (map (row_start \<circ> snd) rows3)) now of
                 Some refused \<Rightarrow> Inr (refused, rows3)
               | None \<Rightarrow> insert_first (env 5 rows3))
         else insert_first (env 5 rows1))"

definition report_admit ::
    "(nat \<Rightarrow> 's report_rows \<Rightarrow> 's report_rows) \<Rightarrow> instant \<Rightarrow> instant \<Rightarrow> 's \<Rightarrow> 's report_rows \<Rightarrow>
     report_error + (report_decision \<times> 's report_rows)" where
  "report_admit env now now2 scope rows =
     (let rows0 = env 0 rows
      in case map_of rows0 scope of
           None \<Rightarrow> admit_new_address env now2 scope rows0
         | Some row \<Rightarrow>
             let loaded = report_entry_of_row row;
                 (decision, e) = admit_report loaded now
             in if e = loaded then Inr (decision, rows0)
                else
                  let rows1 = env 1 rows0
                  in if map_of rows1 scope \<noteq> None
                     then Inr (decision, AList.update scope (report_row_of_entry e) rows1)
                     else admit_new_address env now2 scope rows1)"

section \<open>A hundred reports per window\<close>

definition report_step :: "report_entry \<Rightarrow> instant \<Rightarrow> bool \<times> report_entry" where
  "report_step e now = (let (d, e') = admit_report e now in (d = Report_Allow, e'))"

lemma admit_report_open:
  "\<not> report_stale e now \<Longrightarrow> admit_report e now =
     (if requests e \<ge> MAX_REPORTS then (Refused (since (ends_at e) now), e)
      else (Report_Allow, e\<lparr>requests := requests e + 1\<rparr>))"
  by (simp add: admit_report_def)

interpretation report_budget: window_budget report_step
    "\<lambda>w e now. now < w + REPORT_WINDOW" "\<lambda>w e. report_start e = w \<and> requests e \<le> MAX_REPORTS"
    "\<lambda>w e. MAX_REPORTS - requests e"
  by unfold_locales
     (auto simp: report_step_def admit_report_open report_stale_def ends_at_def
       split: if_splits)

lemma run_in_report:
  "list_all (\<lambda>now. now < w + REPORT_WINDOW) ts \<Longrightarrow>
   run_in report_step (\<lambda>e now. now < w + REPORT_WINDOW) e ts"
  by (induction ts arbitrary: e) auto

text \<open>
  A window admits at most \<open>MAX_REPORTS\<close> requests from one address, and a refusal says
  exactly how long is left: the request is then refused at every instant before, and admitted
  at the instant the window ends.
\<close>

theorem report_window:
  assumes "requests e \<le> MAX_REPORTS" "list_all (\<lambda>now. now < report_start e + REPORT_WINDOW) ts"
  shows "admissions report_step e ts \<le> MAX_REPORTS - requests e \<and>
    (\<forall>now r e'. admit_report e now = (Refused r, e') \<longrightarrow>
       e' = e \<and> 0 < r \<and> now + r = ends_at e \<and> fst (admit_report e (now + r)) = Report_Allow)"
proof (intro conjI allI impI)
  show "admissions report_step e ts \<le> MAX_REPORTS - requests e"
    using report_budget.admissions_bounded [where w = "report_start e" and s = e and es = ts] run_in_report [OF assms(2)]
      assms(1) by simp
next
  fix now r e' assume refused: "admit_report e now = (Refused r, e')"
  have zero: "requests \<lparr>requests = 0, report_start = t\<rparr> < MAX_REPORTS" for t
    by (simp add: MAX_REPORTS_def)
  then have fresh: "\<not> report_stale e now"
    using refused by (auto simp: admit_report_def Let_def split: if_splits)
  with refused have parts: "e' = e" "r = since (ends_at e) now"
    by (auto simp: admit_report_open split: if_splits)
  have "now < ends_at e" using fresh by (simp add: report_stale_def)
  then have r: "r = ends_at e - now" "0 < r" by (simp_all add: parts since_pos)
  then have "report_stale e (now + r)" by (simp add: report_stale_def)
  then have "fst (admit_report e (now + r)) = Report_Allow"
    by (simp add: admit_report_def MAX_REPORTS_def)
  then show "e' = e" "0 < r" "now + r = ends_at e" "fst (admit_report e (now + r)) = Report_Allow"
    using r parts by simp_all
qed

lemma report_window_witness:
  "admissions report_step \<lparr>requests = 99, report_start = 0\<rparr> [1, 2, 3] \<le> MAX_REPORTS - 99 \<and>
   admit_report \<lparr>requests = 100, report_start = 0\<rparr> 5 =
     (Refused (REPORT_WINDOW - 5), \<lparr>requests = 100, report_start = 0\<rparr>)"
proof
  show "admissions report_step \<lparr>requests = 99, report_start = 0\<rparr> [1, 2, 3] \<le> MAX_REPORTS - 99"
    using report_window [of "\<lparr>requests = 99, report_start = 0\<rparr>" "[1, 2, 3]"]
    by (simp add: MAX_REPORTS_def REPORT_WINDOW_def secs_def)
  show "admit_report \<lparr>requests = 100, report_start = 0\<rparr> 5 =
     (Refused (REPORT_WINDOW - 5), \<lparr>requests = 100, report_start = 0\<rparr>)"
    by code_simp
qed

section \<open>The ceiling on addresses\<close>

abbreviation scopes :: "'s report_rows \<Rightarrow> 's set" where
  "scopes rows \<equiv> set (map fst rows)"

definition keeps_address_ceiling :: "('s report_rows \<Rightarrow> 's report_rows) \<Rightarrow> bool" where
  "keeps_address_ceiling f \<longleftrightarrow> (\<forall>rows. keys_distinct rows \<and> length rows \<le> MAX_TRACKED_ADDRESSES \<longrightarrow>
     keys_distinct (f rows) \<and> length (f rows) \<le> MAX_TRACKED_ADDRESSES)"

definition never_inserts_address :: "('s report_rows \<Rightarrow> 's report_rows) \<Rightarrow> bool" where
  "never_inserts_address f \<longleftrightarrow> (\<forall>rows. keys_distinct rows \<longrightarrow>
     keys_distinct (f rows) \<and> scopes (f rows) \<subseteq> scopes rows)"

lemma length_scopes: "keys_distinct rows \<Longrightarrow> length rows = card (scopes rows)"
  by (metis distinct_card length_map)

lemma length_never_inserts:
  "never_inserts_address f \<Longrightarrow> keys_distinct rows \<Longrightarrow> keys_distinct (f rows) \<and> length (f rows) \<le> length rows"
  unfolding never_inserts_address_def
  by (metis length_scopes card_mono List.finite_set)

lemma length_update_le:
  "length (AList.update k v m) \<le> length m + 1"
  by (induction m) auto

lemma length_update_held: "map_of m k \<noteq> None \<Longrightarrow> length (AList.update k v m) = length m"
  by (metis length_map update_keys map_of_eq_None_iff set_map)

lemma purge_reports_shrinks:
  "keys_distinct rows \<Longrightarrow>
   keys_distinct (snd (purge_reports rows now)) \<and> length (snd (purge_reports rows now)) \<le> length rows"
  by (simp add: purge_reports_def Let_def distinct_map_filter)

lemma new_address_ceiling:
  assumes kd: "keys_distinct rows" and len: "length rows \<le> MAX_TRACKED_ADDRESSES"
    and env2: "keeps_address_ceiling (env 2)"
    and env: "never_inserts_address (env 3)" "never_inserts_address (env 4)" "never_inserts_address (env 5)"
    and run: "admit_new_address env now scope rows = Inr (d, rows')"
  shows "keys_distinct rows' \<and> length rows' \<le> MAX_TRACKED_ADDRESSES"
proof -
  have k1: "keys_distinct (env 2 rows)" "length (env 2 rows) \<le> MAX_TRACKED_ADDRESSES"
    using env2 kd len by (simp_all add: keeps_address_ceiling_def)
  have ins: "keys_distinct rows' \<and> length rows' \<le> MAX_TRACKED_ADDRESSES"
    if "keys_distinct rs" "length rs < MAX_TRACKED_ADDRESSES"
      "(if map_of (env 5 rs) scope \<noteq> None then Inl ReportUniqueViolation
        else Inr (Report_Allow, AList.update scope (report_row_of_entry (first_report now)) (env 5 rs)))
       = Inr (d, rows')" for rs
    using that length_never_inserts [OF env(3) that(1)] keys_distinct_update [of "env 5 rs" scope]
      length_update_le [of scope "report_row_of_entry (first_report now)" "env 5 rs"]
    by (auto split: if_splits)
  show ?thesis
  proof (cases "length (env 2 rows) \<ge> MAX_TRACKED_ADDRESSES")
    case False
    with run ins [OF k1(1)] show ?thesis by (simp add: admit_new_address_def Let_def)
  next
    case True
    let ?rows2 = "snd (purge_reports (env 3 (env 2 rows)) now)"
    have k2: "keys_distinct ?rows2" "length ?rows2 \<le> MAX_TRACKED_ADDRESSES"
      using length_never_inserts [OF env(1) k1(1)] purge_reports_shrinks [of "env 3 (env 2 rows)" now] k1(2)
      by auto
    have k3: "keys_distinct (env 4 ?rows2)" "length (env 4 ?rows2) \<le> MAX_TRACKED_ADDRESSES"
      using length_never_inserts [OF env(2) k2(1)] k2(2) by auto
    show ?thesis
    proof (cases "length (env 4 ?rows2) \<ge> MAX_TRACKED_ADDRESSES")
      case True': True
      with True run k3 show ?thesis by (auto simp: admit_new_address_def refuse_newcomer_def Let_def)
    next
      case False
      with True run ins [OF k3(1)] show ?thesis
        by (simp add: admit_new_address_def refuse_newcomer_def Let_def)
    qed
  qed
qed

text \<open>
  Whatever the other replicas do between the statements of an admission (keeping the
  ceiling, and inserting nothing while this one holds the table lock), a committed admission
  leaves at most \<open>MAX_TRACKED_ADDRESSES\<close> rows, one per address.
\<close>

theorem report_ceiling:
  assumes kd: "keys_distinct rows" and len: "length rows \<le> MAX_TRACKED_ADDRESSES"
    and before_lock: "keeps_address_ceiling (env 0)" "keeps_address_ceiling (env 1)"
      "keeps_address_ceiling (env 2)"
    and under_lock: "never_inserts_address (env 3)" "never_inserts_address (env 4)"
      "never_inserts_address (env 5)"
    and run: "report_admit env now now2 scope rows = Inr (d, rows')"
  shows "keys_distinct rows' \<and> length rows' \<le> MAX_TRACKED_ADDRESSES"
proof -
  have c0: "keys_distinct (env 0 rows)" "length (env 0 rows) \<le> MAX_TRACKED_ADDRESSES"
    using before_lock(1) kd len by (simp_all add: keeps_address_ceiling_def)
  then have c1: "keys_distinct (env 1 (env 0 rows))" "length (env 1 (env 0 rows)) \<le> MAX_TRACKED_ADDRESSES"
    using before_lock(2) by (simp_all add: keeps_address_ceiling_def)
  note newcomer = new_address_ceiling [of _ env, OF _ _ before_lock(3) under_lock]
  show ?thesis
  proof (cases "map_of (env 0 rows) scope")
    case None
    with run newcomer [OF c0] show ?thesis by (simp add: report_admit_def)
  next
    case (Some row)
    obtain dec e where adm: "admit_report (report_entry_of_row row) now = (dec, e)" by force
    show ?thesis
    proof (cases "e = report_entry_of_row row")
      case True
      with run Some adm c0 show ?thesis by (simp add: report_admit_def)
    next
      case changed: False
      show ?thesis
      proof (cases "map_of (env 1 (env 0 rows)) scope")
        case None
        with run Some adm changed newcomer [OF c1] show ?thesis by (simp add: report_admit_def)
      next
        case (Some row')
        with run \<open>map_of (env 0 rows) scope = Some row\<close> adm changed
        have "rows' = AList.update scope (report_row_of_entry e) (env 1 (env 0 rows))"
          by (simp add: report_admit_def)
        with Some c1 show ?thesis by (simp add: keys_distinct_update length_update_held)
      qed
    qed
  qed
qed

lemma report_ceiling_witness:
  "keys_distinct [(1 :: nat, \<lparr>row_requests = 3, row_start = 0\<rparr>)] \<and>
   length [(1 :: nat, \<lparr>row_requests = 3, row_start = 0\<rparr>)] \<le> MAX_TRACKED_ADDRESSES"
proof (rule report_ceiling)
  show "report_admit (\<lambda>_ rows. rows) 5 6 1 [(1 :: nat, \<lparr>row_requests = 2, row_start = 0\<rparr>)] =
      Inr (Report_Allow, [(1, \<lparr>row_requests = 3, row_start = 0\<rparr>)])"
    by code_simp
qed (simp_all add: keeps_address_ceiling_def never_inserts_address_def MAX_TRACKED_ADDRESSES_def)

end
