(* ===== verification/Strings.thy ===== *)
theory Strings
  imports Prelude "HOL-Library.Char_ord"
begin

text \<open>
  What the program uses of Rust's strings. A \<open>&str\<close> is the list of its UTF-8 bytes
  (\<open>string\<close>): splitting on an ASCII character, ASCII case folding and byte lengths work on the
  bytes. Where the code counts or tests characters, a text is the list of its Unicode scalar
  values (\<open>utext\<close>).
\<close>

section \<open>Byte strings\<close>

text \<open>\<open>s.split(c)\<close>: always at least one piece.\<close>

fun split_on :: "'x \<Rightarrow> 'x list \<Rightarrow> 'x list list" where
  "split_on c [] = [[]]"
| "split_on c (x # xs) =
     (if x = c then [] # split_on c xs
      else (case split_on c xs of [] \<Rightarrow> [[x]] | p # ps \<Rightarrow> (x # p) # ps))"

text \<open>\<open>parts.join(sep)\<close>.\<close>

fun join_with :: "'x list \<Rightarrow> 'x list list \<Rightarrow> 'x list" where
  "join_with sep [] = []"
| "join_with sep [p] = p"
| "join_with sep (p # q # ps) = p @ sep @ join_with sep (q # ps)"

text \<open>\<open>s.split_once(c)\<close>, \<open>s.rsplit_once(c)\<close>.\<close>

fun split_once :: "'x \<Rightarrow> 'x list \<Rightarrow> ('x list \<times> 'x list) option" where
  "split_once c [] = None"
| "split_once c (x # xs) =
     (if x = c then Some ([], xs)
      else map_option (\<lambda>(a, b). (x # a, b)) (split_once c xs))"

definition rsplit_once :: "'x \<Rightarrow> 'x list \<Rightarrow> ('x list \<times> 'x list) option" where
  "rsplit_once c s = map_option (\<lambda>(a, b). (rev b, rev a)) (split_once c (rev s))"

text \<open>\<open>s.split_once(sep)\<close> for a separator of several characters.\<close>

fun split_once_on :: "'x list \<Rightarrow> 'x list \<Rightarrow> ('x list \<times> 'x list) option" where
  "split_once_on sep [] = (if sep = [] then Some ([], []) else None)"
| "split_once_on sep (x # xs) =
     (if take (length sep) (x # xs) = sep then Some ([], drop (length sep) (x # xs))
      else map_option (\<lambda>(a, b). (x # a, b)) (split_once_on sep xs))"

text \<open>\<open>s.starts_with(p)\<close>, \<open>s.strip_prefix(p)\<close>.\<close>

definition starts_with :: "'x list \<Rightarrow> 'x list \<Rightarrow> bool" where
  "starts_with p s \<longleftrightarrow> take (length p) s = p"

definition strip_prefix :: "'x list \<Rightarrow> 'x list \<Rightarrow> 'x list option" where
  "strip_prefix p s = (if starts_with p s then Some (drop (length p) s) else None)"

definition ascii_upper :: "char \<Rightarrow> char" where
  "ascii_upper c = (let n = of_char c :: nat in if 97 \<le> n \<and> n \<le> 122 then char_of (n - 32) else c)"

definition ascii_lower :: "char \<Rightarrow> char" where
  "ascii_lower c = (let n = of_char c :: nat in if 65 \<le> n \<and> n \<le> 90 then char_of (n + 32) else c)"

abbreviation to_ascii_uppercase :: "string \<Rightarrow> string" where
  "to_ascii_uppercase s \<equiv> map ascii_upper s"

abbreviation to_ascii_lowercase :: "string \<Rightarrow> string" where
  "to_ascii_lowercase s \<equiv> map ascii_lower s"

definition eq_ignore_ascii_case :: "string \<Rightarrow> string \<Rightarrow> bool" where
  "eq_ignore_ascii_case a b \<longleftrightarrow> to_ascii_lowercase a = to_ascii_lowercase b"

definition is_ascii :: "string \<Rightarrow> bool" where
  "is_ascii s \<longleftrightarrow> list_all (\<lambda>c. (of_char c :: nat) < 128) s"

text \<open>\<open>char::is_whitespace\<close> on an ASCII byte.\<close>

definition ascii_ws :: "char \<Rightarrow> bool" where
  "ascii_ws c \<longleftrightarrow> (let n = of_char c :: nat in (9 \<le> n \<and> n \<le> 13) \<or> n = 32)"

definition trim_by :: "('x \<Rightarrow> bool) \<Rightarrow> 'x list \<Rightarrow> 'x list" where
  "trim_by ws s = rev (dropWhile ws (rev (dropWhile ws s)))"

abbreviation ascii_trim :: "string \<Rightarrow> string" where
  "ascii_trim \<equiv> trim_by ascii_ws"

definition is_digit :: "char \<Rightarrow> bool" where
  "is_digit c \<longleftrightarrow> (let n = of_char c :: nat in 48 \<le> n \<and> n \<le> 57)"

definition digit_value :: "char \<Rightarrow> nat" where
  "digit_value c = of_char c - 48"

text \<open>\<open>format!("{n}")\<close> of an unsigned integer.\<close>

fun show_nat :: "nat \<Rightarrow> string" where
  "show_nat n = (if n < 10 then [char_of (48 + n)] else show_nat (n div 10) @ [char_of (48 + n mod 10)])"

declare show_nat.simps [simp del]

definition digits_value :: "string \<Rightarrow> nat" where
  "digits_value s = foldl (\<lambda>acc c. acc * 10 + digit_value c) 0 s"

text \<open>
  \<open>s.parse::<u32>()\<close>, as \<open>from_str_radix\<close> documents it: an optional \<open>+\<close>, then at least one
  digit and nothing else, and a value that fits.
\<close>

definition parse_unsigned :: "nat \<Rightarrow> string \<Rightarrow> nat option" where
  "parse_unsigned bound s =
     (let ds = (case s of c # cs \<Rightarrow> if c = CHR ''+'' then cs else s | [] \<Rightarrow> [])
      in if ds \<noteq> [] \<and> list_all is_digit ds \<and> digits_value ds < bound
         then Some (digits_value ds) else None)"

abbreviation parse_u32 :: "string \<Rightarrow> nat option" where
  "parse_u32 \<equiv> parse_unsigned 4294967296"

section \<open>Texts\<close>

type_synonym utext = "nat list"

text \<open>\<open>char::is_whitespace\<close>: the Unicode property \<open>White_Space\<close>.\<close>

definition is_whitespace :: "nat \<Rightarrow> bool" where
  "is_whitespace c \<longleftrightarrow> (9 \<le> c \<and> c \<le> 13) \<or> c = 32 \<or> c = 133 \<or> c = 160 \<or> c = 5760 \<or>
     (8192 \<le> c \<and> c \<le> 8202) \<or> c = 8232 \<or> c = 8233 \<or> c = 8239 \<or> c = 8287 \<or> c = 12288"

abbreviation trim_text :: "utext \<Rightarrow> utext" where
  "trim_text \<equiv> trim_by is_whitespace"

abbreviation chars :: "string \<Rightarrow> utext" where
  "chars s \<equiv> map of_char s"

section \<open>Lemmas\<close>

lemma split_on_nonempty [simp]: "split_on c s \<noteq> []"
  by (cases s) (auto split: list.split)

lemma join_split: "join_with [c] (split_on c s) = s"
proof (induction s)
  case Nil
  then show ?case by simp
next
  case (Cons x s)
  obtain p ps where p: "split_on c s = p # ps" by (cases "split_on c s") auto
  with Cons show ?case by (cases ps) auto
qed

lemma split_on_no_sep: "c \<notin> set p \<Longrightarrow> split_on c p = [p]"
  by (induction p) auto

lemma split_on_append: "c \<notin> set p \<Longrightarrow> split_on c (p @ c # s) = p # split_on c s"
  by (induction p) (auto split: list.split)

lemma split_on_app: "split_on c (xs @ c # ys) = split_on c xs @ split_on c ys"
  by (induction xs) (auto split: list.split)

lemma split_join: "ps \<noteq> [] \<Longrightarrow> \<forall>p \<in> set ps. c \<notin> set p \<Longrightarrow> split_on c (join_with [c] ps) = ps"
proof (induction ps)
  case Nil
  then show ?case by simp
next
  case (Cons p ps)
  then show ?case by (cases ps) (simp_all add: split_on_no_sep split_on_append)
qed

lemma split_on_pieces: "p \<in> set (split_on c s) \<Longrightarrow> c \<notin> set p"
proof (induction s arbitrary: p)
  case Nil
  then show ?case by simp
next
  case (Cons x s)
  obtain q qs where q: "split_on c s = q # qs" by (cases "split_on c s") auto
  with Cons show ?case by (auto split: if_splits)
qed

lemma split_once_append: "c \<notin> set a \<Longrightarrow> split_once c (a @ c # b) = Some (a, b)"
  by (induction a) auto

lemma split_once_Some: "split_once c s = Some (a, b) \<Longrightarrow> s = a @ c # b \<and> c \<notin> set a"
  by (induction s arbitrary: a) (auto split: if_splits)

lemma split_once_None [simp]: "split_once c s = None \<longleftrightarrow> c \<notin> set s"
  by (induction s) auto

lemma trim_by_Nil [simp]: "trim_by ws [] = []"
  by (simp add: trim_by_def)

lemma trim_by_empty: "trim_by ws s = [] \<longleftrightarrow> (\<forall>c \<in> set s. ws c)"
proof -
  have "trim_by ws s = [] \<longleftrightarrow> (\<forall>c \<in> set (dropWhile ws s). ws c)"
    by (simp add: trim_by_def)
  also have "\<dots> \<longleftrightarrow> (\<forall>c \<in> set s. ws c)" by (induction s) auto
  finally show ?thesis .
qed

lemma dropWhile_last: "dropWhile ws s \<noteq> [] \<Longrightarrow> last (dropWhile ws s) = last s"
  by (induction s) auto

lemma trim_by_ends:
  assumes "trim_by ws s \<noteq> []"
  shows "\<not> ws (hd (trim_by ws s)) \<and> \<not> ws (last (trim_by ws s))"
proof -
  let ?d = "dropWhile ws s"
  let ?e = "dropWhile ws (rev ?d)"
  have ne: "?e \<noteq> []" using assms by (simp add: trim_by_def)
  then have last_ok: "\<not> ws (last (trim_by ws s))"
    using hd_dropWhile [OF ne] by (simp add: trim_by_def last_rev)
  have d_ne: "?d \<noteq> []" using ne by (metis dropWhile.simps(1) rev.simps(1))
  then have hd_d: "\<not> ws (hd ?d)" by (rule hd_dropWhile)
  have "hd (trim_by ws s) = last ?e" by (simp add: trim_by_def hd_rev)
  also have "last ?e = last (rev ?d)" by (rule dropWhile_last [OF ne])
  also have "\<dots> = hd ?d" by (simp add: last_rev)
  finally show ?thesis using hd_d last_ok by simp
qed

lemma trim_by_id:
  assumes "s = [] \<or> (\<not> ws (hd s) \<and> \<not> ws (last s))"
  shows "trim_by ws s = s"
proof (cases s)
  case (Cons a as)
  then have "dropWhile ws s = s" using assms by simp
  moreover obtain b bs where b: "rev s = b # bs" using Cons by (cases "rev s") auto
  then have "last s = b" by (metis hd_rev list.sel(1) rev_rev_ident)
  then have "dropWhile ws (rev s) = rev s" using assms Cons b by simp
  ultimately show ?thesis by (simp add: trim_by_def)
qed simp

lemma trim_by_idem [simp]: "trim_by ws (trim_by ws s) = trim_by ws s"
  using trim_by_ends [of ws s] by (intro trim_by_id) blast

lemma of_char_digit: "d < 10 \<Longrightarrow> (of_char (char_of (48 + d :: nat)) :: nat) = 48 + d"
  by simp

lemma is_digit_char_of [simp]: "d < 10 \<Longrightarrow> is_digit (char_of (48 + d :: nat))"
  by (simp add: is_digit_def Let_def)

lemma digit_value_char_of [simp]: "d < 10 \<Longrightarrow> digit_value (char_of (48 + d :: nat)) = d"
  by (simp add: digit_value_def)

lemma digits_value_snoc: "digits_value (s @ [c]) = digits_value s * 10 + digit_value c"
  by (simp add: digits_value_def)

lemma show_nat_digits: "list_all is_digit (show_nat n)" and show_nat_nonempty: "show_nat n \<noteq> []"
  and digits_value_show: "digits_value (show_nat n) = n"
proof (induction n rule: show_nat.induct)
  case (1 n)
  show "list_all is_digit (show_nat n)"
    using 1 by (subst show_nat.simps) (auto simp: list_all_iff)
  show "show_nat n \<noteq> []" by (subst show_nat.simps) simp
  show "digits_value (show_nat n) = n"
  proof (cases "n < 10")
    case True
    then show ?thesis by (subst show_nat.simps) (simp add: digits_value_def)
  next
    case False
    with 1(3) have "digits_value (show_nat (n div 10)) = n div 10" by simp
    with False show ?thesis
      by (subst show_nat.simps) (simp add: digits_value_snoc)
  qed
qed

lemma digit_not_plus: "is_digit c \<Longrightarrow> c \<noteq> CHR ''+''"
  by (auto simp: is_digit_def)

lemma parse_show: "n < bound \<Longrightarrow> parse_unsigned bound (show_nat n) = Some n"
proof -
  assume n: "n < bound"
  obtain c cs where c: "show_nat n = c # cs" using show_nat_nonempty [of n] by (cases "show_nat n") auto
  have "c \<noteq> CHR ''+''" using show_nat_digits [of n] digit_not_plus by (simp add: c)
  then show ?thesis
    using n show_nat_digits [of n] digits_value_show [of n] by (simp add: parse_unsigned_def c)
qed

end
