(* ===== verification/Paris.thy ===== *)
theory Paris
  imports Prelude Strings
begin

text \<open>
  Civil dates and the Europe/Paris clock, as \<open>apps/shared/src/validation/agenda.rs\<close> uses
  them: \<open>paris_date\<close>, \<open>paris_start_of_day\<close>, \<open>normalize_all_day\<close>, and the calendar grids.

  A civil date (\<open>NaiveDate\<close>) is the number of days since Monday 0001-01-01, a wall clock
  (\<open>NaiveDateTime\<close>) the number of microseconds since that day's midnight; instants are counted
  from the same midnight, read in UTC, so \<open>naive.and_utc()\<close> is the identity. The calendar and
  the time-zone database are third-party code: they are the records \<open>calendar\<close> and \<open>zone\<close>,
  arguments of the definitions, and what the code relies on is stated as named hypotheses.
\<close>

section \<open>Dates, wall clocks, zones\<close>

type_synonym date = int
type_synonym naive = int

definition DAY :: int where
  "DAY = 86400000000"

definition HOUR :: duration where
  "HOUR = 3600000000"

text \<open>\<open>naive.date()\<close>, \<open>naive.time()\<close>, \<open>date.and_time(NaiveTime::MIN)\<close>.\<close>

definition naive_date :: "naive \<Rightarrow> date" where
  "naive_date n = n div DAY"

definition naive_time :: "naive \<Rightarrow> int" where
  "naive_time n = n mod DAY"

definition midnight :: "date \<Rightarrow> naive" where
  "midnight d = d * DAY"

text \<open>
  A time zone: the wall clock of an instant, and the earliest and latest instants a wall clock
  names (\<open>from_local_datetime(..).earliest()\<close>, \<open>.latest()\<close>).
\<close>

record zone =
  local_of :: "instant \<Rightarrow> naive"
  earliest :: "naive \<Rightarrow> instant option"
  latest :: "naive \<Rightarrow> instant option"

text \<open>
  The calendar: its range, its reading of year, month and day, the texts of a date
  (\<open>%Y%m%d\<close>) and of an instant (\<open>%Y%m%dT%H%M%SZ\<close>), and the year of a date.
\<close>

record calendar =
  from_ymd :: "int \<Rightarrow> nat \<Rightarrow> nat \<Rightarrow> date option"
  min_date :: date
  max_date :: date
  show_ymd :: "date \<Rightarrow> string"
  read_ymd :: "string \<Rightarrow> date option"
  show_stamp :: "instant \<Rightarrow> string"
  year_of :: "date \<Rightarrow> int"

text \<open>\<open>date.succ_opt()\<close>, and \<open>date + n\<close> days when it is representable.\<close>

definition checked_days :: "calendar \<Rightarrow> date \<Rightarrow> int \<Rightarrow> date option" where
  "checked_days cal d n = (if min_date cal \<le> d + n \<and> d + n \<le> max_date cal then Some (d + n) else None)"

definition succ_opt :: "calendar \<Rightarrow> date \<Rightarrow> date option" where
  "succ_opt cal d = checked_days cal d 1"

datatype weekday = Mon | Tue | Wed | Thu | Fri | Sat | Sun

definition WEEKDAYS :: "weekday list" where
  "WEEKDAYS = [Mon, Tue, Wed, Thu, Fri, Sat, Sun]"

definition weekday_of :: "date \<Rightarrow> weekday" where
  "weekday_of d = WEEKDAYS ! nat (d mod 7)"

fun num_days_from_monday :: "weekday \<Rightarrow> nat" where
  "num_days_from_monday Mon = 0"
| "num_days_from_monday Tue = 1"
| "num_days_from_monday Wed = 2"
| "num_days_from_monday Thu = 3"
| "num_days_from_monday Fri = 4"
| "num_days_from_monday Sat = 5"
| "num_days_from_monday Sun = 6"

section \<open>Paris days\<close>

definition paris_date :: "zone \<Rightarrow> instant \<Rightarrow> date" where
  "paris_date z t = naive_date (local_of z t)"

definition paris_start_of_day :: "zone \<Rightarrow> date \<Rightarrow> instant" where
  "paris_start_of_day z d =
     (let naive = midnight d
      in case (case earliest z naive of Some t \<Rightarrow> Some t | None \<Rightarrow> latest z naive) of
           Some t \<Rightarrow> t
         | None \<Rightarrow> naive)"

definition normalize_all_day :: "calendar \<Rightarrow> zone \<Rightarrow> instant \<Rightarrow> instant \<Rightarrow> instant \<times> instant" where
  "normalize_all_day cal z starts_at ends_at =
     (let start_day = naive_date (local_of z starts_at);
          end_paris = local_of z ends_at;
          end_day = naive_date end_paris;
          exclusive_end_day =
            (if naive_time end_paris = 0 \<and> start_day < end_day then end_day
             else (case succ_opt cal end_day of Some d \<Rightarrow> d | None \<Rightarrow> end_day));
          first_day_after_start = (case succ_opt cal start_day of Some d \<Rightarrow> d | None \<Rightarrow> start_day);
          exclusive_end_day =
            (if exclusive_end_day < first_day_after_start then first_day_after_start
             else exclusive_end_day)
      in (paris_start_of_day z start_day, paris_start_of_day z exclusive_end_day))"

section \<open>Calendar grids\<close>

text \<open>
  A date computed with \<open>+\<close> or \<open>-\<close> panics out of the calendar's range: the grid is then \<open>None\<close>.
\<close>

fun all_some :: "'x option list \<Rightarrow> 'x list option" where
  "all_some [] = Some []"
| "all_some (None # xs) = None"
| "all_some (Some x # xs) = map_option (\<lambda>ys. x # ys) (all_some xs)"

definition days_from :: "calendar \<Rightarrow> date \<Rightarrow> nat \<Rightarrow> date list option" where
  "days_from cal start n = all_some (map (\<lambda>i. checked_days cal start (int i)) [0..<n])"

definition month_grid :: "calendar \<Rightarrow> int \<Rightarrow> nat \<Rightarrow> date list option" where
  "month_grid cal year month =
     (case from_ymd cal year month 1 of
        None \<Rightarrow> Some []
      | Some first \<Rightarrow>
          let offset = num_days_from_monday (weekday_of first)
          in (case checked_days cal first (- int offset) of
                None \<Rightarrow> None
              | Some start \<Rightarrow> days_from cal start 42))"

definition week_days :: "calendar \<Rightarrow> date \<Rightarrow> date list option" where
  "week_days cal d =
     (let offset = num_days_from_monday (weekday_of d)
      in (case checked_days cal d (- int offset) of
            None \<Rightarrow> None
          | Some monday \<Rightarrow> days_from cal monday 7))"

section \<open>What the code relies on\<close>

text \<open>
  The zone, as \<open>chrono\<close> documents \<open>LocalResult\<close>: \<open>earliest\<close> and \<open>latest\<close> are the earlier and
  the later of the at most two instants that read as the wall clock, and none reads so when they
  are \<open>None\<close>.
\<close>

definition zone_ok :: "zone \<Rightarrow> bool" where
  "zone_ok z \<longleftrightarrow>
     (\<forall>n t. earliest z n = Some t \<longrightarrow> local_of z t = n) \<and>
     (\<forall>n t. latest z n = Some t \<longrightarrow> local_of z t = n) \<and>
     (\<forall>t. \<exists>e l. earliest z (local_of z t) = Some e \<and> latest z (local_of z t) = Some l \<and>
       e \<le> l \<and> (t = e \<or> t = l))"

text \<open>
  Paris shifts its clocks in the small hours: every day has a midnight, and the first one opens
  the day -- the instants from it on are those of that day and the later ones.
\<close>

definition midnights_open :: "zone \<Rightarrow> bool" where
  "midnights_open z \<longleftrightarrow>
     (\<forall>d. \<exists>u. earliest z (midnight d) = Some u \<and> (\<forall>t. u \<le> t \<longleftrightarrow> d \<le> naive_date (local_of z t)))"

lemma zone_earliest [tz_laws]: "zone_ok z \<Longrightarrow> earliest z n = Some t \<Longrightarrow> local_of z t = n"
  by (simp add: zone_ok_def)

lemma zone_latest [tz_laws]: "zone_ok z \<Longrightarrow> latest z n = Some t \<Longrightarrow> local_of z t = n"
  by (simp add: zone_ok_def)

lemma zone_names:
  assumes "zone_ok z"
  obtains e l where "earliest z (local_of z t) = Some e" "latest z (local_of z t) = Some l" "e \<le> t" "t \<le> l" "t = e \<or> t = l"
  using assms unfolding zone_ok_def by (metis order_refl)

lemma naive_date_ge: "d \<le> naive_date n \<longleftrightarrow> midnight d \<le> n"
proof -
  have "d \<le> n div DAY \<longleftrightarrow> d * DAY \<le> n" using zdiv_mono1 [of "d * DAY" n DAY]
    by (auto simp: DAY_def; linarith)
  then show ?thesis by (simp add: naive_date_def midnight_def)
qed

lemma naive_date_midnight [simp]: "naive_date (midnight d) = d"
  by (simp add: naive_date_def midnight_def DAY_def)

lemma naive_time_midnight [simp]: "naive_time (midnight d) = 0"
  by (simp add: naive_time_def midnight_def)

lemma naive_split: "n = midnight (naive_date n) + naive_time n"
  by (simp add: naive_date_def naive_time_def midnight_def)

text \<open>The day's opening, under the two laws.\<close>

lemma start_of_day:
  assumes z: "zone_ok z" and m: "midnights_open z"
  shows "local_of z (paris_start_of_day z d) = midnight d"
    and "paris_start_of_day z d \<le> t \<longleftrightarrow> d \<le> paris_date z t"
    and "paris_date z (paris_start_of_day z d) = d"
proof -
  obtain u where u: "earliest z (midnight d) = Some u" "\<And>t. u \<le> t \<longleftrightarrow> d \<le> naive_date (local_of z t)"
    using m unfolding midnights_open_def by blast
  have s: "paris_start_of_day z d = u" by (simp add: paris_start_of_day_def u(1) Let_def)
  show l: "local_of z (paris_start_of_day z d) = midnight d" using zone_earliest [OF z u(1)] s by simp
  show "paris_start_of_day z d \<le> t \<longleftrightarrow> d \<le> paris_date z t" by (simp add: s u(2) paris_date_def)
  show "paris_date z (paris_start_of_day z d) = d" by (simp add: paris_date_def l)
qed

lemma start_of_day_less_iff:
  assumes "zone_ok z" "midnights_open z"
  shows "paris_start_of_day z a < paris_start_of_day z b \<longleftrightarrow> a < b"
    and "paris_start_of_day z a = paris_start_of_day z b \<longleftrightarrow> a = b"
  using start_of_day(2) [OF assms, of b "paris_start_of_day z a"] start_of_day(3) [OF assms]
  by (auto simp: not_le [symmetric]) metis

section \<open>A zone with both changes of hour\<close>

text \<open>
  A concrete zone for the examples: one hour ahead of UTC, two hours ahead between the instants
  \<open>SPRING\<close> (01:00 UTC on day 100) and \<open>AUTUMN\<close> (01:00 UTC on day 300). The wall clock skips
  02:00--03:00 on day 100 and repeats 02:00--03:00 on day 300, as Paris does.
\<close>

definition SPRING :: instant where
  "SPRING = 100 * DAY + HOUR"

definition AUTUMN :: instant where
  "AUTUMN = 300 * DAY + HOUR"

definition demo_local :: "instant \<Rightarrow> naive" where
  "demo_local t = (if SPRING \<le> t \<and> t < AUTUMN then t + 2 * HOUR else t + HOUR)"

definition demo_candidates :: "naive \<Rightarrow> instant list" where
  "demo_candidates n = filter (\<lambda>t. demo_local t = n) [n - 2 * HOUR, n - HOUR]"

definition demo_zone :: zone where
  "demo_zone = \<lparr>local_of = demo_local,
     earliest = (\<lambda>n. case demo_candidates n of [] \<Rightarrow> None | t # _ \<Rightarrow> Some t),
     latest = (\<lambda>n. case rev (demo_candidates n) of [] \<Rightarrow> None | t # _ \<Rightarrow> Some t)\<rparr>"

lemmas demo_defs = demo_zone_def demo_candidates_def demo_local_def SPRING_def AUTUMN_def HOUR_def DAY_def
  naive_date_def naive_time_def midnight_def

lemma demo_zone_ok: "zone_ok demo_zone"
proof -
  have "\<exists>e l. earliest demo_zone (local_of demo_zone t) = Some e \<and>
      latest demo_zone (local_of demo_zone t) = Some l \<and> e \<le> l \<and> (t = e \<or> t = l)" for t
    by (simp add: demo_defs)
  moreover have "earliest demo_zone n = Some t \<Longrightarrow> local_of demo_zone t = n" for n t
    by (auto simp: demo_zone_def demo_candidates_def split: if_splits)
  moreover have "latest demo_zone n = Some t \<Longrightarrow> local_of demo_zone t = n" for n t
    by (auto simp: demo_zone_def demo_candidates_def split: if_splits)
  ultimately show ?thesis by (simp add: zone_ok_def)
qed

lemma demo_midnight:
  "earliest demo_zone (midnight d) =
     Some (if 100 < d \<and> d \<le> 300 then midnight d - 2 * HOUR else midnight d - HOUR)"
  by (auto simp: demo_defs)

lemma demo_midnights_open: "midnights_open demo_zone"
proof -
  have "(if 100 < d \<and> d \<le> 300 then midnight d - 2 * HOUR else midnight d - HOUR) \<le> t \<longleftrightarrow>
      d \<le> naive_date (local_of demo_zone t)" for d t :: int
    by (auto simp: naive_date_ge demo_zone_def demo_local_def SPRING_def AUTUMN_def HOUR_def DAY_def midnight_def)
  then show ?thesis by (auto simp: midnights_open_def demo_midnight)
qed

section \<open>All-day events\<close>

lemma succ_opt_in_range:
  "min_date cal \<le> d \<Longrightarrow> d < max_date cal \<Longrightarrow> succ_opt cal d = Some (d + 1)"
  by (simp add: succ_opt_def checked_days_def)

definition exclusive_end :: "date \<Rightarrow> naive \<Rightarrow> date" where
  "exclusive_end start_day n =
     max (start_day + 1)
       (if naive_time n = 0 \<and> start_day < naive_date n then naive_date n else naive_date n + 1)"

lemma normalize_all_day_eq:
  assumes "min_date cal \<le> paris_date z s" "paris_date z s < max_date cal"
    and "min_date cal \<le> paris_date z e" "paris_date z e < max_date cal"
  shows "normalize_all_day cal z s e =
     (paris_start_of_day z (paris_date z s),
      paris_start_of_day z (exclusive_end (paris_date z s) (local_of z e)))"
  using assms
  by (auto simp: normalize_all_day_def exclusive_end_def succ_opt_in_range paris_date_def Let_def max_def)

text \<open>
  C7. An all-day event is stored as whole Paris days. \<open>normalize_all_day\<close> puts the start on the
  opening of the day the event starts on and the end on the opening of a later day; the stored
  span covers the one asked for, and no shorter run of whole days from that day does; and
  normalising what is stored changes nothing, so an edit that touches neither instant does not
  grow the event. (The end is covered when its own midnight is not repeated: on the two nights it
  was, an end on the second pass is read as the first.)
\<close>

theorem all_day_is_whole_days:
  assumes z: "zone_ok z" and m: "midnights_open z"
    and rs: "min_date cal \<le> paris_date z s" "paris_date z s < max_date cal"
    and re: "min_date cal \<le> paris_date z e" "paris_date z e < max_date cal"
    and ne: "normalize_all_day cal z s e = (s', e')"
  shows "\<exists>d > paris_date z s. s' = paris_start_of_day z (paris_date z s) \<and> e' = paris_start_of_day z d
    \<and> s' \<le> s
    \<and> (latest z (midnight (paris_date z e)) = earliest z (midnight (paris_date z e)) \<longrightarrow> e \<le> e')
    \<and> (\<forall>d' > paris_date z s. e \<le> paris_start_of_day z d' \<longrightarrow> d \<le> d')
    \<and> normalize_all_day cal z s' e' = (s', e')"
proof -
  let ?ds = "paris_date z s" and ?de = "paris_date z e"
  define d where "d = exclusive_end ?ds (local_of z e)"
  note day = start_of_day [OF z m]
  have s': "s' = paris_start_of_day z ?ds" and e': "e' = paris_start_of_day z d"
    using ne by (simp_all add: normalize_all_day_eq [OF rs re] d_def)
  have later: "?ds < d" by (simp add: d_def exclusive_end_def)
  have open_e: "e = paris_start_of_day z ?de \<Longrightarrow> naive_time (local_of z e) = 0"
    using day(1) [of ?de] by simp
  have "s' \<le> s" by (simp add: s' day(2))
  moreover have "e \<le> e'" if u: "latest z (midnight ?de) = earliest z (midnight ?de)"
  proof (cases "d \<le> ?de")
    case True
    then have "naive_time (local_of z e) = 0" and d: "d = ?de"
      by (auto simp: d_def exclusive_end_def paris_date_def split: if_splits)
    then have l: "local_of z e = midnight ?de"
      using naive_split [of "local_of z e"] by (simp add: paris_date_def)
    obtain a b where "earliest z (local_of z e) = Some a" "latest z (local_of z e) = Some b" "a \<le> e" "e \<le> b"
      using zone_names [OF z, of e] by blast
    then show ?thesis using u by (simp add: e' d paris_start_of_day_def l Let_def)
  next
    case False
    then show ?thesis using day(2) [of d e] by (simp add: e')
  qed
  moreover have "d \<le> d'" if "?ds < d'" and le: "e \<le> paris_start_of_day z d'" for d'
  proof -
    have de: "?de \<le> d'"
      using day(2) [of ?de e] day(2) [of ?de "paris_start_of_day z d'"] day(3) [of d'] le by simp
    have "?de \<noteq> d' \<or> naive_time (local_of z e) = 0"
      using day(2) [of ?de e] le open_e by (metis order_antisym order_refl)
    with that(1) de show ?thesis
      by (auto simp: d_def exclusive_end_def paris_date_def)
  qed
  moreover have "normalize_all_day cal z s' e' = (s', e')"
  proof -
    have "d \<le> ?ds + 1 \<or> d \<le> ?de + 1" by (auto simp: d_def exclusive_end_def paris_date_def)
    then show ?thesis
      using rs re later
      by (auto simp: normalize_all_day_def s' e' day(1) Let_def succ_opt_def checked_days_def)
  qed
  ultimately show ?thesis using later s' e' by blast
qed

definition wide_calendar :: calendar where
  "wide_calendar = \<lparr>from_ymd = (\<lambda>y m d. if y = 1 \<and> m = 1 \<and> 1 \<le> d \<and> d \<le> 31 then Some (int d - 1) else None),
     min_date = - 100000, max_date = 100000, show_ymd = (\<lambda>_. ''00010101''), read_ymd = (\<lambda>_. Some 0),
     show_stamp = (\<lambda>_. ''00010101T000000Z''), year_of = (\<lambda>_. 1)\<rparr>"

text \<open>From 10:00 to 11:00 UTC on the day the hour is repeated: one civil day of 25 hours.\<close>

lemma all_day_is_whole_days_witness:
  "\<exists>d > 300. 300 * DAY - 2 * HOUR = paris_start_of_day demo_zone 300 \<and>
     301 * DAY - HOUR = paris_start_of_day demo_zone d \<and> 300 * DAY + 10 * HOUR \<le> 301 * DAY - HOUR \<and>
     normalize_all_day wide_calendar demo_zone (300 * DAY - 2 * HOUR) (301 * DAY - HOUR)
       = (300 * DAY - 2 * HOUR, 301 * DAY - HOUR)"
proof -
  have ds: "paris_date demo_zone (300 * DAY + 10 * HOUR) = 300"
    and de: "paris_date demo_zone (300 * DAY + 11 * HOUR) = 300"
    by (simp_all add: paris_date_def demo_defs)
  have r: "min_date wide_calendar \<le> 300" "(300 :: int) < max_date wide_calendar"
    by (simp_all add: wide_calendar_def)
  have n: "normalize_all_day wide_calendar demo_zone (300 * DAY + 10 * HOUR) (300 * DAY + 11 * HOUR) =
      (300 * DAY - 2 * HOUR, 301 * DAY - HOUR)"
    by (simp add: normalize_all_day_def paris_start_of_day_def succ_opt_def checked_days_def wide_calendar_def demo_defs)
  have u: "latest demo_zone (midnight 300) = earliest demo_zone (midnight 300)"
    by (simp add: demo_defs)
  show ?thesis
    using all_day_is_whole_days [OF demo_zone_ok demo_midnights_open, where cal = wide_calendar
        and s = "300 * DAY + 10 * HOUR" and e = "300 * DAY + 11 * HOUR"] ds de r n u
    by (fastforce simp: DAY_def HOUR_def)
qed

section \<open>The grids\<close>

lemma all_some_map: "all_some (map (\<lambda>i. if P i then Some (f i) else None) xs) =
    (if \<forall>i \<in> set xs. P i then Some (map f xs) else None)"
  by (induction xs) auto

lemma days_from_eq:
  "days_from cal start n =
     (if n = 0 \<or> (min_date cal \<le> start \<and> start + int n - 1 \<le> max_date cal)
      then Some (map (\<lambda>i. start + int i) [0..<n]) else None)"
proof -
  have "(\<forall>i \<in> set [0..<n]. min_date cal \<le> start + int i \<and> start + int i \<le> max_date cal) \<longleftrightarrow>
      n = 0 \<or> (min_date cal \<le> start \<and> start + int n - 1 \<le> max_date cal)"
  proof (cases n)
    case (Suc k)
    have "(\<forall>i \<in> set [0..<n]. min_date cal \<le> start + int i \<and> start + int i \<le> max_date cal) \<Longrightarrow>
        min_date cal \<le> start + int 0 \<and> start + int k \<le> max_date cal"
      using Suc by (metis atLeastLessThan_upt lessThan_atLeast0 lessThan_iff less_Suc_eq zero_less_Suc)
    then show ?thesis using Suc by auto
  qed simp
  then show ?thesis by (simp add: days_from_def checked_days_def all_some_map)
qed

lemma monday_index: "n < 7 \<Longrightarrow> num_days_from_monday (WEEKDAYS ! n) = n"
proof -
  assume "n < 7"
  moreover have "\<forall>n \<in> set [0..<7]. num_days_from_monday (WEEKDAYS ! n) = n" by code_simp
  ultimately show ?thesis by simp
qed

lemma monday_offset: "int (num_days_from_monday (weekday_of d)) = d mod 7"
  by (simp add: weekday_of_def monday_index nat_less_iff)

lemma weekday_add: "weekday_of (start + int i) = WEEKDAYS ! (i mod 7)" if "start mod 7 = 0"
proof -
  have "(start + int i) mod 7 = int (i mod 7)"
    using that mod_add_left_eq [of start 7 "int i"] by (simp add: of_nat_mod)
  then show ?thesis by (simp add: weekday_of_def)
qed

lemma week_cycle:
  "start mod 7 = 0 \<Longrightarrow> map weekday_of (map (\<lambda>i. start + int i) [0..<n]) = map (\<lambda>i. WEEKDAYS ! (i mod 7)) [0..<n]"
  by (simp add: weekday_add)

lemma six_weeks: "map (\<lambda>i. WEEKDAYS ! (i mod 7)) [0..<42] = concat (replicate 6 WEEKDAYS)"
  by code_simp

lemma one_week: "map (\<lambda>i. WEEKDAYS ! (i mod 7)) [0..<7] = WEEKDAYS"
  by code_simp

text \<open>
  The month grid is forty-two consecutive dates in six weeks that run Monday to Sunday, and
  it holds every day of its month; the week of a date is the seven consecutive dates Monday to
  Sunday that hold it. A month outside 1--12 has an empty grid.
\<close>

theorem grid_covers_month:
  assumes first: "from_ymd cal year month 1 = Some first"
    and range: "min_date cal + 6 \<le> first" "first + 41 \<le> max_date cal"
    and date: "min_date cal + 6 \<le> d" "d + 6 \<le> max_date cal"
  shows "\<exists>start. month_grid cal year month = Some (map (\<lambda>i. start + int i) [0..<42])
    \<and> map weekday_of (map (\<lambda>i. start + int i) [0..<42]) = concat (replicate 6 WEEKDAYS)
    \<and> start \<le> first \<and> first \<le> start + 6
    \<and> (\<forall>k < 31. first + int k \<in> set (map (\<lambda>i. start + int i) [0..<42]))
    \<and> (\<exists>monday. week_days cal d = Some (map (\<lambda>i. monday + int i) [0..<7]) \<and>
         map weekday_of (map (\<lambda>i. monday + int i) [0..<7]) = WEEKDAYS \<and> monday \<le> d \<and> d \<le> monday + 6)
    \<and> (\<forall>m. from_ymd cal year m 1 = None \<longrightarrow> month_grid cal year m = Some [])"
proof -
  define start where "start = first - first mod 7"
  have s: "first - 6 \<le> start" "start \<le> first" "start mod 7 = 0"
    by (simp_all add: start_def)
  have grid: "month_grid cal year month = Some (map (\<lambda>i. start + int i) [0..<42])"
    using range s unfolding month_grid_def first option.case
    by (simp add: checked_days_def monday_offset days_from_eq Let_def start_def)
  define monday where "monday = d - d mod 7"
  have mon: "d - 6 \<le> monday" "monday \<le> d" "monday mod 7 = 0"
    by (simp_all add: monday_def)
  have week: "week_days cal d = Some (map (\<lambda>i. monday + int i) [0..<7])"
    using date mon by (simp add: week_days_def checked_days_def monday_offset days_from_eq Let_def monday_def)
  have week_names: "map weekday_of (map (\<lambda>i. monday + int i) [0..<7]) = WEEKDAYS"
    by (simp only: week_cycle [OF mon(3)] one_week)
  have days: "map weekday_of (map (\<lambda>i. start + int i) [0..<42]) = concat (replicate 6 WEEKDAYS)"
    by (simp only: week_cycle [OF s(3)] six_weeks)
  have "first + int k \<in> set (map (\<lambda>i. start + int i) [0..<42])" if "k < 31" for k
  proof -
    have "nat (first + int k - start) < 42" "first + int k = start + int (nat (first + int k - start))"
      using that s by auto
    then show ?thesis by force
  qed
  moreover have "\<forall>m. from_ymd cal year m 1 = None \<longrightarrow> month_grid cal year m = Some []"
    by (simp add: month_grid_def)
  moreover have "first \<le> start + 6" "d \<le> monday + 6" using s(1) mon(1) by simp_all
  ultimately show ?thesis using grid week week_names days s(2) mon(2) by blast
qed

lemma grid_covers_month_witness:
  "\<exists>start. month_grid wide_calendar 1 1 = Some (map (\<lambda>i. start + int i) [0..<42]) \<and> start \<le> 0 \<and> 0 \<le> start + 6"
proof -
  have "from_ymd wide_calendar 1 1 1 = Some 0" "min_date wide_calendar + 6 \<le> 0" "0 + 41 \<le> max_date wide_calendar"
    by (simp_all add: wide_calendar_def)
  moreover have "min_date wide_calendar + 6 \<le> 0" "0 + 6 \<le> max_date wide_calendar"
    by (simp_all add: wide_calendar_def)
  ultimately show ?thesis using grid_covers_month [of wide_calendar 1 1 0 0] by blast
qed

end
