(* ===== verification/Agenda_Form.thy ===== *)
theory Agenda_Form
  imports Paris
begin

text \<open>
  The agenda forms of \<open>apps/shared/src/validation/agenda.rs\<close>: the builder and the parser of the
  recurrence rules the picker offers, the event and attachment pre-checks, and the wording of a
  reminder's offset.
\<close>

section \<open>Recurrences\<close>

datatype freq = Daily | Weekly | Monthly | Yearly

datatype recurrence_end = Never | Count nat | Until date

record recurrence =
  freq :: freq
  interval :: nat
  byday :: "weekday list"
  rec_end :: recurrence_end

fun weekday_token :: "weekday \<Rightarrow> string" where
  "weekday_token Mon = ''MO''"
| "weekday_token Tue = ''TU''"
| "weekday_token Wed = ''WE''"
| "weekday_token Thu = ''TH''"
| "weekday_token Fri = ''FR''"
| "weekday_token Sat = ''SA''"
| "weekday_token Sun = ''SU''"

definition weekday_from_token :: "string \<Rightarrow> weekday option" where
  "weekday_from_token tok =
     (if tok = ''MO'' then Some Mon else if tok = ''TU'' then Some Tue
      else if tok = ''WE'' then Some Wed else if tok = ''TH'' then Some Thu
      else if tok = ''FR'' then Some Fri else if tok = ''SA'' then Some Sat
      else if tok = ''SU'' then Some Sun else None)"

fun freq_token :: "freq \<Rightarrow> string" where
  "freq_token Daily = ''DAILY''"
| "freq_token Weekly = ''WEEKLY''"
| "freq_token Monthly = ''MONTHLY''"
| "freq_token Yearly = ''YEARLY''"

text \<open>\<open>WEEKDAYS.iter().position(|x| x == w).unwrap()\<close>: every weekday is listed.\<close>

definition weekday_position :: "weekday \<Rightarrow> nat" where
  "weekday_position w = length (takeWhile (\<lambda>x. x \<noteq> w) WEEKDAYS)"

definition sorted_days :: "weekday list \<Rightarrow> weekday list" where
  "sorted_days ws = remdups_adj (sort_key weekday_position ws)"

definition rrule_pieces :: "calendar \<Rightarrow> recurrence \<Rightarrow> string list" where
  "rrule_pieces cal r =
     [''FREQ='' @ freq_token (freq r)]
     @ (if 1 < interval r then [''INTERVAL='' @ show_nat (interval r)] else [])
     @ (if freq r = Weekly \<and> byday r \<noteq> []
        then [''BYDAY='' @ join_with '','' (map weekday_token (sorted_days (byday r)))] else [])
     @ (case rec_end r of
          Never \<Rightarrow> []
        | Count n \<Rightarrow> [''COUNT='' @ show_nat n]
        | Until d \<Rightarrow> [''UNTIL='' @ show_ymd cal d @ ''T235959Z''])"

definition build_rrule :: "calendar \<Rightarrow> recurrence \<Rightarrow> string" where
  "build_rrule cal r = join_with '';'' (rrule_pieces cal r)"

text \<open>\<open>value.get(0..8)\<close>: \<open>None\<close> past the end or inside a multi-byte character.\<close>

definition is_continuation :: "char \<Rightarrow> bool" where
  "is_continuation c \<longleftrightarrow> (let n = of_char c :: nat in 128 \<le> n \<and> n < 192)"

definition get_prefix :: "nat \<Rightarrow> string \<Rightarrow> string option" where
  "get_prefix n s =
     (if length s < n then None
      else (case drop n s of
              c # _ \<Rightarrow> if is_continuation c then None else Some (take n s)
            | [] \<Rightarrow> Some (take n s)))"

text \<open>The variables of \<open>parse_rrule\<close>'s loop.\<close>

record rrule_vars =
  v_freq :: "freq option"
  v_interval :: nat
  v_byday :: "weekday list"
  v_count :: "nat option"
  v_until :: "date option"

definition parse_freq :: "string \<Rightarrow> freq option" where
  "parse_freq v =
     (if v = ''DAILY'' then Some Daily else if v = ''WEEKLY'' then Some Weekly
      else if v = ''MONTHLY'' then Some Monthly else if v = ''YEARLY'' then Some Yearly else None)"

fun parse_weekdays :: "string list \<Rightarrow> weekday list option" where
  "parse_weekdays [] = Some []"
| "parse_weekdays (tok # toks) =
     (case weekday_from_token (to_ascii_uppercase tok) of
        None \<Rightarrow> None
      | Some w \<Rightarrow> map_option (\<lambda>ws. w # ws) (parse_weekdays toks))"

definition parse_pair :: "calendar \<Rightarrow> string \<Rightarrow> rrule_vars \<Rightarrow> rrule_vars option" where
  "parse_pair cal pair v =
     (case split_once (CHR ''='') pair of
        None \<Rightarrow> None
      | Some (key, val) \<Rightarrow>
          let key = to_ascii_uppercase key in
          if key = ''FREQ'' then
            (case parse_freq (to_ascii_uppercase val) of
               None \<Rightarrow> None
             | Some f \<Rightarrow> Some (v\<lparr>v_freq := Some f\<rparr>))
          else if key = ''INTERVAL'' then
            (case parse_u32 val of
               None \<Rightarrow> None
             | Some n \<Rightarrow> if n < 1 then None else Some (v\<lparr>v_interval := n\<rparr>))
          else if key = ''BYDAY'' then
            (case parse_weekdays (split_on (CHR '','') val) of
               None \<Rightarrow> None
             | Some ws \<Rightarrow> Some (v\<lparr>v_byday := v_byday v @ ws\<rparr>))
          else if key = ''COUNT'' then
            (case parse_u32 val of
               None \<Rightarrow> None
             | Some n \<Rightarrow> Some (v\<lparr>v_count := Some n\<rparr>))
          else if key = ''UNTIL'' then
            (case get_prefix 8 val of
               None \<Rightarrow> None
             | Some date_part \<Rightarrow>
                 (case read_ymd cal date_part of
                    None \<Rightarrow> None
                  | Some d \<Rightarrow> Some (v\<lparr>v_until := Some d\<rparr>)))
          else None)"

fun parse_pairs :: "calendar \<Rightarrow> string list \<Rightarrow> rrule_vars \<Rightarrow> rrule_vars option" where
  "parse_pairs cal [] v = Some v"
| "parse_pairs cal (p # ps) v =
     (case parse_pair cal p v of None \<Rightarrow> None | Some v' \<Rightarrow> parse_pairs cal ps v')"

definition rrule_end :: "nat option \<Rightarrow> date option \<Rightarrow> recurrence_end option" where
  "rrule_end count until =
     (case (count, until) of
        (Some _, Some _) \<Rightarrow> None
      | (Some n, None) \<Rightarrow> Some (Count n)
      | (None, Some d) \<Rightarrow> Some (Until d)
      | (None, None) \<Rightarrow> Some Never)"

definition parse_rrule :: "calendar \<Rightarrow> string \<Rightarrow> recurrence option" where
  "parse_rrule cal rrule =
     (case parse_pairs cal (filter (\<lambda>s. s \<noteq> []) (split_on (CHR '';'') rrule))
             \<lparr>v_freq = None, v_interval = 1, v_byday = [], v_count = None, v_until = None\<rparr> of
        None \<Rightarrow> None
      | Some v \<Rightarrow>
          (case v_freq v of
             None \<Rightarrow> None
           | Some f \<Rightarrow>
               if v_byday v \<noteq> [] \<and> f \<noteq> Weekly then None
               else map_option
                 (\<lambda>e. \<lparr>freq = f, interval = v_interval v, byday = v_byday v, rec_end = e\<rparr>)
                 (rrule_end (v_count v) (v_until v))))"

section \<open>The round trip\<close>

text \<open>
  What a rule says, written the canonical way: the interval at least one, the weekdays of a
  weekly rule once each and Monday first, no weekday elsewhere.
\<close>

definition canonical :: "recurrence \<Rightarrow> recurrence" where
  "canonical r = r\<lparr>interval := max 1 (interval r),
                   byday := (if freq r = Weekly then sorted_days (byday r) else [])\<rparr>"

text \<open>
  \<open>%Y%m%d\<close> writes a date of the years 0 to 9999 as eight digits that \<open>parse_from_str\<close> reads
  back.
\<close>

definition ymd_digits :: "calendar \<Rightarrow> date \<Rightarrow> bool" where
  "ymd_digits cal d \<longleftrightarrow>
     length (show_ymd cal d) = 8 \<and> list_all is_digit (show_ymd cal d) \<and> read_ymd cal (show_ymd cal d) = Some d"

fun end_fits :: "calendar \<Rightarrow> recurrence_end \<Rightarrow> bool" where
  "end_fits cal Never = True"
| "end_fits cal (Count n) = (n < 2 ^ 32)"
| "end_fits cal (Until d) = ymd_digits cal d"

definition rrule_fits :: "calendar \<Rightarrow> recurrence \<Rightarrow> bool" where
  "rrule_fits cal r \<longleftrightarrow> interval r < 2 ^ 32 \<and> end_fits cal (rec_end r)"

lemma upper_tokens [simp]:
  "map ascii_upper (freq_token f) = freq_token f"
  "map ascii_upper (weekday_token w) = weekday_token w"
  by (cases f; simp add: ascii_upper_def Let_def) (cases w; simp add: ascii_upper_def Let_def)

lemma parse_freq_token [simp]: "parse_freq (freq_token f) = Some f"
  by (cases f) (simp_all add: parse_freq_def)

lemma weekday_from_token_token [simp]: "weekday_from_token (weekday_token w) = Some w"
  by (cases w) (simp_all add: weekday_from_token_def)

lemma parse_weekday_tokens: "parse_weekdays (map weekday_token ws) = Some ws"
  by (induction ws) auto

lemma digits_plain:
  "list_all is_digit s \<Longrightarrow> CHR '';'' \<notin> set s"
  "list_all is_digit s \<Longrightarrow> CHR '','' \<notin> set s"
  by (auto simp: list_all_iff is_digit_def)

lemma token_plain:
  "CHR '';'' \<notin> set (weekday_token w)" "CHR '','' \<notin> set (weekday_token w)" "CHR '';'' \<notin> set (freq_token f)"
  by (cases w; simp)+ (cases f; simp)

lemma join_plain: "c \<notin> set sep \<Longrightarrow> \<forall>p \<in> set ps. c \<notin> set p \<Longrightarrow> c \<notin> set (join_with sep ps)"
  by (induction sep ps rule: join_with.induct) auto

lemma split_days: "ws \<noteq> [] \<Longrightarrow> split_on (CHR '','') (join_with '','' (map weekday_token ws)) = map weekday_token ws"
  by (rule split_join) (auto simp: token_plain)

lemma rrule_pieces_plain:
  assumes "rrule_fits cal r" and "p \<in> set (rrule_pieces cal r)"
  shows "p \<noteq> []" "CHR '';'' \<notin> set p"
  using assms
  by (auto simp: rrule_pieces_def rrule_fits_def ymd_digits_def token_plain join_plain
      intro: digits_plain(1) dest!: digits_plain(1)
      simp: digits_plain(1) [OF show_nat_digits] split: if_splits recurrence_end.splits)

lemma parse_until:
  assumes "ymd_digits cal d"
  shows "parse_pair cal (''UNTIL='' @ show_ymd cal d @ ''T235959Z'') v = Some (v\<lparr>v_until := Some d\<rparr>)"
proof -
  have "get_prefix 8 (show_ymd cal d @ ''T235959Z'') = Some (show_ymd cal d)"
    using assms by (simp add: get_prefix_def ymd_digits_def is_continuation_def Let_def)
  then show ?thesis using assms by (simp add: parse_pair_def ascii_upper_def Let_def ymd_digits_def)
qed

lemma parse_number:
  assumes "n < 2 ^ 32"
  shows "parse_pair cal (''COUNT='' @ show_nat n) v = Some (v\<lparr>v_count := Some n\<rparr>)"
    and "0 < n \<Longrightarrow> parse_pair cal (''INTERVAL='' @ show_nat n) v = Some (v\<lparr>v_interval := n\<rparr>)"
  using assms parse_show [of n "2 ^ 32"] by (simp_all add: parse_pair_def ascii_upper_def Let_def)

lemma parse_freq_pair:
  "parse_pair cal (''FREQ='' @ freq_token f) v = Some (v\<lparr>v_freq := Some f\<rparr>)"
  by (simp add: parse_pair_def ascii_upper_def Let_def)

lemma parse_days:
  assumes "ws \<noteq> []"
  shows "parse_pair cal (''BYDAY='' @ join_with '','' (map weekday_token ws)) v = Some (v\<lparr>v_byday := v_byday v @ ws\<rparr>)"
  using assms by (simp add: parse_pair_def ascii_upper_def Let_def split_days parse_weekday_tokens)

lemma sorted_days_empty [simp]: "sorted_days ws = [] \<longleftrightarrow> ws = []"
proof -
  have "set (sorted_days ws) = set ws" by (simp add: sorted_days_def)
  then show ?thesis by (metis set_empty)
qed

lemma parse_pairs_append:
  "parse_pairs cal (ps @ qs) v = (case parse_pairs cal ps v of None \<Rightarrow> None | Some v' \<Rightarrow> parse_pairs cal qs v')"
  by (induction ps arbitrary: v) (auto split: option.split)

lemma parse_pieces:
  assumes "rrule_fits cal r"
  shows "parse_pairs cal (rrule_pieces cal r)
      \<lparr>v_freq = None, v_interval = 1, v_byday = [], v_count = None, v_until = None\<rparr> =
    Some \<lparr>v_freq = Some (freq r), v_interval = max 1 (interval r),
      v_byday = (if freq r = Weekly then sorted_days (byday r) else []),
      v_count = (case rec_end r of Count n \<Rightarrow> Some n | _ \<Rightarrow> None),
      v_until = (case rec_end r of Until d \<Rightarrow> Some d | _ \<Rightarrow> None)\<rparr>"
proof -
  have f: "parse_pairs cal [''FREQ='' @ freq_token (freq r)] v = Some (v\<lparr>v_freq := Some (freq r)\<rparr>)" for v
    by (simp only: parse_pairs.simps parse_freq_pair option.case)
  have i: "parse_pairs cal (if 1 < interval r then [''INTERVAL='' @ show_nat (interval r)] else []) v =
      Some (v\<lparr>v_interval := if 1 < interval r then interval r else v_interval v\<rparr>)" for v
    using assms parse_number(2) [of "interval r" cal v] by (simp add: rrule_fits_def)
  have b: "parse_pairs cal (if freq r = Weekly \<and> byday r \<noteq> []
        then [''BYDAY='' @ join_with '','' (map weekday_token (sorted_days (byday r)))] else []) v =
      Some (v\<lparr>v_byday := v_byday v @ (if freq r = Weekly then sorted_days (byday r) else [])\<rparr>)" for v
    using parse_days [of "sorted_days (byday r)" cal v] by (cases "byday r = []") auto
  have e: "parse_pairs cal (case rec_end r of Never \<Rightarrow> [] | Count n \<Rightarrow> [''COUNT='' @ show_nat n]
        | Until d \<Rightarrow> [''UNTIL='' @ show_ymd cal d @ ''T235959Z'']) v =
      Some (v\<lparr>v_count := (case rec_end r of Count n \<Rightarrow> Some n | _ \<Rightarrow> v_count v),
              v_until := (case rec_end r of Until d \<Rightarrow> Some d | _ \<Rightarrow> v_until v)\<rparr>)" for v
    using assms parse_number(1) parse_until by (cases "rec_end r") (simp_all add: rrule_fits_def)
  show ?thesis
    unfolding rrule_pieces_def parse_pairs_append f i b e option.case
    by (auto simp: max_def split: recurrence_end.split)
qed

lemma parse_built:
  assumes "rrule_fits cal r"
  shows "parse_rrule cal (build_rrule cal r) = Some (canonical r)"
proof -
  have "split_on (CHR '';'') (build_rrule cal r) = rrule_pieces cal r"
    unfolding build_rrule_def
    using rrule_pieces_plain [OF assms] by (intro split_join) (auto simp: rrule_pieces_def)
  moreover have "filter (\<lambda>s. s \<noteq> []) (rrule_pieces cal r) = rrule_pieces cal r"
    using rrule_pieces_plain(1) [OF assms] by (simp add: filter_id_conv)
  ultimately show ?thesis
    using parse_pieces [OF assms]
    by (cases "rec_end r") (auto simp: parse_rrule_def rrule_end_def canonical_def)
qed

lemma sorted_days_order: "sorted (map weekday_position (sorted_days ws))"
proof -
  have "sorted (map f xs) \<Longrightarrow> sorted (map f (remdups_adj xs))" for f :: "weekday \<Rightarrow> nat" and xs
    by (induction xs rule: remdups_adj.induct) auto
  then show ?thesis by (simp add: sorted_days_def)
qed

lemma inj_weekday_position: "weekday_position v = weekday_position w \<longleftrightarrow> v = w"
  by (cases v; cases w) (simp_all add: weekday_position_def WEEKDAYS_def)

lemma sorted_days_distinct: "distinct (sorted_days ws)"
proof -
  have "sorted (map weekday_position xs) \<Longrightarrow> distinct (remdups_adj xs)" for xs
  proof (induction xs rule: remdups_adj.induct)
    case (3 x y xs)
    then show ?case by (auto simp: inj_weekday_position [symmetric])
  qed auto
  then show ?thesis by (simp add: sorted_days_def)
qed

lemma sorted_days_idem: "sorted_days (sorted_days ws) = sorted_days ws"
  using sorted_days_order [of ws] sorted_days_distinct [of ws]
  by (simp add: sorted_days_def [of "sorted_days ws"] sort_key_id_if_sorted remdups_adj_distinct)

lemma canonical_idem: "canonical (canonical r) = canonical r"
  by (simp add: canonical_def sorted_days_idem)

lemma build_canonical: "build_rrule cal (canonical r) = build_rrule cal r"
  by (auto simp: build_rrule_def rrule_pieces_def canonical_def sorted_days_idem)

text \<open>
  C8. Building a rule and parsing it gives the rule back in its canonical form (weekdays once
  each, Monday first), whatever the rule; the canonical form builds the same text, so the
  picker's text is stable under any number of round trips.
\<close>

theorem rrule_round_trip:
  assumes "rrule_fits cal r"
  shows "parse_rrule cal (build_rrule cal r) = Some (canonical r)
    \<and> build_rrule cal (canonical r) = build_rrule cal r
    \<and> distinct (byday (canonical r)) \<and> sorted (map weekday_position (byday (canonical r)))"
  using assms by (simp add: parse_built build_canonical) (simp add: canonical_def sorted_days_distinct sorted_days_order)

lemma rrule_round_trip_witness:
  "parse_rrule wide_calendar (build_rrule wide_calendar
       \<lparr>freq = Weekly, interval = 2, byday = [Fri, Mon, Mon], rec_end = Until 0\<rparr>) =
     Some \<lparr>freq = Weekly, interval = 2, byday = [Mon, Fri], rec_end = Until 0\<rparr>
   \<and> build_rrule wide_calendar \<lparr>freq = Weekly, interval = 2, byday = [Fri, Mon, Mon], rec_end = Until 0\<rparr> =
     ''FREQ=WEEKLY;INTERVAL=2;BYDAY=MO,FR;UNTIL=00010101T235959Z''"
proof -
  have c: "canonical \<lparr>freq = Weekly, interval = 2, byday = [Fri, Mon, Mon], rec_end = Until 0\<rparr> =
      \<lparr>freq = Weekly, interval = 2, byday = [Mon, Fri], rec_end = Until 0\<rparr>"
    by (simp add: canonical_def sorted_days_def weekday_position_def WEEKDAYS_def)
  have "rrule_fits wide_calendar \<lparr>freq = Weekly, interval = 2, byday = [Fri, Mon, Mon], rec_end = Until 0\<rparr>"
    by (simp add: rrule_fits_def ymd_digits_def wide_calendar_def is_digit_def)
  moreover have "build_rrule wide_calendar \<lparr>freq = Weekly, interval = 2, byday = [Fri, Mon, Mon], rec_end = Until 0\<rparr> =
      ''FREQ=WEEKLY;INTERVAL=2;BYDAY=MO,FR;UNTIL=00010101T235959Z''"
    by code_simp
  ultimately show ?thesis
    using rrule_round_trip [of wide_calendar "\<lparr>freq = Weekly, interval = 2, byday = [Fri, Mon, Mon], rec_end = Until 0\<rparr>"]
    by (simp only: c simp_thms)
qed

section \<open>What the parser accepts\<close>

text \<open>
  The rules of the subset, stated part by part and apart from the parser: a part is
  \<open>KEY=VALUE\<close>, the key in any case.
\<close>

definition rule_parts :: "string \<Rightarrow> string list" where
  "rule_parts s = filter (\<lambda>p. p \<noteq> []) (split_on (CHR '';'') s)"

definition part_value :: "string \<Rightarrow> string \<Rightarrow> string option" where
  "part_value k p =
     (case split_once (CHR ''='') p of
        None \<Rightarrow> None
      | Some (key, x) \<Rightarrow> if to_ascii_uppercase key = k then Some x else None)"

definition values_of :: "string \<Rightarrow> string list \<Rightarrow> string list" where
  "values_of k ps = List.map_filter (part_value k) ps"

definition last_value :: "string \<Rightarrow> string list \<Rightarrow> string option" where
  "last_value k ps = (if values_of k ps = [] then None else Some (last (values_of k ps)))"

definition freq_named :: "string \<Rightarrow> freq \<Rightarrow> bool" where
  "freq_named x f \<longleftrightarrow> (to_ascii_uppercase x, f) \<in>
     {(''DAILY'', Daily), (''WEEKLY'', Weekly), (''MONTHLY'', Monthly), (''YEARLY'', Yearly)}"

definition day_named :: "string \<Rightarrow> weekday \<Rightarrow> bool" where
  "day_named x w \<longleftrightarrow> (to_ascii_uppercase x, w) \<in>
     {(''MO'', Mon), (''TU'', Tue), (''WE'', Wed), (''TH'', Thu), (''FR'', Fri), (''SA'', Sat), (''SU'', Sun)}"

text \<open>The date of an \<open>UNTIL\<close>: its first eight characters, whatever follows them.\<close>

definition until_date :: "calendar \<Rightarrow> string \<Rightarrow> date option" where
  "until_date cal x = (case get_prefix 8 x of None \<Rightarrow> None | Some y \<Rightarrow> read_ymd cal y)"

definition rule_part :: "calendar \<Rightarrow> string \<Rightarrow> bool" where
  "rule_part cal p \<longleftrightarrow>
     (\<exists>x f. part_value ''FREQ'' p = Some x \<and> freq_named x f) \<or>
     (\<exists>x n. part_value ''INTERVAL'' p = Some x \<and> parse_u32 x = Some n \<and> 1 \<le> n) \<or>
     (\<exists>x ws. part_value ''BYDAY'' p = Some x \<and> list_all2 day_named (split_on (CHR '','') x) ws) \<or>
     (\<exists>x n. part_value ''COUNT'' p = Some x \<and> parse_u32 x = Some n) \<or>
     (\<exists>x d. part_value ''UNTIL'' p = Some x \<and> until_date cal x = Some d)"

text \<open>What an accepted text says; of a key written twice the last value counts, of \<open>BYDAY\<close> all.\<close>

definition rule_reads :: "calendar \<Rightarrow> string \<Rightarrow> recurrence \<Rightarrow> bool" where
  "rule_reads cal s r \<longleftrightarrow>
     (let ps = rule_parts s
      in (\<forall>p \<in> set ps. rule_part cal p)
       \<and> (\<exists>x. last_value ''FREQ'' ps = Some x \<and> freq_named x (freq r))
       \<and> (case last_value ''INTERVAL'' ps of
            None \<Rightarrow> interval r = 1 | Some x \<Rightarrow> parse_u32 x = Some (interval r))
       \<and> list_all2 day_named (concat (map (split_on (CHR '','')) (values_of ''BYDAY'' ps))) (byday r)
       \<and> (byday r = [] \<or> freq r = Weekly)
       \<and> (case (rec_end r, last_value ''COUNT'' ps, last_value ''UNTIL'' ps) of
            (Never, None, None) \<Rightarrow> True
          | (Count n, Some x, None) \<Rightarrow> parse_u32 x = Some n
          | (Until d, None, Some x) \<Rightarrow> until_date cal x = Some d
          | _ \<Rightarrow> False))"

lemma freq_named_parse: "freq_named x f \<longleftrightarrow> parse_freq (to_ascii_uppercase x) = Some f"
  by (cases f) (auto simp: freq_named_def parse_freq_def)

lemma day_named_parse: "day_named x w \<longleftrightarrow> weekday_from_token (to_ascii_uppercase x) = Some w"
  by (cases w) (auto simp: day_named_def weekday_from_token_def)

lemma days_named_parse: "list_all2 day_named toks ws \<longleftrightarrow> parse_weekdays toks = Some ws"
proof (induction toks arbitrary: ws)
  case (Cons tok toks)
  then show ?case by (cases ws) (auto simp: day_named_parse split: option.split)
qed auto

lemma days_named_append:
  "parse_weekdays xs = Some vs \<Longrightarrow> parse_weekdays ys = Some ws \<Longrightarrow> parse_weekdays (xs @ ys) = Some (vs @ ws)"
  unfolding days_named_parse [symmetric] by (rule list_all2_appendI)

lemma values_of_append [simp]:
  "values_of k (ps @ [p]) = values_of k ps @ (case part_value k p of None \<Rightarrow> [] | Some x \<Rightarrow> [x])"
  by (simp add: values_of_def List.map_filter_def split: option.split)

lemma last_value_append [simp]:
  "last_value k (ps @ [p]) = (case part_value k p of None \<Rightarrow> last_value k ps | Some x \<Rightarrow> Some x)"
  by (simp add: last_value_def split: option.split)

lemma values_of_empty: "values_of k [] = []" "last_value k [] = None"
  by (simp_all add: values_of_def last_value_def map_filter_simps)

text \<open>One part: what the parser makes of it is what the part says.\<close>

lemma parse_pair_part:
  "parse_pair cal p v =
     (if rule_part cal p
      then Some
        \<lparr>v_freq = (case part_value ''FREQ'' p of None \<Rightarrow> v_freq v | Some x \<Rightarrow> parse_freq (to_ascii_uppercase x)),
         v_interval = (case part_value ''INTERVAL'' p of None \<Rightarrow> v_interval v | Some x \<Rightarrow> the (parse_u32 x)),
         v_byday = v_byday v @ (case part_value ''BYDAY'' p of
           None \<Rightarrow> [] | Some x \<Rightarrow> the (parse_weekdays (split_on (CHR '','') x))),
         v_count = (case part_value ''COUNT'' p of None \<Rightarrow> v_count v | Some x \<Rightarrow> parse_u32 x),
         v_until = (case part_value ''UNTIL'' p of None \<Rightarrow> v_until v | Some x \<Rightarrow> until_date cal x)\<rparr>
      else None)"
proof (cases "split_once (CHR ''='') p")
  case None
  have "part_value k p = None" for k using None unfolding part_value_def by (simp only: option.case)
  then show ?thesis using None unfolding parse_pair_def rule_part_def by (simp only: option.case) simp
next
  case (Some kx)
  obtain k x where kx: "split_once (CHR ''='') p = Some (k, x)" using Some by (cases kx) auto
  consider "to_ascii_uppercase k = ''FREQ''" | "to_ascii_uppercase k = ''INTERVAL''"
    | "to_ascii_uppercase k = ''BYDAY''" | "to_ascii_uppercase k = ''COUNT''"
    | "to_ascii_uppercase k = ''UNTIL''"
    | "to_ascii_uppercase k \<notin> set [''FREQ'', ''INTERVAL'', ''BYDAY'', ''COUNT'', ''UNTIL'']"
    by auto
  then show ?thesis
    by cases
       (auto simp: parse_pair_def rule_part_def part_value_def kx freq_named_parse days_named_parse
         until_date_def Let_def split: option.split)
qed

text \<open>All parts: the parser's variables hold the last values, and all the weekdays.\<close>

definition vars_read :: "calendar \<Rightarrow> string list \<Rightarrow> rrule_vars \<Rightarrow> bool" where
  "vars_read cal ps v \<longleftrightarrow>
     v_freq v = Option.bind (last_value ''FREQ'' ps) (\<lambda>x. parse_freq (to_ascii_uppercase x))
     \<and> v_interval v = (case last_value ''INTERVAL'' ps of None \<Rightarrow> 1 | Some x \<Rightarrow> the (parse_u32 x))
     \<and> parse_weekdays (concat (map (split_on (CHR '','')) (values_of ''BYDAY'' ps))) = Some (v_byday v)
     \<and> v_count v = Option.bind (last_value ''COUNT'' ps) parse_u32
     \<and> v_until v = Option.bind (last_value ''UNTIL'' ps) (until_date cal)"

definition no_vars :: rrule_vars where
  "no_vars = \<lparr>v_freq = None, v_interval = 1, v_byday = [], v_count = None, v_until = None\<rparr>"

lemma part_days:
  "rule_part cal p \<Longrightarrow> part_value ''BYDAY'' p = Some x \<Longrightarrow>
   parse_weekdays (split_on (CHR '','') x) = Some (the (parse_weekdays (split_on (CHR '','') x)))"
  by (auto simp: rule_part_def part_value_def days_named_parse split: option.splits if_splits)

lemma part_number:
  "rule_part cal p \<Longrightarrow> part_value ''INTERVAL'' p = Some x \<Longrightarrow> \<exists>n. parse_u32 x = Some n \<and> 1 \<le> n"
  "rule_part cal p \<Longrightarrow> part_value ''COUNT'' p = Some x \<Longrightarrow> \<exists>n. parse_u32 x = Some n"
  "rule_part cal p \<Longrightarrow> part_value ''UNTIL'' p = Some x \<Longrightarrow> \<exists>d. until_date cal x = Some d"
  by (auto simp: rule_part_def part_value_def split: option.splits if_splits)

lemma parse_pairs_read:
  "(if \<forall>p \<in> set ps. rule_part cal p
    then \<exists>v. parse_pairs cal ps no_vars = Some v \<and> vars_read cal ps v
    else parse_pairs cal ps no_vars = None)"
proof (induction ps rule: rev_induct)
  case Nil
  then show ?case by (simp add: no_vars_def vars_read_def values_of_empty)
next
  case (snoc p ps)
  show ?case
  proof (cases "\<forall>q \<in> set ps. rule_part cal q")
    case False
    with snoc show ?thesis by (auto simp: parse_pairs_append)
  next
    case True
    then obtain v where v: "parse_pairs cal ps no_vars = Some v" and read: "vars_read cal ps v"
      using snoc by auto
    have days: "parse_weekdays (xs @ split_on (CHR '','') x) =
        Some (ws @ the (parse_weekdays (split_on (CHR '','') x)))"
      if "rule_part cal p" "part_value ''BYDAY'' p = Some x" "parse_weekdays xs = Some ws" for x xs ws
      using days_named_append [OF that(3) part_days [OF that(1,2)]] .
    show ?thesis
      using True read days
      by (auto simp: parse_pairs_append v parse_pair_part vars_read_def split: option.splits)
  qed
qed

lemma last_value_in:
  "last_value k ps = Some x \<Longrightarrow> \<exists>p \<in> set ps. part_value k p = Some x"
  by (induction ps rule: rev_induct) (auto simp: values_of_empty split: option.splits)

lemma no_days: "parse_weekdays toks = Some [] \<longleftrightarrow> toks = []"
  by (cases toks) (auto split: option.splits)

lemma parse_rrule_no_vars:
  "parse_rrule cal s =
     Option.bind (parse_pairs cal (rule_parts s) no_vars) (\<lambda>v.
       Option.bind (v_freq v) (\<lambda>f.
         if v_byday v \<noteq> [] \<and> f \<noteq> Weekly then None
         else map_option
           (\<lambda>e. \<lparr>freq = f, interval = v_interval v, byday = v_byday v, rec_end = e\<rparr>)
           (rrule_end (v_count v) (v_until v))))"
  by (simp add: parse_rrule_def rule_parts_def no_vars_def split: option.split)

lemma rrule_end_iff:
  "rrule_end c u = Some e \<longleftrightarrow>
     (case (e, c, u) of (Never, None, None) \<Rightarrow> True | (Count n, Some m, None) \<Rightarrow> m = n
      | (Until d, None, Some d') \<Rightarrow> d' = d | _ \<Rightarrow> False)"
  by (auto simp: rrule_end_def split: option.split recurrence_end.split)

lemma parse_reads: "parse_rrule cal s = Some r \<longleftrightarrow> rule_reads cal s r"
proof (cases "\<forall>p \<in> set (rule_parts s). rule_part cal p")
  case False
  then show ?thesis
    using parse_pairs_read [of "rule_parts s" cal] by (simp add: parse_rrule_no_vars rule_reads_def Let_def)
next
  case True
  let ?ps = "rule_parts s"
  obtain v where v: "parse_pairs cal ?ps no_vars = Some v" and read: "vars_read cal ?ps v"
    using parse_pairs_read [of "rule_parts s" cal] True by auto
  have num: "\<exists>n. parse_u32 x = Some n" if "last_value ''INTERVAL'' ?ps = Some x" for x
    using last_value_in [OF that] True part_number(1) by blast
  have cnt: "\<exists>n. parse_u32 x = Some n" if "last_value ''COUNT'' ?ps = Some x" for x
    using last_value_in [OF that] True part_number(2) by blast
  have unt: "\<exists>d. until_date cal x = Some d" if "last_value ''UNTIL'' ?ps = Some x" for x
    using last_value_in [OF that] True part_number(3) by blast
  have ends: "rrule_end (v_count v) (v_until v) = Some (rec_end r) \<longleftrightarrow>
      (case (rec_end r, last_value ''COUNT'' ?ps, last_value ''UNTIL'' ?ps) of
         (Never, None, None) \<Rightarrow> True
       | (Count n, Some x, None) \<Rightarrow> parse_u32 x = Some n
       | (Until d, None, Some x) \<Rightarrow> until_date cal x = Some d
       | _ \<Rightarrow> False)"
    using read cnt unt
    by (cases "last_value ''COUNT'' ?ps"; cases "last_value ''UNTIL'' ?ps")
       (auto simp: rrule_end_iff vars_read_def split: recurrence_end.split)
  have int: "v_interval v = interval r \<longleftrightarrow> (case last_value ''INTERVAL'' ?ps of
      None \<Rightarrow> interval r = 1 | Some x \<Rightarrow> parse_u32 x = Some (interval r))"
    using read num by (cases "last_value ''INTERVAL'' ?ps") (auto simp: vars_read_def)
  have days: "v_byday v = byday r \<longleftrightarrow>
      list_all2 day_named (concat (map (split_on (CHR '','')) (values_of ''BYDAY'' ?ps))) (byday r)"
    using read by (auto simp: vars_read_def days_named_parse)
  have fr: "v_freq v = Some (freq r) \<longleftrightarrow> (\<exists>x. last_value ''FREQ'' ?ps = Some x \<and> freq_named x (freq r))"
    using read by (cases "last_value ''FREQ'' ?ps") (auto simp: vars_read_def freq_named_parse)
  have "parse_rrule cal s = Some r \<longleftrightarrow> v_freq v = Some (freq r) \<and> v_interval v = interval r \<and>
      v_byday v = byday r \<and> (byday r = [] \<or> freq r = Weekly) \<and>
      rrule_end (v_count v) (v_until v) = Some (rec_end r)"
    by (cases r; cases "v_freq v") (auto simp: parse_rrule_no_vars v)
  then show ?thesis using True ends int days fr by (simp add: rule_reads_def Let_def)
qed

lemma parsed_interval:
  assumes "rule_reads cal s r"
  shows "1 \<le> interval r \<and> interval r < 2 ^ 32"
proof (cases "last_value ''INTERVAL'' (rule_parts s)")
  case None
  then show ?thesis using assms by (simp add: rule_reads_def Let_def)
next
  case (Some x)
  have "parse_u32 x = Some (interval r)" using assms by (simp add: rule_reads_def Let_def Some)
  moreover obtain n where "parse_u32 x = Some n" "1 \<le> n"
    using last_value_in [OF Some] part_number(1) assms unfolding rule_reads_def Let_def by blast
  ultimately show ?thesis by (auto simp: parse_unsigned_def Let_def split: if_splits)
qed

text \<open>
  C9. The parser accepts exactly the rules of the subset, and reads in them exactly what they
  say: every part is one of the five keys with a value it may have, there is a frequency, the
  weekdays come with a weekly rule only, and a rule has a count or an end date, never both; of a
  key written twice the last value counts. An end date is the first eight characters of an
  \<open>UNTIL\<close>: what follows them, whatever it is, is passed over. The interval is then a
  positive 32-bit number, and writing the rule back gives a text that parses to its canonical
  form.
\<close>

theorem parsed_rule_is_v1:
  "(parse_rrule cal s = Some r \<longleftrightarrow> rule_reads cal s r)
   \<and> (rule_reads cal s r \<and> end_fits cal (rec_end r) \<longrightarrow>
        1 \<le> interval r \<and> interval r < 2 ^ 32
        \<and> parse_rrule cal (build_rrule cal r) = Some (canonical r))"
  using parsed_interval parse_built by (auto simp: parse_reads rrule_fits_def)

lemma parsed_rule_is_v1_witness:
  "rule_reads wide_calendar ''freq=weekly;byday=mo,we''
     \<lparr>freq = Weekly, interval = 1, byday = [Mon, Wed], rec_end = Never\<rparr>
   \<and> parse_rrule wide_calendar (build_rrule wide_calendar
       \<lparr>freq = Weekly, interval = 1, byday = [Mon, Wed], rec_end = Never\<rparr>) =
     Some (canonical \<lparr>freq = Weekly, interval = 1, byday = [Mon, Wed], rec_end = Never\<rparr>)"
proof -
  let ?w = "\<lparr>freq = Weekly, interval = 1, byday = [Mon, Wed], rec_end = Never\<rparr>"
  have p: "parse_rrule wide_calendar ''freq=weekly;byday=mo,we'' = Some ?w" by code_simp
  have e: "end_fits wide_calendar (rec_end ?w)" by simp
  have w: "rule_reads wide_calendar ''freq=weekly;byday=mo,we'' ?w"
    by (rule parsed_rule_is_v1 [THEN conjunct1, THEN iffD1, OF p])
  from parsed_rule_is_v1 [THEN conjunct2, THEN mp, OF conjI, OF w e] w show ?thesis
    by (intro conjI) (assumption | elim conjE)+
qed

text \<open>
  An \<open>UNTIL\<close> is read on its date alone: whatever follows the eight digits -- another time of
  day, or no date-time at all -- is dropped without refusing the rule.
\<close>

lemma until_time_ignored:
  assumes "ymd_digits cal d" "case rest of [] \<Rightarrow> True | c # _ \<Rightarrow> \<not> is_continuation c"
  shows "parse_pair cal (''UNTIL='' @ show_ymd cal d @ rest) v = Some (v\<lparr>v_until := Some d\<rparr>)"
proof -
  have "get_prefix 8 (show_ymd cal d @ rest) = Some (show_ymd cal d)"
    using assms by (auto simp: get_prefix_def ymd_digits_def split: list.splits)
  then show ?thesis using assms by (simp add: parse_pair_def ascii_upper_def Let_def ymd_digits_def)
qed

section \<open>Event and attachment forms\<close>

datatype event_form_error = TitleRequired | EndsBeforeStarts

definition validate_event_form :: "utext \<Rightarrow> instant \<Rightarrow> instant \<Rightarrow> event_form_error + unit" where
  "validate_event_form title starts_at ends_at =
     (if trim_text title = [] then Inl TitleRequired
      else if ends_at < starts_at then Inl EndsBeforeStarts
      else Inr ())"

definition MAX_ATTACHMENT_SIZE_BYTES :: nat where
  "MAX_ATTACHMENT_SIZE_BYTES = 20 * 1024 * 1024"

definition ALLOWED_EXTENSIONS :: "string list" where
  "ALLOWED_EXTENSIONS = [''png'', ''jpg'', ''jpeg'', ''webp'', ''pdf'']"

datatype attachment_error = UnsupportedType | TooLarge

definition validate_attachment :: "string \<Rightarrow> nat \<Rightarrow> attachment_error + unit" where
  "validate_attachment filename size_bytes =
     (let ext = (case rsplit_once (CHR ''.'') filename of
                   Some (_, ext) \<Rightarrow> to_ascii_lowercase ext | None \<Rightarrow> [])
      in if ext \<notin> set ALLOWED_EXTENSIONS then Inl UnsupportedType
         else if MAX_ATTACHMENT_SIZE_BYTES < size_bytes then Inl TooLarge
         else Inr ())"

section \<open>Reminder offsets\<close>

definition at_event_time :: string where
  "at_event_time = CHR 0xC3 # CHR 0xA0 # '' l'' @ CHR 0x27 # ''heure de l'' @ CHR 0x27 # CHR 0xC3 # CHR 0xA9
     # ''v'' @ CHR 0xC3 # CHR 0xA9 # ''nement''"

definition offset_parts :: "nat \<Rightarrow> nat \<Rightarrow> nat \<Rightarrow> string list" where
  "offset_parts days hours mins =
     (if 0 < days then [show_nat days @ '' '' @ (if days = 1 then ''jour'' else ''jours'')] else [])
     @ (if 0 < hours then [show_nat hours @ '' h''] else [])
     @ (if 0 < mins then [show_nat mins @ '' min''] else [])"

definition format_reminder_offset :: "nat \<Rightarrow> string" where
  "format_reminder_offset minutes =
     (if minutes = 0 then at_event_time
      else join_with '' '' (offset_parts (minutes div 1440) (minutes mod 1440 div 60) (minutes mod 60)))"

text \<open>What a reader makes of the words: numbers, each followed by its unit.\<close>

fun unit_minutes :: "string \<Rightarrow> nat" where
  "unit_minutes u = (if u = ''jour'' \<or> u = ''jours'' then 1440 else if u = ''h'' then 60
                     else if u = ''min'' then 1 else 0)"

fun words_minutes :: "string list \<Rightarrow> nat" where
  "words_minutes (n # u # ws) = digits_value n * unit_minutes u + words_minutes ws"
| "words_minutes ws = 0"

lemma split_word: "CHR '' '' \<notin> set a \<Longrightarrow> split_on (CHR '' '') (a @ '' '' @ s) = a # split_on (CHR '' '') s"
  using split_on_append [of "CHR '' ''" a s] by simp

lemma show_no_space: "CHR '' '' \<notin> set (show_nat n)"
  using show_nat_digits [of n] by (auto simp: list_all_iff is_digit_def)

lemma words_of_parts:
  "words_minutes (split_on (CHR '' '') (join_with '' '' (offset_parts d h m))) = d * 1440 + h * 60 + m"
proof -
  note w = split_word [OF show_no_space, simplified]
  have last: "split_on (CHR '' '') ''h'' = [''h'']" "split_on (CHR '' '') ''min'' = [''min'']"
    "split_on (CHR '' '') ''jour'' = [''jour'']" "split_on (CHR '' '') ''jours'' = [''jours'']" by simp_all
  show ?thesis
    by (cases "d = 0"; cases "h = 0"; cases "m = 0"; cases "d = 1")
       (simp_all add: offset_parts_def w last digits_value_show)
qed

text \<open>
  The wording of a reminder's offset loses nothing: read back as numbers and units, the
  words name exactly the minutes of the offset, whatever the split into days, hours and minutes.
\<close>

theorem reminder_wording_exact:
  assumes "0 < minutes"
  shows "words_minutes (split_on (CHR '' '') (format_reminder_offset minutes)) = minutes"
proof -
  have "minutes div 1440 * 1440 + minutes mod 1440 div 60 * 60 + minutes mod 60 = minutes"
  proof -
    have "minutes mod 60 = minutes mod 1440 mod 60" by (simp add: mod_mod_cancel)
    then show ?thesis
      using div_mult_mod_eq [of minutes 1440] div_mult_mod_eq [of "minutes mod 1440" 60] by linarith
  qed
  then show ?thesis using assms by (simp add: format_reminder_offset_def words_of_parts)
qed

lemma reminder_wording_exact_witness:
  "words_minutes (split_on (CHR '' '') (format_reminder_offset 1505)) = 1505"
  by (rule reminder_wording_exact) simp

end
