(* ===== verification/Recurrence.thy ===== *)
theory Recurrence
  imports Paris
begin

text \<open>
  The recurrence of events, \<open>apps/api/src/agenda/recurrence.rs\<close>: one unroll in Paris wall clock
  for hour-bound and all-day series, exclusions, the split of a series, and the check on write.

  The crate \<open>rrule\<close> is third-party code: the record \<open>rrule_crate\<close> holds the functions the code
  calls, and a built rule set is the sequence of instants its iterator returns
  (\<open>nat \<Rightarrow> instant option\<close>, \<open>None\<close> when it is exhausted). A computation that unrolls a rule
  returns an option: \<open>None\<close> is a walk that does not end.
\<close>

section \<open>The crate\<close>

datatype frequency = FYearly | FMonthly | FWeekly | FDaily | FHourly | FMinutely | FSecondly

datatype until_value = Until_utc instant | Until_zoned naive

datatype 'e rrule_error = InvalidParameterFormat string | Crate_error 'e

type_synonym walk = "nat \<Rightarrow> instant option"

record ('rule, 'e) rrule_crate =
  rr_parse :: "string \<Rightarrow> 'e rrule_error + 'rule"
  rr_count :: "'rule \<Rightarrow> nat option"
  rr_with_count :: "nat \<Rightarrow> 'rule \<Rightarrow> 'rule"
  rr_until :: "'rule \<Rightarrow> until_value option"
  rr_with_until :: "until_value \<Rightarrow> 'rule \<Rightarrow> 'rule"
  rr_freq :: "'rule \<Rightarrow> frequency"
  rr_by_hour :: "'rule \<Rightarrow> nat list"
  rr_by_minute :: "'rule \<Rightarrow> nat list"
  rr_by_second :: "'rule \<Rightarrow> nat list"
  rr_build :: "'rule \<Rightarrow> instant \<Rightarrow> 'e rrule_error + walk"

definition MAX_OCCURRENCES :: nat where
  "MAX_OCCURRENCES = 1000"

type_synonym occurrence_span = "instant \<times> instant"

section \<open>The two passes of a repeated hour, the hour after a skipped one\<close>

definition follows_a_skipped_hour :: "zone \<Rightarrow> instant \<Rightarrow> bool" where
  "follows_a_skipped_hour z dt \<longleftrightarrow> earliest z (local_of z dt - HOUR) = None"

definition repeated_hour_passes :: "zone \<Rightarrow> instant \<Rightarrow> (instant \<times> instant) option" where
  "repeated_hour_passes z dt =
     (let n = local_of z dt
      in case (earliest z n, latest z n) of
           (Some first, Some second) \<Rightarrow> if first \<noteq> second then Some (first, second) else None
         | _ \<Rightarrow> None)"

definition is_second_pass_of_a_repeated_hour :: "zone \<Rightarrow> instant \<Rightarrow> bool" where
  "is_second_pass_of_a_repeated_hour z dt =
     (case repeated_hour_passes z dt of Some (_, second) \<Rightarrow> dt = second | None \<Rightarrow> False)"

definition first_pass_of_a_repeated_hour :: "zone \<Rightarrow> instant \<Rightarrow> instant" where
  "first_pass_of_a_repeated_hour z dt =
     (case repeated_hour_passes z dt of Some (first, _) \<Rightarrow> first | None \<Rightarrow> dt)"

definition second_pass_of_a_repeated_hour :: "zone \<Rightarrow> instant \<Rightarrow> instant" where
  "second_pass_of_a_repeated_hour z dt =
     (case repeated_hour_passes z dt of Some (_, second) \<Rightarrow> second | None \<Rightarrow> dt)"

text \<open>The struct \<open>ProducedAfterAGap\<close> and its \<open>first_time\<close>.\<close>

record produced_after_a_gap =
  seen :: "instant list"
  newest_seen :: "instant option"

definition nothing_produced :: produced_after_a_gap where
  "nothing_produced = \<lparr>seen = [], newest_seen = None\<rparr>"

definition first_time :: "zone \<Rightarrow> instant \<Rightarrow> produced_after_a_gap \<Rightarrow> bool \<times> produced_after_a_gap" where
  "first_time z occurrence g =
     (if \<not> follows_a_skipped_hour z occurrence then
        (True,
         case newest_seen g of
           Some l \<Rightarrow> if l + 2 * HOUR < occurrence then nothing_produced else g
         | None \<Rightarrow> g)
      else
        (occurrence \<notin> set (seen g),
         \<lparr>seen = (if occurrence \<in> set (seen g) then seen g else occurrence # seen g),
          newest_seen = max (newest_seen g) (Some occurrence)\<rparr>))"

section \<open>Parsing and building\<close>

definition ascii_rule :: "string \<Rightarrow> 'e rrule_error + string" where
  "ascii_rule rrule = (if is_ascii rrule then Inr rrule else Inl (InvalidParameterFormat rrule))"

definition parse_rule :: "('rule, 'e) rrule_crate \<Rightarrow> string \<Rightarrow> 'e rrule_error + 'rule" where
  "parse_rule crate rrule = (case ascii_rule rrule of Inl e \<Rightarrow> Inl e | Inr s \<Rightarrow> rr_parse crate s)"

definition build_paris_rule_set ::
    "('rule, 'e) rrule_crate \<Rightarrow> zone \<Rightarrow> 'rule \<Rightarrow> instant \<Rightarrow> 'e rrule_error + walk" where
  "build_paris_rule_set crate z rule starts_at = rr_build crate rule (first_pass_of_a_repeated_hour z starts_at)"

definition paris_rule_set ::
    "('rule, 'e) rrule_crate \<Rightarrow> zone \<Rightarrow> string \<Rightarrow> instant \<Rightarrow> 'e rrule_error + walk" where
  "paris_rule_set crate z rrule starts_at =
     (case parse_rule crate rrule of
        Inl e \<Rightarrow> Inl e
      | Inr rule \<Rightarrow> build_paris_rule_set crate z rule starts_at)"

section \<open>The unroll\<close>

text \<open>The loop of \<open>occurrences_in\<close>, \<open>k\<close> instants into the walk.\<close>

partial_function (option) unroll ::
    "zone \<Rightarrow> walk \<Rightarrow> nat option \<Rightarrow> instant \<Rightarrow> instant \<Rightarrow> nat \<Rightarrow> produced_after_a_gap \<Rightarrow> nat \<Rightarrow>
     instant list \<Rightarrow> instant list option" where
  "unroll z iter count after before k g distinct_n dates =
     (if length dates < MAX_OCCURRENCES \<and> (case count of None \<Rightarrow> True | Some n \<Rightarrow> distinct_n < n) then
        (case iter k of
           None \<Rightarrow> Some dates
         | Some occurrence \<Rightarrow>
             if \<not> fst (first_time z occurrence g)
             then unroll z iter count after before (Suc k) (snd (first_time z occurrence g)) distinct_n dates
             else if before < occurrence
             then Some (if after \<le> occurrence \<and> occurrence \<le> before then dates @ [occurrence] else dates)
             else unroll z iter count after before (Suc k) (snd (first_time z occurrence g)) (Suc distinct_n)
                    (if after \<le> occurrence \<and> occurrence \<le> before then dates @ [occurrence] else dates))
      else Some dates)"

definition occurrences_in ::
    "('rule, 'e) rrule_crate \<Rightarrow> zone \<Rightarrow> 'rule \<Rightarrow> instant \<Rightarrow> instant \<Rightarrow> instant \<Rightarrow>
     ('e rrule_error + instant list) option" where
  "occurrences_in crate z rule anchor after before =
     (let count = rr_count crate rule;
          rule = (case count of Some _ \<Rightarrow> rr_with_count crate (2 ^ 32 - 1) rule | None \<Rightarrow> rule)
      in case build_paris_rule_set crate z rule anchor of
           Inl e \<Rightarrow> Some (Inl e)
         | Inr iter \<Rightarrow> map_option Inr (unroll z iter count after before 0 nothing_produced 0 []))"

definition expand_occurrences ::
    "('rule, 'e) rrule_crate \<Rightarrow> zone \<Rightarrow> string \<Rightarrow> instant \<Rightarrow> instant \<Rightarrow> instant \<Rightarrow>
     ('e rrule_error + instant list) option" where
  "expand_occurrences crate z rrule starts_at from till =
     (case parse_rule crate rrule of
        Inl e \<Rightarrow> Some (Inl e)
      | Inr rule \<Rightarrow>
          let after = from - secs 1; before = till + secs 1
          in if \<not> is_second_pass_of_a_repeated_hour z starts_at
             then occurrences_in crate z rule starts_at after before
             else map_option (map_sum id (\<lambda>dates.
                    filter (\<lambda>t. from \<le> t \<and> t \<le> till) (map (second_pass_of_a_repeated_hour z) dates)))
                    (occurrences_in crate z rule starts_at (after - HOUR) (before + HOUR)))"

section \<open>All-day series\<close>

definition all_day_anchor :: "zone \<Rightarrow> instant \<Rightarrow> instant" where
  "all_day_anchor z starts_at = paris_start_of_day z (paris_date z starts_at)"

definition all_day_until_day :: "zone \<Rightarrow> instant \<Rightarrow> until_value" where
  "all_day_until_day z until = Until_utc (paris_start_of_day z (naive_date until))"

definition all_day_rule :: "('rule, 'e) rrule_crate \<Rightarrow> zone \<Rightarrow> 'rule \<Rightarrow> 'rule" where
  "all_day_rule crate z rule =
     (case rr_until crate rule of
        Some (Until_utc until) \<Rightarrow> rr_with_until crate (all_day_until_day z until) rule
      | _ \<Rightarrow> rule)"

definition all_day_unroll ::
    "('rule, 'e) rrule_crate \<Rightarrow> zone \<Rightarrow> string \<Rightarrow> instant \<Rightarrow> 'e rrule_error + 'rule \<times> instant" where
  "all_day_unroll crate z rrule starts_at =
     (case parse_rule crate rrule of
        Inl e \<Rightarrow> Inl e
      | Inr rule \<Rightarrow> Inr (all_day_rule crate z rule, all_day_anchor z starts_at))"

definition all_day_rule_set ::
    "('rule, 'e) rrule_crate \<Rightarrow> zone \<Rightarrow> string \<Rightarrow> instant \<Rightarrow> 'e rrule_error + walk" where
  "all_day_rule_set crate z rrule starts_at =
     (case all_day_unroll crate z rrule starts_at of
        Inl e \<Rightarrow> Inl e
      | Inr (rule, anchor) \<Rightarrow> build_paris_rule_set crate z rule anchor)"

definition add_days :: "calendar \<Rightarrow> date \<Rightarrow> int \<Rightarrow> date" where
  "add_days cal d n = (case checked_days cal d n of Some d' \<Rightarrow> d' | None \<Rightarrow> d)"

definition expand_all_day_occurrences ::
    "('rule, 'e) rrule_crate \<Rightarrow> calendar \<Rightarrow> zone \<Rightarrow> string \<Rightarrow> instant \<Rightarrow> instant \<Rightarrow> instant \<Rightarrow> instant \<Rightarrow>
     ('e rrule_error + occurrence_span list) option" where
  "expand_all_day_occurrences crate cal z rrule starts_at ends_at from till =
     (let first_day = paris_date z starts_at;
          span_days = max (paris_date z ends_at - first_day) 1
      in case all_day_unroll crate z rrule starts_at of
           Inl e \<Rightarrow> Some (Inl e)
         | Inr (rule, anchor) \<Rightarrow>
             map_option (map_sum id (map (\<lambda>occurrence.
               let day = paris_date z occurrence
               in (paris_start_of_day z day, paris_start_of_day z (add_days cal day span_days)))))
               (occurrences_in crate z rule anchor from till))"

section \<open>Readers of a series\<close>

definition without_excluded ::
    "zone \<Rightarrow> occurrence_span list \<Rightarrow> instant list \<Rightarrow> bool \<Rightarrow> occurrence_span list" where
  "without_excluded z spans exdates all_day =
     (if exdates = [] then spans
      else if all_day then
        let days = map (paris_date z) exdates
        in filter (\<lambda>(start, _). paris_date z start \<notin> set days) spans
      else filter (\<lambda>(start, _). start \<notin> set exdates) spans)"

definition expand_series ::
    "('rule, 'e) rrule_crate \<Rightarrow> calendar \<Rightarrow> zone \<Rightarrow> string \<Rightarrow> bool \<Rightarrow> instant \<Rightarrow> instant \<Rightarrow> instant \<Rightarrow> instant \<Rightarrow>
     instant list \<Rightarrow> ('e rrule_error + occurrence_span list) option" where
  "expand_series crate cal z rrule all_day starts_at ends_at from till exdates =
     map_option (map_sum id (\<lambda>spans. without_excluded z spans exdates all_day))
       (if all_day then expand_all_day_occurrences crate cal z rrule starts_at ends_at from till
        else map_option (map_sum id (map (\<lambda>s. (s, s + (ends_at - starts_at)))))
               (expand_occurrences crate z rrule starts_at from till))"

record occurrence_in_series =
  span :: occurrence_span
  produced_before :: nat

fun position :: "('x \<Rightarrow> bool) \<Rightarrow> 'x list \<Rightarrow> nat option" where
  "position P [] = None"
| "position P (x # xs) = (if P x then Some 0 else map_option Suc (position P xs))"

definition locate_occurrence ::
    "('rule, 'e) rrule_crate \<Rightarrow> calendar \<Rightarrow> zone \<Rightarrow> string \<Rightarrow> bool \<Rightarrow> instant \<Rightarrow> instant \<Rightarrow> instant list \<Rightarrow>
     instant \<Rightarrow> ('e rrule_error + occurrence_in_series option) option" where
  "locate_occurrence crate cal z rrule all_day starts_at ends_at exdates at =
     map_option (map_sum id (\<lambda>spans.
       case position (\<lambda>(start, _). if all_day then paris_date z start = paris_date z at else start = at) spans of
         None \<Rightarrow> None
       | Some index \<Rightarrow>
           let span = spans ! index
           in if without_excluded z [span] exdates all_day = [] then None
              else Some \<lparr>span = span, produced_before = min index (2 ^ 32 - 1)\<rparr>))
       (expand_series crate cal z rrule all_day starts_at ends_at (starts_at - days_dur 1) (at + days_dur 1) [])"

section \<open>Splitting a series\<close>

definition rule_parts :: "string \<Rightarrow> string list" where
  "rule_parts rrule = filter (\<lambda>part. ascii_trim part \<noteq> []) (split_on (CHR '';'') rrule)"

definition is_part :: "string \<Rightarrow> string \<Rightarrow> bool" where
  "is_part part name =
     (case split_once (CHR ''='') part of
        Some (key, _) \<Rightarrow> eq_ignore_ascii_case (ascii_trim key) name
      | None \<Rightarrow> False)"

definition truncated_before ::
    "('rule, 'e) rrule_crate \<Rightarrow> calendar \<Rightarrow> zone \<Rightarrow> string \<Rightarrow> bool \<Rightarrow> instant \<Rightarrow> 'e rrule_error + string" where
  "truncated_before crate cal z rrule all_day occurrence =
     (case parse_rule crate rrule of
        Inl e \<Rightarrow> Inl e
      | Inr _ \<Rightarrow>
          let until = (if all_day then show_ymd cal (add_days cal (paris_date z occurrence) (-1)) @ ''T235959Z''
                       else show_stamp cal (first_pass_of_a_repeated_hour z occurrence - secs 1));
              parts = filter (\<lambda>part. \<not> is_part part ''COUNT'' \<and> \<not> is_part part ''UNTIL'') (rule_parts rrule)
          in Inr (join_with '';'' (parts @ [''UNTIL='' @ until])))"

definition continued_after ::
    "('rule, 'e) rrule_crate \<Rightarrow> string \<Rightarrow> nat \<Rightarrow> 'e rrule_error + string" where
  "continued_after crate rrule produced =
     (case parse_rule crate rrule of
        Inl e \<Rightarrow> Inl e
      | Inr rule \<Rightarrow>
          (case rr_count crate rule of
             None \<Rightarrow> Inr rrule
           | Some count \<Rightarrow>
               let left = ''COUNT='' @ show_nat (count - produced)
               in Inr (join_with '';'' (map (\<lambda>part. if is_part part ''COUNT'' then left else part) (rule_parts rrule)))))"

definition carried_over ::
    "calendar \<Rightarrow> zone \<Rightarrow> instant list \<Rightarrow> bool \<Rightarrow> instant \<Rightarrow> instant \<Rightarrow> instant list" where
  "carried_over cal z instants all_day occurrence new_start =
     (if all_day then
        let from = paris_date z occurrence;
            days = paris_date z new_start - from
        in map (\<lambda>day. paris_start_of_day z (add_days cal day days))
             (filter (\<lambda>day. from \<le> day) (map (paris_date z) instants))
      else
        let moved = new_start - occurrence
        in map (\<lambda>at. at + moved) (filter (\<lambda>at. occurrence \<le> at) instants))"

section \<open>The check on write\<close>

definition steps_by_days :: "('rule, 'e) rrule_crate \<Rightarrow> 'rule \<Rightarrow> bool" where
  "steps_by_days crate rule \<longleftrightarrow>
     rr_freq crate rule \<notin> {FHourly, FMinutely, FSecondly} \<and>
     rr_by_hour crate rule = [] \<and> rr_by_minute crate rule = [] \<and> rr_by_second crate rule = []"

definition validate :: "('rule, 'e) rrule_crate \<Rightarrow> zone \<Rightarrow> string \<Rightarrow> instant \<Rightarrow> bool \<Rightarrow> 'e rrule_error + unit" where
  "validate crate z rrule starts_at all_day =
     (if list_ex (\<lambda>c. c \<in> {CHR 0x0D, CHR 0x0A, CHR '':''}) rrule then Inl (InvalidParameterFormat rrule)
      else if all_day then
        (case parse_rule crate rrule of
           Inl e \<Rightarrow> Inl e
         | Inr rule \<Rightarrow>
             if \<not> steps_by_days crate rule then Inl (InvalidParameterFormat rrule)
             else (case all_day_rule_set crate z rrule starts_at of Inl e \<Rightarrow> Inl e | Inr _ \<Rightarrow> Inr ()))
      else (case paris_rule_set crate z rrule starts_at of Inl e \<Rightarrow> Inl e | Inr _ \<Rightarrow> Inr ()))"

definition steps_by_less_than_a_day :: "('rule, 'e) rrule_crate \<Rightarrow> string \<Rightarrow> bool" where
  "steps_by_less_than_a_day crate rrule =
     (case parse_rule crate rrule of Inr rule \<Rightarrow> \<not> steps_by_days crate rule | Inl _ \<Rightarrow> False)"

section \<open>What the code relies on\<close>

text \<open>
  What the iterator returns: instants in order, apart from copies of earlier ones; a copy only in
  the hour after a skipped one, and before the walk is more than an hour past it; and the walk
  passes every instant or ends.
\<close>

definition in_order :: "walk \<Rightarrow> bool" where
  "in_order iter \<longleftrightarrow>
     (\<forall>i j x y. i < j \<longrightarrow> iter i = Some x \<longrightarrow> iter j = Some y \<longrightarrow> x \<le> y \<or> (\<exists>h < i. iter h = Some y))"

definition copies_after_gaps :: "zone \<Rightarrow> walk \<Rightarrow> bool" where
  "copies_after_gaps z iter \<longleftrightarrow>
     (\<forall>i j x. i < j \<longrightarrow> iter i = Some x \<longrightarrow> iter j = Some x \<longrightarrow>
        follows_a_skipped_hour z x \<and>
        (\<forall>m y. i < m \<longrightarrow> m < j \<longrightarrow> iter m = Some y \<longrightarrow> y \<le> x + HOUR))"

definition advances :: "walk \<Rightarrow> bool" where
  "advances iter \<longleftrightarrow> (\<forall>b. \<exists>k. case iter k of None \<Rightarrow> True | Some x \<Rightarrow> b < x)"

definition walk_ok :: "zone \<Rightarrow> walk \<Rightarrow> bool" where
  "walk_ok z iter \<longleftrightarrow> in_order iter \<and> copies_after_gaps z iter \<and> advances iter"

section \<open>The series of a walk\<close>

definition walked :: "walk \<Rightarrow> nat \<Rightarrow> instant list" where
  "walked iter n = map (\<lambda>i. the (iter i)) [0..<n]"

definition firsts :: "'x list \<Rightarrow> 'x list" where
  "firsts xs = rev (remdups (rev xs))"

definition counted :: "nat option \<Rightarrow> 'x list \<Rightarrow> 'x list" where
  "counted count xs = (case count of None \<Rightarrow> xs | Some n \<Rightarrow> take n xs)"

definition defined_to :: "walk \<Rightarrow> nat \<Rightarrow> bool" where
  "defined_to iter n \<longleftrightarrow> (\<forall>i < n. iter i \<noteq> None)"

definition in_window :: "instant \<Rightarrow> instant \<Rightarrow> instant list \<Rightarrow> instant list" where
  "in_window after before xs = filter (\<lambda>t. after \<le> t \<and> t \<le> before) xs"

lemma firsts_snoc: "firsts (xs @ [x]) = (if x \<in> set xs then firsts xs else firsts xs @ [x])"
  by (simp add: firsts_def)

lemma firsts_Nil [simp]: "firsts [] = []"
  by (simp add: firsts_def)

lemma set_firsts [simp]: "set (firsts xs) = set xs"
  by (simp add: firsts_def)

lemma distinct_firsts [simp]: "distinct (firsts xs)"
  by (simp add: firsts_def)

lemma firsts_append:
  "\<exists>ys. firsts (xs @ zs) = firsts xs @ ys \<and> set ys \<subseteq> set zs - set xs"
proof (induction zs rule: rev_induct)
  case (snoc z zs)
  then obtain ys where "firsts (xs @ zs) = firsts xs @ ys" "set ys \<subseteq> set zs - set xs" by blast
  then show ?case
    using firsts_snoc [of "xs @ zs" z]
    by (cases "z \<in> set (xs @ zs)") (auto intro: exI [of _ ys] exI [of _ "ys @ [z]"])
qed simp

lemma walked_Suc: "walked iter (Suc n) = walked iter n @ [the (iter n)]"
  by (simp add: walked_def)

lemma walked_0 [simp]: "walked iter 0 = []"
  by (simp add: walked_def)

lemma set_walked: "defined_to iter n \<Longrightarrow> x \<in> set (walked iter n) \<longleftrightarrow> (\<exists>i < n. iter i = Some x)"
  by (force simp: walked_def defined_to_def)

lemma walked_add: "walked iter (n + m) = walked iter n @ map (\<lambda>i. the (iter i)) [n..<n + m]"
  by (simp add: walked_def upt_add_eq_append [of 0 n m])

section \<open>The memory of the hour after a gap\<close>

definition gap_inv :: "zone \<Rightarrow> walk \<Rightarrow> nat \<Rightarrow> produced_after_a_gap \<Rightarrow> bool" where
  "gap_inv z iter k g \<longleftrightarrow>
     (\<forall>x \<in> set (seen g). (\<exists>i < k. iter i = Some x) \<and> (\<exists>l. newest_seen g = Some l \<and> x \<le> l)) \<and>
     (\<forall>i < k. \<forall>x. iter i = Some x \<longrightarrow> follows_a_skipped_hour z x \<longrightarrow>
        x \<in> set (seen g) \<or> (\<exists>m y. i < m \<and> m < k \<and> iter m = Some y \<and> x + HOUR < y))"

lemma gap_inv_start: "gap_inv z iter 0 nothing_produced"
  by (simp add: gap_inv_def nothing_produced_def)

lemma first_time_fresh:
  assumes c: "copies_after_gaps z iter" and g: "gap_inv z iter k g" and x: "iter k = Some x"
  shows "fst (first_time z x g) \<longleftrightarrow> \<not> (\<exists>i < k. iter i = Some x)"
proof
  assume fresh: "fst (first_time z x g)"
  show "\<not> (\<exists>i < k. iter i = Some x)"
  proof
    assume "\<exists>i < k. iter i = Some x"
    then obtain i where i: "i < k" "iter i = Some x" by blast
    with c x have gap: "follows_a_skipped_hour z x"
      and near: "\<And>m y. i < m \<Longrightarrow> m < k \<Longrightarrow> iter m = Some y \<Longrightarrow> y \<le> x + HOUR"
      unfolding copies_after_gaps_def by blast+
    from g i gap have "x \<in> set (seen g) \<or> (\<exists>m y. i < m \<and> m < k \<and> iter m = Some y \<and> x + HOUR < y)"
      unfolding gap_inv_def by blast
    with near have "x \<in> set (seen g)" by fastforce
    with fresh gap show False by (simp add: first_time_def)
  qed
next
  assume "\<not> (\<exists>i < k. iter i = Some x)"
  then have "x \<notin> set (seen g)" using g by (auto simp: gap_inv_def)
  then show "fst (first_time z x g)" by (simp add: first_time_def)
qed

lemma gap_inv_step:
  assumes g: "gap_inv z iter k g" and x: "iter k = Some x"
  shows "gap_inv z iter (Suc k) (snd (first_time z x g))"
proof -
  have old: "y \<in> set (seen g) \<or> (\<exists>m y'. i < m \<and> m < k \<and> iter m = Some y' \<and> y + HOUR < y')"
    if "i < k" "iter i = Some y" "follows_a_skipped_hour z y" for i y
    using g that unfolding gap_inv_def by blast
  have seen: "(\<exists>i < k. iter i = Some y) \<and> (\<exists>l. newest_seen g = Some l \<and> y \<le> l)" if "y \<in> set (seen g)" for y
    using g that unfolding gap_inv_def by blast
  show ?thesis
  proof (cases "follows_a_skipped_hour z x")
    case gap: True
    let ?g = "snd (first_time z x g)"
    have new: "set (seen ?g) = insert x (set (seen g))" "newest_seen ?g = max (newest_seen g) (Some x)"
      using gap by (auto simp: first_time_def)
    have "(\<exists>i < Suc k. iter i = Some y) \<and> (\<exists>l. newest_seen ?g = Some l \<and> y \<le> l)"
      if "y \<in> set (seen ?g)" for y
    proof (cases "y = x")
      case True
      then show ?thesis using x unfolding new by (cases "newest_seen g") (auto simp: max_def)
    next
      case False
      with that seen [of y] show ?thesis unfolding new
        by (auto simp: max_def intro: less_SucI)
    qed
    moreover have "y \<in> set (seen ?g) \<or> (\<exists>m y'. i < m \<and> m < Suc k \<and> iter m = Some y' \<and> y + HOUR < y')"
      if "i < Suc k" "iter i = Some y" "follows_a_skipped_hour z y" for i y
      using that old x unfolding new by (auto simp: less_Suc_eq)
    ultimately show ?thesis unfolding gap_inv_def by blast
  next
    case out: False
    show ?thesis
    proof (cases "\<exists>l. newest_seen g = Some l \<and> l + 2 * HOUR < x")
      case True
      then obtain l where l: "newest_seen g = Some l" "l + 2 * HOUR < x" by blast
      have r: "snd (first_time z x g) = nothing_produced" using out l by (simp add: first_time_def)
      have "\<exists>m y'. i < m \<and> m < Suc k \<and> iter m = Some y' \<and> y + HOUR < y'"
        if i: "i < Suc k" "iter i = Some y" "follows_a_skipped_hour z y" for i y
      proof -
        have "i < k" using i out x by (auto simp: less_Suc_eq)
        from old [OF this i(2,3)] consider "y \<in> set (seen g)"
          | m y' where "i < m" "m < k" "iter m = Some y'" "y + HOUR < y'" by blast
        then show ?thesis
        proof cases
          case 1
          with seen l have "y \<le> l" by fastforce
          with l have "y + HOUR < x" by (simp add: HOUR_def)
          with \<open>i < k\<close> x show ?thesis by blast
        next
          case 2
          then show ?thesis using less_SucI by blast
        qed
      qed
      then show ?thesis by (simp add: r gap_inv_def nothing_produced_def)
    next
      case False
      then have r: "snd (first_time z x g) = g" using out by (auto simp: first_time_def split: option.splits)
      show ?thesis unfolding r gap_inv_def
        using seen old out x by (fastforce simp: less_Suc_eq)
    qed
  qed
qed

section \<open>The unroll is the series\<close>

definition window_listing :: "nat option \<Rightarrow> instant \<Rightarrow> instant \<Rightarrow> instant list \<Rightarrow> instant list" where
  "window_listing count after before xs =
     take MAX_OCCURRENCES (in_window after before (counted count (firsts xs)))"

text \<open>The first step of the walk past the window, or past its end.\<close>

definition last_step :: "walk \<Rightarrow> instant \<Rightarrow> nat \<Rightarrow> bool" where
  "last_step iter before k \<longleftrightarrow>
     (case iter k of None \<Rightarrow> True | Some x \<Rightarrow> before < x) \<and>
     (\<forall>i < k. \<exists>x. iter i = Some x \<and> x \<le> before)"

definition steps_walked :: "walk \<Rightarrow> nat \<Rightarrow> nat" where
  "steps_walked iter k = (if iter k = None then k else Suc k)"

lemma last_step_exists:
  assumes "advances iter"
  obtains k where "last_step iter before k"
proof -
  let ?P = "\<lambda>k. case iter k of None \<Rightarrow> True | Some x \<Rightarrow> before < x"
  obtain k where "?P k" using assms unfolding advances_def by blast
  then have "?P (LEAST k. ?P k)" by (rule LeastI)
  moreover have "\<exists>x. iter i = Some x \<and> x \<le> before" if "i < (LEAST k. ?P k)" for i
    using not_less_Least [OF that] by (cases "iter i") auto
  ultimately have "last_step iter before (LEAST k. ?P k)" unfolding last_step_def by blast
  then show ?thesis by (rule that)
qed

lemma defined_to_last: "last_step iter before k \<Longrightarrow> defined_to iter (steps_walked iter k)"
  by (force simp: last_step_def steps_walked_def defined_to_def less_Suc_eq)

lemma in_window_append: "in_window a b (xs @ ys) = in_window a b xs @ in_window a b ys"
  by (simp add: in_window_def)

lemma listing_full:
  assumes "firsts ys = firsts xs @ zs" and "\<And>n. count = Some n \<Longrightarrow> length (firsts xs) \<le> n"
    and "length (in_window a b (firsts xs)) = MAX_OCCURRENCES"
  shows "window_listing count a b ys = in_window a b (firsts xs)"
  using assms by (cases count) (simp_all add: window_listing_def counted_def in_window_append)

lemma listing_counted:
  assumes "firsts ys = firsts xs @ zs" and "count = Some (length (firsts xs))"
    and "length (in_window a b (firsts xs)) \<le> MAX_OCCURRENCES"
  shows "window_listing count a b ys = in_window a b (firsts xs)"
  using assms by (simp add: window_listing_def counted_def)

lemma unroll_result:
  assumes c: "copies_after_gaps z iter" and K: "last_step iter before K"
    and k: "k \<le> K" and g: "gap_inv z iter k g"
    and dn: "dn = length (firsts (walked iter k))"
    and dates: "dates = in_window after before (firsts (walked iter k))" "length dates \<le> MAX_OCCURRENCES"
    and count: "\<And>n. count = Some n \<Longrightarrow> dn \<le> n"
  shows "unroll z iter count after before k g dn dates =
    Some (window_listing count after before (walked iter (steps_walked iter K)))"
  using k g dn dates count
proof (induction "K - k" arbitrary: k g dn dates rule: less_induct)
  case less
  let ?W = "walked iter (steps_walked iter K)"
  have "k \<le> steps_walked iter K" using less.prems(1) by (simp add: steps_walked_def)
  then obtain m where "steps_walked iter K = k + m" by (metis le_add_diff_inverse)
  then obtain ys where ys: "firsts ?W = firsts (walked iter k) @ ys"
    using firsts_append [of "walked iter k" "map (\<lambda>i. the (iter i)) [k..<k + m]"] walked_add [of iter k m]
    by metis
  have K': "defined_to iter k"
    using defined_to_last [OF K] \<open>k \<le> steps_walked iter K\<close>
    unfolding defined_to_def by (meson order_less_le_trans)
  show ?case
  proof (cases "length dates < MAX_OCCURRENCES \<and> (case count of None \<Rightarrow> True | Some n \<Rightarrow> dn < n)")
    case False
    then consider "length dates = MAX_OCCURRENCES" | "count = Some dn"
      using less.prems(5,6) by (auto split: option.splits intro: order_antisym)
    then have "window_listing count after before ?W = dates"
      using listing_full [OF ys, of count] listing_counted [OF ys, of count] less.prems by cases auto
    with False show ?thesis by (subst unroll.simps) auto
  next
    case go: True
    show ?thesis
    proof (cases "iter k")
      case None
      have "\<not> k < K" using K None by (auto simp: last_step_def)
      with less.prems(1) have "k = K" by simp
      then have "window_listing count after before ?W = dates"
        using None less.prems(3,4,5) go
        by (auto simp: steps_walked_def window_listing_def counted_def split: option.splits)
      with None go show ?thesis by (subst unroll.simps) auto
    next
      case (Some x)
      let ?dates = "if after \<le> x \<and> x \<le> before then dates @ [x] else dates"
      have fresh: "fst (first_time z x g) \<longleftrightarrow> x \<notin> set (walked iter k)"
        using first_time_fresh [OF c less.prems(2) Some] set_walked [OF K'] by simp
      have w: "firsts (walked iter (Suc k)) = (if x \<in> set (walked iter k) then firsts (walked iter k) else firsts (walked iter k) @ [x])"
        by (simp add: walked_Suc Some firsts_snoc)
      have g': "gap_inv z iter (Suc k) (snd (first_time z x g))" by (rule gap_inv_step [OF less.prems(2) Some])
      show ?thesis
      proof (cases "before < x")
        case True
        with K Some have kK: "k = K" using less.prems(1) by (force simp: last_step_def dest: le_neq_implies_less)
        have new: "x \<notin> set (walked iter k)"
          using K True set_walked [OF K', of x] kK by (auto simp: last_step_def)
        have "window_listing count after before ?W = dates"
          using w new kK Some True go less.prems(3,4,5)
          by (auto simp: steps_walked_def window_listing_def counted_def in_window_def split: option.splits)
        with go Some fresh new True show ?thesis by (subst unroll.simps) auto
      next
        case False
        then have kK: "k < K" using K Some less.prems(1) by (cases "k = K") (auto simp: last_step_def)
        have IH: "\<And>d ds. d = length (firsts (walked iter (Suc k))) \<Longrightarrow>
            ds = in_window after before (firsts (walked iter (Suc k))) \<Longrightarrow> length ds \<le> MAX_OCCURRENCES \<Longrightarrow>
            (\<And>n. count = Some n \<Longrightarrow> d \<le> n) \<Longrightarrow>
            unroll z iter count after before (Suc k) (snd (first_time z x g)) d ds =
              Some (window_listing count after before ?W)"
          using less.hyps [of "Suc k"] kK g' by simp
        show ?thesis
        proof (cases "x \<in> set (walked iter k)")
          case True
          then show ?thesis
            using go Some fresh IH [of dn dates] w less.prems(3,4,5,6) by (subst unroll.simps) auto
        next
          case new: False
          have "unroll z iter count after before (Suc k) (snd (first_time z x g)) (Suc dn) ?dates =
              Some (window_listing count after before ?W)"
            using w new go less.prems(3,4,5)
            by (intro IH) (auto simp: in_window_def split: option.splits)
          with go Some fresh new False show ?thesis by (subst unroll.simps) auto
        qed
      qed
    qed
  qed
qed

text \<open>Past that step nothing of the window is left.\<close>

lemma listing_stable:
  assumes o: "in_order iter" and K: "last_step iter before K"
    and n: "steps_walked iter K \<le> n" "defined_to iter n"
  shows "window_listing count after before (walked iter n) =
    window_listing count after before (walked iter (steps_walked iter K))"
proof -
  let ?m = "steps_walked iter K"
  obtain d where d: "n = ?m + d" using n(1) by (metis le_add_diff_inverse)
  let ?new = "map (\<lambda>i. the (iter i)) [?m..<?m + d]"
  obtain ys where ys: "firsts (walked iter n) = firsts (walked iter ?m) @ ys"
    and sub: "set ys \<subseteq> set ?new - set (walked iter ?m)"
    using firsts_append [of "walked iter ?m" ?new] by (auto simp: d walked_add)
  have late: "before < y" if "y \<in> set ys" for y
  proof -
    have "y \<in> set ?new" using sub that by blast
    then obtain j where j: "?m \<le> j" "j < n" "y = the (iter j)" by (auto simp: d)
    moreover have "iter j \<noteq> None" using n(2) j(2) unfolding defined_to_def by blast
    ultimately have j: "?m \<le> j" "j < n" "iter j = Some y" by auto
    have "K < n" using j by (simp add: steps_walked_def split: if_splits)
    with n(2) have "\<exists>x. iter K = Some x" unfolding defined_to_def by blast
    then obtain x where x: "iter K = Some x" "before < x" using K by (auto simp: last_step_def)
    then have "K < j" using j by (simp add: steps_walked_def)
    with o x j consider "x \<le> y" | h where "h < K" "iter h = Some y" unfolding in_order_def by blast
    then show ?thesis
    proof cases
      case 2
      then have "h < ?m \<and> iter h = Some y" by (simp add: steps_walked_def)
      then have "y \<in> set (walked iter ?m)" unfolding set_walked [OF defined_to_last [OF K]] by blast
      with sub that show ?thesis by blast
    qed (use x in simp)
  qed
  have none: "in_window after before zs = []" if "set zs \<subseteq> set ys" for zs
    using late that by (force simp: in_window_def filter_empty_conv)
  show ?thesis
  proof (cases count)
    case None
    then show ?thesis by (simp add: window_listing_def counted_def ys in_window_append none)
  next
    case (Some c)
    have "in_window after before (take (c - length (firsts (walked iter ?m))) ys) = []"
      by (rule none) (rule set_take_subset)
    then show ?thesis by (simp add: Some window_listing_def counted_def ys in_window_append)
  qed
qed

lemma unroll_from_start:
  assumes ok: "walk_ok z iter"
  shows "\<exists>n0. defined_to iter n0 \<and>
    (\<forall>n \<ge> n0. defined_to iter n \<longrightarrow>
       unroll z iter count after before 0 nothing_produced 0 [] =
         Some (window_listing count after before (walked iter n)))"
proof -
  obtain K where K: "last_step iter before K"
    using ok last_step_exists unfolding walk_ok_def by blast
  have "unroll z iter count after before 0 nothing_produced 0 [] =
      Some (window_listing count after before (walked iter (steps_walked iter K)))"
    using ok by (intro unroll_result [OF _ K]) (auto simp: walk_ok_def gap_inv_start in_window_def)
  with listing_stable [OF _ K] defined_to_last [OF K] ok show ?thesis
    unfolding walk_ok_def by metis
qed

section \<open>Properties of the unroll\<close>

text \<open>
  What the code relies on of the crate: every walk it builds is as above, and whether a rule
  builds does not depend on the value of its count.
\<close>

definition crate_ok :: "('rule, 'e) rrule_crate \<Rightarrow> zone \<Rightarrow> bool" where
  "crate_ok crate z \<longleftrightarrow>
     (\<forall>rule anchor iter. rr_build crate rule anchor = Inr iter \<longrightarrow> walk_ok z iter) \<and>
     (\<forall>rule anchor n e. rr_build crate (rr_with_count crate n rule) anchor = Inl e \<longrightarrow>
        (\<exists>e'. rr_build crate rule anchor = Inl e'))"

definition lifted :: "('rule, 'e) rrule_crate \<Rightarrow> 'rule \<Rightarrow> 'rule" where
  "lifted crate rule = (case rr_count crate rule of Some _ \<Rightarrow> rr_with_count crate (2 ^ 32 - 1) rule | None \<Rightarrow> rule)"

lemma occurrences_in_lifted:
  "occurrences_in crate z rule anchor after before =
     (case rr_build crate (lifted crate rule) (first_pass_of_a_repeated_hour z anchor) of
        Inl e \<Rightarrow> Some (Inl e)
      | Inr iter \<Rightarrow> map_option Inr (unroll z iter (rr_count crate rule) after before 0 nothing_produced 0 []))"
  by (simp add: occurrences_in_def lifted_def build_paris_rule_set_def Let_def)

lemma lifted_builds:
  "crate_ok crate z \<Longrightarrow> rr_build crate rule anchor = Inr iter \<Longrightarrow>
   \<exists>iter'. rr_build crate (lifted crate rule) anchor = Inr iter' \<and> walk_ok z iter'"
  unfolding crate_ok_def lifted_def
  by (cases "rr_count crate rule"; cases "rr_build crate (rr_with_count crate (2 ^ 32 - 1) rule) anchor") force+

text \<open>
  C10. The unroll ends, and it lists the series: for every long enough walk of the rule with its
  count lifted, \<open>occurrences_in\<close> returns the first thousand instants of the window among the
  distinct instants of the walk, the first \<open>COUNT\<close> of them when the rule counts. A copy is
  never listed and never counted, and nothing before the window spends the thousand.
\<close>

theorem unroll_lists_the_series:
  assumes "crate_ok crate z"
    and "rr_build crate (lifted crate rule) (first_pass_of_a_repeated_hour z anchor) = Inr iter"
  shows "\<exists>n0. defined_to iter n0 \<and>
    (\<forall>n \<ge> n0. defined_to iter n \<longrightarrow>
       occurrences_in crate z rule anchor after before =
         Some (Inr (take MAX_OCCURRENCES (filter (\<lambda>t. after \<le> t \<and> t \<le> before)
           (case rr_count crate rule of None \<Rightarrow> firsts (walked iter n)
            | Some c \<Rightarrow> take c (firsts (walked iter n)))))))"
proof -
  have "walk_ok z iter" using assms unfolding crate_ok_def by blast
  from unroll_from_start [OF this, of "rr_count crate rule" after before] show ?thesis
    by (simp add: occurrences_in_lifted assms(2) window_listing_def counted_def in_window_def)
qed

text \<open>
  A crate for the examples: every text parses, a rule is its count, and a rule set walks day by
  day from its anchor, for three days.
\<close>

definition demo_walk :: "instant \<Rightarrow> walk" where
  "demo_walk anchor k = (if k < 3 then Some (anchor + int k * DAY) else None)"

definition demo_crate :: "(nat option, unit) rrule_crate" where
  "demo_crate = \<lparr>rr_parse = (\<lambda>s. Inr (if is_part s ''COUNT'' then Some 2 else None)), rr_count = id,
     rr_with_count = (\<lambda>n _. Some n), rr_until = (\<lambda>_. None), rr_with_until = (\<lambda>_ r. r),
     rr_freq = (\<lambda>_. FDaily), rr_by_hour = (\<lambda>_. []), rr_by_minute = (\<lambda>_. []), rr_by_second = (\<lambda>_. []),
     rr_build = (\<lambda>_ anchor. Inr (demo_walk anchor))\<rparr>"

lemma demo_walk_ok: "walk_ok z (demo_walk anchor)"
proof -
  have "in_order (demo_walk anchor)"
    by (auto simp: in_order_def demo_walk_def DAY_def split: if_splits)
  moreover have "copies_after_gaps z (demo_walk anchor)"
    by (auto simp: copies_after_gaps_def demo_walk_def DAY_def split: if_splits)
  moreover have "advances (demo_walk anchor)"
    unfolding advances_def by (intro allI exI [of _ 3]) (simp add: demo_walk_def)
  ultimately show ?thesis by (simp add: walk_ok_def)
qed

lemma demo_crate_simps [simp]:
  "rr_build demo_crate rule anchor = Inr (demo_walk anchor)" "rr_count demo_crate rule = rule"
  "rr_with_count demo_crate n rule = Some n"
  by (simp_all add: demo_crate_def)

lemma demo_crate_ok: "crate_ok demo_crate z"
  by (auto simp: crate_ok_def demo_crate_def demo_walk_ok)

lemma unroll_lists_the_series_witness:
  "occurrences_in demo_crate demo_zone (Some 2) (10 * DAY) (10 * DAY + 1) (20 * DAY) = Some (Inr [11 * DAY])"
proof -
  have a: "first_pass_of_a_repeated_hour demo_zone (10 * DAY) = 10 * DAY"
    by (simp add: first_pass_of_a_repeated_hour_def repeated_hour_passes_def demo_defs)
  have b: "rr_build demo_crate (lifted demo_crate (Some 2)) (first_pass_of_a_repeated_hour demo_zone (10 * DAY)) =
      Inr (demo_walk (10 * DAY))"
    by (simp add: a demo_crate_def)
  from unroll_lists_the_series [OF demo_crate_ok b, of "10 * DAY + 1" "20 * DAY"]
  obtain n0 where n0: "defined_to (demo_walk (10 * DAY)) n0"
    and r: "\<And>n. n \<ge> n0 \<Longrightarrow> defined_to (demo_walk (10 * DAY)) n \<Longrightarrow>
      occurrences_in demo_crate demo_zone (Some 2) (10 * DAY) (10 * DAY + 1) (20 * DAY) =
         Some (Inr (take MAX_OCCURRENCES (filter (\<lambda>t. 10 * DAY + 1 \<le> t \<and> t \<le> 20 * DAY)
           (take 2 (firsts (walked (demo_walk (10 * DAY)) n))))))"
    by (auto simp: demo_crate_def)
  have "n0 \<le> 3"
  proof (rule ccontr)
    assume "\<not> n0 \<le> 3"
    then have "demo_walk (10 * DAY) 3 \<noteq> None" using n0 unfolding defined_to_def by auto
    then show False by (simp add: demo_walk_def)
  qed
  moreover have "defined_to (demo_walk (10 * DAY)) 3" by (simp add: defined_to_def demo_walk_def)
  moreover have "firsts (walked (demo_walk (10 * DAY)) 3) = [10 * DAY, 11 * DAY, 12 * DAY]"
    by (simp add: walked_def demo_walk_def firsts_def upt_rec DAY_def)
  ultimately show ?thesis using r [of 3] by (simp add: MAX_OCCURRENCES_def DAY_def)
qed

lemma occurrences_in_cases:
  assumes "crate_ok crate z" and "rr_build crate rule (first_pass_of_a_repeated_hour z anchor) = Inr iter0"
  obtains iter n where "rr_build crate (lifted crate rule) (first_pass_of_a_repeated_hour z anchor) = Inr iter"
    "walk_ok z iter" "defined_to iter n"
    "occurrences_in crate z rule anchor after before =
       Some (Inr (window_listing (rr_count crate rule) after before (walked iter n)))"
proof -
  obtain iter where iter: "rr_build crate (lifted crate rule) (first_pass_of_a_repeated_hour z anchor) = Inr iter"
    "walk_ok z iter" using lifted_builds [OF assms] by blast
  obtain n where n: "defined_to iter n" "unroll z iter (rr_count crate rule) after before 0 nothing_produced 0 [] =
         Some (window_listing (rr_count crate rule) after before (walked iter n))"
    using unroll_from_start [OF iter(2), of "rr_count crate rule" after before] by blast
  show ?thesis
    by (rule that [OF iter n(1)]) (simp add: occurrences_in_lifted iter(1) n(2))
qed

lemma window_listing_bounds:
  "length (window_listing count after before xs) \<le> MAX_OCCURRENCES"
  "t \<in> set (window_listing count after before xs) \<Longrightarrow> after \<le> t \<and> t \<le> before \<and> t \<in> set xs"
  "distinct (window_listing count after before xs)"
proof -
  show "length (window_listing count after before xs) \<le> MAX_OCCURRENCES" by (simp add: window_listing_def)
  show "distinct (window_listing count after before xs)"
    by (simp add: window_listing_def in_window_def counted_def distinct_take distinct_filter split: option.split)
  show "after \<le> t \<and> t \<le> before \<and> t \<in> set xs" if "t \<in> set (window_listing count after before xs)"
    using that
    by (auto simp: window_listing_def in_window_def counted_def split: option.splits dest!: in_set_takeD)
qed

lemma exclusion_window:
  "sp \<in> set (without_excluded z spans exdates all_day) \<longleftrightarrow>
     sp \<in> set spans \<and> (if all_day then paris_date z (fst sp) \<notin> paris_date z ` set exdates else fst sp \<notin> set exdates)"
  by (cases sp) (auto simp: without_excluded_def Let_def)

lemma length_without_excluded: "length (without_excluded z spans exdates all_day) \<le> length spans"
  by (simp add: without_excluded_def Let_def)

lemma expand_occurrences_ok:
  assumes ok: "crate_ok crate z" and v: "paris_rule_set crate z rrule starts_at = Inr iter0"
  shows "\<exists>dates. expand_occurrences crate z rrule starts_at from till = Some (Inr dates) \<and>
    length dates \<le> MAX_OCCURRENCES \<and>
    (\<forall>t \<in> set dates. from - secs 1 \<le> t \<and> t \<le> till + secs 1)"
proof -
  obtain rule where rule: "parse_rule crate rrule = Inr rule"
    and b: "rr_build crate rule (first_pass_of_a_repeated_hour z starts_at) = Inr iter0"
    using v by (auto simp: paris_rule_set_def build_paris_rule_set_def split: sum.splits)
  have run: "\<exists>dates. occurrences_in crate z rule starts_at after before = Some (Inr dates) \<and>
      length dates \<le> MAX_OCCURRENCES \<and> (\<forall>t \<in> set dates. after \<le> t \<and> t \<le> before)" for after before
  proof -
    obtain iter n where "occurrences_in crate z rule starts_at after before =
        Some (Inr (window_listing (rr_count crate rule) after before (walked iter n)))"
      by (rule occurrences_in_cases [OF ok b])
    then show ?thesis using window_listing_bounds(1,2) by blast
  qed
  show ?thesis
  proof (cases "is_second_pass_of_a_repeated_hour z starts_at")
    case False
    with run [of "from - secs 1" "till + secs 1"] show ?thesis
      by (simp add: expand_occurrences_def rule Let_def)
  next
    case True
    let ?a = "from - secs 1 - HOUR" and ?b = "till + secs 1 + HOUR"
    from run [of ?a ?b] obtain dates where d: "occurrences_in crate z rule starts_at ?a ?b = Some (Inr dates)"
      "length dates \<le> MAX_OCCURRENCES" by blast
    let ?r = "filter (\<lambda>t. from \<le> t \<and> t \<le> till) (map (second_pass_of_a_repeated_hour z) dates)"
    have "length ?r \<le> MAX_OCCURRENCES" using d(2) by (rule order_trans [rotated]) (metis length_filter_le length_map)
    moreover have "\<forall>t \<in> set ?r. from - secs 1 \<le> t \<and> t \<le> till + secs 1" by (auto simp: secs_def)
    ultimately show ?thesis using True d(1) by (simp add: expand_occurrences_def rule Let_def)
  qed
qed

lemma expand_all_day_ok:
  assumes ok: "crate_ok crate z" and v: "all_day_rule_set crate z rrule starts_at = Inr iter0"
  shows "\<exists>spans. expand_all_day_occurrences crate cal z rrule starts_at ends_at from till = Some (Inr spans) \<and>
    length spans \<le> MAX_OCCURRENCES \<and>
    (\<forall>sp \<in> set spans. \<exists>t. from \<le> t \<and> t \<le> till \<and> fst sp = paris_start_of_day z (paris_date z t) \<and>
       snd sp = paris_start_of_day z (add_days cal (paris_date z t) (max (paris_date z ends_at - paris_date z starts_at) 1)))"
proof -
  obtain rule anchor where u: "all_day_unroll crate z rrule starts_at = Inr (rule, anchor)"
    and b: "rr_build crate rule (first_pass_of_a_repeated_hour z anchor) = Inr iter0"
    using v by (auto simp: all_day_rule_set_def build_paris_rule_set_def split: sum.splits)
  obtain iter n where run: "occurrences_in crate z rule anchor from till =
      Some (Inr (window_listing (rr_count crate rule) from till (walked iter n)))"
    by (rule occurrences_in_cases [OF ok b])
  then show ?thesis
    using window_listing_bounds(1,2)
    by (fastforce simp: expand_all_day_occurrences_def u Let_def)
qed

text \<open>
  C11. A rule accepted on write unrolls from the same row: whatever the window and the
  exclusions, \<open>expand_series\<close> ends, returns spans and no error, at most a thousand, none of them
  excluded. An hour-bound occurrence starts within a second of the window and lasts as long as
  the row; an all-day one runs from the opening of a Paris day to the opening of another, as
  many days later as the row covers and at least one.
\<close>

theorem validated_rule_unrolls:
  assumes ok: "crate_ok crate z" and v: "validate crate z rrule starts_at all_day = Inr ()"
  shows "\<exists>spans. expand_series crate cal z rrule all_day starts_at ends_at from till exdates = Some (Inr spans)
    \<and> length spans \<le> MAX_OCCURRENCES
    \<and> (\<forall>sp \<in> set spans.
         if all_day then
           paris_date z (fst sp) \<notin> paris_date z ` set exdates \<and>
           (\<exists>t. from \<le> t \<and> t \<le> till \<and> fst sp = paris_start_of_day z (paris_date z t) \<and>
             snd sp = paris_start_of_day z (add_days cal (paris_date z t) (max (paris_date z ends_at - paris_date z starts_at) 1)))
         else fst sp \<notin> set exdates \<and> from - secs 1 \<le> fst sp \<and> fst sp \<le> till + secs 1 \<and>
           snd sp = fst sp + (ends_at - starts_at))"
proof (cases all_day)
  case True
  then obtain iter0 where "all_day_rule_set crate z rrule starts_at = Inr iter0"
    using v by (auto simp: validate_def split: sum.splits if_splits)
  from expand_all_day_ok [OF ok this] obtain spans where
    sp: "expand_all_day_occurrences crate cal z rrule starts_at ends_at from till = Some (Inr spans)"
    "length spans \<le> MAX_OCCURRENCES"
    "\<forall>sp \<in> set spans. \<exists>t. from \<le> t \<and> t \<le> till \<and> fst sp = paris_start_of_day z (paris_date z t) \<and>
       snd sp = paris_start_of_day z (add_days cal (paris_date z t) (max (paris_date z ends_at - paris_date z starts_at) 1))"
    by blast
  have "length (without_excluded z spans exdates True) \<le> MAX_OCCURRENCES"
    using sp(2) length_without_excluded order_trans by blast
  with True sp show ?thesis by (simp add: expand_series_def exclusion_window)
next
  case False
  then obtain iter0 where "paris_rule_set crate z rrule starts_at = Inr iter0"
    using v by (auto simp: validate_def split: sum.splits if_splits)
  from expand_occurrences_ok [OF ok this] obtain dates where
    d: "expand_occurrences crate z rrule starts_at from till = Some (Inr dates)"
    "length dates \<le> MAX_OCCURRENCES" "\<forall>t \<in> set dates. from - secs 1 \<le> t \<and> t \<le> till + secs 1"
    by blast
  let ?spans = "map (\<lambda>s. (s, s + (ends_at - starts_at))) dates"
  have "length (without_excluded z ?spans exdates False) \<le> MAX_OCCURRENCES"
    using d(2) length_without_excluded [of z ?spans] by (metis length_map order_trans)
  with False d show ?thesis by (auto simp: expand_series_def exclusion_window)
qed

lemma validated_rule_unrolls_witness:
  "\<exists>spans. expand_series demo_crate wide_calendar demo_zone ''FREQ=DAILY'' True (10 * DAY) (10 * DAY + HOUR) 0 (20 * DAY) [11 * DAY]
      = Some (Inr spans) \<and> length spans \<le> 1000"
proof -
  have "validate demo_crate demo_zone ''FREQ=DAILY'' (10 * DAY) True = Inr ()"
    by (simp add: validate_def parse_rule_def ascii_rule_def is_ascii_def demo_crate_def steps_by_days_def
        all_day_rule_set_def all_day_unroll_def build_paris_rule_set_def)
  from validated_rule_unrolls [OF demo_crate_ok this, of wide_calendar "10 * DAY + HOUR" 0 "20 * DAY" "[11 * DAY]"]
  show ?thesis unfolding MAX_OCCURRENCES_def by blast
qed

section \<open>The start of a series\<close>

text \<open>The clock repeats an hour, no more and no less.\<close>

definition repeats_an_hour :: "zone \<Rightarrow> bool" where
  "repeats_an_hour z \<longleftrightarrow> (\<forall>n e l. earliest z n = Some e \<longrightarrow> latest z n = Some l \<longrightarrow> l = e \<or> l = e + HOUR)"

lemma passes_cases:
  assumes "zone_ok z"
  obtains "repeated_hour_passes z t = None" "first_pass_of_a_repeated_hour z t = t" "\<not> is_second_pass_of_a_repeated_hour z t"
  | f l where "repeated_hour_passes z t = Some (f, l)" "f \<noteq> l" "earliest z (local_of z t) = Some f"
    "latest z (local_of z t) = Some l" "local_of z f = local_of z t" "local_of z l = local_of z t" "t = f \<or> t = l"
proof -
  obtain e l where el: "earliest z (local_of z t) = Some e" "latest z (local_of z t) = Some l" "t = e \<or> t = l"
    using zone_names [OF assms, of t] by blast
  show ?thesis
  proof (cases "e = l")
    case True
    with el show ?thesis
      by (intro that(1)) (auto simp: repeated_hour_passes_def first_pass_of_a_repeated_hour_def
          is_second_pass_of_a_repeated_hour_def Let_def)
  next
    case False
    with el zone_earliest [OF assms el(1)] zone_latest [OF assms el(2)] show ?thesis
      by (intro that(2) [of e l]) (simp_all add: repeated_hour_passes_def Let_def)
  qed
qed

lemma second_of_first:
  assumes z: "zone_ok z" and s: "is_second_pass_of_a_repeated_hour z t"
  shows "second_pass_of_a_repeated_hour z (first_pass_of_a_repeated_hour z t) = t"
proof (cases rule: passes_cases [OF z, of t])
  case (2 f l)
  have "t = l" using s 2(1) by (simp add: is_second_pass_of_a_repeated_hour_def)
  moreover have "repeated_hour_passes z f = Some (f, l)"
    using 2(2-5) by (simp add: repeated_hour_passes_def Let_def)
  ultimately show ?thesis
    using 2(1) by (simp add: second_pass_of_a_repeated_hour_def first_pass_of_a_repeated_hour_def)
qed (use s in simp)

lemma firsts_hd: "0 < n \<Longrightarrow> iter 0 = Some x \<Longrightarrow> \<exists>ys. firsts (walked iter n) = x # ys"
proof -
  assume n: "0 < n" and x: "iter 0 = Some x"
  have "walked iter (1 + (n - 1)) = walked iter 1 @ map (\<lambda>i. the (iter i)) [1..<1 + (n - 1)]"
    by (rule walked_add)
  moreover have "firsts (walked iter 1) = [x]" by (simp add: walked_def firsts_def x)
  ultimately show ?thesis using firsts_append [of "walked iter 1" "map (\<lambda>i. the (iter i)) [1..<1 + (n - 1)]"] n by auto
qed

lemma listing_has_start:
  assumes ok: "crate_ok crate z"
    and b: "rr_build crate (lifted crate rule) (first_pass_of_a_repeated_hour z anchor) = Inr iter"
    and x: "iter 0 = Some x" and c: "rr_count crate rule \<noteq> Some 0" and w: "after \<le> x" "x \<le> before"
  shows "\<exists>dates. occurrences_in crate z rule anchor after before = Some (Inr dates) \<and> x \<in> set dates"
proof -
  have wok: "walk_ok z iter" using ok b unfolding crate_ok_def by blast
  from unroll_from_start [OF wok, of "rr_count crate rule" after before]
  obtain n0 where n0: "defined_to iter n0"
    and u: "\<And>n. n \<ge> n0 \<Longrightarrow> defined_to iter n \<Longrightarrow> unroll z iter (rr_count crate rule) after before 0 nothing_produced 0 [] =
         Some (window_listing (rr_count crate rule) after before (walked iter n))" by blast
  define n where "n = max n0 1"
  have n: "n \<ge> n0" "0 < n" "defined_to iter n" using n0 x by (auto simp: n_def defined_to_def max_def)
  obtain ys where "firsts (walked iter n) = x # ys" using firsts_hd [of n iter x] n(2) x by blast
  then have "x \<in> set (window_listing (rr_count crate rule) after before (walked iter n))"
  proof -
    obtain zs where "counted (rr_count crate rule) (x # ys) = x # zs"
    proof (cases "rr_count crate rule")
      case None
      then show ?thesis using that by (simp add: counted_def)
    next
      case (Some m)
      then obtain m' where "m = Suc m'" using c by (cases m) auto
      with Some show ?thesis using that by (simp add: counted_def)
    qed
    then show ?thesis using w \<open>firsts (walked iter n) = x # ys\<close>
      by (simp add: window_listing_def in_window_def MAX_OCCURRENCES_def take_Cons')
  qed
  then show ?thesis using u [OF n(1,3)] by (simp add: occurrences_in_lifted b)
qed

text \<open>
  A series lists its own start, exactly as the row stores it -- on the second pass of the
  repeated hour too, which no wall clock names: when the rule's walk begins on the anchor, the
  start of the row is listed in every window that holds it.
\<close>

theorem series_lists_its_start:
  assumes ok: "crate_ok crate z" and z: "zone_ok z" and hour: "repeats_an_hour z"
    and p: "parse_rule crate rrule = Inr rule" and c: "rr_count crate rule \<noteq> Some 0"
    and b: "rr_build crate (lifted crate rule) (first_pass_of_a_repeated_hour z starts_at) = Inr iter"
    and x: "iter 0 = Some (first_pass_of_a_repeated_hour z starts_at)"
    and w: "from \<le> starts_at" "starts_at \<le> till"
  shows "\<exists>dates. expand_occurrences crate z rrule starts_at from till = Some (Inr dates) \<and> starts_at \<in> set dates"
proof (cases "is_second_pass_of_a_repeated_hour z starts_at")
  case False
  have "first_pass_of_a_repeated_hour z starts_at = starts_at"
  proof (cases rule: passes_cases [OF z, of starts_at])
    case (2 f l)
    have "starts_at = f" using False 2(1,7) by (auto simp: is_second_pass_of_a_repeated_hour_def)
    then show ?thesis using 2(1) by (simp add: first_pass_of_a_repeated_hour_def)
  qed
  with x w listing_has_start [OF ok b x c, of "from - secs 1" "till + secs 1"] False show ?thesis
    by (simp add: expand_occurrences_def p Let_def secs_def)
next
  case True
  have near: "first_pass_of_a_repeated_hour z starts_at + HOUR = starts_at"
  proof (cases rule: passes_cases [OF z, of starts_at])
    case (2 f l)
    have "starts_at = l" using True 2(1) by (simp add: is_second_pass_of_a_repeated_hour_def)
    moreover have "l = f + HOUR" using hour 2(2-4) unfolding repeats_an_hour_def by metis
    ultimately show ?thesis using 2(1) by (simp add: first_pass_of_a_repeated_hour_def)
  qed (use True in simp)
  let ?a = "from - secs 1 - HOUR" and ?b = "till + secs 1 + HOUR"
  have "?a \<le> first_pass_of_a_repeated_hour z starts_at" "first_pass_of_a_repeated_hour z starts_at \<le> ?b"
    using near w by (simp_all add: secs_def HOUR_def)
  from listing_has_start [OF ok b x c this] obtain dates where
    d: "occurrences_in crate z rule starts_at ?a ?b = Some (Inr dates)"
    "first_pass_of_a_repeated_hour z starts_at \<in> set dates" by blast
  have "starts_at \<in> second_pass_of_a_repeated_hour z ` set dates"
    using d(2) second_of_first [OF z True] by (metis imageI)
  with d(1) w True show ?thesis by (simp add: expand_occurrences_def p Let_def)
qed

lemma demo_repeats: "repeats_an_hour demo_zone"
  by (auto simp: repeats_an_hour_def demo_zone_def demo_candidates_def split: if_splits)

lemma series_lists_its_start_witness:
  "is_second_pass_of_a_repeated_hour demo_zone AUTUMN \<and>
   (\<exists>dates. expand_occurrences demo_crate demo_zone ''FREQ=DAILY'' AUTUMN AUTUMN AUTUMN = Some (Inr dates)
      \<and> AUTUMN \<in> set dates)"
proof
  show "is_second_pass_of_a_repeated_hour demo_zone AUTUMN"
    by (simp add: is_second_pass_of_a_repeated_hour_def repeated_hour_passes_def demo_defs)
  have p: "parse_rule demo_crate ''FREQ=DAILY'' = Inr None"
    by (simp add: parse_rule_def ascii_rule_def is_ascii_def demo_crate_def is_part_def eq_ignore_ascii_case_def
        ascii_lower_def Let_def trim_by_def ascii_ws_def)
  have c: "rr_count demo_crate None \<noteq> Some 0" by (simp add: demo_crate_def)
  have b: "rr_build demo_crate (lifted demo_crate None) (first_pass_of_a_repeated_hour demo_zone AUTUMN) =
      Inr (demo_walk (first_pass_of_a_repeated_hour demo_zone AUTUMN))" by (simp add: demo_crate_def)
  have x: "demo_walk a 0 = Some a" for a by (simp add: demo_walk_def)
  show "\<exists>dates. expand_occurrences demo_crate demo_zone ''FREQ=DAILY'' AUTUMN AUTUMN AUTUMN = Some (Inr dates)
      \<and> AUTUMN \<in> set dates"
    by (rule series_lists_its_start [OF demo_crate_ok demo_zone_ok demo_repeats p c b x order_refl order_refl])
qed

section \<open>Locating and splitting\<close>

lemma position_Some:
  "position P xs = Some i \<Longrightarrow> i < length xs \<and> P (xs ! i) \<and> (\<forall>j < i. \<not> P (xs ! j))"
proof (induction xs arbitrary: i)
  case (Cons x xs)
  then show ?case by (auto split: if_splits simp: nth_Cons split: nat.splits)
qed simp

lemma position_None: "position P xs = None \<longleftrightarrow> (\<forall>x \<in> set xs. \<not> P x)"
  by (induction xs) auto

lemma without_excluded_single:
  "without_excluded z [sp] exdates all_day = [] \<longleftrightarrow>
     (if all_day then paris_date z (fst sp) \<in> paris_date z ` set exdates else fst sp \<in> set exdates)"
  by (cases sp) (auto simp: without_excluded_def Let_def)

definition names_occurrence :: "zone \<Rightarrow> bool \<Rightarrow> instant \<Rightarrow> occurrence_span \<Rightarrow> bool" where
  "names_occurrence z all_day at sp \<longleftrightarrow>
     (if all_day then paris_date z (fst sp) = paris_date z at else fst sp = at)"

text \<open>
  What \<open>locate_occurrence\<close> finds is the occurrence the agenda lists under that instant: the
  first of the series' spans that it names, not excluded, with the number of spans before it --
  excluded ones included, as \<open>COUNT\<close> counts them. It finds none only when no listed span is
  named or the named one is excluded; a rule that does not unroll is an error.
\<close>

theorem located_occurrence:
  assumes s: "expand_series crate cal z rrule all_day starts_at ends_at
      (starts_at - days_dur 1) (at + days_dur 1) [] = Some (Inr spans)" and len: "length spans \<le> MAX_OCCURRENCES"
  shows "case locate_occurrence crate cal z rrule all_day starts_at ends_at exdates at of
      Some (Inr (Some found)) \<Rightarrow>
        produced_before found < length spans \<and> span found = spans ! produced_before found \<and>
        names_occurrence z all_day at (span found) \<and>
        (\<forall>j < produced_before found. \<not> names_occurrence z all_day at (spans ! j)) \<and>
        without_excluded z [span found] exdates all_day = [span found]
    | Some (Inr None) \<Rightarrow>
        (\<forall>sp \<in> set spans. \<not> names_occurrence z all_day at sp) \<or>
        (\<exists>sp \<in> set spans. names_occurrence z all_day at sp \<and> without_excluded z [sp] exdates all_day = [])
    | _ \<Rightarrow> False"
proof -
  have test: "(\<lambda>(start, _). if all_day then paris_date z start = paris_date z at else start = at) =
      names_occurrence z all_day at"
    by (auto simp: names_occurrence_def fun_eq_iff)
  have single: "without_excluded z [sp] exdates all_day = [] \<or> without_excluded z [sp] exdates all_day = [sp]" for sp
    by (auto simp: without_excluded_def Let_def)
  show ?thesis
  proof (cases "position (names_occurrence z all_day at) spans")
    case None
    then have "\<forall>sp \<in> set spans. \<not> names_occurrence z all_day at sp" by (simp add: position_None)
    with None show ?thesis by (simp add: locate_occurrence_def s test)
  next
    case (Some i)
    note at = position_Some [OF Some]
    have "min i (2 ^ 32 - 1) = i" using at len by (simp add: MAX_OCCURRENCES_def)
    then show ?thesis
      using at single [of "spans ! i"]
      by (auto simp: locate_occurrence_def s test Some Let_def intro: nth_mem bexI [of _ "spans ! i"])
  qed
qed

text \<open>The three days of the example's walk.\<close>

lemma demo_expand:
  "expand_series demo_crate wide_calendar demo_zone ''FREQ=DAILY'' False (10 * DAY) (10 * DAY + HOUR)
     (10 * DAY - days_dur 1) (12 * DAY + days_dur 1) [] =
   Some (Inr [(10 * DAY, 10 * DAY + HOUR), (11 * DAY, 11 * DAY + HOUR), (12 * DAY, 12 * DAY + HOUR)])"
proof -
  have p: "parse_rule demo_crate ''FREQ=DAILY'' = Inr None"
    by (simp add: parse_rule_def ascii_rule_def is_ascii_def demo_crate_def is_part_def eq_ignore_ascii_case_def
        ascii_lower_def Let_def trim_by_def ascii_ws_def)
  have f: "first_pass_of_a_repeated_hour demo_zone (10 * DAY) = 10 * DAY"
    "\<not> is_second_pass_of_a_repeated_hour demo_zone (10 * DAY)"
    by (simp_all add: first_pass_of_a_repeated_hour_def is_second_pass_of_a_repeated_hour_def
        repeated_hour_passes_def demo_defs)
  have n: "\<not> follows_a_skipped_hour demo_zone (d * DAY)" if "d \<noteq> 100" for d
    using that by (auto simp: follows_a_skipped_hour_def demo_defs)
  have run: "unroll demo_zone (demo_walk (10 * DAY)) None a b 0 nothing_produced 0 [] =
      Some [10 * DAY, 11 * DAY, 12 * DAY]" if "a \<le> 10 * DAY" "12 * DAY < b" for a b
    using that n [of 10] n [of 11] n [of 12]
    by (simp add: unroll.simps demo_walk_def first_time_def nothing_produced_def MAX_OCCURRENCES_def DAY_def)
  have "expand_occurrences demo_crate demo_zone ''FREQ=DAILY'' (10 * DAY) (10 * DAY - days_dur 1) (12 * DAY + days_dur 1) =
      Some (Inr [10 * DAY, 11 * DAY, 12 * DAY])"
    by (simp add: expand_occurrences_def p f occurrences_in_def build_paris_rule_set_def Let_def)
       (rule run; simp add: secs_def days_dur_def DAY_def)
  then show ?thesis by (simp add: expand_series_def without_excluded_def)
qed

lemma located_occurrence_witness:
  "\<exists>found. locate_occurrence demo_crate wide_calendar demo_zone ''FREQ=DAILY'' False (10 * DAY) (10 * DAY + HOUR) [] (12 * DAY)
     = Some (Inr (Some found)) \<and> produced_before found < 3 \<and> fst (span found) = 12 * DAY"
proof -
  show ?thesis
    using located_occurrence [OF demo_expand, of "[]"]
    by (auto simp: MAX_OCCURRENCES_def names_occurrence_def DAY_def without_excluded_def
        split: option.splits sum.splits)
qed

lemma rule_parts_set:
  "p \<in> set (rule_parts r) \<Longrightarrow> CHR '';'' \<notin> set p" "p \<in> set (rule_parts r) \<Longrightarrow> ascii_trim p \<noteq> []"
  by (auto simp: rule_parts_def dest: split_on_pieces)

lemma rule_parts_join:
  assumes "\<And>p. p \<in> set ps \<Longrightarrow> CHR '';'' \<notin> set p" "\<And>p. p \<in> set ps \<Longrightarrow> ascii_trim p \<noteq> []"
  shows "rule_parts (join_with '';'' ps) = ps"
proof (cases "ps = []")
  case False
  then have "split_on (CHR '';'') (join_with '';'' ps) = ps" using assms(1) by (intro split_join) auto
  then show ?thesis using assms(2) by (simp add: rule_parts_def filter_id_conv)
qed (simp add: rule_parts_def)

lemma keyed_part:
  "CHR '';'' \<notin> set v \<Longrightarrow> CHR '';'' \<notin> set (''UNTIL='' @ v)" "ascii_trim (''UNTIL='' @ v) \<noteq> []"
  "CHR '';'' \<notin> set v \<Longrightarrow> CHR '';'' \<notin> set (''COUNT='' @ v)" "ascii_trim (''COUNT='' @ v) \<noteq> []"
  by (auto simp: trim_by_empty ascii_ws_def Let_def)

lemma is_part_keyed:
  "is_part (''UNTIL='' @ v) ''UNTIL''" "\<not> is_part (''UNTIL='' @ v) ''COUNT''" "is_part (''COUNT='' @ v) ''COUNT''"
  by (simp_all add: is_part_def eq_ignore_ascii_case_def trim_by_def ascii_ws_def ascii_lower_def Let_def)

text \<open>The texts of a date and of an instant hold no semicolon.\<close>

definition plain_texts :: "calendar \<Rightarrow> bool" where
  "plain_texts cal \<longleftrightarrow> (\<forall>d. CHR '';'' \<notin> set (show_ymd cal d)) \<and> (\<forall>t. CHR '';'' \<notin> set (show_stamp cal t))"

lemma split_texts:
  assumes plain: "plain_texts cal" and p: "parse_rule crate rrule = Inr rule"
  shows "\<exists>old until. truncated_before crate cal z rrule all_day occ = Inr old
    \<and> until = (if all_day then show_ymd cal (add_days cal (paris_date z occ) (-1)) @ ''T235959Z''
               else show_stamp cal (first_pass_of_a_repeated_hour z occ - secs 1))
    \<and> rule_parts old = [p \<leftarrow> rule_parts rrule. \<not> is_part p ''COUNT'' \<and> \<not> is_part p ''UNTIL''] @ [''UNTIL='' @ until]
    \<and> [p \<leftarrow> rule_parts old. is_part p ''UNTIL''] = [''UNTIL='' @ until] \<and> [p \<leftarrow> rule_parts old. is_part p ''COUNT''] = []"
    and "case rr_count crate rule of
        None \<Rightarrow> continued_after crate rrule n = Inr rrule
      | Some count \<Rightarrow> \<exists>new. continued_after crate rrule n = Inr new \<and>
          rule_parts new = map (\<lambda>p. if is_part p ''COUNT'' then ''COUNT='' @ show_nat (count - n) else p) (rule_parts rrule)"
proof -
  let ?until = "if all_day then show_ymd cal (add_days cal (paris_date z occ) (-1)) @ ''T235959Z''
     else show_stamp cal (first_pass_of_a_repeated_hour z occ - secs 1)"
  let ?kept = "[p \<leftarrow> rule_parts rrule. \<not> is_part p ''COUNT'' \<and> \<not> is_part p ''UNTIL'']"
  define u where "u = ?until"
  have plain_u: "CHR '';'' \<notin> set u" using plain by (auto simp: plain_texts_def u_def)
  have t: "truncated_before crate cal z rrule all_day occ = Inr (join_with '';'' (?kept @ [''UNTIL='' @ u]))"
    by (simp add: truncated_before_def p Let_def u_def)
  have old: "rule_parts (join_with '';'' (?kept @ [''UNTIL='' @ u])) = ?kept @ [''UNTIL='' @ u]"
    using keyed_part(1) [OF plain_u] keyed_part(2) [of u]
    by (intro rule_parts_join) (auto dest: rule_parts_set simp del: append_Cons)
  have "[p \<leftarrow> ?kept. is_part p ''UNTIL''] = []" "[p \<leftarrow> ?kept. is_part p ''COUNT''] = []"
    by (auto simp: filter_empty_conv)
  then have parts: "[p \<leftarrow> ?kept @ [''UNTIL='' @ u]. is_part p ''UNTIL''] = [''UNTIL='' @ u]"
    "[p \<leftarrow> ?kept @ [''UNTIL='' @ u]. is_part p ''COUNT''] = []"
    using is_part_keyed(1,2) [of u] by (simp_all del: append_Cons)
  show "\<exists>old until. truncated_before crate cal z rrule all_day occ = Inr old \<and> until = ?until
    \<and> rule_parts old = ?kept @ [''UNTIL='' @ until]
    \<and> [p \<leftarrow> rule_parts old. is_part p ''UNTIL''] = [''UNTIL='' @ until] \<and> [p \<leftarrow> rule_parts old. is_part p ''COUNT''] = []"
    unfolding u_def [symmetric]
    by (rule exI [where x = "join_with '';'' (?kept @ [''UNTIL='' @ u])"], rule exI [where x = u], unfold old)
       (intro conjI t refl parts)
  have "rule_parts (join_with '';'' (map (\<lambda>p. if is_part p ''COUNT'' then ''COUNT='' @ v else p) (rule_parts rrule))) =
      map (\<lambda>p. if is_part p ''COUNT'' then ''COUNT='' @ v else p) (rule_parts rrule)"
    if "CHR '';'' \<notin> set v" for v
    using that keyed_part(3,4) [of v]
    by (intro rule_parts_join) (auto dest: rule_parts_set simp del: append_Cons split: if_splits)
  moreover have "CHR '';'' \<notin> set (show_nat m)" for m
    using show_nat_digits [of m] by (auto simp: list_all_iff is_digit_def)
  ultimately show "case rr_count crate rule of
        None \<Rightarrow> continued_after crate rrule n = Inr rrule
      | Some count \<Rightarrow> \<exists>new. continued_after crate rrule n = Inr new \<and>
          rule_parts new = map (\<lambda>p. if is_part p ''COUNT'' then ''COUNT='' @ show_nat (count - n) else p) (rule_parts rrule)"
    by (simp add: continued_after_def p Let_def del: append_Cons split: option.split)
qed

text \<open>
  Splitting a series rewrites its bound and nothing else. The old series keeps every part of
  the rule but \<open>COUNT\<close> and \<open>UNTIL\<close>, in order, and ends with one \<open>UNTIL\<close>: the eve of the
  occurrence's Paris day, or one second before its first pass. The new series keeps every part
  in order, its \<open>COUNT\<close> what the old one had left; without a count it is the same text. A rule
  that does not parse is an error for both.
\<close>

theorem split_rewrites_the_bound:
  assumes plain: "plain_texts cal" and p: "parse_rule crate rrule = Inr rule"
  shows "(\<exists>old until. truncated_before crate cal z rrule all_day occ = Inr old
    \<and> until = (if all_day then show_ymd cal (add_days cal (paris_date z occ) (-1)) @ ''T235959Z''
               else show_stamp cal (first_pass_of_a_repeated_hour z occ - secs 1))
    \<and> rule_parts old = [p \<leftarrow> rule_parts rrule. \<not> is_part p ''COUNT'' \<and> \<not> is_part p ''UNTIL''] @ [''UNTIL='' @ until]
    \<and> [p \<leftarrow> rule_parts old. is_part p ''UNTIL''] = [''UNTIL='' @ until] \<and> [p \<leftarrow> rule_parts old. is_part p ''COUNT''] = [])
    \<and> (case rr_count crate rule of
        None \<Rightarrow> continued_after crate rrule n = Inr rrule
      | Some count \<Rightarrow> \<exists>new. continued_after crate rrule n = Inr new \<and>
          rule_parts new = map (\<lambda>p. if is_part p ''COUNT'' then ''COUNT='' @ show_nat (count - n) else p) (rule_parts rrule))"
  using split_texts [OF assms] by blast

lemma split_rewrites_the_bound_witness:
  "\<exists>old. truncated_before demo_crate wide_calendar demo_zone ''FREQ=DAILY;COUNT=9'' True (10 * DAY) = Inr old \<and>
     rule_parts old = [''FREQ=DAILY'', ''UNTIL=00010101T235959Z'']"
proof -
  have "plain_texts wide_calendar" by (simp add: plain_texts_def wide_calendar_def)
  moreover have "parse_rule demo_crate ''FREQ=DAILY;COUNT=9'' = Inr None"
    by (simp add: parse_rule_def ascii_rule_def is_ascii_def demo_crate_def is_part_def eq_ignore_ascii_case_def
        ascii_lower_def Let_def trim_by_def ascii_ws_def)
  moreover have "[p \<leftarrow> rule_parts ''FREQ=DAILY;COUNT=9''. \<not> is_part p ''COUNT'' \<and> \<not> is_part p ''UNTIL''] = [''FREQ=DAILY'']"
    by code_simp
  ultimately show ?thesis
    using split_rewrites_the_bound [of wide_calendar demo_crate "''FREQ=DAILY;COUNT=9''" None demo_zone True "10 * DAY" 0]
    by (auto simp: wide_calendar_def)
qed

section \<open>Exclusions that follow a split\<close>

lemma exclusions_moved:
  assumes later: "\<And>sp. sp \<in> set spans \<Longrightarrow> occ \<le> fst sp"
    and z: "zone_ok z" "midnights_open z"
    and k: "k = paris_date z new - paris_date z occ"
    and range: "\<And>d. d \<in> insert day (paris_date z ` set exdates) \<Longrightarrow> min_date cal \<le> d + k \<and> d + k \<le> max_date cal"
    and since_occ: "paris_date z occ \<le> day"
  shows "without_excluded z (map (\<lambda>(s, e). (s + (new - occ), e + (new - occ))) spans) (carried_over cal z exdates False occ new) False
      = map (\<lambda>(s, e). (s + (new - occ), e + (new - occ))) (without_excluded z spans exdates False)"
    and "without_excluded z [(paris_start_of_day z (add_days cal day k), e')] (carried_over cal z exdates True occ new) True = []
      \<longleftrightarrow> without_excluded z [(paris_start_of_day z day, e)] exdates True = []"
proof -
  let ?mv = "\<lambda>(s, e). (s + (new - occ), e + (new - occ))"
  have c: "set (carried_over cal z exdates False occ new) = {t + (new - occ) | t. t \<in> set exdates \<and> occ \<le> t}"
    by (auto simp: carried_over_def Let_def)
  have keep: "without_excluded z sps ex False = filter (\<lambda>sp. fst sp \<notin> set ex) sps" for sps ex
    by (auto simp: without_excluded_def intro!: filter_cong)
  have "fst (?mv sp) \<notin> set (carried_over cal z exdates False occ new) \<longleftrightarrow> fst sp \<notin> set exdates" if "sp \<in> set spans" for sp
    using later [OF that] by (cases sp) (auto simp: c)
  then show "without_excluded z (map ?mv spans) (carried_over cal z exdates False occ new) False =
      map ?mv (without_excluded z spans exdates False)"
    unfolding keep filter_map by (intro arg_cong [of _ _ "map ?mv"] filter_cong) auto
  have in_range: "add_days cal d k = d + k" if "d \<in> insert day (paris_date z ` set exdates)" for d
    using range [OF that] by (simp add: add_days_def checked_days_def)
  have "carried_over cal z exdates True occ new =
      map (\<lambda>d. paris_start_of_day z (add_days cal d k)) (filter (\<lambda>d. paris_date z occ \<le> d) (map (paris_date z) exdates))"
    by (simp add: carried_over_def Let_def k)
  then have days: "paris_date z ` set (carried_over cal z exdates True occ new) =
      (\<lambda>d. d + k) ` {d \<in> paris_date z ` set exdates. paris_date z occ \<le> d}"
    using in_range by (force simp: start_of_day(3) [OF z] image_iff)
  show "without_excluded z [(paris_start_of_day z (add_days cal day k), e')] (carried_over cal z exdates True occ new) True = []
      \<longleftrightarrow> without_excluded z [(paris_start_of_day z day, e)] exdates True = []"
    using since_occ by (auto simp: without_excluded_single days start_of_day(3) [OF z] in_range)
qed

text \<open>
  What a split carries over excludes the same occurrences on the moved series: moving an
  hour-bound series and excluding the carried instants is excluding first and moving after, and
  an all-day occurrence is excluded on its new day exactly when it was on its old one.
\<close>

theorem exclusions_follow_the_split:
  assumes later: "\<And>sp. sp \<in> set spans \<Longrightarrow> occ \<le> fst sp"
    and z: "zone_ok z" "midnights_open z"
    and k: "k = paris_date z new - paris_date z occ"
    and range: "\<And>d. d \<in> insert day (paris_date z ` set exdates) \<Longrightarrow> min_date cal \<le> d + k \<and> d + k \<le> max_date cal"
    and since_occ: "paris_date z occ \<le> day"
  shows "without_excluded z (map (\<lambda>(s, e). (s + (new - occ), e + (new - occ))) spans) (carried_over cal z exdates False occ new) False
      = map (\<lambda>(s, e). (s + (new - occ), e + (new - occ))) (without_excluded z spans exdates False)
    \<and> (without_excluded z [(paris_start_of_day z (add_days cal day k), e')] (carried_over cal z exdates True occ new) True = []
      \<longleftrightarrow> without_excluded z [(paris_start_of_day z day, e)] exdates True = [])"
  using exclusions_moved [OF assms] by blast

lemma exclusions_follow_the_split_witness:
  "without_excluded demo_zone [(11 * DAY + 1, 11 * DAY + 2), (12 * DAY + 1, 12 * DAY + 2)]
     (carried_over wide_calendar demo_zone [11 * DAY] False (10 * DAY) (10 * DAY + 1)) False
   = [(12 * DAY + 1, 12 * DAY + 2)]"
proof -
  have d: "paris_date demo_zone (10 * DAY) = 10" "paris_date demo_zone (10 * DAY + 1) = 10" "paris_date demo_zone (11 * DAY) = 11"
    by (simp_all add: paris_date_def demo_defs)
  let ?spans = "[(11 * DAY, 11 * DAY + 1), (12 * DAY, 12 * DAY + 1)]"
  have l: "\<And>sp. sp \<in> set ?spans \<Longrightarrow> 10 * DAY \<le> fst sp" by (auto simp: DAY_def)
  have r: "\<And>t. t \<in> insert 10 (paris_date demo_zone ` set [11 * DAY]) \<Longrightarrow>
      min_date wide_calendar \<le> t + 0 \<and> t + 0 \<le> max_date wide_calendar"
    by (auto simp: d wide_calendar_def)
  have k: "0 = paris_date demo_zone (10 * DAY + 1) - paris_date demo_zone (10 * DAY)" by (simp add: d)
  have o: "paris_date demo_zone (10 * DAY) \<le> 10" by (simp add: d)
  have "without_excluded demo_zone ?spans [11 * DAY] False = [(12 * DAY, 12 * DAY + 1)]"
    by (simp add: without_excluded_def DAY_def)
  then show ?thesis
    using exclusions_follow_the_split [where spans = ?spans and exdates = "[11 * DAY]" and day = 10,
        OF l demo_zone_ok demo_midnights_open k r o, THEN conjunct1]
    by (simp only: list.map split_beta fst_conv snd_conv) (simp add: add.assoc)
qed

end
