(* ===== verification/Products.thy ===== *)
theory Products
  imports Paris
begin

text \<open>
  Reading a product: barcodes (\<open>apps/api/src/stocks/barcode.rs\<close>), GS1 two-dimensional codes
  (\<open>gs1.rs\<close>) and the expiry date a scan proposes (\<open>shelf_life.rs\<close>).

  A decoded text is a list of Unicode scalar values. Byte offsets agree with it where the code
  uses them: every slice it keeps is checked to be ASCII digits, and the one slice that is not
  (after a symbology identifier) is written out in bytes.
\<close>

section \<open>Barcodes\<close>

definition u_digit :: "nat \<Rightarrow> bool" where
  "u_digit c \<longleftrightarrow> 48 \<le> c \<and> c \<le> 57"

abbreviation all_digits :: "utext \<Rightarrow> bool" where
  "all_digits s \<equiv> list_all u_digit s"

definition check_weight :: "nat \<Rightarrow> nat" where
  "check_weight i = (if i mod 2 = 0 then 1 else 3)"

definition check_digit_holds :: "utext \<Rightarrow> bool" where
  "check_digit_holds code \<longleftrightarrow>
     sum_list (map (\<lambda>(i, b). (b - 48) * check_weight i) (enumerate 0 (rev code))) mod 10 = 0"

definition normalize_code :: "utext \<Rightarrow> utext option" where
  "normalize_code raw =
     (let digits = filter (\<lambda>c. \<not> is_whitespace c) raw
      in if digits = [] \<or> \<not> all_digits digits then None
         else let n = length digits in
           (if n = 8 \<or> n = 13 then (if check_digit_holds digits then Some digits else None)
            else if n = 12 then (if check_digit_holds (48 # digits) then Some (48 # digits) else None)
            else None))"

definition is_weighed :: "utext \<Rightarrow> bool" where
  "is_weighed code \<longleftrightarrow> length code = 13 \<and> (starts_with (chars ''2'') code \<or> starts_with (chars ''02'') code)"

section \<open>GS1 element strings\<close>

definition GS :: nat where
  "GS = 29"

record gs1_read =
  code :: utext
  expires_on :: "date option"

record gs1_fields =
  gtin :: "utext option"
  expiry :: "utext option"
  best_before :: "utext option"

definition no_fields :: gs1_fields where
  "no_fields = \<lparr>gtin = None, expiry = None, best_before = None\<rparr>"

definition or_insert :: "'x option \<Rightarrow> 'x \<Rightarrow> 'x option" where
  "or_insert slot v = (case slot of None \<Rightarrow> Some v | Some w \<Rightarrow> Some w)"

definition set_field :: "gs1_fields \<Rightarrow> utext \<Rightarrow> utext \<Rightarrow> gs1_fields" where
  "set_field f ai v =
     (if ai = chars ''01'' then f\<lparr>gtin := or_insert (gtin f) v\<rparr>
      else if ai = chars ''17'' then f\<lparr>expiry := or_insert (expiry f) v\<rparr>
      else if ai = chars ''15'' then f\<lparr>best_before := or_insert (best_before f) v\<rparr>
      else f)"

definition predefined_length :: "utext \<Rightarrow> nat option" where
  "predefined_length p =
     (if p = chars ''00'' then Some 20
      else if p \<in> {chars ''01'', chars ''02'', chars ''03''} then Some 16
      else if p = chars ''04'' then Some 18
      else if p \<in> {chars ''11'', chars ''12'', chars ''13'', chars ''14'', chars ''15'', chars ''16'',
                   chars ''17'', chars ''18'', chars ''19''} then Some 8
      else if p = chars ''20'' then Some 4
      else if p \<in> {chars ''31'', chars ''32'', chars ''33'', chars ''34'', chars ''35'', chars ''36''} then Some 10
      else if p = chars ''41'' then Some 16
      else None)"

definition next_element :: "utext \<Rightarrow> utext option" where
  "next_element rest =
     (case predefined_length (take 2 rest) of
        Some len \<Rightarrow> if len \<le> length rest \<and> all_digits (take len rest) then Some (take len rest) else None
      | None \<Rightarrow> Some (takeWhile (\<lambda>c. c \<noteq> GS) rest))"

lemma next_element_long:
  assumes "next_element rest = Some e" "2 \<le> length rest" "all_digits (take 2 rest)"
  shows "2 \<le> length e"
proof (cases "predefined_length (take 2 rest)")
  case None
  obtain a b s where r: "rest = a # b # s" using assms(2) by (cases rest; cases "tl rest") auto
  then have "a \<noteq> GS" "b \<noteq> GS" using assms(3) by (auto simp: u_digit_def GS_def)
  then show ?thesis using assms(1) None by (auto simp: next_element_def r)
next
  case (Some len)
  moreover have "4 \<le> len" using Some by (auto simp: predefined_length_def split: if_splits)
  ultimately show ?thesis using assms(1) by (auto simp: next_element_def split: if_splits)
qed

text \<open>The loop of \<open>element_string\<close>.\<close>

function elements :: "utext \<Rightarrow> gs1_fields \<Rightarrow> gs1_fields option" where
  "elements raw found =
     (let rest = dropWhile (\<lambda>c. c = GS) raw
      in if rest = [] then Some found
         else if \<not> (2 \<le> length rest \<and> all_digits (take 2 rest)) then None
         else (case next_element rest of
                 None \<Rightarrow> None
               | Some element \<Rightarrow>
                   elements (drop (length element) rest) (set_field found (take 2 rest) (drop 2 element))))"
  by pat_completeness auto

termination
proof (relation "measure (\<lambda>(raw, found). length raw)")
  fix raw found rest element
  assume "rest = dropWhile (\<lambda>c. c = GS) raw" "rest \<noteq> []"
    "\<not> \<not> (2 \<le> length rest \<and> all_digits (take 2 rest))" "next_element rest = Some element"
  then have "2 \<le> length element" "length rest \<le> length raw" "rest \<noteq> []"
    using next_element_long length_dropWhile_le by auto
  then show "((drop (length element) rest, set_field found (take 2 rest) (drop 2 element)), raw, found)
      \<in> measure (\<lambda>(raw, found). length raw)"
    by (cases rest) auto
qed simp

declare elements.simps [simp del]

text \<open>\<open>s.get(n..)\<close>: the rest of the text from byte \<open>n\<close>, when \<open>n\<close> is the start of a character.\<close>

definition utf8_len :: "nat \<Rightarrow> nat" where
  "utf8_len c = (if c < 128 then 1 else if c < 2048 then 2 else if c < 65536 then 3 else 4)"

fun get_from :: "nat \<Rightarrow> utext \<Rightarrow> utext option" where
  "get_from n [] = (if n = 0 then Some [] else None)"
| "get_from n (c # cs) = (if n = 0 then Some (c # cs) else if utf8_len c \<le> n then get_from (n - utf8_len c) cs else None)"

definition element_string :: "utext \<Rightarrow> gs1_fields option" where
  "element_string raw =
     (case (case strip_prefix (chars '']'') raw of
              Some identified \<Rightarrow> get_from 2 identified
            | None \<Rightarrow> Some raw) of
        None \<Rightarrow> None
      | Some rest \<Rightarrow> elements rest no_fields)"

section \<open>GS1 Digital Link\<close>

definition u_lower :: "nat \<Rightarrow> nat" where
  "u_lower c = (if 65 \<le> c \<and> c \<le> 90 then c + 32 else c)"

definition u_eq_ignore_case :: "utext \<Rightarrow> utext \<Rightarrow> bool" where
  "u_eq_ignore_case a b \<longleftrightarrow> map u_lower a = map u_lower b"

definition is_url :: "utext \<Rightarrow> bool" where
  "is_url raw =
     (case split_once_on (chars ''://'') raw of
        Some (scheme, _) \<Rightarrow> u_eq_ignore_case scheme (chars ''http'') \<or> u_eq_ignore_case scheme (chars ''https'')
      | None \<Rightarrow> False)"

definition is_gtin :: "utext \<Rightarrow> bool" where
  "is_gtin segment \<longleftrightarrow> length segment \<in> {8, 12, 13, 14} \<and> all_digits segment \<and> check_digit_holds segment"

definition pad14 :: "utext \<Rightarrow> utext" where
  "pad14 s = replicate (14 - length s) 48 @ s"

fun set_pairs :: "utext list \<Rightarrow> gs1_fields \<Rightarrow> gs1_fields" where
  "set_pairs [] f = f"
| "set_pairs (p # ps) f =
     set_pairs ps (case split_once (of_char (CHR ''='')) p of Some (key, val) \<Rightarrow> set_field f key val | None \<Rightarrow> f)"

definition link_gtin :: "utext list \<Rightarrow> utext option" where
  "link_gtin segments =
     map_option snd (find (\<lambda>(a, b). a = chars ''01'' \<and> is_gtin b) (rev (zip segments (tl segments))))"

definition digital_link :: "utext \<Rightarrow> gs1_fields option" where
  "digital_link raw =
     (let raw = takeWhile (\<lambda>c. c \<noteq> of_char (CHR ''#'')) raw;
          (path, query) = (case split_once (of_char (CHR ''?'')) raw of Some pq \<Rightarrow> pq | None \<Rightarrow> (raw, []))
      in case split_once_on (chars ''://'') path of
           None \<Rightarrow> None
         | Some (_, after_scheme) \<Rightarrow>
             (case link_gtin (drop 1 (split_on (of_char (CHR ''/'')) after_scheme)) of
                None \<Rightarrow> None
              | Some g \<Rightarrow>
                  Some (set_pairs (split_on (of_char (CHR ''&'')) query) (set_field no_fields (chars ''01'') (pad14 g)))))"

section \<open>The date and the product code\<close>

definition two_digits :: "utext \<Rightarrow> nat \<Rightarrow> nat" where
  "two_digits s at = (s ! at - 48) * 10 + (s ! Suc at - 48)"

definition gs1_year :: "int \<Rightarrow> nat \<Rightarrow> int" where
  "gs1_year this_year yy =
     (let current = this_year mod 100;
          century = this_year - current;
          ahead = int yy - current
      in int yy + (if 51 \<le> ahead then century - 100 else if ahead \<le> - 50 then century + 100 else century))"

definition gs1_date :: "calendar \<Rightarrow> utext \<Rightarrow> date \<Rightarrow> date option" where
  "gs1_date cal yymmdd today =
     (if length yymmdd \<noteq> 6 \<or> \<not> all_digits yymmdd then None
      else let yy = two_digits yymmdd 0; month = two_digits yymmdd 2; dd = two_digits yymmdd 4;
               year = gs1_year (year_of cal today) yy
           in if dd = 0 then
                (if \<not> (1 \<le> month \<and> month \<le> 12) then None
                 else let (year, month) = (if month = 12 then (year + 1, 1) else (year, month + 1))
                      in case from_ymd cal year month 1 of
                           None \<Rightarrow> None
                         | Some first \<Rightarrow> checked_days cal first (- 1))
              else from_ymd cal year month dd)"

definition gtin_to_code :: "utext \<Rightarrow> utext option" where
  "gtin_to_code g =
     (if length g \<noteq> 14 \<or> \<not> all_digits g then None
      else case strip_prefix (chars ''0'') g of
             None \<Rightarrow> None
           | Some thirteen \<Rightarrow>
               (case strip_prefix (chars ''00000'') thirteen of
                  Some eight \<Rightarrow> normalize_code eight
                | None \<Rightarrow> normalize_code thirteen))"

fun first_date :: "calendar \<Rightarrow> date \<Rightarrow> utext option list \<Rightarrow> date option" where
  "first_date cal today [] = None"
| "first_date cal today (f # fs) =
     (case f of
        None \<Rightarrow> first_date cal today fs
      | Some d \<Rightarrow> (case gs1_date cal d today of Some e \<Rightarrow> Some e | None \<Rightarrow> first_date cal today fs))"

definition read_gs1 :: "calendar \<Rightarrow> utext \<Rightarrow> date \<Rightarrow> gs1_read option" where
  "read_gs1 cal raw today =
     (let raw = trim_text raw
      in case (if is_url raw then digital_link raw else element_string raw) of
           None \<Rightarrow> None
         | Some found \<Rightarrow>
             (case gtin found of
                None \<Rightarrow> None
              | Some g \<Rightarrow>
                  (case gtin_to_code g of
                     None \<Rightarrow> None
                   | Some c \<Rightarrow> Some \<lparr>code = c, expires_on = first_date cal today [expiry found, best_before found]\<rparr>)))"

section \<open>Shelf lives\<close>

record shelf_row =
  row_tag :: string
  row_days :: nat
  row_label :: string

definition row :: "string \<Rightarrow> nat \<Rightarrow> string \<Rightarrow> shelf_row" where
  "row tag days label = \<lparr>row_tag = tag, row_days = days, row_label = label\<rparr>"

record shelf_life =
  shelf_days :: nat
  shelf_label :: string

definition SHELF_LIVES :: "shelf_row list" where
  "SHELF_LIVES = [
     row ''en:frozen-foods'' 180 (''Surgel'' @ [CHR 0xC3, CHR 0xA9] @ ''s''),
     row ''en:semi-preserved-foods'' 21 ''Semi-conserves'',
     row ''en:canned-foods'' 730 ''Conserves'',
     row ''en:ground-meats'' 1 (''Viandes hach'' @ [CHR 0xC3, CHR 0xA9] @ ''es''),
     row ''en:poultries'' 2 ''Volailles'',
     row ''en:fresh-meats'' 3 (''Viandes fra'' @ [CHR 0xC3, CHR 0xAE] @ ''ches''),
     row ''en:hams'' 5 ''Jambons'',
     row ''en:smoked-fishes'' 10 (''Poissons fum'' @ [CHR 0xC3, CHR 0xA9] @ ''s''),
     row ''en:fishes'' 2 ''Poissons'',
     row ''en:yogurts'' 21 ''Yaourts'',
     row ''en:fresh-cheeses'' 10 (''Fromages '' @ [CHR 0xC3, CHR 0xA0] @ '' p'' @ [CHR 0xC3, CHR 0xA2] @ ''te fra'' @ [CHR 0xC3, CHR 0xAE] @ ''che''),
     row ''en:burrata'' 5 ''Burrata'',
     row ''en:mozzarella'' 10 ''Mozzarella'',
     row ''en:ricotta'' 10 ''Ricotta'',
     row ''en:mascarpone'' 10 ''Mascarpone'',
     row ''en:cheeses'' 21 ''Fromages'',
     row ''en:uht-milks'' 60 ''Laits UHT'',
     row ''en:butters'' 30 ''Beurres'',
     row ''en:eggs'' 21 ([CHR 0xC5, CHR 0x92] @ ''ufs''),
     row ''en:breads'' 3 ''Pains'',
     row ''en:dry-pastas'' 365 (''P'' @ [CHR 0xC3, CHR 0xA2] @ ''tes s'' @ [CHR 0xC3, CHR 0xA8] @ ''ches''),
     row ''en:rices'' 365 ''Riz'',
     row ''en:breakfast-cereals'' 180 (''C'' @ [CHR 0xC3, CHR 0xA9] @ ''r'' @ [CHR 0xC3, CHR 0xA9] @ ''ales pour petit-d'' @ [CHR 0xC3, CHR 0xA9] @ ''jeuner''),
     row ''en:biscuits'' 90 ''Biscuits'',
     row ''en:chocolates'' 180 ''Chocolats'']"

definition default_shelf_life :: "string list \<Rightarrow> shelf_life option" where
  "default_shelf_life categories_tags =
     map_option (\<lambda>r. \<lparr>shelf_days = row_days r, shelf_label = row_label r\<rparr>)
       (find (\<lambda>r. list_ex (\<lambda>tag. tag = row_tag r) categories_tags) SHELF_LIVES)"

datatype expires_on_source = Gs1 | Category

record proposed =
  proposed_on :: date
  source :: expires_on_source
  category :: "string option"

definition proposed_expiry :: "calendar \<Rightarrow> date option \<Rightarrow> string list \<Rightarrow> date \<Rightarrow> proposed option" where
  "proposed_expiry cal gs1 categories_tags today =
     (case gs1 of
        Some d \<Rightarrow> Some \<lparr>proposed_on = d, source = Gs1, category = None\<rparr>
      | None \<Rightarrow>
          (case default_shelf_life categories_tags of
             None \<Rightarrow> None
           | Some life \<Rightarrow>
               (case checked_days cal today (int (shelf_days life)) of
                  None \<Rightarrow> None
                | Some d \<Rightarrow> Some \<lparr>proposed_on = d, source = Category, category = Some (shelf_label life)\<rparr>)))"

section \<open>The check digit\<close>

definition weighted :: "nat \<Rightarrow> utext \<Rightarrow> nat" where
  "weighted n xs = sum_list (map (\<lambda>(i, b). (b - 48) * check_weight i) (enumerate n xs))"

lemma weighted_simps [simp]:
  "weighted n [] = 0"
  "weighted n (x # xs) = (x - 48) * check_weight n + weighted (Suc n) xs"
  by (simp_all add: weighted_def)

lemma weighted_update:
  "i < length xs \<Longrightarrow>
   weighted n (xs[i := v]) + (xs ! i - 48) * check_weight (n + i) = weighted n xs + (v - 48) * check_weight (n + i)"
proof (induction xs arbitrary: n i)
  case (Cons x xs)
  then show ?case using Cons.IH [of "i - 1" "Suc n"] by (cases i) auto
qed simp

lemma check_holds_weighted: "check_digit_holds c \<longleftrightarrow> weighted 0 (rev c) mod 10 = 0"
  by (simp add: check_digit_holds_def weighted_def)

lemma one_digit_off:
  fixes x y s :: nat
  assumes "x < 10" "y < 10" "x \<noteq> y" "w \<in> {1, 3}" "s mod 10 = 0" "s' + x * w = s + y * w"
  shows "s' mod 10 \<noteq> 0"
proof
  assume s': "s' mod 10 = 0"
  have "(s' + x * w) mod 10 = (x * w) mod 10" using s' by (metis mod_add_left_eq add_0)
  moreover have "(s + y * w) mod 10 = (y * w) mod 10" using assms(5) by (metis mod_add_left_eq add_0)
  ultimately have e: "(x * w) mod 10 = (y * w) mod 10" using assms(6) by simp
  have "x \<in> {0, 1, 2, 3, 4, 5, 6, 7, 8, 9}" "y \<in> {0, 1, 2, 3, 4, 5, 6, 7, 8, 9}"
    using assms(1,2) by auto
  with e assms(3,4) show False by auto
qed

lemma check_digit_update:
  assumes c: "check_digit_holds c" and i: "i < length c" and d: "u_digit d" "u_digit (c ! i)" "d \<noteq> c ! i"
  shows "\<not> check_digit_holds (c[i := d])"
proof -
  let ?j = "length c - Suc i"
  have j: "?j < length (rev c)" "rev c ! ?j = c ! i" "rev (c[i := d]) = (rev c)[?j := d]"
    using i by (simp_all add: rev_nth rev_update)
  have "weighted 0 ((rev c)[?j := d]) mod 10 \<noteq> 0"
  proof (rule one_digit_off)
    show "c ! i - 48 < 10" "d - 48 < 10" "c ! i - 48 \<noteq> d - 48" using d by (auto simp: u_digit_def)
    show "check_weight ?j \<in> {1, 3}" by (simp add: check_weight_def)
    show "weighted 0 (rev c) mod 10 = 0" using c by (simp add: check_holds_weighted)
    show "weighted 0 ((rev c)[?j := d]) + (c ! i - 48) * check_weight ?j = weighted 0 (rev c) + (d - 48) * check_weight ?j"
      using weighted_update [OF j(1), of 0 d] j(2) by simp
  qed
  then show ?thesis by (simp add: check_holds_weighted j(3))
qed

lemma digit_not_space: "u_digit c \<Longrightarrow> \<not> is_whitespace c"
  by (auto simp: u_digit_def is_whitespace_def)

lemma no_space_id: "all_digits s \<Longrightarrow> filter (\<lambda>c. \<not> is_whitespace c) s = s"
  by (auto simp: filter_id_conv list_all_iff digit_not_space)

lemma normalize_shape:
  "normalize_code raw = Some c \<Longrightarrow> (length c = 8 \<or> length c = 13) \<and> all_digits c \<and> check_digit_holds c"
  by (auto simp: normalize_code_def Let_def u_digit_def split: if_splits)

lemma normalize_of_code:
  assumes "length c = 8 \<or> length c = 13" "all_digits c"
  shows "normalize_code c = (if check_digit_holds c then Some c else None)"
  using assms by (auto simp: normalize_code_def no_space_id Let_def)

text \<open>
  A normalized code is its own normal form -- eight or thirteen digits, check digit included
  -- and a rescan under either form of a UPC-A finds the same code. A code with exactly one wrong
  digit is refused, wherever the digit is.
\<close>

theorem one_wrong_digit_refused:
  assumes n: "normalize_code raw = Some c"
  shows "normalize_code c = Some c \<and> (length c = 8 \<or> length c = 13) \<and> all_digits c
    \<and> (\<forall>upc. length c = 13 \<longrightarrow> c = 48 # upc \<longrightarrow> normalize_code upc = Some c)
    \<and> (\<forall>i < length c. \<forall>d. u_digit d \<longrightarrow> d \<noteq> c ! i \<longrightarrow> normalize_code (c[i := d]) = None)"
proof -
  have shape: "length c = 8 \<or> length c = 13" "all_digits c" "check_digit_holds c"
    using normalize_shape [OF n] by auto
  have "normalize_code upc = Some c" if "length c = 13" "c = 48 # upc" for upc
  proof -
    have "length upc = 12" "all_digits upc" using that shape(2) by auto
    then show ?thesis using shape(3) that(2) by (auto simp: normalize_code_def no_space_id Let_def)
  qed
  moreover have "normalize_code (c[i := d]) = None" if i: "i < length c" and d: "u_digit d" "d \<noteq> c ! i" for i d
  proof -
    have "u_digit (c ! i)" using shape(2) i by (simp add: list_all_length)
    then have "\<not> check_digit_holds (c[i := d])" using check_digit_update [OF shape(3) i d(1)] d(2) by blast
    moreover have "all_digits (c[i := d])"
      using shape(2) d(1) i by (simp add: list_all_length nth_list_update)
    ultimately show ?thesis using shape(1) by (simp add: normalize_of_code)
  qed
  moreover have "normalize_code c = Some c" using normalize_of_code [OF shape(1,2)] shape(3) by simp
  ultimately show ?thesis using shape by blast
qed

lemma one_wrong_digit_refused_witness:
  "normalize_code (chars ''3017620422003'') = Some (chars ''3017620422003'')
   \<and> normalize_code ((chars ''3017620422003'')[4 := 50]) = None"
proof -
  have n: "normalize_code (chars ''3 017620 422003'') = Some (chars ''3017620422003'')"
    by (simp add: normalize_code_def is_whitespace_def u_digit_def check_digit_holds_def check_weight_def Let_def)
  have "4 < length (chars ''3017620422003'')" "u_digit 50" "50 \<noteq> chars ''3017620422003'' ! 4"
    by (simp_all add: u_digit_def)
  with one_wrong_digit_refused [OF n] show ?thesis by blast
qed

section \<open>Decoding an element string\<close>

type_synonym gs1_element = "utext \<times> utext"

definition element_ok :: "gs1_element \<Rightarrow> bool" where
  "element_ok = (\<lambda>(ai, d). length ai = 2 \<and> all_digits ai \<and>
     (case predefined_length ai of
        Some len \<Rightarrow> length d + 2 = len \<and> all_digits d
      | None \<Rightarrow> GS \<notin> set d))"

text \<open>A label writes an FNC1 after the elements whose length is not predefined.\<close>

definition encode_element :: "gs1_element \<Rightarrow> utext" where
  "encode_element = (\<lambda>(ai, d). ai @ d @ (if predefined_length ai = None then [GS] else []))"

fun collect :: "gs1_element list \<Rightarrow> gs1_fields \<Rightarrow> gs1_fields" where
  "collect [] f = f"
| "collect ((ai, d) # es) f = collect es (set_field f ai d)"

lemma elements_end [simp]: "elements [] f = Some f"
  by (simp add: elements.simps)

lemma elements_sep: "elements (GS # s) f = elements s f"
  by (subst elements.simps, subst (2) elements.simps) (simp add: Let_def)

lemma takeWhile_sep: "GS \<notin> set d \<Longrightarrow> takeWhile (\<lambda>c. c \<noteq> GS) (d @ GS # s) = d"
  by (induction d) auto

lemma get_from_0 [simp]: "get_from 0 s = Some s"
  by (cases s) auto

lemma elements_step:
  assumes ok: "element_ok (ai, d)"
  shows "elements (encode_element (ai, d) @ s) f = elements s (set_field f ai d)"
proof -
  have ai: "length ai = 2" "all_digits ai" using ok by (auto simp: element_ok_def)
  obtain a b where ab: "ai = [a, b]" "a \<noteq> GS" "b \<noteq> GS"
    using ai by (auto simp: length_Suc_conv numeral_2_eq_2 u_digit_def GS_def)
  have skip: "dropWhile (\<lambda>c. c = GS) (ai @ t) = ai @ t" for t by (simp add: ab)
  show ?thesis
  proof (cases "predefined_length ai")
    case (Some len)
    then have d: "length d + 2 = len" "all_digits d" using ok by (auto simp: element_ok_def)
    have "next_element (ai @ d @ s) = Some (ai @ d)"
      using Some ai d by (auto simp: next_element_def)
    then show ?thesis
      using ai Some by (subst elements.simps) (simp add: encode_element_def skip Let_def ab)
  next
    case None
    then have d: "GS \<notin> set d" using ok by (simp add: element_ok_def)
    have "takeWhile (\<lambda>c. c \<noteq> GS) (ai @ d @ GS # s) = ai @ d"
      using ab d by (simp add: takeWhile_sep)
    then have "next_element (ai @ d @ GS # s) = Some (ai @ d)"
      using None ai by (simp add: next_element_def)
    then have "elements (ai @ d @ GS # s) f = elements (GS # s) (set_field f ai d)"
      using ai by (subst elements.simps) (simp add: skip Let_def ab)
    then show ?thesis using None by (simp add: encode_element_def elements_sep)
  qed
qed

lemma elements_encoded:
  "\<forall>e \<in> set es. element_ok e \<Longrightarrow> elements (concat (map encode_element es)) f = Some (collect es f)"
proof (induction es arbitrary: f)
  case (Cons e es)
  obtain ai d where e: "e = (ai, d)" by force
  with Cons show ?case by (simp add: elements_step)
qed simp

lemma collect_field:
  "gtin (collect es f) = (case gtin f of Some v \<Rightarrow> Some v | None \<Rightarrow> map_of es (chars ''01''))"
  "expiry (collect es f) = (case expiry f of Some v \<Rightarrow> Some v | None \<Rightarrow> map_of es (chars ''17''))"
  "best_before (collect es f) = (case best_before f of Some v \<Rightarrow> Some v | None \<Rightarrow> map_of es (chars ''15''))"
  by (induction es f rule: collect.induct) (auto simp: set_field_def or_insert_def split: option.splits)

text \<open>
  A GS1 label reads back as what was printed: whatever elements it holds, in any order and
  however many others stand before them, with or without a symbology identifier and a leading
  FNC1, the fields found are the first value of each identifier the code reads.
\<close>

theorem label_reads_back:
  assumes "\<forall>e \<in> set es. element_ok e" and "start \<in> {[], [GS], chars '']d2'', chars '']Q3'' @ [GS], chars '']C1''}"
  shows "element_string (start @ concat (map encode_element es)) =
    Some \<lparr>gtin = map_of es (chars ''01''), expiry = map_of es (chars ''17''), best_before = map_of es (chars ''15'')\<rparr>"
proof -
  let ?s = "concat (map encode_element es)"
  have "elements ?s no_fields = Some (collect es no_fields)" by (rule elements_encoded [OF assms(1)])
  moreover have "collect es no_fields =
      \<lparr>gtin = map_of es (chars ''01''), expiry = map_of es (chars ''17''), best_before = map_of es (chars ''15'')\<rparr>"
    using collect_field [of es no_fields] by (cases "collect es no_fields") (simp add: no_fields_def)
  ultimately have read: "elements ?s no_fields =
      Some \<lparr>gtin = map_of es (chars ''01''), expiry = map_of es (chars ''17''), best_before = map_of es (chars ''15'')\<rparr>"
    by simp
  have plain: "strip_prefix (chars '']'') ?s = None"
  proof (cases es)
    case (Cons e es')
    obtain ai d where e: "e = (ai, d)" by force
    with Cons assms(1) obtain a b where "ai = [a, b]" "u_digit a"
      by (auto simp: element_ok_def length_Suc_conv numeral_2_eq_2)
    then show ?thesis by (auto simp: Cons e strip_prefix_def starts_with_def encode_element_def u_digit_def)
  qed (simp add: strip_prefix_def starts_with_def)
  consider "start = []" | "start = [GS]" | "start = chars '']d2''" | "start = chars '']Q3'' @ [GS]" | "start = chars '']C1''"
    using assms(2) by auto
  then show ?thesis
  proof cases
    case 1
    then show ?thesis using plain read by (simp add: element_string_def)
  next
    case 2
    have "strip_prefix (chars '']'') (GS # ?s) = None" by (simp add: strip_prefix_def starts_with_def GS_def)
    with 2 read show ?thesis by (simp add: element_string_def elements_sep)
  next
    case 3
    then show ?thesis using read by (simp add: element_string_def strip_prefix_def starts_with_def utf8_len_def)
  next
    case 4
    then show ?thesis
      using read by (simp add: element_string_def strip_prefix_def starts_with_def utf8_len_def elements_sep)
  next
    case 5
    then show ?thesis using read by (simp add: element_string_def strip_prefix_def starts_with_def utf8_len_def)
  qed
qed

lemma label_reads_back_witness:
  "element_string (chars '']d2'' @ chars ''10LOT'' @ [GS] @ chars ''0103017620422004'' @ chars ''17260930'') =
     Some \<lparr>gtin = Some (chars ''03017620422004''), expiry = Some (chars ''260930''), best_before = None\<rparr>"
proof -
  let ?es = "[(chars ''10'', chars ''LOT''), (chars ''01'', chars ''03017620422004''), (chars ''17'', chars ''260930'')]"
  have "\<forall>e \<in> set ?es. element_ok e" by (simp add: element_ok_def predefined_length_def u_digit_def GS_def)
  moreover have "concat (map encode_element ?es) = chars ''10LOT'' @ [GS] @ chars ''0103017620422004'' @ chars ''17260930''"
    by (simp add: encode_element_def predefined_length_def)
  ultimately show ?thesis using label_reads_back [of ?es "chars '']d2''"] by simp
qed

section \<open>Dates\<close>

lemma gs1_year_window:
  assumes "yy < 100"
  shows "gs1_year y yy mod 100 = int yy" "y - 49 \<le> gs1_year y yy" "gs1_year y yy \<le> y + 50"
proof -
  have y: "y = y div 100 * 100 + y mod 100" by simp
  have c: "0 \<le> y mod 100" "y mod 100 < 100" by simp_all
  define q where "q = y div 100"
  define r where "r = y mod 100"
  have yq: "y = q * 100 + r" and r: "0 \<le> r" "r < 100" using y c by (simp_all add: q_def r_def)
  have g: "gs1_year y yy = int yy + (if 51 \<le> int yy - r then (q - 1) * 100
      else if int yy - r \<le> - 50 then (q + 1) * 100 else q * 100)"
    unfolding gs1_year_def Let_def r_def [symmetric] using yq by auto
  have "\<exists>k. gs1_year y yy = int yy + k * 100" unfolding g
    by (simp only: add_left_cancel split: if_split) blast
  then obtain k where k: "gs1_year y yy = int yy + k * 100" by blast
  show "gs1_year y yy mod 100 = int yy" unfolding k using assms by simp
  show "y - 49 \<le> gs1_year y yy" "gs1_year y yy \<le> y + 50"
    unfolding g using yq r assms by (auto simp: algebra_simps)
qed

text \<open>
  The date of a label is the one printed on it, in the century GS1's sliding window gives:
  the year ends in the two digits printed and lies between 49 years back and 50 ahead of today's;
  a day 00 is the day before the first of the next month; anything but six digits, or a date
  that does not exist, is refused.
\<close>

theorem label_date_in_window:
  assumes "gs1_date cal s today = Some d"
  shows "length s = 6 \<and> all_digits s
    \<and> (\<exists>year. year mod 100 = int (two_digits s 0) \<and> year_of cal today - 49 \<le> year \<and> year \<le> year_of cal today + 50
       \<and> (if two_digits s 4 = 0
          then 1 \<le> two_digits s 2 \<and> two_digits s 2 \<le> 12 \<and>
            from_ymd cal (if two_digits s 2 = 12 then year + 1 else year)
              (if two_digits s 2 = 12 then 1 else two_digits s 2 + 1) 1 = Some (d + 1)
          else from_ymd cal year (two_digits s 2) (two_digits s 4) = Some d))"
proof -
  have s: "length s = 6" "all_digits s" using assms by (auto simp: gs1_date_def split: if_splits)
  then have "u_digit (s ! 0)" "u_digit (s ! 1)" by (auto simp: list_all_length)
  then have yy: "two_digits s 0 < 100" by (auto simp: two_digits_def u_digit_def)
  let ?y = "gs1_year (year_of cal today) (two_digits s 0)"
  have "if two_digits s 4 = 0
      then 1 \<le> two_digits s 2 \<and> two_digits s 2 \<le> 12 \<and>
        from_ymd cal (if two_digits s 2 = 12 then ?y + 1 else ?y)
          (if two_digits s 2 = 12 then 1 else two_digits s 2 + 1) 1 = Some (d + 1)
      else from_ymd cal ?y (two_digits s 2) (two_digits s 4) = Some d"
    using assms s
    by (auto simp: gs1_date_def Let_def checked_days_def split: if_splits option.splits)
  then show ?thesis using s gs1_year_window [OF yy, of "year_of cal today"] by blast
qed

lemma label_date_in_window_witness:
  "\<exists>year. year mod 100 = 1 \<and> year_of wide_calendar 0 - 49 \<le> year \<and> from_ymd wide_calendar year 1 15 = Some 14"
proof -
  have d: "gs1_date wide_calendar (chars ''010115'') 0 = Some 14"
    by (simp add: gs1_date_def u_digit_def two_digits_def gs1_year_def wide_calendar_def Let_def)
  have t: "two_digits (chars ''010115'') 0 = 1" "two_digits (chars ''010115'') 2 = 1" "two_digits (chars ''010115'') 4 = 15"
    by (simp_all add: two_digits_def)
  show ?thesis using label_date_in_window [OF d] unfolding t by auto
qed

section \<open>One product, two codes\<close>

lemma check_zero_prefix: "check_digit_holds (48 # c) \<longleftrightarrow> check_digit_holds c"
proof -
  have "weighted n (xs @ [48]) = weighted n xs" for n xs by (induction xs arbitrary: n) auto
  then show ?thesis by (simp add: check_holds_weighted)
qed

lemma gtin_of_code:
  assumes n: "normalize_code raw = Some c" and e: "length c = 13 \<Longrightarrow> take 5 c \<noteq> replicate 5 48"
  shows "gtin_to_code (pad14 c) = Some c"
proof -
  have shape: "length c = 8 \<or> length c = 13" "all_digits c" "check_digit_holds c"
    using normalize_shape [OF n] by auto
  have c: "normalize_code c = Some c" using normalize_of_code [OF shape(1,2)] shape(3) by simp
  have pad: "length (pad14 c) = 14" "all_digits (pad14 c)"
    using shape by (auto simp: pad14_def list_all_iff u_digit_def)
  from shape(1) show ?thesis
  proof
    assume "length c = 8"
    then have "pad14 c = 48 # 48 # 48 # 48 # 48 # 48 # c" by (simp add: pad14_def numeral_eq_Suc)
    then show ?thesis using pad c by (simp add: gtin_to_code_def strip_prefix_def starts_with_def)
  next
    assume l: "length c = 13"
    then have "pad14 c = 48 # c" by (simp add: pad14_def)
    then show ?thesis using pad c e [OF l] by (simp add: gtin_to_code_def strip_prefix_def starts_with_def numeral_eq_Suc)
  qed
qed

lemma digits_not_url: "all_digits s \<Longrightarrow> \<not> is_url s"
proof -
  assume d: "all_digits s"
  have "split_once_on (chars ''://'') s = None"
    using d by (induction s) (auto simp: u_digit_def)
  then show ?thesis by (simp add: is_url_def)
qed

lemma digits_trim: "all_digits s \<Longrightarrow> trim_text s = s"
proof (rule trim_by_id)
  assume d: "all_digits s"
  show "s = [] \<or> (\<not> is_whitespace (hd s) \<and> \<not> is_whitespace (last s))"
    using d hd_in_set [of s] last_in_set [of s] by (auto simp: list_all_iff digit_not_space)
qed

text \<open>
  A product scanned by its EAN and by its GS1 code is the same product: the label whose GTIN
  is a normalized code padded to fourteen digits reads as that very code, with no date. (An
  EAN-13 that begins with five zeros is a padded EAN-8, and reads as the EAN-8.)
\<close>

theorem scan_paths_agree:
  assumes n: "normalize_code raw = Some c" and e: "length c = 13 \<Longrightarrow> take 5 c \<noteq> replicate 5 48"
  shows "gtin_to_code (pad14 c) = Some c
    \<and> read_gs1 cal (chars ''01'' @ pad14 c) today = Some \<lparr>code = c, expires_on = None\<rparr>"
proof -
  have g: "gtin_to_code (pad14 c) = Some c" by (rule gtin_of_code [OF n e])
  have "length c \<le> 14" "all_digits c" using normalize_shape [OF n] by auto
  then have pad: "length (pad14 c) = 14" "all_digits (pad14 c)"
    by (auto simp: pad14_def list_all_iff u_digit_def)
  have d: "all_digits (chars ''01'' @ pad14 c)" using pad by (simp add: u_digit_def)
  have ok: "element_ok (chars ''01'', pad14 c)"
    using pad by (simp add: element_ok_def predefined_length_def u_digit_def)
  have "element_string (chars ''01'' @ pad14 c) = Some \<lparr>gtin = Some (pad14 c), expiry = None, best_before = None\<rparr>"
    using elements_step [OF ok, of "[]" no_fields]
    by (simp add: element_string_def strip_prefix_def starts_with_def encode_element_def predefined_length_def
        set_field_def no_fields_def or_insert_def)
  then show ?thesis
    using g digits_not_url [OF d] digits_trim [OF d] by (simp add: read_gs1_def Let_def)
qed

lemma scan_paths_agree_witness:
  "read_gs1 wide_calendar (chars ''01'' @ pad14 (chars ''3017620422003'')) 0 =
     Some \<lparr>code = chars ''3017620422003'', expires_on = None\<rparr>"
proof -
  have n: "normalize_code (chars ''3017620422003'') = Some (chars ''3017620422003'')"
    by (simp add: normalize_code_def is_whitespace_def u_digit_def check_digit_holds_def check_weight_def Let_def)
  have "take 5 (chars ''3017620422003'') \<noteq> replicate 5 48" by (simp add: numeral_eq_Suc)
  with scan_paths_agree [OF n] show ?thesis by blast
qed

section \<open>The proposed date\<close>

lemma find_first:
  "find P xs = Some x \<Longrightarrow> \<exists>i < length xs. xs ! i = x \<and> P x \<and> (\<forall>j < i. \<not> P (xs ! j))"
  by (auto simp: find_Some_iff)

lemma shelf_days_bounds: "list_all (\<lambda>r. 1 \<le> row_days r \<and> row_days r \<le> 730) SHELF_LIVES"
  by (simp add: SHELF_LIVES_def row_def)

lemma shelf_tags_distinct: "distinct (map row_tag SHELF_LIVES)"
  by (simp add: SHELF_LIVES_def row_def)

text \<open>
  The date a scan proposes is the code's own when it carries one; else it counts, from the
  day of the scan, the shelf life of the first row of the table whose tag the product carries --
  no earlier row has one, whatever the order of the product's tags -- and says which; else, with
  no row, there is none. A shelf life is between a day and two years.
\<close>

theorem proposed_date_priority:
  assumes "proposed_expiry cal label_date tags today = Some p"
  shows "case label_date of
      Some d \<Rightarrow> p = \<lparr>proposed_on = d, source = Gs1, category = None\<rparr>
    | None \<Rightarrow> \<exists>i < length SHELF_LIVES.
        row_tag (SHELF_LIVES ! i) \<in> set tags \<and> (\<forall>j < i. row_tag (SHELF_LIVES ! j) \<notin> set tags) \<and>
        p = \<lparr>proposed_on = today + int (row_days (SHELF_LIVES ! i)), source = Category,
             category = Some (row_label (SHELF_LIVES ! i))\<rparr> \<and>
        today + 1 \<le> proposed_on p \<and> proposed_on p \<le> today + 730"
proof (cases label_date)
  case None
  then obtain r where r: "find (\<lambda>r. list_ex (\<lambda>tag. tag = row_tag r) tags) SHELF_LIVES = Some r"
    and p: "p = \<lparr>proposed_on = today + int (row_days r), source = Category, category = Some (row_label r)\<rparr>"
    using assms by (auto simp: proposed_expiry_def default_shelf_life_def checked_days_def split: option.splits if_splits)
  have ex: "list_ex (\<lambda>tag. tag = t) tags \<longleftrightarrow> t \<in> set tags" for t by (auto simp: list_ex_iff)
  obtain i where i: "i < length SHELF_LIVES" "SHELF_LIVES ! i = r" "row_tag r \<in> set tags"
    "\<forall>j < i. row_tag (SHELF_LIVES ! j) \<notin> set tags"
    using find_first [OF r] unfolding ex by blast
  have "1 \<le> row_days r \<and> row_days r \<le> 730" using shelf_days_bounds i(1,2) by (auto simp: list_all_length)
  then show ?thesis unfolding None option.case using i p by (intro exI [of _ i]) simp
qed (use assms in \<open>simp add: proposed_expiry_def\<close>)

lemma proposed_date_priority_witness:
  "\<exists>i < length SHELF_LIVES. row_tag (SHELF_LIVES ! i) \<in> set [''en:fishes'', ''en:canned-foods''] \<and>
     row_days (SHELF_LIVES ! i) = 730"
proof -
  have p: "proposed_expiry wide_calendar None [''en:fishes'', ''en:canned-foods''] 0 =
      Some \<lparr>proposed_on = 730, source = Category, category = Some ''Conserves''\<rparr>"
    by (simp add: proposed_expiry_def default_shelf_life_def SHELF_LIVES_def row_def checked_days_def wide_calendar_def)
  from proposed_date_priority [OF p] show ?thesis by auto
qed

end
