(* ===== verification/Http_Guard.thy ===== *)
theory Http_Guard
  imports Prelude Strings
begin

text \<open>
  The guards both applications put in front of their handlers, \<open>apps/http_guard/src\<close>: the upload
  gate (\<open>gate.rs\<close>), the bounds on reading a body (\<open>limits.rs\<close>) and the cross-origin check
  (\<open>origin.rs\<close>).
\<close>

section \<open>The upload gate\<close>

definition GLOBAL_UPLOADS :: nat where
  "GLOBAL_UPLOADS = 8"

definition UPLOADS_PER_ACCOUNT :: nat where
  "UPLOADS_PER_ACCOUNT = 2"

datatype busy = Account | Process

definition take_slot :: "('k \<times> nat) list \<Rightarrow> 'k \<Rightarrow> nat \<Rightarrow> bool \<times> ('k \<times> nat) list" where
  "take_slot counts key limit =
     (let held = (case map_of counts key of Some n \<Rightarrow> n | None \<Rightarrow> 0)
      in if limit \<le> held then (False, counts) else (True, AList.update key (held + 1) counts))"

definition release_slot :: "('k \<times> nat) list \<Rightarrow> 'k \<Rightarrow> ('k \<times> nat) list" where
  "release_slot counts key =
     (case map_of counts key of
        Some held \<Rightarrow> if 1 < held then AList.update key (held - 1) counts else AList.delete key counts
      | None \<Rightarrow> counts)"

text \<open>
  The process-wide pool is \<open>tokio\<close>'s semaphore, a parameter: taking a permit without waiting,
  giving one back, and the permits available.
\<close>

record 's semaphore =
  new_semaphore :: "nat \<Rightarrow> 's"
  try_permit :: "'s \<Rightarrow> 's option"
  give_permit :: "'s \<Rightarrow> 's"
  available :: "'s \<Rightarrow> nat"

record ('k, 's) upload_gate =
  process_pool :: 's
  process_limit :: nat
  per_key_limit :: nat
  per_key :: "('k \<times> nat) list"

definition new_gate :: "'s semaphore \<Rightarrow> nat \<Rightarrow> nat \<Rightarrow> ('k, 's) upload_gate" where
  "new_gate sem limit per_account =
     \<lparr>process_pool = new_semaphore sem limit, process_limit = limit,
      per_key_limit = per_account, per_key = []\<rparr>"

definition production_gate :: "'s semaphore \<Rightarrow> ('k, 's) upload_gate" where
  "production_gate sem = new_gate sem GLOBAL_UPLOADS UPLOADS_PER_ACCOUNT"

text \<open>
  \<open>try_acquire\<close> takes the lock of the counts twice, with the semaphore between: its two halves.
\<close>

definition acquire_account :: "('k, 's) upload_gate \<Rightarrow> 'k \<Rightarrow> bool \<times> ('k, 's) upload_gate" where
  "acquire_account gate key =
     (let (ok, counts) = take_slot (per_key gate) key (per_key_limit gate)
      in (ok, gate\<lparr>per_key := counts\<rparr>))"

definition acquire_process :: "'s semaphore \<Rightarrow> ('k, 's) upload_gate \<Rightarrow> 'k \<Rightarrow> bool \<times> ('k, 's) upload_gate" where
  "acquire_process sem gate key =
     (case try_permit sem (process_pool gate) of
        Some pool \<Rightarrow> (True, gate\<lparr>process_pool := pool\<rparr>)
      | None \<Rightarrow> (False, gate\<lparr>per_key := release_slot (per_key gate) key\<rparr>))"

definition try_acquire :: "'s semaphore \<Rightarrow> ('k, 's) upload_gate \<Rightarrow> 'k \<Rightarrow> (busy + 'k) \<times> ('k, 's) upload_gate" where
  "try_acquire sem gate key =
     (let (ok, gate) = acquire_account gate key
      in if \<not> ok then (Inl Account, gate)
         else let (ok, gate) = acquire_process sem gate key
              in (if ok then Inr key else Inl Process, gate))"

text \<open>Dropping a permit: its \<open>Drop\<close> first, the semaphore's permit after it.\<close>

definition drop_account :: "('k, 's) upload_gate \<Rightarrow> 'k \<Rightarrow> ('k, 's) upload_gate" where
  "drop_account gate key = gate\<lparr>per_key := release_slot (per_key gate) key\<rparr>"

definition drop_process :: "'s semaphore \<Rightarrow> ('k, 's) upload_gate \<Rightarrow> ('k, 's) upload_gate" where
  "drop_process sem gate = gate\<lparr>process_pool := give_permit sem (process_pool gate)\<rparr>"

definition in_flight :: "'s semaphore \<Rightarrow> ('k, 's) upload_gate \<Rightarrow> nat" where
  "in_flight sem gate = process_limit gate - available sem (process_pool gate)"

text \<open>
  The requests of one process, interleaved anywhere between those critical sections: \<open>waiting\<close>
  have taken their account's slot, \<open>holding\<close> have a permit, \<open>returning\<close> have given back the
  account's slot and not yet the process's.
\<close>

record ('k, 's) uploads =
  gate :: "('k, 's) upload_gate"
  waiting :: "'k list"
  holding :: "'k list"
  returning :: nat

inductive upload_step :: "'s semaphore \<Rightarrow> ('k, 's) uploads \<Rightarrow> ('k, 's) uploads \<Rightarrow> bool" for sem where
  refused_account: "acquire_account (gate u) key = (False, g) \<Longrightarrow> upload_step sem u (u\<lparr>gate := g\<rparr>)"
| took_account: "acquire_account (gate u) key = (True, g) \<Longrightarrow>
    upload_step sem u (u\<lparr>gate := g, waiting := key # waiting u\<rparr>)"
| granted: "key \<in> set (waiting u) \<Longrightarrow> acquire_process sem (gate u) key = (True, g) \<Longrightarrow>
    upload_step sem u (u\<lparr>gate := g, waiting := remove1 key (waiting u), holding := key # holding u\<rparr>)"
| refused_process: "key \<in> set (waiting u) \<Longrightarrow> acquire_process sem (gate u) key = (False, g) \<Longrightarrow>
    upload_step sem u (u\<lparr>gate := g, waiting := remove1 key (waiting u)\<rparr>)"
| dropped: "key \<in> set (holding u) \<Longrightarrow>
    upload_step sem u (u\<lparr>gate := drop_account (gate u) key, holding := remove1 key (holding u),
                        returning := Suc (returning u)\<rparr>)"
| returned: "returning u = Suc n \<Longrightarrow>
    upload_step sem u (u\<lparr>gate := drop_process sem (gate u), returning := n\<rparr>)"

inductive uploads_reachable :: "'s semaphore \<Rightarrow> nat \<Rightarrow> nat \<Rightarrow> ('k, 's) uploads \<Rightarrow> bool"
  for sem limit per_account where
  start: "uploads_reachable sem limit per_account
    \<lparr>gate = new_gate sem limit per_account, waiting = [], holding = [], returning = 0\<rparr>"
| step: "uploads_reachable sem limit per_account u \<Longrightarrow> upload_step sem u u' \<Longrightarrow>
    uploads_reachable sem limit per_account u'"

text \<open>What the code relies on of the semaphore.\<close>

definition semaphore_ok :: "'s semaphore \<Rightarrow> bool" where
  "semaphore_ok sem \<longleftrightarrow>
     (\<forall>n. available sem (new_semaphore sem n) = n) \<and>
     (\<forall>s s'. try_permit sem s = Some s' \<longrightarrow> available sem s = Suc (available sem s')) \<and>
     (\<forall>s. try_permit sem s = None \<longrightarrow> available sem s = 0) \<and>
     (\<forall>s. available sem (give_permit sem s) = Suc (available sem s))"

definition held_slots :: "('k \<times> nat) list \<Rightarrow> 'k \<Rightarrow> nat" where
  "held_slots counts key = (case map_of counts key of Some n \<Rightarrow> n | None \<Rightarrow> 0)"

definition counts_ok :: "('k \<times> nat) list \<Rightarrow> bool" where
  "counts_ok counts \<longleftrightarrow> keys_distinct counts \<and> (\<forall>k n. map_of counts k = Some n \<longrightarrow> 0 < n)"

lemma take_slot_ok:
  assumes "counts_ok counts" "take_slot counts key limit = (ok, counts')"
  shows "counts_ok counts'" "ok \<longleftrightarrow> held_slots counts key < limit"
    "held_slots counts' k = held_slots counts k + (if ok \<and> k = key then 1 else 0)"
  using assms
  by (auto simp: take_slot_def Let_def counts_ok_def held_slots_def keys_distinct_update alist_simps
      simp del: map_of_eq_Some_iff split: if_splits option.splits)

lemma release_slot_ok:
  assumes "counts_ok counts"
  shows "counts_ok (release_slot counts key)"
    "held_slots (release_slot counts key) k = held_slots counts k - (if k = key then 1 else 0)"
  using assms
  by (auto simp: release_slot_def counts_ok_def held_slots_def keys_distinct_update keys_distinct_delete alist_simps
      simp del: map_of_eq_Some_iff split: if_splits option.splits)

definition uploads_inv :: "'s semaphore \<Rightarrow> nat \<Rightarrow> nat \<Rightarrow> ('k, 's) uploads \<Rightarrow> bool" where
  "uploads_inv sem limit per_account u \<longleftrightarrow>
     counts_ok (per_key (gate u)) \<and> process_limit (gate u) = limit \<and> per_key_limit (gate u) = per_account \<and>
     (\<forall>k. held_slots (per_key (gate u)) k = count_list (waiting u) k + count_list (holding u) k) \<and>
     (\<forall>k. held_slots (per_key (gate u)) k \<le> per_account) \<and>
     available sem (process_pool (gate u)) + length (holding u) + returning u = limit"

lemma count_list_remove1: "count_list (remove1 x xs) y = count_list xs y - (if x = y then 1 else 0)"
  by (induction xs) (auto simp: count_list_0_iff)

lemma count_list_pos: "x \<in> set xs \<Longrightarrow> 0 < count_list xs x"
  by (metis count_list_0_iff gr0I)

lemma uploads_inv_step:
  assumes sem: "semaphore_ok sem" and inv: "uploads_inv sem limit per_account u" and st: "upload_step sem u u'"
  shows "uploads_inv sem limit per_account u'"
  using st
proof (cases rule: upload_step.cases)
  case (refused_account key g)
  then have "g = gate u"
    by (auto simp: acquire_account_def take_slot_def Let_def split: if_splits)
  then show ?thesis using inv refused_account by simp
next
  case (took_account key g)
  obtain counts where t: "take_slot (per_key (gate u)) key (per_key_limit (gate u)) = (True, counts)"
    and g: "g = (gate u)\<lparr>per_key := counts\<rparr>"
    using took_account by (auto simp: acquire_account_def split: prod.splits)
  have ok: "counts_ok (per_key (gate u))" using inv by (simp add: uploads_inv_def)
  note s = take_slot_ok [OF ok t]
  show ?thesis unfolding took_account(1) uploads_inv_def
    using inv s by (auto simp: uploads_inv_def g)
next
  case (granted key g)
  then obtain pool where "try_permit sem (process_pool (gate u)) = Some pool" "g = (gate u)\<lparr>process_pool := pool\<rparr>"
    by (auto simp: acquire_process_def split: option.splits)
  with granted inv sem count_list_pos [of key "waiting u"] show ?thesis
    by (auto simp: uploads_inv_def semaphore_ok_def count_list_remove1)
next
  case (refused_process key g)
  then have g: "g = (gate u)\<lparr>per_key := release_slot (per_key (gate u)) key\<rparr>"
    by (auto simp: acquire_process_def split: option.splits)
  have "counts_ok (per_key (gate u))" using inv by (simp add: uploads_inv_def)
  note r = release_slot_ok [OF this]
  show ?thesis unfolding refused_process(1) uploads_inv_def
    using inv r count_list_pos [OF refused_process(2)]
    by (auto simp: uploads_inv_def g count_list_remove1 intro: order_trans [OF diff_le_self])
next
  case (dropped key)
  have "counts_ok (per_key (gate u))" using inv by (simp add: uploads_inv_def)
  note r = release_slot_ok [OF this]
  show ?thesis unfolding dropped(1) uploads_inv_def
    using inv r count_list_pos [OF dropped(2)] dropped(2) length_pos_if_in_set [OF dropped(2)]
    by (auto simp: uploads_inv_def drop_account_def count_list_remove1 length_remove1
        simp del: length_greater_0_conv intro: order_trans [OF diff_le_self])
next
  case (returned n)
  with inv sem show ?thesis by (auto simp: uploads_inv_def drop_process_def semaphore_ok_def)
qed

lemma uploads_inv_reachable:
  assumes "semaphore_ok sem" "uploads_reachable sem limit per_account u"
  shows "uploads_inv sem limit per_account u"
  using assms(2)
proof (induction rule: uploads_reachable.induct)
  case start
  then show ?case
    using assms(1) by (simp add: uploads_inv_def new_gate_def counts_ok_def held_slots_def semaphore_ok_def)
next
  case (step u u')
  then show ?case using uploads_inv_step [OF assms(1)] by blast
qed

text \<open>
  C12. However requests interleave, the gate holds its two limits and leaks nothing: at most
  \<open>process_limit\<close> uploads hold a permit, at most \<open>per_key_limit\<close> of one account hold or await
  one, the pool counts exactly the permits out, and once every upload is over both are as new. A
  refused account does not touch the pool.
\<close>

theorem gate_limits_hold:
  assumes "semaphore_ok sem" and "uploads_reachable sem limit per_account u"
  shows "length (holding u) \<le> limit
    \<and> (\<forall>key. count_list (waiting u) key + count_list (holding u) key \<le> per_account)
    \<and> in_flight sem (gate u) = length (holding u) + returning u
    \<and> (\<forall>key. (\<exists>g. try_acquire sem (gate u) key = (Inl Account, g)) \<longleftrightarrow>
         count_list (waiting u) key + count_list (holding u) key = per_account)
    \<and> (\<forall>key g. try_acquire sem (gate u) key = (Inl Account, g) \<longrightarrow> g = gate u)
    \<and> (waiting u = [] \<and> holding u = [] \<and> returning u = 0 \<longrightarrow>
         per_key (gate u) = [] \<and> available sem (process_pool (gate u)) = limit)"
proof -
  have inv: "uploads_inv sem limit per_account u" by (rule uploads_inv_reachable [OF assms])
  then have ok: "counts_ok (per_key (gate u))"
    and held: "\<And>k. held_slots (per_key (gate u)) k = count_list (waiting u) k + count_list (holding u) k"
    and bound: "\<And>k. held_slots (per_key (gate u)) k \<le> per_account"
    and pool: "available sem (process_pool (gate u)) + length (holding u) + returning u = limit"
    and lims: "process_limit (gate u) = limit" "per_key_limit (gate u) = per_account"
    unfolding uploads_inv_def by blast+
  have refused: "(\<exists>g. try_acquire sem (gate u) key = (Inl Account, g)) \<longleftrightarrow> held_slots (per_key (gate u)) key = per_account"
    and same: "try_acquire sem (gate u) key = (Inl Account, g) \<Longrightarrow> g = gate u" for key g
    using bound [of key] lims(2)
    by (auto simp: try_acquire_def acquire_account_def take_slot_def held_slots_def Let_def
        split: prod.splits if_splits option.splits)
  have "per_key (gate u) = []" if "waiting u = []" "holding u = []"
  proof (rule ccontr)
    assume "per_key (gate u) \<noteq> []"
    then obtain k n rest where "per_key (gate u) = (k, n) # rest"
      by (metis list.exhaust surj_pair)
    then have "map_of (per_key (gate u)) k = Some n" by simp
    then have "0 < held_slots (per_key (gate u)) k" using ok by (auto simp: counts_ok_def held_slots_def)
    with held [of k] that show False by simp
  qed
  moreover have "in_flight sem (gate u) = length (holding u) + returning u"
    using pool lims by (simp add: in_flight_def)
  ultimately show ?thesis using held bound pool refused same by auto
qed

definition nat_semaphore :: "nat semaphore" where
  "nat_semaphore = \<lparr>new_semaphore = id, try_permit = (\<lambda>n. if n = 0 then None else Some (n - 1)),
     give_permit = Suc, available = id\<rparr>"

lemma nat_semaphore_ok: "semaphore_ok nat_semaphore"
  by (auto simp: semaphore_ok_def nat_semaphore_def split: if_splits)

lemma gate_limits_hold_witness:
  "\<exists>u :: (nat, nat) uploads. holding u = [7] \<and> in_flight nat_semaphore (gate u) = 1 \<and>
     count_list (waiting u) 7 + count_list (holding u) 7 \<le> 2"
proof -
  let ?u0 = "\<lparr>gate = new_gate nat_semaphore 8 2, waiting = [], holding = [], returning = 0\<rparr> :: (nat, nat) uploads"
  let ?g1 = "(new_gate nat_semaphore 8 2)\<lparr>per_key := [(7, 1)]\<rparr> :: (nat, nat) upload_gate"
  let ?u1 = "?u0\<lparr>gate := ?g1, waiting := 7 # waiting ?u0\<rparr>"
  let ?g2 = "?g1\<lparr>process_pool := 7\<rparr>"
  let ?u2 = "?u1\<lparr>gate := ?g2, waiting := remove1 7 (waiting ?u1), holding := 7 # holding ?u1\<rparr>"
  have "uploads_reachable nat_semaphore 8 2 ?u0" by (rule uploads_reachable.start)
  moreover have "upload_step nat_semaphore ?u0 ?u1"
    by (rule took_account) (simp add: acquire_account_def take_slot_def new_gate_def)
  moreover have "upload_step nat_semaphore ?u1 ?u2"
    by (rule granted) (simp_all add: acquire_process_def new_gate_def nat_semaphore_def)
  ultimately have r: "uploads_reachable nat_semaphore 8 2 ?u2" by (meson uploads_reachable.step)
  have "holding ?u2 = [7]" "returning ?u2 = 0" by simp_all
  with gate_limits_hold [OF nat_semaphore_ok r] show ?thesis by (intro exI [of _ ?u2]) auto
qed

section \<open>Bounds on reading a body\<close>

text \<open>Durations in nanoseconds.\<close>

record body_read_limits =
  idle :: nat
  min_bytes_per_sec :: nat
  grace :: nat
  total :: nat

definition nanos :: "nat \<Rightarrow> nat" where
  "nanos n = n * 1000000000"

definition PRODUCTION :: body_read_limits where
  "PRODUCTION = \<lparr>idle = nanos 30, min_bytes_per_sec = 1000, grace = nanos 10, total = nanos (15 * 60)\<rparr>"

definition MAX_UPLOAD_BODY_BYTES :: nat where
  "MAX_UPLOAD_BODY_BYTES = 20 * 1024 * 1024 + 64 * 1024"

datatype breach = Idle | TooSlow | Total

datatype verdict = Within nat | Breached breach

definition covered_ns :: "body_read_limits \<Rightarrow> nat \<Rightarrow> nat" where
  "covered_ns limits received = received * 1000000000 div max (min_bytes_per_sec limits) 1"

definition judge :: "body_read_limits \<Rightarrow> nat \<Rightarrow> nat \<Rightarrow> nat \<Rightarrow> verdict" where
  "judge limits elapsed idle_for received =
     (if total limits \<le> elapsed then Breached Total
      else if idle limits \<le> idle_for then Breached Idle
      else let covered = covered_ns limits received in
        if grace limits \<le> elapsed \<and> covered < elapsed then Breached TooSlow
        else let rate_deadline = max (if covered + 1 < 2 ^ 64 then covered + 1 else 2 ^ 64 - 1) (grace limits);
                 idle_deadline = elapsed - min idle_for elapsed + idle limits
             in Within (min (min (total limits) idle_deadline) rate_deadline))"

lemma covered_exact:
  "covered_ns limits received < elapsed \<longleftrightarrow> received * 1000000000 < elapsed * max (min_bytes_per_sec limits) 1"
proof -
  have "0 < max (min_bytes_per_sec limits) 1" by simp
  then show ?thesis by (simp add: covered_ns_def less_mult_imp_div_less div_less_iff_less_mult)
qed

text \<open>
  The judgement of a body holds until the instant it names and not beyond: while no byte
  arrives the verdict stays within bounds, with the same deadline, up to \<open>recheck_at\<close>, and at
  \<open>recheck_at\<close> a bound is broken -- so the wrapper that sleeps until then neither misses a breach
  nor wakes for nothing. And a body is too slow exactly when its average rate, computed without
  rounding, is below the minimum once the grace has passed.
\<close>

theorem verdict_until_recheck:
  assumes now: "judge limits elapsed idle_for received = Within recheck" and i: "idle_for \<le> elapsed"
    and t: "total limits < 2 ^ 64"
  shows "elapsed < recheck
    \<and> (\<forall>later. elapsed + later < recheck \<longrightarrow> judge limits (elapsed + later) (idle_for + later) received = Within recheck)
    \<and> (\<exists>b. judge limits recheck (idle_for + (recheck - elapsed)) received = Breached b)
    \<and> (\<forall>e w. judge limits e w received = Breached TooSlow \<longleftrightarrow>
         e < total limits \<and> w < idle limits \<and> grace limits \<le> e \<and>
         received * 1000000000 < e * max (min_bytes_per_sec limits) 1)"
proof -
  define c where "c = covered_ns limits received"
  define rd where "rd = max (if c + 1 < 2 ^ 64 then c + 1 else 2 ^ 64 - 1) (grace limits)"
  define id where "id = elapsed - idle_for + idle limits"
  have ok: "elapsed < total limits" "idle_for < idle limits" "\<not> (grace limits \<le> elapsed \<and> c < elapsed)"
    and r: "recheck = min (min (total limits) id) rd"
    using now i by (auto simp: judge_def c_def rd_def id_def Let_def split: if_splits)
  have "elapsed < rd" using ok t unfolding rd_def by auto
  moreover have "elapsed < id" using ok i by (simp add: id_def)
  ultimately have lt: "elapsed < recheck" using ok r by simp
  have again: "judge limits (elapsed + k) (idle_for + k) received = Within recheck" if "elapsed + k < recheck" for k
  proof -
    have "elapsed + k < total limits" "elapsed + k < id" "elapsed + k < rd" using that r by simp_all
    moreover have "\<not> (grace limits \<le> elapsed + k \<and> c < elapsed + k)"
      using \<open>elapsed + k < rd\<close> by (auto simp: rd_def split: if_splits)
    moreover have "elapsed + k - min (idle_for + k) (elapsed + k) + idle limits = id" using i by (simp add: id_def)
    moreover have "idle_for + k < idle limits" using \<open>elapsed + k < id\<close> i by (simp add: id_def)
    ultimately show ?thesis unfolding judge_def Let_def c_def [symmetric] rd_def [symmetric] r by simp
  qed
  have "\<exists>b. judge limits recheck (idle_for + (recheck - elapsed)) received = Breached b"
  proof (cases "recheck = total limits \<or> recheck = id")
    case True
    then show ?thesis using lt i by (auto simp: judge_def id_def Let_def)
  next
    case False
    then have "recheck = rd" "rd < total limits" using r by (auto simp: min_def split: if_splits)
    then have "grace limits \<le> recheck" "c < recheck" using t by (auto simp: rd_def split: if_splits)
    then show ?thesis by (simp add: judge_def Let_def c_def)
  qed
  moreover have "judge limits e w received = Breached TooSlow \<longleftrightarrow>
      e < total limits \<and> w < idle limits \<and> grace limits \<le> e \<and>
      received * 1000000000 < e * max (min_bytes_per_sec limits) 1" for e w
    by (auto simp: judge_def Let_def covered_exact)
  ultimately show ?thesis using lt again by blast
qed

lemma verdict_until_recheck_witness:
  "judge PRODUCTION (nanos 12) (nanos 1) 20000 = Within (nanos 20 + 1)
   \<and> judge PRODUCTION (nanos 20) (nanos 9) 20000 = Within (nanos 20 + 1)"
proof -
  have j: "judge PRODUCTION (nanos 12) (nanos 1) 20000 = Within (nanos 20 + 1)"
    by (simp add: judge_def PRODUCTION_def nanos_def covered_ns_def)
  have i: "nanos 1 \<le> nanos 12" "total PRODUCTION < 2 ^ 64" by (simp_all add: nanos_def PRODUCTION_def)
  have "nanos 12 + nanos 8 < nanos 20 + 1" "nanos 12 + nanos 8 = nanos 20" "nanos 1 + nanos 8 = nanos 9"
    by (simp_all add: nanos_def)
  with verdict_until_recheck [OF j i] j show ?thesis by metis
qed

section \<open>Cross-origin requests\<close>

datatype cross_origin = Allow | Refuse

datatype http_method = GET | HEAD | OPTIONS | Other string

text \<open>
  A header map: the values of each name in order, names in lower case. \<open>HeaderValue::to_str\<close>
  (visible ASCII or an error) is a parameter.
\<close>

type_synonym headers = "(string \<times> string) list"
type_synonym text_of = "string \<Rightarrow> string option"

definition SEC_FETCH_SITE :: string where
  "SEC_FETCH_SITE = ''sec-fetch-site''"

definition get_all :: "headers \<Rightarrow> string \<Rightarrow> string list" where
  "get_all hs name = map snd (filter (\<lambda>(n, v). n = name) hs)"

text \<open>The closure \<open>text\<close>: a header that is not valid text is present and matches nothing.\<close>

definition header_text :: "text_of \<Rightarrow> headers \<Rightarrow> string \<Rightarrow> string option" where
  "header_text to_str hs name =
     (case get_all hs name of
        [] \<Rightarrow> None
      | v # _ \<Rightarrow> Some (case to_str v of Some s \<Rightarrow> s | None \<Rightarrow> []))"

definition is_websocket_upgrade :: "text_of \<Rightarrow> headers \<Rightarrow> bool" where
  "is_websocket_upgrade to_str hs =
     list_ex (\<lambda>token. eq_ignore_ascii_case (ascii_trim token) ''websocket'')
       (concat (map (split_on (CHR '','')) (List.map_filter to_str (get_all hs ''upgrade''))))"

definition judge_origin :: "text_of \<Rightarrow> http_method \<Rightarrow> headers \<Rightarrow> string option \<Rightarrow> cross_origin" where
  "judge_origin to_str http_method hs trusted_origin =
     (let safe = (http_method = GET \<or> http_method = HEAD \<or> http_method = OPTIONS)
      in if safe \<and> \<not> is_websocket_upgrade to_str hs then Allow
         else if list_ex (\<lambda>name. 2 \<le> length (get_all hs name)) [''origin'', SEC_FETCH_SITE] then Refuse
         else let origin = header_text to_str hs ''origin''
              in if (case (origin, trusted_origin) of
                       (Some o', Some trusted) \<Rightarrow> eq_ignore_ascii_case o' trusted
                     | _ \<Rightarrow> False) then Allow
                 else (case header_text to_str hs SEC_FETCH_SITE of
                         Some site \<Rightarrow> if site = ''same-origin'' \<or> site = ''none'' then Allow else Refuse
                       | None \<Rightarrow>
                           (case origin of
                              None \<Rightarrow> Allow
                            | Some o' \<Rightarrow>
                                (case (map_option snd (split_once_on ''://'' o'), header_text to_str hs ''host'') of
                                   (Some authority, Some host) \<Rightarrow>
                                     if host \<noteq> [] \<and> eq_ignore_ascii_case authority host then Allow else Refuse
                                 | _ \<Rightarrow> Refuse))))"

definition strip_string_suffix :: "string \<Rightarrow> string \<Rightarrow> string option" where
  "strip_string_suffix suffix s =
     (if length suffix \<le> length s \<and> drop (length s - length suffix) s = suffix
      then Some (take (length s - length suffix) s) else None)"

definition origin_of :: "string \<Rightarrow> string option" where
  "origin_of url =
     (case split_once_on ''://'' url of
        None \<Rightarrow> None
      | Some (scheme, rest) \<Rightarrow>
          let authority = takeWhile (\<lambda>c. c \<notin> {CHR ''/'', CHR ''?'', CHR ''#''}) rest
          in if scheme = [] \<or> authority = [] then None
             else let scheme = to_ascii_lowercase scheme;
                      authority = to_ascii_lowercase authority;
                      default_port = (if scheme = ''http'' then Some '':80''
                                      else if scheme = ''https'' then Some '':443'' else None);
                      authority = (case default_port of
                          Some port \<Rightarrow> (case strip_string_suffix port authority of Some host \<Rightarrow> host | None \<Rightarrow> authority)
                        | None \<Rightarrow> authority)
                  in Some (scheme @ ''://'' @ authority))"

lemma ascii_lower_idem [simp]: "ascii_lower (ascii_lower c) = ascii_lower c"
  by (simp add: ascii_lower_def Let_def)

lemma eq_ignore_case_lower: "eq_ignore_ascii_case (to_ascii_lowercase s) s"
  by (simp add: eq_ignore_ascii_case_def)

text \<open>
  No page but the application's own passes the guard with a browser. A request that can
  change something (or opens a socket) is let through only if it carries each of \<open>Origin\<close> and
  \<open>Sec-Fetch-Site\<close> at most once and: its origin is the trusted one; or the browser says it comes
  from the same origin or from no page; or there is no \<open>Sec-Fetch-Site\<close> and the origin's
  authority is the request's own non-empty \<open>Host\<close>; or it carries neither header, as no browser
  does. So what another site sends -- its own origin, \<open>cross-site\<close> or \<open>same-site\<close> -- is refused.
\<close>

theorem cross_origin_refused:
  assumes change: "http_method \<notin> {GET, HEAD, OPTIONS} \<or> is_websocket_upgrade to_str hs"
  shows "(judge_origin to_str http_method hs trusted = Allow \<longrightarrow>
       length (get_all hs ''origin'') \<le> 1 \<and> length (get_all hs SEC_FETCH_SITE) \<le> 1 \<and>
       ((\<exists>o' t. header_text to_str hs ''origin'' = Some o' \<and> trusted = Some t \<and> eq_ignore_ascii_case o' t) \<or>
        header_text to_str hs SEC_FETCH_SITE \<in> {Some ''same-origin'', Some ''none''} \<or>
        (header_text to_str hs SEC_FETCH_SITE = None \<and> header_text to_str hs ''origin'' = None) \<or>
        (\<exists>o' scheme authority. header_text to_str hs SEC_FETCH_SITE = None \<and> header_text to_str hs ''origin'' = Some o' \<and>
           split_once_on ''://'' o' = Some (scheme, authority) \<and> authority \<noteq> [] \<and>
           (\<exists>h. header_text to_str hs ''host'' = Some h \<and> eq_ignore_ascii_case authority h))))
    \<and> (\<forall>o' site. get_all hs ''origin'' = [o'] \<longrightarrow> to_str o' = Some o' \<longrightarrow>
         get_all hs SEC_FETCH_SITE = [site] \<longrightarrow> to_str site = Some site \<longrightarrow>
         (\<forall>t. trusted = Some t \<longrightarrow> \<not> eq_ignore_ascii_case o' t) \<longrightarrow> site \<notin> {''same-origin'', ''none''} \<longrightarrow>
         judge_origin to_str http_method hs trusted = Refuse)"
proof -
  have unsafe: "\<not> ((http_method = GET \<or> http_method = HEAD \<or> http_method = OPTIONS) \<and> \<not> is_websocket_upgrade to_str hs)"
    using change by blast
  have empty: "eq_ignore_ascii_case [] h \<longleftrightarrow> h = []" for h by (simp add: eq_ignore_ascii_case_def)
  show ?thesis
  proof (intro conjI allI impI)
    assume a: "judge_origin to_str http_method hs trusted = Allow"
    have "\<not> list_ex (\<lambda>name. 2 \<le> length (get_all hs name)) [''origin'', SEC_FETCH_SITE]"
      using a unsafe by (auto simp: judge_origin_def Let_def split: if_splits)
    then show "length (get_all hs ''origin'') \<le> 1" "length (get_all hs SEC_FETCH_SITE) \<le> 1" by auto
    show "(\<exists>o' t. header_text to_str hs ''origin'' = Some o' \<and> trusted = Some t \<and> eq_ignore_ascii_case o' t) \<or>
        header_text to_str hs SEC_FETCH_SITE \<in> {Some ''same-origin'', Some ''none''} \<or>
        (header_text to_str hs SEC_FETCH_SITE = None \<and> header_text to_str hs ''origin'' = None) \<or>
        (\<exists>o' scheme authority. header_text to_str hs SEC_FETCH_SITE = None \<and> header_text to_str hs ''origin'' = Some o' \<and>
           split_once_on ''://'' o' = Some (scheme, authority) \<and> authority \<noteq> [] \<and>
           (\<exists>h. header_text to_str hs ''host'' = Some h \<and> eq_ignore_ascii_case authority h))"
      using a unsafe empty
      by (cases "header_text to_str hs ''origin''"; cases "header_text to_str hs SEC_FETCH_SITE"; cases trusted)
         (auto simp: judge_origin_def Let_def split: if_splits option.splits)
  next
    fix o' site
    assume "get_all hs ''origin'' = [o']" "to_str o' = Some o'" "get_all hs SEC_FETCH_SITE = [site]"
      "to_str site = Some site" "\<forall>t. trusted = Some t \<longrightarrow> \<not> eq_ignore_ascii_case o' t" "site \<notin> {''same-origin'', ''none''}"
    then show "judge_origin to_str http_method hs trusted = Refuse"
      using unsafe by (cases trusted) (auto simp: judge_origin_def Let_def header_text_def)
  qed
qed

lemma cross_origin_refused_witness:
  "judge_origin Some (Other ''POST'')
     [(''host'', ''home.example''), (''origin'', ''https://evil.example''), (SEC_FETCH_SITE, ''cross-site'')]
     (Some ''https://home.example'') = Refuse"
proof -
  have c: "Other ''POST'' \<notin> {GET, HEAD, OPTIONS} \<or> P" for P by simp
  show ?thesis
    by (rule cross_origin_refused [OF c, THEN conjunct2, rule_format, where o' = "''https://evil.example''"
          and site = "''cross-site''"])
       (auto simp: get_all_def SEC_FETCH_SITE_def eq_ignore_ascii_case_def ascii_lower_def Let_def)
qed

end
