(* ===== verification/Push.thy ===== *)
theory Push
  imports Prelude Strings "HOL-Library.Multiset"
begin

text \<open>
  Web push, \<open>apps/api/src/notifications/push.rs\<close>: the endpoints accepted, what a push service's
  answer does to a device, and the pushes a device has pending, by which the service worker knows
  which text to show. The signature of a push (VAPID) and its sending are not modelled: they
  call third-party cryptography and the network.
\<close>

section \<open>Endpoints\<close>

definition EXACT_HOSTS :: "string list" where
  "EXACT_HOSTS = [''fcm.googleapis.com'', ''updates.push.services.mozilla.com'']"

definition HOST_SUFFIXES :: "string list" where
  "HOST_SUFFIXES = [''push.apple.com'', ''notify.windows.com'']"

definition MAX_ENDPOINT_LEN :: nat where
  "MAX_ENDPOINT_LEN = 1024"

datatype endpoint_error = TooLong | NotAUrl | NotHttps | UnexpectedPart | UnknownPushService

text \<open>What \<open>validate_endpoint\<close> reads of a parsed URL; the parser is a parameter.\<close>

record url =
  scheme :: string
  username :: string
  password :: "string option"
  port :: "nat option"
  domain :: "string option"
  host_str :: "string option"

definition host_known :: "string \<Rightarrow> bool" where
  "host_known host \<longleftrightarrow>
     host \<in> set EXACT_HOSTS \<or>
     list_ex (\<lambda>suffix. host = suffix \<or>
       (length suffix < length host \<and> drop (length host - length suffix) host = suffix \<and>
        host ! (length host - length suffix - 1) = CHR ''.'')) HOST_SUFFIXES"

definition validate_endpoint :: "(string \<Rightarrow> url option) \<Rightarrow> string \<Rightarrow> endpoint_error + url" where
  "validate_endpoint parse raw =
     (if MAX_ENDPOINT_LEN < length raw then Inl TooLong
      else case parse raw of
             None \<Rightarrow> Inl NotAUrl
           | Some u \<Rightarrow>
               if scheme u \<noteq> ''https'' then Inl NotHttps
               else if username u \<noteq> [] \<or> password u \<noteq> None \<or> port u \<noteq> None then Inl UnexpectedPart
               else (case domain u of
                       None \<Rightarrow> (case host_str u of Some _ \<Rightarrow> Inl UnexpectedPart | None \<Rightarrow> Inl NotAUrl)
                     | Some host \<Rightarrow> if host_known host then Inr u else Inl UnknownPushService))"

lemma validated_endpoint:
  "validate_endpoint parse raw = Inr u \<Longrightarrow>
     parse raw = Some u \<and> scheme u = ''https'' \<and> username u = [] \<and> password u = None \<and> port u = None \<and>
     (\<exists>host. domain u = Some host \<and> host_known host)"
  by (auto simp: validate_endpoint_def split: if_splits option.splits)

section \<open>The fate of a device\<close>

datatype push_outcome = Delivered | Gone | Failed string | Unanswered string

definition classify :: "nat \<Rightarrow> push_outcome" where
  "classify status =
     (if 200 \<le> status \<and> status \<le> 299 then Delivered
      else if status = 404 \<or> status = 410 then Gone
      else Failed (''push service answered '' @ show_nat status))"

definition MAX_CONSECUTIVE_FAILURES :: int where
  "MAX_CONSECUTIVE_FAILURES = 20"

definition MIN_FAILING_DAYS :: int where
  "MIN_FAILING_DAYS = 7"

definition I32_MAX :: int where
  "I32_MAX = 2147483647"

text \<open>The bookkeeping of a kept device: failures in a row, and the first of them.\<close>

datatype device_after = Forget | Keep int "instant option"

definition device_after :: "push_outcome \<Rightarrow> int \<Rightarrow> instant option \<Rightarrow> instant \<Rightarrow> device_after" where
  "device_after outcome consecutive_failures failing_since now =
     (case outcome of
        Delivered \<Rightarrow> Keep 0 None
      | Gone \<Rightarrow> Forget
      | _ \<Rightarrow>
          let failures = min (consecutive_failures + 1) I32_MAX;
              first_at = (case failing_since of Some t \<Rightarrow> t | None \<Rightarrow> now)
          in if MAX_CONSECUTIVE_FAILURES \<le> failures \<and> days_dur MIN_FAILING_DAYS \<le> now - first_at
             then Forget else Keep failures (Some first_at))"

definition MIN_TTL_SECS :: int where
  "MIN_TTL_SECS = 60"

definition MAX_TTL_SECS :: int where
  "MAX_TTL_SECS = 4 * 7 * 24 * 3600"

text \<open>\<open>Duration::num_seconds\<close> truncates towards zero.\<close>

definition num_seconds :: "duration \<Rightarrow> int" where
  "num_seconds d = (if 0 \<le> d then d div 1000000 else - ((- d) div 1000000))"

definition ttl_secs :: "instant \<Rightarrow> instant \<Rightarrow> int" where
  "ttl_secs now occurrence_at = max MIN_TTL_SECS (min MAX_TTL_SECS (num_seconds (occurrence_at - now)))"

lemma ttl_bounds: "60 \<le> ttl_secs now at" "ttl_secs now at \<le> 2419200"
  by (auto simp: ttl_secs_def MIN_TTL_SECS_def MAX_TTL_SECS_def)

text \<open>A device under a sequence of outcomes, each at its time.\<close>

fun device_run :: "(push_outcome \<times> instant) list \<Rightarrow> int \<Rightarrow> instant option \<Rightarrow> device_after" where
  "device_run [] n first_at = Keep n first_at"
| "device_run ((out, now) # es) n first_at =
     (case device_after out n first_at now of
        Forget \<Rightarrow> Forget
      | Keep n' first_at' \<Rightarrow> device_run es n' first_at')"

definition is_failure :: "push_outcome \<times> instant \<Rightarrow> bool" where
  "is_failure e \<longleftrightarrow> fst e \<noteq> Delivered \<and> fst e \<noteq> Gone"

definition streak :: "(push_outcome \<times> instant) list \<Rightarrow> (push_outcome \<times> instant) list" where
  "streak es = rev (takeWhile is_failure (rev es))"

lemma streak_snoc: "streak (es @ [e]) = (if is_failure e then streak es @ [e] else [])"
  by (simp add: streak_def)

lemma device_run_snoc:
  "device_run (es @ [(out, now)]) n first_at =
     (case device_run es n first_at of
        Forget \<Rightarrow> Forget
      | Keep n' first_at' \<Rightarrow> device_after out n' first_at' now)"
  by (induction es arbitrary: n first_at) (auto split: device_after.splits)

lemma device_books:
  assumes "device_run es 0 None = Keep n first_at" and "int (length es) < I32_MAX"
  shows "n = int (length (streak es)) \<and>
    first_at = (case streak es of [] \<Rightarrow> None | e # _ \<Rightarrow> Some (snd e))"
  using assms
proof (induction es arbitrary: n first_at rule: rev_induct)
  case Nil
  then show ?case by (simp add: streak_def)
next
  case (snoc e es)
  obtain out now where e: "e = (out, now)" by force
  obtain n' first_at' where k: "device_run es 0 None = Keep n' first_at'"
    and a: "device_after out n' first_at' now = Keep n first_at"
    using snoc.prems(1) by (auto simp: e device_run_snoc split: device_after.splits)
  have IH: "n' = int (length (streak es))" "first_at' = (case streak es of [] \<Rightarrow> None | e # _ \<Rightarrow> Some (snd e))"
    using snoc.IH [OF k] snoc.prems(2) by auto
  have "length (streak es) \<le> length es" by (simp add: streak_def) (metis length_rev length_takeWhile_le)
  then have "n' + 1 \<le> I32_MAX" using IH(1) snoc.prems(2) by simp
  then show ?case
    using a IH
    by (cases out; cases "streak es")
       (auto simp: device_after_def Let_def e streak_snoc is_failure_def split: if_splits)
qed

text \<open>
  A device is forgotten for one of two reasons only: its push service answered that it is
  gone, or the pushes since its last delivery all failed, at least twenty of them, the first at
  least seven days before the last. A delivery anywhere in between starts the count afresh.
\<close>

theorem forgotten_for_cause:
  assumes kept: "device_run es 0 None = Keep n first_at" and len: "int (length es) < I32_MAX"
  shows "device_run (es @ [(out, now)]) 0 None = Forget \<longleftrightarrow>
    out = Gone \<or>
    (is_failure (out, now) \<and> 20 \<le> length (streak (es @ [(out, now)])) \<and>
     (\<exists>first rest. streak (es @ [(out, now)]) = first # rest \<and> snd first + days_dur 7 \<le> now))"
proof -
  have b: "n = int (length (streak es))" "first_at = (case streak es of [] \<Rightarrow> None | e # _ \<Rightarrow> Some (snd e))"
    using device_books [OF assms] by auto
  have "length (streak es) \<le> length es" by (simp add: streak_def) (metis length_rev length_takeWhile_le)
  then have m: "min (n + 1) I32_MAX = n + 1" using b(1) len by simp
  have "0 < days_dur 7" by (simp add: days_dur_def secs_def)
  then show ?thesis
    using b m
    by (cases out; cases "streak es")
       (auto simp: device_run_snoc kept device_after_def Let_def streak_snoc is_failure_def
          MAX_CONSECUTIVE_FAILURES_def MIN_FAILING_DAYS_def split: if_splits)
qed

lemma forgotten_for_cause_witness:
  "device_run ([(Delivered, 0), (Failed [], 1)] @ [(Gone, 2)]) 0 None = Forget
   \<and> device_run ([(Delivered, 0)] @ [(Failed [], 1)]) 0 None \<noteq> Forget"
proof
  have k: "device_run [(Delivered, 0), (Failed [], 1)] 0 None = Keep 1 (Some 1)"
    by (simp add: device_after_def I32_MAX_def MAX_CONSECUTIVE_FAILURES_def)
  show "device_run ([(Delivered, 0), (Failed [], 1)] @ [(Gone, 2)]) 0 None = Forget"
    using forgotten_for_cause [OF k, of Gone 2] by (simp only: I32_MAX_def) simp
  have k': "device_run [(Delivered, 0)] 0 None = Keep 0 None" by (simp add: device_after_def)
  show "device_run ([(Delivered, 0)] @ [(Failed [], 1)]) 0 None \<noteq> Forget"
    using forgotten_for_cause [OF k', of "Failed []" 1] by (simp add: I32_MAX_def streak_def is_failure_def)
qed

section \<open>Pending pushes\<close>

datatype push_kind = AgendaReminder | BudgetAlert | StockExpiry

fun push_kind_str :: "push_kind \<Rightarrow> string" where
  "push_kind_str AgendaReminder = ''agenda_reminder''"
| "push_kind_str BudgetAlert = ''budget_alert''"
| "push_kind_str StockExpiry = ''stock_expiry''"

definition parse_kind :: "string \<Rightarrow> push_kind option" where
  "parse_kind raw = find (\<lambda>k. push_kind_str k = raw) [AgendaReminder, BudgetAlert, StockExpiry]"

datatype pending_kind = Only push_kind | Mixed

fun pending_kind_str :: "pending_kind \<Rightarrow> string" where
  "pending_kind_str (Only k) = push_kind_str k"
| "pending_kind_str Mixed = ''mixed''"

definition parse_pending_kind :: "string \<Rightarrow> pending_kind option" where
  "parse_pending_kind raw = (if raw = ''mixed'' then Some Mixed else map_option Only (parse_kind raw))"

record pending =
  p_kind :: "pending_kind option"
  p_count :: int
  p_until :: "instant option"

definition nothing_pending :: pending where
  "nothing_pending = \<lparr>p_kind = None, p_count = 0, p_until = None\<rparr>"

definition from_columns :: "string option \<Rightarrow> int \<Rightarrow> instant option \<Rightarrow> pending" where
  "from_columns kind cnt until =
     (if cnt \<le> 0 then nothing_pending
      else \<lparr>p_kind = Some (case kind of
                Some raw \<Rightarrow> (case parse_pending_kind raw of Some k \<Rightarrow> k | None \<Rightarrow> Mixed)
              | None \<Rightarrow> Mixed),
            p_count = cnt, p_until = until\<rparr>)"

definition live :: "pending \<Rightarrow> instant \<Rightarrow> bool" where
  "live p now \<longleftrightarrow> 0 < p_count p \<and> (case p_until p of Some until \<Rightarrow> now < until | None \<Rightarrow> False)"

definition pending_after_push :: "pending \<Rightarrow> push_kind \<Rightarrow> instant \<Rightarrow> int \<Rightarrow> pending" where
  "pending_after_push p kind now ttl =
     (let until = now + secs ttl
      in if \<not> live p now then \<lparr>p_kind = Some (Only kind), p_count = 1, p_until = Some until\<rparr>
         else \<lparr>p_kind = Some (if p_kind p = Some (Only kind) then Only kind else Mixed),
               p_count = min (p_count p + 1) I32_MAX,
               p_until = max (p_until p) (Some until)\<rparr>)"

definition pending_after_failure :: "pending \<Rightarrow> pending" where
  "pending_after_failure p =
     (let cnt = max (p_count p - 1) 0
      in if cnt = 0 then nothing_pending else p\<lparr>p_count := cnt\<rparr>)"

definition pending_after_unanswered :: "pending \<Rightarrow> pending" where
  "pending_after_unanswered p = (if p_count p \<le> 0 then nothing_pending else p\<lparr>p_kind := Some Mixed\<rparr>)"

definition pending_on_receipt :: "pending \<Rightarrow> instant \<Rightarrow> push_kind option \<times> pending" where
  "pending_on_receipt p now =
     (if \<not> live p now then (None, nothing_pending)
      else ((case p_kind p of Some (Only k) \<Rightarrow> Some k | _ \<Rightarrow> None),
            if p_count p - 1 = 0 then nothing_pending else p\<lparr>p_count := p_count p - 1\<rparr>))"

lemma parse_kind_str [simp]: "parse_pending_kind (pending_kind_str k) = Some k"
  by (cases k rule: pending_kind.exhaust; cases "case k of Only q \<Rightarrow> q | Mixed \<Rightarrow> AgendaReminder")
     (auto simp: parse_pending_kind_def parse_kind_def)

text \<open>The columns of a pending state read back as it.\<close>

lemma columns_round_trip:
  "0 < p_count p \<Longrightarrow> p_kind p = Some k \<Longrightarrow>
   from_columns (Some (pending_kind_str k)) (p_count p) (p_until p) = p"
  by (simp add: from_columns_def)

text \<open>
  A device and its push service: the pushes counted that may still arrive, with their kinds and
  the instants their time to live ends. A push refused never arrives; one unanswered may or may
  not. The answer to a push comes before its time to live ends: it is at least a minute, and the
  client gives up after ten seconds.
\<close>

type_synonym flight = "(push_kind \<times> instant) multiset"

record device =
  clock :: instant
  books :: pending
  flying :: flight

inductive device_step :: "device \<Rightarrow> device \<Rightarrow> bool" where
  pushed: "p_count (books d) < I32_MAX \<Longrightarrow>
    device_step d (d\<lparr>books := pending_after_push (books d) kind (clock d) ttl,
                     flying := add_mset (kind, clock d + secs ttl) (flying d)\<rparr>)"
| refused: "(kind, until) \<in># flying d \<Longrightarrow> clock d < until \<Longrightarrow>
    device_step d (d\<lparr>books := pending_after_failure (books d), flying := flying d - {#(kind, until)#}\<rparr>)"
| unanswered: "lost = {#} \<or> lost = {#(kind, until)#} \<Longrightarrow>
    device_step d (d\<lparr>books := pending_after_unanswered (books d), flying := flying d - lost\<rparr>)"
| received: "(kind, until) \<in># flying d \<Longrightarrow> clock d < until \<Longrightarrow>
    device_step d (d\<lparr>books := snd (pending_on_receipt (books d) (clock d)), flying := flying d - {#(kind, until)#}\<rparr>)"
| later: "clock d \<le> t \<Longrightarrow> device_step d (d\<lparr>clock := t\<rparr>)"

inductive device_reachable :: "device \<Rightarrow> bool" where
  start: "device_reachable \<lparr>clock = t, books = nothing_pending, flying = {#}\<rparr>"
| step: "device_reachable d \<Longrightarrow> device_step d d' \<Longrightarrow> device_reachable d'"

definition arriving :: "device \<Rightarrow> flight" where
  "arriving d = filter_mset (\<lambda>(k, until). clock d < until) (flying d)"

definition books_inv :: "device \<Rightarrow> bool" where
  "books_inv d \<longleftrightarrow>
     int (size (arriving d)) \<le> p_count (books d) \<and> 0 \<le> p_count (books d) \<and>
     (\<forall>(k, until) \<in># arriving d.
        (\<exists>u. p_until (books d) = Some u \<and> until \<le> u) \<and>
        (\<forall>q. p_kind (books d) = Some (Only q) \<longrightarrow> q = k))"

lemma books_invD:
  assumes "books_inv d" "(k, u) \<in># arriving d"
  obtains v where "p_until (books d) = Some v" "u \<le> v" "\<And>q. p_kind (books d) = Some (Only q) \<Longrightarrow> q = k"
    "0 < p_count (books d)"
proof -
  have "0 < size (arriving d)" using assms(2) by (cases "arriving d") auto
  then have "0 < p_count (books d)" using assms(1) by (simp add: books_inv_def)
  with assms that show ?thesis by (force simp: books_inv_def)
qed

lemma books_invI:
  assumes "int (size (arriving d)) \<le> p_count (books d)" "0 \<le> p_count (books d)"
    and "\<And>k u. (k, u) \<in># arriving d \<Longrightarrow> \<exists>v. p_until (books d) = Some v \<and> u \<le> v"
    and "\<And>k u q. (k, u) \<in># arriving d \<Longrightarrow> p_kind (books d) = Some (Only q) \<Longrightarrow> q = k"
  shows "books_inv d"
  using assms by (auto simp: books_inv_def)

lemma books_inv_fewer:
  assumes inv: "books_inv d" and sub: "arriving d' \<subseteq># arriving d" and size: "int (size (arriving d')) \<le> p_count (books d')"
    and books: "p_until (books d') = p_until (books d)" "\<And>q. p_kind (books d') = Some (Only q) \<Longrightarrow> p_kind (books d) = Some (Only q)"
  shows "books_inv d'"
proof (rule books_invI)
  show "0 \<le> p_count (books d')" using size by linarith
next
  fix k u
  assume "(k, u) \<in># arriving d'"
  then have x: "(k, u) \<in># arriving d" using mset_subset_eqD [OF sub] by blast
  show "\<exists>v. p_until (books d') = Some v \<and> u \<le> v" using books_invD [OF inv x] books(1) by metis
  show "q = k" if "p_kind (books d') = Some (Only q)" for q using books_invD [OF inv x] books(2) [OF that] by metis
qed (rule size)

lemma books_inv_none: "arriving d = {#} \<Longrightarrow> 0 \<le> p_count (books d) \<Longrightarrow> books_inv d"
  by (rule books_invI) auto

lemma arriving_remove: "arriving (d\<lparr>books := b, flying := flying d - m\<rparr>) = arriving d - filter_mset (\<lambda>(k, until). clock d < until) m"
  by (simp add: arriving_def)

lemma one_less:
  assumes "books_inv d" "x \<in># arriving d"
  shows "int (size (arriving d - {#x#})) \<le> p_count (books d) - 1"
proof -
  have "size (arriving d) = Suc (size (arriving d - {#x#}))" using assms(2) by (metis insert_DiffM size_add_mset)
  then show ?thesis using assms(1) by (simp add: books_inv_def)
qed

lemma books_inv_taken:
  assumes inv: "books_inv d" and x: "(kind, until) \<in># flying d" "clock d < until"
    and b: "b = (if p_count (books d) - 1 = 0 then nothing_pending else (books d)\<lparr>p_count := p_count (books d) - 1\<rparr>)"
  shows "books_inv (d\<lparr>books := b, flying := flying d - {#(kind, until)#}\<rparr>)"
proof -
  let ?d = "d\<lparr>books := b, flying := flying d - {#(kind, until)#}\<rparr>"
  have arr: "arriving ?d = arriving d - {#(kind, until)#}" using x(2) by (simp add: arriving_remove)
  have "(kind, until) \<in># arriving d" using x by (simp add: arriving_def)
  then have sz: "int (size (arriving ?d)) \<le> p_count (books d) - 1" using one_less [OF inv] arr by simp
  show ?thesis
  proof (cases "p_count (books d) - 1 = 0")
    case True
    with sz show ?thesis by (intro books_inv_none) (simp_all add: b nothing_pending_def)
  next
    case False
    then have "b = (books d)\<lparr>p_count := p_count (books d) - 1\<rparr>" using b by simp
    moreover have "arriving ?d \<subseteq># arriving d" by (simp add: arr)
    ultimately show ?thesis using sz by (intro books_inv_fewer [OF inv]) simp_all
  qed
qed

lemma live_if_arriving: "books_inv d \<Longrightarrow> (k, u) \<in># arriving d \<Longrightarrow> live (books d) (clock d)"
proof -
  assume "books_inv d" "(k, u) \<in># arriving d"
  moreover from this(2) have "clock d < u" by (simp add: arriving_def)
  ultimately show ?thesis by (auto simp: live_def elim!: books_invD)
qed

lemma books_inv_pushed:
  assumes inv: "books_inv d" and room: "p_count (books d) < I32_MAX"
  shows "books_inv (d\<lparr>books := pending_after_push (books d) kind (clock d) ttl,
                     flying := add_mset (kind, clock d + secs ttl) (flying d)\<rparr>)"
proof -
  let ?p = "books d" and ?u = "clock d + secs ttl"
  let ?d = "d\<lparr>books := pending_after_push (books d) kind (clock d) ttl, flying := add_mset (kind, ?u) (flying d)\<rparr>"
  have arr: "arriving ?d = (if clock d < ?u then add_mset (kind, ?u) (arriving d) else arriving d)"
    by (simp add: arriving_def)
  show ?thesis
  proof (cases "live ?p (clock d)")
    case False
    then have "arriving d = {#}" using live_if_arriving [OF inv] by (metis multiset_nonemptyE surj_pair)
    with False arr show ?thesis
      by (intro books_invI) (auto simp: pending_after_push_def Let_def split: if_splits)
  next
    case True
    then obtain v where v: "p_until ?p = Some v" by (auto simp: live_def split: option.splits)
    have b: "books ?d = \<lparr>p_kind = Some (if p_kind ?p = Some (Only kind) then Only kind else Mixed),
        p_count = p_count ?p + 1, p_until = Some (max v ?u)\<rparr>"
      using True room by (simp add: pending_after_push_def Let_def v max_def)
    have old: "u \<le> v" "p_kind ?p = Some (Only q) \<Longrightarrow> q = k" if "(k, u) \<in># arriving d" for k u q
      using books_invD [OF inv that] v by (metis option.inject)+
    show ?thesis
    proof (rule books_invI)
      show "int (size (arriving ?d)) \<le> p_count (books ?d)" "0 \<le> p_count (books ?d)"
        using inv unfolding arr b by (auto simp: books_inv_def)
    next
      fix k u
      assume "(k, u) \<in># arriving ?d"
      then have ku: "(k, u) = (kind, ?u) \<or> (k, u) \<in># arriving d" unfolding arr by (auto split: if_splits)
      then have "u \<le> max v ?u" using old(1) [of k u] by auto
      then show "\<exists>v'. p_until (books ?d) = Some v' \<and> u \<le> v'" unfolding b by simp
      show "q = k" if "p_kind (books ?d) = Some (Only q)" for q
        using that ku old(2) [of k u kind] unfolding b by (auto split: if_splits)
    qed
  qed
qed

lemma books_inv_step:
  assumes inv: "books_inv d" and st: "device_step d d'"
  shows "books_inv d'"
  using st
proof (cases rule: device_step.cases)
  case (pushed kind ttl)
  then show ?thesis using books_inv_pushed [OF inv] by simp
next
  case (refused kind until)
  have "0 < p_count (books d)"
    using books_invD [OF inv, of kind until] refused(2,3) by (auto simp: arriving_def)
  then show ?thesis unfolding refused(1)
    by (intro books_inv_taken [OF inv refused(2,3)]) (auto simp: pending_after_failure_def Let_def)
next
  case (unanswered lost kind until)
  have sub: "arriving d' \<subseteq># arriving d" by (simp add: unanswered(1) arriving_remove)
  then have sz: "int (size (arriving d')) \<le> p_count (books d)"
    using size_mset_mono [OF sub] inv by (simp add: books_inv_def)
  show ?thesis
  proof (cases "p_count (books d) \<le> 0")
    case True
    with sz have "size (arriving d') = 0" by linarith
    then have "arriving d' = {#}" by simp
    then show ?thesis
      using True inv by (intro books_inv_none) (simp_all add: unanswered(1) pending_after_unanswered_def nothing_pending_def books_inv_def)
  next
    case False
    then show ?thesis using sub sz
      by (intro books_inv_fewer [OF inv]) (simp_all add: unanswered(1) pending_after_unanswered_def)
  qed
next
  case (received kind until)
  have "live (books d) (clock d)" using live_if_arriving [OF inv, of kind until] received(2,3) by (simp add: arriving_def)
  then show ?thesis unfolding received(1)
    by (intro books_inv_taken [OF inv received(2,3)]) (simp add: pending_on_receipt_def)
next
  case (later t)
  have sub: "arriving d' \<subseteq># arriving d"
    using later by (auto simp: arriving_def intro!: filter_mset_mono_strong)
  moreover have "int (size (arriving d')) \<le> p_count (books d)"
    using size_mset_mono [OF sub] inv by (simp add: books_inv_def)
  ultimately show ?thesis by (intro books_inv_fewer [OF inv]) (simp_all add: later(1))
qed

lemma books_inv_reachable: "device_reachable d \<Longrightarrow> books_inv d"
proof (induction rule: device_reachable.induct)
  case (start t)
  then show ?case by (simp add: books_inv_def arriving_def nothing_pending_def)
next
  case (step d d')
  then show ?case using books_inv_step by blast
qed

text \<open>
  C13. A device never shows another kind's text. Whatever pushes were sent, refused, lost or
  received before, and however they interleave, a push received before its time to live ends
  shows the text of its own kind or the neutral one; and its own whenever the books say one kind
  alone.
\<close>

theorem never_another_kinds_text:
  assumes "device_reachable d" and "(kind, until) \<in># flying d" and "clock d < until"
  shows "fst (pending_on_receipt (books d) (clock d)) \<in> {None, Some kind}
    \<and> (\<forall>q. p_kind (books d) = Some (Only q) \<longrightarrow> q = kind \<and> fst (pending_on_receipt (books d) (clock d)) = Some kind)"
proof -
  have inv: "books_inv d" by (rule books_inv_reachable [OF assms(1)])
  have x: "(kind, until) \<in># arriving d" using assms(2,3) by (simp add: arriving_def)
  have k: "\<And>q. p_kind (books d) = Some (Only q) \<Longrightarrow> q = kind" using books_invD [OF inv x] by metis
  show ?thesis
    using live_if_arriving [OF inv x] k
    by (auto simp: pending_on_receipt_def split: option.splits pending_kind.splits)
qed

lemma never_another_kinds_text_witness:
  "\<exists>d :: device. (AgendaReminder, secs 60) \<in># flying d \<and> fst (pending_on_receipt (books d) 0) \<in> {None, Some AgendaReminder}"
proof -
  define d0 :: device where "d0 = \<lparr>clock = 0, books = nothing_pending, flying = {#}\<rparr>"
  define d1 where "d1 = d0\<lparr>books := pending_after_push (books d0) BudgetAlert (clock d0) 60,
      flying := add_mset (BudgetAlert, clock d0 + secs 60) (flying d0)\<rparr>"
  define d2 where "d2 = d1\<lparr>books := pending_after_push (books d1) AgendaReminder (clock d1) 60,
      flying := add_mset (AgendaReminder, clock d1 + secs 60) (flying d1)\<rparr>"
  have "device_reachable d0" unfolding d0_def by (rule device_reachable.start)
  moreover have "device_step d0 d1" unfolding d1_def by (rule pushed) (simp add: d0_def nothing_pending_def I32_MAX_def)
  moreover have "device_step d1 d2" unfolding d2_def
    by (rule pushed) (simp add: d0_def d1_def pending_after_push_def live_def nothing_pending_def I32_MAX_def Let_def)
  ultimately have r: "device_reachable d2" by (blast intro: device_reachable.step)
  have c: "clock d2 = 0" and f: "(AgendaReminder, secs 60) \<in># flying d2" by (simp_all add: d0_def d1_def d2_def)
  have "clock d2 < secs 60" by (simp add: c secs_def)
  from never_another_kinds_text [OF r f this] f show ?thesis unfolding c by blast
qed

end
