(* ===== verification/Account_Purge.thy ===== *)
theory Account_Purge
  imports Prelude Strings
begin

text \<open>
  The end of an account: when the purge takes it, whom it warned, what it deletes and who inherits
  the groups it owned (\<open>apps/api/src/jobs/account_purge.rs\<close>, \<open>apps/api/src/groups/succession.rs\<close>).

  A transaction is a function of the rows; \<open>now()\<close> is its instant. Connection errors and the
  sending of emails are outside the model. Adding calendar months is \<open>chrono\<close>'s, a parameter.
\<close>


section \<open>When an account is purged\<close>

definition PURGE_GRACE_DAYS :: int where
  "PURGE_GRACE_DAYS = 30"

definition DEACTIVATION_RETENTION_MONTHS :: nat where
  "DEACTIVATION_RETENTION_MONTHS = 24"

definition DEACTIVATION_NOTICE_DAYS :: int where
  "DEACTIVATION_NOTICE_DAYS = 30"

record purge_clock =
  deletion_requested_at :: "instant option"
  deactivated_at :: "instant option"
  deactivation_notice_sent_at :: "instant option"
  deleted_at :: "instant option"
  reactivation_requested :: bool
  reactivation_refused_at :: "instant option"

text \<open>\<open>checked_add_months\<close>, and \<open>DateTime::<Utc>::MAX_UTC\<close>.\<close>

record months =
  add_months :: "instant \<Rightarrow> nat \<Rightarrow> instant option"
  max_utc :: instant

definition deactivation_retention_end :: "months \<Rightarrow> instant \<Rightarrow> instant" where
  "deactivation_retention_end cal at =
     (case add_months cal at DEACTIVATION_RETENTION_MONTHS of Some t \<Rightarrow> t | None \<Rightarrow> max_utc cal)"

definition deactivation_purge_at :: "months \<Rightarrow> instant \<Rightarrow> instant option \<Rightarrow> instant option \<Rightarrow> instant" where
  "deactivation_purge_at cal at notice_sent_at refused_at =
     (let retention_end = deactivation_retention_end cal at;
          notice = days_dur DEACTIVATION_NOTICE_DAYS;
          after_notice = (case notice_sent_at of
              Some sent_at \<Rightarrow> max retention_end (sent_at + notice)
            | None \<Rightarrow> retention_end + notice)
      in case refused_at of
           Some refused \<Rightarrow> max after_notice (refused + notice)
         | None \<Rightarrow> after_notice)"

record refusal_stamps =
  stamp_refused_at :: "instant option"
  stamp_notice_sent_at :: "instant option"

definition record_refusal :: "refusal_stamps \<Rightarrow> instant \<Rightarrow> refusal_stamps" where
  "record_refusal before now =
     (case stamp_refused_at before of
        Some _ \<Rightarrow> before
      | None \<Rightarrow> \<lparr>stamp_refused_at = Some now, stamp_notice_sent_at = None\<rparr>)"

definition suspended :: "purge_clock \<Rightarrow> bool" where
  "suspended c \<longleftrightarrow> reactivation_requested c \<and> reactivation_refused_at c = None"

definition purge_due :: "months \<Rightarrow> instant \<Rightarrow> purge_clock \<Rightarrow> bool" where
  "purge_due cal now c =
     (if deleted_at c \<noteq> None then False
      else let requested = (case deletion_requested_at c of
                   Some at \<Rightarrow> at + days_dur PURGE_GRACE_DAYS < now | None \<Rightarrow> False);
               deactivated = (\<not> suspended c \<and>
                 (case deactivated_at c of
                    Some at \<Rightarrow> deactivation_purge_at cal at (deactivation_notice_sent_at c) (reactivation_refused_at c) \<le> now
                  | None \<Rightarrow> False))
           in requested \<or> deactivated)"

definition deactivation_notice_due :: "months \<Rightarrow> instant \<Rightarrow> purge_clock \<Rightarrow> bool" where
  "deactivation_notice_due cal now c =
     (if deleted_at c \<noteq> None \<or> deletion_requested_at c \<noteq> None \<or> deactivation_notice_sent_at c \<noteq> None \<or> suspended c
      then False
      else case deactivated_at c of
             Some at \<Rightarrow> deactivation_retention_end cal at - days_dur DEACTIVATION_NOTICE_DAYS \<le> now
           | None \<Rightarrow> False)"

lemma refusals_keep_first: "foldl record_refusal (record_refusal s t) ts = record_refusal s t"
  by (induction ts) (auto simp: record_refusal_def split: option.splits)

text \<open>The two calendar years an account stays deactivated, or the end of the calendar.\<close>

definition two_years_after :: "months \<Rightarrow> instant \<Rightarrow> instant" where
  "two_years_after cal at = (case add_months cal at 24 of Some t \<Rightarrow> t | None \<Rightarrow> max_utc cal)"

lemma retention_two_years: "deactivation_retention_end cal at = two_years_after cal at"
  by (simp add: deactivation_retention_end_def two_years_after_def DEACTIVATION_RETENTION_MONTHS_def)

lemma purge_at_le:
  "deactivation_purge_at cal at sent refused \<le> now \<longleftrightarrow>
     two_years_after cal at \<le> now
     \<and> (case sent of Some t \<Rightarrow> t + days_dur 30 \<le> now | None \<Rightarrow> two_years_after cal at + days_dur 30 \<le> now)
     \<and> (\<forall>t. refused = Some t \<longrightarrow> t + days_dur 30 \<le> now)"
proof -
  have d: "0 \<le> days_dur 30" by (simp add: days_dur_def secs_def)
  show ?thesis
    using d by (auto simp: deactivation_purge_at_def DEACTIVATION_NOTICE_DAYS_def Let_def retention_two_years
        split: option.splits)
qed

text \<open>
  C14. An account is purged when its time has come and never before. It is due exactly when it
  is not purged yet and either its deletion was asked for more than thirty days ago, or support
  deactivated it and: its two calendar years are over; thirty days have passed since the warning
  was sent or, when no warning ever went, thirty more days after the two years; thirty days have
  passed since the first refusal, if there was one; and no first request awaits an answer. A
  warning is thus not required: an account nobody could warn goes thirty days later. Refusals
  after the first move nothing, so the purge waits at most thirty days past the two years, the
  warning and the first refusal.
\<close>

theorem purge_only_after_notice:
  "(purge_due cal now c \<longleftrightarrow>
       deleted_at c = None
       \<and> ((\<exists>at. deletion_requested_at c = Some at \<and> at + days_dur 30 < now)
          \<or> (\<exists>at. deactivated_at c = Some at \<and> two_years_after cal at \<le> now
              \<and> \<not> (reactivation_requested c \<and> reactivation_refused_at c = None)
              \<and> (case deactivation_notice_sent_at c of
                   Some sent \<Rightarrow> sent + days_dur 30 \<le> now
                 | None \<Rightarrow> two_years_after cal at + days_dur 30 \<le> now)
              \<and> (\<forall>refused. reactivation_refused_at c = Some refused \<longrightarrow> refused + days_dur 30 \<le> now))))
    \<and> (\<forall>at sent refused. deactivation_purge_at cal at sent refused \<le>
         max (two_years_after cal at) (max (case sent of Some t \<Rightarrow> t | None \<Rightarrow> two_years_after cal at)
            (case refused of Some t \<Rightarrow> t | None \<Rightarrow> two_years_after cal at)) + days_dur 30)
    \<and> (\<forall>s t ts. foldl record_refusal s (t # ts) = record_refusal s t)"
proof -
  have "deactivation_purge_at cal at sent refused \<le>
      max (two_years_after cal at) (max (case sent of Some t \<Rightarrow> t | None \<Rightarrow> two_years_after cal at)
         (case refused of Some t \<Rightarrow> t | None \<Rightarrow> two_years_after cal at)) + days_dur 30" for at sent refused
    unfolding purge_at_le by (auto simp: days_dur_def secs_def max_def split: option.splits)
  moreover have "purge_due cal now c \<longleftrightarrow>
       deleted_at c = None
       \<and> ((\<exists>at. deletion_requested_at c = Some at \<and> at + days_dur 30 < now)
          \<or> (\<exists>at. deactivated_at c = Some at \<and> two_years_after cal at \<le> now
              \<and> \<not> (reactivation_requested c \<and> reactivation_refused_at c = None)
              \<and> (case deactivation_notice_sent_at c of
                   Some sent \<Rightarrow> sent + days_dur 30 \<le> now
                 | None \<Rightarrow> two_years_after cal at + days_dur 30 \<le> now)
              \<and> (\<forall>refused. reactivation_refused_at c = Some refused \<longrightarrow> refused + days_dur 30 \<le> now)))"
    by (auto simp: purge_due_def suspended_def purge_at_le PURGE_GRACE_DAYS_def Let_def split: option.splits)
  ultimately show ?thesis using refusals_keep_first by simp
qed

definition demo_months :: months where
  "demo_months = \<lparr>add_months = (\<lambda>t n. Some (t + int n * days_dur 30)), max_utc = days_dur 1000000\<rparr>"

lemma purge_only_after_notice_witness:
  "\<exists>c. purge_due demo_months (days_dur 760) c \<and> \<not> purge_due demo_months (days_dur 740) c
     \<and> deactivation_notice_sent_at c = None \<and> two_years_after demo_months 0 = days_dur 720"
proof -
  let ?c = "\<lparr>deletion_requested_at = None, deactivated_at = Some 0, deactivation_notice_sent_at = None,
    deleted_at = None, reactivation_requested = False, reactivation_refused_at = None\<rparr>"
  have t: "two_years_after demo_months 0 = days_dur 720"
    by (simp add: two_years_after_def demo_months_def days_dur_def secs_def)
  have "days_dur 720 + days_dur 30 \<le> days_dur 760" "\<not> days_dur 720 + days_dur 30 \<le> days_dur 740"
    "days_dur 720 \<le> days_dur 760"
    by (simp_all add: days_dur_def secs_def)
  then show ?thesis
    using purge_only_after_notice [of demo_months "days_dur 760" ?c]
      purge_only_after_notice [of demo_months "days_dur 740" ?c] t
    by (intro exI [of _ ?c]) (simp add: t)
qed

section \<open>Succession\<close>

record remaining_member =
  user_id :: uuid
  is_admin :: bool
  joined_at :: instant
  deactivated :: bool
  pending_deletion :: bool

definition rank :: "remaining_member \<Rightarrow> bool \<times> bool \<times> instant \<times> uuid" where
  "rank m = (pending_deletion m, \<not> is_admin m, joined_at m, user_id m)"

definition successor :: "remaining_member list \<Rightarrow> uuid option" where
  "successor remaining = map_option user_id (min_by_key rank (filter (\<lambda>m. \<not> deactivated m) remaining))"

datatype designation_refusal = GroupHasOwner | NotAMember | NotActive

definition check_designation :: "bool \<Rightarrow> remaining_member option \<Rightarrow> designation_refusal + unit" where
  "check_designation has_owner target =
     (if has_owner then Inl GroupHasOwner
      else case target of
             None \<Rightarrow> Inl NotAMember
           | Some m \<Rightarrow> if deactivated m \<or> pending_deletion m then Inl NotActive else Inr ())"

definition heir_if_ownerless :: "bool \<Rightarrow> remaining_member list \<Rightarrow> uuid option" where
  "heir_if_ownerless has_owner members = (if has_owner then None else successor members)"

datatype ownership_reason = AccountPurged | MemberReactivated | DesignatedBySupport

fun reason_str :: "ownership_reason \<Rightarrow> string" where
  "reason_str AccountPurged = ''account_purged''"
| "reason_str MemberReactivated = ''member_reactivated''"
| "reason_str DesignatedBySupport = ''designated_by_support''"

definition parse_reason :: "string \<Rightarrow> ownership_reason option" where
  "parse_reason s =
     (if s = ''account_purged'' then Some AccountPurged
      else if s = ''member_reactivated'' then Some MemberReactivated
      else if s = ''designated_by_support'' then Some DesignatedBySupport else None)"

lemma parse_reason_str: "parse_reason (reason_str r) = Some r"
  by (cases r) (simp_all add: parse_reason_def)

lemma successor_Some:
  "successor ms = Some u \<longleftrightarrow>
     (\<exists>m \<in> set ms. \<not> deactivated m \<and> user_id m = u \<and> (\<forall>m' \<in> set ms. \<not> deactivated m' \<longrightarrow> rank m \<le> rank m'))"
proof
  assume "successor ms = Some u"
  then obtain m where m: "min_by_key rank (filter (\<lambda>m. \<not> deactivated m) ms) = Some m" "user_id m = u"
    by (auto simp: successor_def)
  show "\<exists>m \<in> set ms. \<not> deactivated m \<and> user_id m = u \<and> (\<forall>m' \<in> set ms. \<not> deactivated m' \<longrightarrow> rank m \<le> rank m')"
    using min_by_key_in [OF m(1)] min_by_key_le [OF m(1)] m(2) by (intro bexI [of _ m]) auto
next
  assume "\<exists>m \<in> set ms. \<not> deactivated m \<and> user_id m = u \<and> (\<forall>m' \<in> set ms. \<not> deactivated m' \<longrightarrow> rank m \<le> rank m')"
  then obtain m where m: "m \<in> set ms" "\<not> deactivated m" "user_id m = u"
    "\<And>m'. m' \<in> set ms \<Longrightarrow> \<not> deactivated m' \<Longrightarrow> rank m \<le> rank m'" by blast
  then have "filter (\<lambda>m. \<not> deactivated m) ms \<noteq> []" by (auto simp: filter_empty_conv)
  then obtain n where n: "min_by_key rank (filter (\<lambda>m. \<not> deactivated m) ms) = Some n"
    using min_by_key_None by blast
  have "n \<in> set ms" "\<not> deactivated n" using min_by_key_in [OF n] by auto
  then have "rank m = rank n" using m(4) min_by_key_le [OF n, of m] m(1,2) by (auto intro: order_antisym)
  then have "user_id n = u" using m(3) by (simp add: rank_def)
  then show "successor ms = Some u" by (simp add: successor_def n)
qed

text \<open>
  C15. The heir of a group does not depend on the order its rows come back in, is never an
  account support deactivated, and exists when any other member does. It comes before every other
  in this order: active before awaiting deletion, admin before member, the longest-standing
  first, the identifier settling ties.
\<close>

theorem heir_is_first_in_rank:
  assumes "successor ms = Some u"
  shows "\<exists>m \<in> set ms. user_id m = u \<and> \<not> deactivated m
    \<and> (\<forall>m' \<in> set ms. \<not> deactivated m' \<longrightarrow>
         (\<not> pending_deletion m \<or> pending_deletion m') \<and>
         (pending_deletion m = pending_deletion m' \<longrightarrow> is_admin m' \<longrightarrow> is_admin m) \<and>
         (pending_deletion m = pending_deletion m' \<longrightarrow> is_admin m = is_admin m' \<longrightarrow>
            joined_at m \<le> joined_at m' \<and> (joined_at m = joined_at m' \<longrightarrow> user_id m \<le> user_id m')))
    \<and> (\<forall>other. set other = set ms \<longrightarrow> successor other = Some u)
    \<and> heir_if_ownerless False ms = Some u \<and> heir_if_ownerless True ms = None"
proof -
  obtain m where m: "m \<in> set ms" "\<not> deactivated m" "user_id m = u"
    "\<And>m'. m' \<in> set ms \<Longrightarrow> \<not> deactivated m' \<Longrightarrow> rank m \<le> rank m'"
    using assms unfolding successor_Some by blast
  have "(\<not> pending_deletion m \<or> pending_deletion m') \<and>
         (pending_deletion m = pending_deletion m' \<longrightarrow> is_admin m' \<longrightarrow> is_admin m) \<and>
         (pending_deletion m = pending_deletion m' \<longrightarrow> is_admin m = is_admin m' \<longrightarrow>
            joined_at m \<le> joined_at m' \<and> (joined_at m = joined_at m' \<longrightarrow> user_id m \<le> user_id m'))"
    if "m' \<in> set ms" "\<not> deactivated m'" for m'
    using m(4) [OF that] by (auto simp: rank_def less_eq_prod_def less_bool_def)
  moreover have "successor other = Some u" if "set other = set ms" for other
    using assms unfolding successor_Some that .
  moreover have "heir_if_ownerless False ms = Some u" "heir_if_ownerless True ms = None"
    using assms by (simp_all add: heir_if_ownerless_def)
  ultimately show ?thesis using m(1-3) by blast
qed

lemma heir_is_first_in_rank_witness:
  "successor [\<lparr>user_id = 3, is_admin = False, joined_at = 5, deactivated = False, pending_deletion = False\<rparr>,
              \<lparr>user_id = 2, is_admin = True, joined_at = 9, deactivated = False, pending_deletion = False\<rparr>,
              \<lparr>user_id = 1, is_admin = True, joined_at = 1, deactivated = True, pending_deletion = False\<rparr>] = Some 2
   \<and> heir_if_ownerless True [\<lparr>user_id = 2, is_admin = True, joined_at = 9, deactivated = False, pending_deletion = False\<rparr>] = None"
proof -
  have a: "successor [\<lparr>user_id = 3, is_admin = False, joined_at = 5, deactivated = False, pending_deletion = False\<rparr>,
              \<lparr>user_id = 2, is_admin = True, joined_at = 9, deactivated = False, pending_deletion = False\<rparr>,
              \<lparr>user_id = 1, is_admin = True, joined_at = 1, deactivated = True, pending_deletion = False\<rparr>] = Some 2"
    by (simp add: successor_def rank_def)
  have b: "successor [\<lparr>user_id = 2, is_admin = True, joined_at = 9, deactivated = False, pending_deletion = False\<rparr>] = Some 2"
    by (simp add: successor_def rank_def)
  show ?thesis using a heir_is_first_in_rank [OF b] by blast
qed

section \<open>The rows the purge touches\<close>

datatype role = Owner | Admin | Member

record member_row =
  m_group :: uuid
  m_user :: uuid
  m_role :: role
  m_joined_at :: instant
  ownership_inherited_at :: "instant option"
  ownership_inherited_reason :: "string option"
  ownership_notice_seen_at :: "instant option"
  ownership_email_sent_at :: "instant option"

record user_row =
  u_id :: uuid
  u_email :: string
  avatar_key :: "string option"
  password_hash :: "string option"
  display_name :: string
  age_declared_at :: "instant option"
  terms_accepted_version :: "string option"
  terms_accepted_at :: "instant option"
  u_deletion_requested_at :: "instant option"
  u_deactivated_at :: "instant option"
  u_notice_sent_at :: "instant option"
  u_refused_at :: "instant option"
  u_deleted_at :: "instant option"

text \<open>The tables whose rows of one account go by the column that names it.\<close>

datatype personal_table =
    Oauth_identities | Sessions | Push_subscriptions | Email_verification_tokens | Password_reset_tokens
  | Stock_expiry_announcements | Message_read_state | Event_assignees | Account_reactivation_requests
  | Invitations | Calendar_imports

record audit_row =
  actor :: "uuid option"
  action :: string
  target_type :: string
  target_id :: string
  metadata :: "(string \<times> string) list"

text \<open>
  A row of \<open>owned\<close> is its account, the group it hangs on -- by its own \<open>group_id\<close>, or that
  of its event or stock item -- and an identifier; a notification its reader, who caused it, its
  group and its identifier. An event has its group, an attachment its event.
\<close>

record database =
  users :: "user_row list"
  members :: "member_row list"
  groups :: "uuid list"
  events :: "(uuid \<times> uuid) list"
  attachments :: "(uuid \<times> string) list"
  owned :: "personal_table \<Rightarrow> (uuid \<times> uuid option \<times> nat) list"
  notifications :: "(uuid \<times> uuid option \<times> uuid \<times> nat) list"
  audit_log :: "audit_row list"

definition find_user :: "database \<Rightarrow> uuid \<Rightarrow> user_row option" where
  "find_user db uid = find (\<lambda>u. u_id u = uid) (users db)"

definition record_audit ::
    "database \<Rightarrow> uuid option \<Rightarrow> string \<Rightarrow> string \<Rightarrow> string \<Rightarrow> (string \<times> string) list \<Rightarrow> database" where
  "record_audit db actor_user_id act tt target meta =
     db\<lparr>audit_log := audit_log db @
       [\<lparr>actor = actor_user_id, action = act, target_type = tt, target_id = target, metadata = meta\<rparr>]\<rparr>"

section \<open>Handing a group over\<close>

definition rows_of :: "database \<Rightarrow> uuid \<Rightarrow> member_row list" where
  "rows_of db g = filter (\<lambda>m. m_group m = g) (members db)"

definition remaining_of :: "database \<Rightarrow> member_row \<Rightarrow> remaining_member option" where
  "remaining_of db m =
     map_option (\<lambda>u. \<lparr>user_id = m_user m, is_admin = (m_role m = Admin), joined_at = m_joined_at m,
         deactivated = (u_deactivated_at u \<noteq> None), pending_deletion = (u_deletion_requested_at u \<noteq> None)\<rparr>)
       (find_user db (m_user m))"

definition lock_members :: "database \<Rightarrow> uuid \<Rightarrow> bool \<times> remaining_member list" where
  "lock_members db g =
     (let rows = filter (\<lambda>m. find_user db (m_user m) \<noteq> None) (rows_of db g)
      in (list_ex (\<lambda>m. m_role m = Owner) rows, List.map_filter (remaining_of db) rows))"

definition stamp :: "instant \<Rightarrow> ownership_reason \<Rightarrow> member_row \<Rightarrow> member_row" where
  "stamp now reason m =
     m\<lparr>m_role := Owner, ownership_inherited_at := Some now, ownership_inherited_reason := Some (reason_str reason),
       ownership_notice_seen_at := None, ownership_email_sent_at := None\<rparr>"

definition stamp_inheritance :: "database \<Rightarrow> instant \<Rightarrow> uuid \<Rightarrow> uuid \<Rightarrow> ownership_reason \<Rightarrow> database" where
  "stamp_inheritance db now g u reason =
     db\<lparr>members := map (\<lambda>m. if m_group m = g \<and> m_user m = u then stamp now reason m else m) (members db)\<rparr>"

definition assign_heir ::
    "(uuid \<Rightarrow> string) \<Rightarrow> database \<Rightarrow> instant \<Rightarrow> uuid \<Rightarrow> ownership_reason \<Rightarrow> uuid option \<times> database" where
  "assign_heir show_id db now g reason =
     (let (has_owner, remaining) = lock_members db g
      in case heir_if_ownerless has_owner remaining of
           None \<Rightarrow> (None, db)
         | Some heir \<Rightarrow>
             (Some heir, record_audit (stamp_inheritance db now g heir reason)
                None ''ownership_transferred'' ''group'' (show_id g)
                [(''new_owner_id'', show_id heir), (''reason'', reason_str reason)]))"

text \<open>
  \<open>DELETE FROM groups\<close> with its \<open>ON DELETE CASCADE\<close>: the members, the events with their
  attachments and assignees, the invitations, the calendar imports, the read states, the
  announcements of the group's stock and the notifications of the group (migrations 0001, 0002,
  0010, 0011, 0012, 0036 and 0049 of \<open>apps/api/migrations\<close>). The rows of a group's content
  (its stock, recipes, lists, messages, budget), which go too, are not in this database.
\<close>

fun hangs_on_group :: "personal_table \<Rightarrow> bool" where
  "hangs_on_group Invitations = True"
| "hangs_on_group Calendar_imports = True"
| "hangs_on_group Message_read_state = True"
| "hangs_on_group Event_assignees = True"
| "hangs_on_group Stock_expiry_announcements = True"
| "hangs_on_group _ = False"

definition cascade_group :: "database \<Rightarrow> uuid \<Rightarrow> database" where
  "cascade_group db g =
     (let inside = map fst (filter (\<lambda>(e, eg). eg = g) (events db))
      in db\<lparr>groups := filter (\<lambda>x. x \<noteq> g) (groups db),
            members := filter (\<lambda>m. m_group m \<noteq> g) (members db),
            events := filter (\<lambda>(e, eg). eg \<noteq> g) (events db),
            attachments := filter (\<lambda>(e, k). e \<notin> set inside) (attachments db),
            owned := (\<lambda>t. filter (\<lambda>(_, og, _). \<not> (hangs_on_group t \<and> og = Some g)) (owned db t)),
            notifications := filter (\<lambda>(_, _, ng, _). ng \<noteq> g) (notifications db)\<rparr>)"

definition delete_if_abandoned :: "(uuid \<Rightarrow> string) \<Rightarrow> database \<Rightarrow> uuid \<Rightarrow> string list \<times> database" where
  "delete_if_abandoned show_id db g =
     (if rows_of db g \<noteq> [] then ([], db)
      else let inside = map fst (filter (\<lambda>(e, eg). eg = g) (events db));
               keys = map snd (filter (\<lambda>(e, k). e \<in> set inside) (attachments db))
           in if g \<notin> set (groups db) then ([], db)
              else (keys, record_audit (cascade_group db g)
                None ''group_deleted'' ''group'' (show_id g) [(''reason'', ''account_purged'')]))"

fun assign_heirs :: "(uuid \<Rightarrow> string) \<Rightarrow> instant \<Rightarrow> uuid list \<Rightarrow> database \<Rightarrow> database" where
  "assign_heirs show_id now [] db = db"
| "assign_heirs show_id now (g # gs) db =
     assign_heirs show_id now gs (snd (assign_heir show_id db now g AccountPurged))"

fun delete_abandoned :: "(uuid \<Rightarrow> string) \<Rightarrow> uuid list \<Rightarrow> database \<Rightarrow> string list \<times> database" where
  "delete_abandoned show_id [] db = ([], db)"
| "delete_abandoned show_id (g # gs) db =
     (let (keys, db) = delete_if_abandoned show_id db g; (more, db) = delete_abandoned show_id gs db
      in (keys @ more, db))"

section \<open>The purge of one account\<close>

definition clock_of :: "database \<Rightarrow> user_row \<Rightarrow> purge_clock" where
  "clock_of db u =
     \<lparr>deletion_requested_at = u_deletion_requested_at u, deactivated_at = u_deactivated_at u,
      deactivation_notice_sent_at = u_notice_sent_at u, deleted_at = u_deleted_at u,
      reactivation_requested = list_ex (\<lambda>(o', _). o' = u_id u) (owned db Account_reactivation_requests),
      reactivation_refused_at = u_refused_at u\<rparr>"

definition delete_personal :: "database \<Rightarrow> uuid \<Rightarrow> database" where
  "delete_personal db uid =
     db\<lparr>owned := (\<lambda>t. filter (\<lambda>(o', _). o' \<noteq> uid) (owned db t)),
        notifications := filter (\<lambda>(u, a, _, _). \<not> (u = uid \<or> a = Some uid)) (notifications db),
        audit_log := filter (\<lambda>a. actor a \<noteq> Some uid) (audit_log db)\<rparr>"

definition deleted_name :: string where
  "deleted_name = ''Utilisateur supprim'' @ [CHR 0xC3, CHR 0xA9]"

definition anonymise :: "(uuid \<Rightarrow> string) \<Rightarrow> instant \<Rightarrow> user_row \<Rightarrow> user_row" where
  "anonymise show_id now u =
     u\<lparr>u_email := ''deleted-'' @ show_id (u_id u) @ ''@deleted.invalid'', avatar_key := None, password_hash := None,
       display_name := deleted_name, age_declared_at := None, terms_accepted_version := None,
       terms_accepted_at := None, u_refused_at := None, u_deleted_at := Some now\<rparr>"

definition purge_account ::
    "(uuid \<Rightarrow> string) \<Rightarrow> months \<Rightarrow> instant \<Rightarrow> uuid \<Rightarrow> database \<Rightarrow> string list \<times> database" where
  "purge_account show_id cal now uid db =
     (case find_user db uid of
        None \<Rightarrow> ([], db)
      | Some u \<Rightarrow>
          if \<not> purge_due cal now (clock_of db u) then ([], db)
          else
            let memberships = filter (\<lambda>m. m_user m = uid) (members db);
                db1 = db\<lparr>members := filter (\<lambda>m. m_user m \<noteq> uid) (members db)\<rparr>;
                db2 = assign_heirs show_id now (map m_group (filter (\<lambda>m. m_role m = Owner) memberships)) db1;
                (keys, db3) = delete_abandoned show_id (map m_group memberships) db2;
                db4 = delete_personal db3 uid;
                avatar = (case find_user db4 uid of Some u \<Rightarrow> (case avatar_key u of Some k \<Rightarrow> [k] | None \<Rightarrow> []) | None \<Rightarrow> []);
                db5 = db4\<lparr>users := map (\<lambda>u. if u_id u = uid then anonymise show_id now u else u) (users db4)\<rparr>
            in (keys @ avatar, record_audit db5 None ''account_purged'' ''user'' (show_id uid) []))"

section \<open>Lemmas\<close>

lemma audit_keeps [simp]:
  "users (record_audit db w a t i j) = users db" "members (record_audit db w a t i j) = members db"
  "groups (record_audit db w a t i j) = groups db" "events (record_audit db w a t i j) = events db"
  "attachments (record_audit db w a t i j) = attachments db" "owned (record_audit db w a t i j) = owned db"
  "notifications (record_audit db w a t i j) = notifications db" "rows_of (record_audit db w a t i j) g = rows_of db g"
  by (simp_all add: record_audit_def rows_of_def)

definition grown :: "database \<Rightarrow> database \<Rightarrow> bool" where
  "grown db db' \<longleftrightarrow> users db' = users db
     \<and> (\<exists>new. audit_log db' = audit_log db @ new \<and> (\<forall>a \<in> set new. actor a = None))"

definition same_rest :: "database \<Rightarrow> database \<Rightarrow> bool" where
  "same_rest db db' \<longleftrightarrow> grown db db' \<and> owned db' = owned db \<and> notifications db' = notifications db"

lemma grown_refl [simp]: "grown db db"
  by (simp add: grown_def)

lemma grown_trans: "grown a b \<Longrightarrow> grown b c \<Longrightarrow> grown a c"
  by (fastforce simp: grown_def)

lemma same_rest_refl [simp]: "same_rest db db"
  by (simp add: same_rest_def)

lemma same_rest_trans: "same_rest a b \<Longrightarrow> same_rest b c \<Longrightarrow> same_rest a c"
  using grown_trans by (auto simp: same_rest_def)

lemma assign_heir_rest: "same_rest db (snd (assign_heir show_id db now g reason))"
  by (auto simp: assign_heir_def same_rest_def grown_def record_audit_def stamp_inheritance_def
      split: prod.splits option.splits)

lemma assign_heir_tables:
  "groups (snd (assign_heir show_id db now g reason)) = groups db"
  "events (snd (assign_heir show_id db now g reason)) = events db"
  "attachments (snd (assign_heir show_id db now g reason)) = attachments db"
  by (simp_all add: assign_heir_def stamp_inheritance_def split: prod.split option.split)

text \<open>The rows of a group once it is handed over.\<close>

definition heir_rows :: "database \<Rightarrow> instant \<Rightarrow> uuid \<Rightarrow> member_row list" where
  "heir_rows db now g =
     (case heir_if_ownerless (fst (lock_members db g)) (snd (lock_members db g)) of
        None \<Rightarrow> rows_of db g
      | Some h \<Rightarrow> map (\<lambda>m. if m_user m = h then stamp now AccountPurged m else m) (rows_of db g))"

lemma stamp_keeps [simp]: "m_group (stamp now r m) = m_group m" "m_user (stamp now r m) = m_user m"
  "m_role (stamp now r m) = Owner"
  by (simp_all add: stamp_def)

lemma rows_of_stamp:
  "rows_of (stamp_inheritance db now g u r) g' =
     (if g' = g then map (\<lambda>m. if m_user m = u then stamp now r m else m) (rows_of db g) else rows_of db g')"
proof -
  have "filter (\<lambda>m. m_group m = g') (map (\<lambda>m. if m_group m = g \<and> m_user m = u then stamp now r m else m) ms) =
      (if g' = g then map (\<lambda>m. if m_user m = u then stamp now r m else m) (filter (\<lambda>m. m_group m = g) ms)
       else filter (\<lambda>m. m_group m = g') ms)" for ms
    by (induction ms) auto
  then show ?thesis by (simp add: rows_of_def stamp_inheritance_def)
qed

lemma assign_heir_rows:
  "rows_of (snd (assign_heir show_id db now g AccountPurged)) g' = (if g' = g then heir_rows db now g else rows_of db g')"
  by (simp add: assign_heir_def heir_rows_def rows_of_stamp split: prod.split option.split)

lemma heir_rows_cong:
  "users db' = users db \<Longrightarrow> rows_of db' g = rows_of db g \<Longrightarrow> heir_rows db' now g = heir_rows db now g"
proof -
  assume u: "users db' = users db" and r: "rows_of db' g = rows_of db g"
  have f: "find_user db' = find_user db" by (simp add: find_user_def u fun_eq_iff)
  then have "remaining_of db' = remaining_of db" by (simp add: remaining_of_def fun_eq_iff)
  with f r show ?thesis by (simp add: heir_rows_def lock_members_def Let_def split: option.split)
qed

lemma assign_heirs_keeps:
  "same_rest db (assign_heirs show_id now gs db)"
  "groups (assign_heirs show_id now gs db) = groups db"
  "events (assign_heirs show_id now gs db) = events db"
  "attachments (assign_heirs show_id now gs db) = attachments db"
  by (induction gs arbitrary: db)
     (auto simp: assign_heir_tables intro: same_rest_trans [OF assign_heir_rest])

lemma assign_heirs_rows:
  "distinct gs \<Longrightarrow>
   rows_of (assign_heirs show_id now gs db) g = (if g \<in> set gs then heir_rows db now g else rows_of db g)"
proof (induction gs arbitrary: db)
  case (Cons h gs)
  let ?db = "snd (assign_heir show_id db now h AccountPurged)"
  have u: "users ?db = users db" using assign_heir_rest [of db show_id now h AccountPurged] by (simp add: same_rest_def grown_def)
  have "g \<noteq> h \<Longrightarrow> heir_rows ?db now g = heir_rows db now g"
    by (rule heir_rows_cong [OF u]) (simp add: assign_heir_rows)
  with Cons show ?case by (auto simp: assign_heir_rows)
qed simp

lemma filter_absent: "g \<notin> set gs \<Longrightarrow> filter (\<lambda>x. x \<noteq> g) gs = gs"
  by (induction gs) auto


text \<open>What the deletion of the groups \<open>gone\<close> leaves of the rows.\<close>

definition events_in :: "database \<Rightarrow> uuid set \<Rightarrow> uuid set" where
  "events_in db gone = fst ` {x \<in> set (events db). snd x \<in> gone}"

definition without_groups :: "uuid set \<Rightarrow> database \<Rightarrow> database \<Rightarrow> bool" where
  "without_groups gone db db' \<longleftrightarrow>
     groups db' = filter (\<lambda>g. g \<notin> gone) (groups db)
     \<and> events db' = filter (\<lambda>(_, g). g \<notin> gone) (events db)
     \<and> attachments db' = filter (\<lambda>(e, _). e \<notin> events_in db gone) (attachments db)
     \<and> owned db' = (\<lambda>t. filter (\<lambda>(_, og, _). \<not> (hangs_on_group t \<and> og \<in> Some ` gone)) (owned db t))
     \<and> notifications db' = filter (\<lambda>(_, _, g, _). g \<notin> gone) (notifications db)"

lemma without_none: "without_groups {} db db"
  by (simp add: without_groups_def events_in_def filter_id_conv split_def)

lemma without_more:
  assumes "without_groups a db db1" "without_groups b db1 db2"
  shows "without_groups (a \<union> b) db db2"
proof -
  have e: "e \<in> events_in db (a \<union> b) \<longleftrightarrow> e \<in> events_in db a \<or> e \<in> events_in db1 b" for e
    using assms(1) by (auto simp: without_groups_def events_in_def image_iff)
  show ?thesis
    using assms unfolding without_groups_def e
    by (auto intro!: filter_cong)
qed

lemma cascade_without: "without_groups {g} db (cascade_group db g)"
  by (auto simp: without_groups_def cascade_group_def events_in_def Let_def image_iff intro!: filter_cong)

lemma delete_if_keeps:
  "members (snd (delete_if_abandoned show_id db g)) = members db"
  "grown db (snd (delete_if_abandoned show_id db g))"
  "without_groups (if g \<in> set (groups db) \<and> rows_of db g = [] then {g} else {}) db
     (snd (delete_if_abandoned show_id db g))"
proof -
  have "rows_of db g = [] \<Longrightarrow> filter (\<lambda>m. m_group m \<noteq> g) (members db) = members db"
    by (auto simp: rows_of_def filter_empty_conv filter_id_conv)
  then show "members (snd (delete_if_abandoned show_id db g)) = members db"
    by (simp add: delete_if_abandoned_def cascade_group_def Let_def)
  show "grown db (snd (delete_if_abandoned show_id db g))"
    by (simp add: delete_if_abandoned_def cascade_group_def grown_def record_audit_def Let_def)
  have "without_groups {g} db (record_audit (cascade_group db g) w a t i j)" for w a t i j
    using cascade_without [of g db] by (simp add: without_groups_def)
  then show "without_groups (if g \<in> set (groups db) \<and> rows_of db g = [] then {g} else {}) db
      (snd (delete_if_abandoned show_id db g))"
    by (simp add: delete_if_abandoned_def without_none Let_def)
qed

lemma delete_if_keys:
  "fst (delete_if_abandoned show_id db g) =
     map snd (filter (\<lambda>(e, _). e \<in> events_in db (if g \<in> set (groups db) \<and> rows_of db g = [] then {g} else {}))
       (attachments db))"
  by (auto simp: delete_if_abandoned_def events_in_def Let_def image_iff intro!: arg_cong [where f = "map snd"] filter_cong)

lemma delete_abandoned_Cons:
  "snd (delete_abandoned show_id (g # gs) db) = snd (delete_abandoned show_id gs (snd (delete_if_abandoned show_id db g)))"
  "fst (delete_abandoned show_id (g # gs) db) = fst (delete_if_abandoned show_id db g) @
     fst (delete_abandoned show_id gs (snd (delete_if_abandoned show_id db g)))"
  by (simp_all split: prod.split)

lemma delete_abandoned_members: "members (snd (delete_abandoned show_id gs db)) = members db"
  by (induction gs arbitrary: db) (simp_all only: delete_abandoned_Cons delete_if_keeps delete_abandoned.simps(1) snd_conv)

lemma delete_abandoned_grown: "grown db (snd (delete_abandoned show_id gs db))"
proof (induction gs arbitrary: db)
  case (Cons g gs)
  show ?case unfolding delete_abandoned_Cons by (rule grown_trans [OF delete_if_keeps(2) Cons])
qed simp

definition abandoned :: "database \<Rightarrow> uuid list \<Rightarrow> uuid set" where
  "abandoned db gs = {g. g \<in> set gs \<and> g \<in> set (groups db) \<and> rows_of db g = []}"

lemma abandoned_Cons:
  "abandoned db (g # gs) =
     (if g \<in> set (groups db) \<and> rows_of db g = [] then {g} else {}) \<union>
     abandoned (snd (delete_if_abandoned show_id db g)) gs"
  using delete_if_keeps(3) [of g db show_id]
  by (auto simp: abandoned_def without_groups_def rows_of_def delete_if_keeps(1) split: if_splits)

lemma delete_abandoned_without:
  "without_groups (abandoned db gs) db (snd (delete_abandoned show_id gs db))"
proof (induction gs arbitrary: db)
  case Nil
  then show ?case by (simp add: abandoned_def without_none)
next
  case (Cons g gs)
  show ?case unfolding abandoned_Cons [of db g gs show_id] delete_abandoned_Cons
    by (rule without_more [OF delete_if_keeps(3) Cons])
qed

text \<open>The objects deleted with the groups: those of the attachments that went.\<close>

lemma delete_abandoned_keys:
  "set (fst (delete_abandoned show_id gs db)) =
     snd ` {x \<in> set (attachments db). fst x \<in> events_in db (abandoned db gs)}"
proof (induction gs arbitrary: db)
  case Nil
  then show ?case by (simp add: abandoned_def events_in_def)
next
  case (Cons g gs)
  let ?g = "if g \<in> set (groups db) \<and> rows_of db g = [] then {g} else {}"
  let ?db = "snd (delete_if_abandoned show_id db g)"
  have w: "without_groups ?g db ?db" by (rule delete_if_keeps(3))
  have e: "events_in db (abandoned db (g # gs)) = events_in db ?g \<union> events_in ?db (abandoned ?db gs)"
    unfolding abandoned_Cons [of db g gs show_id] using w
    by (auto simp: without_groups_def events_in_def image_iff)
  have a: "set (attachments ?db) = {x \<in> set (attachments db). fst x \<notin> events_in db ?g}"
    using w by (auto simp: without_groups_def)
  show ?case unfolding delete_abandoned_Cons set_append Cons e delete_if_keys a
    by (auto simp: image_iff)
qed

text \<open>The rows a table may hold: one per member of a group, at most one owner of it.\<close>

definition members_ok :: "database \<Rightarrow> bool" where
  "members_ok db \<longleftrightarrow>
     distinct (map (\<lambda>m. (m_group m, m_user m)) (members db)) \<and>
     (\<forall>g. length (filter (\<lambda>m. m_role m = Owner) (rows_of db g)) \<le> 1) \<and>
     (\<forall>m \<in> set (members db). find_user db (m_user m) \<noteq> None)"

definition owners_of :: "database \<Rightarrow> uuid \<Rightarrow> uuid list" where
  "owners_of db g = map m_user (filter (\<lambda>m. m_role m = Owner) (rows_of db g))"

lemma distinct_filter_snd:
  "distinct (map (\<lambda>m. (f m, h m)) ms) \<Longrightarrow> distinct (map h (filter (\<lambda>m. f m = g) ms))"
proof (induction ms)
  case (Cons a ms)
  then have "(f a, h a) \<notin> (\<lambda>m. (f m, h m)) ` set ms" by simp
  with Cons show ?case by (auto simp: image_iff)
qed simp

lemma assign_heirs_keys:
  "map (\<lambda>m. (m_group m, m_user m)) (members (assign_heirs show_id now gs db)) =
   map (\<lambda>m. (m_group m, m_user m)) (members db)"
proof (induction gs arbitrary: db)
  case (Cons g gs)
  have "map (\<lambda>m. (m_group m, m_user m)) (members (snd (assign_heir show_id db now g AccountPurged))) =
      map (\<lambda>m. (m_group m, m_user m)) (members db)"
    by (auto simp: assign_heir_def stamp_inheritance_def split: prod.split option.split)
  with Cons show ?case by simp
qed simp

lemma rows_users_distinct: "members_ok db \<Longrightarrow> distinct (map m_user (rows_of db g))"
  unfolding rows_of_def by (rule distinct_filter_snd) (simp add: members_ok_def)

text \<open>The intermediate states of a purge, and what each leaves of the rows.\<close>

definition left_members :: "database \<Rightarrow> uuid \<Rightarrow> database" where
  "left_members db uid = db\<lparr>members := filter (\<lambda>m. m_user m \<noteq> uid) (members db)\<rparr>"

lemma keys_of_left: "map (\<lambda>m. (m_group m, m_user m)) (members (left_members db uid)) =
    filter (\<lambda>k. snd k \<noteq> uid) (map (\<lambda>m. (m_group m, m_user m)) (members db))"
  by (simp add: left_members_def filter_map o_def)

lemma rows_of_empty: "rows_of db g = [] \<longleftrightarrow> g \<notin> fst ` set (map (\<lambda>m. (m_group m, m_user m)) (members db))"
  by (auto simp: rows_of_def filter_empty_conv image_iff)

text \<open>The groups an account is the only member of.\<close>

definition sole_groups :: "database \<Rightarrow> uuid \<Rightarrow> uuid set" where
  "sole_groups db uid = {g \<in> set (groups db).
     (\<exists>m \<in> set (members db). m_group m = g \<and> m_user m = uid) \<and>
     (\<forall>m \<in> set (members db). m_group m = g \<longrightarrow> m_user m = uid)}"

lemma abandoned_sole:
  "abandoned (assign_heirs show_id now hs (left_members db uid)) (map m_group (filter (\<lambda>m. m_user m = uid) (members db)))
     = sole_groups db uid"
proof -
  have "groups (assign_heirs show_id now hs (left_members db uid)) = groups db"
    by (simp add: assign_heirs_keeps left_members_def)
  moreover have "rows_of (assign_heirs show_id now hs (left_members db uid)) g = [] \<longleftrightarrow>
      (\<forall>m \<in> set (members db). m_group m = g \<longrightarrow> m_user m = uid)" for g
    unfolding rows_of_empty assign_heirs_keys keys_of_left by force
  ultimately show ?thesis unfolding abandoned_def sole_groups_def by auto
qed

lemma purge_account_states:
  fixes show_id :: "uuid \<Rightarrow> string"
  assumes u: "find_user db uid = Some u" and due: "purge_due cal now (clock_of db u)"
  defines "ms \<equiv> filter (\<lambda>m. m_user m = uid) (members db)"
  defines "db2 \<equiv> assign_heirs show_id now (map m_group (filter (\<lambda>m. m_role m = Owner) ms)) (left_members db uid)"
  defines "gone \<equiv> sole_groups db uid"
  defines "db' \<equiv> snd (purge_account show_id cal now uid db)"
  shows "members db' = members db2"
    and "groups db' = filter (\<lambda>g. g \<notin> gone) (groups db)"
    and "users db' = map (\<lambda>u. if u_id u = uid then anonymise show_id now u else u) (users db)"
    and "owned db' = (\<lambda>t. filter (\<lambda>(o', og, _). o' \<noteq> uid \<and> \<not> (hangs_on_group t \<and> og \<in> Some ` gone)) (owned db t))"
    and "notifications db' = filter (\<lambda>(u, a, g, _). u \<noteq> uid \<and> a \<noteq> Some uid \<and> g \<notin> gone) (notifications db)"
    and "\<exists>new. audit_log db' = filter (\<lambda>a. actor a \<noteq> Some uid) (audit_log db) @ new \<and> (\<forall>a \<in> set new. actor a = None)"
    and "events db' = filter (\<lambda>(_, g). g \<notin> gone) (events db)"
    and "attachments db' = filter (\<lambda>(e, _). e \<notin> events_in db gone) (attachments db)"
    and "set (fst (purge_account show_id cal now uid db)) =
      snd ` {x \<in> set (attachments db). fst x \<in> events_in db gone} \<union> set_option (avatar_key u)"
proof -
  let ?db3 = "snd (delete_abandoned show_id (map m_group ms) db2)"
  let ?db4 = "delete_personal ?db3 uid"
  have r2: "same_rest (left_members db uid) db2" unfolding db2_def by (rule assign_heirs_keeps)
  then have g2: "grown (left_members db uid) db2" by (simp add: same_rest_def)
  have r3: "grown (left_members db uid) ?db3" by (rule grown_trans [OF g2 delete_abandoned_grown])
  have f4: "find_user ?db4 uid = Some u"
    using u r3 by (simp add: find_user_def delete_personal_def grown_def left_members_def)
  have p: "purge_account show_id cal now uid db =
      (fst (delete_abandoned show_id (map m_group ms) db2) @ (case avatar_key u of Some k \<Rightarrow> [k] | None \<Rightarrow> []),
       record_audit (?db4\<lparr>users := map (\<lambda>u. if u_id u = uid then anonymise show_id now u else u) (users ?db4)\<rparr>)
         None ''account_purged'' ''user'' (show_id uid) [])"
    using u due f4 by (simp add: purge_account_def ms_def db2_def left_members_def Let_def case_prod_beta')
  have ab: "abandoned db2 (map m_group ms) = gone" unfolding db2_def ms_def gone_def by (rule abandoned_sole)
  have same1: "groups db2 = groups db" "events db2 = events db" "attachments db2 = attachments db"
    by (simp_all add: db2_def assign_heirs_keeps left_members_def)
  have same2: "owned db2 = owned db" "notifications db2 = notifications db"
    using r2 by (simp_all add: same_rest_def left_members_def)
  note same = same1 same2
  have ev: "events_in db2 gone = events_in db gone" by (simp add: events_in_def same)
  note w = delete_abandoned_without [of db2 "map m_group ms" show_id, unfolded ab without_groups_def same ev]
  note db' = db'_def [unfolded p snd_conv]
  show "members db' = members db2" by (simp add: db' delete_personal_def delete_abandoned_members)
  show "groups db' = filter (\<lambda>g. g \<notin> gone) (groups db)" using w by (simp add: db' delete_personal_def)
  show "users db' = map (\<lambda>u. if u_id u = uid then anonymise show_id now u else u) (users db)"
    using r3 by (simp add: db' delete_personal_def grown_def left_members_def)
  show "owned db' = (\<lambda>t. filter (\<lambda>(o', og, _). o' \<noteq> uid \<and> \<not> (hangs_on_group t \<and> og \<in> Some ` gone)) (owned db t))"
    using w by (simp add: db' delete_personal_def split_def conj_commute)
  show "notifications db' = filter (\<lambda>(u, a, g, _). u \<noteq> uid \<and> a \<noteq> Some uid \<and> g \<notin> gone) (notifications db)"
    using w by (simp add: db' delete_personal_def split_def conj_ac)
  show "events db' = filter (\<lambda>(_, g). g \<notin> gone) (events db)"
    "attachments db' = filter (\<lambda>(e, _). e \<notin> events_in db gone) (attachments db)"
    using w by (simp_all add: db' delete_personal_def)
  show "set (fst (purge_account show_id cal now uid db)) =
      snd ` {x \<in> set (attachments db). fst x \<in> events_in db gone} \<union> set_option (avatar_key u)"
    unfolding p fst_conv set_append delete_abandoned_keys ab ev same by (cases "avatar_key u") simp_all
  obtain new where new: "audit_log ?db3 = audit_log db @ new" "\<forall>a \<in> set new. actor a = None"
    using r3 by (auto simp: grown_def left_members_def)
  then have "filter (\<lambda>a. actor a \<noteq> Some uid) new = new" by (simp add: filter_id_conv)
  with new show "\<exists>new. audit_log db' = filter (\<lambda>a. actor a \<noteq> Some uid) (audit_log db) @ new \<and> (\<forall>a \<in> set new. actor a = None)"
    by (simp add: db' delete_personal_def record_audit_def)
qed



definition demo_user :: "uuid \<Rightarrow> instant option \<Rightarrow> user_row" where
  "demo_user i requested = \<lparr>u_id = i, u_email = ''a'', avatar_key = Some ''k'', password_hash = Some ''h'',
     display_name = ''n'', age_declared_at = Some 0, terms_accepted_version = None, terms_accepted_at = Some 0,
     u_deletion_requested_at = requested, u_deactivated_at = None, u_notice_sent_at = None, u_refused_at = None,
     u_deleted_at = None\<rparr>"

definition demo_member :: "uuid \<Rightarrow> uuid \<Rightarrow> role \<Rightarrow> instant \<Rightarrow> member_row" where
  "demo_member g i r t = \<lparr>m_group = g, m_user = i, m_role = r, m_joined_at = t, ownership_inherited_at = None,
     ownership_inherited_reason = None, ownership_notice_seen_at = None, ownership_email_sent_at = None\<rparr>"

definition demo_db :: database where
  "demo_db = \<lparr>users = [demo_user 1 (Some 0), demo_user 2 None, demo_user 3 None],
     members = [demo_member 10 1 Owner 0, demo_member 10 2 Member 5, demo_member 10 3 Admin 9, demo_member 11 1 Owner 0],
     groups = [10, 11], events = [(7, 11)], attachments = [(7, ''file'')],
     owned = (\<lambda>t. [(1, None, 0), (2, Some 11, 1), (2, Some 10, 2)]),
     notifications = [(1, None, 10, 0), (2, Some 1, 10, 1), (2, None, 10, 2), (2, None, 11, 3)], audit_log = []\<rparr>"

lemma demo_db_due:
  "find_user demo_db 1 = Some (demo_user 1 (Some 0))"
  "purge_due demo_months (days_dur 40) (clock_of demo_db (demo_user 1 (Some 0)))"
  by (simp_all add: find_user_def demo_db_def demo_user_def clock_of_def purge_due_def PURGE_GRACE_DAYS_def
      days_dur_def secs_def)



lemma left_rows: "rows_of (left_members db uid) g = filter (\<lambda>m. m_user m \<noteq> uid) (rows_of db g)"
  by (simp add: rows_of_def left_members_def conj_commute)

lemma left_find_user: "find_user (left_members db uid) = find_user db"
  by (simp add: find_user_def left_members_def fun_eq_iff)

lemma left_lock_members:
  assumes "members_ok db"
  shows "lock_members (left_members db uid) g =
    (list_ex (\<lambda>m. m_role m = Owner) (filter (\<lambda>m. m_user m \<noteq> uid) (rows_of db g)),
     List.map_filter (remaining_of db) (filter (\<lambda>m. m_user m \<noteq> uid) (rows_of db g)))"
proof -
  have "remaining_of (left_members db uid) = remaining_of db" by (simp add: remaining_of_def left_find_user fun_eq_iff)
  moreover have "filter (\<lambda>m. find_user db (m_user m) \<noteq> None) (filter (\<lambda>m. m_user m \<noteq> uid) (rows_of db g)) =
      filter (\<lambda>m. m_user m \<noteq> uid) (rows_of db g)"
    unfolding filter_id_conv using assms by (auto simp: members_ok_def rows_of_def)
  ultimately show ?thesis by (simp only: lock_members_def left_rows left_find_user Let_def)
qed

lemma owners_after_stamp:
  "distinct (map m_user ms) \<Longrightarrow> \<forall>m \<in> set ms. m_role m \<noteq> Owner \<Longrightarrow> h \<in> m_user ` set ms \<Longrightarrow>
   map m_user (filter (\<lambda>m. m_role m = Owner) (map (\<lambda>m. if m_user m = h then stamp now r m else m) ms)) = [h]"
proof (induction ms)
  case (Cons a ms)
  have none: "filter (\<lambda>m. m_role m = Owner) (map (\<lambda>m. if m_user m = h then stamp now r m else m) ms) = []"
    if "h \<notin> m_user ` set ms"
    using Cons.prems(2) that by (auto simp: filter_empty_conv)
  show ?case
  proof (cases "m_user a = h")
    case True
    with Cons.prems(1) have "h \<notin> m_user ` set ms" by auto
    from none [OF this] True show ?thesis by simp
  next
    case False
    with Cons show ?thesis by auto
  qed
qed simp

text \<open>Who else is in a group, as the handing over reads them.\<close>

definition others_in :: "database \<Rightarrow> uuid \<Rightarrow> uuid \<Rightarrow> remaining_member list" where
  "others_in db uid g = List.map_filter (remaining_of db) (filter (\<lambda>m. m_user m \<noteq> uid) (rows_of db g))"

lemma others_in_users: "successor (others_in db uid g) = Some h \<Longrightarrow> h \<in> m_user ` set (filter (\<lambda>m. m_user m \<noteq> uid) (rows_of db g))"
  unfolding successor_Some others_in_def by (force simp: remaining_of_def List.map_filter_def)

lemma sole_owner:
  assumes "members_ok db" "uid \<in> set (owners_of db g)" "m \<in> set (rows_of db g)" "m_user m \<noteq> uid"
  shows "m_role m \<noteq> Owner"
proof
  assume "m_role m = Owner"
  with assms(3) have m: "m \<in> set (filter (\<lambda>m. m_role m = Owner) (rows_of db g))" by simp
  from assms(2) obtain o' where o': "o' \<in> set (filter (\<lambda>m. m_role m = Owner) (rows_of db g))" "m_user o' = uid"
    by (auto simp: owners_of_def)
  have "length (filter (\<lambda>m. m_role m = Owner) (rows_of db g)) \<le> 1" using assms(1) unfolding members_ok_def by blast
  then have "m = o'" using m o'(1) by (cases "filter (\<lambda>m. m_role m = Owner) (rows_of db g)") auto
  with o'(2) assms(4) show False by simp
qed

lemma heir_rows_owner:
  assumes ok: "members_ok db" and o': "uid \<in> set (owners_of db g)"
  shows "map m_user (filter (\<lambda>m. m_role m = Owner) (heir_rows (left_members db uid) now g)) =
    (case successor (others_in db uid g) of None \<Rightarrow> [] | Some h \<Rightarrow> [h])"
proof -
  let ?ms = "filter (\<lambda>m. m_user m \<noteq> uid) (rows_of db g)"
  have none: "\<forall>m \<in> set ?ms. m_role m \<noteq> Owner" using sole_owner [OF ok o'] by simp
  then have ex: "\<not> list_ex (\<lambda>m. m_role m = Owner) ?ms" by (simp add: list_ex_iff)
  have rows: "heir_rows (left_members db uid) now g = (case successor (others_in db uid g) of None \<Rightarrow> ?ms
      | Some h \<Rightarrow> map (\<lambda>m. if m_user m = h then stamp now AccountPurged m else m) ?ms)"
    using ex by (simp only: heir_rows_def left_lock_members [OF ok] left_rows heir_if_ownerless_def fst_conv snd_conv
      others_in_def if_False)
  have d: "distinct (map m_user ?ms)" using rows_users_distinct [OF ok, of g] by (rule distinct_map_filter)
  show ?thesis
  proof (cases "successor (others_in db uid g)")
    case None
    with rows none show ?thesis by (auto simp: filter_empty_conv)
  next
    case (Some h)
    then show ?thesis unfolding rows using owners_after_stamp [OF d none others_in_users [OF Some]] by simp
  qed
qed

text \<open>The rows of a group once the account is purged.\<close>

lemma purged_rows:
  fixes show_id :: "uuid \<Rightarrow> string"
  assumes ok: "members_ok db" and u: "find_user db uid = Some u" and due: "purge_due cal now (clock_of db u)"
  shows "rows_of (snd (purge_account show_id cal now uid db)) g =
    (if uid \<in> set (owners_of db g) then heir_rows (left_members db uid) now g
     else filter (\<lambda>m. m_user m \<noteq> uid) (rows_of db g))"
proof -
  let ?gs = "map m_group (filter (\<lambda>m. m_role m = Owner) (filter (\<lambda>m. m_user m = uid) (members db)))"
  have "distinct (map m_group (filter (\<lambda>m. m_user m = uid) (members db)))"
    by (rule distinct_filter_snd) (use ok in \<open>auto simp: members_ok_def distinct_map inj_on_def\<close>)
  then have d: "distinct ?gs" by (rule distinct_map_filter)
  have g: "g \<in> set ?gs \<longleftrightarrow> uid \<in> set (owners_of db g)" by (auto simp: owners_of_def rows_of_def)
  show ?thesis
    using assign_heirs_rows [OF d, of show_id now "left_members db uid" g]
    by (simp only: rows_of_def [of "snd _"] purge_account_states(1) [OF u due] rows_of_def [symmetric] g left_rows)
qed

lemma anonymise_id [simp]: "u_id (anonymise show_id now u) = u_id u"
  by (simp add: anonymise_def)

lemma find_user_known: "find_user db x \<noteq> None \<longleftrightarrow> x \<in> u_id ` set (users db)"
  by (auto simp: find_user_def find_None_iff)

lemma only_member: "distinct us \<Longrightarrow> us = [x] \<longleftrightarrow> x \<in> set us \<and> (\<forall>y \<in> set us. y = x)"
  by (cases us) (auto, metis list.set_intros(1) neq_Nil_conv)

lemma owners_of_purged:
  assumes ok: "members_ok db" and u: "find_user db uid = Some u" and due: "purge_due cal now (clock_of db u)"
  shows "owners_of (snd (purge_account show_id cal now uid db)) g =
    (if uid \<in> set (owners_of db g) then case successor (others_in db uid g) of None \<Rightarrow> [] | Some h \<Rightarrow> [h]
     else owners_of db g)"
proof (cases "uid \<in> set (owners_of db g)")
  case True
  then show ?thesis by (simp only: owners_of_def [of "snd _"] purged_rows [OF assms] if_True heir_rows_owner [OF ok True])
next
  case False
  then have "filter (\<lambda>m. m_role m = Owner) (filter (\<lambda>m. m_user m \<noteq> uid) (rows_of db g)) =
      filter (\<lambda>m. m_role m = Owner) (rows_of db g)"
    unfolding filter_filter by (intro filter_cong) (auto simp: owners_of_def)
  with False show ?thesis by (simp only: owners_of_def [of "snd _"] purged_rows [OF assms] if_False)
    (simp only: owners_of_def)
qed

text \<open>
  A purge leaves every group in order. A group the account owned passes to the heir that
  \<open>successor\<close> names among its other members and has no other owner -- none when nobody may
  inherit -- and every other group keeps its owner; so a group never has two. Nobody else joins
  or leaves a group. The groups deleted are exactly those the account was the only member of.
\<close>

theorem groups_after_the_purge:
  fixes show_id :: "uuid \<Rightarrow> string"
  assumes ok: "members_ok db" and u: "find_user db uid = Some u" and due: "purge_due cal now (clock_of db u)"
    and db': "db' = snd (purge_account show_id cal now uid db)"
  shows "(\<forall>g. owners_of db' g = (if uid \<in> set (owners_of db g)
            then case successor (others_in db uid g) of None \<Rightarrow> [] | Some h \<Rightarrow> [h] else owners_of db g))
    \<and> members_ok db'
    \<and> map (\<lambda>m. (m_group m, m_user m)) (members db') =
        filter (\<lambda>k. snd k \<noteq> uid) (map (\<lambda>m. (m_group m, m_user m)) (members db))
    \<and> (\<forall>g. g \<in> set (groups db') \<longleftrightarrow> g \<in> set (groups db) \<and> map m_user (rows_of db g) \<noteq> [uid])"
proof -
  note st = purge_account_states [OF u due, where show_id = show_id, folded db']
  note owners = owners_of_purged [OF ok u due, of show_id, folded db']
  have keys: "map (\<lambda>m. (m_group m, m_user m)) (members db') =
      filter (\<lambda>k. snd k \<noteq> uid) (map (\<lambda>m. (m_group m, m_user m)) (members db))"
    by (simp only: st(1) assign_heirs_keys keys_of_left)
  have "length (filter (\<lambda>m. m_role m = Owner) (rows_of db' g)) \<le> 1" for g
  proof -
    have "length (owners_of db g) \<le> 1" using ok by (simp add: owners_of_def members_ok_def)
    then have "length (owners_of db' g) \<le> 1" unfolding owners by (simp split: option.split)
    then show ?thesis by (simp only: owners_of_def length_map)
  qed
  moreover have "map u_id (users db') = map u_id (users db)" by (simp add: st(3))
  then have "find_user db' x \<noteq> None \<longleftrightarrow> find_user db x \<noteq> None" for x
    unfolding find_user_known by (metis list.set_map)
  moreover have "m_user ` set (members db') \<subseteq> m_user ` set (members db)"
    using arg_cong [OF keys, where f = "\<lambda>l. snd ` set l"] by (auto simp: image_image)
  ultimately have ok': "members_ok db'"
    using ok unfolding members_ok_def keys by (auto simp: distinct_filter)
  have "g \<in> sole_groups db uid \<longleftrightarrow> g \<in> set (groups db) \<and> uid \<in> set (map m_user (rows_of db g))
      \<and> (\<forall>y \<in> set (map m_user (rows_of db g)). y = uid)" for g
    by (auto simp: sole_groups_def rows_of_def)
  then have "g \<in> sole_groups db uid \<longleftrightarrow> g \<in> set (groups db) \<and> map m_user (rows_of db g) = [uid]" for g
    by (simp only: only_member [OF rows_users_distinct [OF ok]])
  then have "g \<in> set (groups db') \<longleftrightarrow> g \<in> set (groups db) \<and> map m_user (rows_of db g) \<noteq> [uid]" for g
    unfolding st(2) by auto
  with owners ok' keys show ?thesis by blast
qed

lemma demo_db_ok: "members_ok demo_db"
  by (auto simp: members_ok_def demo_db_def demo_member_def demo_user_def find_user_def rows_of_def)

lemma groups_after_the_purge_witness:
  "owners_of (snd (purge_account show_nat demo_months (days_dur 40) 1 demo_db)) 10 = [3]
   \<and> 11 \<notin> set (groups (snd (purge_account show_nat demo_months (days_dur 40) 1 demo_db)))"
proof -
  have o': "1 \<in> set (owners_of demo_db 10)" by (simp add: owners_of_def rows_of_def demo_db_def demo_member_def)
  have s: "successor (others_in demo_db 1 10) = Some 3"
    by (simp add: others_in_def remaining_of_def rows_of_def demo_db_def demo_member_def demo_user_def find_user_def
        successor_def rank_def)
  have r: "map m_user (rows_of demo_db 11) = [1]" by (simp add: rows_of_def demo_db_def demo_member_def)
  note after = groups_after_the_purge [OF demo_db_ok demo_db_due refl, of show_nat]
  show ?thesis using after o' s r by simp
qed

end
