(* ===== verification/Purge_Pass.thy ===== *)
theory Purge_Pass
  imports Account_Purge
begin

text \<open>
  The hourly pass over the accounts (\<open>send_deactivation_notices\<close>, \<open>purge_due_accounts\<close> of
  \<open>apps/api/src/jobs/account_purge.rs\<close>, \<open>send_ownership_notices\<close> of
  \<open>apps/api/src/groups/succession.rs\<close>): warnings, then purges, then the news of an inherited group.

  Each account is handled in a transaction of its own. What its turn meets is a parameter: the
  instant of the transaction, what other transactions commit before it, and whether the database
  fails it. The mail relay is a function of a state of its own that answers whether it took a mail;
  a mail is the arguments its text is written from.
\<close>

datatype mail =
    Deactivation_notice instant instant
  | Ownership_notice uuid ownership_reason

type_synonym 'r relay = "'r \<Rightarrow> string \<Rightarrow> mail \<Rightarrow> bool \<times> 'r"

datatype db_failure = No_failure | Before_sending | At_commit

record turn =
  turn_now :: instant
  meanwhile :: "database \<Rightarrow> database"
  failure :: db_failure

section \<open>Warnings\<close>

definition notice_candidates :: "database \<Rightarrow> uuid list" where
  "notice_candidates db =
     map u_id (filter (\<lambda>u. u_deactivated_at u \<noteq> None \<and> u_notice_sent_at u = None \<and> u_deleted_at u = None) (users db))"

definition stamp_notice :: "database \<Rightarrow> uuid \<Rightarrow> instant \<Rightarrow> database" where
  "stamp_notice db uid now =
     db\<lparr>users := map (\<lambda>u. if u_id u = uid then u\<lparr>u_notice_sent_at := Some now\<rparr> else u) (users db)\<rparr>"

definition send_notice ::
    "months \<Rightarrow> 'r relay \<Rightarrow> turn \<Rightarrow> uuid \<Rightarrow> database \<Rightarrow> 'r \<Rightarrow> database \<times> 'r \<times> bool" where
  "send_notice cal send t uid db r =
     (let db = meanwhile t db; now = turn_now t
      in if failure t = Before_sending then (db, r, False)
         else case find_user db uid of
           None \<Rightarrow> (db, r, True)
         | Some u \<Rightarrow>
             (case (deactivation_notice_due cal now (clock_of db u), u_deactivated_at u) of
                (True, Some at) \<Rightarrow>
                  (let (taken, r) = send r (u_email u)
                         (Deactivation_notice at (deactivation_purge_at cal at (Some now) (u_refused_at u)))
                   in if \<not> taken then (db, r, True)
                      else if failure t = At_commit then (db, r, False)
                      else (stamp_notice db uid now, r, True))
              | _ \<Rightarrow> (db, r, True)))"

fun notice_loop ::
    "months \<Rightarrow> 'r relay \<Rightarrow> (uuid \<Rightarrow> turn) \<Rightarrow> uuid list \<Rightarrow> database \<Rightarrow> 'r \<Rightarrow> database \<times> 'r \<times> bool" where
  "notice_loop cal send env [] db r = (db, r, True)"
| "notice_loop cal send env (uid # uids) db r =
     (let (db, r, ok) = send_notice cal send (env uid) uid db r
      in if ok then notice_loop cal send env uids db r else (db, r, False))"

definition send_deactivation_notices ::
    "months \<Rightarrow> 'r relay \<Rightarrow> (uuid \<Rightarrow> turn) \<Rightarrow> database \<Rightarrow> 'r \<Rightarrow> database \<times> 'r \<times> bool" where
  "send_deactivation_notices cal send env db r = notice_loop cal send env (notice_candidates db) db r"

section \<open>Purges\<close>

definition purge_candidates :: "database \<Rightarrow> uuid list" where
  "purge_candidates db =
     map u_id (filter (\<lambda>u. (u_deletion_requested_at u \<noteq> None \<or> u_deactivated_at u \<noteq> None) \<and> u_deleted_at u = None) (users db))"

fun purge_loop ::
    "(uuid \<Rightarrow> string) \<Rightarrow> months \<Rightarrow> (uuid \<Rightarrow> turn) \<Rightarrow> uuid list \<Rightarrow> database \<Rightarrow> string list \<times> database" where
  "purge_loop show_id cal env [] db = ([], db)"
| "purge_loop show_id cal env (uid # uids) db =
     (let db = meanwhile (env uid) db;
          (keys, db) = (if failure (env uid) = No_failure
                        then purge_account show_id cal (turn_now (env uid)) uid db else ([], db));
          (more, db) = purge_loop show_id cal env uids db
      in (keys @ more, db))"

text \<open>\<open>None\<close>: the role does not bypass row level security, and the pass refuses to run.\<close>

definition purge_due_accounts ::
    "(uuid \<Rightarrow> string) \<Rightarrow> months \<Rightarrow> bool \<Rightarrow> (uuid \<Rightarrow> turn) \<Rightarrow> database \<Rightarrow> (string list \<times> database) option" where
  "purge_due_accounts show_id cal bypasses_rls env db =
     (if \<not> bypasses_rls then None else Some (purge_loop show_id cal env (purge_candidates db) db))"

section \<open>The news of an inherited group\<close>

definition ownership_candidates :: "database \<Rightarrow> (uuid \<times> uuid) list" where
  "ownership_candidates db =
     map (\<lambda>m. (m_group m, m_user m))
       (filter (\<lambda>m. ownership_inherited_at m \<noteq> None \<and> ownership_email_sent_at m = None) (members db))"

definition stamp_ownership_email :: "database \<Rightarrow> uuid \<times> uuid \<Rightarrow> instant \<Rightarrow> database" where
  "stamp_ownership_email db k now =
     db\<lparr>members := map (\<lambda>m. if (m_group m, m_user m) = k then m\<lparr>ownership_email_sent_at := Some now\<rparr> else m) (members db)\<rparr>"

definition ownership_pending :: "database \<Rightarrow> uuid \<times> uuid \<Rightarrow> (user_row \<times> string option) option" where
  "ownership_pending db k =
     (case (find (\<lambda>m. (m_group m, m_user m) = k) (members db), find_user db (snd k)) of
        (Some m, Some u) \<Rightarrow>
          if fst k \<in> set (groups db) \<and> ownership_inherited_at m \<noteq> None \<and> ownership_email_sent_at m = None \<and> u_deleted_at u = None
          then Some (u, ownership_inherited_reason m) else None
      | _ \<Rightarrow> None)"

definition send_ownership_notice ::
    "'r relay \<Rightarrow> turn \<Rightarrow> uuid \<times> uuid \<Rightarrow> database \<Rightarrow> 'r \<Rightarrow> database \<times> 'r \<times> bool" where
  "send_ownership_notice send t k db r =
     (let db = meanwhile t db
      in if failure t = Before_sending then (db, r, False)
         else case ownership_pending db k of
           None \<Rightarrow> (db, r, True)
         | Some (u, raw) \<Rightarrow>
             (case raw of None \<Rightarrow> (db, r, False)
              | Some value \<Rightarrow>
                (case parse_reason value of
                   None \<Rightarrow> (db, r, True)
                 | Some reason \<Rightarrow>
                     (let (taken, r) = send r (u_email u) (Ownership_notice (fst k) reason)
                      in if \<not> taken then (db, r, True)
                         else if failure t = At_commit then (db, r, False)
                         else (stamp_ownership_email db k (turn_now t), r, True)))))"

fun ownership_loop ::
    "'r relay \<Rightarrow> (uuid \<times> uuid \<Rightarrow> turn) \<Rightarrow> (uuid \<times> uuid) list \<Rightarrow> database \<Rightarrow> 'r \<Rightarrow> database \<times> 'r \<times> bool" where
  "ownership_loop send env [] db r = (db, r, True)"
| "ownership_loop send env (k # ks) db r =
     (let (db, r, ok) = send_ownership_notice send (env k) k db r
      in if ok then ownership_loop send env ks db r else (db, r, False))"

definition send_ownership_notices ::
    "bool \<Rightarrow> 'r relay \<Rightarrow> (uuid \<times> uuid \<Rightarrow> turn) \<Rightarrow> database \<Rightarrow> 'r \<Rightarrow> (database \<times> 'r \<times> bool) option" where
  "send_ownership_notices bypasses_rls send env db r =
     (if \<not> bypasses_rls then None else Some (ownership_loop send env (ownership_candidates db) db r))"

section \<open>One tick of the worker\<close>

record pass_env =
  notice_turns :: "uuid \<Rightarrow> turn"
  purge_turns :: "uuid \<Rightarrow> turn"
  ownership_turns :: "uuid \<times> uuid \<Rightarrow> turn"

text \<open>An error of a step is logged and the next one runs.\<close>

definition purge_pass ::
    "(uuid \<Rightarrow> string) \<Rightarrow> months \<Rightarrow> 'r relay \<Rightarrow> bool \<Rightarrow> pass_env \<Rightarrow> database \<Rightarrow> 'r \<Rightarrow> string list \<times> database \<times> 'r" where
  "purge_pass show_id cal send bypasses_rls env db r =
     (let (db, r, _) = send_deactivation_notices cal send (notice_turns env) db r;
          (keys, db) = (case purge_due_accounts show_id cal bypasses_rls (purge_turns env) db of
                          Some res \<Rightarrow> res | None \<Rightarrow> ([], db));
          (db, r) = (case send_ownership_notices bypasses_rls send (ownership_turns env) db r of
                       Some (db, r, _) \<Rightarrow> (db, r) | None \<Rightarrow> (db, r))
      in (keys, db, r))"

section \<open>What a pass does to the clock of one account\<close>

definition clock_at :: "database \<Rightarrow> uuid \<Rightarrow> purge_clock option" where
  "clock_at db uid = map_option (clock_of db) (find_user db uid)"

text \<open>A transaction that leaves the account's row and its requests alone.\<close>

definition leaves_alone :: "uuid \<Rightarrow> (database \<Rightarrow> database) \<Rightarrow> bool" where
  "leaves_alone uid f \<longleftrightarrow> (\<forall>db. clock_at (f db) uid = clock_at db uid)"

lemma find_user_map:
  assumes "users db' = map f (users db)" "\<And>u. u_id (f u) = u_id u"
  shows "find_user db' uid = map_option f (find_user db uid)"
proof -
  have "find (\<lambda>u. u_id u = uid) (map f us) = map_option f (find (\<lambda>u. u_id u = uid) us)" for us
    by (induction us) (simp_all add: assms(2))
  with assms(1) show ?thesis by (simp add: find_user_def)
qed

lemma find_user_id: "find_user db uid = Some u \<Longrightarrow> u_id u = uid"
  by (auto simp: find_user_def find_Some_iff)

lemma clock_at_Some: "clock_at db uid = Some c \<longleftrightarrow> (\<exists>u. find_user db uid = Some u \<and> clock_of db u = c)"
  by (auto simp: clock_at_def)

lemma clock_at_None: "clock_at db uid = None \<longleftrightarrow> find_user db uid = None"
  by (simp add: clock_at_def)

text \<open>A change of the users' rows that keeps the row of \<open>uid\<close>, with its requests.\<close>

lemma clock_at_frame:
  assumes "users db' = map f (users db)" "\<And>u. u_id (f u) = u_id u" "\<And>u. u_id u = uid \<Longrightarrow> f u = u"
    and "(list_ex (\<lambda>(o', _). o' = uid) (owned db' Account_reactivation_requests)) =
      (list_ex (\<lambda>(o', _). o' = uid) (owned db Account_reactivation_requests))"
  shows "clock_at db' uid = clock_at db uid"
proof (cases "find_user db uid")
  case None
  with find_user_map [OF assms(1,2), of uid] show ?thesis by (simp add: clock_at_def)
next
  case (Some u)
  then have i: "u_id u = uid" by (rule find_user_id)
  with Some find_user_map [OF assms(1,2), of uid] assms(3) have "find_user db' uid = Some u" by simp
  with Some i assms(4) show ?thesis by (simp add: clock_at_def clock_of_def)
qed

lemma not_due_purge:
  "find_user db uid = None \<Longrightarrow> purge_account show_id cal now uid db = ([], db)"
  "find_user db uid = Some u \<Longrightarrow> \<not> purge_due cal now (clock_of db u) \<Longrightarrow> purge_account show_id cal now uid db = ([], db)"
  by (simp_all add: purge_account_def)

lemma purge_leaves_alone:
  fixes show_id :: "uuid \<Rightarrow> string"
  assumes "x \<noteq> uid"
  shows "clock_at (snd (purge_account show_id cal now uid db)) x = clock_at db x"
proof (cases "\<exists>u. find_user db uid = Some u \<and> purge_due cal now (clock_of db u)")
  case True
  then obtain u where u: "find_user db uid = Some u" "purge_due cal now (clock_of db u)" by blast
  note st = purge_account_states [OF u, of show_id]
  show ?thesis
    by (rule clock_at_frame [OF st(3)]) (use assms in \<open>auto simp: st(4) list_ex_iff\<close>)
next
  case False
  then show ?thesis by (cases "find_user db uid") (auto simp: not_due_purge)
qed

lemma purge_takes_the_due:
  fixes show_id :: "uuid \<Rightarrow> string"
  assumes "clock_at db uid = Some c" "purge_due cal now c"
  shows "\<exists>c'. clock_at (snd (purge_account show_id cal now uid db)) uid = Some c' \<and> deleted_at c' = Some now"
proof -
  from assms obtain u where u: "find_user db uid = Some u" "purge_due cal now (clock_of db u)"
    by (auto simp: clock_at_Some)
  note st = purge_account_states [OF u, of show_id]
  have "find_user (snd (purge_account show_id cal now uid db)) uid = Some (anonymise show_id now u)"
    using find_user_map [OF st(3), of uid] u(1) find_user_id [OF u(1)] by simp
  then show ?thesis by (simp add: clock_at_def clock_of_def anonymise_def)
qed

lemma purge_keeps_the_rest:
  "clock_at db uid = Some c \<Longrightarrow> \<not> purge_due cal now c \<Longrightarrow> snd (purge_account show_id cal now uid db) = db"
  by (auto simp: clock_at_Some not_due_purge)

lemma send_notice_leaves_alone:
  assumes "x \<noteq> uid" "leaves_alone x (meanwhile t)"
  shows "clock_at (fst (send_notice cal send t uid db r)) x = clock_at db x"
proof -
  have "clock_at (stamp_notice d uid now) x = clock_at d x" for d now
    by (rule clock_at_frame [of _ "\<lambda>u. if u_id u = uid then u\<lparr>u_notice_sent_at := Some now\<rparr> else u"])
       (use assms in \<open>auto simp: stamp_notice_def\<close>)
  with assms(2) show ?thesis
    by (auto simp: send_notice_def Let_def leaves_alone_def split: option.split bool.split prod.split)
qed

text \<open>The clocks the warnings may leave, from \<open>c\<close>.\<close>

definition warned :: "months \<Rightarrow> instant \<Rightarrow> purge_clock \<Rightarrow> purge_clock set" where
  "warned cal now c =
     (if deactivation_notice_due cal now c then {c, c\<lparr>deactivation_notice_sent_at := Some now\<rparr>} else {c})"

lemma warned_again: "c' \<in> warned cal now c \<Longrightarrow> warned cal now c' \<subseteq> warned cal now c"
  by (auto simp: warned_def deactivation_notice_due_def split: if_splits)

text \<open>The turn of the account itself: nothing, or the stamp of a warning that went out.\<close>

lemma send_notice_own:
  assumes "clock_at db uid = Some c" "leaves_alone uid (meanwhile t)"
  shows "clock_at (fst (send_notice cal send t uid db r)) uid \<in> Some ` warned cal (turn_now t) c"
proof -
  let ?d = "meanwhile t db"
  from assms have "clock_at ?d uid = Some c" by (simp add: leaves_alone_def)
  then obtain u where u: "find_user ?d uid = Some u" "clock_of ?d u = c" unfolding clock_at_Some by blast
  have "find_user (stamp_notice ?d uid now) uid = Some (u\<lparr>u_notice_sent_at := Some now\<rparr>)" for now
    using find_user_map [of "stamp_notice ?d uid now" "\<lambda>u. if u_id u = uid then u\<lparr>u_notice_sent_at := Some now\<rparr> else u" ?d uid]
      u(1) find_user_id [OF u(1)] by (simp add: stamp_notice_def)
  then have "clock_at (stamp_notice ?d uid now) uid = Some (c\<lparr>deactivation_notice_sent_at := Some now\<rparr>)" for now
    using u(2) by (auto simp: clock_at_def clock_of_def stamp_notice_def)
  then show ?thesis
    using u by (auto simp: send_notice_def Let_def clock_at_def warned_def split: option.split bool.split prod.split)
qed

lemma send_notice_clock:
  assumes "clock_at db uid = Some c'" "c' \<in> warned cal (turn_now (env uid)) c" "\<forall>x. leaves_alone uid (meanwhile (env x))"
  shows "\<exists>d. clock_at (fst (send_notice cal send (env x) x db r)) uid = Some d \<and> d \<in> warned cal (turn_now (env uid)) c"
proof (cases "x = uid")
  case True
  have "clock_at (fst (send_notice cal send (env uid) uid db r)) uid \<in> Some ` warned cal (turn_now (env uid)) c'"
    using send_notice_own [OF assms(1), of "env uid" cal send r] assms(3) by blast
  with True warned_again [OF assms(2)] show ?thesis by blast
next
  case False
  then have "clock_at (fst (send_notice cal send (env x) x db r)) uid = Some c'"
    using send_notice_leaves_alone [of uid x "env x" cal send db r] assms(1,3) by simp
  with assms(2) show ?thesis by blast
qed

lemma notice_loop_clock:
  assumes "clock_at db uid = Some c'" "c' \<in> warned cal (turn_now (env uid)) c" "\<forall>x. leaves_alone uid (meanwhile (env x))"
  shows "\<exists>d. clock_at (fst (notice_loop cal send env uids db r)) uid = Some d \<and> d \<in> warned cal (turn_now (env uid)) c"
  using assms(1,2)
proof (induction uids arbitrary: db r c')
  case (Cons x uids)
  obtain db1 r1 ok where s: "send_notice cal send (env x) x db r = (db1, r1, ok)" by (rule prod_cases3)
  obtain d where d: "clock_at db1 uid = Some d" "d \<in> warned cal (turn_now (env uid)) c"
    using send_notice_clock [where x = x, OF Cons.prems assms(3), where send = send and r = r] s by auto
  with Cons.IH [OF d] show ?case by (simp add: s)
qed auto

lemma purge_loop_Cons:
  "snd (purge_loop show_id cal env (x # uids) db) = snd (purge_loop show_id cal env uids
     (snd (if failure (env x) = No_failure then purge_account show_id cal (turn_now (env x)) x (meanwhile (env x) db)
           else ([], meanwhile (env x) db))))"
  by (simp add: Let_def case_prod_beta)

lemma purge_loop_keeps:
  fixes show_id :: "uuid \<Rightarrow> string"
  assumes "clock_at db uid = Some c" "\<not> purge_due cal (turn_now (env uid)) c" "\<forall>x. leaves_alone uid (meanwhile (env x))"
  shows "clock_at (snd (purge_loop show_id cal env uids db)) uid = Some c"
  using assms(1)
proof (induction uids arbitrary: db)
  case (Cons x uids)
  let ?d = "meanwhile (env x) db"
  have c: "clock_at ?d uid = Some c" using Cons.prems assms(3) by (simp add: leaves_alone_def)
  then have "clock_at (snd (purge_account show_id cal (turn_now (env x)) x ?d)) uid = Some c"
    using assms(2) by (cases "x = uid") (simp_all add: purge_keeps_the_rest purge_leaves_alone)
  with c have "clock_at (snd (if failure (env x) = No_failure
      then purge_account show_id cal (turn_now (env x)) x ?d else ([], ?d))) uid = Some c" by simp
  from Cons.IH [OF this] show ?case unfolding purge_loop_Cons .
qed simp

lemma purge_loop_deleted:
  fixes show_id :: "uuid \<Rightarrow> string"
  assumes "clock_at db uid = Some c" "deleted_at c \<noteq> None" "\<forall>x. leaves_alone uid (meanwhile (env x))"
  shows "clock_at (snd (purge_loop show_id cal env uids db)) uid = Some c"
  by (rule purge_loop_keeps [OF assms(1) _ assms(3)]) (use assms(2) in \<open>simp add: purge_due_def\<close>)

lemma purge_loop_takes:
  fixes show_id :: "uuid \<Rightarrow> string"
  assumes "clock_at db uid = Some c" "uid \<in> set uids" "purge_due cal (turn_now (env uid)) c"
    "failure (env uid) = No_failure" "\<forall>x. leaves_alone uid (meanwhile (env x))"
  shows "\<exists>c'. clock_at (snd (purge_loop show_id cal env uids db)) uid = Some c' \<and> deleted_at c' \<noteq> None"
  using assms(1,2)
proof (induction uids arbitrary: db)
  case (Cons x uids)
  let ?d = "meanwhile (env x) db"
  let ?e = "if failure (env x) = No_failure then purge_account show_id cal (turn_now (env x)) x ?d else ([], ?d)"
  have c: "clock_at ?d uid = Some c" using Cons.prems(1) assms(5) by (simp add: leaves_alone_def)
  show ?case
  proof (cases "x = uid")
    case True
    then obtain c' where "clock_at (snd ?e) uid = Some c'" "deleted_at c' \<noteq> None"
      using purge_takes_the_due [OF c assms(3), of show_id] assms(4) by auto
    then show ?thesis unfolding purge_loop_Cons using purge_loop_deleted [OF _ _ assms(5)] by blast
  next
    case False
    then have "clock_at (snd ?e) uid = Some c" using c by (simp add: purge_leaves_alone)
    then show ?thesis unfolding purge_loop_Cons using Cons.IH Cons.prems(2) False by simp
  qed
qed simp

lemma ownership_notice_clock:
  assumes "leaves_alone uid (meanwhile t)"
  shows "clock_at (fst (send_ownership_notice send t k db r)) uid = clock_at db uid"
proof -
  have "clock_at (stamp_ownership_email d k now) uid = clock_at d uid" for d now
    by (simp add: clock_at_def clock_of_def find_user_def stamp_ownership_email_def fun_eq_iff map_option_case split: option.split)
  with assms show ?thesis
    by (simp add: send_ownership_notice_def leaves_alone_def Let_def split: option.split prod.split)
qed

lemma ownership_loop_clock:
  assumes "\<forall>k. leaves_alone uid (meanwhile (env k))"
  shows "clock_at (fst (ownership_loop send env ks db r)) uid = clock_at db uid"
proof (induction ks arbitrary: db r)
  case (Cons k ks)
  obtain d r1 ok where s: "send_ownership_notice send (env k) k db r = (d, r1, ok)" by (rule prod_cases3)
  have "clock_at d uid = clock_at db uid"
    using ownership_notice_clock [of uid "env k" send k db r] assms s by simp
  with Cons show ?case by (simp add: s)
qed simp

text \<open>A pass during which no other transaction touches the account's row or its requests.\<close>

definition quiet :: "uuid \<Rightarrow> pass_env \<Rightarrow> bool" where
  "quiet uid env \<longleftrightarrow>
     (\<forall>x. leaves_alone uid (meanwhile (notice_turns env x))) \<and> (\<forall>x. leaves_alone uid (meanwhile (purge_turns env x))) \<and>
     (\<forall>k. leaves_alone uid (meanwhile (ownership_turns env k)))"

lemma purge_pass_parts:
  "fst (snd (purge_pass show_id cal send True env db r)) =
     (let (db1, r1, _) = send_deactivation_notices cal send (notice_turns env) db r;
          db2 = snd (purge_loop show_id cal (purge_turns env) (purge_candidates db1) db1)
      in fst (ownership_loop send (ownership_turns env) (ownership_candidates db2) db2 r1))"
  by (simp add: purge_pass_def purge_due_accounts_def send_ownership_notices_def Let_def case_prod_beta)

lemma purge_candidate:
  "clock_at db uid = Some c \<Longrightarrow> deactivated_at c \<noteq> None \<Longrightarrow> deleted_at c = None \<Longrightarrow> uid \<in> set (purge_candidates db)"
  by (auto simp: clock_at_Some clock_of_def purge_candidates_def find_user_def find_Some_iff)

lemma pass_keeps_deleted:
  fixes show_id :: "uuid \<Rightarrow> string"
  assumes "clock_at db uid = Some c" "deleted_at c \<noteq> None" "quiet uid env"
  shows "clock_at (fst (snd (purge_pass show_id cal send True env db r))) uid = Some c"
proof -
  obtain db1 r1 ok where n: "send_deactivation_notices cal send (notice_turns env) db r = (db1, r1, ok)" by (rule prod_cases3)
  have w: "warned cal now c = {c}" for now using assms(2) by (simp add: warned_def deactivation_notice_due_def)
  have "clock_at db1 uid = Some c"
    using notice_loop_clock [OF assms(1), of cal "notice_turns env" c send "notice_candidates db" r] assms(3) n
    by (simp add: w quiet_def send_deactivation_notices_def)
  then have "clock_at (snd (purge_loop show_id cal (purge_turns env) (purge_candidates db1) db1)) uid = Some c"
    using purge_loop_deleted [OF _ assms(2)] assms(3) by (simp add: quiet_def)
  then show ?thesis
    using assms(3) by (simp add: purge_pass_parts n Let_def ownership_loop_clock quiet_def)
qed

text \<open>One pass, seen from the account: it is purged if the warnings leave it due.\<close>

lemma pass_takes_or_warns:
  fixes show_id :: "uuid \<Rightarrow> string"
  assumes c: "clock_at db uid = Some c" "deactivated_at c \<noteq> None" "deleted_at c = None"
    and env: "quiet uid env" "failure (purge_turns env uid) = No_failure"
  obtains d where "d \<in> warned cal (turn_now (notice_turns env uid)) c"
    "if purge_due cal (turn_now (purge_turns env uid)) d
     then \<exists>e. clock_at (fst (snd (purge_pass show_id cal send True env db r))) uid = Some e \<and> deleted_at e \<noteq> None
     else clock_at (fst (snd (purge_pass show_id cal send True env db r))) uid = Some d"
proof -
  obtain db1 r1 ok where n: "send_deactivation_notices cal send (notice_turns env) db r = (db1, r1, ok)" by (rule prod_cases3)
  have "c \<in> warned cal (turn_now (notice_turns env uid)) c" by (simp add: warned_def)
  from notice_loop_clock [where env = "notice_turns env" and send = send and uids = "notice_candidates db" and r = r, OF c(1) this] env(1) n
  obtain d where d: "clock_at db1 uid = Some d" "d \<in> warned cal (turn_now (notice_turns env uid)) c"
    by (auto simp: send_deactivation_notices_def quiet_def)
  let ?db2 = "snd (purge_loop show_id cal (purge_turns env) (purge_candidates db1) db1)"
  have keep: "clock_at (fst (snd (purge_pass show_id cal send True env db r))) uid = clock_at ?db2 uid"
    using env(1) by (simp add: purge_pass_parts n Let_def ownership_loop_clock quiet_def)
  have alone: "\<forall>x. leaves_alone uid (meanwhile (purge_turns env x))" using env(1) by (simp add: quiet_def)
  have "uid \<in> set (purge_candidates db1)"
    using purge_candidate [OF d(1)] d(2) c(2,3) by (auto simp: warned_def split: if_splits)
  then show thesis
    using that [OF d(2)] purge_loop_takes [where env = "purge_turns env" and show_id = show_id, OF d(1) _ _ env(2) alone]
      purge_loop_keeps [where env = "purge_turns env" and show_id = show_id, OF d(1) _ alone] unfolding keep by auto
qed

text \<open>
  C17. A deactivated account is not kept forever, whatever the mail relay and the database do to
  the warnings: once the two years and thirty days are over, two passes that reach it, the second
  thirty days after the first, leave it purged -- the first if no warning ever went out, the
  second at the latest if one did. Nothing else is asked of the world than to leave the account
  alone and let its purge commit.
\<close>

theorem deactivated_account_goes:
  fixes show_id :: "uuid \<Rightarrow> string" and send send' :: "'r relay" and r r' :: 'r and db :: database
  assumes c: "clock_at db uid = Some c" "deactivated_at c = Some at" "\<not> suspended c"
      "\<And>s. deactivation_notice_sent_at c = Some s \<Longrightarrow> s \<le> turn_now (notice_turns env uid)"
      "\<And>t. reactivation_refused_at c = Some t \<Longrightarrow> t + days_dur 30 \<le> turn_now (purge_turns env uid)"
    and first: "quiet uid env" "failure (purge_turns env uid) = No_failure"
      "deactivation_retention_end cal at + days_dur 30 \<le> turn_now (purge_turns env uid)"
    and between: "leaves_alone uid other"
    and second: "quiet uid env'" "failure (purge_turns env' uid) = No_failure"
      "turn_now (notice_turns env uid) + days_dur 30 \<le> turn_now (purge_turns env' uid)"
      "turn_now (purge_turns env uid) \<le> turn_now (purge_turns env' uid)"
  defines "db1 \<equiv> fst (snd (purge_pass show_id cal send True env db r))"
  shows "\<exists>e. clock_at (fst (snd (purge_pass show_id cal send' True env' (other db1) r'))) uid = Some e \<and> deleted_at e \<noteq> None"
proof (cases "deleted_at c = None")
  case False
  from pass_keeps_deleted [OF c(1) False first(1), of show_id cal send r] between
  have "clock_at (other db1) uid = Some c" by (simp add: db1_def leaves_alone_def)
  from pass_keeps_deleted [OF this False second(1), of show_id cal send' r'] False show ?thesis by simp
next
  case True
  let ?n = "turn_now (notice_turns env uid)" and ?p' = "turn_now (purge_turns env' uid)"
  obtain d where d: "d \<in> warned cal ?n c"
    "if purge_due cal (turn_now (purge_turns env uid)) d then \<exists>e. clock_at db1 uid = Some e \<and> deleted_at e \<noteq> None
     else clock_at db1 uid = Some d"
    using pass_takes_or_warns [OF c(1) _ True first(1,2), of cal show_id send r] c(2) unfolding db1_def by auto
  show ?thesis
  proof (cases "purge_due cal (turn_now (purge_turns env uid)) d")
    case True
    with d(2) obtain e where e: "clock_at (other db1) uid = Some e" "deleted_at e \<noteq> None"
      using between by (auto simp: leaves_alone_def)
    from pass_keeps_deleted [OF e second(1), of show_id cal send' r'] e(2) show ?thesis by simp
  next
    case False
    have keep: "deactivated_at d = Some at" "\<not> suspended d" "deleted_at d = None"
      "reactivation_refused_at d = reactivation_refused_at c"
      using d(1) c(2,3) True by (auto simp: warned_def suspended_def split: if_splits)
    then obtain s where s: "deactivation_notice_sent_at d = Some s"
      using False first(3) c(5) by (cases "deactivation_notice_sent_at d")
        (auto simp: purge_due_def deactivation_purge_at_def DEACTIVATION_NOTICE_DAYS_def Let_def split: option.splits)
    have "s \<le> ?n" using d(1) s c(4) by (auto simp: warned_def split: if_splits)
    then have due: "purge_due cal ?p' d"
      using keep s c(5) first(3) second(3,4)
      by (force simp: purge_due_def deactivation_purge_at_def DEACTIVATION_NOTICE_DAYS_def days_dur_def secs_def Let_def
          split: option.split)
    have "clock_at (other db1) uid = Some d" using False d(2) between by (simp add: leaves_alone_def)
    from pass_takes_or_warns [OF this _ keep(3) second(1,2), of cal show_id send' r'] keep(1)
    obtain d' where d': "d' \<in> warned cal (turn_now (notice_turns env' uid)) d"
      "if purge_due cal ?p' d' then \<exists>e. clock_at (fst (snd (purge_pass show_id cal send' True env' (other db1) r'))) uid = Some e \<and> deleted_at e \<noteq> None
       else clock_at (fst (snd (purge_pass show_id cal send' True env' (other db1) r'))) uid = Some d'" by auto
    have "d' = d" using d'(1) s by (simp add: warned_def deactivation_notice_due_def)
    with d'(2) due show ?thesis by simp
  qed
qed

definition demo_turn :: "instant \<Rightarrow> turn" where
  "demo_turn now = \<lparr>turn_now = now, meanwhile = (\<lambda>db. db), failure = No_failure\<rparr>"

definition demo_env :: "instant \<Rightarrow> pass_env" where
  "demo_env now = \<lparr>notice_turns = (\<lambda>_. demo_turn now), purge_turns = (\<lambda>_. demo_turn now), ownership_turns = (\<lambda>_. demo_turn now)\<rparr>"

definition demo_relay :: "nat relay" where
  "demo_relay n to m = (True, n + 1)"

definition deactivated_db :: database where
  "deactivated_db = demo_db\<lparr>users := [(demo_user 4 None)\<lparr>u_deactivated_at := Some 0\<rparr>], owned := (\<lambda>_. [])\<rparr>"

lemma deactivated_account_goes_witness:
  "\<exists>e. clock_at (fst (snd (purge_pass show_nat demo_months demo_relay True (demo_env (days_dur 800))
      (fst (snd (purge_pass show_nat demo_months demo_relay True (demo_env (days_dur 760)) deactivated_db 0))) 0))) 4 = Some e
    \<and> deleted_at e \<noteq> None"
proof -
  let ?c = "\<lparr>deletion_requested_at = None, deactivated_at = Some 0, deactivation_notice_sent_at = None,
    deleted_at = None, reactivation_requested = False, reactivation_refused_at = None\<rparr>"
  have c: "clock_at deactivated_db 4 = Some ?c"
    by (simp add: clock_at_def clock_of_def find_user_def deactivated_db_def demo_db_def demo_user_def)
  have q: "quiet 4 (demo_env t)" for t by (simp add: quiet_def leaves_alone_def demo_env_def demo_turn_def)
  show ?thesis
    by (rule deactivated_account_goes [where other = "\<lambda>db. db" and at = 0, OF c _ _ _ _ q _ _ _ q])
       (simp_all add: suspended_def demo_env_def demo_turn_def demo_months_def deactivation_retention_end_def
         DEACTIVATION_RETENTION_MONTHS_def days_dur_def secs_def leaves_alone_def)
qed

end
