(* ===== verification/Markdown.thy ===== *)
theory Markdown
  imports Strings "HOL-Library.Monad_Syntax"
begin

text \<open>
  The texts the site serves and sends (\<open>apps/shared/src/validation/rgpd.rs\<close>): the renderer of the
  legal documents, the scan for the values they leave to fill, and the line a member's text is
  reduced to before it goes into an email.

  The renderer is a list of Unicode scalar values to a list of them. Its loops are partial
  functions with value \<open>None\<close>, which is also the value of an index or a slice out of range, where
  the code panics: that it always returns is a theorem.
\<close>

section \<open>Slices\<close>

text \<open>\<open>&xs[a..b]\<close>.\<close>

definition slice :: "nat \<Rightarrow> nat \<Rightarrow> 'x list \<Rightarrow> 'x list option" where
  "slice a b xs = (if a \<le> b \<and> b \<le> length xs then Some (take (b - a) (drop a xs)) else None)"

definition trim_end :: "utext \<Rightarrow> utext" where
  "trim_end s = rev (dropWhile is_whitespace (rev s))"

definition trim_start :: "utext \<Rightarrow> utext" where
  "trim_start s = dropWhile is_whitespace s"

text \<open>\<open>s.lines()\<close>.\<close>

definition strip_cr :: "utext \<Rightarrow> utext" where
  "strip_cr s = (if s \<noteq> [] \<and> last s = 13 then butlast s else s)"

definition text_lines :: "utext \<Rightarrow> utext list" where
  "text_lines s =
     (let ps = split_on 10 s
      in map strip_cr (butlast ps) @ (if last ps = [] then [] else [last ps]))"

section \<open>Inline markers\<close>

definition replace_char :: "nat \<Rightarrow> utext \<Rightarrow> utext \<Rightarrow> utext" where
  "replace_char c r s = concat (map (\<lambda>x. if x = c then r else [x]) s)"

definition escape_html :: "utext \<Rightarrow> utext" where
  "escape_html s =
     replace_char 34 (chars ''&quot;'') (replace_char 62 (chars ''&gt;'')
       (replace_char 60 (chars ''&lt;'') (replace_char 38 (chars ''&amp;'') s)))"

definition find_from :: "utext \<Rightarrow> nat \<Rightarrow> utext \<Rightarrow> nat option" where
  "find_from cs from' needle =
     find (\<lambda>i. take (length needle) (drop i cs) = needle) [from'..<length cs - (length needle - 1)]"

definition backtick_run :: "utext \<Rightarrow> nat \<Rightarrow> nat option" where
  "backtick_run cs at = map_option (\<lambda>tail. length (takeWhile (\<lambda>c. c = 96) tail)) (slice at (length cs) cs)"

partial_function (option) closing_backticks :: "utext \<Rightarrow> nat \<Rightarrow> nat \<Rightarrow> nat option option" where
  "closing_backticks cs i len =
     (if i < length cs then
        (if cs ! i = 96 then
           do { run \<leftarrow> backtick_run cs i;
                if run = len then Some (Some i) else closing_backticks cs (i + run) len }
         else closing_backticks cs (i + 1) len)
      else Some None)"

declare closing_backticks.simps [code]

definition link :: "utext \<Rightarrow> nat \<Rightarrow> (utext \<times> utext \<times> nat) option option" where
  "link cs start =
     (case find_from cs (start + 1) [93] of
        None \<Rightarrow> Some None
      | Some close \<Rightarrow>
          if \<not> (close + 1 < length cs \<and> cs ! (close + 1) = 40) then Some None
          else (case find_from cs (close + 2) [41] of
                  None \<Rightarrow> Some None
                | Some fin \<Rightarrow>
                    do { label \<leftarrow> slice (start + 1) close cs;
                         url \<leftarrow> slice (close + 2) fin cs;
                         Some (Some (label, url, fin + 1)) }))"

definition is_safe_url :: "utext \<Rightarrow> bool" where
  "is_safe_url url \<longleftrightarrow>
     starts_with (chars ''https://'') url \<or> starts_with (chars ''http://'') url \<or>
     starts_with (chars ''mailto:'') url \<or> starts_with [47] url \<or> starts_with [35] url"

definition code_content :: "utext \<Rightarrow> utext option" where
  "code_content s =
     (if 2 \<le> length s \<and> hd s = 32 \<and> last s = 32 \<and> \<not> list_all (\<lambda>c. c = 32) s
      then slice 1 (length s - 1) s else Some s)"

text \<open>One turn of the loop at \<open>i\<close>: what it writes, and where it goes on.\<close>

definition inline_step :: "utext \<Rightarrow> nat \<Rightarrow> (utext \<times> nat) option" where
  "inline_step cs i =
     (if cs ! i = 96 then
        do { run \<leftarrow> backtick_run cs i;
             closer \<leftarrow> closing_backticks cs (i + run) run;
             case closer of
               Some fin \<Rightarrow>
                 do { raw \<leftarrow> slice (i + run) fin cs;
                      content \<leftarrow> code_content raw;
                      Some (chars ''<code>'' @ content @ chars ''</code>'', fin + run) }
             | None \<Rightarrow> do { raw \<leftarrow> slice i (i + run) cs; Some (raw, i + run) } }
      else if cs ! i = 42 \<and> i + 1 < length cs \<and> cs ! (i + 1) = 42 then
        (case find_from cs (i + 2) [42, 42] of
           Some fin \<Rightarrow> do { raw \<leftarrow> slice (i + 2) fin cs;
                           Some (chars ''<strong>'' @ raw @ chars ''</strong>'', fin + 2) }
         | None \<Rightarrow> Some ([cs ! i], i + 1))
      else if cs ! i = 91 then
        do { l \<leftarrow> link cs i;
             case l of
               Some (label, url, after) \<Rightarrow>
                 if is_safe_url url
                 then Some (chars ''<a href='' @ [34] @ url @ [34, 62] @ label @ chars ''</a>'', after)
                 else Some ([cs ! i], i + 1)
             | None \<Rightarrow> Some ([cs ! i], i + 1) }
      else Some ([cs ! i], i + 1))"

partial_function (option) inline_loop :: "utext \<Rightarrow> utext \<Rightarrow> nat \<Rightarrow> utext option" where
  "inline_loop cs out i =
     (if i < length cs then
        do { st \<leftarrow> inline_step cs i; inline_loop cs (out @ fst st) (snd st) }
      else Some out)"

declare inline_loop.simps [code]

definition inline :: "utext \<Rightarrow> utext option" where
  "inline t = inline_loop (escape_html t) [] 0"

section \<open>Blocks\<close>

datatype block =
    No_block
  | Paragraph "utext list"
  | Items "utext list"
  | Table "utext list" "utext list list"

fun inline_all :: "utext list \<Rightarrow> utext list option" where
  "inline_all [] = Some []"
| "inline_all (t # ts) = do { h \<leftarrow> inline t; hs \<leftarrow> inline_all ts; Some (h # hs) }"

fun inline_rows :: "utext list list \<Rightarrow> utext list list option" where
  "inline_rows [] = Some []"
| "inline_rows (r # rs) = do { h \<leftarrow> inline_all r; hs \<leftarrow> inline_rows rs; Some (h # hs) }"

definition html_list :: "utext list \<Rightarrow> utext" where
  "html_list items =
     chars ''<ul>'' @ [10] @ concat (map (\<lambda>i. chars ''<li>'' @ i @ chars ''</li>'' @ [10]) items) @ chars ''</ul>''"

definition html_table :: "utext list \<Rightarrow> utext list list \<Rightarrow> utext" where
  "html_table header rows =
     chars ''<div class=\"table-wrap\"><table>'' @ [10] @ chars ''<thead><tr>'' @
     concat (map (\<lambda>c. chars ''<th scope=\"col\">'' @ c @ chars ''</th>'') header) @
     chars ''</tr></thead>'' @ [10] @ chars ''<tbody>'' @ [10] @
     concat (map (\<lambda>row. chars ''<tr>'' @ concat (map (\<lambda>c. chars ''<td>'' @ c @ chars ''</td>'') row) @
       chars ''</tr>'' @ [10]) rows) @
     chars ''</tbody>'' @ [10] @ chars ''</table></div>''"

fun flush :: "block \<Rightarrow> utext list \<Rightarrow> utext list option" where
  "flush No_block out = Some out"
| "flush (Paragraph ls) out =
     do { h \<leftarrow> inline (join_with [32] ls); Some (out @ [chars ''<p>'' @ h @ chars ''</p>'']) }"
| "flush (Items items) out = do { hs \<leftarrow> inline_all items; Some (out @ [html_list hs]) }"
| "flush (Table header rows) out =
     do { hd' \<leftarrow> inline_all header; rs \<leftarrow> inline_rows rows; Some (out @ [html_table hd' rs]) }"

definition heading_at :: "nat \<Rightarrow> utext \<Rightarrow> (nat \<times> utext) option" where
  "heading_at level trimmed =
     (case strip_prefix (replicate level 35 @ [32]) trimmed of
        Some rest \<Rightarrow> if starts_with [35] rest then None else Some (level, trim_text rest)
      | None \<Rightarrow> None)"

definition heading :: "utext \<Rightarrow> (nat \<times> utext) option" where
  "heading trimmed =
     (case heading_at 1 trimmed of
        Some h \<Rightarrow> Some h
      | None \<Rightarrow> (case heading_at 2 trimmed of Some h \<Rightarrow> Some h | None \<Rightarrow> heading_at 3 trimmed))"

definition table_cells :: "utext \<Rightarrow> utext list" where
  "table_cells trimmed = map trim_text (split_on 124 (trim_by (\<lambda>c. c = 124) trimmed))"

definition is_separator_row :: "utext list \<Rightarrow> bool" where
  "is_separator_row cells \<longleftrightarrow>
     cells \<noteq> [] \<and> list_all (\<lambda>c. let c = trim_by (\<lambda>x. x = 58) c in c \<noteq> [] \<and> list_all (\<lambda>x. x = 45) c) cells"

definition html_heading :: "nat \<Rightarrow> utext \<Rightarrow> utext" where
  "html_heading level h = chars (''<h'' @ show_nat level @ ''>'') @ h @ chars (''</h'' @ show_nat level @ ''>'')"

definition add_row :: "utext list \<Rightarrow> block \<Rightarrow> block" where
  "add_row cells block =
     (case block of
        Table header rows \<Rightarrow>
          if is_separator_row cells then Table header rows
          else if header = [] then Table cells rows else Table header (rows @ [cells])
      | b \<Rightarrow> b)"

definition add_item :: "utext \<Rightarrow> block \<Rightarrow> block" where
  "add_item item block = (case block of Items items \<Rightarrow> Items (items @ [trim_text item]) | b \<Rightarrow> b)"

definition continues_item :: "block \<Rightarrow> utext \<Rightarrow> bool" where
  "continues_item block line \<longleftrightarrow>
     (case block of Items items \<Rightarrow> line \<noteq> [] \<and> is_whitespace (hd line) \<and> items \<noteq> [] | _ \<Rightarrow> False)"

definition extend_last :: "utext \<Rightarrow> block \<Rightarrow> block" where
  "extend_last trimmed block =
     (case block of Items items \<Rightarrow> Items (butlast items @ [last items @ [32] @ trimmed]) | b \<Rightarrow> b)"

definition add_text_line :: "utext \<Rightarrow> block \<Rightarrow> block" where
  "add_text_line trimmed block = (case block of Paragraph ls \<Rightarrow> Paragraph (ls @ [trimmed]) | b \<Rightarrow> b)"

definition md_line :: "utext \<Rightarrow> block \<times> utext list \<Rightarrow> (block \<times> utext list) option" where
  "md_line raw s =
     (let line = trim_end raw; trimmed = trim_start line; (block, out) = s
      in if trimmed = [] then do { out \<leftarrow> flush block out; Some (No_block, out) }
         else case heading trimmed of
           Some (level, t) \<Rightarrow>
             do { out \<leftarrow> flush block out; h \<leftarrow> inline t; Some (No_block, out @ [html_heading level h]) }
         | None \<Rightarrow>
         (case strip_prefix (chars ''- '') trimmed of
           Some item \<Rightarrow>
             do { (block, out) \<leftarrow> (case block of Items is \<Rightarrow> Some (block, out)
                    | _ \<Rightarrow> do { out \<leftarrow> flush block out; Some (Items [], out) });
                  Some (add_item item block, out) }
         | None \<Rightarrow>
         if starts_with [124] trimmed then
             do { (block, out) \<leftarrow> (case block of Table h r \<Rightarrow> Some (block, out)
                    | _ \<Rightarrow> do { out \<leftarrow> flush block out; Some (Table [] [], out) });
                  Some (add_row (table_cells trimmed) block, out) }
         else if continues_item block line then Some (extend_last trimmed block, out)
         else
             do { (block, out) \<leftarrow> (case block of Paragraph ls \<Rightarrow> Some (block, out)
                    | _ \<Rightarrow> do { out \<leftarrow> flush block out; Some (Paragraph [], out) });
                  Some (add_text_line trimmed block, out) }))"

fun md_lines :: "utext list \<Rightarrow> block \<times> utext list \<Rightarrow> (block \<times> utext list) option" where
  "md_lines [] s = Some s"
| "md_lines (l # ls) s = do { s \<leftarrow> md_line l s; md_lines ls s }"

definition render_markdown :: "utext \<Rightarrow> utext option" where
  "render_markdown md =
     do { (block, out) \<leftarrow> md_lines (text_lines md) (No_block, []);
          out \<leftarrow> flush block out;
          Some (join_with [10] out) }"

section \<open>Indices stay in range and the loops end\<close>

lemma slice_Some: "slice a b xs = Some ys \<longleftrightarrow> a \<le> b \<and> b \<le> length xs \<and> ys = take (b - a) (drop a xs)"
  by (auto simp: slice_def)

lemma slice_in_range: "a \<le> b \<Longrightarrow> b \<le> length xs \<Longrightarrow> slice a b xs = Some (take (b - a) (drop a xs))"
  by (simp add: slice_def)

lemma set_slice: "slice a b xs = Some ys \<Longrightarrow> set ys \<subseteq> set xs"
  by (auto simp: slice_Some dest!: in_set_takeD in_set_dropD)

lemma find_from_Some:
  "find_from cs a needle = Some i \<Longrightarrow> needle \<noteq> [] \<Longrightarrow> a \<le> i \<and> i + length needle \<le> length cs"
  by (auto simp: find_from_def find_Some_iff)

lemma backtick_run_ok:
  assumes "at < length cs" "cs ! at = 96"
  obtains n where "backtick_run cs at = Some n" "0 < n" "at + n \<le> length cs"
proof -
  let ?n = "length (takeWhile (\<lambda>c. c = 96) (drop at cs))"
  have "backtick_run cs at = Some ?n" using assms(1) by (simp add: backtick_run_def slice_def)
  moreover have "0 < ?n" using assms by (subst Cons_nth_drop_Suc [symmetric]) auto
  moreover have "at + ?n \<le> length cs" using assms(1) length_takeWhile_le [of "\<lambda>c. c = 96" "drop at cs"] by simp
  ultimately show thesis by (rule that)
qed

lemma closing_backticks_tick:
  "i < length cs \<Longrightarrow> cs ! i = 96 \<Longrightarrow> backtick_run cs i = Some n \<Longrightarrow>
   closing_backticks cs i len = (if n = len then Some (Some i) else closing_backticks cs (i + n) len)"
  by (subst closing_backticks.simps) simp

lemma closing_backticks_other:
  "i < length cs \<Longrightarrow> cs ! i \<noteq> 96 \<Longrightarrow> closing_backticks cs i len = closing_backticks cs (i + 1) len"
  "\<not> i < length cs \<Longrightarrow> closing_backticks cs i len = Some None"
  by (subst closing_backticks.simps, simp)+

lemma closing_backticks_ok:
  "\<exists>r. closing_backticks cs i len = Some r \<and> (\<forall>e. r = Some e \<longrightarrow> i \<le> e \<and> e + len \<le> length cs)"
proof (induction "length cs - i" arbitrary: i rule: less_induct)
  case less
  have further: ?case if "i < j" "j \<le> length cs" "closing_backticks cs i len = closing_backticks cs j len" for j
  proof -
    from that have "length cs - j < length cs - i" by simp
    from less.hyps [OF this] that(1) show ?thesis unfolding that(3) by (metis less_imp_le order_trans)
  qed
  consider "\<not> i < length cs" | "i < length cs" "cs ! i \<noteq> 96" | (tick) "i < length cs" "cs ! i = 96" by blast
  then show ?case
  proof cases
    case 1
    then show ?thesis by (simp add: closing_backticks_other)
  next
    case 2
    then show ?thesis by (intro further [of "i + 1"]) (simp_all add: closing_backticks_other)
  next
    case tick
    then obtain n where n: "backtick_run cs i = Some n" "0 < n" "i + n \<le> length cs" by (metis backtick_run_ok)
    show ?thesis
    proof (cases "n = len")
      case True
      with n show ?thesis by (simp add: closing_backticks_tick [OF tick n(1)])
    next
      case False
      with n show ?thesis by (intro further [of "i + n"]) (simp_all add: closing_backticks_tick [OF tick n(1)])
    qed
  qed
qed

text \<open>What the renderer writes, as data: pieces of a line, and the blocks of a document.\<close>

datatype piece = Lit utext | Code utext | Strong utext | Link utext utext

fun print_piece :: "piece \<Rightarrow> utext" where
  "print_piece (Lit s) = s"
| "print_piece (Code s) = chars ''<code>'' @ s @ chars ''</code>''"
| "print_piece (Strong s) = chars ''<strong>'' @ s @ chars ''</strong>''"
| "print_piece (Link url label) = chars ''<a href='' @ [34] @ url @ [34, 62] @ label @ chars ''</a>''"

definition plain :: "utext \<Rightarrow> bool" where
  "plain s \<longleftrightarrow> 60 \<notin> set s \<and> 62 \<notin> set s \<and> 34 \<notin> set s"

text \<open>
  Where a link may go, apart from the code's own test: a web address, a mail address, a path or a
  fragment. None of them is a script or a document carried by the address itself.
\<close>

definition link_allowed :: "utext \<Rightarrow> bool" where
  "link_allowed url \<longleftrightarrow>
     (\<exists>rest. url \<in> {chars ''https://'' @ rest, chars ''http://'' @ rest, chars ''mailto:'' @ rest,
        chars ''/'' @ rest, chars ''#'' @ rest})"

fun piece_ok :: "piece \<Rightarrow> bool" where
  "piece_ok (Lit s) = plain s"
| "piece_ok (Code s) = plain s"
| "piece_ok (Strong s) = plain s"
| "piece_ok (Link url label) = (plain url \<and> plain label \<and> link_allowed url)"

lemma starts_with_rest: "starts_with p s \<Longrightarrow> \<exists>rest. s = p @ rest"
  unfolding starts_with_def by (metis append_take_drop_id)

lemma safe_url_allowed: "is_safe_url url \<Longrightarrow> link_allowed url"
  unfolding is_safe_url_def link_allowed_def
  by (elim disjE; drule starts_with_rest) auto

lemma no_script_link: "\<not> link_allowed (chars ''javascript:'' @ rest)" "\<not> link_allowed (chars ''data:'' @ rest)"
  by (auto simp: link_allowed_def)

type_synonym line = "piece list"

datatype element = Heading nat line | Para line | Bullets "line list" | Grid "line list" "line list list"

definition print_line :: "line \<Rightarrow> utext" where
  "print_line ps = concat (map print_piece ps)"

fun print_element :: "element \<Rightarrow> utext" where
  "print_element (Heading level l) = html_heading level (print_line l)"
| "print_element (Para l) = chars ''<p>'' @ print_line l @ chars ''</p>''"
| "print_element (Bullets ls) = html_list (map print_line ls)"
| "print_element (Grid header rows) = html_table (map print_line header) (map (map print_line) rows)"

definition line_ok :: "line \<Rightarrow> bool" where
  "line_ok = list_all piece_ok"

fun element_ok :: "element \<Rightarrow> bool" where
  "element_ok (Heading level l) = (1 \<le> level \<and> level \<le> 3 \<and> line_ok l)"
| "element_ok (Para l) = line_ok l"
| "element_ok (Bullets ls) = list_all line_ok ls"
| "element_ok (Grid header rows) = (list_all line_ok header \<and> list_all (list_all line_ok) rows)"

lemma plain_subset: "plain s \<Longrightarrow> set t \<subseteq> set s \<Longrightarrow> plain t"
  by (auto simp: plain_def)

lemma plain_slice: "slice a b s = Some t \<Longrightarrow> plain s \<Longrightarrow> plain t"
  using set_slice plain_subset by blast

lemma set_replace: "set (replace_char c r s) \<subseteq> (set s - {c}) \<union> set r"
  by (auto simp: replace_char_def)

lemma plain_escaped: "plain (escape_html s)"
proof -
  have "38 \<notin> {60, 62, 34 :: nat}" by simp
  let ?a = "replace_char 38 (chars ''&amp;'') s" and ?b = "\<lambda>s. replace_char 60 (chars ''&lt;'') s"
  let ?c = "\<lambda>s. replace_char 62 (chars ''&gt;'') s" and ?d = "\<lambda>s. replace_char 34 (chars ''&quot;'') s"
  have 1: "60 \<notin> set (?b t)" for t using set_replace [of 60 "chars ''&lt;''" t] by auto
  have 2: "62 \<notin> set (?c t)" for t using set_replace [of 62 "chars ''&gt;''" t] by auto
  have 3: "34 \<notin> set (?d t)" for t using set_replace [of 34 "chars ''&quot;''" t] by auto
  have 4: "60 \<notin> set t \<Longrightarrow> 60 \<notin> set (?c t)" for t using set_replace [of 62 "chars ''&gt;''" t] by auto
  have 5: "60 \<notin> set t \<Longrightarrow> 60 \<notin> set (?d t)" "62 \<notin> set t \<Longrightarrow> 62 \<notin> set (?d t)" for t
    using set_replace [of 34 "chars ''&quot;''" t] by auto
  show ?thesis unfolding plain_def escape_html_def using 1 2 3 4 5 by blast
qed

lemma link_ok:
  assumes "i < length cs" "plain cs"
  shows "link cs i = Some None \<or>
    (\<exists>label url j. link cs i = Some (Some (label, url, j)) \<and> i < j \<and> j \<le> length cs \<and> plain label \<and> plain url)"
proof (cases "find_from cs (i + 1) [93]")
  case (Some close)
  note close = find_from_Some [OF Some] Some [simplified]
  show ?thesis
  proof (cases "find_from cs (close + 2) [41]")
    case (Some fin)
    note fin = find_from_Some [OF Some] Some [simplified]
    obtain label url where s: "slice (i + 1) close cs = Some label" "slice (close + 2) fin cs = Some url"
      using close(1) fin(1) by (simp add: slice_def)
    have "plain label" "plain url" using plain_slice s assms(2) by blast+
    with s close fin show ?thesis by (simp add: link_def)
  qed (simp add: link_def close(2))
qed (simp add: link_def)

lemma code_content_ok:
  "plain s \<Longrightarrow> \<exists>t. code_content s = Some t \<and> plain t"
  by (auto simp: code_content_def slice_def plain_def dest!: in_set_takeD in_set_dropD)

lemma inline_step_ok:
  assumes i: "i < length cs" and cs: "plain cs"
  shows "\<exists>p j. inline_step cs i = Some (print_piece p, j) \<and> i < j \<and> j \<le> length cs \<and> piece_ok p"
proof -
  have "plain [cs ! i]" using cs nth_mem [OF i] by (auto simp: plain_def)
  then have lit: ?thesis if "inline_step cs i = Some ([cs ! i], i + 1)"
    using that i by (intro exI [of _ "Lit [cs ! i]"] exI [of _ "i + 1"]) simp
  consider (tick) "cs ! i = 96" | (star) "cs ! i \<noteq> 96" "cs ! i = 42 \<and> i + 1 < length cs \<and> cs ! (i + 1) = 42"
    | (bracket) "cs ! i = 91" | (other) "cs ! i \<noteq> 96" "cs ! i \<noteq> 91" "\<not> (cs ! i = 42 \<and> i + 1 < length cs \<and> cs ! (i + 1) = 42)"
    by blast
  then show ?thesis
  proof cases
    case tick
    then obtain n where n: "backtick_run cs i = Some n" "0 < n" "i + n \<le> length cs" using i by (metis backtick_run_ok)
    obtain r where r: "closing_backticks cs (i + n) n = Some r" "\<And>e. r = Some e \<Longrightarrow> i + n \<le> e \<and> e + n \<le> length cs"
      using closing_backticks_ok [of cs "i + n" n] by blast
    show ?thesis
    proof (cases r)
      case None
      obtain raw where raw: "slice i (i + n) cs = Some raw" using n by (simp add: slice_def)
      then show ?thesis using tick n r None plain_slice [OF raw cs]
        by (intro exI [of _ "Lit raw"] exI [of _ "i + n"]) (simp add: inline_step_def)
    next
      case (Some e)
      obtain raw where raw: "slice (i + n) e cs = Some raw" using r(2) [OF Some] by (simp add: slice_def)
      obtain t where t: "code_content raw = Some t" "plain t" using code_content_ok plain_slice [OF raw cs] by blast
      then show ?thesis using tick n r Some raw
        by (intro exI [of _ "Code t"] exI [of _ "e + n"]) (simp add: inline_step_def)
    qed
  next
    case star
    show ?thesis
    proof (cases "find_from cs (i + 2) [42, 42]")
      case None
      then show ?thesis using star by (intro lit) (simp add: inline_step_def)
    next
      case (Some e)
      note e = find_from_Some [OF Some]
      obtain raw where raw: "slice (i + 2) e cs = Some raw" using e by (simp add: slice_def)
      then show ?thesis using star e Some plain_slice [OF raw cs]
        by (intro exI [of _ "Strong raw"] exI [of _ "e + 2"]) (simp add: inline_step_def)
    qed
  next
    case bracket
    from link_ok [OF i cs] show ?thesis
    proof (elim disjE exE conjE)
      assume "link cs i = Some None"
      then show ?thesis using bracket by (intro lit) (simp add: inline_step_def)
    next
      fix label url j
      assume l: "link cs i = Some (Some (label, url, j))" "i < j" "j \<le> length cs" "plain label" "plain url"
      show ?thesis
      proof (cases "is_safe_url url")
        case True
        then show ?thesis using l bracket safe_url_allowed
          by (intro exI [of _ "Link url label"] exI [of _ j]) (simp add: inline_step_def)
      next
        case False
        then show ?thesis using l bracket by (intro lit) (simp add: inline_step_def)
      qed
    qed
  next
    case other
    then show ?thesis by (intro lit) (auto simp: inline_step_def)
  qed
qed

lemma inline_loop_ok:
  "plain cs \<Longrightarrow> \<exists>ps. inline_loop cs out i = Some (out @ print_line ps) \<and> line_ok ps"
proof (induction "length cs - i" arbitrary: i out rule: less_induct)
  case less
  show ?case
  proof (cases "i < length cs")
    case True
    obtain p j where p: "inline_step cs i = Some (print_piece p, j)" "i < j" "j \<le> length cs" "piece_ok p"
      using inline_step_ok [OF True less.prems] by blast
    obtain ps where "inline_loop cs (out @ print_piece p) j = Some ((out @ print_piece p) @ print_line ps)" "line_ok ps"
      using less.hyps [OF diff_less_mono2 [OF p(2) True] less.prems] by blast
    with p True show ?thesis
      by (intro exI [of _ "p # ps"]) (simp add: inline_loop.simps [of cs out i] print_line_def line_ok_def)
  next
    case False
    then show ?thesis
      by (intro exI [of _ "[]"]) (simp add: inline_loop.simps [of cs out i] print_line_def line_ok_def)
  qed
qed

lemma inline_ok: "\<exists>ps. inline t = Some (print_line ps) \<and> line_ok ps"
  using inline_loop_ok [OF plain_escaped, of t "[]" 0] by (simp add: inline_def)

lemma inline_all_ok: "\<exists>ls. inline_all ts = Some (map print_line ls) \<and> list_all line_ok ls"
proof (induction ts)
  case (Cons t ts)
  then obtain ls where "inline_all ts = Some (map print_line ls)" "list_all line_ok ls" by blast
  moreover obtain ps where "inline t = Some (print_line ps)" "line_ok ps" using inline_ok by blast
  ultimately show ?case by (intro exI [of _ "ps # ls"]) simp
qed simp

lemma inline_rows_ok: "\<exists>rs. inline_rows ts = Some (map (map print_line) rs) \<and> list_all (list_all line_ok) rs"
proof (induction ts)
  case (Cons t ts)
  then obtain rs where "inline_rows ts = Some (map (map print_line) rs)" "list_all (list_all line_ok) rs" by blast
  moreover obtain ls where "inline_all t = Some (map print_line ls)" "list_all line_ok ls" using inline_all_ok by blast
  ultimately show ?case by (intro exI [of _ "ls # rs"]) simp
qed simp

definition blocks_ok :: "utext list \<Rightarrow> bool" where
  "blocks_ok out \<longleftrightarrow> (\<exists>es. out = map print_element es \<and> list_all element_ok es)"

lemma blocks_ok_Nil [simp]: "blocks_ok []"
  by (simp add: blocks_ok_def)

lemma blocks_ok_snoc: "blocks_ok out \<Longrightarrow> element_ok e \<Longrightarrow> blocks_ok (out @ [print_element e])"
  unfolding blocks_ok_def by (elim exE conjE, rule_tac x = "es @ [e]" in exI) simp

lemma flush_ok:
  assumes "blocks_ok out"
  shows "\<exists>out'. flush b out = Some out' \<and> blocks_ok out'"
proof (cases b)
  case No_block
  with assms show ?thesis by simp
next
  case (Paragraph ls)
  obtain ps where "inline (join_with [32] ls) = Some (print_line ps)" "line_ok ps" using inline_ok by blast
  with Paragraph blocks_ok_snoc [OF assms, of "Para ps"] show ?thesis by simp
next
  case (Items items)
  obtain ls where "inline_all items = Some (map print_line ls)" "list_all line_ok ls" using inline_all_ok by blast
  with Items blocks_ok_snoc [OF assms, of "Bullets ls"] show ?thesis by simp
next
  case (Table header rows)
  obtain h where h: "inline_all header = Some (map print_line h)" "list_all line_ok h" using inline_all_ok by blast
  obtain r where r: "inline_rows rows = Some (map (map print_line) r)" "list_all (list_all line_ok) r" using inline_rows_ok by blast
  from Table h r blocks_ok_snoc [OF assms, of "Grid h r"] show ?thesis by simp
qed

lemma heading_level: "heading t = Some (level, rest) \<Longrightarrow> 1 \<le> level \<and> level \<le> 3"
  by (auto simp: heading_def heading_at_def split: option.splits if_splits)

lemma md_line_ok:
  assumes "blocks_ok out"
  shows "\<exists>b' out'. md_line raw (b, out) = Some (b', out') \<and> blocks_ok out'"
proof -
  obtain out' where f: "flush b out = Some out'" "blocks_ok out'" using flush_ok [OF assms] by blast
  have h: "\<exists>ps. inline t = Some (print_line ps) \<and> blocks_ok (out' @ [html_heading level (print_line ps)])"
    if "heading x = Some (level, t)" for x level t
  proof -
    obtain ps where "inline t = Some (print_line ps)" "line_ok ps" using inline_ok by blast
    moreover from this have "blocks_ok (out' @ [html_heading level (print_line ps)])"
      using blocks_ok_snoc [OF f(2), of "Heading level ps"] heading_level [OF that] by simp
    ultimately show ?thesis by blast
  qed
  let ?t = "trim_start (trim_end raw)"
  consider "?t = []" | level t where "?t \<noteq> []" "heading ?t = Some (level, t)" | "?t \<noteq> []" "heading ?t = None"
    by (cases "heading ?t") auto
  then show ?thesis
  proof cases
    case 1
    with f show ?thesis by (simp add: md_line_def)
  next
    case (2 level t)
    with f(1) h [OF 2(2)] show ?thesis by (auto simp: md_line_def)
  next
    case 3
    with f assms show ?thesis
      by (cases b) (auto simp: md_line_def Let_def simp del: flush.simps split: option.split)
  qed
qed

lemma md_lines_ok:
  "blocks_ok out \<Longrightarrow> \<exists>b' out'. md_lines ls (b, out) = Some (b', out') \<and> blocks_ok out'"
proof (induction ls arbitrary: b out)
  case (Cons l ls)
  obtain b1 out1 where "md_line l (b, out) = Some (b1, out1)" "blocks_ok out1" using md_line_ok [OF Cons.prems] by blast
  with Cons.IH [of out1 b1] show ?case by simp
qed simp

lemma render_ok: "\<exists>es. render_markdown md = Some (join_with [10] (map print_element es)) \<and> list_all element_ok es"
proof -
  obtain b out where l: "md_lines (text_lines md) (No_block, []) = Some (b, out)" "blocks_ok out"
    using md_lines_ok by (metis blocks_ok_Nil)
  then obtain out' where "flush b out = Some out'" "blocks_ok out'" using flush_ok by blast
  with l(1) show ?thesis by (auto simp: render_markdown_def blocks_ok_def)
qed

section \<open>Placeholders and paths\<close>

text \<open>\<open>s.split_whitespace()\<close>.\<close>

fun split_by :: "('x \<Rightarrow> bool) \<Rightarrow> 'x list \<Rightarrow> 'x list list" where
  "split_by P [] = [[]]"
| "split_by P (x # xs) =
     (if P x then [] # split_by P xs
      else (case split_by P xs of [] \<Rightarrow> [[x]] | p # ps \<Rightarrow> (x # p) # ps))"

definition split_whitespace :: "utext \<Rightarrow> utext list" where
  "split_whitespace s = filter (\<lambda>p. p \<noteq> []) (split_by is_whitespace s)"

definition flatten :: "utext \<Rightarrow> utext" where
  "flatten md = join_with [32] (split_whitespace md)"

definition RELEASE_PLACEHOLDER_SUFFIX :: utext where
  "RELEASE_PLACEHOLDER_SUFFIX = [0x2014, 32, 224] @ chars '' renseigner avant la mise en ligne''"

definition strip_suffix :: "'x list \<Rightarrow> 'x list \<Rightarrow> 'x list option" where
  "strip_suffix p s = map_option rev (strip_prefix (rev p) (rev s))"

partial_function (option) placeholders_loop :: "utext \<Rightarrow> utext list \<Rightarrow> utext list option" where
  "placeholders_loop rest out =
     (case split_once 91 rest of
        None \<Rightarrow> Some out
      | Some (_, rest) \<Rightarrow>
          (case split_once 93 rest of
             None \<Rightarrow> Some out
           | Some (inner, rest) \<Rightarrow>
               placeholders_loop rest (case strip_suffix RELEASE_PLACEHOLDER_SUFFIX inner of
                 Some label \<Rightarrow> out @ [trim_text label] | None \<Rightarrow> out)))"

declare placeholders_loop.simps [code]

definition release_placeholders :: "utext \<Rightarrow> utext list option" where
  "release_placeholders md = placeholders_loop (flatten md) []"

lemma split_once_shorter: "split_once c s = Some (a, b) \<Longrightarrow> length b < length s"
  by (drule split_once_Some) simp

lemma placeholders_loop_ends: "\<exists>labels. placeholders_loop rest out = Some (out @ labels)"
proof (induction "length rest" arbitrary: rest out rule: less_induct)
  case less
  show ?case
  proof (cases "split_once 91 rest")
    case (Some p)
    obtain a r1 where p: "p = (a, r1)" by force
    show ?thesis
    proof (cases "split_once 93 r1")
      case (Some q)
      obtain inner r2 where q: "q = (inner, r2)" by force
      have l: "length r2 < length rest"
        using split_once_shorter [of 91 rest a r1] split_once_shorter [of 93 r1 inner r2] \<open>split_once 91 rest = Some p\<close> Some p q by simp
      obtain labels where "placeholders_loop r2 (out @ (case strip_suffix RELEASE_PLACEHOLDER_SUFFIX inner of
          Some label \<Rightarrow> [trim_text label] | None \<Rightarrow> [])) =
        Some ((out @ (case strip_suffix RELEASE_PLACEHOLDER_SUFFIX inner of Some label \<Rightarrow> [trim_text label] | None \<Rightarrow> [])) @ labels)"
        using less [OF l] by blast
      then show ?thesis using \<open>split_once 91 rest = Some p\<close> Some p q
        by (subst placeholders_loop.simps) (auto split: option.splits)
    qed (use \<open>split_once 91 rest = Some p\<close> p in \<open>subst placeholders_loop.simps, simp del: split_once_None\<close>)
  qed (subst placeholders_loop.simps, simp del: split_once_None)
qed

definition REPO_DIRECTORIES :: "utext list" where
  "REPO_DIRECTORIES = map chars [''apps/'', ''docs/'', ''e2e/'', ''infra/'', ''.claude/'', ''.githooks/'', ''.github/'']"

definition REPO_FILE_EXTENSIONS :: "utext list" where
  "REPO_FILE_EXTENSIONS = map chars [''.md'', ''.rs'', ''.ts'', ''.tsx'', ''.toml'', ''.sql'', ''.yml'', ''.yaml'', ''.json'']"

definition TOKEN_LEAD :: utext where
  "TOKEN_LEAD = [96, 42, 40, 91, 171, 34, 39, 95]"

definition TOKEN_TAIL :: utext where
  "TOKEN_TAIL = [96, 42, 41, 93, 187, 34, 39, 44, 59, 58, 33, 63, 46]"

definition path_token :: "utext \<Rightarrow> utext" where
  "path_token raw = rev (dropWhile (\<lambda>c. c \<in> set TOKEN_TAIL) (rev (dropWhile (\<lambda>c. c \<in> set TOKEN_LEAD) raw)))"

definition is_repo_path :: "utext \<Rightarrow> bool" where
  "is_repo_path token \<longleftrightarrow>
     list_ex (\<lambda>d. starts_with d token) REPO_DIRECTORIES \<or> list_ex (\<lambda>e. strip_suffix e token \<noteq> None) REPO_FILE_EXTENSIONS"

definition repo_path_references :: "utext \<Rightarrow> utext list" where
  "repo_path_references md =
     foldl (\<lambda>out raw. let token = path_token raw
        in if is_repo_path token \<and> token \<notin> set out then out @ [token] else out) [] (split_whitespace md)"

lemma repo_paths_distinct: "distinct (repo_path_references md) \<and> list_all is_repo_path (repo_path_references md)"
proof -
  have "distinct out \<Longrightarrow> list_all is_repo_path out \<Longrightarrow>
    (let res = foldl (\<lambda>out raw. let token = path_token raw
        in if is_repo_path token \<and> token \<notin> set out then out @ [token] else out) out ws
     in distinct res \<and> list_all is_repo_path res)" for out ws
    by (induction ws arbitrary: out) (simp_all add: Let_def)
  from this [of "[]"] show ?thesis by (simp add: repo_path_references_def Let_def)
qed

section \<open>A member's text in an email\<close>

definition EMAIL_FIELD_MAX_CHARS :: nat where
  "EMAIL_FIELD_MAX_CHARS = 80"

text \<open>\<open>char::is_control\<close> is the category Cc; the category Cf is the table of a crate, a parameter.\<close>

definition is_control :: "nat \<Rightarrow> bool" where
  "is_control c \<longleftrightarrow> c \<le> 31 \<or> (127 \<le> c \<and> c \<le> 159)"

definition is_invisible :: "(nat \<Rightarrow> bool) \<Rightarrow> nat \<Rightarrow> bool" where
  "is_invisible is_format c \<longleftrightarrow> is_control c \<or> is_format c"

definition sanitize_email_line :: "(nat \<Rightarrow> bool) \<Rightarrow> utext \<Rightarrow> utext" where
  "sanitize_email_line is_format v =
     (let flat = filter (\<lambda>c. \<not> is_invisible is_format c) (join_with [32] (split_whitespace v))
      in if length flat \<le> EMAIL_FIELD_MAX_CHARS then flat
         else take EMAIL_FIELD_MAX_CHARS flat @ [0x2026])"

lemma set_join_with: "set (join_with sep ps) \<subseteq> set sep \<union> (\<Union>p \<in> set ps. set p)"
  by (induction sep ps rule: join_with.induct) auto

lemma split_by_pieces: "p \<in> set (split_by P s) \<Longrightarrow> c \<in> set p \<Longrightarrow> \<not> P c \<and> c \<in> set s"
proof (induction s arbitrary: p)
  case (Cons x xs)
  then show ?case by (cases "split_by P xs") (fastforce split: if_splits)+
qed simp

section \<open>The deletion form\<close>

definition GRACE_PERIOD_DAYS :: int where
  "GRACE_PERIOD_DAYS = 30"

definition deletion_deadline :: "instant \<Rightarrow> instant" where
  "deletion_deadline requested_at = requested_at + days_dur GRACE_PERIOD_DAYS"

definition can_request_deletion :: "instant option \<Rightarrow> bool" where
  "can_request_deletion requested = (requested = None)"

definition can_cancel_deletion :: "instant option \<Rightarrow> bool" where
  "can_cancel_deletion requested = (requested \<noteq> None)"

datatype deletion_error = Password_required | Consent_required

definition validate_deletion_confirmation :: "bool \<Rightarrow> utext \<Rightarrow> bool \<Rightarrow> deletion_error + utext option" where
  "validate_deletion_confirmation has_password password consent =
     (if has_password \<and> trim_text password = [] then Inl Password_required
      else if \<not> consent then Inl Consent_required
      else if has_password then Inr (Some password) else Inr None)"

lemma deletion_needs_consent:
  "validate_deletion_confirmation has_password password consent = Inr sent \<Longrightarrow>
     consent \<and> (sent \<noteq> None \<longleftrightarrow> has_password) \<and> (\<forall>pw. sent = Some pw \<longrightarrow> pw = password \<and> trim_text pw \<noteq> [])"
  by (auto simp: validate_deletion_confirmation_def split: if_splits)

lemma safe_url_network_path: "is_safe_url (chars ''//other.example/'')"
  by (simp add: is_safe_url_def starts_with_def)

section \<open>Properties\<close>

text \<open>
  C18. Whatever text they are handed, the renderer and the scan for placeholders return: their
  loops end, every index they read is in range and every slice they take is well formed, so
  neither hangs a page nor panics.
\<close>

theorem rendering_returns:
  "(\<exists>html. render_markdown md = Some html) \<and> (\<exists>labels. release_placeholders md = Some labels)"
  using render_ok [of md] placeholders_loop_ends [of "flatten md" "[]"] by (auto simp: release_placeholders_def)

text \<open>
  C19. Whatever the text, the page is a sequence of well-formed blocks -- headings of level one
  to three, paragraphs, lists, tables -- whose lines are made of plain text, code, strong text and
  links. No angle bracket and no quote of the source is among them, so nothing of the text opens or
  closes a tag or an attribute. A link begins with \<open>https://\<close>, \<open>http://\<close>, \<open>mailto:\<close>, \<open>/\<close> or
  \<open>#\<close>, so none is a \<open>javascript:\<close> or \<open>data:\<close> address (\<open>no_script_link\<close>); a link that begins with \<open>//\<close>,
  which leads to another site, is among them (\<open>safe_url_network_path\<close>).
\<close>

theorem rendered_page_is_well_formed:
  "\<exists>es. render_markdown md = Some (join_with [10] (map print_element es)) \<and> list_all element_ok es"
  by (rule render_ok)

text \<open>
  What a member chose reaches an email as one line of at most eighty characters and an
  ellipsis, with no line break, no tabulation and no invisible character in it, whatever the
  table of format characters says: it cannot open a paragraph of its own. A short name with
  nothing to remove is left as it is.
\<close>

theorem email_line_is_one_line:
  assumes "\<not> is_format 32" "\<not> is_format 0x2026"
  shows "length (sanitize_email_line is_format v) \<le> 81
    \<and> (\<forall>c \<in> set (sanitize_email_line is_format v). (is_whitespace c \<longrightarrow> c = 32) \<and> \<not> is_control c \<and> \<not> is_format c)
    \<and> (v = join_with [32] (split_whitespace v) \<and> length v \<le> 80 \<and> (\<forall>c \<in> set v. \<not> is_invisible is_format c) \<longrightarrow>
         sanitize_email_line is_format v = v)"
proof -
  let ?flat = "filter (\<lambda>c. \<not> is_invisible is_format c) (join_with [32] (split_whitespace v))"
  have c: "(is_whitespace c \<longrightarrow> c = 32) \<and> \<not> is_control c \<and> \<not> is_format c" if "c \<in> set ?flat" for c
    using that set_join_with [of "[32]" "split_whitespace v"] split_by_pieces [of _ is_whitespace v c]
    by (fastforce simp: is_invisible_def split_whitespace_def)
  have "c \<in> set (sanitize_email_line is_format v) \<Longrightarrow> c \<in> set ?flat \<or> c = 0x2026" for c
    by (auto simp: sanitize_email_line_def Let_def split: if_splits dest: in_set_takeD)
  moreover have "\<not> is_whitespace 0x2026 \<and> \<not> is_control 0x2026" by (simp add: is_whitespace_def is_control_def)
  moreover have "length (sanitize_email_line is_format v) \<le> 81"
    by (simp add: sanitize_email_line_def Let_def EMAIL_FIELD_MAX_CHARS_def)
  moreover have "sanitize_email_line is_format v = v"
    if "v = join_with [32] (split_whitespace v)" "length v \<le> 80" "\<forall>c \<in> set v. \<not> is_invisible is_format c"
  proof -
    have "filter (\<lambda>c. \<not> is_invisible is_format c) v = v" using that(3) by (simp add: filter_id_conv)
    with that(1,2) show ?thesis by (simp add: sanitize_email_line_def EMAIL_FIELD_MAX_CHARS_def)
  qed
  ultimately show ?thesis using c assms(2) by blast
qed

lemma email_line_is_one_line_witness:
  "10 \<notin> set (sanitize_email_line (\<lambda>c. c = 0x202E) (chars ''a'' @ [10, 10] @ chars ''-- b''))"
proof -
  have "\<not> is_control c" if "c \<in> set (sanitize_email_line (\<lambda>c. c = 0x202E) v)" for c v
    by (rule email_line_is_one_line [of "\<lambda>c. c = 0x202E" v, THEN conjunct2, THEN conjunct1, rule_format, OF _ _ that, THEN conjunct2, THEN conjunct1])
       simp_all
  moreover have "is_control 10" by (simp add: is_control_def)
  ultimately show ?thesis by blast
qed

end
