(* ===== verification/Cooked.thy ===== *)
theory Cooked
  imports Complex_Main Strings "HOL-Library.Monad_Syntax" "HOL-Library.List_Lexorder" "HOL-Library.Sublist"
begin

text \<open>
  What the preview of a cooked recipe proposes to take from the stock
  (\<open>apps/api/src/recipes/outcome.rs\<close>, the quantities of \<open>grocery_list/planned.rs\<close>).

  A quantity is the value of a finite \<open>f64\<close>, a rational; an operation of \<open>f64\<close> is the exact
  result rounded by \<open>fl\<close>, a parameter, infinities left aside. Lower case and the collation of the
  database are parameters too.
\<close>

type_synonym quantity = rat

record kitchen_env =
  fl :: "rat \<Rightarrow> rat"
  lower :: "utext \<Rightarrow> utext"
  collate :: "utext \<Rightarrow> utext"

section \<open>Quantities and names\<close>

text \<open>
  \<open>format!("{q:.11e}")\<close>: twelve significant digits, ties to even. The exponent of a finite \<open>f64\<close>
  is between -324 and 308, so 400 steps reach it.
\<close>

fun exponent :: "nat \<Rightarrow> rat \<Rightarrow> int" where
  "exponent 0 q = 0"
| "exponent (Suc n) q = (if 10 \<le> q then exponent n (q / 10) + 1 else if q < 1 then exponent n (q * 10) - 1 else 0)"

definition round_half_even :: "rat \<Rightarrow> int" where
  "round_half_even x =
     (let f = \<lfloor>x\<rfloor>; d = x - of_int f
      in if d < 1 / 2 then f else if 1 / 2 < d then f + 1 else if even f then f else f + 1)"

definition power10 :: "int \<Rightarrow> rat" where
  "power10 e = (if 0 \<le> e then 10 ^ nat e else 1 / 10 ^ nat (- e))"

definition twelve_digits :: "rat \<Rightarrow> rat" where
  "twelve_digits q =
     (if q = 0 then 0
      else let scale = power10 (11 - exponent 400 \<bar>q\<bar>) in of_int (round_half_even (q * scale)) / scale)"

definition without_binary_noise :: "kitchen_env \<Rightarrow> quantity \<Rightarrow> quantity" where
  "without_binary_noise env q = fl env (twelve_digits q)"

definition scale_quantity :: "kitchen_env \<Rightarrow> quantity option \<Rightarrow> int option \<Rightarrow> int option \<Rightarrow> quantity option" where
  "scale_quantity env quantity base target =
     (case (quantity, base, target) of
        (Some q, Some b, Some t) \<Rightarrow>
          if 0 < b then Some (without_binary_noise env (fl env (fl env (q * of_int t) / of_int b))) else quantity
      | _ \<Rightarrow> quantity)"

definition article_key :: "kitchen_env \<Rightarrow> utext \<Rightarrow> utext" where
  "article_key env raw = lower env (trim_text raw)"

definition DEFAULT_UNIT :: utext where
  "DEFAULT_UNIT = chars ''unit'' @ [233]"

definition normalize_unit :: "utext \<Rightarrow> utext" where
  "normalize_unit raw = (let u = trim_text raw in if u = [] then DEFAULT_UNIT else u)"

section \<open>The proposal\<close>

record stock_line =
  line_id :: uuid
  line_name :: utext
  line_unit :: utext
  held :: quantity
  line_expires :: "int option"

record ingredient =
  wanted_name :: utext
  wanted_quantity :: "quantity option"
  wanted_unit :: "utext option"

datatype removal_warning = NoStock | UnitMismatch | NoQuantity | Capped

record lot_take =
  take_from :: uuid
  take_quantity :: quantity

record proposal =
  lots :: "lot_take list"
  proposed :: quantity
  warning :: "removal_warning option"

definition match_stock :: "kitchen_env \<Rightarrow> utext \<Rightarrow> utext \<Rightarrow> stock_line list \<Rightarrow> stock_line option" where
  "match_stock env name unit stock =
     min_by_key (\<lambda>s. (article_key env (line_unit s) \<noteq> article_key env unit, held s \<le> 0, line_expires s = None, line_expires s, line_id s))
       (filter (\<lambda>s. article_key env (line_name s) = article_key env name) stock)"

definition cap :: "quantity \<Rightarrow> quantity \<Rightarrow> quantity" where
  "cap wanted available = max (min wanted available) 0"

definition remaining_after :: "kitchen_env \<Rightarrow> quantity \<Rightarrow> quantity \<Rightarrow> quantity option" where
  "remaining_after env available removed =
     (let available = without_binary_noise env available
      in if removed \<le> available then Some (max (without_binary_noise env (fl env (available - removed))) 0) else None)"

definition lots_in_order :: "kitchen_env \<Rightarrow> utext \<Rightarrow> utext \<Rightarrow> stock_line list \<Rightarrow> stock_line list" where
  "lots_in_order env name unit stock =
     sort_key (\<lambda>s. (line_expires s = None, line_expires s, line_id s))
       (filter (\<lambda>s. article_key env (line_name s) = article_key env name \<and>
          article_key env (line_unit s) = article_key env unit) stock)"

text \<open>The loop over the lots; \<open>None\<close> is the panic of its \<open>expect\<close>.\<close>

fun lots_loop ::
    "kitchen_env \<Rightarrow> stock_line list \<Rightarrow> quantity \<Rightarrow> quantity \<Rightarrow> (uuid \<times> quantity) list \<Rightarrow>
     (lot_take list \<times> quantity \<times> (uuid \<times> quantity) list) option" where
  "lots_loop env [] still tot remaining = Some ([], tot, remaining)"
| "lots_loop env (lot # ls) still tot remaining =
     (if still \<le> 0 then Some ([], tot, remaining)
      else case map_of remaining (line_id lot) of
             None \<Rightarrow> None
           | Some left \<Rightarrow>
               let q = cap still (without_binary_noise env left)
               in if q \<le> 0 then lots_loop env ls still tot remaining
                  else do {
                    (ts, tot, remaining) \<leftarrow> lots_loop env ls
                      (without_binary_noise env (fl env (still - q)))
                      (without_binary_noise env (fl env (tot + q)))
                      (AList.update (line_id lot) (case remaining_after env left q of Some l \<Rightarrow> l | None \<Rightarrow> 0) remaining);
                    Some (\<lparr>take_from = line_id lot, take_quantity = q\<rparr> # ts, tot, remaining) })"

definition propose_one ::
    "kitchen_env \<Rightarrow> stock_line list \<Rightarrow> ingredient \<Rightarrow> (uuid \<times> quantity) list \<Rightarrow> (proposal \<times> (uuid \<times> quantity) list) option" where
  "propose_one env stock ing remaining =
     (let unit = normalize_unit (case wanted_unit ing of Some u \<Rightarrow> u | None \<Rightarrow> [])
      in case match_stock env (wanted_name ing) unit stock of
           None \<Rightarrow> Some (\<lparr>lots = [], proposed = 0, warning = Some NoStock\<rparr>, remaining)
         | Some line \<Rightarrow>
             let nothing_from_line = [\<lparr>take_from = line_id line, take_quantity = 0\<rparr>]
             in if article_key env (line_unit line) \<noteq> article_key env unit
                then Some (\<lparr>lots = nothing_from_line, proposed = 0, warning = Some UnitMismatch\<rparr>, remaining)
                else case wanted_quantity ing of
                       None \<Rightarrow> Some (\<lparr>lots = nothing_from_line, proposed = 0, warning = Some NoQuantity\<rparr>, remaining)
                     | Some wanted \<Rightarrow> do {
                         (ts, tot, remaining) \<leftarrow> lots_loop env (lots_in_order env (wanted_name ing) unit stock) wanted 0 remaining;
                         Some (\<lparr>lots = (if ts = [] then nothing_from_line else ts), proposed = tot,
                                warning = (if tot < wanted then Some Capped else None)\<rparr>, remaining) })"

fun propose_all ::
    "kitchen_env \<Rightarrow> stock_line list \<Rightarrow> ingredient list \<Rightarrow> (uuid \<times> quantity) list \<Rightarrow> proposal list option" where
  "propose_all env stock [] remaining = Some []"
| "propose_all env stock (i # is) remaining = do {
     (p, remaining) \<leftarrow> propose_one env stock i remaining;
     ps \<leftarrow> propose_all env stock is remaining;
     Some (p # ps) }"

definition propose :: "kitchen_env \<Rightarrow> ingredient list \<Rightarrow> stock_line list \<Rightarrow> proposal list option" where
  "propose env ingredients stock = propose_all env stock ingredients (map (\<lambda>s. (line_id s, held s)) stock)"

section \<open>What the proposal takes\<close>

text \<open>Taking the proposed quantities one after another, as an application takes each.\<close>

fun replay :: "kitchen_env \<Rightarrow> lot_take list \<Rightarrow> (uuid \<times> quantity) list \<Rightarrow> (uuid \<times> quantity) list option" where
  "replay env [] remaining = Some remaining"
| "replay env (t # ts) remaining =
     (case map_of remaining (take_from t) of
        None \<Rightarrow> None
      | Some left \<Rightarrow>
          (case remaining_after env left (take_quantity t) of
             None \<Rightarrow> None
           | Some l \<Rightarrow> replay env ts (AList.update (take_from t) l remaining)))"

lemma keys_update: "fst ` set (AList.update k v xs) = insert k (fst ` set xs)"
  by (induction xs) auto

lemma replay_append:
  "replay env (ts @ us) remaining = (case replay env ts remaining of None \<Rightarrow> None | Some r \<Rightarrow> replay env us r)"
  by (induction ts arbitrary: remaining) (auto split: option.splits)

lemma map_of_key: "map_of xs k = Some v \<Longrightarrow> k \<in> fst ` set xs"
  by (force dest: map_of_SomeD)

lemma replay_keys: "replay env ts remaining = Some r \<Longrightarrow> fst ` set r = fst ` set remaining"
  by (induction ts arbitrary: remaining)
     (auto simp: keys_update insert_absorb split: option.splits dest!: map_of_key)

lemma cap_taken:
  "0 < cap still available \<Longrightarrow> cap still available \<le> available"
  by (auto simp: cap_def max_def min_def split: if_splits)

lemma remaining_after_cap:
  "0 < cap still (without_binary_noise env left) \<Longrightarrow> \<exists>l. remaining_after env left (cap still (without_binary_noise env left)) = Some l"
  using cap_taken [of still "without_binary_noise env left"] by (simp add: remaining_after_def Let_def)

lemma lots_loop_Cons:
  assumes "0 < still" "map_of remaining (line_id lot) = Some left" "q = cap still (without_binary_noise env left)"
  shows "q \<le> 0 \<Longrightarrow> lots_loop env (lot # ls) still tot remaining = lots_loop env ls still tot remaining"
    and "remaining_after env left q = Some l \<Longrightarrow> \<not> q \<le> 0 \<Longrightarrow>
      lots_loop env (lot # ls) still tot remaining = do {
        (ts, tot, r) \<leftarrow> lots_loop env ls (without_binary_noise env (fl env (still - q))) (without_binary_noise env (fl env (tot + q)))
            (AList.update (line_id lot) l remaining);
        Some (\<lparr>take_from = line_id lot, take_quantity = q\<rparr> # ts, tot, r) }"
  using assms(1,2) by (simp_all add: assms(3) [symmetric] Let_def)

text \<open>
  What the lots of one ingredient give, apart from the loop: in the order of use of the lots, each
  take is all that is still wanted or all that the line has left, whichever is less; a lot is
  passed over only when it is empty, or when nothing is wanted any more and every lot taken
  comes before it.
\<close>

definition used_before :: "stock_line \<Rightarrow> stock_line \<Rightarrow> bool" where
  "used_before a b =
     (case (line_expires a, line_expires b) of
        (Some x, Some y) \<Rightarrow> x < y \<or> x = y \<and> line_id a \<le> line_id b
      | (Some x, None) \<Rightarrow> True
      | (None, Some y) \<Rightarrow> False
      | (None, None) \<Rightarrow> line_id a \<le> line_id b)"

definition available :: "kitchen_env \<Rightarrow> (uuid \<times> quantity) list \<Rightarrow> uuid \<Rightarrow> quantity" where
  "available env remaining i = without_binary_noise env (case map_of remaining i of Some q \<Rightarrow> q | None \<Rightarrow> 0)"

definition still_wanted :: "kitchen_env \<Rightarrow> quantity \<Rightarrow> lot_take list \<Rightarrow> quantity" where
  "still_wanted env w ts = foldl (\<lambda>s t. without_binary_noise env (fl env (s - take_quantity t))) w ts"

definition total_taken :: "kitchen_env \<Rightarrow> quantity \<Rightarrow> lot_take list \<Rightarrow> quantity" where
  "total_taken env tot ts = foldl (\<lambda>s t. without_binary_noise env (fl env (s + take_quantity t))) tot ts"

definition taken_in_order ::
    "kitchen_env \<Rightarrow> (uuid \<times> quantity) list \<Rightarrow> quantity \<Rightarrow> stock_line list \<Rightarrow> lot_take list \<Rightarrow> bool" where
  "taken_in_order env remaining w ls ts \<longleftrightarrow>
     subseq (map take_from ts) (map line_id ls)
     \<and> (\<forall>i < length ts. take_quantity (ts ! i) =
          min (still_wanted env w (take i ts)) (available env remaining (take_from (ts ! i))))
     \<and> (\<forall>l \<in> set ls. line_id l \<notin> take_from ` set ts \<longrightarrow>
          available env remaining (line_id l) \<le> 0 \<or>
          (still_wanted env w ts \<le> 0 \<and> (\<forall>l' \<in> set ls. line_id l' \<in> take_from ` set ts \<longrightarrow> used_before l' l)))"

lemma available_update [simp]:
  "i \<noteq> j \<Longrightarrow> available env (AList.update j v remaining) i = available env remaining i"
  by (simp add: available_def update_conv')

lemma taken_none: "w \<le> 0 \<Longrightarrow> taken_in_order env remaining w ls []"
  by (simp add: taken_in_order_def still_wanted_def)

lemma taken_skip:
  assumes "taken_in_order env remaining w ls ts" "available env remaining (line_id l) \<le> 0"
    "line_id l \<notin> line_id ` set ls"
  shows "taken_in_order env remaining w (l # ls) ts"
proof -
  have "subseq (map take_from ts) (map line_id ls)" using assms(1) by (simp add: taken_in_order_def)
  then have "take_from ` set ts \<subseteq> line_id ` set ls" by (metis set_map set_nths_subset subseq_conv_nths)
  then have "line_id l \<notin> take_from ` set ts" using assms(3) by blast
  with assms show ?thesis by (auto simp: taken_in_order_def list_emb_Cons)
qed

lemma taken_Cons:
  assumes t: "taken_in_order env (AList.update (line_id l) v remaining)
      (without_binary_noise env (fl env (w - take_quantity t))) ls ts"
    and new: "take_from t = line_id l" "take_quantity t = min w (available env remaining (line_id l))"
    and other: "line_id l \<notin> line_id ` set ls" and first: "\<forall>x \<in> set ls. used_before l x"
  shows "taken_in_order env remaining w (l # ls) (t # ts)"
proof -
  have sub: "subseq (map take_from ts) (map line_id ls)" using t by (simp add: taken_in_order_def)
  then have ids: "take_from ` set ts \<subseteq> line_id ` set ls" by (metis set_map set_nths_subset subseq_conv_nths)
  have still: "still_wanted env w (t # us) =
      still_wanted env (without_binary_noise env (fl env (w - take_quantity t))) us" for us
    by (simp add: still_wanted_def)
  have at: "available env (AList.update (line_id l) v remaining) x = available env remaining x" if "x \<in> line_id ` set ls" for x
    using that other by (cases "x = line_id l") simp_all
  have "take_quantity ((t # ts) ! i) =
      min (still_wanted env w (take i (t # ts))) (available env remaining (take_from ((t # ts) ! i)))"
    if i: "i < length (t # ts)" for i
  proof (cases i)
    case 0
    then show ?thesis by (simp add: new still_wanted_def)
  next
    case (Suc j)
    then have "take_from (ts ! j) \<in> line_id ` set ls" using i ids by auto
    with Suc i t show ?thesis by (simp add: taken_in_order_def still at)
  qed
  moreover have "available env remaining (line_id x) \<le> 0 \<or>
      (still_wanted env w (t # ts) \<le> 0 \<and> (\<forall>l' \<in> set (l # ls). line_id l' \<in> take_from ` set (t # ts) \<longrightarrow> used_before l' x))"
    if x: "x \<in> set ls" "line_id x \<notin> take_from ` set (t # ts)" for x
  proof -
    have "available env remaining (line_id x) \<le> 0 \<or>
      (still_wanted env w (t # ts) \<le> 0 \<and> (\<forall>l' \<in> set ls. line_id l' \<in> take_from ` set ts \<longrightarrow> used_before l' x))"
      using t x at [of "line_id x"] unfolding taken_in_order_def still by auto
    moreover have "line_id l' \<noteq> line_id l" if "l' \<in> set ls" for l' using other that by (metis imageI)
    ultimately show ?thesis using x(1) first by (auto simp: new)
  qed
  ultimately show ?thesis using sub by (auto simp: taken_in_order_def new)
qed

lemma lots_loop_ok:
  "line_id ` set ls \<subseteq> fst ` set remaining \<Longrightarrow> distinct (map line_id ls) \<Longrightarrow> sorted_wrt used_before ls \<Longrightarrow>
   \<exists>ts remaining'. lots_loop env ls still tot remaining = Some (ts, total_taken env tot ts, remaining')
     \<and> replay env ts remaining = Some remaining'
     \<and> taken_in_order env remaining still ls ts \<and> (\<forall>t \<in> set ts. 0 < take_quantity t)"
proof (induction ls arbitrary: still tot remaining)
  case Nil
  then show ?case by (simp add: total_taken_def taken_in_order_def)
next
  case (Cons lot ls)
  then obtain left where left: "map_of remaining (line_id lot) = Some left"
    by (cases "map_of remaining (line_id lot)") (auto simp: map_of_eq_None_iff)
  then have av: "available env remaining (line_id lot) = without_binary_noise env left" by (simp add: available_def)
  have sub: "line_id ` set ls \<subseteq> fst ` set remaining" and ds: "distinct (map line_id ls)"
    and other: "line_id lot \<notin> line_id ` set ls" and so: "sorted_wrt used_before ls"
    and first: "\<forall>x \<in> set ls. used_before lot x"
    using Cons.prems by auto
  let ?q = "cap still (without_binary_noise env left)"
  consider "still \<le> 0" | (skip) "0 < still" "?q \<le> 0" | (take) "0 < still" "\<not> ?q \<le> 0" by linarith
  then show ?case
  proof cases
    case 1
    then show ?thesis by (simp add: total_taken_def taken_none)
  next
    case skip
    then have "available env remaining (line_id lot) \<le> 0" by (auto simp: av cap_def max_def min_def split: if_splits)
    then show ?thesis
      using Cons.IH [OF sub ds so, of still tot] taken_skip [OF _ _ other]
      unfolding lots_loop_Cons(1) [OF skip(1) left refl skip(2)] by blast
  next
    case take
    then obtain l where l: "remaining_after env left ?q = Some l" using remaining_after_cap by fastforce
    have sub': "line_id ` set ls \<subseteq> fst ` set (AList.update (line_id lot) l remaining)"
      using sub by (auto simp: keys_update)
    let ?t = "\<lparr>take_from = line_id lot, take_quantity = ?q\<rparr>"
    let ?tot = "without_binary_noise env (fl env (tot + ?q))"
    obtain ts r where IH: "lots_loop env ls (without_binary_noise env (fl env (still - ?q))) ?tot
        (AList.update (line_id lot) l remaining) = Some (ts, total_taken env ?tot ts, r)"
      "replay env ts (AList.update (line_id lot) l remaining) = Some r"
      "taken_in_order env (AList.update (line_id lot) l remaining) (without_binary_noise env (fl env (still - ?q))) ls ts"
      "\<forall>t \<in> set ts. 0 < take_quantity t"
      using Cons.IH [OF sub' ds so, of "without_binary_noise env (fl env (still - ?q))" ?tot] by blast
    have "lots_loop env (lot # ls) still tot remaining = Some (?t # ts, total_taken env tot (?t # ts), r)"
      unfolding lots_loop_Cons(2) [OF take(1) left refl l take(2)] IH(1) by (simp add: total_taken_def)
    moreover have "replay env (?t # ts) remaining = Some r" using left l IH(2) by simp
    moreover have "?q = min still (available env remaining (line_id lot))"
      using take(2) unfolding av cap_def by linarith
    then have "taken_in_order env remaining still (lot # ls) (?t # ts)"
      using IH(3) other first by (intro taken_Cons [where v = l]) simp_all
    moreover have "\<forall>t \<in> set (?t # ts). 0 < take_quantity t" using IH(4) take(2) by simp
    ultimately show ?thesis by blast
  qed
qed

lemma lots_in_use_order: "sorted_wrt used_before (lots_in_order env name unit lines)"
proof -
  have "(\<lambda>a b. (line_expires a = None, line_expires a, line_id a) \<le> (line_expires b = None, line_expires b, line_id b)) a b
      \<longrightarrow> used_before a b" for a b
    by (auto simp: used_before_def less_eq_prod_def less_bool_def split: option.split)
  then show ?thesis
    using sorted_sort_key [of "\<lambda>s. (line_expires s = None, line_expires s, line_id s)"
      "filter (\<lambda>s. article_key env (line_name s) = article_key env name \<and>
          article_key env (line_unit s) = article_key env unit) lines"]
    unfolding lots_in_order_def sorted_map by (auto elim!: sorted_wrt_mono_rel [rotated])
qed

definition unit_of :: "ingredient \<Rightarrow> utext" where
  "unit_of ing = normalize_unit (case wanted_unit ing of Some u \<Rightarrow> u | None \<Rightarrow> [])"

definition same_name :: "kitchen_env \<Rightarrow> ingredient \<Rightarrow> stock_line \<Rightarrow> bool" where
  "same_name env ing l \<longleftrightarrow> article_key env (line_name l) = article_key env (wanted_name ing)"

definition same_unit_as :: "kitchen_env \<Rightarrow> ingredient \<Rightarrow> stock_line \<Rightarrow> bool" where
  "same_unit_as env ing l \<longleftrightarrow> article_key env (line_unit l) = article_key env (unit_of ing)"

text \<open>
  What a proposal says of one ingredient, with \<open>remaining\<close> left in the lines by those before it.
\<close>

definition positive_takes :: "proposal \<Rightarrow> lot_take list" where
  "positive_takes p = filter (\<lambda>t. 0 < take_quantity t) (lots p)"

definition proposal_ok ::
    "kitchen_env \<Rightarrow> stock_line list \<Rightarrow> (uuid \<times> quantity) list \<Rightarrow> ingredient \<Rightarrow> proposal \<Rightarrow> bool" where
  "proposal_ok env lines remaining ing p \<longleftrightarrow>
     warning p =
       (if \<not> list_ex (same_name env ing) lines then Some NoStock
        else if \<not> list_ex (\<lambda>l. same_name env ing l \<and> same_unit_as env ing l) lines then Some UnitMismatch
        else case wanted_quantity ing of
               None \<Rightarrow> Some NoQuantity
             | Some w \<Rightarrow> if proposed p < w then Some Capped else None)
     \<and> proposed p = total_taken env 0 (positive_takes p)
     \<and> (if list_ex (\<lambda>l. same_name env ing l \<and> same_unit_as env ing l) lines \<and> wanted_quantity ing \<noteq> None
        then \<exists>ls. set ls = {l \<in> set lines. same_name env ing l \<and> same_unit_as env ing l}
               \<and> distinct (map line_id ls) \<and> sorted_wrt used_before ls
               \<and> taken_in_order env remaining (the (wanted_quantity ing)) ls (positive_takes p)
        else positive_takes p = [])
     \<and> (lots p = [] \<longleftrightarrow> warning p = Some NoStock)
     \<and> (lots p = positive_takes p \<or>
        (\<exists>l \<in> set lines. lots p = [\<lparr>take_from = line_id l, take_quantity = 0\<rparr>] \<and> same_name env ing l \<and>
           (list_ex (\<lambda>l. same_name env ing l \<and> same_unit_as env ing l) lines \<longrightarrow> same_unit_as env ing l)))"

text \<open>The proposals of a whole recipe, each with what the ones before it leave.\<close>

fun proposals_ok ::
    "kitchen_env \<Rightarrow> stock_line list \<Rightarrow> (uuid \<times> quantity) list \<Rightarrow> ingredient list \<Rightarrow> proposal list \<Rightarrow> bool" where
  "proposals_ok env lines remaining [] ps = (ps = [])"
| "proposals_ok env lines remaining (ing # ings) [] = False"
| "proposals_ok env lines remaining (ing # ings) (p # ps) =
     (proposal_ok env lines remaining ing p \<and>
      (case replay env (positive_takes p) remaining of
         None \<Rightarrow> False
       | Some remaining' \<Rightarrow> proposals_ok env lines remaining' ings ps))"

lemma match_stock_None: "match_stock env name unit lines = None \<longleftrightarrow>
    \<not> list_ex (\<lambda>l. article_key env (line_name l) = article_key env name) lines"
  by (auto simp: match_stock_def list_ex_iff filter_empty_conv)

lemma match_stock_unit:
  assumes "match_stock env name unit lines = Some m"
  shows "article_key env (line_unit m) = article_key env unit \<longleftrightarrow>
    list_ex (\<lambda>l. article_key env (line_name l) = article_key env name \<and> article_key env (line_unit l) = article_key env unit) lines"
proof -
  have m: "m \<in> set lines" "article_key env (line_name m) = article_key env name"
    using min_by_key_in [OF assms [unfolded match_stock_def]] by auto
  have "article_key env (line_unit m) = article_key env unit"
    if "l \<in> set lines" "article_key env (line_name l) = article_key env name" "article_key env (line_unit l) = article_key env unit" for l
    using min_by_key_le [OF assms [unfolded match_stock_def], of l] that by (auto simp: less_eq_prod_def less_bool_def)
  with m show ?thesis by (auto simp: list_ex_iff)
qed

lemma set_lots: "set (lots_in_order env name unit lines) =
    {l \<in> set lines. article_key env (line_name l) = article_key env name \<and> article_key env (line_unit l) = article_key env unit}"
  by (auto simp: lots_in_order_def)

lemma lots_lines: "set (lots_in_order env (wanted_name ing) (unit_of ing) lines) =
    {l \<in> set lines. same_name env ing l \<and> same_unit_as env ing l}"
  by (auto simp: lots_in_order_def same_name_def same_unit_as_def)

lemma distinct_lots:
  "distinct (map line_id lines) \<Longrightarrow> distinct (map line_id (lots_in_order env name unit lines))"
  by (auto simp: lots_in_order_def distinct_map intro: inj_on_subset)

lemma propose_one_ok:
  assumes known: "line_id ` set lines \<subseteq> fst ` set remaining" and ids: "distinct (map line_id lines)"
  shows "\<exists>p remaining'. propose_one env lines ing remaining = Some (p, remaining')
    \<and> proposal_ok env lines remaining ing p \<and> replay env (positive_takes p) remaining = Some remaining'"
proof (cases "match_stock env (wanted_name ing) (unit_of ing) lines")
  case None
  then have none: "\<not> list_ex (same_name env ing) lines"
    using match_stock_None [of env "wanted_name ing" "unit_of ing" lines] by (simp add: same_name_def [abs_def])
  have "propose_one env lines ing remaining = Some (\<lparr>lots = [], proposed = 0, warning = Some NoStock\<rparr>, remaining)"
    using None by (simp add: propose_one_def unit_of_def Let_def)
  then show ?thesis using none by (auto simp: proposal_ok_def positive_takes_def total_taken_def list_ex_iff)
next
  case (Some m)
  then have name: "list_ex (same_name env ing) lines"
    using match_stock_None [of env "wanted_name ing" "unit_of ing" lines] by (simp add: same_name_def [abs_def])
  note unit = match_stock_unit [OF Some]
  have m: "m \<in> set lines" "same_name env ing m"
    using min_by_key_in [OF Some [unfolded match_stock_def]] by (auto simp: same_name_def)
  have both: "list_ex (\<lambda>l. same_name env ing l \<and> same_unit_as env ing l) lines \<longleftrightarrow> same_unit_as env ing m"
    using unit by (simp add: same_name_def same_unit_as_def)
  let ?nothing = "[\<lparr>take_from = line_id m, take_quantity = 0\<rparr>] :: lot_take list"
  have one: "propose_one env lines ing remaining =
      (if \<not> same_unit_as env ing m
       then Some (\<lparr>lots = ?nothing, proposed = 0, warning = Some UnitMismatch\<rparr>, remaining)
       else case wanted_quantity ing of
              None \<Rightarrow> Some (\<lparr>lots = ?nothing, proposed = 0, warning = Some NoQuantity\<rparr>, remaining)
            | Some w \<Rightarrow> do {
                (ts, tot, remaining) \<leftarrow> lots_loop env (lots_in_order env (wanted_name ing) (unit_of ing) lines) w 0 remaining;
                Some (\<lparr>lots = (if ts = [] then ?nothing else ts), proposed = tot,
                       warning = (if tot < w then Some Capped else None)\<rparr>, remaining) })"
    using Some unfolding propose_one_def same_unit_as_def unit_of_def Let_def by (simp only: option.case)
  have line: "\<exists>l \<in> set lines. ?nothing = [\<lparr>take_from = line_id l, take_quantity = 0\<rparr>] \<and> same_name env ing l \<and>
      (list_ex (\<lambda>l. same_name env ing l \<and> same_unit_as env ing l) lines \<longrightarrow> same_unit_as env ing l)"
    using m both by blast
  consider (mismatch) "\<not> same_unit_as env ing m" | (free) "same_unit_as env ing m" "wanted_quantity ing = None"
    | (wanted) w where "same_unit_as env ing m" "wanted_quantity ing = Some w" by fastforce
  then show ?thesis
  proof cases
    case mismatch
    then show ?thesis using name both line by (simp add: one proposal_ok_def positive_takes_def total_taken_def)
  next
    case free
    then show ?thesis using name both line by (simp add: one proposal_ok_def positive_takes_def total_taken_def)
  next
    case wanted
    let ?ls = "lots_in_order env (wanted_name ing) (unit_of ing) lines"
    have "line_id ` set ?ls \<subseteq> fst ` set remaining" using known by (auto simp: set_lots)
    from lots_loop_ok [OF this distinct_lots [OF ids] lots_in_use_order, of env w 0] obtain ts r where l:
      "lots_loop env ?ls w 0 remaining = Some (ts, total_taken env 0 ts, r)" "replay env ts remaining = Some r"
      "taken_in_order env remaining w ?ls ts" "\<forall>t \<in> set ts. 0 < take_quantity t" by blast
    let ?p = "\<lparr>lots = (if ts = [] then ?nothing else ts), proposed = total_taken env 0 ts,
      warning = (if total_taken env 0 ts < w then Some Capped else None)\<rparr>"
    have "filter (\<lambda>t. 0 < take_quantity t) ts = ts" using l(4) by (simp add: filter_id_conv)
    then have t: "positive_takes ?p = ts" by (simp add: positive_takes_def)
    have "propose_one env lines ing remaining = Some (?p, r)" using l(1) wanted by (simp add: one)
    moreover have "proposal_ok env lines remaining ing ?p"
      unfolding proposal_ok_def t
      using wanted name both line lots_lines [of env ing lines] distinct_lots [OF ids] lots_in_use_order [of env "wanted_name ing" "unit_of ing" lines] l(3)
      by auto
    ultimately show ?thesis using l(2) t by (intro exI [of _ ?p] exI [of _ r]) simp
  qed
qed

lemma propose_all_ok:
  "line_id ` set lines \<subseteq> fst ` set remaining \<Longrightarrow> distinct (map line_id lines) \<Longrightarrow>
   \<exists>ps remaining'. propose_all env lines ings remaining = Some ps \<and> proposals_ok env lines remaining ings ps
     \<and> replay env (concat (map positive_takes ps)) remaining = Some remaining'"
proof (induction ings arbitrary: remaining)
  case (Cons ing ings)
  then obtain p r1 where p: "propose_one env lines ing remaining = Some (p, r1)" "proposal_ok env lines remaining ing p"
    "replay env (positive_takes p) remaining = Some r1" using propose_one_ok by blast
  have "line_id ` set lines \<subseteq> fst ` set r1" using Cons.prems(1) replay_keys [OF p(3)] by simp
  from Cons.IH [OF this Cons.prems(2)] obtain ps r where ps: "propose_all env lines ings r1 = Some ps"
    "proposals_ok env lines r1 ings ps" "replay env (concat (map positive_takes ps)) r1 = Some r" by blast
  have "propose_all env lines (ing # ings) remaining = Some (p # ps)" using p(1) ps(1) by simp
  moreover have "proposals_ok env lines remaining (ing # ings) (p # ps)" using p ps(2) by simp
  moreover have "replay env (concat (map positive_takes (p # ps))) remaining = Some r" using p(3) ps(3) by (simp add: replay_append)
  ultimately show ?case by blast
qed simp

lemma proposals_each:
  "proposals_ok env lines remaining ings ps \<Longrightarrow>
     length ings = length ps \<and> (\<forall>p \<in> set ps. \<exists>ing \<in> set ings. \<exists>rem. proposal_ok env lines rem ing p)"
  by (induction env lines remaining ings ps rule: proposals_ok.induct) (auto split: option.splits)

lemma positive_in_lines:
  assumes "proposal_ok env lines remaining ing p" "t \<in> set (positive_takes p)"
  shows "\<exists>l \<in> set lines. line_id l = take_from t \<and> same_name env ing l"
proof -
  have "positive_takes p \<noteq> []" using assms(2) by auto
  then obtain ls where ls: "set ls = {l \<in> set lines. same_name env ing l \<and> same_unit_as env ing l}"
    "taken_in_order env remaining (the (wanted_quantity ing)) ls (positive_takes p)"
    using assms(1) unfolding proposal_ok_def by (auto split: if_splits)
  have "take_from t \<in> set (map take_from (positive_takes p))" using assms(2) by simp
  moreover have "subseq (map take_from (positive_takes p)) (map line_id ls)" using ls(2) by (simp add: taken_in_order_def)
  ultimately have "take_from t \<in> set (map line_id ls)" by (metis (mono_tags, lifting) list_emb_set)
  with ls(1) show ?thesis by auto
qed

text \<open>
  C20. The preview of a cooked recipe answers for every ingredient, in order. For an ingredient
  with a quantity, the lines of its name and unit are used in this order: those that expire first
  first, those without a date last, the identifier settling ties; each gives all that is still
  wanted or all that it has left after the ingredients before, whichever is less, and none with
  something left is passed over while anything is wanted. The quantity proposed is the sum of
  these takes, and the warning says exactly why less than the recipe's is. Any other ingredient
  takes nothing. Taking all the proposed quantities one after another never finds a line that
  holds too little, even when two ingredients share it.
\<close>

theorem preview_takes_what_is_there:
  assumes "distinct (map line_id lines)"
  shows "\<exists>ps remaining. propose env ings lines = Some ps
     \<and> proposals_ok env lines (map (\<lambda>s. (line_id s, held s)) lines) ings ps
     \<and> replay env (concat (map positive_takes ps)) (map (\<lambda>s. (line_id s, held s)) lines) = Some remaining"
  unfolding propose_def by (rule propose_all_ok) (simp_all add: assms image_image)

definition exact_kitchen :: kitchen_env where
  "exact_kitchen = \<lparr>fl = (\<lambda>x. x), lower = (\<lambda>n. n), collate = (\<lambda>n. n)\<rparr>"

definition milk_lots :: "stock_line list" where
  "milk_lots = [\<lparr>line_id = 1, line_name = chars ''lait'', line_unit = chars ''l'', held = 1, line_expires = None\<rparr>,
     \<lparr>line_id = 2, line_name = chars ''lait'', line_unit = chars ''l'', held = 2, line_expires = Some 9\<rparr>]"

lemma preview_takes_what_is_there_witness:
  "\<exists>ps. propose exact_kitchen [\<lparr>wanted_name = chars ''lait'', wanted_quantity = Some 3, wanted_unit = Some (chars ''l'')\<rparr>]
       milk_lots = Some ps \<and> length ps = 1"
proof -
  let ?i = "[\<lparr>wanted_name = chars ''lait'', wanted_quantity = Some 3, wanted_unit = Some (chars ''l'')\<rparr>]"
  have len: "length ps = 1" if "proposals_ok env ls r ?i ps" for env ls r ps
    using that by (cases ps; cases "tl ps") (auto split: option.splits)
  show ?thesis
    using preview_takes_what_is_there [of milk_lots exact_kitchen ?i] len by (auto simp: milk_lots_def)
qed

end
