(* ===== verification/Cooked_Done.thy ===== *)
theory Cooked_Done
  imports Cooked Account_Purge Paris
begin

text \<open>
  A planned recipe cooked or abandoned (\<open>apps/api/src/recipes/outcome.rs\<close>): the requests, and
  the transactions that take from the stock, log the meal, change the recipe and close the
  selection. Each application locks the selection, then the lines it takes from, so it is one
  function of the rows; they are those of one group, which every statement names.
\<close>

section \<open>Requests\<close>

text \<open>A quantity of a request: \<open>None\<close> is one that is not finite.\<close>

record removal =
  rm_item :: uuid
  rm_quantity :: "quantity option"
  rm_exclude :: bool

record other_removal =
  other_item :: uuid
  other_quantity :: "quantity option"

datatype recipe_change = SetQuantity "quantity option" | Remove | MakeOptional

record recipe_update =
  upd_ingredient :: uuid
  upd_change :: recipe_change

datatype app_error =
    Duplicate_stock_item
  | Invalid_quantity
  | Duplicate_ingredient
  | Duplicate_grocery_item
  | Stock_item_not_in_recipe
  | Forbidden
  | Not_found
  | Stock_item_gone uuid
  | Insufficient_stock uuid quantity
  | Grocery_item_changed "uuid list"

fun check_removals :: "removal list \<Rightarrow> uuid list \<Rightarrow> app_error + unit" where
  "check_removals [] seen = Inr ()"
| "check_removals (r # rs) seen =
     (if rm_item r \<in> set seen then Inl Duplicate_stock_item
      else case rm_quantity r of
             None \<Rightarrow> Inl Invalid_quantity
           | Some q \<Rightarrow> if q < 0 then Inl Invalid_quantity else check_removals rs (rm_item r # seen))"

definition taken :: "removal \<Rightarrow> (uuid \<times> quantity) option" where
  "taken r = (case rm_quantity r of Some q \<Rightarrow> if \<not> rm_exclude r \<and> 0 < q then Some (rm_item r, q) else None | None \<Rightarrow> None)"

definition removals_to_apply :: "removal list \<Rightarrow> app_error + (uuid \<times> quantity) list" where
  "removals_to_apply removals =
     (case check_removals removals [] of Inl e \<Rightarrow> Inl e | Inr _ \<Rightarrow> Inr (List.map_filter taken removals))"

fun check_others_loop :: "other_removal list \<Rightarrow> uuid list \<Rightarrow> app_error + unit" where
  "check_others_loop [] seen = Inr ()"
| "check_others_loop (r # rs) seen =
     (if other_item r \<in> set seen then Inl Duplicate_stock_item
      else case other_quantity r of
             None \<Rightarrow> Inl Invalid_quantity
           | Some q \<Rightarrow> if q \<le> 0 then Inl Invalid_quantity else check_others_loop rs (other_item r # seen))"

definition check_others :: "removal list \<Rightarrow> other_removal list \<Rightarrow> app_error + (uuid \<times> quantity) list" where
  "check_others removals others =
     (case check_others_loop others (map rm_item removals) of
        Inl e \<Rightarrow> Inl e
      | Inr _ \<Rightarrow> Inr (List.map_filter (\<lambda>r. map_option (Pair (other_item r)) (other_quantity r)) others))"

fun check_updates_loop :: "recipe_update list \<Rightarrow> uuid list \<Rightarrow> app_error + unit" where
  "check_updates_loop [] seen = Inr ()"
| "check_updates_loop (u # us) seen =
     (if upd_ingredient u \<in> set seen then Inl Duplicate_ingredient
      else case upd_change u of
             SetQuantity None \<Rightarrow> Inl Invalid_quantity
           | SetQuantity (Some q) \<Rightarrow>
               if q \<le> 0 then Inl Invalid_quantity else check_updates_loop us (upd_ingredient u # seen)
           | _ \<Rightarrow> check_updates_loop us (upd_ingredient u # seen))"

definition check_recipe_updates :: "recipe_update list \<Rightarrow> app_error + unit" where
  "check_recipe_updates us = check_updates_loop us []"

definition check_grocery_ids :: "uuid list \<Rightarrow> app_error + unit" where
  "check_grocery_ids ids = (if distinct ids then Inr () else Inl Duplicate_grocery_item)"

section \<open>Products added to the recipe\<close>

definition names_an_ingredient :: "kitchen_env \<Rightarrow> utext \<Rightarrow> utext list \<Rightarrow> bool" where
  "names_an_ingredient env name ingredients \<longleftrightarrow> list_ex (\<lambda>i. article_key env i = article_key env name) ingredients"

record used_product =
  used_name :: utext
  used_unit :: utext
  used_quantity :: quantity

record new_ingredient =
  new_name :: utext
  new_quantity :: quantity
  new_unit :: utext

fun add_used ::
    "kitchen_env \<Rightarrow> utext list \<Rightarrow> used_product list \<Rightarrow> (utext \<times> new_ingredient) list \<Rightarrow> (utext \<times> new_ingredient) list" where
  "add_used env existing [] added = added"
| "add_used env existing (u # us) added =
     (let key = article_key env (used_name u)
      in if key \<in> set existing then add_used env existing us added
         else add_used env existing us
           (case map_of added key of
              Some ing \<Rightarrow>
                if article_key env (new_unit ing) = article_key env (used_unit u)
                then AList.update key (ing\<lparr>new_quantity := without_binary_noise env (fl env (new_quantity ing + used_quantity u))\<rparr>) added
                else added
            | None \<Rightarrow> added @ [(key, \<lparr>new_name = trim_text (used_name u), new_quantity = used_quantity u, new_unit = trim_text (used_unit u)\<rparr>)]))"

definition ingredients_to_add ::
    "kitchen_env \<Rightarrow> used_product list \<Rightarrow> utext list \<Rightarrow> int option \<Rightarrow> int option \<Rightarrow> new_ingredient list" where
  "ingredients_to_add env used existing cooked_for written_for =
     map (\<lambda>(_, ing). ing\<lparr>new_quantity :=
            (case scale_quantity env (Some (new_quantity ing)) cooked_for written_for of Some q \<Rightarrow> q | None \<Rightarrow> new_quantity ing)\<rparr>)
       (add_used env (map (article_key env) existing) used [])"

section \<open>The rows of a group\<close>

datatype selection_status = Planned | Done | Abandoned

record selection =
  sel_id :: uuid
  sel_recipe :: uuid
  sel_status :: selection_status
  sel_servings :: "int option"
  sel_updated_at :: instant

record recipe =
  rec_id :: uuid
  rec_servings :: "int option"
  rec_created_by :: uuid
  rec_updated_at :: instant

record recipe_ingredient_row =
  ing_id :: uuid
  ing_recipe :: uuid
  ing_name :: utext
  ing_quantity :: "quantity option"
  ing_unit :: "utext option"
  ing_optional :: bool

record listed_row =
  item_id :: uuid
  item_source :: "uuid option"
  item_checked :: bool

record meal =
  meal_recipe :: uuid
  meal_eaten_on :: date
  meal_by :: uuid

record kitchen =
  roles :: "(uuid \<times> role) list"
  recipes :: "recipe list"
  recipe_ingredients :: "recipe_ingredient_row list"
  selections :: "selection list"
  stock :: "stock_line list"
  meals :: "meal list"
  grocery :: "listed_row list"

definition can_modify_recipe :: "role \<Rightarrow> bool \<Rightarrow> bool" where
  "can_modify_recipe actor_role actor_is_creator \<longleftrightarrow> actor_is_creator \<or> actor_role = Owner \<or> actor_role = Admin"

definition require_role_in :: "kitchen \<Rightarrow> uuid \<Rightarrow> app_error + role" where
  "require_role_in db user = (case map_of (roles db) user of Some r \<Rightarrow> Inr r | None \<Rightarrow> Inl Forbidden)"

definition planned_selection :: "kitchen \<Rightarrow> uuid \<Rightarrow> app_error + selection \<times> recipe" where
  "planned_selection db rid =
     (case (find (\<lambda>s. sel_recipe s = rid \<and> sel_status s = Planned) (selections db), find (\<lambda>r. rec_id r = rid) (recipes db)) of
        (Some s, Some r) \<Rightarrow> Inr (s, r)
      | _ \<Rightarrow> Inl Not_found)"

definition close_selection :: "kitchen \<Rightarrow> instant \<Rightarrow> selection \<Rightarrow> selection_status \<Rightarrow> kitchen" where
  "close_selection db now s status =
     db\<lparr>selections := map (\<lambda>x. if sel_id x = sel_id s then x\<lparr>sel_status := status, sel_updated_at := now\<rparr> else x) (selections db)\<rparr>"

definition ingredients_of :: "kitchen_env \<Rightarrow> kitchen \<Rightarrow> uuid \<Rightarrow> recipe_ingredient_row list" where
  "ingredients_of env db rid =
     sort_key (\<lambda>r. (collate env (ing_name r), ing_id r)) (filter (\<lambda>r. ing_recipe r = rid) (recipe_ingredients db))"

section \<open>The preview\<close>

record done_line =
  dl_ingredient :: uuid
  dl_quantity :: "quantity option"
  dl_lots :: "(stock_line \<times> quantity) list"
  dl_proposed :: quantity
  dl_warning :: "removal_warning option"

definition wanted :: "kitchen_env \<Rightarrow> recipe \<Rightarrow> selection \<Rightarrow> recipe_ingredient_row \<Rightarrow> ingredient" where
  "wanted env r s row =
     \<lparr>wanted_name = ing_name row, wanted_quantity = scale_quantity env (ing_quantity row) (rec_servings r) (sel_servings s),
      wanted_unit = ing_unit row\<rparr>"

definition done_line_of :: "kitchen_env \<Rightarrow> kitchen \<Rightarrow> recipe \<Rightarrow> selection \<Rightarrow> recipe_ingredient_row \<times> proposal \<Rightarrow> done_line" where
  "done_line_of env db r s = (\<lambda>(row, p).
     \<lparr>dl_ingredient = ing_id row, dl_quantity = wanted_quantity (wanted env r s row),
      dl_lots = List.map_filter (\<lambda>t. map_option (\<lambda>l. (l, take_quantity t)) (find (\<lambda>l. line_id l = take_from t) (stock db))) (lots p),
      dl_proposed = proposed p, dl_warning = warning p\<rparr>)"

definition preview_done ::
    "kitchen_env \<Rightarrow> kitchen \<Rightarrow> uuid \<Rightarrow> uuid \<Rightarrow> (app_error + done_line list \<times> bool) option" where
  "preview_done env db user rid =
     (case require_role_in db user of
        Inl e \<Rightarrow> Some (Inl e)
      | Inr role \<Rightarrow>
          (case planned_selection db rid of
             Inl e \<Rightarrow> Some (Inl e)
           | Inr (s, r) \<Rightarrow>
               let rows = ingredients_of env db rid
               in map_option (\<lambda>ps. Inr (map (done_line_of env db r s) (zip rows ps), can_modify_recipe role (rec_created_by r = user)))
                    (propose env (map (wanted env r s) rows) (stock db))))"

section \<open>Cooked\<close>

record done_request =
  removals :: "removal list"
  eaten_on :: "date option"
  others :: "other_removal list"
  add_to_recipe :: bool
  recipe_updates :: "recipe_update list"

fun check_stock ::
    "kitchen_env \<Rightarrow> stock_line list \<Rightarrow> (uuid \<times> quantity) list \<Rightarrow> app_error + (uuid \<times> quantity) list" where
  "check_stock env locked [] = Inr []"
| "check_stock env locked ((i, q) # rest) =
     (case find (\<lambda>s. line_id s = i) locked of
        None \<Rightarrow> Inl (Stock_item_gone i)
      | Some line \<Rightarrow>
          (case remaining_after env (held line) q of
             None \<Rightarrow> Inl (Insufficient_stock i (without_binary_noise env (held line)))
           | Some left \<Rightarrow>
               (case check_stock env locked rest of Inl e \<Rightarrow> Inl e | Inr ys \<Rightarrow> Inr ((i, left) # ys))))"

definition update_stock :: "(uuid \<times> quantity) \<Rightarrow> stock_line list \<Rightarrow> stock_line list" where
  "update_stock = (\<lambda>(i, left). map (\<lambda>l. if line_id l = i then l\<lparr>held := left\<rparr> else l))"

definition apply_change :: "recipe_update \<Rightarrow> recipe_ingredient_row list \<Rightarrow> recipe_ingredient_row list" where
  "apply_change u rows =
     (case upd_change u of
        SetQuantity q \<Rightarrow> map (\<lambda>r. if ing_id r = upd_ingredient u then r\<lparr>ing_quantity := q\<rparr> else r) rows
      | Remove \<Rightarrow> filter (\<lambda>r. ing_id r \<noteq> upd_ingredient u) rows
      | MakeOptional \<Rightarrow> map (\<lambda>r. if ing_id r = upd_ingredient u then r\<lparr>ing_optional := True\<rparr> else r) rows)"

definition added_rows :: "(nat \<Rightarrow> uuid) \<Rightarrow> uuid \<Rightarrow> new_ingredient list \<Rightarrow> recipe_ingredient_row list" where
  "added_rows new_id rid to_add =
     map (\<lambda>(n, ing). \<lparr>ing_id = new_id n, ing_recipe = rid, ing_name = new_name ing, ing_quantity = Some (new_quantity ing),
            ing_unit = Some (new_unit ing), ing_optional = False\<rparr>) (enumerate 0 to_add)"

definition used_products :: "stock_line list \<Rightarrow> (uuid \<times> quantity) list \<Rightarrow> used_product list" where
  "used_products locked os =
     List.map_filter (\<lambda>(i, q). map_option (\<lambda>l. \<lparr>used_name = line_name l, used_unit = line_unit l, used_quantity = q\<rparr>)
       (find (\<lambda>s. line_id s = i) locked)) os"

text \<open>What the application writes, once every check has passed.\<close>

definition write_done ::
    "(nat \<Rightarrow> uuid) \<Rightarrow> zone \<Rightarrow> kitchen \<Rightarrow> instant \<Rightarrow> uuid \<Rightarrow> uuid \<Rightarrow> done_request \<Rightarrow> selection \<Rightarrow>
     (uuid \<times> quantity) list \<Rightarrow> new_ingredient list \<Rightarrow> kitchen" where
  "write_done new_id z db now user rid body s remaining to_add =
     (let db = db\<lparr>stock := fold update_stock remaining (stock db)\<rparr>;
          db = db\<lparr>meals := meals db @ [\<lparr>meal_recipe = rid,
                 meal_eaten_on = (case eaten_on body of Some d \<Rightarrow> d | None \<Rightarrow> paris_date z now), meal_by = user\<rparr>]\<rparr>;
          db = db\<lparr>recipe_ingredients := fold apply_change (recipe_updates body)
                 (recipe_ingredients db @ added_rows new_id rid to_add)\<rparr>;
          db = (if to_add \<noteq> [] \<or> recipe_updates body \<noteq> []
                then db\<lparr>recipes := map (\<lambda>r. if rec_id r = rid then r\<lparr>rec_updated_at := now\<rparr> else r) (recipes db)\<rparr> else db)
      in close_selection db now s Done)"

definition apply_done ::
    "kitchen_env \<Rightarrow> (nat \<Rightarrow> uuid) \<Rightarrow> zone \<Rightarrow> kitchen \<Rightarrow> instant \<Rightarrow> uuid \<Rightarrow> uuid \<Rightarrow> done_request \<Rightarrow> app_error + kitchen" where
  "apply_done env new_id z db now user rid body =
     (case removals_to_apply (removals body) of Inl e \<Rightarrow> Inl e | Inr to_apply \<Rightarrow>
      case check_others (removals body) (others body) of Inl e \<Rightarrow> Inl e | Inr os \<Rightarrow>
      case check_recipe_updates (recipe_updates body) of Inl e \<Rightarrow> Inl e | Inr _ \<Rightarrow>
      case require_role_in db user of Inl e \<Rightarrow> Inl e | Inr role \<Rightarrow>
      case planned_selection db rid of Inl e \<Rightarrow> Inl e | Inr (s, r) \<Rightarrow>
        let may_change = can_modify_recipe role (rec_created_by r = user);
            rows = ingredients_of env db rid;
            locked = sort_key line_id (filter (\<lambda>l. line_id l \<in> set (map fst (to_apply @ os))) (stock db));
            names = map ing_name rows;
            to_add = (if add_to_recipe body \<and> os \<noteq> []
                      then ingredients_to_add env (used_products locked os) names (sel_servings s) (rec_servings r) else [])
        in if recipe_updates body \<noteq> [] \<and> \<not> may_change then Inl Forbidden
           else if list_ex (\<lambda>u. \<not> list_ex (\<lambda>r. ing_id r = upd_ingredient u) rows) (recipe_updates body) then Inl Not_found
           else if list_ex (\<lambda>(i, _). find (\<lambda>l. line_id l = i) locked = None) os then Inl Not_found
           else if list_ex (\<lambda>(i, _). case find (\<lambda>l. line_id l = i) locked of
                       Some l \<Rightarrow> \<not> names_an_ingredient env (line_name l) names | None \<Rightarrow> False) to_apply
             then Inl Stock_item_not_in_recipe
           else if to_add \<noteq> [] \<and> \<not> may_change then Inl Forbidden
           else case check_stock env locked (to_apply @ os) of
                  Inl e \<Rightarrow> Inl e
                | Inr remaining \<Rightarrow> Inr (write_done new_id z db now user rid body s remaining to_add))"

section \<open>Abandoned\<close>

definition abandonable :: "kitchen \<Rightarrow> uuid \<Rightarrow> listed_row list" where
  "abandonable db rid = filter (\<lambda>g. item_source g = Some rid \<and> \<not> item_checked g) (grocery db)"

definition preview_abandoned :: "kitchen \<Rightarrow> uuid \<Rightarrow> uuid \<Rightarrow> app_error + listed_row list" where
  "preview_abandoned db user rid =
     (case require_role_in db user of Inl e \<Rightarrow> Inl e | Inr _ \<Rightarrow>
      case planned_selection db rid of Inl e \<Rightarrow> Inl e | Inr _ \<Rightarrow> Inr (abandonable db rid))"

definition apply_abandoned :: "kitchen \<Rightarrow> instant \<Rightarrow> uuid \<Rightarrow> uuid \<Rightarrow> uuid list \<Rightarrow> app_error + kitchen" where
  "apply_abandoned db now user rid remove =
     (case check_grocery_ids remove of Inl e \<Rightarrow> Inl e | Inr _ \<Rightarrow>
      case require_role_in db user of Inl e \<Rightarrow> Inl e | Inr _ \<Rightarrow>
      case planned_selection db rid of Inl e \<Rightarrow> Inl e | Inr (s, _) \<Rightarrow>
        let found = map item_id (filter (\<lambda>g. item_id g \<in> set remove) (abandonable db rid));
            changed = filter (\<lambda>i. i \<notin> set found) remove
        in if changed \<noteq> [] then Inl (Grocery_item_changed changed)
           else Inr (close_selection (db\<lparr>grocery := filter (\<lambda>g. item_id g \<notin> set remove) (grocery db)\<rparr>) now s Abandoned))"

section \<open>What an application does\<close>

text \<open>The lines a request takes from, and how much of each.\<close>

definition asked :: "done_request \<Rightarrow> (uuid \<times> quantity) list" where
  "asked body = List.map_filter taken (removals body) @
     List.map_filter (\<lambda>r. map_option (Pair (other_item r)) (other_quantity r)) (others body)"

lemma check_removals_Inr:
  "check_removals rs seen = Inr u \<longleftrightarrow>
     distinct (map rm_item rs) \<and> (\<forall>r \<in> set rs. rm_item r \<notin> set seen \<and> (\<exists>q. rm_quantity r = Some q \<and> 0 \<le> q))"
  by (induction rs arbitrary: seen) (auto split: option.splits, (metis image_eqI)+)

lemma check_removals_ok:
  "distinct (map rm_item rs) \<Longrightarrow> \<forall>r \<in> set rs. \<exists>q. rm_quantity r = Some q \<and> 0 \<le> q \<Longrightarrow> check_removals rs [] = Inr ()"
  by (simp add: check_removals_Inr)

lemma check_others_Inr:
  "check_others_loop rs seen = Inr u \<longleftrightarrow>
     distinct (map other_item rs) \<and> (\<forall>r \<in> set rs. other_item r \<notin> set seen \<and> (\<exists>q. other_quantity r = Some q \<and> 0 < q))"
  by (induction rs arbitrary: seen) (auto split: option.splits, (metis image_eqI)+)

lemma taken_item: "taken r = Some x \<Longrightarrow> fst x = rm_item r \<and> 0 < snd x"
  by (auto simp: taken_def split: option.splits if_splits)

lemma in_taken: "x \<in> set (List.map_filter taken rs) \<Longrightarrow> \<exists>r \<in> set rs. taken r = Some x"
  by (induction rs) (auto split: option.splits)

lemma fst_taken: "fst ` set (List.map_filter taken rs) \<subseteq> rm_item ` set rs"
  using in_taken [of _ rs] taken_item by fastforce

lemma distinct_taken: "distinct (map rm_item rs) \<Longrightarrow> distinct (map fst (List.map_filter taken rs))"
proof (induction rs)
  case (Cons r rs)
  have "rm_item r \<notin> fst ` set (List.map_filter taken rs)" using Cons.prems fst_taken [of rs] by auto
  with Cons show ?case by (cases "taken r") (simp_all add: taken_item)
qed simp

lemma others_map: "\<forall>r \<in> set rs. \<exists>q. other_quantity r = Some q \<Longrightarrow>
   List.map_filter (\<lambda>r. map_option (Pair (other_item r)) (other_quantity r)) rs =
   map (\<lambda>r. (other_item r, the (other_quantity r))) rs"
  by (induction rs) auto

lemma request_checked:
  assumes "removals_to_apply (removals body) = Inr xs" "check_others (removals body) (others body) = Inr os"
  shows "asked body = xs @ os" "distinct (map fst (asked body))" "\<forall>(i, q) \<in> set (asked body). 0 < q"
proof -
  have r: "check_removals (removals body) [] = Inr ()" "xs = List.map_filter taken (removals body)"
    using assms(1) by (auto simp: removals_to_apply_def split: sum.splits)
  have o': "check_others_loop (others body) (map rm_item (removals body)) = Inr ()"
    and os: "os = List.map_filter (\<lambda>r. map_option (Pair (other_item r)) (other_quantity r)) (others body)"
    using assms(2) by (auto simp: check_others_def split: sum.splits)
  show "asked body = xs @ os" by (simp add: asked_def r os)
  have m: "os = map (\<lambda>r. (other_item r, the (other_quantity r))) (others body)"
    unfolding os using o' by (intro others_map) (auto simp: check_others_Inr)
  have "distinct (map fst xs)" using r by (auto simp: check_removals_Inr intro: distinct_taken)
  moreover have "distinct (map fst os)" using o' by (simp add: m check_others_Inr o_def)
  moreover have "fst ` set xs \<inter> fst ` set os = {}"
    using o' fst_taken [of "removals body"] by (auto simp: m r(2) check_others_Inr image_iff)
  ultimately show "distinct (map fst (asked body))" unfolding \<open>asked body = xs @ os\<close> by simp
  have "\<forall>(i, q) \<in> set xs. 0 < q" by (auto simp: r(2) dest!: in_taken dest: taken_item)
  moreover have "\<forall>(i, q) \<in> set os. 0 < q" using o' by (force simp: m check_others_Inr)
  ultimately show "\<forall>(i, q) \<in> set (asked body). 0 < q" unfolding \<open>asked body = xs @ os\<close> by auto
qed

text \<open>An application that succeeds: what it checked, and what it writes.\<close>

lemma apply_done_Inr:
  assumes "apply_done env new_id z db now user rid body = Inr db'"
  obtains role s r remaining to_add where
    "map_of (roles db) user = Some role" "planned_selection db rid = Inr (s, r)"
    "distinct (map fst (asked body))" "\<forall>(i, q) \<in> set (asked body). 0 < q"
    "check_stock env (sort_key line_id (filter (\<lambda>l. line_id l \<in> set (map fst (asked body))) (stock db))) (asked body) = Inr remaining"
    "recipe_updates body \<noteq> [] \<or> to_add \<noteq> [] \<longrightarrow> can_modify_recipe role (rec_created_by r = user)"
    "db' = write_done new_id z db now user rid body s remaining to_add"
proof -
  from assms obtain xs where xs: "removals_to_apply (removals body) = Inr xs"
    by (cases "removals_to_apply (removals body)") (simp_all add: apply_done_def)
  from assms xs obtain os where os: "check_others (removals body) (others body) = Inr os"
    by (cases "check_others (removals body) (others body)") (simp_all add: apply_done_def)
  from assms xs os obtain u where u: "check_recipe_updates (recipe_updates body) = Inr u"
    by (cases "check_recipe_updates (recipe_updates body)") (simp_all add: apply_done_def)
  from assms xs os u obtain role where rr: "require_role_in db user = Inr role"
    by (cases "require_role_in db user") (simp_all add: apply_done_def)
  from assms xs os u rr obtain s r where sel: "planned_selection db rid = Inr (s, r)"
    by (cases "planned_selection db rid") (auto simp: apply_done_def)
  note req = request_checked [OF xs os]
  note a = assms [unfolded apply_done_def xs os u rr sel sum.case prod.case Let_def, folded req(1)]
  have role: "map_of (roles db) user = Some role" using rr by (simp add: require_role_in_def split: option.splits)
  from a show thesis
    by (auto split: if_splits sum.splits intro: that [OF role sel req(2,3)])
qed

lemma check_stock_Cons:
  "check_stock env locked ((i, q) # xs) = Inr ys \<longleftrightarrow>
     (\<exists>l left zs. find (\<lambda>s. line_id s = i) locked = Some l \<and> remaining_after env (held l) q = Some left \<and>
        check_stock env locked xs = Inr zs \<and> ys = (i, left) # zs)"
  by (auto split: option.splits sum.splits)

lemma check_stock_keys: "check_stock env locked xs = Inr ys \<Longrightarrow> map fst ys = map fst xs"
proof (induction xs arbitrary: ys)
  case (Cons x xs)
  then show ?case by (cases x) (auto simp: check_stock_Cons simp del: check_stock.simps(2))
qed simp

lemma check_stock_Inr:
  "check_stock env locked xs = Inr ys \<Longrightarrow> (i, q) \<in> set xs \<Longrightarrow>
   \<exists>l left. find (\<lambda>s. line_id s = i) locked = Some l \<and> remaining_after env (held l) q = Some left \<and> (i, left) \<in> set ys"
proof (induction xs arbitrary: ys)
  case (Cons x xs)
  obtain j p where x: "x = (j, p)" by force
  from Cons.prems(1) obtain l left zs where z: "find (\<lambda>s. line_id s = j) locked = Some l" "remaining_after env (held l) p = Some left"
    "check_stock env locked xs = Inr zs" "ys = (j, left) # zs"
    unfolding x check_stock_Cons by blast
  show ?case
  proof (cases "(i, q) = (j, p)")
    case False
    then have "(i, q) \<in> set xs" using Cons.prems(2) x by auto
    from Cons.IH [OF z(3) this] z(4) show ?thesis by auto
  qed (use z in auto)
qed simp

lemma update_stock_other: "map line_id (update_stock x ls) = map line_id ls"
  by (cases x) (simp add: update_stock_def o_def)

lemma fold_update_stock:
  "distinct (map fst xs) \<Longrightarrow>
   fold update_stock xs ls = map (\<lambda>l. case map_of xs (line_id l) of Some left \<Rightarrow> l\<lparr>held := left\<rparr> | None \<Rightarrow> l) ls"
proof (induction xs arbitrary: ls)
  case (Cons x xs)
  obtain i left where x: "x = (i, left)" by force
  have "map_of xs i = None" using Cons.prems by (simp add: x map_of_eq_None_iff)
  with Cons show ?case by (auto simp: x update_stock_def)
qed simp

lemma unique_line: "distinct (map line_id ls) \<Longrightarrow> l \<in> set ls \<Longrightarrow> m \<in> set ls \<Longrightarrow> line_id l = line_id m \<Longrightarrow> l = m"
  by (induction ls) (auto simp: image_iff)

text \<open>The stock an application leaves, line by line.\<close>

lemma stock_after:
  assumes d: "distinct (map line_id lines)" "distinct (map fst xs)"
    and ok: "check_stock env (sort_key line_id (filter (\<lambda>l. line_id l \<in> set (map fst xs)) lines)) xs = Inr ys"
  shows "fold update_stock ys lines =
      map (\<lambda>l. case map_of xs (line_id l) of Some q \<Rightarrow> l\<lparr>held := the (remaining_after env (held l) q)\<rparr> | None \<Rightarrow> l) lines"
    and "(i, q) \<in> set xs \<Longrightarrow> \<exists>l \<in> set lines. line_id l = i \<and> remaining_after env (held l) q \<noteq> None"
proof -
  note keys = check_stock_keys [OF ok]
  have line: "\<exists>l \<in> set lines. line_id l = i \<and> (\<exists>left. remaining_after env (held l) q = Some left \<and> (i, left) \<in> set ys)"
    if "(i, q) \<in> set xs" for i q
  proof -
    from check_stock_Inr [OF ok that] obtain l left where l: "find (\<lambda>s. line_id s = i)
        (sort_key line_id (filter (\<lambda>l. line_id l \<in> set (map fst xs)) lines)) = Some l"
      "remaining_after env (held l) q = Some left" "(i, left) \<in> set ys" by blast
    from find_holds [OF l(1)] have "line_id l = i" "l \<in> set lines" by simp_all
    with l(2,3) show ?thesis by auto
  qed
  then show "(i, q) \<in> set xs \<Longrightarrow> \<exists>l \<in> set lines. line_id l = i \<and> remaining_after env (held l) q \<noteq> None" by fastforce
  have dy: "distinct (map fst ys)" using d(2) by (simp only: keys)
  have "map_of ys (line_id l) = (case map_of xs (line_id l) of Some q \<Rightarrow> Some (the (remaining_after env (held l) q)) | None \<Rightarrow> None)"
    if l: "l \<in> set lines" for l
  proof (cases "map_of xs (line_id l)")
    case None
    then have "line_id l \<notin> set (map fst ys)" unfolding keys by (simp add: map_of_eq_None_iff)
    then have "map_of ys (line_id l) = None" by (simp add: map_of_eq_None_iff)
    with None show ?thesis by simp
  next
    case (Some q)
    then obtain m left where m: "m \<in> set lines" "line_id m = line_id l" "remaining_after env (held m) q = Some left" "(line_id l, left) \<in> set ys"
      using line [OF map_of_SomeD] by blast
    then have "m = l" using unique_line [OF d(1)] l by blast
    with m dy Some show ?thesis by simp
  qed
  then show "fold update_stock ys lines =
      map (\<lambda>l. case map_of xs (line_id l) of Some q \<Rightarrow> l\<lparr>held := the (remaining_after env (held l) q)\<rparr> | None \<Rightarrow> l) lines"
    unfolding fold_update_stock [OF dy] by (auto split: option.split)
qed

lemma closed_not_planned:
  assumes "planned_selection db rid = Inr (s, r)" "status \<noteq> Planned"
    and "length (filter (\<lambda>s. sel_recipe s = rid \<and> sel_status s = Planned) (selections db)) \<le> 1"
  shows "planned_selection (close_selection db now s status) rid = Inl Not_found"
proof -
  have s: "s \<in> set (filter (\<lambda>s. sel_recipe s = rid \<and> sel_status s = Planned) (selections db))"
    using assms(1) by (auto simp: planned_selection_def find_Some_iff split: option.splits)
  have "x = s" if "x \<in> set (selections db)" "sel_recipe x = rid" "sel_status x = Planned" for x
  proof -
    have "x \<in> set (filter (\<lambda>s. sel_recipe s = rid \<and> sel_status s = Planned) (selections db))" using that by simp
    with assms(3) s show ?thesis
      by (cases "filter (\<lambda>s. sel_recipe s = rid \<and> sel_status s = Planned) (selections db)") simp_all
  qed
  then have "find (\<lambda>s. sel_recipe s = rid \<and> sel_status s = Planned) (selections (close_selection db now s status)) = None"
    using assms(2) by (fastforce simp: find_None_iff close_selection_def)
  then show ?thesis by (simp add: planned_selection_def)
qed

lemma planned_None:
  "planned_selection db rid = Inl Not_found \<longleftrightarrow>
     find (\<lambda>s. sel_recipe s = rid \<and> sel_status s = Planned) (selections db) = None \<or> rid \<notin> set (map rec_id (recipes db))"
proof -
  have "find (\<lambda>r. rec_id r = rid) (recipes db) = None \<longleftrightarrow> rid \<notin> set (map rec_id (recipes db))"
    by (auto simp: find_None_iff)
  then show ?thesis unfolding planned_selection_def
    by (cases "find (\<lambda>r. rec_id r = rid) (recipes db)";
        cases "find (\<lambda>s. sel_recipe s = rid \<and> sel_status s = Planned) (selections db)") simp_all
qed

lemma not_planned_refused:
  assumes "planned_selection db rid = Inl Not_found"
  shows "\<exists>e. apply_done env new_id z db now user rid body = Inl e" "\<exists>e. apply_abandoned db now user rid remove = Inl e"
  using assms by (auto simp: apply_done_def apply_abandoned_def split: sum.splits)

lemma planned_member: "planned_selection db rid = Inr (s, r) \<Longrightarrow> s \<in> set (selections db) \<and> sel_recipe s = rid \<and> sel_status s = Planned \<and> r \<in> set (recipes db) \<and> rec_id r = rid"
  by (auto simp: planned_selection_def dest: find_holds split: option.splits)

lemma write_done_tables:
  assumes "db' = write_done new_id z db now user rid body s remaining to_add"
  shows "stock db' = fold update_stock remaining (stock db)"
    and "selections db' =
      map (\<lambda>x. if sel_id x = sel_id s then x\<lparr>sel_status := Done, sel_updated_at := now\<rparr> else x) (selections db)"
    and "meals db' = meals db @ [\<lparr>meal_recipe = rid,
      meal_eaten_on = (case eaten_on body of Some d \<Rightarrow> d | None \<Rightarrow> paris_date z now), meal_by = user\<rparr>]"
    and "roles db' = roles db" "grocery db' = grocery db"
    and "map rec_id (recipes db') = map rec_id (recipes db)"
    and "recipe_updates body = [] \<Longrightarrow> to_add = [] \<Longrightarrow> recipe_ingredients db' = recipe_ingredients db \<and> recipes db' = recipes db"
  by (simp_all add: assms write_done_def close_selection_def Let_def added_rows_def o_def)

lemma written_closed:
  assumes "planned_selection db rid = Inr (s, r)"
    and "length (filter (\<lambda>s. sel_recipe s = rid \<and> sel_status s = Planned) (selections db)) \<le> 1"
    and "selections db' = map (\<lambda>x. if sel_id x = sel_id s then x\<lparr>sel_status := status, sel_updated_at := now\<rparr> else x) (selections db)"
    and "map rec_id (recipes db') = map rec_id (recipes db)" "status \<noteq> Planned"
  shows "planned_selection db' rid = Inl Not_found"
  using closed_not_planned [OF assms(1,5,2), of now] assms(3,4) by (simp add: planned_None close_selection_def)

text \<open>
  C21. An application marked done takes from the stock exactly what it was asked, or nothing at
  all: each line named keeps what it held less the quantity asked, which it did hold, and never
  goes below zero; every other line is as it was. One meal is logged, the selection becomes done,
  and the recipe itself changes only for someone allowed to change it. The selection is then no
  longer planned, so the same recipe can be neither done nor abandoned again until it is
  selected anew: nothing is taken twice.
\<close>

theorem cooked_once:
  assumes ok: "apply_done env new_id z db now user rid body = Inr db'"
    and lines: "distinct (map line_id (stock db))"
    and planned: "length (filter (\<lambda>s. sel_recipe s = rid \<and> sel_status s = Planned) (selections db)) \<le> 1"
  shows "stock db' = map (\<lambda>l. case map_of (asked body) (line_id l) of None \<Rightarrow> l
            | Some q \<Rightarrow> l\<lparr>held := max (without_binary_noise env (fl env (without_binary_noise env (held l) - q))) 0\<rparr>) (stock db)
    \<and> (\<forall>(i, q) \<in> set (asked body). 0 < q \<and> (\<exists>l \<in> set (stock db). line_id l = i \<and> q \<le> without_binary_noise env (held l)))
    \<and> (\<exists>day. meals db' = meals db @ [\<lparr>meal_recipe = rid, meal_eaten_on = day, meal_by = user\<rparr>])
    \<and> (recipe_ingredients db' = recipe_ingredients db \<and> recipes db' = recipes db \<or>
         (\<exists>role r. map_of (roles db) user = Some role \<and> r \<in> set (recipes db) \<and> rec_id r = rid \<and> can_modify_recipe role (rec_created_by r = user)))
    \<and> roles db' = roles db \<and> grocery db' = grocery db
    \<and> (\<forall>env2 new2 z2 now2 user2 body2. \<exists>e. apply_done env2 new2 z2 db' now2 user2 rid body2 = Inl e)
    \<and> (\<forall>now2 user2 remove. \<exists>e. apply_abandoned db' now2 user2 rid remove = Inl e)"
proof -
  obtain role s r remaining to_add where a:
    "map_of (roles db) user = Some role" "planned_selection db rid = Inr (s, r)"
    "distinct (map fst (asked body))" "\<forall>(i, q) \<in> set (asked body). 0 < q"
    "check_stock env (sort_key line_id (filter (\<lambda>l. line_id l \<in> set (map fst (asked body))) (stock db))) (asked body) = Inr remaining"
    "recipe_updates body \<noteq> [] \<or> to_add \<noteq> [] \<longrightarrow> can_modify_recipe role (rec_created_by r = user)"
    "db' = write_done new_id z db now user rid body s remaining to_add"
    by (rule apply_done_Inr [OF ok])
  note w = write_done_tables [OF a(7)]
  note st = stock_after [OF lines a(3,5)]
  have left: "q \<le> without_binary_noise env (held l) \<and>
      the (remaining_after env (held l) q) = max (without_binary_noise env (fl env (without_binary_noise env (held l) - q))) 0"
    if "remaining_after env (held l) q \<noteq> None" for l :: stock_line and q
    using that by (simp add: remaining_after_def Let_def split: if_splits)
  have "stock db' = map (\<lambda>l. case map_of (asked body) (line_id l) of None \<Rightarrow> l
      | Some q \<Rightarrow> l\<lparr>held := max (without_binary_noise env (fl env (without_binary_noise env (held l) - q))) 0\<rparr>) (stock db)"
    unfolding w(1) st(1)
  proof (rule map_cong [OF refl])
    fix l assume l: "l \<in> set (stock db)"
    show "(case map_of (asked body) (line_id l) of None \<Rightarrow> l | Some q \<Rightarrow> l\<lparr>held := the (remaining_after env (held l) q)\<rparr>) =
        (case map_of (asked body) (line_id l) of None \<Rightarrow> l
         | Some q \<Rightarrow> l\<lparr>held := max (without_binary_noise env (fl env (without_binary_noise env (held l) - q))) 0\<rparr>)"
    proof (cases "map_of (asked body) (line_id l)")
      case (Some q)
      then obtain m where "m \<in> set (stock db)" "line_id m = line_id l" "remaining_after env (held m) q \<noteq> None"
        using st(2) [OF map_of_SomeD] by blast
      moreover from this have "m = l" using unique_line [OF lines] l by blast
      ultimately show ?thesis using Some left by simp
    qed simp
  qed
  moreover have "0 < q \<and> (\<exists>l \<in> set (stock db). line_id l = i \<and> q \<le> without_binary_noise env (held l))"
    if "(i, q) \<in> set (asked body)" for i q
    using a(4) st(2) [OF that] left that by blast
  then have "\<forall>(i, q) \<in> set (asked body). 0 < q \<and> (\<exists>l \<in> set (stock db). line_id l = i \<and> q \<le> without_binary_noise env (held l))"
    by blast
  moreover have "recipe_ingredients db' = recipe_ingredients db \<and> recipes db' = recipes db \<or>
      (\<exists>role r. map_of (roles db) user = Some role \<and> r \<in> set (recipes db) \<and> rec_id r = rid \<and> can_modify_recipe role (rec_created_by r = user))"
  proof (cases "recipe_updates body = [] \<and> to_add = []")
    case True
    then show ?thesis using w(7) by blast
  next
    case False
    then show ?thesis using a(1,6) planned_member [OF a(2)] by blast
  qed
  moreover have "planned_selection db' rid = Inl Not_found"
    by (rule written_closed [OF a(2) planned w(2,6)]) simp
  ultimately show ?thesis using w(3,4,5) not_planned_refused by blast
qed

section \<open>From the preview to the application\<close>

lemma replay_each:
  "replay env ts rem = Some r \<Longrightarrow> distinct (map take_from ts) \<Longrightarrow> t \<in> set ts \<Longrightarrow>
   \<exists>left. map_of rem (take_from t) = Some left \<and> remaining_after env left (take_quantity t) \<noteq> None"
proof (induction ts arbitrary: rem)
  case (Cons u ts)
  then obtain left l where u: "map_of rem (take_from u) = Some left" "remaining_after env left (take_quantity u) = Some l"
    "replay env ts (AList.update (take_from u) l rem) = Some r"
    by (auto split: option.splits)
  show ?case
  proof (cases "t = u")
    case False
    then have t: "t \<in> set ts" using Cons.prems(3) by simp
    then have "take_from t \<noteq> take_from u" using Cons.prems(2) by (auto simp: image_iff)
    with Cons.IH [OF u(3) _ t] Cons.prems(2) show ?thesis by (simp add: AList.update_conv')
  qed (use u in simp)
qed simp

definition shown_lot :: "stock_line list \<Rightarrow> lot_take \<Rightarrow> (stock_line \<times> quantity) option" where
  "shown_lot lines t = map_option (\<lambda>l. (l, take_quantity t)) (find (\<lambda>l. line_id l = take_from t) lines)"

lemma map_filter_concat: "List.map_filter f (concat xss) = concat (map (List.map_filter f) xss)"
proof -
  have "List.map_filter f (xs @ ys) = List.map_filter f xs @ List.map_filter f ys" for xs ys
    by (induction xs) (simp_all split: option.split)
  then show ?thesis by (induction xss) simp_all
qed

lemma shown_takes:
  "\<forall>t \<in> set ts. 0 < take_quantity t \<longrightarrow> take_from t \<in> line_id ` set lines \<Longrightarrow>
   map (\<lambda>(l, q). (line_id l, q)) (filter (\<lambda>(l, q). 0 < q) (List.map_filter (shown_lot lines) ts)) =
   map (\<lambda>t. (take_from t, take_quantity t)) (filter (\<lambda>t. 0 < take_quantity t) ts)"
proof (induction ts)
  case (Cons t ts)
  show ?case
  proof (cases "find (\<lambda>l. line_id l = take_from t) lines")
    case None
    then have "take_from t \<notin> line_id ` set lines" by (auto simp: find_None_iff)
    with Cons None show ?thesis by (simp add: shown_lot_def)
  next
    case (Some l)
    with Cons find_holds [OF Some] show ?thesis by (simp add: shown_lot_def)
  qed
qed simp

lemma check_stock_total:
  "\<forall>(i, q) \<in> set xs. \<exists>l. find (\<lambda>s. line_id s = i) locked = Some l \<and> remaining_after env (held l) q \<noteq> None \<Longrightarrow>
   \<exists>ys. check_stock env locked xs = Inr ys"
proof (induction xs)
  case (Cons x xs)
  then obtain ys where ys: "check_stock env locked xs = Inr ys" by auto
  obtain i q where x: "x = (i, q)" by force
  with Cons.prems obtain l left where "find (\<lambda>s. line_id s = i) locked = Some l" "remaining_after env (held l) q = Some left"
    by auto
  with ys x show ?case by simp
qed simp

lemma find_line:
  assumes "distinct (map line_id lines)" "l \<in> set lines" "line_id l \<in> I"
  shows "find (\<lambda>s. line_id s = line_id l) (sort_key line_id (filter (\<lambda>l. line_id l \<in> I) lines)) = Some l"
proof -
  let ?locked = "sort_key line_id (filter (\<lambda>l. line_id l \<in> I) lines)"
  have "find (\<lambda>s. line_id s = line_id l) ?locked \<noteq> None" using assms(2,3) by (auto simp: find_None_iff)
  then obtain m where m: "find (\<lambda>s. line_id s = line_id l) ?locked = Some m" by blast
  from find_holds [OF m] have "m \<in> set lines" "line_id m = line_id l" by simp_all
  with unique_line [OF assms(1)] assms(2) m show ?thesis by blast
qed

text \<open>The request that takes the quantities of a preview as they are.\<close>

definition as_proposed :: "done_line list \<Rightarrow> done_request" where
  "as_proposed shown =
     \<lparr>removals = map (\<lambda>(l, q). \<lparr>rm_item = line_id l, rm_quantity = Some q, rm_exclude = False\<rparr>)
        (filter (\<lambda>(l, q). 0 < q) (concat (map dl_lots shown))),
      eaten_on = None, others = [], add_to_recipe = False, recipe_updates = []\<rparr>"

lemma asked_as_proposed:
  "List.map_filter taken (removals (as_proposed shown)) = map (\<lambda>(l, q). (line_id l, q)) (filter (\<lambda>(l, q). 0 < q) (concat (map dl_lots shown)))"
proof -
  have "List.map_filter taken (map (\<lambda>(l, q). \<lparr>rm_item = line_id l, rm_quantity = Some q, rm_exclude = False\<rparr>) (filter (\<lambda>(l, q). 0 < q) xs)) =
      map (\<lambda>(l, q). (line_id l, q)) (filter (\<lambda>(l, q). 0 < q) xs)" for xs :: "(stock_line \<times> quantity) list"
    by (induction xs) (auto simp: taken_def)
  then show ?thesis by (simp add: as_proposed_def)
qed

lemma map_rm_item: "map rm_item (removals (as_proposed shown)) = map fst (List.map_filter taken (removals (as_proposed shown)))"
  unfolding asked_as_proposed by (simp add: as_proposed_def o_def case_prod_beta)

lemma previewed:
  assumes "preview_done env db user rid = Some (Inr (shown, may))"
  obtains role s r ps where "require_role_in db user = Inr role" "planned_selection db rid = Inr (s, r)"
    "propose env (map (wanted env r s) (ingredients_of env db rid)) (stock db) = Some ps"
    "shown = map (done_line_of env db r s) (zip (ingredients_of env db rid) ps)"
proof -
  obtain role where role: "require_role_in db user = Inr role"
    using assms by (cases "require_role_in db user") (simp_all add: preview_done_def)
  moreover obtain s r where "planned_selection db rid = Inr (s, r)"
    using assms role by (cases "planned_selection db rid") (auto simp: preview_done_def)
  ultimately show thesis using assms that by (auto simp: preview_done_def Let_def)
qed

lemma shown_lots:
  assumes "length rows = length ps"
  shows "concat (map dl_lots (map (done_line_of env db r s) (zip rows ps))) = List.map_filter (shown_lot (stock db)) (concat (map lots ps))"
proof -
  have "map dl_lots (map (done_line_of env db r s) (zip rows ps)) = map (\<lambda>p. List.map_filter (shown_lot (stock db)) (lots p)) ps"
    using assms by (induction rows ps rule: list_induct2) (simp_all add: done_line_of_def shown_lot_def [abs_def])
  then show ?thesis by (simp add: map_filter_concat o_def)
qed

lemma taken_lot:
  assumes "proposals_ok env lines remaining ings ps" "t \<in> set (concat (map lots ps))" "0 < take_quantity t"
  shows "\<exists>l \<in> set lines. \<exists>ing \<in> set ings. line_id l = take_from t \<and> article_key env (line_name l) = article_key env (wanted_name ing)"
proof -
  obtain p where p: "p \<in> set ps" "t \<in> set (positive_takes p)" using assms(2,3) by (auto simp: positive_takes_def)
  then obtain ing rem where "ing \<in> set ings" "proposal_ok env lines rem ing p"
    using proposals_each [OF assms(1)] by blast
  with positive_in_lines [OF _ p(2)] show ?thesis unfolding same_name_def by blast
qed

lemma as_proposed_valid: "\<forall>r \<in> set (removals (as_proposed shown)). \<exists>q. rm_quantity r = Some q \<and> 0 \<le> q"
  by (auto simp: as_proposed_def)

lemma as_proposed_rest: "others (as_proposed shown) = []" "add_to_recipe (as_proposed shown) = False"
    "recipe_updates (as_proposed shown) = []"
  by (simp_all add: as_proposed_def)

text \<open>
  What the preview shows can be done: as long as no two of its lines take from one stock line
  and nothing changes in between, asking for exactly the proposed quantities is accepted. Each is
  positive, of a line that names an ingredient, and no more than the line holds.
\<close>

theorem previewed_is_accepted:
  assumes shown: "preview_done env db user rid = Some (Inr (shown, may))"
    and lines: "distinct (map line_id (stock db))"
    and once: "distinct (map rm_item (removals (as_proposed shown)))"
  shows "\<exists>db'. apply_done env new_id z db now user rid (as_proposed shown) = Inr db'"
proof -
  obtain role s r ps where p: "require_role_in db user = Inr role" "planned_selection db rid = Inr (s, r)"
    "propose env (map (wanted env r s) (ingredients_of env db rid)) (stock db) = Some ps"
    "shown = map (done_line_of env db r s) (zip (ingredients_of env db rid) ps)"
    by (rule previewed [OF shown])
  let ?rows = "ingredients_of env db rid" and ?held = "map (\<lambda>s. (line_id s, held s)) (stock db)"
  let ?ts = "filter (\<lambda>t. 0 < take_quantity t) (concat (map lots ps))"
  have ts: "?ts = concat (map positive_takes ps)" by (simp add: filter_concat positive_takes_def [abs_def] o_def)
  obtain left where ok: "proposals_ok env (stock db) ?held (map (wanted env r s) ?rows) ps"
    "replay env ?ts ?held = Some left"
    using propose_all_ok [of "stock db" ?held env "map (wanted env r s) ?rows"] p(3) lines
    unfolding ts by (auto simp: propose_def image_image)
  have len: "length ?rows = length ps" using proposals_each [OF ok(1)] by simp
  have known: "\<exists>l \<in> set (stock db). line_id l = take_from t \<and> names_an_ingredient env (line_name l) (map ing_name ?rows)"
    if "t \<in> set ?ts" for t
    using taken_lot [OF ok(1)] that by (fastforce simp: wanted_def names_an_ingredient_def list_ex_iff)
  have takes: "List.map_filter taken (removals (as_proposed shown)) = map (\<lambda>t. (take_from t, take_quantity t)) ?ts"
    unfolding asked_as_proposed p(4) shown_lots [OF len]
    by (rule shown_takes) (intro ballI impI, use known in \<open>simp add: image_iff, metis\<close>)
  let ?xs = "List.map_filter taken (removals (as_proposed shown))"
  let ?locked = "sort_key line_id (filter (\<lambda>l. line_id l \<in> set (map fst ?xs)) (stock db))"
  have dt: "distinct (map take_from ?ts)" using once unfolding map_rm_item takes by (simp add: o_def)
  have found: "\<exists>l. find (\<lambda>m. line_id m = i) ?locked = Some l \<and> names_an_ingredient env (line_name l) (map ing_name ?rows)
      \<and> remaining_after env (held l) q \<noteq> None" if "(i, q) \<in> set ?xs" for i q
  proof -
    from that obtain t where t: "t \<in> set ?ts" "i = take_from t" "q = take_quantity t" unfolding takes by auto
    obtain l where l: "l \<in> set (stock db)" "line_id l = i" "names_an_ingredient env (line_name l) (map ing_name ?rows)"
      using known [OF t(1)] t(2) by blast
    have "line_id l \<in> set (map fst ?xs)" using that l(2) by force
    from find_line [OF lines l(1) this] have "find (\<lambda>m. line_id m = i) ?locked = Some l" by (simp only: l(2))
    moreover have "map_of ?held i = Some (held l)"
      using lines l(1,2) by (intro map_of_is_SomeI) (auto simp: o_def)
    ultimately show ?thesis using replay_each [OF ok(2) dt t(1)] l(3) t(2,3) by auto
  qed
  obtain ys where ys: "check_stock env ?locked ?xs = Inr ys"
    using check_stock_total [of ?xs ?locked env] found by blast
  have named: "\<not> list_ex (\<lambda>(i, _). case find (\<lambda>l. line_id l = i) ?locked of
      Some l \<Rightarrow> \<not> names_an_ingredient env (line_name l) (map ing_name ?rows) | None \<Rightarrow> False) ?xs"
    using found by (fastforce simp: list_ex_iff)
  have "removals_to_apply (removals (as_proposed shown)) = Inr ?xs"
    unfolding removals_to_apply_def check_removals_ok [OF once as_proposed_valid] by simp
  then show ?thesis using p(1,2) ys named
    unfolding apply_done_def by (simp add: as_proposed_rest Let_def check_others_def check_recipe_updates_def del: find_line)
qed

section \<open>A recipe cooked\<close>

text \<open>A kitchen where two pounds of flour are wanted of the three there are.\<close>

definition exact :: kitchen_env where
  "exact = \<lparr>fl = (\<lambda>q. q), lower = (\<lambda>t. t), collate = (\<lambda>t. t)\<rparr>"

definition flour :: stock_line where
  "flour = \<lparr>line_id = 7, line_name = chars ''flour'', line_unit = chars ''lb'', held = 3, line_expires = None\<rparr>"

definition bread :: kitchen where
  "bread = \<lparr>roles = [(1, Owner)], recipes = [\<lparr>rec_id = 5, rec_servings = None, rec_created_by = 1, rec_updated_at = 0\<rparr>],
     recipe_ingredients = [\<lparr>ing_id = 6, ing_recipe = 5, ing_name = chars ''flour'', ing_quantity = Some 2,
       ing_unit = Some (chars ''lb''), ing_optional = False\<rparr>],
     selections = [\<lparr>sel_id = 4, sel_recipe = 5, sel_status = Planned, sel_servings = None, sel_updated_at = 0\<rparr>],
     stock = [flour], meals = [], grocery = []\<rparr>"

lemma twelve_digits_small:
  assumes "1 \<le> n" "n < 10"
  shows "twelve_digits (of_int n) = of_int n"
proof -
  have "exponent (Suc 399) (of_int n) = 0" using assms by (simp only: exponent.simps) simp
  then have e: "exponent 400 (of_int n) = 0" by (simp del: exponent.simps)
  have "round_half_even (of_int n * 10 ^ 11) = n * 10 ^ 11"
  proof -
    have "(of_int n * 10 ^ 11 :: rat) = of_int (n * 10 ^ 11)" by simp
    then show ?thesis by (simp only: round_half_even_def floor_of_int Let_def) simp
  qed
  then show ?thesis using assms(1) by (simp add: twelve_digits_def e power10_def Let_def)
qed

lemma exact_noise:
  "without_binary_noise exact 3 = 3" "without_binary_noise exact 2 = 2" "without_binary_noise exact 1 = 1"
  "without_binary_noise exact 0 = 0" "fl exact q = q"
  using twelve_digits_small [of 3] twelve_digits_small [of 2] twelve_digits_small [of 1]
  by (simp_all add: without_binary_noise_def exact_def, simp add: twelve_digits_def)

lemma bread_planned: "planned_selection bread 5 =
   Inr (\<lparr>sel_id = 4, sel_recipe = 5, sel_status = Planned, sel_servings = None, sel_updated_at = 0\<rparr>,
        \<lparr>rec_id = 5, rec_servings = None, rec_created_by = 1, rec_updated_at = 0\<rparr>)"
  by (simp add: planned_selection_def bread_def)

definition bread_shown :: "done_line list" where
  "bread_shown = [\<lparr>dl_ingredient = 6, dl_quantity = Some 2, dl_lots = [(flour, 2)], dl_proposed = 2, dl_warning = None\<rparr>]"

lemma key_exact: "article_key exact = trim_text" by (rule ext) (simp add: article_key_def exact_def)

lemma bread_proposal: "propose exact [\<lparr>wanted_name = chars ''flour'', wanted_quantity = Some 2, wanted_unit = Some (chars ''lb'')\<rparr>] [flour] =
    Some [\<lparr>lots = [\<lparr>take_from = 7, take_quantity = 2\<rparr>], proposed = 2, warning = None\<rparr>]"
proof -
  have u: "normalize_unit [108, 98] = [108, 98]" by code_simp
  show ?thesis
    by (simp add: propose_def propose_one_def u match_stock_def lots_in_order_def flour_def key_exact Let_def
      cap_def exact_noise remaining_after_def)
qed

lemma bread_preview: "preview_done exact bread 1 5 = Some (Inr (bread_shown, True))"
proof -
  have i: "ingredients_of exact bread 5 = recipe_ingredients bread" by (simp add: ingredients_of_def bread_def)
  show ?thesis unfolding preview_done_def bread_planned i
    using bread_proposal
    by (simp add: require_role_in_def bread_def wanted_def scale_quantity_def bread_shown_def done_line_of_def can_modify_recipe_def Let_def)
       (simp add: flour_def)
qed

theorem previewed_is_accepted_witness:
  "\<exists>db'. apply_done exact id demo_zone bread 0 1 5 (as_proposed bread_shown) = Inr db'"
  by (rule previewed_is_accepted [OF bread_preview]) (simp_all add: bread_def bread_shown_def as_proposed_def)

lemma bread_done: "apply_done exact id demo_zone bread 0 1 5 (as_proposed bread_shown) =
    Inr (write_done id demo_zone bread 0 1 5 (as_proposed bread_shown)
      \<lparr>sel_id = 4, sel_recipe = 5, sel_status = Planned, sel_servings = None, sel_updated_at = 0\<rparr> [(7, 1)] [])"
proof -
  have i: "ingredients_of exact bread 5 = recipe_ingredients bread" by (simp add: ingredients_of_def bread_def)
  show ?thesis unfolding apply_done_def bread_planned i
    by (simp add: bread_def bread_shown_def as_proposed_def removals_to_apply_def taken_def check_others_def
      check_recipe_updates_def require_role_in_def Let_def flour_def names_an_ingredient_def key_exact remaining_after_def exact_noise)
qed

lemma bread_asked: "asked (as_proposed bread_shown) = [(7, 2)]"
  by (simp add: asked_def as_proposed_def bread_shown_def taken_def flour_def)

theorem cooked_once_witness:
  "\<exists>db'. apply_done exact id demo_zone bread 0 1 5 (as_proposed bread_shown) = Inr db'
    \<and> stock db' = [flour\<lparr>held := 1\<rparr>]
    \<and> (\<forall>now remove. \<exists>e. apply_abandoned db' now 1 5 remove = Inl e)"
proof -
  have "distinct (map line_id (stock bread))"
    "length (filter (\<lambda>s. sel_recipe s = 5 \<and> sel_status s = Planned) (selections bread)) \<le> 1"
    by (simp_all add: bread_def)
  from cooked_once [OF bread_done this] bread_done show ?thesis
    by (simp add: bread_asked exact_noise) (simp add: bread_def flour_def exact_noise)
qed

end
