(* ===== verification/Family_Groups.thy ===== *)
theory Family_Groups
  imports Account_Purge Strings
begin

text \<open>
  Groups and their members (\<open>apps/api/src/groups/mod.rs\<close>, \<open>shared/src/validation/groups.rs\<close>): one
  function per handler over the rows it reads and writes. Where a handler reads rows it does not
  lock and writes later, what other transactions commit in between is the argument \<open>gap\<close>.
\<close>

section \<open>Settings, links, roles\<close>

datatype accent = Sarcelle | Ocean | Prune | Foret | Terracotta | Framboise | Ardoise | Miel

definition all_accents :: "accent list" where
  "all_accents = [Sarcelle, Ocean, Prune, Foret, Terracotta, Framboise, Ardoise, Miel]"

fun accent_str :: "accent \<Rightarrow> string" where
  "accent_str Sarcelle = ''sarcelle''"
| "accent_str Ocean = ''ocean''"
| "accent_str Prune = ''prune''"
| "accent_str Foret = ''foret''"
| "accent_str Terracotta = ''terracotta''"
| "accent_str Framboise = ''framboise''"
| "accent_str Ardoise = ''ardoise''"
| "accent_str Miel = ''miel''"

definition parse_accent :: "string \<Rightarrow> accent option" where
  "parse_accent value = find (\<lambda>a. accent_str a = value) all_accents"

datatype school_zone = Zone_A | Zone_B | Zone_C

fun zone_str :: "school_zone \<Rightarrow> string" where
  "zone_str Zone_A = ''A''"
| "zone_str Zone_B = ''B''"
| "zone_str Zone_C = ''C''"

definition parse_zone :: "string \<Rightarrow> school_zone option" where
  "parse_zone value = find (\<lambda>z. zone_str z = value) [Zone_A, Zone_B, Zone_C]"

datatype json_value = JNull | JBool bool | JString string | JOther

datatype group_error =
    Too_many_groups | Name_required | Invalid_accent | Invalid_school_zone | Invalid_alsace_moselle
  | Cannot_transfer_to_self | New_owner_id_required | Last_member_must_delete_group | Invalid_role
  | Invalid_email | Forbidden | Not_found | Gone | Storage_failed | Constraint_violated

fun parse_school_zone :: "json_value \<Rightarrow> group_error + school_zone option" where
  "parse_school_zone JNull = Inr None"
| "parse_school_zone (JString s) = (case parse_zone s of Some z \<Rightarrow> Inr (Some z) | None \<Rightarrow> Inl Invalid_school_zone)"
| "parse_school_zone _ = Inl Invalid_school_zone"

fun parse_alsace_moselle :: "json_value \<Rightarrow> group_error + bool" where
  "parse_alsace_moselle (JBool b) = Inr b"
| "parse_alsace_moselle _ = Inl Invalid_alsace_moselle"

definition BEARER_TOKEN_LEN :: nat where
  "BEARER_TOKEN_LEN = 43"

definition is_bearer_token :: "utext \<Rightarrow> bool" where
  "is_bearer_token token \<longleftrightarrow> length token = BEARER_TOKEN_LEN \<and>
     list_all (\<lambda>b. (48 \<le> b \<and> b \<le> 57) \<or> (65 \<le> b \<and> b \<le> 90) \<or> (97 \<le> b \<and> b \<le> 122) \<or> b = 45 \<or> b = 95) token"

fun after_invitations :: "utext list \<Rightarrow> utext option" where
  "after_invitations [] = None"
| "after_invitations (s # ss) =
     (if s = chars ''invitations'' then (case ss of [] \<Rightarrow> None | t # _ \<Rightarrow> Some t) else after_invitations ss)"

definition parse_invitation_token :: "utext \<Rightarrow> utext option" where
  "parse_invitation_token input =
     (let trimmed = trim_text input
      in case (if is_bearer_token trimmed then Some trimmed else after_invitations (split_on 47 trimmed)) of
           None \<Rightarrow> None
         | Some candidate \<Rightarrow> if is_bearer_token candidate then Some candidate else None)"

definition accept_url :: "utext \<Rightarrow> utext \<Rightarrow> utext" where
  "accept_url base token = base @ chars ''/groups/invitations/'' @ token @ chars ''/accept''"

definition normalize_email :: "utext \<Rightarrow> utext" where
  "normalize_email email = map (\<lambda>c. if 65 \<le> c \<and> c \<le> 90 then c + 32 else c) (trim_text email)"

definition validate_email_ascii :: "utext \<Rightarrow> group_error + unit" where
  "validate_email_ascii email = (if list_all (\<lambda>c. c < 128) email then Inr () else Inl Invalid_email)"

definition can_manage_group :: "role \<Rightarrow> bool" where
  "can_manage_group r \<longleftrightarrow> r = Owner \<or> r = Admin"

fun actor_can_act_on :: "role \<Rightarrow> role \<Rightarrow> bool" where
  "actor_can_act_on actor_role Owner = False"
| "actor_can_act_on Owner target = True"
| "actor_can_act_on Admin target = (target \<noteq> Admin)"
| "actor_can_act_on Member target = False"

section \<open>Rows\<close>

record group_settings =
  g_name :: utext
  g_accent :: accent
  g_zone :: "school_zone option"
  g_alsace :: bool
  g_created_at :: instant

record invitation_row =
  inv_id :: uuid
  inv_group :: uuid
  inv_email :: "utext option"
  inv_by :: uuid
  inv_expires_at :: instant
  inv_hash :: "nat list"

text \<open>The rows of every group: those the purge of an account sees, the settings of a group, the invitations.\<close>

record house =
  base :: database
  settings :: "uuid \<Rightarrow> group_settings"
  invitations :: "invitation_row list"

definition MAX_GROUPS_PER_USER :: nat where
  "MAX_GROUPS_PER_USER = 10"

definition INVITATION_TTL_DAYS :: int where
  "INVITATION_TTL_DAYS = 7"

definition on_members :: "(member_row list \<Rightarrow> member_row list) \<Rightarrow> house \<Rightarrow> house" where
  "on_members f h = h\<lparr>base := base h\<lparr>members := f (members (base h))\<rparr>\<rparr>"

definition audit :: "uuid \<Rightarrow> string \<Rightarrow> string \<Rightarrow> string \<Rightarrow> (string \<times> string) list \<Rightarrow> house \<Rightarrow> house" where
  "audit who act tt target meta h = h\<lparr>base := record_audit (base h) (Some who) act tt target meta\<rparr>"

definition member_in :: "house \<Rightarrow> uuid \<Rightarrow> uuid \<Rightarrow> member_row option" where
  "member_in h g u = find (\<lambda>m. m_group m = g \<and> m_user m = u) (members (base h))"

definition role_in :: "house \<Rightarrow> uuid \<Rightarrow> uuid \<Rightarrow> role option" where
  "role_in h g u = map_option m_role (member_in h g u)"

definition require_member_role :: "house \<Rightarrow> uuid \<Rightarrow> uuid \<Rightarrow> group_error + role" where
  "require_member_role h g u = (case role_in h g u of Some r \<Rightarrow> Inr r | None \<Rightarrow> Inl Forbidden)"

definition set_role :: "uuid \<Rightarrow> uuid \<Rightarrow> role \<Rightarrow> house \<Rightarrow> house" where
  "set_role g u r = on_members (map (\<lambda>m. if m_group m = g \<and> m_user m = u then m\<lparr>m_role := r\<rparr> else m))"

definition drop_member :: "uuid \<Rightarrow> uuid \<Rightarrow> house \<Rightarrow> house" where
  "drop_member g u = on_members (filter (\<lambda>m. \<not> (m_group m = g \<and> m_user m = u)))"

definition new_member :: "instant \<Rightarrow> uuid \<Rightarrow> uuid \<Rightarrow> role \<Rightarrow> member_row" where
  "new_member now g u r =
     \<lparr>m_group = g, m_user = u, m_role = r, m_joined_at = now, ownership_inherited_at = None,
      ownership_inherited_reason = None, ownership_notice_seen_at = None, ownership_email_sent_at = None\<rparr>"

section \<open>Handlers\<close>

type_synonym 'r answer = "(group_error + 'r) \<times> house"

definition create_group :: "house \<Rightarrow> instant \<Rightarrow> uuid \<Rightarrow> uuid \<Rightarrow> utext \<Rightarrow> group_settings answer" where
  "create_group h now g user name =
     (if length (filter (\<lambda>m. m_user m = user) (members (base h))) \<ge> MAX_GROUPS_PER_USER then (Inl Too_many_groups, h)
      else if g \<in> set (groups (base h)) then (Inl Constraint_violated, h)
      else let row = \<lparr>g_name = name, g_accent = Sarcelle, g_zone = None, g_alsace = False, g_created_at = now\<rparr>
           in (Inr row, on_members (\<lambda>ms. ms @ [new_member now g user Owner])
                (h\<lparr>base := base h\<lparr>groups := groups (base h) @ [g]\<rparr>, settings := (settings h)(g := row)\<rparr>)))"

definition notice_pending :: "member_row \<Rightarrow> (string \<times> instant) option" where
  "notice_pending m =
     (case (ownership_inherited_at m, ownership_inherited_reason m) of
        (Some at, Some reason) \<Rightarrow>
          if m_role m = Owner \<and> ownership_notice_seen_at m = None then Some (reason, at) else None
      | _ \<Rightarrow> None)"

definition list_groups :: "house \<Rightarrow> uuid \<Rightarrow> (uuid \<times> utext \<times> role \<times> (string \<times> instant) option) list" where
  "list_groups h user =
     map (\<lambda>m. (m_group m, g_name (settings h (m_group m)), m_role m, notice_pending m))
       (sort_key (\<lambda>m. g_created_at (settings h (m_group m)))
         (filter (\<lambda>m. m_user m = user \<and> m_group m \<in> set (groups (base h))) (members (base h))))"

definition get_group :: "house \<Rightarrow> uuid \<Rightarrow> uuid \<Rightarrow> group_error + group_settings \<times> (uuid \<times> role \<times> string \<times> string) list" where
  "get_group h user g =
     (if g \<notin> set (groups (base h)) \<or> role_in h g user = None then Inl Not_found
      else Inr (settings h g,
        List.map_filter (\<lambda>m. map_option (\<lambda>u. (m_user m, m_role m, display_name u, u_email u)) (find_user (base h) (m_user m)))
          (rows_of (base h) g)))"

definition get_member :: "house \<Rightarrow> uuid \<Rightarrow> uuid \<Rightarrow> uuid \<Rightarrow> group_error + uuid \<times> string \<times> role \<times> instant" where
  "get_member h user g target =
     (case (member_in h g user, member_in h g target, find_user (base h) target) of
        (Some _, Some m, Some u) \<Rightarrow> Inr (target, display_name u, m_role m, m_joined_at m)
      | _ \<Rightarrow> Inl Not_found)"

definition acknowledge_ownership_notice :: "house \<Rightarrow> instant \<Rightarrow> uuid \<Rightarrow> uuid \<Rightarrow> unit answer" where
  "acknowledge_ownership_notice h now user g =
     (case require_member_role h g user of
        Inl e \<Rightarrow> (Inl e, h)
      | Inr _ \<Rightarrow> (Inr (), on_members (map (\<lambda>m.
          if m_group m = g \<and> m_user m = user \<and> ownership_inherited_at m \<noteq> None \<and> ownership_notice_seen_at m = None
          then m\<lparr>ownership_notice_seen_at := Some now\<rparr> else m)) h))"

record rename_request =
  new_name :: "utext option"
  new_accent :: "string option"
  new_zone :: "json_value option"
  new_alsace :: "json_value option"

text \<open>The settings a body asks for: each is kept when it is absent.\<close>

definition asked_settings ::
    "rename_request \<Rightarrow> group_error + (utext option \<times> accent option \<times> school_zone option option \<times> bool option)" where
  "asked_settings body =
     (let name = map_option trim_text (new_name body);
          no_setting = name = None \<and> new_accent body = None \<and> new_zone body = None \<and> new_alsace body = None
      in if name = Some [] \<or> no_setting then Inl Name_required
         else case (case new_accent body of None \<Rightarrow> Inr None
                      | Some v \<Rightarrow> (case parse_accent v of Some a \<Rightarrow> Inr (Some a) | None \<Rightarrow> Inl Invalid_accent)) of
           Inl e \<Rightarrow> Inl e
         | Inr accent \<Rightarrow>
           (case (case new_zone body of None \<Rightarrow> Inr None | Some v \<Rightarrow> map_sum id Some (parse_school_zone v)) of
             Inl e \<Rightarrow> Inl e
           | Inr zone \<Rightarrow>
             (case (case new_alsace body of None \<Rightarrow> Inr None | Some v \<Rightarrow> map_sum id Some (parse_alsace_moselle v)) of
               Inl e \<Rightarrow> Inl e
             | Inr alsace \<Rightarrow> Inr (name, accent, zone, alsace))))"

definition coalesce :: "'x option \<Rightarrow> 'x \<Rightarrow> 'x" where
  "coalesce v kept = (case v of Some x \<Rightarrow> x | None \<Rightarrow> kept)"

definition rename_group :: "house \<Rightarrow> uuid \<Rightarrow> uuid \<Rightarrow> rename_request \<Rightarrow> group_settings answer" where
  "rename_group h user g body =
     (case asked_settings body of
        Inl e \<Rightarrow> (Inl e, h)
      | Inr (name, accent, zone, alsace) \<Rightarrow>
        (case require_member_role h g user of
           Inl e \<Rightarrow> (Inl e, h)
         | Inr r \<Rightarrow>
             if r \<noteq> Owner \<and> r \<noteq> Admin then (Inl Forbidden, h)
             else let old = settings h g;
                      row = old\<lparr>g_name := coalesce name (g_name old), g_accent := coalesce accent (g_accent old),
                                g_zone := coalesce zone (g_zone old), g_alsace := coalesce alsace (g_alsace old)\<rparr>
                  in (Inr row, h\<lparr>settings := (settings h)(g := row)\<rparr>)))"

text \<open>
  The promotion of a transfer: the index \<open>one_owner_per_group\<close> refuses a second owner. What other
  transactions commit between its two updates comes under the demotion, which is not committed yet.
\<close>

definition perform_ownership_transfer ::
    "(uuid \<Rightarrow> string) \<Rightarrow> (nat \<Rightarrow> house \<Rightarrow> house) \<Rightarrow> house \<Rightarrow> uuid \<Rightarrow> uuid \<Rightarrow> uuid \<Rightarrow> unit answer" where
  "perform_ownership_transfer show_id gap h g old_owner new_owner =
     (let h = gap 3 h; h1 = set_role g old_owner Admin h
      in if role_in h1 g new_owner \<noteq> None \<and> list_ex (\<lambda>m. m_role m = Owner \<and> m_user m \<noteq> new_owner) (rows_of (base h1) g)
         then (Inl Constraint_violated, h)
         else (Inr (), audit old_owner ''ownership_transferred'' ''group'' (show_id g) [(''new_owner_id'', show_id new_owner)]
                (set_role g new_owner Owner h1)))"

definition transfer_ownership ::
    "(uuid \<Rightarrow> string) \<Rightarrow> (nat \<Rightarrow> house \<Rightarrow> house) \<Rightarrow> house \<Rightarrow> uuid \<Rightarrow> uuid \<Rightarrow> uuid \<Rightarrow> unit answer" where
  "transfer_ownership show_id gap h user g new_owner =
     (case require_member_role h g user of
        Inl e \<Rightarrow> (Inl e, h)
      | Inr r \<Rightarrow>
          if r \<noteq> Owner then (Inl Forbidden, h)
          else if new_owner = user then (Inl Cannot_transfer_to_self, h)
          else let h = gap 1 h
               in if member_in h g new_owner = None then (Inl Not_found, h)
                  else perform_ownership_transfer show_id gap (gap 2 h) g user new_owner)"

definition delete_group ::
    "(uuid \<Rightarrow> string) \<Rightarrow> (string list \<Rightarrow> bool) \<Rightarrow> house \<Rightarrow> uuid \<Rightarrow> uuid \<Rightarrow> string list answer" where
  "delete_group show_id storage_deletes h user g =
     (case require_member_role h g user of
        Inl e \<Rightarrow> (Inl e, h)
      | Inr r \<Rightarrow>
          if r \<noteq> Owner then (Inl Forbidden, h)
          else let inside = map fst (filter (\<lambda>(e, eg). eg = g) (events (base h)));
                   keys = map snd (filter (\<lambda>(e, k). e \<in> set inside) (attachments (base h)))
               in if \<not> storage_deletes keys then (Inl Storage_failed, h)
                  else (Inr keys, audit user ''group_deleted'' ''group'' (show_id g) []
                    (h\<lparr>base := cascade_group (base h) g,
                       invitations := filter (\<lambda>i. inv_group i \<noteq> g) (invitations h)\<rparr>)))"

text \<open>
  An invitation, its token made by \<open>new_token\<close> and its hash. An account that holds the address is
  told, unless it is the inviter's own. The email itself leaves no row.
\<close>

definition create_invitation ::
    "house \<Rightarrow> instant \<Rightarrow> uuid \<Rightarrow> utext \<times> nat list \<Rightarrow> utext \<Rightarrow> uuid \<Rightarrow> uuid \<Rightarrow> utext option \<Rightarrow> (uuid \<times> utext) answer" where
  "create_invitation h now new_id token url user g email =
     (let email = map_option normalize_email email
      in case (case email of Some e \<Rightarrow> validate_email_ascii e | None \<Rightarrow> Inr ()) of
           Inl e \<Rightarrow> (Inl e, h)
         | Inr _ \<Rightarrow>
           (case require_member_role h g user of
              Inl e \<Rightarrow> (Inl e, h)
            | Inr r \<Rightarrow>
                if r \<noteq> Owner \<and> r \<noteq> Admin then (Inl Forbidden, h)
                else if list_ex (\<lambda>i. inv_hash i = snd token \<or> inv_id i = new_id) (invitations h) then (Inl Constraint_violated, h)
                else let h = h\<lparr>invitations := invitations h @
                           [\<lparr>inv_id = new_id, inv_group = g, inv_email = email, inv_by = user,
                             inv_expires_at = now + days_dur INVITATION_TTL_DAYS, inv_hash = snd token\<rparr>]\<rparr>;
                         invitee = (case email of None \<Rightarrow> None
                           | Some e \<Rightarrow> find (\<lambda>u. u_email u = map char_of e \<and> u_id u \<noteq> user \<and>
                               u_deactivated_at u = None \<and> u_deleted_at u = None) (users (base h)));
                         h = (case invitee of None \<Rightarrow> h
                           | Some u \<Rightarrow> h\<lparr>base := base h\<lparr>notifications := notifications (base h) @ [(u_id u, Some user, g, new_id)]\<rparr>\<rparr>)
                     in (Inr (new_id, accept_url url (fst token)), h)))"

definition accept_invitation ::
    "(utext \<Rightarrow> nat list option) \<Rightarrow> (nat \<Rightarrow> house \<Rightarrow> house) \<Rightarrow> house \<Rightarrow> instant \<Rightarrow> uuid \<Rightarrow> utext \<Rightarrow> uuid answer" where
  "accept_invitation token_hash gap h now user token =
     (case token_hash token of
        None \<Rightarrow> (Inl Not_found, h)
      | Some hash \<Rightarrow>
          (case find (\<lambda>i. inv_hash i = hash) (invitations h) of
             None \<Rightarrow> (Inl Not_found, h)
           | Some looked_up \<Rightarrow>
               let g = inv_group looked_up; h = gap 1 h
               in (case find (\<lambda>i. inv_hash i = hash) (invitations h) of
                    None \<Rightarrow> (Inl Not_found, h)
                  | Some i \<Rightarrow>
                      if inv_expires_at i < now then (Inl Gone, h)
                      else if g \<notin> set (groups (base h)) then (Inl Constraint_violated, h)
                      else let h = h\<lparr>invitations := filter (\<lambda>i. inv_hash i \<noteq> hash) (invitations h)\<rparr>
                           in (Inr g, if role_in h g user \<noteq> None then h else on_members (\<lambda>ms. ms @ [new_member now g user Member]) h))))"

definition change_role ::
    "(uuid \<Rightarrow> string) \<Rightarrow> (nat \<Rightarrow> house \<Rightarrow> house) \<Rightarrow> house \<Rightarrow> uuid \<Rightarrow> uuid \<Rightarrow> uuid \<Rightarrow> string \<Rightarrow> unit answer" where
  "change_role show_id gap h user g target new_role =
     (if new_role \<noteq> ''admin'' \<and> new_role \<noteq> ''standard'' then (Inl Invalid_role, h)
      else case require_member_role h g user of
        Inl e \<Rightarrow> (Inl e, h)
      | Inr actor_role \<Rightarrow>
        let h = gap 1 h
        in (case require_member_role h g target of
             Inl e \<Rightarrow> (Inl e, h)
           | Inr target_role \<Rightarrow>
               if \<not> actor_can_act_on actor_role target_role then (Inl Forbidden, h)
               else (Inr (), audit user ''role_change'' ''group_member'' (show_id target)
                       [(''group_id'', show_id g), (''new_role'', new_role)]
                      (set_role g target (if new_role = ''admin'' then Admin else Member) (gap 2 h)))))"

definition remove_member :: "(nat \<Rightarrow> house \<Rightarrow> house) \<Rightarrow> house \<Rightarrow> uuid \<Rightarrow> uuid \<Rightarrow> uuid \<Rightarrow> unit answer" where
  "remove_member gap h user g target =
     (case require_member_role h g user of
        Inl e \<Rightarrow> (Inl e, h)
      | Inr actor_role \<Rightarrow>
        let h = gap 1 h
        in (case require_member_role h g target of
             Inl e \<Rightarrow> (Inl e, h)
           | Inr target_role \<Rightarrow>
               if \<not> actor_can_act_on actor_role target_role then (Inl Forbidden, h)
               else (Inr (), drop_member g target (gap 2 h))))"

definition leave_group ::
    "(uuid \<Rightarrow> string) \<Rightarrow> (nat \<Rightarrow> house \<Rightarrow> house) \<Rightarrow> house \<Rightarrow> uuid \<Rightarrow> uuid \<Rightarrow> uuid option \<Rightarrow> unit answer" where
  "leave_group show_id gap h user g new_owner =
     (case require_member_role h g user of
        Inl e \<Rightarrow> (Inl e, h)
      | Inr r \<Rightarrow>
        let h = gap 1 h
        in if length (rows_of (base h) g) \<le> 1 then (Inl Last_member_must_delete_group, h)
           else if r \<noteq> Owner then (Inr (), drop_member g user (gap 2 h))
           else (case new_owner of
                  None \<Rightarrow> (Inl New_owner_id_required, h)
                | Some heir \<Rightarrow>
                    if heir = user then (Inl New_owner_id_required, h)
                    else let h = gap 2 h
                         in (case require_member_role h g heir of
                              Inl e \<Rightarrow> (Inl e, h)
                            | Inr _ \<Rightarrow>
                                (case perform_ownership_transfer show_id gap h g user heir of
                                   (Inl e, h) \<Rightarrow> (Inl e, h)
                                 | (Inr _, h) \<Rightarrow> (Inr (), drop_member g user h)))))"

section \<open>Requests, one after another\<close>

datatype group_request =
    Create_group utext
  | Acknowledge
  | Rename rename_request
  | Transfer uuid
  | Delete_group
  | Invite "utext option"
  | Accept utext
  | Change_role uuid string
  | Remove_member uuid
  | Leave "uuid option"

text \<open>What a request brings from outside: clock, fresh identifiers and token, hash, storage.\<close>

record outside =
  o_show :: "uuid \<Rightarrow> string"
  o_now :: instant
  o_id :: uuid
  o_token :: "utext \<times> nat list"
  o_url :: utext
  o_hash :: "utext \<Rightarrow> nat list option"
  o_storage :: "string list \<Rightarrow> bool"

definition ignore :: "'r answer \<Rightarrow> unit answer" where
  "ignore r = (map_sum id (\<lambda>_. ()) (fst r), snd r)"

text \<open>A request of \<open>user\<close> about group \<open>g\<close>; \<open>Create_group\<close> makes the group \<open>o_id\<close>, \<open>Accept\<close> reads the group off the invitation.\<close>

fun serve :: "outside \<Rightarrow> (nat \<Rightarrow> house \<Rightarrow> house) \<Rightarrow> house \<Rightarrow> uuid \<Rightarrow> uuid \<Rightarrow> group_request \<Rightarrow> unit answer" where
  "serve w gap h user g (Create_group name) = ignore (create_group h (o_now w) (o_id w) user name)"
| "serve w gap h user g Acknowledge = acknowledge_ownership_notice h (o_now w) user g"
| "serve w gap h user g (Rename body) = ignore (rename_group h user g body)"
| "serve w gap h user g (Transfer u) = transfer_ownership (o_show w) gap h user g u"
| "serve w gap h user g Delete_group = ignore (delete_group (o_show w) (o_storage w) h user g)"
| "serve w gap h user g (Invite email) = ignore (create_invitation h (o_now w) (o_id w) (o_token w) (o_url w) user g email)"
| "serve w gap h user g (Accept token) = ignore (accept_invitation (o_hash w) gap h (o_now w) user token)"
| "serve w gap h user g (Change_role u r) = change_role (o_show w) gap h user g u r"
| "serve w gap h user g (Remove_member u) = remove_member gap h user g u"
| "serve w gap h user g (Leave u) = leave_group (o_show w) gap h user g u"

definition alone :: "nat \<Rightarrow> house \<Rightarrow> house" where
  "alone n h = h"

fun serve_all :: "house \<Rightarrow> (outside \<times> uuid \<times> uuid \<times> group_request) list \<Rightarrow> house" where
  "serve_all h [] = h"
| "serve_all h ((w, user, g, req) # rest) = serve_all (snd (serve w alone h user g req)) rest"

section \<open>Roles after a request\<close>

named_theorems role_simps

lemma role_in_on_members: "role_in (on_members f h) g u = map_option m_role (find (\<lambda>m. m_group m = g \<and> m_user m = u) (f (members (base h))))"
  by (simp add: role_in_def member_in_def on_members_def)

lemma role_in_set_role [role_simps]:
  "role_in (set_role g u r h) g' u' = (if g' = g \<and> u' = u \<and> role_in h g u \<noteq> None then Some r else role_in h g' u')"
proof -
  have "map_option m_role (find (\<lambda>m. m_group m = g' \<and> m_user m = u')
      (map (\<lambda>m. if m_group m = g \<and> m_user m = u then m\<lparr>m_role := r\<rparr> else m) ms)) =
    (if g' = g \<and> u' = u \<and> map_option m_role (find (\<lambda>m. m_group m = g \<and> m_user m = u) ms) \<noteq> None then Some r
     else map_option m_role (find (\<lambda>m. m_group m = g' \<and> m_user m = u') ms))" for ms
    by (induction ms) auto
  then show ?thesis unfolding set_role_def role_in_on_members by (simp only: role_in_def member_in_def)
qed

lemma role_in_drop [role_simps]: "role_in (drop_member g u h) g' u' = (if g' = g \<and> u' = u then None else role_in h g' u')"
proof -
  have eq: "find (\<lambda>m. m_group m = g' \<and> m_user m = u') (filter (\<lambda>m. \<not> (m_group m = g \<and> m_user m = u)) ms) =
    (if g' = g \<and> u' = u then None else find (\<lambda>m. m_group m = g' \<and> m_user m = u') ms)" for ms
    by (induction ms) auto
  show ?thesis unfolding drop_member_def role_in_on_members eq by (simp add: role_in_def member_in_def)
qed

lemma find_append: "find P (xs @ ys) = (case find P xs of Some x \<Rightarrow> Some x | None \<Rightarrow> find P ys)"
  by (induction xs) auto

lemma role_in_add [role_simps]:
  "role_in (on_members (\<lambda>ms. ms @ [new_member now g u r]) h) g' u' =
     (if role_in h g' u' = None \<and> g' = g \<and> u' = u then Some r else role_in h g' u')"
  unfolding role_in_on_members find_append new_member_def by (auto simp: role_in_def member_in_def split: option.split)

lemma role_in_base [role_simps]:
  "role_in (h\<lparr>settings := s\<rparr>) g u = role_in h g u" "role_in (h\<lparr>invitations := is\<rparr>) g u = role_in h g u"
  "role_in (h\<lparr>base := base h\<lparr>notifications := ns\<rparr>\<rparr>) g u = role_in h g u"
  "role_in (h\<lparr>base := base h\<lparr>groups := gs\<rparr>\<rparr>) g u = role_in h g u"
  "role_in (audit who act tt target meta h) g u = role_in h g u"
  by (simp_all add: role_in_def member_in_def audit_def)

lemma role_in_notifications [role_simps]:
  "role_in (h\<lparr>base := b\<lparr>notifications := ns\<rparr>\<rparr>) g u = role_in (h\<lparr>base := b\<rparr>) g u"
  "role_in (h\<lparr>base := base k\<rparr>) g u = role_in k g u"
  by (simp_all add: role_in_def member_in_def)

lemma role_in_deleted:
  "role_in (h\<lparr>base := cascade_group (base h) g\<rparr>) g' u = (if g' = g then None else role_in h g' u)"
proof -
  have eq: "find (\<lambda>m. m_group m = g' \<and> m_user m = u) (filter (\<lambda>m. m_group m \<noteq> g) ms) =
    (if g' = g then None else find (\<lambda>m. m_group m = g' \<and> m_user m = u) ms)" for ms
    by (induction ms) auto
  show ?thesis by (simp add: role_in_def member_in_def cascade_group_def Let_def eq)
qed

declare role_in_deleted [role_simps]

lemma role_in_notice [role_simps]:
  "role_in (on_members (map (\<lambda>m. if P m then m\<lparr>ownership_notice_seen_at := v\<rparr> else m)) h) g u = role_in h g u"
proof -
  have "map_option m_role (find (\<lambda>m. m_group m = g \<and> m_user m = u) (map (\<lambda>m. if P m then m\<lparr>ownership_notice_seen_at := v\<rparr> else m) ms)) =
    map_option m_role (find (\<lambda>m. m_group m = g \<and> m_user m = u) ms)" for ms
    by (induction ms) auto
  then show ?thesis unfolding role_in_on_members by (simp only: role_in_def member_in_def)
qed

lemma require_Inr: "require_member_role h g u = Inr r \<longleftrightarrow> role_in h g u = Some r"
  by (simp add: require_member_role_def split: option.split)

lemma require_Inl: "require_member_role h g u = Inl e \<longleftrightarrow> role_in h g u = None \<and> e = Forbidden"
  by (auto simp: require_member_role_def split: option.split)

definition keys_of :: "house \<Rightarrow> (uuid \<times> uuid) list" where
  "keys_of h = map (\<lambda>m. (m_group m, m_user m)) (members (base h))"

lemma find_none_key: "find (\<lambda>m. m_group m = g \<and> m_user m = u) ms = None \<longleftrightarrow> (g, u) \<notin> (\<lambda>m. (m_group m, m_user m)) ` set ms"
  by (auto simp: find_None_iff image_iff)

lemma role_in_keys: "role_in h g u \<noteq> None \<longleftrightarrow> (g, u) \<in> set (keys_of h)"
  using find_none_key [of g u "members (base h)"] by (auto simp: role_in_def member_in_def keys_of_def)

lemma find_key_unique:
  "distinct (map (\<lambda>m. (m_group m, m_user m)) ms) \<Longrightarrow> m \<in> set ms \<Longrightarrow>
   find (\<lambda>x. m_group x = m_group m \<and> m_user x = m_user m) ms = Some m"
proof (induction ms)
  case (Cons a ms)
  then show ?case by (cases "a = m") (auto simp: image_iff)
qed simp

lemma role_of_row: "distinct (keys_of h) \<Longrightarrow> m \<in> set (members (base h)) \<Longrightarrow> role_in h (m_group m) (m_user m) = Some (m_role m)"
  using find_key_unique [of "members (base h)" m] by (simp add: keys_of_def role_in_def member_in_def)

lemma row_of_role: "role_in h g u = Some r \<Longrightarrow> \<exists>m \<in> set (members (base h)). m_group m = g \<and> m_user m = u \<and> m_role m = r"
  by (auto simp: role_in_def member_in_def find_Some_iff)

lemma another_owner:
  assumes "distinct (keys_of h)"
  shows "list_ex (\<lambda>m. m_role m = Owner \<and> m_user m \<noteq> v) (rows_of (base h) g) \<longleftrightarrow> (\<exists>u. u \<noteq> v \<and> role_in h g u = Some Owner)"
proof
  assume "list_ex (\<lambda>m. m_role m = Owner \<and> m_user m \<noteq> v) (rows_of (base h) g)"
  then obtain m where m: "m \<in> set (members (base h))" "m_group m = g" "m_role m = Owner" "m_user m \<noteq> v"
    by (auto simp: list_ex_iff rows_of_def)
  from role_of_row [OF assms m(1)] m show "\<exists>u. u \<noteq> v \<and> role_in h g u = Some Owner" by auto
next
  assume "\<exists>u. u \<noteq> v \<and> role_in h g u = Some Owner"
  then obtain u where u: "u \<noteq> v" "role_in h g u = Some Owner" by blast
  from row_of_role [OF u(2)] u(1) show "list_ex (\<lambda>m. m_role m = Owner \<and> m_user m \<noteq> v) (rows_of (base h) g)"
    by (auto simp: list_ex_iff rows_of_def)
qed

section \<open>Keys after a request\<close>

lemma keys_of_simps [role_simps]:
  "keys_of (set_role g u r h) = keys_of h"
  "keys_of (drop_member g u h) = filter (\<lambda>k. k \<noteq> (g, u)) (keys_of h)"
  "keys_of (on_members (\<lambda>ms. ms @ [new_member now g u r]) h) = keys_of h @ [(g, u)]"
  "keys_of (h\<lparr>settings := s\<rparr>) = keys_of h" "keys_of (h\<lparr>invitations := is\<rparr>) = keys_of h"
  "keys_of (h\<lparr>base := base h\<lparr>notifications := ns\<rparr>\<rparr>) = keys_of h"
  "keys_of (h\<lparr>base := base h\<lparr>groups := gs\<rparr>\<rparr>) = keys_of h"
  "keys_of (audit who act tt target meta h) = keys_of h"
  "keys_of (on_members (map (\<lambda>m. if P m then m\<lparr>ownership_notice_seen_at := v\<rparr> else m)) h) = keys_of h"
  "keys_of (h\<lparr>base := cascade_group (base h) g\<rparr>) = filter (\<lambda>k. fst k \<noteq> g) (keys_of h)"
  by (simp_all add: keys_of_def cascade_group_def Let_def set_role_def drop_member_def on_members_def new_member_def audit_def filter_map o_def if_distrib
      cong: if_cong)

section \<open>The rows every request keeps\<close>

text \<open>One row per member of a group that exists, at most one owner of each; invitations into groups that exist.\<close>

definition sound :: "house \<Rightarrow> bool" where
  "sound h \<longleftrightarrow> distinct (keys_of h) \<and> (\<forall>k \<in> set (keys_of h). fst k \<in> set (groups (base h)))
     \<and> (\<forall>g u v. role_in h g u = Some Owner \<longrightarrow> role_in h g v = Some Owner \<longrightarrow> u = v)
     \<and> (\<forall>i \<in> set (invitations h). inv_group i \<in> set (groups (base h))) \<and> distinct (map inv_hash (invitations h))"

definition owned_groups :: "house \<Rightarrow> bool" where
  "owned_groups h \<longleftrightarrow> (\<forall>g \<in> set (groups (base h)). \<exists>u. role_in h g u = Some Owner)"

lemma groups_simps [role_simps]:
  "groups (base (on_members f h)) = groups (base h)" "groups (base (set_role g u r h)) = groups (base h)"
  "groups (base (drop_member g u h)) = groups (base h)" "groups (base (audit who act tt target meta h)) = groups (base h)"
  "invitations (on_members f h) = invitations h" "invitations (set_role g u r h) = invitations h"
  "invitations (drop_member g u h) = invitations h" "invitations (audit who act tt target meta h) = invitations h"
  by (simp_all add: on_members_def set_role_def drop_member_def audit_def)

lemma soundD:
  assumes "sound h"
  shows "distinct (keys_of h)" "(g, u) \<in> set (keys_of h) \<Longrightarrow> g \<in> set (groups (base h))"
    "role_in h g u = Some r \<Longrightarrow> g \<in> set (groups (base h))"
    "role_in h g u = Some Owner \<Longrightarrow> role_in h g v = Some Owner \<Longrightarrow> u = v"
    "i \<in> set (invitations h) \<Longrightarrow> inv_group i \<in> set (groups (base h))" "distinct (map inv_hash (invitations h))"
  using assms role_in_keys [of h g u] unfolding sound_def by fastforce+

lemma sound_set_role: "sound h \<Longrightarrow> r \<noteq> Owner \<or> (\<forall>v. v \<noteq> u \<longrightarrow> role_in h g v \<noteq> Some Owner) \<Longrightarrow> sound (set_role g u r h)"
  unfolding sound_def role_simps by (auto split: if_splits)

lemma sound_drop: "sound h \<Longrightarrow> sound (drop_member g u h)"
  unfolding sound_def role_simps by (auto split: if_splits)

lemma sound_add: "sound h \<Longrightarrow> g \<in> set (groups (base h)) \<Longrightarrow> role_in h g u = None \<Longrightarrow>
    r \<noteq> Owner \<or> (\<forall>v. role_in h g v \<noteq> Some Owner) \<Longrightarrow> sound (on_members (\<lambda>ms. ms @ [new_member now g u r]) h)"
  using role_in_keys [of h g u] unfolding sound_def role_simps by (auto split: if_splits)

lemma sound_audit: "sound h \<Longrightarrow> sound (audit who act tt target meta h)"
  unfolding sound_def role_simps by blast

lemma sound_settings: "sound h \<Longrightarrow> sound (h\<lparr>settings := s\<rparr>)"
  unfolding sound_def role_simps by simp

lemma sound_notice: "sound h \<Longrightarrow> sound (on_members (map (\<lambda>m. if P m then m\<lparr>ownership_notice_seen_at := v\<rparr> else m)) h)"
  unfolding sound_def role_simps by simp

lemma sound_notify: "sound h \<Longrightarrow> sound (h\<lparr>base := base h\<lparr>notifications := ns\<rparr>\<rparr>)"
  unfolding sound_def role_simps by simp

lemma sound_uninvite: "sound h \<Longrightarrow> sound (h\<lparr>invitations := filter P (invitations h)\<rparr>)"
  unfolding sound_def role_simps by (simp add: distinct_map_filter)

lemma sound_invite: "sound h \<Longrightarrow> inv_group i \<in> set (groups (base h)) \<Longrightarrow> \<not> list_ex (\<lambda>j. inv_hash j = inv_hash i \<or> inv_id j = x) (invitations h) \<Longrightarrow>
    sound (h\<lparr>invitations := invitations h @ [i]\<rparr>)"
  unfolding sound_def role_simps by (auto simp: list_ex_iff)

lemma sound_new_group:
  assumes "sound h" "g \<notin> set (groups (base h))"
  shows "sound (on_members (\<lambda>ms. ms @ [new_member now g u Owner]) (h\<lparr>base := base h\<lparr>groups := groups (base h) @ [g]\<rparr>, settings := s\<rparr>))"
proof (rule sound_add)
  have none: "role_in h g v = None" for v using soundD(3) [OF assms(1)] assms(2) by (cases "role_in h g v") auto
  show "sound (h\<lparr>base := base h\<lparr>groups := groups (base h) @ [g]\<rparr>, settings := s\<rparr>)"
    using assms(1) unfolding sound_def role_simps by auto
  show "role_in (h\<lparr>base := base h\<lparr>groups := groups (base h) @ [g]\<rparr>, settings := s\<rparr>) g u = None" by (simp add: role_simps none)
  show "Owner \<noteq> Owner \<or> (\<forall>v. role_in (h\<lparr>base := base h\<lparr>groups := groups (base h) @ [g]\<rparr>, settings := s\<rparr>) g v \<noteq> Some Owner)"
    by (simp add: role_simps none)
qed simp

lemma cascade_groups [simp]: "groups (cascade_group b g) = filter (\<lambda>x. x \<noteq> g) (groups b)"
  by (simp add: cascade_group_def Let_def)

lemma sound_delete: "sound h \<Longrightarrow> sound (h\<lparr>base := cascade_group (base h) g,
    invitations := filter (\<lambda>i. inv_group i \<noteq> g) (invitations h)\<rparr>)"
  unfolding sound_def role_simps by (auto simp: distinct_map_filter split: if_splits)

lemmas sound_steps = sound_set_role sound_drop sound_add sound_audit sound_settings sound_notice sound_notify
  sound_uninvite sound_invite sound_new_group sound_delete

lemma set_role_absent: "role_in h g u = None \<Longrightarrow> set_role g u r h = h"
proof -
  assume "role_in h g u = None"
  then have "map (\<lambda>m. if m_group m = g \<and> m_user m = u then m\<lparr>m_role := r\<rparr> else m) (members (base h)) = members (base h)"
    by (intro map_idI) (auto simp: role_in_def member_in_def find_None_iff)
  then show ?thesis by (simp add: set_role_def on_members_def)
qed

lemma sound_transfer:
  assumes "sound h" "\<And>n h. sound h \<Longrightarrow> sound (gap n h)"
  shows "sound (snd (perform_ownership_transfer show_id gap h g old new))"
proof -
  let ?h = "gap 3 h" and ?h1 = "set_role g old Admin (gap 3 h)"
  have s: "sound ?h" using assms by blast
  then have s1: "sound ?h1" by (rule sound_set_role) simp
  show ?thesis
  proof (cases "role_in ?h1 g new \<noteq> None \<and> list_ex (\<lambda>m. m_role m = Owner \<and> m_user m \<noteq> new) (rows_of (base ?h1) g)")
    case True
    then show ?thesis using s by (simp add: perform_ownership_transfer_def Let_def)
  next
    case False
    have "sound (set_role g new Owner ?h1)"
    proof (cases "role_in ?h1 g new")
      case None
      with s1 show ?thesis by (simp add: set_role_absent)
    next
      case (Some r)
      with False have "\<not> (\<exists>u. u \<noteq> new \<and> role_in ?h1 g u = Some Owner)"
        using another_owner [OF soundD(1) [OF s1], of new g] by simp
      then show ?thesis by (intro sound_set_role [OF s1]) blast
    qed
    with False s show ?thesis by (auto simp: perform_ownership_transfer_def Let_def sound_audit)
  qed
qed


lemma snd_ignore [simp]: "snd (ignore r) = snd r"
  by (simp add: ignore_def)

lemma sound_leave:
  assumes "sound h" and gap: "\<And>n h. sound h \<Longrightarrow> sound (gap n h)"
  shows "sound (snd (leave_group show_id gap h user g new))"
proof -
  have s: "sound (gap 1 h)" "sound (gap 2 (gap 1 h))" using assms by blast+
  show ?thesis
  proof (cases "perform_ownership_transfer show_id gap (gap 2 (gap 1 h)) g user (the new)")
    case (Pair r h')
    have "sound (snd (perform_ownership_transfer show_id gap (gap 2 (gap 1 h)) g user (the new)))"
      by (rule sound_transfer [OF s(2)]) (rule gap)
    with Pair have "sound h'" by simp
    then show ?thesis using Pair s assms(1)
      by (auto simp: leave_group_def Let_def intro: sound_drop split: sum.split option.split)
  qed
qed

lemma sound_create_invitation:
  assumes "sound h"
  shows "sound (snd (create_invitation h now new_id token url user g email))"
proof (cases "require_member_role h g user")
  case (Inl e)
  then show ?thesis using assms by (simp add: create_invitation_def Let_def split: sum.split)
next
  case (Inr r)
  then have g: "g \<in> set (groups (base h))" using soundD(3) [OF assms] by (simp add: require_Inr)
  have "sound (h\<lparr>invitations := invitations h @ [i]\<rparr>)"
    if "inv_group i = g" "\<not> list_ex (\<lambda>j. inv_hash j = inv_hash i \<or> inv_id j = new_id) (invitations h)" for i
    using assms that g by (intro sound_invite) auto
  note i = this sound_notify [OF this, simplified]
  show ?thesis using Inr assms by (auto simp: create_invitation_def Let_def intro!: i split: sum.split option.split)
qed

lemma sound_accept:
  assumes "sound h" "\<And>n h. sound h \<Longrightarrow> sound (gap n h)"
  shows "sound (snd (accept_invitation token_hash gap h now user token))"
proof -
  have "sound (gap 1 h)" using assms by blast
  moreover have "sound (on_members (\<lambda>ms. ms @ [new_member now g user Member]) (h\<lparr>invitations := filter P (invitations h)\<rparr>))"
    if "sound h" "g \<in> set (groups (base h))" "role_in h g user = None" for h g P
    using that by (intro sound_add sound_uninvite) (simp_all add: role_simps)
  ultimately show ?thesis
    by (auto simp: accept_invitation_def Let_def assms(1) sound_uninvite role_simps split: option.split)
qed

lemma sound_serve:
  assumes "sound h" "\<And>n h. sound h \<Longrightarrow> sound (gap n h)"
  shows "sound (snd (serve w gap h user g req))"
proof (cases req)
  case (Create_group name)
  then show ?thesis using assms(1) by (simp add: create_group_def Let_def sound_new_group)
next
  case Acknowledge
  then show ?thesis using assms(1) sound_notice
    by (auto simp: acknowledge_ownership_notice_def split: sum.split)
next
  case (Rename body)
  then show ?thesis using assms(1) by (auto simp: rename_group_def Let_def sound_settings split: sum.split)
next
  case (Transfer u)
  then show ?thesis using assms sound_transfer [OF assms(2) assms(2)]
    by (auto simp: transfer_ownership_def Let_def split: sum.split)
next
  case Delete_group
  then show ?thesis using assms(1) by (auto simp: delete_group_def Let_def sound_audit sound_delete split: sum.split)
next
  case (Invite email)
  then show ?thesis using sound_create_invitation [OF assms(1)] by simp
next
  case (Accept token)
  then show ?thesis using sound_accept [OF assms] by simp
next
  case (Change_role u r)
  then show ?thesis using assms
    by (auto simp: change_role_def Let_def intro!: sound_audit sound_set_role split: sum.split)
next
  case (Remove_member u)
  then show ?thesis using assms by (auto simp: remove_member_def Let_def intro!: sound_drop split: sum.split)
next
  case (Leave u)
  then show ?thesis using sound_leave [OF assms] by simp
qed

section \<open>A request on its own\<close>

lemma alone_id [simp]: "alone n h = h"
  by (simp add: alone_def)

lemma transfer_alone:
  assumes "sound h" "role_in h g old = Some Owner" "role_in h g new \<noteq> None" "new \<noteq> old"
  shows "fst (perform_ownership_transfer show_id alone h g old new) = Inr ()"
    and "role_in (snd (perform_ownership_transfer show_id alone h g old new)) x u =
      (if x = g \<and> u = new then Some Owner else if x = g \<and> u = old then Some Admin else role_in h x u)"
    and "groups (base (snd (perform_ownership_transfer show_id alone h g old new))) = groups (base h)"
proof -
  let ?h1 = "set_role g old Admin h"
  have "sound ?h1" using assms(1) by (simp add: sound_set_role)
  moreover have "role_in ?h1 g v \<noteq> Some Owner" for v
    using soundD(4) [OF assms(1,2), of v] by (auto simp: role_simps)
  ultimately have none: "\<not> list_ex (\<lambda>m. m_role m = Owner \<and> m_user m \<noteq> new) (rows_of (base ?h1) g)"
    using another_owner [OF soundD(1)] by blast
  then have p: "perform_ownership_transfer show_id alone h g old new =
      (Inr (), audit old ''ownership_transferred'' ''group'' (show_id g) [(''new_owner_id'', show_id new)] (set_role g new Owner ?h1))"
    by (simp add: perform_ownership_transfer_def Let_def)
  show "fst (perform_ownership_transfer show_id alone h g old new) = Inr ()"
    "groups (base (snd (perform_ownership_transfer show_id alone h g old new))) = groups (base h)"
    "role_in (snd (perform_ownership_transfer show_id alone h g old new)) x u =
      (if x = g \<and> u = new then Some Owner else if x = g \<and> u = old then Some Admin else role_in h x u)"
    using assms(2-4) by (simp_all add: p role_simps)
qed

text \<open>Who may change the role of a member, or add or remove one.\<close>

text \<open>The role a row of the members' table gives an account in a group.\<close>

definition row_role :: "house \<Rightarrow> uuid \<Rightarrow> uuid \<Rightarrow> role option" where
  "row_role h g u = map_option m_role (find (\<lambda>m. m_group m = g \<and> m_user m = u) (members (base h)))"

definition allowed :: "instant \<Rightarrow> house \<Rightarrow> uuid \<Rightarrow> uuid \<Rightarrow> uuid \<Rightarrow> role option \<Rightarrow> bool" where
  "allowed now h who g u after \<longleftrightarrow>
     (case (row_role h g u, after) of
        (None, None) \<Rightarrow> True
      | (None, Some Owner) \<Rightarrow> u = who \<and> g \<notin> set (groups (base h))
      | (None, Some Member) \<Rightarrow> u = who \<and> (\<exists>i \<in> set (invitations h). inv_group i = g \<and> now \<le> inv_expires_at i)
      | (None, Some Admin) \<Rightarrow> False
      | (Some r, None) \<Rightarrow> (u = who \<and> r \<noteq> Owner) \<or> row_role h g who = Some Owner \<or> (row_role h g who = Some Admin \<and> r = Member)
      | (Some r, Some Owner) \<Rightarrow> r = Owner \<or> row_role h g who = Some Owner \<and> u \<noteq> who
      | (Some r, Some r') \<Rightarrow> r' = r \<or> row_role h g who = Some Owner \<or> (row_role h g who = Some Admin \<and> r = Member))"

lemma row_role_in: "row_role h g u = role_in h g u"
  by (simp add: row_role_def role_in_def member_in_def)

lemma allowed_iff:
  "allowed now h who g u after \<longleftrightarrow>
     (case (role_in h g u, after) of
        (None, None) \<Rightarrow> True
      | (None, Some Owner) \<Rightarrow> u = who \<and> g \<notin> set (groups (base h))
      | (None, Some Member) \<Rightarrow> u = who \<and> (\<exists>i \<in> set (invitations h). inv_group i = g \<and> now \<le> inv_expires_at i)
      | (None, Some Admin) \<Rightarrow> False
      | (Some r, None) \<Rightarrow> (u = who \<and> r \<noteq> Owner) \<or> role_in h g who = Some Owner \<or> (role_in h g who = Some Admin \<and> r = Member)
      | (Some r, Some Owner) \<Rightarrow> r = Owner \<or> role_in h g who = Some Owner \<and> u \<noteq> who
      | (Some r, Some r') \<Rightarrow> r' = r \<or> role_in h g who = Some Owner \<or> (role_in h g who = Some Admin \<and> r = Member))"
  unfolding allowed_def row_role_in ..

lemma allowed_same: "allowed now h who g u (role_in h g u)"
  by (auto simp: allowed_iff split: option.split role.split)

text \<open>What one request does: nothing when it is refused, and otherwise only what its author may.\<close>

definition lawful :: "instant \<Rightarrow> house \<Rightarrow> uuid \<Rightarrow> unit answer \<Rightarrow> bool" where
  "lawful now h who res \<longleftrightarrow>
     (\<forall>e. fst res = Inl e \<longrightarrow> snd res = h)
     \<and> (\<forall>x u. allowed now h who x u (role_in (snd res) x u))
     \<and> (owned_groups h \<longrightarrow> owned_groups (snd res))"

lemma lawful_same [simp]: "lawful now h who (r, h)"
  by (simp add: lawful_def allowed_same)

lemma lawful_roles:
  assumes "\<And>x u. role_in h' x u = role_in h x u" "groups (base h') = groups (base h)"
  shows "lawful now h who (Inr (), h')"
  using assms by (simp add: lawful_def allowed_same owned_groups_def)

lemma lawful_ignore: "lawful now h who (map_sum id (\<lambda>_. ()) r, h') \<Longrightarrow> lawful now h who (ignore (r, h'))"
  by (simp add: ignore_def)

lemma owned_kept:
  assumes "\<And>x u. role_in h x u = Some Owner \<Longrightarrow> x \<in> set (groups (base h')) \<Longrightarrow> \<exists>v. role_in h' x v = Some Owner"
    and "set (groups (base h')) \<subseteq> set (groups (base h))"
  shows "owned_groups h \<longrightarrow> owned_groups h'"
  using assms unfolding owned_groups_def by (meson subsetD)

lemma actor_can_act_on_target: "actor_can_act_on ar tr \<Longrightarrow> tr \<noteq> Owner \<and> (ar = Owner \<or> ar = Admin \<and> tr = Member)"
  by (cases tr; cases ar) simp_all

lemma lawful_set_role:
  assumes "role_in h g target = Some tr" "tr \<noteq> Owner" "allowed now h user g target (Some r)"
  shows "lawful now h user (Inr (), audit user act tt tgt meta (set_role g target r h))"
proof -
  have "owned_groups h \<longrightarrow> owned_groups (audit user act tt tgt meta (set_role g target r h))"
  proof (rule owned_kept)
    fix x u assume "role_in h x u = Some Owner"
    with assms(1,2) have "role_in (audit user act tt tgt meta (set_role g target r h)) x u = Some Owner"
      by (auto simp: role_simps)
    then show "\<exists>v. role_in (audit user act tt tgt meta (set_role g target r h)) x v = Some Owner" ..
  qed (simp add: role_simps)
  then show ?thesis using assms(3) by (auto simp: lawful_def role_simps allowed_same)
qed

lemma lawful_drop:
  assumes "role_in h g target = Some tr" "tr \<noteq> Owner" "allowed now h user g target None"
  shows "lawful now h user (Inr (), drop_member g target h)"
proof -
  have "owned_groups h \<longrightarrow> owned_groups (drop_member g target h)"
  proof (rule owned_kept)
    fix x u assume "role_in h x u = Some Owner"
    with assms(1,2) have "role_in (drop_member g target h) x u = Some Owner" by (auto simp: role_simps)
    then show "\<exists>v. role_in (drop_member g target h) x v = Some Owner" ..
  qed (simp add: role_simps)
  then show ?thesis using assms(3) by (auto simp: lawful_def role_simps allowed_same)
qed

lemma allowed_acts:
  assumes "role_in h g user = Some ar" "role_in h g target = Some tr" "actor_can_act_on ar tr" "after \<noteq> Some Owner"
  shows "allowed now h user g target after"
  using assms(1,2,4) actor_can_act_on_target [OF assms(3)] by (auto simp: allowed_iff split: option.split role.split)

lemma lawful_change_role: "lawful now h user (change_role show_id alone h user g target new_role)"
  using actor_can_act_on_target allowed_acts [of h g user]
  by (auto simp: change_role_def Let_def require_Inr intro!: lawful_set_role split: sum.split)

lemma lawful_remove: "lawful now h user (remove_member alone h user g target)"
  using actor_can_act_on_target allowed_acts [of h g user]
  by (auto simp: remove_member_def Let_def require_Inr intro!: lawful_drop split: sum.split)

lemma lawful_transferred:
  assumes "sound h" "role_in h g old = Some Owner" "role_in h g new = Some r" "new \<noteq> old"
    and h': "\<And>x u. role_in h' x u = (if x = g \<and> u = new then Some Owner else if x = g \<and> u = old then after else role_in h x u)"
    and "groups (base h') = groups (base h)" "after \<noteq> Some Owner"
  shows "lawful now h old (Inr (), h')"
proof -
  have "allowed now h old g new (Some Owner)" "allowed now h old g old after"
    using assms(2-4) by (auto simp: allowed_iff split: option.split role.split)
  moreover have "owned_groups h \<longrightarrow> owned_groups h'"
  proof (rule owned_kept)
    fix x u assume u: "role_in h x u = Some Owner"
    have "role_in h' x (if x = g then new else u) = Some Owner" using u by (simp add: h')
    then show "\<exists>v. role_in h' x v = Some Owner" ..
  qed (simp add: assms(6))
  ultimately show ?thesis by (auto simp: lawful_def h' allowed_same)
qed

lemma lawful_transfer:
  assumes "sound h"
  shows "lawful now h user (transfer_ownership show_id alone h user g new)"
proof -
  have "lawful now h user (perform_ownership_transfer show_id alone h g user new)"
    if o: "role_in h g user = Some Owner" and m: "member_in h g new \<noteq> None" and ne: "new \<noteq> user"
  proof -
    obtain r where r: "role_in h g new = Some r" using m by (auto simp: role_in_def)
    have n: "role_in h g new \<noteq> None" using r by simp
    note t = transfer_alone [OF assms o n ne, of show_id]
    have "lawful now h user (Inr (), snd (perform_ownership_transfer show_id alone h g user new))"
      by (rule lawful_transferred [OF assms o r ne t(2,3)]) simp
    then show ?thesis using t(1) by (metis prod.collapse)
  qed
  then show ?thesis by (auto simp: transfer_ownership_def Let_def require_Inr split: sum.split)
qed

lemma lawful_leave:
  assumes "sound h"
  shows "lawful now h user (leave_group show_id alone h user g new)"
proof -
  have self: "lawful now h user (Inr (), drop_member g user h)" if "role_in h g user = Some r" "r \<noteq> Owner" for r
    using that by (intro lawful_drop [of h g user r]) (auto simp: allowed_iff split: role.split)
  have heir: "lawful now h user
      (case perform_ownership_transfer show_id alone h g user heir of (Inl e, h) \<Rightarrow> (Inl e, h) | (Inr _, h) \<Rightarrow> (Inr (), drop_member g user h))"
    if o: "role_in h g user = Some Owner" and r: "role_in h g heir = Some r" and ne: "heir \<noteq> user" for heir r
  proof (cases "perform_ownership_transfer show_id alone h g user heir")
    case (Pair a h')
    have n: "role_in h g heir \<noteq> None" using r by simp
    note t = transfer_alone [OF assms o n ne, of show_id, unfolded Pair fst_conv snd_conv]
    have "lawful now h user (Inr (), drop_member g user h')"
      by (rule lawful_transferred [OF assms o r ne, where after = None]) (use ne in \<open>auto simp: t role_simps\<close>)
    then show ?thesis using Pair t(1) by simp
  qed
  show ?thesis using self heir
    by (auto simp: leave_group_def Let_def require_Inr split: sum.split option.split)
qed

lemma lawful_delete:
  "lawful now h user (ignore (delete_group show_id storage h user g))"
proof -
  have "lawful now h user (Inr (), audit user act tt tgt meta (h\<lparr>base := cascade_group (base h) g, invitations := is\<rparr>))"
    if "role_in h g user = Some Owner" for act tt tgt meta "is"
  proof -
    have a: "allowed now h user g u None" for u using that by (auto simp: allowed_iff split: option.split)
    have "role_in h x u = Some Owner \<Longrightarrow> x \<noteq> g \<Longrightarrow> \<exists>v. role_in h x v = Some Owner" for x u by blast
    then show ?thesis using a by (auto simp: lawful_def role_simps allowed_same owned_groups_def)
  qed
  then show ?thesis by (auto simp: delete_group_def Let_def require_Inr lawful_ignore split: sum.split)
qed

lemma lawful_create:
  assumes "sound h"
  shows "lawful now h user (ignore (create_group h now g user name))"
proof -
  let ?h = "\<lambda>s. on_members (\<lambda>ms. ms @ [new_member now g user Owner]) (h\<lparr>base := base h\<lparr>groups := groups (base h) @ [g]\<rparr>, settings := s\<rparr>)"
  have "lawful now h user (Inr (), ?h s)" if "g \<notin> set (groups (base h))" for s
  proof -
    have none: "role_in h g v = None" for v using soundD(3) [OF assms] that by (cases "role_in h g v") auto
    then have "allowed now h user g user (Some Owner)" using that by (simp add: allowed_iff)
    moreover have "owned_groups h \<longrightarrow> owned_groups (?h s)"
      unfolding owned_groups_def role_simps by (auto simp: none role_simps)
    ultimately show ?thesis by (auto simp: lawful_def role_simps allowed_same)
  qed
  then show ?thesis by (simp add: create_group_def Let_def lawful_ignore)
qed

lemma lawful_accept: "lawful now h user (ignore (accept_invitation token_hash alone h now user token))"
proof -
  have "lawful now h user (Inr (), on_members (\<lambda>ms. ms @ [new_member now (inv_group i) user Member]) (h\<lparr>invitations := is\<rparr>))"
    if i: "find (\<lambda>i. inv_hash i = hash) (invitations h) = Some i" and n: "role_in h (inv_group i) user = None" and e: "\<not> inv_expires_at i < now"
    for i "is" hash
  proof -
    have "i \<in> set (invitations h)" using i by (auto simp: find_Some_iff)
    then have "allowed now h user (inv_group i) user (Some Member)" using n e by (auto simp: allowed_iff)
    moreover have "owned_groups h \<longrightarrow> owned_groups (on_members (\<lambda>ms. ms @ [new_member now (inv_group i) user Member]) (h\<lparr>invitations := is\<rparr>))"
    proof (rule owned_kept)
      fix x u assume "role_in h x u = Some Owner"
      then have "role_in (on_members (\<lambda>ms. ms @ [new_member now (inv_group i) user Member]) (h\<lparr>invitations := is\<rparr>)) x u = Some Owner"
        by (simp add: role_simps)
      then show "\<exists>v. role_in (on_members (\<lambda>ms. ms @ [new_member now (inv_group i) user Member]) (h\<lparr>invitations := is\<rparr>)) x v = Some Owner" ..
    qed (simp add: role_simps)
    ultimately show ?thesis by (auto simp: lawful_def role_simps allowed_same)
  qed
  moreover have "lawful now h user (Inr (), h\<lparr>invitations := is\<rparr>)" for "is" by (rule lawful_roles) (simp_all add: role_simps)
  ultimately show ?thesis
    by (auto simp: accept_invitation_def Let_def role_simps lawful_ignore split: option.split)
qed

lemma lawful_serve:
  assumes "sound h"
  shows "lawful (o_now w) h user (serve w alone h user g req)"
proof (cases req)
  case Acknowledge
  then show ?thesis by (auto simp: acknowledge_ownership_notice_def role_simps intro!: lawful_roles split: sum.split)
next
  case (Rename body)
  then show ?thesis by (auto simp: rename_group_def Let_def role_simps intro!: lawful_ignore lawful_roles split: sum.split)
next
  case (Invite email)
  then show ?thesis
    by (auto simp: create_invitation_def Let_def role_simps intro!: lawful_ignore lawful_roles split: sum.split option.split)
qed (use assms in \<open>simp_all add: lawful_create lawful_transfer lawful_delete lawful_accept lawful_change_role lawful_remove lawful_leave\<close>)

section \<open>What holds of groups\<close>

lemma serve_all_kept: "sound h \<Longrightarrow> sound (serve_all h reqs) \<and> (owned_groups h \<longrightarrow> owned_groups (serve_all h reqs))"
proof (induction h reqs rule: serve_all.induct)
  case (2 h w user g req rest)
  have "sound (snd (serve w alone h user g req))" by (rule sound_serve [OF 2(2)]) simp
  with 2 lawful_serve [OF 2(2)] show ?case by (simp add: lawful_def)
qed simp

text \<open>
  C22. A group has one owner. Requests served one after another, whatever they are and whoever
  sends them, leave every group with exactly one owner, every member with one row in a group that
  exists, and every invitation into a group that exists. When other transactions commit between
  the statements of a request, keeping that much, it may still never leave a group with two.
\<close>

theorem groups_keep_one_owner:
  assumes "sound h" "\<And>n h. sound h \<Longrightarrow> sound (gap n h)"
  shows "sound (serve_all h reqs) \<and> sound (snd (serve w gap h user g req))
    \<and> ((\<forall>x \<in> set (groups (base h)). \<exists>u. role_in h x u = Some Owner) \<longrightarrow>
        (\<forall>x \<in> set (groups (base (serve_all h reqs))). \<exists>!u. role_in (serve_all h reqs) x u = Some Owner))"
proof -
  note k = serve_all_kept [OF assms(1), of reqs]
  have "\<exists>!u. role_in (serve_all h reqs) x u = Some Owner" if "owned_groups h" "x \<in> set (groups (base (serve_all h reqs)))" for x
    using k that soundD(4) [of "serve_all h reqs" x] unfolding owned_groups_def by blast
  then show ?thesis using k sound_serve [OF assms] by (simp add: owned_groups_def)
qed

text \<open>
  C23. Nobody acts above his role, in a request served alone: nothing else commits between its
  reads and its writes (the next property says what may happen otherwise). Such a request, when it
  is refused, leaves every row as it was; when it is served it changes a member's role, or removes him, only when its author is the owner of the group, an admin and the
  member a standard one, or himself and not the owner. Only the owner makes another the owner, and
  the only ways into a group are to create it and an invitation to it that has not expired.
\<close>

theorem nobody_acts_above_his_role:
  assumes "sound h" "serve w alone h user g req = (res, h')"
  shows "(\<forall>e. res = Inl e \<longrightarrow> h' = h) \<and> (\<forall>x u. allowed (o_now w) h user x u (row_role h' x u))"
  using lawful_serve [OF assms(1), of w user g req] by (simp add: assms(2) lawful_def row_role_in)

text \<open>
  C24. A race leaves a group without an owner. An admin removes a standard member; between the
  role read by \<open>remove_member\<close> and its deletion, the owner hands the group over to that member. Both
  requests are served, and the group, which still exists, has no owner left: nobody can delete it
  or hand it over any more.
\<close>

theorem removal_races_transfer:
  assumes "sound h" "role_in h g old = Some Owner" "role_in h g admin = Some Admin" "role_in h g new = Some Member"
    and gap: "\<And>h. gap 1 h = h" "\<And>h. gap 2 h = snd (serve w alone h old g (Transfer new))"
    and res: "serve w gap h admin g (Remove_member new) = (res, h')"
  shows "fst (serve w alone h old g (Transfer new)) = Inr () \<and> res = Inr () \<and> g \<in> set (groups (base h'))
    \<and> (\<forall>u. role_in h' g u \<noteq> Some Owner)
    \<and> (\<forall>user v. fst (serve w alone h' user g Delete_group) = Inl Forbidden \<and> fst (serve w alone h' user g (Transfer v)) = Inl Forbidden)"
proof -
  have ne: "new \<noteq> old" and n: "role_in h g new \<noteq> None" using assms(2,4) by auto
  note t = transfer_alone [OF assms(1,2) n ne, of "o_show w"]
  have tr: "serve w alone h old g (Transfer new) = perform_ownership_transfer (o_show w) alone h g old new"
    using assms(2) n ne by (auto simp: transfer_ownership_def require_member_role_def role_in_def)
  have g2: "gap 2 h = snd (perform_ownership_transfer (o_show w) alone h g old new)" by (simp only: gap(2) tr)
  have h': "h' = drop_member g new (gap 2 h)" "res = Inr ()"
    using res assms(3,4) by (simp_all add: remove_member_def require_member_role_def gap(1) Let_def del: One_nat_def)
  have none: "role_in h' g u \<noteq> Some Owner" for u
    using soundD(4) [OF assms(1,2), of u] by (auto simp: h' role_simps g2 t(2))
  have refused: "fst (serve w alone h' user g Delete_group) = Inl Forbidden \<and> fst (serve w alone h' user g (Transfer v)) = Inl Forbidden" for user v
    using none [of user] by (auto simp: delete_group_def transfer_ownership_def require_member_role_def ignore_def split: option.split)
  have "g \<in> set (groups (base h'))" using soundD(3) [OF assms(1,2)] by (simp add: h' role_simps g2 t(3))
  then show ?thesis using t(1) none refused h'(2) unfolding tr by blast
qed

section \<open>The link of an invitation\<close>

lemma token_trim:
  assumes "is_bearer_token t"
  shows "t \<noteq> []" "\<not> is_whitespace (hd t)" "\<not> is_whitespace (last t)" "47 \<notin> set t"
proof -
  show "t \<noteq> []" using assms by (auto simp: is_bearer_token_def BEARER_TOKEN_LEN_def)
  then have "hd t \<in> set t" "last t \<in> set t" by simp_all
  moreover have "c \<noteq> 47 \<and> \<not> is_whitespace c" if "c \<in> set t" for c
    using assms that by (auto simp: is_bearer_token_def list_all_iff is_whitespace_def)
  ultimately show "\<not> is_whitespace (hd t)" "\<not> is_whitespace (last t)" "47 \<notin> set t" by blast+
qed

lemma trim_by_around:
  assumes "list_all ws a" "list_all ws b" "t \<noteq> []" "\<not> ws (hd t)" "\<not> ws (last t)"
  shows "trim_by ws (a @ t @ b) = t"
proof -
  have "dropWhile ws (a @ t @ b) = dropWhile ws (t @ b)" using assms(1) by (simp add: list_all_iff dropWhile_append2)
  also have "\<dots> = t @ b" using assms(3,4) by (simp add: dropWhile_eq_self_iff)
  finally have "dropWhile ws (a @ t @ b) = t @ b" .
  moreover have "dropWhile ws (rev b @ rev t) = dropWhile ws (rev t)"
    using assms(2) dropWhile_append2 [of "rev b" ws "rev t"] by (simp add: list_all_iff)
  moreover have "dropWhile ws (rev t) = rev t" using assms(3,5) by (simp add: dropWhile_eq_self_iff hd_rev)
  ultimately show ?thesis by (simp add: trim_by_def)
qed

lemma after_invitations_append:
  "chars ''invitations'' \<notin> set ps \<Longrightarrow> after_invitations (ps @ chars ''invitations'' # t # rest) = Some t"
  by (induction ps) auto

lemma split_accept_url: "47 \<notin> set t \<Longrightarrow>
    split_on 47 (accept_url url t) = split_on 47 url @ [chars ''groups'', chars ''invitations'', t, chars ''accept'']"
proof -
  assume t: "47 \<notin> set t"
  have "accept_url url t = url @ 47 # (chars ''groups'' @ 47 # (chars ''invitations'' @ 47 # (t @ 47 # chars ''accept'')))"
    by (simp add: accept_url_def)
  then show ?thesis by (simp only: split_on_app split_on_no_sep [OF t]) (simp add: split_on_no_sep)
qed

lemma link_parsed:
  assumes t: "is_bearer_token t" and ws: "list_all is_whitespace a" "list_all is_whitespace b"
    and url: "url \<noteq> []" "\<not> is_whitespace (hd url)" "chars ''invitations'' \<notin> set (split_on 47 url)"
  shows "parse_invitation_token (a @ t @ b) = Some t" "parse_invitation_token (a @ accept_url url t @ b) = Some t"
proof -
  note tt = token_trim [OF t]
  show "parse_invitation_token (a @ t @ b) = Some t"
    by (simp add: parse_invitation_token_def trim_by_around [OF ws tt(1-3)] t)
  have "trim_text (a @ accept_url url t @ b) = accept_url url t"
    using ws url by (intro trim_by_around) (simp_all add: accept_url_def is_whitespace_def)
  moreover have "\<not> is_bearer_token (accept_url url t)"
    using token_trim(4) [of "accept_url url t"] by (auto simp: accept_url_def)
  moreover have "after_invitations (split_on 47 (accept_url url t)) = Some t"
    using after_invitations_append [of "split_on 47 url @ [chars ''groups'']" t "[chars ''accept'']"] url(3)
    by (simp add: split_accept_url [OF tt(4)])
  ultimately show "parse_invitation_token (a @ accept_url url t @ b) = Some t"
    by (simp add: parse_invitation_token_def t)
qed

lemma created_invitation:
  assumes "create_invitation h now new_id token url user g email = (Inr (i, link), h1)"
  obtains inv where "inv_group inv = g" "inv_expires_at inv = now + days_dur INVITATION_TTL_DAYS" "inv_hash inv = snd token"
    "find (\<lambda>j. inv_hash j = snd token) (invitations h) = None" "invitations h1 = invitations h @ [inv]"
    "link = accept_url url (fst token)" "groups (base h1) = groups (base h)" "\<And>x u. role_in h1 x u = role_in h x u"
    "role_in h g user \<noteq> None"
proof -
  let ?inv = "\<lparr>inv_id = new_id, inv_group = g, inv_email = map_option normalize_email email, inv_by = user,
    inv_expires_at = now + days_dur INVITATION_TTL_DAYS, inv_hash = snd token\<rparr>"
  from assms have "find (\<lambda>j. inv_hash j = snd token) (invitations h) = None" "invitations h1 = invitations h @ [?inv]"
    "link = accept_url url (fst token)" "groups (base h1) = groups (base h)" "role_in h1 x u = role_in h x u" "role_in h g user \<noteq> None" for x u
    by (auto simp: create_invitation_def Let_def role_simps require_Inr find_None_iff list_ex_iff
        split: sum.splits option.splits if_splits)
  then show thesis using that [of ?inv] by simp
qed

text \<open>
  C25. The link of an invitation opens it, to one person. Whatever blanks surround it when it is
  pasted, the token read off the link finds the invitation: for seven days whoever presents it
  joins as a standard member (a member keeps his role) and nobody else's role changes, and from
  then on the token finds nothing. After seven days it is refused and changes nothing.
\<close>

theorem invitation_link_admits_one:
  assumes h: "sound h" and created: "create_invitation h now new_id token url user g email = (Inr (i, link), h1)"
    and token: "is_bearer_token (fst token)" "token_hash (fst token) = Some (snd token)"
    and url: "url \<noteq> []" "\<not> is_whitespace (hd url)" "chars ''invitations'' \<notin> set (split_on 47 url)"
    and pasted: "list_all is_whitespace a" "list_all is_whitespace b"
  shows "\<exists>t. parse_invitation_token (a @ link @ b) = Some t \<and>
    (\<forall>guest at.
       (at \<le> now + days_dur 7 \<longrightarrow> (\<exists>h2. accept_invitation token_hash alone h1 at guest t = (Inr g, h2)
          \<and> role_in h2 g guest = Some (case role_in h g guest of None \<Rightarrow> Member | Some r \<Rightarrow> r)
          \<and> (\<forall>x u. (x, u) \<noteq> (g, guest) \<longrightarrow> role_in h2 x u = role_in h x u)
          \<and> (\<forall>at2 guest2. accept_invitation token_hash alone h2 at2 guest2 t = (Inl Not_found, h2))))
       \<and> (now + days_dur 7 < at \<longrightarrow> accept_invitation token_hash alone h1 at guest t = (Inl Gone, h1)))"
proof -
  obtain inv where c: "inv_group inv = g" "inv_expires_at inv = now + days_dur INVITATION_TTL_DAYS" "inv_hash inv = snd token"
    "find (\<lambda>j. inv_hash j = snd token) (invitations h) = None" "invitations h1 = invitations h @ [inv]"
    "link = accept_url url (fst token)" "groups (base h1) = groups (base h)" "\<And>x u. role_in h1 x u = role_in h x u"
    "role_in h g user \<noteq> None"
    by (rule created_invitation [OF created]) (rule that)
  have p: "parse_invitation_token (a @ link @ b) = Some (fst token)"
    unfolding c(6) by (rule link_parsed(2) [OF token(1) pasted url])
  have f: "find (\<lambda>j. inv_hash j = snd token) (invitations h1) = Some inv" using c(3-5) by (simp add: find_append)
  have g: "g \<in> set (groups (base h1))" using soundD(3) [OF h] c(7,9) by auto
  let ?h = "h1\<lparr>invitations := filter (\<lambda>j. inv_hash j \<noteq> snd token) (invitations h1)\<rparr>"
  let ?h2 = "\<lambda>at guest. if role_in h1 g guest \<noteq> None then ?h else on_members (\<lambda>ms. ms @ [new_member at g guest Member]) ?h"
  have again: "accept_invitation token_hash alone (?h2 at guest) at2 guest2 (fst token) = (Inl Not_found, ?h2 at guest)" for at guest at2 guest2
  proof -
    have "find (\<lambda>j. inv_hash j = snd token) (invitations (?h2 at guest)) = None" by (auto simp: find_None_iff on_members_def)
    then show ?thesis by (simp add: accept_invitation_def token(2))
  qed
  have first: "accept_invitation token_hash alone h1 at guest (fst token) =
      (if now + days_dur 7 < at then (Inl Gone, h1) else (Inr g, ?h2 at guest))" for at guest
    using g by (simp add: accept_invitation_def token(2) f c(1,2) INVITATION_TTL_DAYS_def Let_def role_simps)
  have roles: "role_in (?h2 at guest) x u = (if (x, u) = (g, guest) then Some (case role_in h g guest of None \<Rightarrow> Member | Some r \<Rightarrow> r) else role_in h x u)"
    for at guest x u by (auto simp: role_simps c(8) split: option.split)
  show ?thesis using p first again roles by (intro exI [of _ "fst token"]) (auto simp del: alone_id)
qed

section \<open>A group of three\<close>

definition trio :: house where
  "trio = \<lparr>base = \<lparr>users = [], members = [new_member 0 10 1 Owner, new_member 0 10 2 Member, new_member 0 10 3 Admin],
       groups = [10], events = [], attachments = [], owned = (\<lambda>_. []), notifications = [], audit_log = []\<rparr>,
     settings = (\<lambda>_. \<lparr>g_name = [97], g_accent = Sarcelle, g_zone = None, g_alsace = False, g_created_at = 0\<rparr>),
     invitations = []\<rparr>"

definition some_outside :: outside where
  "some_outside = \<lparr>o_show = (\<lambda>_. []), o_now = 0, o_id = 11, o_token = (replicate 43 65, [1]), o_url = chars ''https://h'',
     o_hash = (\<lambda>t. if t = replicate 43 65 then Some [1] else None), o_storage = (\<lambda>_. True)\<rparr>"

lemma trio_roles: "role_in trio g u = (if g = 10 then (if u = 1 then Some Owner else if u = 2 then Some Member else if u = 3 then Some Admin else None) else None)"
  by (simp add: role_in_def member_in_def trio_def new_member_def)

lemma trio_sound: "sound trio"
proof -
  have "distinct (keys_of trio)" "\<forall>k \<in> set (keys_of trio). fst k \<in> set (groups (base trio))" "invitations trio = []"
    by (simp_all add: keys_of_def trio_def new_member_def)
  then show ?thesis by (simp add: sound_def trio_roles split: if_splits)
qed

theorem groups_keep_one_owner_witness:
  "\<exists>!u. role_in (serve_all trio [(some_outside, 1, 10, Remove_member 2)]) 10 u = Some Owner"
proof -
  have "groups (base (serve_all trio [(some_outside, 1, 10, Remove_member 2)])) = [10]"
    by (simp add: remove_member_def require_member_role_def trio_roles role_simps) (simp add: trio_def)
  moreover have "\<forall>x \<in> set (groups (base trio)). \<exists>u. role_in trio x u = Some Owner"
    using trio_roles [of 10 1] by (auto simp: trio_def)
  ultimately show ?thesis
    using groups_keep_one_owner [OF trio_sound, of alone "[(some_outside, 1, 10, Remove_member 2)]"] by simp
qed

theorem nobody_acts_above_his_role_witness:
  "snd (serve some_outside alone trio 2 10 (Remove_member 3)) = trio"
proof -
  have "serve some_outside alone trio 2 10 (Remove_member 3) = (Inl Forbidden, snd (serve some_outside alone trio 2 10 (Remove_member 3)))"
    by (simp add: remove_member_def require_member_role_def trio_roles)
  from nobody_acts_above_his_role [OF trio_sound this] show ?thesis by blast
qed

theorem removal_races_transfer_witness:
  "\<exists>gap res h'. serve some_outside gap trio 3 10 (Remove_member 2) = (res, h') \<and> res = Inr () \<and> (\<forall>u. role_in h' 10 u \<noteq> Some Owner)"
proof -
  let ?gap = "\<lambda>(n :: nat) h. if n = 2 then snd (serve some_outside alone h 1 10 (Transfer 2)) else h"
  let ?r = "serve some_outside ?gap trio 3 10 (Remove_member 2)"
  have "?r = (fst ?r, snd ?r)" by (rule prod.collapse [symmetric])
  have roles: "role_in trio 10 1 = Some Owner" "role_in trio 10 3 = Some Admin" "role_in trio 10 2 = Some Member"
    by (simp_all add: trio_roles)
  have gap: "?gap 1 h = h" "?gap 2 h = snd (serve some_outside alone h 1 10 (Transfer 2))" for h by (simp_all del: serve.simps)
  have "fst ?r = Inr () \<and> (\<forall>u. role_in (snd ?r) 10 u \<noteq> Some Owner)"
    using removal_races_transfer [OF trio_sound roles gap \<open>?r = (fst ?r, snd ?r)\<close>] by blast
  then show ?thesis using \<open>?r = (fst ?r, snd ?r)\<close> by blast
qed

theorem invitation_link_admits_one_witness:
  "\<exists>t h1 h2. fst (create_invitation trio 0 11 (replicate 43 65, [1]) (chars ''https://h'') 1 10 None) = Inr (11, accept_url (chars ''https://h'') t)
     \<and> role_in h2 10 7 = Some Member
     \<and> accept_invitation (o_hash some_outside) alone h1 (days_dur 7) 7 t = (Inr 10, h2)
     \<and> accept_invitation (o_hash some_outside) alone h2 (days_dur 7) 8 t = (Inl Not_found, h2)"
proof -
  let ?t = "replicate 43 65 :: utext" and ?url = "chars ''https://h''"
  let ?c = "create_invitation trio 0 11 (?t, [1]) ?url 1 10 None"
  have inv: "invitations trio = []" by (simp add: trio_def)
  have c: "?c = (Inr (11, accept_url ?url ?t), snd ?c)"
    by (simp add: create_invitation_def require_member_role_def trio_roles Let_def inv)
  have b: "is_bearer_token ?t" by (simp add: is_bearer_token_def BEARER_TOKEN_LEN_def list_all_iff)
  have hash: "o_hash some_outside ?t = Some [1]" by (simp add: some_outside_def)
  have u: "?url \<noteq> []" "\<not> is_whitespace (hd ?url)" "chars ''invitations'' \<notin> set (split_on 47 ?url)" by code_simp+
  have p: "parse_invitation_token ([] @ accept_url ?url ?t @ []) = Some ?t" by (rule link_parsed(2) [OF b _ _ u]) simp_all
  have "o_hash some_outside (fst (?t, [1])) = Some (snd (?t, [1 :: nat]))" "is_bearer_token (fst (?t, [1 :: nat]))" using hash b by simp_all
  note one' = invitation_link_admits_one [where token_hash = "o_hash some_outside" and token = "(?t, [1 :: nat])" and url = ?url
      and a = "[]" and b = "[]", OF trio_sound c this(2,1) u]
  have one: "\<exists>t. parse_invitation_token ([] @ accept_url ?url ?t @ []) = Some t \<and>
    (\<forall>guest at.
       (at \<le> 0 + days_dur 7 \<longrightarrow> (\<exists>h2. accept_invitation (o_hash some_outside) alone (snd ?c) at guest t = (Inr 10, h2)
          \<and> role_in h2 10 guest = Some (case role_in trio 10 guest of None \<Rightarrow> Member | Some r \<Rightarrow> r)
          \<and> (\<forall>x u. (x, u) \<noteq> (10, guest) \<longrightarrow> role_in h2 x u = role_in trio x u)
          \<and> (\<forall>at2 guest2. accept_invitation (o_hash some_outside) alone h2 at2 guest2 t = (Inl Not_found, h2))))
       \<and> (0 + days_dur 7 < at \<longrightarrow> accept_invitation (o_hash some_outside) alone (snd ?c) at guest t = (Inl Gone, snd ?c)))"
    by (rule one') simp_all
  have "\<exists>h2. accept_invitation (o_hash some_outside) alone (snd ?c) (days_dur 7) 7 ?t = (Inr 10, h2)
      \<and> role_in h2 10 7 = Some Member \<and> accept_invitation (o_hash some_outside) alone h2 (days_dur 7) 8 ?t = (Inl Not_found, h2)"
    using one [unfolded p option.inject, simplified, THEN spec, of 7, THEN spec, of "days_dur 7"] by (auto simp: trio_roles)
  then show ?thesis using c by (metis fst_conv)
qed

end
