(* ===== verification/Ip_Text.thy ===== *)
theory Ip_Text
  imports Throttle Strings
begin

unbundle bit_operations_syntax

text \<open>
  IP addresses as text: \<open>str::parse::<IpAddr>\<close> and \<open>::<SocketAddr>\<close> of Rust's standard library,
  as the backend uses them on hosts and forwarded addresses. A parser takes what it reads off the
  front of the text; one that fails takes nothing.
\<close>

section \<open>Numbers\<close>

definition hex_digit :: "nat \<Rightarrow> char \<Rightarrow> nat option" where
  "hex_digit radix c =
     (let n = of_char c :: nat;
          d = (if 48 \<le> n \<and> n \<le> 57 then Some (n - 48) else if 97 \<le> n \<and> n \<le> 102 then Some (n - 87)
               else if 65 \<le> n \<and> n \<le> 70 then Some (n - 55) else None)
      in case d of Some v \<Rightarrow> if v < radix then Some v else None | None \<Rightarrow> None)"

text \<open>The digits off the front: how many, and their value.\<close>

fun read_digits :: "nat \<Rightarrow> string \<Rightarrow> nat \<Rightarrow> nat \<Rightarrow> nat \<times> nat \<times> string" where
  "read_digits radix [] count value = (count, value, [])"
| "read_digits radix (c # cs) count value =
     (case hex_digit radix c of None \<Rightarrow> (count, value, c # cs) | Some d \<Rightarrow> read_digits radix cs (count + 1) (value * radix + d))"

text \<open>
  \<open>read_number\<close>: at least one digit, at most \<open>max_digits\<close> of them, a value the type holds and, where
  it is not allowed, no leading zero before another digit.
\<close>

definition read_number :: "nat \<Rightarrow> nat option \<Rightarrow> bool \<Rightarrow> nat \<Rightarrow> string \<Rightarrow> (nat \<times> string) option" where
  "read_number radix max_digits allow_zero_prefix bound s =
     (let (count, value, rest) = read_digits radix s 0 0
      in if count = 0 \<or> (case max_digits of Some m \<Rightarrow> m < count | None \<Rightarrow> False) \<or> bound \<le> value
            \<or> (\<not> allow_zero_prefix \<and> 1 < count \<and> hd s = CHR ''0'')
         then None else Some (value, rest))"

definition read_char :: "char \<Rightarrow> string \<Rightarrow> string option" where
  "read_char c s = (case s of x # xs \<Rightarrow> if x = c then Some xs else None | [] \<Rightarrow> None)"

text \<open>\<open>read_separator\<close>: what comes before element \<open>index\<close> of a list.\<close>

definition separated :: "char \<Rightarrow> nat \<Rightarrow> (string \<Rightarrow> ('r \<times> string) option) \<Rightarrow> string \<Rightarrow> ('r \<times> string) option" where
  "separated sep index inner s =
     (if index = 0 then inner s else case read_char sep s of None \<Rightarrow> None | Some s \<Rightarrow> inner s)"

section \<open>Addresses\<close>

fun read_octets :: "nat \<Rightarrow> nat \<Rightarrow> string \<Rightarrow> (nat list \<times> string) option" where
  "read_octets 0 index s = Some ([], s)"
| "read_octets (Suc n) index s =
     (case separated (CHR ''.'') index (read_number 10 (Some 3) False 256) s of
        None \<Rightarrow> None
      | Some (b, s) \<Rightarrow> map_option (\<lambda>(bs, s). (b # bs, s)) (read_octets n (index + 1) s))"

text \<open>Bytes or groups, the most significant first, as one number.\<close>

definition from_be :: "nat \<Rightarrow> nat list \<Rightarrow> 'w::len word" where
  "from_be width parts = foldl (\<lambda>acc b. push_bit width acc OR of_nat b) 0 parts"

definition read_ipv4 :: "string \<Rightarrow> (nat list \<times> string) option" where
  "read_ipv4 s = read_octets 4 0 s"

text \<open>\<open>read_groups\<close>: up to \<open>limit\<close> groups, the last two possibly an IPv4 address, and whether they were.\<close>

function read_groups :: "nat \<Rightarrow> nat \<Rightarrow> string \<Rightarrow> nat list \<times> bool \<times> string" where
  "read_groups limit i s =
     (if limit \<le> i then ([], False, s)
      else case (if i < limit - 1 then separated (CHR '':'') i read_ipv4 s else None) of
             Some (bs, s) \<Rightarrow> ([bs ! 0 * 256 + bs ! 1, bs ! 2 * 256 + bs ! 3], True, s)
           | None \<Rightarrow>
               (case separated (CHR '':'') i (read_number 16 (Some 4) True 65536) s of
                  None \<Rightarrow> ([], False, s)
                | Some (g, s) \<Rightarrow> (let (gs, v4, s) = read_groups limit (i + 1) s in (g # gs, v4, s))))"
  by auto
termination by (relation "measure (\<lambda>(limit, i, s). limit - i)") auto

declare read_groups.simps [simp del]

definition read_ipv6 :: "string \<Rightarrow> (nat list \<times> string) option" where
  "read_ipv6 s =
     (let (head, head_v4, s) = read_groups 8 0 s
      in if length head = 8 then Some (head, s)
         else if head_v4 then None
         else case read_char (CHR '':'') s of None \<Rightarrow> None | Some s \<Rightarrow>
              (case read_char (CHR '':'') s of None \<Rightarrow> None | Some s \<Rightarrow>
                 let (tail, _, s) = read_groups (8 - (length head + 1)) 0 s
                 in Some (head @ replicate (8 - length head - length tail) 0 @ tail, s)))"

definition read_ip :: "string \<Rightarrow> (ip_addr \<times> string) option" where
  "read_ip s =
     (case read_ipv4 s of
        Some (bs, s) \<Rightarrow> Some (V4 (from_be 8 bs), s)
      | None \<Rightarrow> map_option (\<lambda>(gs, s). (V6 (from_be 16 gs), s)) (read_ipv6 s))"

definition parse_ip :: "string \<Rightarrow> ip_addr option" where
  "parse_ip s = (case read_ip s of Some (ip, []) \<Rightarrow> Some ip | _ \<Rightarrow> None)"

definition read_port :: "string \<Rightarrow> (nat \<times> string) option" where
  "read_port s = (case read_char (CHR '':'') s of None \<Rightarrow> None | Some s \<Rightarrow> read_number 10 None True 65536 s)"

definition read_scope_id :: "string \<Rightarrow> string" where
  "read_scope_id s =
     (case read_char (CHR ''%'') s of None \<Rightarrow> s
      | Some t \<Rightarrow> (case read_number 10 None True 4294967296 t of Some (_, t) \<Rightarrow> t | None \<Rightarrow> s))"

text \<open>The address of a \<open>SocketAddr\<close>.\<close>

definition parse_socket_ip :: "string \<Rightarrow> ip_addr option" where
  "parse_socket_ip s =
     (case read_ipv4 s of
        Some (bs, t) \<Rightarrow>
          (case read_port t of Some (_, []) \<Rightarrow> Some (V4 (from_be 8 bs)) | _ \<Rightarrow> None)
      | None \<Rightarrow>
          (case read_char (CHR ''['') s of None \<Rightarrow> None | Some t \<Rightarrow>
           (case read_ipv6 t of None \<Rightarrow> None | Some (gs, t) \<Rightarrow>
            (case read_char (CHR '']'') (read_scope_id t) of None \<Rightarrow> None | Some t \<Rightarrow>
             (case read_port t of Some (_, []) \<Rightarrow> Some (V6 (from_be 16 gs)) | _ \<Rightarrow> None)))))"

section \<open>An IPv4 address, written and read back\<close>

definition octets :: "32 word \<Rightarrow> nat list" where
  "octets w = (let n = unat w in [n div 16777216, n div 65536 mod 256, n div 256 mod 256, n mod 256])"

definition show_ipv4 :: "32 word \<Rightarrow> string" where
  "show_ipv4 w = join_with ''.'' (map show_nat (octets w))"

lemma hex_digit_10: "hex_digit 10 (char_of (48 + d :: nat)) = (if d < 10 then Some d else None)" if "d < 200"
  using that by (auto simp: hex_digit_def Let_def)

lemma hex_digit_dot: "hex_digit radix (CHR ''.'') = None"
  by (simp add: hex_digit_def)

lemma read_digits_append:
  "read_digits r s c v = (c', v', []) \<Longrightarrow> (t = [] \<or> hex_digit r (hd t) = None) \<Longrightarrow> read_digits r (s @ t) c v = (c', v', t)"
  by (induction s arbitrary: c v; cases t) (auto split: option.splits)

lemma digit_not_zero: "0 < d \<Longrightarrow> d < 10 \<Longrightarrow> char_of (48 + d :: nat) \<noteq> CHR ''0''"
proof
  assume "0 < d" "d < 10" "char_of (48 + d) = CHR ''0''"
  then have "(of_char (char_of (48 + d)) :: nat) = 48" by simp
  with \<open>0 < d\<close> \<open>d < 10\<close> show False by (simp only: of_char_digit)
qed

text \<open>A byte, written and read back.\<close>

lemma show_byte:
  assumes "n < 256"
  shows "read_digits 10 (show_nat n) 0 0 = (length (show_nat n), n, []) \<and> length (show_nat n) \<le> 3 \<and> show_nat n \<noteq> []
   \<and> (1 < length (show_nat n) \<longrightarrow> hd (show_nat n) \<noteq> CHR ''0'')"
proof -
  have a: "show_nat d = [char_of (48 + d)]" if "d < 10" for d using that by (subst show_nat.simps) simp
  have b: "show_nat d = show_nat (d div 10) @ [char_of (48 + d mod 10)]" if "10 \<le> d" for d using that by (subst show_nat.simps) simp
  consider "n < 10" | "10 \<le> n" "n < 100" | "100 \<le> n" using assms by linarith
  then show ?thesis
  proof cases
    case 1
    then show ?thesis by (simp add: a hex_digit_10)
  next
    case 2
    then have "n div 10 < 10" "0 < n div 10" by auto
    with 2 show ?thesis using digit_not_zero [of "n div 10"] by (simp add: a b hex_digit_10 split: option.split)
  next
    case 3
    then have d: "n div 10 div 10 < 10" "0 < n div 10 div 10" "10 \<le> n div 10" "10 \<le> n" using assms by auto
    have s: "show_nat n = [char_of (48 + n div 10 div 10), char_of (48 + n div 10 mod 10), char_of (48 + n mod 10)]"
      using d by (simp only: b [of n] b [of "n div 10"] a append.simps)
    have "(n div 10 div 10 * 10 + n div 10 mod 10) * 10 + n mod 10 = n" by simp
    then show ?thesis using d digit_not_zero [of "n div 10 div 10"] unfolding s by (simp add: hex_digit_10 del: div_mult_mod_eq)
  qed
qed

lemma read_byte:
  assumes "n < 256" "t = [] \<or> hex_digit 10 (hd t) = None"
  shows "read_number 10 (Some 3) False 256 (show_nat n @ t) = Some (n, t)"
proof -
  note b = show_byte [OF assms(1)]
  have "read_digits 10 (show_nat n @ t) 0 0 = (length (show_nat n), n, t)"
    using read_digits_append [OF _ assms(2)] b by blast
  then show ?thesis using b assms(1) by (auto simp: read_number_def)
qed

lemma octets_bound: "b \<in> set (octets w) \<Longrightarrow> b < 256"
  using unsigned_less [of w, where 'a = nat] by (auto simp: octets_def Let_def less_mult_imp_div_less)

lemma octet_bits: "of_nat (unat w div 2 ^ k mod 256) = take_bit 8 (drop_bit k w)" for w :: "'w::len word"
proof -
  have "unat w div 2 ^ k mod 256 = unat (take_bit 8 (drop_bit k w))"
    by (simp only: unsigned_take_bit_eq unat_drop_bit_eq) (simp add: drop_bit_eq_div take_bit_eq_mod)
  then show ?thesis by simp
qed

lemma join_bits: "push_bit 8 (drop_bit (k + 8) w) OR take_bit 8 (drop_bit k w) = drop_bit k w" for w :: "'w::len word"
  by (rule bit_word_eqI) (auto simp: bit_simps)

lemma from_octets: "from_be 8 (octets w) = w"
proof -
  have "take_bit 8 (drop_bit 24 w) = drop_bit 24 w" by (rule bit_word_eqI) (auto simp: bit_simps dest: bit_imp_le_length)
  then have "of_nat (unat w div 16777216) = drop_bit 24 w"
    using octet_bits [of w 24] unsigned_less [of w, where 'a = nat] by (simp add: less_mult_imp_div_less)
  moreover have "of_nat (unat w div 65536 mod 256) = take_bit 8 (drop_bit 16 w)" using octet_bits [of w 16] by simp
  moreover have "of_nat (unat w div 256 mod 256) = take_bit 8 (drop_bit 8 w)" using octet_bits [of w 8] by simp
  moreover have "of_nat (unat w mod 256) = take_bit 8 (drop_bit 0 w)" using octet_bits [of w 0] by simp
  ultimately show ?thesis using join_bits [of 16 w] join_bits [of 8 w] join_bits [of 0 w]
    by (simp add: from_be_def octets_def Let_def)
qed

lemma read_show_ipv4:
  assumes "t = [] \<or> hex_digit 10 (hd t) = None"
  shows "read_ipv4 (show_ipv4 w @ t) = Some (octets w, t)"
proof -
  obtain a b c d where o: "octets w = [a, b, c, d]" by (auto simp: octets_def Let_def)
  then have lt: "a < 256" "b < 256" "c < 256" "d < 256" using octets_bound [of _ w] by auto
  have four: "read_octets 4 0 s = read_octets (Suc (Suc (Suc (Suc 0)))) 0 s" for s by (simp add: numeral_eq_Suc)
  show ?thesis using assms lt
    by (simp add: read_ipv4_def four show_ipv4_def o read_byte separated_def read_char_def hex_digit_dot)
qed

lemma parse_show_ipv4: "parse_ip (show_ipv4 w) = Some (V4 w)"
  using read_show_ipv4 [of "[]" w] by (simp add: parse_ip_def read_ip_def from_octets)

end
