(* ===== verification/Destination.thy ===== *)
theory Destination
  imports Ip_Text
begin

unbundle bit_operations_syntax

text \<open>
  Where a request made for a member may go (\<open>apps/api/src/public_destination.rs\<close>), and the page an
  import reads (\<open>recipes/import.rs\<close>). The HTTP client and the DNS are third-party: one request is the
  parameter \<open>hop\<close>, which is handed the resolver and says which addresses it connected to.
\<close>

section \<open>Public addresses\<close>

definition ipv4 :: "nat \<Rightarrow> nat \<Rightarrow> nat \<Rightarrow> nat \<Rightarrow> 32 word" where
  "ipv4 a b c d = from_be 8 [a, b, c, d]"

definition NON_PUBLIC_V4 :: "(32 word \<times> nat) list" where
  "NON_PUBLIC_V4 =
    [(ipv4 0 0 0 0, 8), (ipv4 10 0 0 0, 8), (ipv4 100 64 0 0, 10), (ipv4 127 0 0 0, 8), (ipv4 169 254 0 0, 16),
     (ipv4 172 16 0 0, 12), (ipv4 192 0 0 0, 24), (ipv4 192 0 2 0, 24), (ipv4 192 168 0 0, 16), (ipv4 198 18 0 0, 15),
     (ipv4 198 51 100 0, 24), (ipv4 203 0 113 0, 24), (ipv4 224 0 0 0, 4), (ipv4 240 0 0 0, 4)]"

definition is_public_v4 :: "32 word \<Rightarrow> bool" where
  "is_public_v4 ip \<longleftrightarrow>
     \<not> list_ex (\<lambda>(net, len). let m = push_bit (32 - len) (- 1) in ip AND m = net AND m) NON_PUBLIC_V4"

text \<open>\<open>Ipv6Addr::segments\<close>: eight groups of sixteen bits, the first the most significant.\<close>

definition segment :: "nat \<Rightarrow> 128 word \<Rightarrow> 16 word" where
  "segment i w = ucast (drop_bit (112 - 16 * i) w)"

definition embedded :: "16 word \<Rightarrow> 16 word \<Rightarrow> 32 word" where
  "embedded hi lo = push_bit 16 (ucast hi) OR ucast lo"

definition is_public_v6 :: "128 word \<Rightarrow> bool" where
  "is_public_v6 ip =
     (case to_ipv4_mapped ip of
        Some v4 \<Rightarrow> is_public_v4 v4
      | None \<Rightarrow>
          let s = (\<lambda>i. segment i ip)
          in if s 0 = 0x64 \<and> s 1 = 0xff9b \<and> map s [2..<6] = [0, 0, 0, 0] then is_public_v4 (embedded (s 6) (s 7))
             else if s 0 = 0x2002 then is_public_v4 (embedded (s 1) (s 2))
             else let global_unicast = s 0 AND 0xe000 = 0x2000;
                      documentation = (s 0 = 0x2001 \<and> s 1 = 0x0db8) \<or> (s 0 = 0x3fff \<and> s 1 < 0x1000);
                      protocol_assignments = s 0 = 0x2001 \<and> s 1 < 0x0200
                  in global_unicast \<and> \<not> documentation \<and> \<not> protocol_assignments)"

fun is_public_ip :: "ip_addr \<Rightarrow> bool" where
  "is_public_ip (V4 v4) = is_public_v4 v4"
| "is_public_ip (V6 v6) = is_public_v6 v6"

section \<open>Networks as intervals\<close>

text \<open>A mask compares the leading bits: the quotients by the size of the network.\<close>

lemma mask_eq_iff:
  fixes a b :: "'w::len word"
  shows "a AND push_bit k (- 1) = b AND push_bit k (- 1) \<longleftrightarrow> drop_bit k a = drop_bit k b"
proof
  assume "a AND push_bit k (- 1) = b AND push_bit k (- 1)"
  then have "drop_bit k (a AND push_bit k (- 1)) = drop_bit k (b AND push_bit k (- 1))" by simp
  moreover have "drop_bit k (c AND push_bit k (- 1)) = drop_bit k c" for c :: "'w word"
    by (rule bit_word_eqI) (auto simp: bit_simps dest: bit_imp_le_length)
  ultimately show "drop_bit k a = drop_bit k b" by simp
next
  assume d: "drop_bit k a = drop_bit k b"
  show "a AND push_bit k (- 1) = b AND push_bit k (- 1)"
  proof (rule bit_word_eqI)
    fix n
    have "bit a n = bit b n" if "k \<le> n"
      using arg_cong [OF d, where f = "\<lambda>w. bit w (n - k)"] that by (simp add: bit_simps)
    then show "bit (a AND push_bit k (- 1)) n = bit (b AND push_bit k (- 1)) n" by (auto simp: bit_simps)
  qed
qed

lemma drop_bit_eq_iff: "drop_bit k a = b \<longleftrightarrow> unat a div 2 ^ k = unat b" for a b :: "'w::len word"
  by (metis unat_drop_bit_eq drop_bit_eq_div word_unat_eq_iff)

lemma public_v4_quotients: "is_public_v4 w \<longleftrightarrow>
    unat w div 2 ^ 24 \<noteq> 0 \<and> unat w div 2 ^ 24 \<noteq> 10 \<and> unat w div 2 ^ 22 \<noteq> 401 \<and> unat w div 2 ^ 24 \<noteq> 127 \<and>
    unat w div 2 ^ 16 \<noteq> 43518 \<and> unat w div 2 ^ 20 \<noteq> 2753 \<and> unat w div 2 ^ 8 \<noteq> 12582912 \<and> unat w div 2 ^ 8 \<noteq> 12582914 \<and>
    unat w div 2 ^ 16 \<noteq> 49320 \<and> unat w div 2 ^ 17 \<noteq> 25353 \<and> unat w div 2 ^ 8 \<noteq> 12989284 \<and> unat w div 2 ^ 8 \<noteq> 13303921 \<and>
    unat w div 2 ^ 28 \<noteq> 14 \<and> unat w div 2 ^ 28 \<noteq> 15"
  unfolding is_public_v4_def Let_def mask_eq_iff drop_bit_eq_iff NON_PUBLIC_V4_def ipv4_def from_be_def
  by simp

text \<open>The octets of an address, and its quotients.\<close>

lemma quotients_of_octets:
  assumes "octets w = [a, b, c, d]"
  shows "unat w div 2 ^ 24 = a" "unat w div 2 ^ 16 = a * 256 + b" "unat w div 2 ^ 8 = (a * 256 + b) * 256 + c"
    "unat w div 2 ^ 28 = a div 16" "unat w div 2 ^ 22 = a * 4 + b div 64" "unat w div 2 ^ 20 = a * 16 + b div 16"
    "unat w div 2 ^ 17 = a * 128 + b div 2" "a < 256" "b < 256" "c < 256"
proof -
  have o: "a = unat w div 16777216" "b = unat w div 65536 mod 256" "c = unat w div 256 mod 256"
    using assms by (auto simp: octets_def Let_def)
  show "a < 256" "b < 256" "c < 256" using octets_bound [of _ w] assms by auto
  have q: "unat w div 65536 div 256 = a" "unat w div 256 div 256 = unat w div 65536" by (simp_all add: o div_mult2_eq [symmetric])
  show 16: "unat w div 2 ^ 16 = a * 256 + b" using div_mult_mod_eq [of "unat w div 65536" 256] q(1) o(2) by simp
  show "unat w div 2 ^ 8 = (a * 256 + b) * 256 + c" using div_mult_mod_eq [of "unat w div 256" 256] q(2) o(3) 16 by simp
  show "unat w div 2 ^ 24 = a" by (simp add: o)
  have ar: "(a * 256 + b) div 64 = a * 4 + b div 64" "(a * 256 + b) div 16 = a * 16 + b div 16"
    "(a * 256 + b) div 2 = a * 128 + b div 2" by presburger+
  have "unat w div 2 ^ 28 = unat w div 2 ^ 24 div 16" "unat w div 2 ^ 22 = unat w div 2 ^ 16 div 64"
    "unat w div 2 ^ 20 = unat w div 2 ^ 16 div 16" "unat w div 2 ^ 17 = unat w div 2 ^ 16 div 2"
    by (simp_all add: div_mult2_eq [symmetric])
  then show "unat w div 2 ^ 28 = a div 16" "unat w div 2 ^ 22 = a * 4 + b div 64" "unat w div 2 ^ 20 = a * 16 + b div 16"
    "unat w div 2 ^ 17 = a * 128 + b div 2" unfolding 16 ar \<open>unat w div 2 ^ 24 = a\<close> by simp_all
qed

section \<open>IPv6\<close>

lemma unat_segment: "unat (segment i w) = unat w div 2 ^ (112 - 16 * i) mod 65536"
proof -
  have "unat (segment i w) = take_bit 16 (drop_bit (112 - 16 * i) (unat w))"
    by (simp only: segment_def unsigned_ucast_eq unat_drop_bit_eq) simp
  then show ?thesis by (simp add: drop_bit_eq_div take_bit_eq_mod)
qed

lemma segment_iff: "segment i w = x \<longleftrightarrow> unat w div 2 ^ (112 - 16 * i) mod 65536 = unat x"
  by (metis unat_segment word_unat_eq_iff)

lemma embedded_segments: "embedded (segment 6 w) (segment 7 w) = ucast w" "embedded (segment 1 w) (segment 2 w) = ucast (drop_bit 80 w)"
  unfolding embedded_def segment_def by (rule bit_word_eqI, auto simp: bit_simps)+

lemma segments_of_quotient:
  "unat w div 2 ^ 112 mod 65536 = unat w div 2 ^ 112"
  "unat w div 2 ^ 96 = unat w div 2 ^ 112 * 65536 + unat w div 2 ^ 96 mod 65536"
  for w :: "128 word"
proof -
  have "unat w < 2 ^ 128" using unsigned_less [of w, where 'a = nat] by simp
  then have "unat w div 2 ^ 112 < 65536" by (simp add: less_mult_imp_div_less)
  then show "unat w div 2 ^ 112 mod 65536 = unat w div 2 ^ 112" by simp
  have "unat w div 2 ^ 112 = unat w div 2 ^ 96 div 65536" by (simp add: div_mult2_eq [symmetric])
  then show "unat w div 2 ^ 96 = unat w div 2 ^ 112 * 65536 + unat w div 2 ^ 96 mod 65536"
    using div_mult_mod_eq [of "unat w div 2 ^ 96" 65536] by simp
qed

text \<open>An IPv4 address carried in an IPv6 one: mapped, NAT64, 6to4.\<close>

definition carried_v4 :: "128 word \<Rightarrow> 32 word option" where
  "carried_v4 w =
     (if unat w div 2 ^ 32 = 0xFFFF \<or> unat w div 2 ^ 32 = 0x64FF9B * 2 ^ 64 then Some (ucast w)
      else if unat w div 2 ^ 112 = 0x2002 then Some (ucast (drop_bit 80 w)) else None)"

lemma split_16: "x = v \<longleftrightarrow> x div 65536 = v div 65536 \<and> x mod 65536 = v mod 65536" for x v :: nat
  by (metis div_mult_mod_eq)

lemma nat64_prefix:
  "segment 0 w = 0x64 \<and> segment 1 w = 0xff9b \<and> map (\<lambda>i. segment i w) [2..<6] = [0, 0, 0, 0] \<longleftrightarrow>
   unat w div 2 ^ 32 = 0x64FF9B * 2 ^ 64"
proof -
  define q where "q k = unat w div 2 ^ (16 * k)" for k
  have d: "q k div 65536 = q (Suc k)" for k by (simp add: q_def div_mult2_eq [symmetric] power_add mult.commute)
  have s: "segment 0 w = x \<longleftrightarrow> q 7 mod 65536 = unat x" "segment 1 w = x \<longleftrightarrow> q 6 mod 65536 = unat x" "segment 2 w = x \<longleftrightarrow> q 5 mod 65536 = unat x"
    "segment 3 w = x \<longleftrightarrow> q 4 mod 65536 = unat x" "segment 4 w = x \<longleftrightarrow> q 3 mod 65536 = unat x" "segment 5 w = x \<longleftrightarrow> q 2 mod 65536 = unat x" for x
    by (simp_all add: segment_iff q_def)
  have q7: "q 7 mod 65536 = q 7" using segments_of_quotient(1) [of w] by (simp add: q_def)
  have list: "map (\<lambda>i. segment i w) [2..<6] = [segment 2 w, segment 3 w, segment 4 w, segment 5 w]" by (simp add: upt_rec)
  have c: "q 2 = 0x64FF9B * 2 ^ 64 \<longleftrightarrow> q 3 = 0x64FF9B * 2 ^ 48 \<and> q 2 mod 65536 = 0"
    "q 3 = 0x64FF9B * 2 ^ 48 \<longleftrightarrow> q 4 = 0x64FF9B * 2 ^ 32 \<and> q 3 mod 65536 = 0"
    "q 4 = 0x64FF9B * 2 ^ 32 \<longleftrightarrow> q 5 = 0x64FF9B * 2 ^ 16 \<and> q 4 mod 65536 = 0"
    "q 5 = 0x64FF9B * 2 ^ 16 \<longleftrightarrow> q 6 = 0x64FF9B \<and> q 5 mod 65536 = 0"
    "q 6 = 0x64FF9B \<longleftrightarrow> q 7 = 0x64 \<and> q 6 mod 65536 = 0xFF9B"
    using split_16 [of "q 2" "0x64FF9B * 2 ^ 64"] split_16 [of "q 3" "0x64FF9B * 2 ^ 48"] split_16 [of "q 4" "0x64FF9B * 2 ^ 32"]
      split_16 [of "q 5" "0x64FF9B * 2 ^ 16"] split_16 [of "q 6" "0x64FF9B"] d [of 2] d [of 3] d [of 4] d [of 5] d [of 6] by simp_all
  have u: "unat w div 2 ^ 32 = q 2" by (simp add: q_def)
  show ?thesis unfolding u list s list.inject c q7 by auto
qed

lemma mapped_prefix: "to_ipv4_mapped w = (if unat w div 2 ^ 32 = 0xFFFF then Some (ucast w) else None)"
  by (simp add: to_ipv4_mapped_def drop_bit_eq_iff)

lemma first_segment: "segment 0 w = x \<longleftrightarrow> unat w div 2 ^ 112 = unat x"
  using segments_of_quotient(1) [of w] by (simp add: segment_iff)

lemma first_two_segments:
  "unat w div 2 ^ 112 = x \<and> unat w div 2 ^ 96 mod 65536 = y \<longleftrightarrow> unat w div 2 ^ 96 = x * 65536 + y" if "y < 65536" for w :: "128 word"
  using segments_of_quotient(2) [of w] that by auto

lemma under_first_segment:
  fixes w :: "128 word"
  assumes "k < 16"
  shows "unat w div 2 ^ 112 = x \<and> unat w div 2 ^ 96 mod 65536 < 2 ^ k \<longleftrightarrow> unat w div 2 ^ (96 + k) = x * 2 ^ (16 - k)"
proof -
  let ?n = "unat w div 2 ^ 96"
  have "?n div 2 ^ k = unat w div 2 ^ (96 + k)" by (simp add: div_mult2_eq [symmetric] power_add)
  moreover have "unat w div 2 ^ 112 = ?n div 65536" by (simp add: div_mult2_eq [symmetric])
  moreover have "n div 65536 = x \<and> n mod 65536 < 2 ^ k \<longleftrightarrow> n div 2 ^ k = x * 2 ^ (16 - k)" for n :: nat
  proof -
    have p: "(65536 :: nat) = 2 ^ k * 2 ^ (16 - k)" using assms by (simp add: power_add [symmetric])
    have "n mod 65536 < 2 ^ k \<longleftrightarrow> n div 2 ^ k mod 2 ^ (16 - k) = 0"
    proof -
      have "n mod 65536 div 2 ^ k = n div 2 ^ k mod 2 ^ (16 - k)" unfolding p by (simp add: mod_mult2_eq)
      then show ?thesis by (metis div_eq_0_iff zero_neq_numeral power_eq_0_iff)
    qed
    moreover have "n div 65536 = n div 2 ^ k div 2 ^ (16 - k)" unfolding p by (simp add: div_mult2_eq)
    ultimately show ?thesis by (metis add_0_right div_mult_mod_eq mod_mult_self2_is_0 nonzero_mult_div_cancel_right power_not_zero zero_neq_numeral)
  qed
  ultimately show ?thesis by simp
qed

lemma carried_case:
  "(case (if m then Some a else None) of None \<Rightarrow> (if n then p a else if t then p b else z) | Some x \<Rightarrow> p x) \<longleftrightarrow>
   (case (if m \<or> n then Some a else if t then Some b else None) of None \<Rightarrow> z | Some x \<Rightarrow> p x)"
  by auto

lemma quot_iff: "0 < m \<Longrightarrow> n div m = k \<longleftrightarrow> k * m \<le> n \<and> n < Suc k * m" for n m k :: nat
proof -
  assume m: "0 < m"
  have "n div m = k \<longleftrightarrow> k \<le> n div m \<and> n div m < Suc k" by auto
  also have "\<dots> \<longleftrightarrow> k * m \<le> n \<and> n < Suc k * m" by (simp only: less_eq_div_iff_mult_less_eq [OF m] div_less_iff_less_mult [OF m])
  finally show ?thesis .
qed

lemma digit_split: "c < m \<Longrightarrow> x * m + c = v \<longleftrightarrow> x = v div m \<and> c = v mod m" for x c v m :: nat
  by auto

text \<open>The networks of the table, by octets.\<close>

lemma public_v4_octets:
  assumes "octets v = [a, b, c, d]"
  shows "is_public_v4 v \<longleftrightarrow>
      \<not> (a = 0 \<or> a = 10 \<or> a = 127 \<or> 224 \<le> a \<or> (a = 100 \<and> 64 \<le> b \<and> b < 128) \<or> (a = 169 \<and> b = 254)
         \<or> (a = 172 \<and> 16 \<le> b \<and> b < 32) \<or> (a = 192 \<and> b = 168) \<or> (a = 192 \<and> b = 0 \<and> (c = 0 \<or> c = 2))
         \<or> (a = 198 \<and> (b = 18 \<or> b = 19)) \<or> (a = 198 \<and> b = 51 \<and> c = 100) \<or> (a = 203 \<and> b = 0 \<and> c = 113))"
proof -
  note q = quotients_of_octets [OF assms]
  have e1: "a div 16 \<noteq> 14 \<and> a div 16 \<noteq> 15 \<longleftrightarrow> \<not> 224 \<le> a" using q(8) by (auto simp: quot_iff)
  have small: "b div 64 < 4" "b div 16 < 16" "b div 2 < 128" using q(9) by (simp_all add: less_mult_imp_div_less)
  have e2: "a * 4 + b div 64 = 401 \<longleftrightarrow> a = 100 \<and> b div 64 = 1" using small(1) by (simp add: digit_split)
  have e3: "b div 64 = 1 \<longleftrightarrow> 64 \<le> b \<and> b < 128" by (auto simp: quot_iff)
  have e4: "a * 256 + b = 43518 \<longleftrightarrow> a = 169 \<and> b = 254" "a * 256 + b = 49320 \<longleftrightarrow> a = 192 \<and> b = 168" using q(9) by (simp_all add: digit_split)
  have e5: "a * 16 + b div 16 = 2753 \<longleftrightarrow> a = 172 \<and> b div 16 = 1" using small(2) by (simp add: digit_split)
  have e6: "b div 16 = 1 \<longleftrightarrow> 16 \<le> b \<and> b < 32" by (auto simp: quot_iff)
  have e7: "a * 128 + b div 2 = 25353 \<longleftrightarrow> a = 198 \<and> b div 2 = 9" using small(3) by (simp add: digit_split)
  have e8: "b div 2 = 9 \<longleftrightarrow> b = 18 \<or> b = 19" by (auto simp: quot_iff)
  have e9: "(a * 256 + b) * 256 + c = 12582912 \<longleftrightarrow> a = 192 \<and> b = 0 \<and> c = 0" "(a * 256 + b) * 256 + c = 12582914 \<longleftrightarrow> a = 192 \<and> b = 0 \<and> c = 2"
    "(a * 256 + b) * 256 + c = 12989284 \<longleftrightarrow> a = 198 \<and> b = 51 \<and> c = 100" "(a * 256 + b) * 256 + c = 13303921 \<longleftrightarrow> a = 203 \<and> b = 0 \<and> c = 113"
    unfolding digit_split [OF q(10)] digit_split [OF q(9)] by auto
  show ?thesis
    unfolding public_v4_quotients q(1-7) e1 e2 e3 e4 e5 e6 e7 e8 e9 by argo
qed

text \<open>
  C27. Which addresses are public. An IPv4 one outside the private, shared, loopback, link-local,
  documentation, benchmark, protocol, multicast and reserved ranges, spelled here by octets; an
  IPv6 one that carries an IPv4 address exactly when that one is, and another exactly when it is a
  global unicast one outside the ranges of documentation and protocol assignments.
\<close>

theorem public_addresses:
  assumes "octets v = [a, b, c, d]"
  shows "(is_public_ip (V4 v) \<longleftrightarrow>
      \<not> (a = 0 \<or> a = 10 \<or> a = 127 \<or> 224 \<le> a \<or> (a = 100 \<and> 64 \<le> b \<and> b < 128) \<or> (a = 169 \<and> b = 254)
         \<or> (a = 172 \<and> 16 \<le> b \<and> b < 32) \<or> (a = 192 \<and> b = 168) \<or> (a = 192 \<and> b = 0 \<and> (c = 0 \<or> c = 2))
         \<or> (a = 198 \<and> (b = 18 \<or> b = 19)) \<or> (a = 198 \<and> b = 51 \<and> c = 100) \<or> (a = 203 \<and> b = 0 \<and> c = 113)))
    \<and> (is_public_ip (V6 w) \<longleftrightarrow>
      (case carried_v4 w of
         Some x \<Rightarrow> is_public_ip (V4 x)
       | None \<Rightarrow> unat w div 2 ^ 125 = 1 \<and> unat w div 2 ^ 96 \<noteq> 0x20010DB8 \<and> unat w div 2 ^ 108 \<noteq> 0x3FFF0
           \<and> unat w div 2 ^ 105 \<noteq> 0x2001 * 2 ^ 7))"
proof
  show "is_public_ip (V4 v) \<longleftrightarrow>
      \<not> (a = 0 \<or> a = 10 \<or> a = 127 \<or> 224 \<le> a \<or> (a = 100 \<and> 64 \<le> b \<and> b < 128) \<or> (a = 169 \<and> b = 254)
         \<or> (a = 172 \<and> 16 \<le> b \<and> b < 32) \<or> (a = 192 \<and> b = 168) \<or> (a = 192 \<and> b = 0 \<and> (c = 0 \<or> c = 2))
         \<or> (a = 198 \<and> (b = 18 \<or> b = 19)) \<or> (a = 198 \<and> b = 51 \<and> c = 100) \<or> (a = 203 \<and> b = 0 \<and> c = 113))"
    unfolding is_public_ip.simps by (rule public_v4_octets [OF assms])
next
  have g: "segment 0 w AND 0xe000 = 0x2000 \<longleftrightarrow> unat w div 2 ^ 125 = 1"
  proof -
    have "(0xe000 :: 16 word) = push_bit 13 (- 1)" "(0x2000 :: 16 word) = 0x2000 AND push_bit 13 (- 1)" by code_simp+
    then have "segment 0 w AND 0xe000 = 0x2000 \<longleftrightarrow> drop_bit 13 (segment 0 w) = drop_bit 13 0x2000" by (metis mask_eq_iff)
    also have "\<dots> \<longleftrightarrow> unat w div 2 ^ 125 = 1"
      using segments_of_quotient(1) [of w] by (simp add: drop_bit_eq_iff unat_segment div_mult2_eq [symmetric])
    finally show ?thesis .
  qed
  have e: "segment 0 w = 0x64 \<and> segment 1 w = 0xff9b \<and> map (\<lambda>i. segment i w) [2..<6] = [0, 0, 0, 0] \<longleftrightarrow> unat w div 2 ^ 32 = 0x64FF9B * 2 ^ 64"
    by (rule nat64_prefix)
  have s1: "segment 1 w = x \<longleftrightarrow> unat w div 2 ^ 96 mod 65536 = unat x" "segment 1 w < x \<longleftrightarrow> unat w div 2 ^ 96 mod 65536 < unat x" for x
    by (simp_all add: segment_iff word_less_nat_alt unat_segment)
  have d1: "segment 0 w = 0x2001 \<and> segment 1 w = 0x0db8 \<longleftrightarrow> unat w div 2 ^ 96 = 0x20010DB8"
    using first_two_segments [where w = w and x = "0x2001" and y = "0x0db8"] unfolding first_segment s1 by simp
  have d2: "segment 0 w = 0x3fff \<and> segment 1 w < 0x1000 \<longleftrightarrow> unat w div 2 ^ 108 = 0x3FFF0"
    using under_first_segment [where k = 12 and w = w and x = "0x3fff"] unfolding first_segment s1 by simp
  have d3: "segment 0 w = 0x2001 \<and> segment 1 w < 0x0200 \<longleftrightarrow> unat w div 2 ^ 105 = 0x2001 * 2 ^ 7"
    using under_first_segment [where k = 9 and w = w and x = "0x2001"] unfolding first_segment s1 by simp
  show "is_public_ip (V6 w) \<longleftrightarrow> (case carried_v4 w of
         Some x \<Rightarrow> is_public_ip (V4 x)
       | None \<Rightarrow> unat w div 2 ^ 125 = 1 \<and> unat w div 2 ^ 96 \<noteq> 0x20010DB8 \<and> unat w div 2 ^ 108 \<noteq> 0x3FFF0
           \<and> unat w div 2 ^ 105 \<noteq> 0x2001 * 2 ^ 7)"
    unfolding is_public_ip.simps is_public_v6_def mapped_prefix carried_v4_def Let_def e g d1 d2 d3 carried_case
    unfolding embedded_segments first_segment carried_case by simp
qed

text \<open>The metadata service of a cloud, by its own address and inside IPv6 ones; a public resolver.\<close>

lemma public_addresses_witness:
  "\<not> is_public_ip (V4 (ipv4 169 254 169 254)) \<and> is_public_ip (V4 (ipv4 8 8 8 8)) \<and>
   (is_public_ip (V6 0x64FF9B0000000000000000A9FEA9FE) \<longleftrightarrow> is_public_ip (V4 (ipv4 169 254 169 254)))"
proof -
  have o: "octets (ipv4 169 254 169 254) = [169, 254, 169, 254]" "octets (ipv4 8 8 8 8) = [8, 8, 8, 8]" by (simp_all add: octets_def Let_def ipv4_def from_be_def)
  have c: "carried_v4 0x64FF9B0000000000000000A9FEA9FE = Some (ipv4 169 254 169 254)" by (simp add: carried_v4_def ipv4_def from_be_def)
  have "is_public_ip (V6 0x64FF9B0000000000000000A9FEA9FE) \<longleftrightarrow> is_public_ip (V4 (ipv4 169 254 169 254))"
    using public_addresses [OF o(1), of "0x64FF9B0000000000000000A9FEA9FE"] unfolding c by simp
  then show ?thesis using public_addresses [OF o(1)] public_addresses [OF o(2)] by simp
qed

end
