(* ===== verification/Recipe_Import.thy ===== *)
theory Recipe_Import
  imports Destination Rate_Limit
begin

text \<open>
  The page a recipe is imported from: the guards of \<open>apps/api/src/public_destination.rs\<close> on the
  client that fetches it, and \<open>recipes/import.rs\<close> (the address a member gives, the page read, the
  handler). URLs, the DNS and the HTTP client are third-party: records of functions (\<open>url_lib\<close>,
  \<open>system_lookup\<close>, \<open>http_send\<close>), with what their documentation says of them in \<open>url_ok\<close> and \<open>send_ok\<close>.
\<close>

section \<open>Where a request may go\<close>

definition MAX_REDIRECTS :: nat where
  "MAX_REDIRECTS = 5"

datatype refusal = Scheme_refused | Destination_refused | TooManyRedirects

text \<open>What the code reads of a \<open>reqwest::Url\<close>.\<close>

record 'u url_lib =
  url_parse :: "string \<Rightarrow> 'u option"
  scheme_of :: "'u \<Rightarrow> string"
  host_str :: "'u \<Rightarrow> string option"
  query_of :: "'u \<Rightarrow> string option"
  set_query :: "'u \<Rightarrow> string option \<Rightarrow> 'u"
  as_str :: "'u \<Rightarrow> string"

text \<open>\<open>host.trim_start_matches('[').trim_end_matches(']')\<close>.\<close>

definition trim_brackets :: "string \<Rightarrow> string" where
  "trim_brackets h = rev (dropWhile (\<lambda>c. c = CHR '']'') (rev (dropWhile (\<lambda>c. c = CHR ''['') h)))"

definition is_web :: "string \<Rightarrow> bool" where
  "is_web s \<longleftrightarrow> s = ''http'' \<or> s = ''https''"

definition check_url :: "('u, 'z) url_lib_scheme \<Rightarrow> 'u \<Rightarrow> refusal + unit" where
  "check_url l url =
     (if \<not> is_web (scheme_of l url) then Inl Scheme_refused
      else case host_str l url of
             None \<Rightarrow> Inl Destination_refused
           | Some host \<Rightarrow>
               if host = '''' then Inl Destination_refused
               else case parse_ip (trim_brackets host) of
                      Some ip \<Rightarrow> if \<not> is_public_ip ip then Inl Destination_refused else Inr ()
                    | None \<Rightarrow> Inr ())"

text \<open>
  \<open>PublicOnlyResolver\<close>. The system's resolver answers with addresses or fails; each lookup may
  give another answer.
\<close>

datatype 'e dns_error = Lookup_failed 'e | Only_private refusal

definition public_only_resolve :: "(string \<Rightarrow> 'e + ip_addr list) \<Rightarrow> string \<Rightarrow> 'e dns_error + ip_addr list" where
  "public_only_resolve lookup_host name =
     (case lookup_host name of
        Inl e \<Rightarrow> Inl (Lookup_failed e)
      | Inr resolved \<Rightarrow>
          let public = filter is_public_ip resolved
          in if public = [] then Inl (Only_private Destination_refused) else Inr public)"

text \<open>\<open>redirect_policy\<close>: what it answers to an attempt, given the URLs already requested.\<close>

datatype redirect_action = Follow | Redirect_error refusal

definition redirect_policy :: "('u, 'z) url_lib_scheme \<Rightarrow> 'u list \<Rightarrow> 'u \<Rightarrow> redirect_action" where
  "redirect_policy l previous url =
     (if length previous > MAX_REDIRECTS then Redirect_error TooManyRedirects
      else case check_url l url of Inr _ \<Rightarrow> Follow | Inl refused \<Rightarrow> Redirect_error refused)"

text \<open>\<open>refusal_in\<close>: an error is the chain of its sources, \<open>Some\<close> where one is a refusal.\<close>

fun refusal_in :: "refusal option list \<Rightarrow> refusal option" where
  "refusal_in [] = None"
| "refusal_in (e # source) = (case e of Some refused \<Rightarrow> Some refused | None \<Rightarrow> refusal_in source)"

section \<open>The address a member gives\<close>

datatype import_failure =
  InvalidUrl | SchemeRefused | DestinationRefused | Timeout | Unreachable | NotHtml | TooLarge_page | NoRecipe

fun failure_code :: "import_failure \<Rightarrow> string" where
  "failure_code InvalidUrl = ''url_invalid''"
| "failure_code SchemeRefused = ''url_scheme_refused''"
| "failure_code DestinationRefused = ''url_destination_refused''"
| "failure_code Timeout = ''source_timeout''"
| "failure_code Unreachable = ''source_unreachable''"
| "failure_code NotHtml = ''source_not_html''"
| "failure_code TooLarge_page = ''source_too_large''"
| "failure_code NoRecipe = ''no_recipe_found''"

fun refused :: "refusal \<Rightarrow> import_failure" where
  "refused Scheme_refused = SchemeRefused"
| "refused Destination_refused = DestinationRefused"
| "refused TooManyRedirects = Unreachable"

definition SOURCE_URL_MAX_LEN :: nat where
  "SOURCE_URL_MAX_LEN = 2048"

text \<open>A URL as serialised is ASCII: its characters are its bytes.\<close>

definition valid_source_url :: "('u, 'z) url_lib_scheme \<Rightarrow> string \<Rightarrow> string option" where
  "valid_source_url l source_url =
     (let source_url = ascii_trim source_url
      in if length source_url > SOURCE_URL_MAX_LEN then None
         else case url_parse l source_url of None \<Rightarrow> None | Some parsed \<Rightarrow>
                let web = is_web (scheme_of l parsed) \<and> (case host_str l parsed of Some h \<Rightarrow> h \<noteq> '''' | None \<Rightarrow> False)
                in if web then Some source_url else None)"

definition import_url :: "('u, 'z) url_lib_scheme \<Rightarrow> string \<Rightarrow> import_failure + 'u" where
  "import_url l raw =
     (case url_parse l (ascii_trim raw) of None \<Rightarrow> Inl InvalidUrl | Some url \<Rightarrow>
      case check_url l url of Inl r \<Rightarrow> Inl (refused r) | Inr _ \<Rightarrow>
      case valid_source_url l (as_str l url) of None \<Rightarrow> Inl InvalidUrl | Some _ \<Rightarrow> Inr url)"

text \<open>\<open>without_tracking\<close>.\<close>

definition tracking :: "string \<Rightarrow> bool" where
  "tracking pair \<longleftrightarrow>
     (let name = to_ascii_lowercase (hd (split_on (CHR ''='') pair))
      in starts_with ''utm_'' name \<or> name = ''fbclid'' \<or> name = ''gclid'')"

definition without_tracking :: "('u, 'z) url_lib_scheme \<Rightarrow> 'u \<Rightarrow> 'u" where
  "without_tracking l url =
     (case query_of l url of
        None \<Rightarrow> url
      | Some query \<Rightarrow>
          if query = '''' then url
          else let kept = filter (\<lambda>p. \<not> tracking p) (split_on (CHR ''&'') query)
               in set_query l url (if kept \<noteq> [] then Some (join_with ''&'' kept) else None))"

section \<open>Reading the page\<close>

definition MAX_PAGE_BYTES :: nat where
  "MAX_PAGE_BYTES = 3 * 1024 * 1024"

record send_error =
  sources :: "refusal option list"
  is_timeout :: bool

definition send_failed :: "send_error \<Rightarrow> import_failure" where
  "send_failed error =
     (case refusal_in (sources error) of
        Some r \<Rightarrow> refused r
      | None \<Rightarrow> if is_timeout error then Timeout else Unreachable)"

definition is_html :: "string \<Rightarrow> bool" where
  "is_html content_type \<longleftrightarrow>
     (let essence = to_ascii_lowercase (ascii_trim (hd (split_on (CHR '';'') content_type)))
      in essence = ''text/html'' \<or> essence = ''application/xhtml+xml'')"

text \<open>A response: its body comes in chunks, and may fail at any of them.\<close>

record response =
  success :: bool
  content_type :: "string option"
  content_length :: "nat option"
  chunks :: "(send_error + nat list) list"

fun read_chunks :: "(send_error + nat list) list \<Rightarrow> nat list \<Rightarrow> import_failure + nat list" where
  "read_chunks [] page = Inr page"
| "read_chunks (Inl e # rest) page = Inl (send_failed e)"
| "read_chunks (Inr chunk # rest) page =
     (if length page + length chunk > MAX_PAGE_BYTES then Inl TooLarge_page else read_chunks rest (page @ chunk))"

text \<open>
  One \<open>send\<close> of the client: what came back, the URLs requested, in order, and each address
  connected to with the URL it was for.
\<close>

record 'u run =
  answer :: "send_error + response"
  visited :: "'u list"
  connected :: "('u \<times> ip_addr) list"

text \<open>
  \<open>recipe_import_builder\<close> gives the client its redirect policy and its resolver. The page is what
  \<open>String::from_utf8_lossy\<close> reads.
\<close>

type_synonym ('u, 'e) http_send =
  "('u list \<Rightarrow> 'u \<Rightarrow> redirect_action) \<Rightarrow> ((string \<Rightarrow> 'e + ip_addr list) \<Rightarrow> string \<Rightarrow> 'e dns_error + ip_addr list) \<Rightarrow> 'u \<Rightarrow> 'u run"

definition recipe_import_client :: "('u, 'z) url_lib_scheme \<Rightarrow> ('u, 'e) http_send \<Rightarrow> 'u \<Rightarrow> 'u run" where
  "recipe_import_client l send url = send (redirect_policy l) public_only_resolve url"

definition page_of :: "response \<Rightarrow> import_failure + nat list" where
  "page_of r =
     (if \<not> success r then Inl Unreachable
      else if \<not> (case content_type r of Some v \<Rightarrow> is_html v | None \<Rightarrow> False) then Inl NotHtml
      else if (case content_length r of Some n \<Rightarrow> n > MAX_PAGE_BYTES | None \<Rightarrow> False) then Inl TooLarge_page
      else read_chunks (chunks r) [])"

definition fetch_page :: "('u \<Rightarrow> 'u run) \<Rightarrow> 'u \<Rightarrow> import_failure + nat list" where
  "fetch_page client url = (case answer (client url) of Inl e \<Rightarrow> Inl (send_failed e) | Inr r \<Rightarrow> page_of r)"

text \<open>
  The handler: the membership, the address, the member's budget, then the page. \<open>draft_of\<close> stands
  for the readers of the page (\<open>jsonld.rs\<close>, \<open>microdata.rs\<close>, \<open>prose.rs\<close>), which see its bytes and
  the address without its tracking parameters. \<open>held\<close> are the rows another admission holds.
\<close>

definition IMPORT_RATE :: sliding_window where
  "IMPORT_RATE = \<lparr>limit = 10, window = secs (10 * 60)\<rparr>"

datatype import_error = Not_a_member | Import_failed import_failure | Too_many_imports

definition import_recipe ::
    "('u, 'z) url_lib_scheme \<Rightarrow> ('u, 'e) http_send \<Rightarrow> (nat list \<Rightarrow> string \<Rightarrow> 'r option) \<Rightarrow> (string \<times> 'b \<Rightarrow> bool) \<Rightarrow>
     bool \<Rightarrow> 'b \<Rightarrow> instant \<Rightarrow> string \<Rightarrow> (string, 'b) limit_log \<Rightarrow>
     (import_error + 'r) \<times> (string, 'b) limit_log \<times> 'u run option" where
  "import_recipe l send draft_of held is_member user now raw rows =
     (if \<not> is_member then (Inl Not_a_member, rows, None)
      else case import_url l raw of Inl e \<Rightarrow> (Inl (Import_failed e), rows, None) | Inr url \<Rightarrow>
        (let (admitted, rows) = limiter_admit held ''recipe_import'' IMPORT_RATE user now rows
         in if \<not> admitted then (Inl Too_many_imports, rows, None)
            else let client = recipe_import_client l send
                 in ((case fetch_page client url of
                        Inl e \<Rightarrow> Inl (Import_failed e)
                      | Inr page \<Rightarrow>
                          (case draft_of page (as_str l (without_tracking l url)) of
                             None \<Rightarrow> Inl (Import_failed NoRecipe)
                           | Some draft \<Rightarrow> Inr draft)),
                     rows, Some (client url))))"

section \<open>What the third-party code promises\<close>

text \<open>
  \<open>literal\<close> is the address a URL's host is, when it is one. The URL parser writes it in its
  canonical spelling, an IPv6 one between brackets.
\<close>

definition url_ok :: "('u, 'z) url_lib_scheme \<Rightarrow> ('u \<Rightarrow> ip_addr option) \<Rightarrow> bool" where
  "url_ok l literal \<longleftrightarrow>
     (\<forall>u v. literal u = Some (V4 v) \<longrightarrow> host_str l u = Some (show_ipv4 v)) \<and>
     (\<forall>u w. literal u = Some (V6 w) \<longrightarrow>
        (\<exists>t. host_str l u = Some (CHR ''['' # t @ '']'') \<and> parse_ip t = Some (V6 w) \<and> CHR ''['' \<notin> set t \<and> CHR '']'' \<notin> set t))"

text \<open>
  A client requests its URL, then the ones its policy lets it follow, and connects to a host's
  literal address or to one its resolver gave. The system's answers are \<open>lookups\<close>, one per lookup.
\<close>

definition send_ok ::
    "('u, 'z) url_lib_scheme \<Rightarrow> ('u \<Rightarrow> ip_addr option) \<Rightarrow> (nat \<Rightarrow> string \<Rightarrow> 'e + ip_addr list) \<Rightarrow> ('u, 'e) http_send \<Rightarrow> bool" where
  "send_ok l literal lookups send \<longleftrightarrow>
     (\<forall>policy resolve url. let r = send policy resolve url in
        (visited r = [] \<or> hd (visited r) = url) \<and>
        (\<forall>i. 0 < i \<longrightarrow> i < length (visited r) \<longrightarrow> policy (take i (visited r)) (visited r ! i) = Follow) \<and>
        (\<forall>u ip. (u, ip) \<in> set (connected r) \<longrightarrow> u \<in> set (visited r) \<and>
           (case literal u of
              Some a \<Rightarrow> ip = a
            | None \<Rightarrow> \<exists>t h ips. host_str l u = Some h \<and> resolve (lookups t) h = Inr ips \<and> ip \<in> set ips)))"

section \<open>Requests stay public\<close>

lemma show_nat_no: "\<not> is_digit c \<Longrightarrow> c \<notin> set (show_nat n)"
  using show_nat_digits [of n] by (auto simp: list_all_iff)

lemma no_bracket: "CHR ''['' \<notin> set (show_ipv4 v) \<and> CHR '']'' \<notin> set (show_ipv4 v) \<and> show_ipv4 v \<noteq> []"
proof -
  have "\<not> is_digit (CHR ''['')" "\<not> is_digit (CHR '']'')" by (simp_all add: is_digit_def)
  then show ?thesis by (simp add: show_ipv4_def octets_def Let_def show_nat_no)
qed

lemma dropWhile_absent: "c \<notin> set s \<Longrightarrow> dropWhile (\<lambda>x. x = c) s = s"
  by (cases s) auto

lemma trim_no_brackets: "CHR ''['' \<notin> set t \<Longrightarrow> CHR '']'' \<notin> set t \<Longrightarrow> trim_brackets t = t"
  by (simp add: trim_brackets_def dropWhile_absent)

lemma trim_brackets_around:
  assumes "CHR ''['' \<notin> set t" "CHR '']'' \<notin> set t"
  shows "trim_brackets (CHR ''['' # t @ '']'') = t"
proof -
  have "CHR ''['' \<notin> set (t @ '']'')" using assms(1) by simp
  then show ?thesis using assms(2) by (simp add: trim_brackets_def dropWhile_absent)
qed

lemma checked_literal_public:
  assumes "url_ok l literal" and "check_url l u = Inr ()" and lit: "literal u = Some a"
  shows "is_public_ip a"
proof -
  have "\<exists>h. host_str l u = Some h \<and> h \<noteq> [] \<and> parse_ip (trim_brackets h) = Some a"
  proof (cases a)
    case (V4 v)
    then have "host_str l u = Some (show_ipv4 v)" using assms(1) lit unfolding url_ok_def by blast
    then show ?thesis using V4 no_bracket [of v] by (simp add: trim_no_brackets parse_show_ipv4)
  next
    case (V6 w)
    then obtain t where t: "host_str l u = Some (CHR ''['' # t @ '']'')" "parse_ip t = Some (V6 w)" "CHR ''['' \<notin> set t" "CHR '']'' \<notin> set t"
      using assms(1) lit unfolding url_ok_def by blast
    show ?thesis unfolding t(1) V6 using t(2) trim_brackets_around [OF t(3,4)] by auto
  qed
  then show ?thesis using assms(2) by (auto simp: check_url_def split: if_splits)
qed

lemma resolved_public: "public_only_resolve f h = Inr ips \<Longrightarrow> ip \<in> set ips \<Longrightarrow> is_public_ip ip"
  by (auto simp: public_only_resolve_def Let_def split: sum.splits if_splits)

lemma import_url_checked: "import_url l raw = Inr url \<Longrightarrow> check_url l url = Inr ()"
  by (auto simp: import_url_def split: option.splits sum.splits)

lemma followed: "redirect_policy l previous u = Follow \<longleftrightarrow> length previous \<le> MAX_REDIRECTS \<and> check_url l u = Inr ()"
  by (auto simp: redirect_policy_def split: sum.splits)

lemma send_stays_public:
  assumes urls: "url_ok l literal" and ok: "send_ok l literal lookups send" and url: "check_url l url = Inr ()"
  defines "r \<equiv> recipe_import_client l send url"
  shows "length (visited r) \<le> MAX_REDIRECTS + 1" and "u \<in> set (visited r) \<Longrightarrow> check_url l u = Inr ()"
    and "(u, ip) \<in> set (connected r) \<Longrightarrow> u \<in> set (visited r) \<and> is_public_ip ip"
proof -
  have s: "visited r = [] \<or> hd (visited r) = url"
    "\<And>i. 0 < i \<Longrightarrow> i < length (visited r) \<Longrightarrow> redirect_policy l (take i (visited r)) (visited r ! i) = Follow"
    "\<And>u ip. (u, ip) \<in> set (connected r) \<Longrightarrow> u \<in> set (visited r) \<and>
       (case literal u of Some a \<Rightarrow> ip = a
        | None \<Rightarrow> \<exists>t h ips. host_str l u = Some h \<and> public_only_resolve (lookups t) h = Inr ips \<and> ip \<in> set ips)"
    using ok unfolding send_ok_def Let_def r_def recipe_import_client_def by blast+
  show "length (visited r) \<le> MAX_REDIRECTS + 1"
  proof (rule ccontr)
    assume "\<not> ?thesis"
    then have "redirect_policy l (take (MAX_REDIRECTS + 1) (visited r)) (visited r ! (MAX_REDIRECTS + 1)) = Follow"
      and "length (take (MAX_REDIRECTS + 1) (visited r)) = MAX_REDIRECTS + 1" using s(2) [of "MAX_REDIRECTS + 1"] by simp_all
    then show False by (simp add: followed)
  qed
  have checked: "check_url l u = Inr ()" if u: "u \<in> set (visited r)" for u
  proof -
    obtain i where i: "i < length (visited r)" "u = visited r ! i" using u by (metis in_set_conv_nth)
    show ?thesis
    proof (cases i)
      case 0
      then show ?thesis using i s(1) url by (metis hd_conv_nth list.size(3) not_less_zero)
    next
      case (Suc k)
      then show ?thesis using i s(2) [of i] by (simp add: followed)
    qed
  qed
  then show "u \<in> set (visited r) \<Longrightarrow> check_url l u = Inr ()" .
  assume c: "(u, ip) \<in> set (connected r)"
  show "u \<in> set (visited r) \<and> is_public_ip ip"
    using s(3) [OF c] checked [of u] checked_literal_public [OF urls] resolved_public
    by (cases "literal u") auto
qed

text \<open>
  C26. An import never reaches what its member could not: whatever the pages redirect to and the
  DNS answers, from one lookup to the next, every address connected to is public, for one of at
  most six URLs that all passed \<open>check_url\<close>; and nothing is requested unless a member asked for it
  and the limiter admitted it within ten imports of that member in ten minutes.
\<close>

theorem import_stays_public:
  assumes "url_ok l literal" and "send_ok l literal lookups send"
    and "import_recipe l send draft_of held is_member user now raw rows = (result, rows2, Some r)"
  shows "is_member
    \<and> limiter_admit held ''recipe_import'' \<lparr>limit = 10, window = secs (10 * 60)\<rparr> user now rows = (True, rows2)
    \<and> length (visited r) \<le> 6 \<and> (\<forall>u. u \<in> set (visited r) \<longrightarrow> check_url l u = Inr ())
    \<and> (\<forall>u ip. (u, ip) \<in> set (connected r) \<longrightarrow> u \<in> set (visited r) \<and> is_public_ip ip)"
proof -
  obtain url where m: is_member and url: "import_url l raw = Inr url" using assms(3)
    by (auto simp: import_recipe_def split: if_splits sum.splits)
  obtain ok rows3 where adm: "limiter_admit held ''recipe_import'' IMPORT_RATE user now rows = (ok, rows3)" by fastforce
  have r: ok "rows3 = rows2" "r = recipe_import_client l send url"
    using assms(3) m url adm by (auto simp: import_recipe_def Let_def split: if_splits)
  note p = send_stays_public [OF assms(1,2) import_url_checked [OF url]]
  show ?thesis using m adm r p by (simp add: MAX_REDIRECTS_def IMPORT_RATE_def)
qed

text \<open>
  A blog whose name answers, at the second lookup, with the address of the cloud's metadata, and
  whose page redirects there: the import ends with its refusal, having connected once, to the
  public address of the blog.
\<close>

datatype some_url = Blog | Metadata

definition some_urls :: "some_url url_lib" where
  "some_urls = \<lparr>url_parse = (\<lambda>s. if s = ''https://site.fr/'' then Some Blog else None),
     scheme_of = (\<lambda>_. ''https''),
     host_str = (\<lambda>u. Some (case u of Blog \<Rightarrow> ''site.fr'' | Metadata \<Rightarrow> show_ipv4 (ipv4 169 254 169 254))),
     query_of = (\<lambda>_. None), set_query = (\<lambda>u _. u), as_str = (\<lambda>_. ''https://site.fr/'')\<rparr>"

definition some_literal :: "some_url \<Rightarrow> ip_addr option" where
  "some_literal u = (case u of Blog \<Rightarrow> None | Metadata \<Rightarrow> Some (V4 (ipv4 169 254 169 254)))"

definition some_lookup :: "nat \<Rightarrow> string \<Rightarrow> unit + ip_addr list" where
  "some_lookup t name = Inr [V4 (ipv4 169 254 169 254), V4 (if t = 0 then ipv4 8 8 8 8 else ipv4 127 0 0 1)]"

definition unreached :: "refusal option list \<Rightarrow> send_error + response" where
  "unreached chain = Inl \<lparr>sources = chain, is_timeout = False\<rparr>"

fun some_send :: "(some_url, unit) http_send" where
  "some_send policy resolve Metadata =
     \<lparr>answer = unreached [], visited = [Metadata], connected = [(Metadata, V4 (ipv4 169 254 169 254))]\<rparr>"
| "some_send policy resolve Blog =
     (case resolve (some_lookup 0) ''site.fr'' of
        Inr (ip # _) \<Rightarrow>
          (case policy [Blog] Metadata of
             Redirect_error e \<Rightarrow> \<lparr>answer = unreached [None, Some e], visited = [Blog], connected = [(Blog, ip)]\<rparr>
           | Follow \<Rightarrow> \<lparr>answer = unreached [], visited = [Blog, Metadata],
                        connected = [(Blog, ip), (Metadata, V4 (ipv4 169 254 169 254))]\<rparr>)
      | _ \<Rightarrow> \<lparr>answer = unreached [None], visited = [Blog], connected = []\<rparr>)"

lemma some_urls_ok: "url_ok some_urls some_literal"
  unfolding url_ok_def some_urls_def some_literal_def by (auto split: some_url.splits)

lemma some_send_ok: "send_ok some_urls some_literal some_lookup some_send"
proof -
  show ?thesis
    unfolding send_ok_def Let_def
    apply (intro allI)
    subgoal for policy resolve url
      by (cases url) (auto simp: some_literal_def some_urls_def less_Suc_eq
        split: sum.splits list.splits redirect_action.splits, (metis list.set_intros(1))+)
    done
qed

lemma import_stays_public_witness:
  "\<exists>r rows2. import_recipe some_urls some_send (\<lambda>_ _. None :: unit option) (\<lambda>_. False) True (7 :: nat) 0 '' https://site.fr/ '' [] =
       (Inl (Import_failed DestinationRefused), rows2, Some r)
     \<and> connected r = [(Blog, V4 (ipv4 8 8 8 8))] \<and> is_public_ip (V4 (ipv4 8 8 8 8))"
proof -
  have o: "octets (ipv4 169 254 169 254) = [169, 254, 169, 254]" "octets (ipv4 8 8 8 8) = [8, 8, 8, 8]"
    by (simp_all add: octets_def Let_def ipv4_def from_be_def)
  have priv: "\<not> is_public_ip (V4 (ipv4 169 254 169 254))" and pub: "is_public_ip (V4 (ipv4 8 8 8 8))"
    by (simp_all add: public_v4_octets [OF o(1)] public_v4_octets [OF o(2)])
  have "ascii_trim '' https://site.fr/ '' = ''https://site.fr/''" "ascii_trim ''https://site.fr/'' = ''https://site.fr/''"
    by (simp_all add: trim_by_def ascii_ws_def)
  moreover have "parse_ip (trim_brackets ''site.fr'') = None"
  proof -
    have "(4 :: nat) = Suc 3" by simp
    then have "read_ipv4 ''site.fr'' = None" unfolding read_ipv4_def
      by (simp only: read_octets.simps) (simp add: separated_def read_number_def hex_digit_def)
    moreover have "read_ipv6 ''site.fr'' = None" unfolding read_ipv6_def
      by (subst read_groups.simps) (simp add: calculation separated_def read_number_def hex_digit_def read_char_def)
    ultimately show ?thesis by (simp add: trim_brackets_def parse_ip_def read_ip_def)
  qed
  ultimately have url: "import_url some_urls '' https://site.fr/ '' = Inr Blog"
    by (simp add: import_url_def check_url_def valid_source_url_def some_urls_def is_web_def SOURCE_URL_MAX_LEN_def)
  have follow: "redirect_policy some_urls [Blog] Metadata = Redirect_error Destination_refused"
    using priv no_bracket
    by (simp add: redirect_policy_def MAX_REDIRECTS_def check_url_def some_urls_def is_web_def trim_no_brackets parse_show_ipv4)
  have res: "public_only_resolve (some_lookup 0) ''site.fr'' = Inr [V4 (ipv4 8 8 8 8)]"
    using priv pub by (simp add: public_only_resolve_def some_lookup_def)
  have run: "import_recipe some_urls some_send (\<lambda>_ _. None :: unit option) (\<lambda>_. False) True (7 :: nat) 0 '' https://site.fr/ '' [] =
      (Inl (Import_failed DestinationRefused), [((''recipe_import'', 7), [0])],
       Some \<lparr>answer = unreached [None, Some Destination_refused], visited = [Blog], connected = [(Blog, V4 (ipv4 8 8 8 8))]\<rparr>)"
    unfolding import_recipe_def url recipe_import_client_def fetch_page_def
    by (simp add: follow res unreached_def send_failed_def limiter_admit_def admit_window_def IMPORT_RATE_def secs_def sweep_def
        left_window_def newest_def)
  show ?thesis using import_stays_public [OF some_urls_ok some_send_ok run] run by auto
qed

section \<open>The page is read whole or not at all\<close>

lemma read_chunks_page:
  "read_chunks cs page = Inr p \<longleftrightarrow>
     (\<exists>bodies. cs = map Inr bodies \<and> p = page @ concat bodies \<and> (bodies \<noteq> [] \<longrightarrow> length p \<le> MAX_PAGE_BYTES))"
proof (induction cs page rule: read_chunks.induct)
  case (3 chunk rest page)
  have "Inr chunk # rest = map Inr bodies \<longleftrightarrow> (\<exists>bs. bodies = chunk # bs \<and> rest = map Inr bs)" for bodies
    by (cases bodies) auto
  then have "(\<exists>bodies. Inr chunk # rest = map Inr bodies \<and> p = page @ concat bodies \<and> (bodies \<noteq> [] \<longrightarrow> length p \<le> MAX_PAGE_BYTES))
     \<longleftrightarrow> (\<exists>bs. rest = map Inr bs \<and> p = (page @ chunk) @ concat bs \<and> length p \<le> MAX_PAGE_BYTES)"
    by (simp only: ex_simps) (auto; fail)
  then show ?case using 3 by auto
qed auto

text \<open>
  C1. What a page read is: the client answered with a success that says it is HTML, and the page
  is every byte of its body, at most \<open>MAX_PAGE_BYTES\<close> of them; anything else is a failure.
\<close>

theorem page_whole_and_bounded:
  "fetch_page client url = Inr page \<longleftrightarrow>
     (\<exists>r bodies. answer (client url) = Inr r \<and> success r \<and> (\<exists>v. content_type r = Some v \<and> is_html v)
        \<and> \<not> (\<exists>n. content_length r = Some n \<and> MAX_PAGE_BYTES < n)
        \<and> chunks r = map Inr bodies \<and> page = concat bodies \<and> length page \<le> MAX_PAGE_BYTES)"
  by (auto simp: fetch_page_def page_of_def read_chunks_page split: sum.splits option.splits if_splits)

end
