(* ===== verification/Client_Ip.thy ===== *)
theory Client_Ip
  imports Ip_Text
begin

text \<open>
  Who is on the other end of a request (\<open>apps/api/src/client_ip.rs\<close>): the trusted proxies, as the
  environment lists them, and the client's address read from \<open>X-Forwarded-For\<close>. Networks are the
  crate \<open>ipnet\<close>'s: \<open>ipnet_lib\<close>.
\<close>

section \<open>Trusted proxies\<close>

record 'n ipnet_lib =
  net_parse :: "string \<Rightarrow> 'n option"
  net_of_ip :: "ip_addr \<Rightarrow> 'n"
  net_contains :: "'n \<Rightarrow> ip_addr \<Rightarrow> bool"

definition DEFAULT_TRUSTED_PROXY_CIDRS :: string where
  "DEFAULT_TRUSTED_PROXY_CIDRS = ''127.0.0.0/8,::1/128,172.16.0.0/12''"

definition parse_net :: "('n, 'z) ipnet_lib_scheme \<Rightarrow> string \<Rightarrow> 'n option" where
  "parse_net l entry =
     (case net_parse l entry of Some net \<Rightarrow> Some net | None \<Rightarrow> map_option (net_of_ip l) (parse_ip entry))"

text \<open>An error is the offending entry.\<close>

fun parse_entries :: "('n, 'z) ipnet_lib_scheme \<Rightarrow> string list \<Rightarrow> 'n list \<Rightarrow> string + 'n list" where
  "parse_entries l [] nets = Inr nets"
| "parse_entries l (entry # rest) nets =
     (let entry = ascii_trim entry
      in if entry = [] then parse_entries l rest nets
         else case parse_net l entry of None \<Rightarrow> Inl entry | Some net \<Rightarrow> parse_entries l rest (nets @ [net]))"

definition trusted_parse :: "('n, 'z) ipnet_lib_scheme \<Rightarrow> string \<Rightarrow> string + 'n list" where
  "trusted_parse l list = parse_entries l (split_on (CHR '','') list) []"

definition trusted_from_env :: "('n, 'z) ipnet_lib_scheme \<Rightarrow> string option \<Rightarrow> string + 'n list" where
  "trusted_from_env l var =
     (case var of
        Some v \<Rightarrow> if ascii_trim v \<noteq> [] then trusted_parse l v else trusted_parse l DEFAULT_TRUSTED_PROXY_CIDRS
      | None \<Rightarrow> trusted_parse l DEFAULT_TRUSTED_PROXY_CIDRS)"

definition trusts :: "('n, 'z) ipnet_lib_scheme \<Rightarrow> 'n list \<Rightarrow> ip_addr \<Rightarrow> bool" where
  "trusts l nets ip \<longleftrightarrow> list_ex (\<lambda>net. net_contains l net ip) nets"

section \<open>The client's address\<close>

definition strip_suffix_char :: "char \<Rightarrow> string \<Rightarrow> string option" where
  "strip_suffix_char c s = (if s \<noteq> [] \<and> last s = c then Some (butlast s) else None)"

definition parse_entry :: "string \<Rightarrow> ip_addr option" where
  "parse_entry token =
     (case parse_ip token of Some ip \<Rightarrow> Some ip | None \<Rightarrow>
      case parse_socket_ip token of Some ip \<Rightarrow> Some ip | None \<Rightarrow>
      case strip_prefix ''['' token of None \<Rightarrow> None | Some t \<Rightarrow>
      case strip_suffix_char (CHR '']'') t of None \<Rightarrow> None | Some inner \<Rightarrow> parse_ip inner)"

text \<open>The walk from the right: \<open>innermost_trusted\<close> is the last trusted address seen.\<close>

fun walk :: "(ip_addr \<Rightarrow> bool) \<Rightarrow> ip_addr \<Rightarrow> ip_addr option \<Rightarrow> string list \<Rightarrow> ip_addr" where
  "walk trusted peer innermost_trusted [] = (case innermost_trusted of Some ip \<Rightarrow> ip | None \<Rightarrow> peer)"
| "walk trusted peer innermost_trusted (token # left) =
     (let token = ascii_trim token
      in if token = [] then walk trusted peer innermost_trusted left
         else case parse_entry token of
                Some ip \<Rightarrow> if trusted ip then walk trusted peer (Some ip) left else ip
              | None \<Rightarrow> (case innermost_trusted of Some ip \<Rightarrow> ip | None \<Rightarrow> peer))"

definition resolve_client :: "ip_addr option \<Rightarrow> string option \<Rightarrow> (ip_addr \<Rightarrow> bool) \<Rightarrow> ip_addr" where
  "resolve_client peer forwarded_for trusted =
     (case peer of None \<Rightarrow> V4 0 | Some peer \<Rightarrow>
      if \<not> trusted peer then peer
      else case forwarded_for of None \<Rightarrow> peer | Some header \<Rightarrow>
        walk trusted peer None (rev (split_on (CHR '','') header)))"

section \<open>The list is taken as written\<close>

lemma parse_entries_result:
  "parse_entries l entries nets = Inr r \<longleftrightarrow>
     (\<exists>new. r = nets @ new \<and> map Some new = map (parse_net l) (filter (\<lambda>e. e \<noteq> []) (map ascii_trim entries)))"
proof (induction l entries nets rule: parse_entries.induct)
  case (2 l entry rest nets)
  show ?case
  proof (cases "ascii_trim entry = []")
    case True
    then show ?thesis using 2 by simp
  next
    case False
    have c: "map Some new = Some x # ys \<longleftrightarrow> (\<exists>m. new = x # m \<and> map Some m = ys)" for new and x :: 'b and ys by (cases new) auto
    have n: "map Some new \<noteq> None # ys" for new :: "'b list" and ys by (cases new) auto
    show ?thesis using 2 False by (cases "parse_net l (ascii_trim entry)") (auto simp: c n)
  qed
qed auto

text \<open>
  A list of proxies trusts the addresses of the networks it lists, entry by entry, and no other;
  one it cannot read is reported, the first of them, and nothing is trusted.
\<close>

theorem trusts_what_is_listed:
  "case trusted_parse l list of
     Inr nets \<Rightarrow> \<forall>ip. trusts l nets ip \<longleftrightarrow>
       (\<exists>e net. e \<in> set (split_on (CHR '','') list) \<and> parse_net l (ascii_trim e) = Some net \<and> ascii_trim e \<noteq> [] \<and> net_contains l net ip)
   | Inl bad \<Rightarrow> \<exists>e. e \<in> set (split_on (CHR '','') list) \<and> bad = ascii_trim e \<and> bad \<noteq> [] \<and> parse_net l bad = None"
proof -
  have bad: "parse_entries l entries nets = Inl bad \<Longrightarrow> \<exists>e. e \<in> set entries \<and> bad = ascii_trim e \<and> bad \<noteq> [] \<and> parse_net l bad = None"
    for entries nets bad
    by (induction l entries nets rule: parse_entries.induct) (auto simp: Let_def split: if_splits option.splits)
  have ok: "trusts l nets ip \<longleftrightarrow>
      (\<exists>e net. e \<in> set es \<and> parse_net l (ascii_trim e) = Some net \<and> ascii_trim e \<noteq> [] \<and> net_contains l net ip)"
    if "map Some nets = map (parse_net l) (filter (\<lambda>e. e \<noteq> []) (map ascii_trim es))" for nets es ip
  proof -
    have "(\<exists>net. net \<in> set nets \<and> net_contains l net ip) \<longleftrightarrow> (\<exists>net. Some net \<in> set (map Some nets) \<and> net_contains l net ip)" by auto
    also have "\<dots> \<longleftrightarrow> (\<exists>e net. e \<in> set es \<and> parse_net l (ascii_trim e) = Some net \<and> ascii_trim e \<noteq> [] \<and> net_contains l net ip)"
      unfolding that by (force simp: image_iff)
    finally show ?thesis by (auto simp: trusts_def list_ex_iff)
  qed
  show ?thesis
  proof (cases "trusted_parse l list")
    case (Inl b)
    then show ?thesis using bad unfolding trusted_parse_def by auto
  next
    case (Inr nets)
    then have "map Some nets = map (parse_net l) (filter (\<lambda>e. e \<noteq> []) (map ascii_trim (split_on (CHR '','') list)))"
      by (simp add: trusted_parse_def parse_entries_result)
    then show ?thesis using ok Inr by simp
  qed
qed

section \<open>A client cannot choose its address\<close>

text \<open>What a proxy appends for the address \<open>ip\<close> it saw.\<close>

definition spells :: "string \<Rightarrow> ip_addr \<Rightarrow> bool" where
  "spells t ip \<longleftrightarrow> CHR '','' \<notin> set t \<and> ascii_trim t \<noteq> [] \<and> parse_entry (ascii_trim t) = Some ip"

lemma walk_trusted:
  "\<forall>(t, ip) \<in> set hops. spells t ip \<and> trusted ip \<Longrightarrow>
   \<exists>inner. walk trusted peer start (map fst hops @ left) = walk trusted peer inner left"
proof (induction hops arbitrary: start)
  case (Cons h hops)
  then obtain t ip where "h = (t, ip)" "spells t ip" "trusted ip" by (cases h) auto
  then show ?case using Cons by (simp add: spells_def)
qed auto

lemma walk_client:
  assumes "\<forall>(t, ip) \<in> set hops. spells t ip \<and> trusted ip" and "spells t client" and "\<not> trusted client"
  shows "walk trusted peer start (map fst hops @ t # left) = client"
proof -
  obtain inner where "walk trusted peer start (map fst hops @ t # left) = walk trusted peer inner (t # left)"
    using walk_trusted [OF assms(1)] by metis
  also have "\<dots> = client" using assms(2,3) by (simp add: spells_def)
  finally show ?thesis .
qed

lemma walk_all_trusted:
  assumes "\<forall>(t, ip) \<in> set hops. spells t ip \<and> trusted ip" and "hops \<noteq> []"
  shows "walk trusted peer start (map fst hops) = snd (last hops)"
  using assms
proof (induction hops arbitrary: start)
  case (Cons h hops)
  then obtain t ip where "h = (t, ip)" "spells t ip" "trusted ip" by (cases h) auto
  then show ?case using Cons by (cases "hops = []") (simp_all add: spells_def)
qed simp

text \<open>
  C28. Nobody chooses the address he is throttled by. A peer that is no trusted proxy is the client,
  whatever the header says. Through trusted proxies, each of which appended the address it saw, the
  client is the one address that is not ours, whatever header it sent itself; and it is the
  outermost of ours when it came from inside.
\<close>

theorem client_is_who_reached_the_edge:
  assumes "trusted peer" and "\<forall>(t, ip) \<in> set hops. spells t ip \<and> trusted ip" and "spells t client" and "\<not> trusted client"
  shows "resolve_client (Some client) header trusted = client
    \<and> resolve_client (Some peer) (Some (join_with '','' (t # map fst hops))) trusted = client
    \<and> resolve_client (Some peer) (Some (sent @ CHR '','' # join_with '','' (t # map fst hops))) trusted = client
    \<and> resolve_client (Some peer) None trusted = peer
    \<and> (hops \<noteq> [] \<longrightarrow> resolve_client (Some peer) (Some (join_with '','' (map fst hops))) trusted = snd (hd hops))"
proof -
  have no_comma: "\<forall>x \<in> set (t # map fst hops). CHR '','' \<notin> set x" using assms(2,3) by (fastforce simp: spells_def)
  have hops: "\<forall>(t, ip) \<in> set (rev hops). spells t ip \<and> trusted ip" using assms(2) by simp
  have alone: "split_on (CHR '','') (join_with '','' (t # map fst hops)) = t # map fst hops"
    using no_comma by (intro split_join) simp_all
  have after: "split_on (CHR '','') (sent @ CHR '','' # join_with '','' (t # map fst hops)) = split_on (CHR '','') sent @ t # map fst hops"
    using alone by (simp add: split_on_app)
  note w = walk_client [OF hops assms(3,4), of peer None]
  have inside: "resolve_client (Some peer) (Some (join_with '','' (map fst hops))) trusted = snd (hd hops)" if ne: "hops \<noteq> []"
  proof -
    have "split_on (CHR '','') (join_with '','' (map fst hops)) = map fst hops"
      using no_comma ne by (intro split_join) simp_all
    then show ?thesis using assms(1) walk_all_trusted [OF hops, of peer None] ne
      by (simp add: resolve_client_def rev_map last_rev)
  qed
  show ?thesis
    using assms(1,4) w [of "[]"] w [of "rev (split_on (CHR '','') sent)"] inside
    by (simp add: resolve_client_def alone after rev_map)
qed

text \<open>
  A dotted IPv4 address is what a proxy writes. A client at 203.0.113.9, behind one proxy of the
  internal network, which sends the header of a neighbour.
\<close>

lemma spells_ipv4: "spells (show_ipv4 v) (V4 v)"
proof -
  have ch: "c \<in> set (show_ipv4 v) \<Longrightarrow> is_digit c \<or> c = CHR ''.''" for c
    using show_nat_digits by (auto simp: show_ipv4_def octets_def Let_def list_all_iff)
  have ws: "\<not> is_digit c \<or> \<not> ascii_ws c" for c by (auto simp: is_digit_def ascii_ws_def Let_def)
  have "\<not> ascii_ws (CHR ''.'')" "\<not> is_digit (CHR '','')" by (simp_all add: ascii_ws_def is_digit_def)
  then have no: "c \<in> set (show_ipv4 v) \<Longrightarrow> \<not> ascii_ws c \<and> c \<noteq> CHR '',''" for c using ch ws by fastforce
  have "dropWhile ascii_ws s = s" if "\<forall>c \<in> set s. \<not> ascii_ws c" for s using that by (cases s) auto
  then have "ascii_trim (show_ipv4 v) = show_ipv4 v" using no unfolding trim_by_def by (metis rev_rev_ident set_rev)
  moreover have "show_ipv4 v \<noteq> []" by (simp add: show_ipv4_def octets_def Let_def)
  ultimately show ?thesis using no by (auto simp: spells_def parse_entry_def parse_show_ipv4)
qed

lemma client_is_who_reached_the_edge_witness:
  "resolve_client (Some (V4 0xAC120003)) (Some (''198.51.100.7, unknown'' @ CHR '','' # join_with '','' [show_ipv4 0xCB007109, show_ipv4 0xAC120002]))
     (\<lambda>ip. ip \<in> {V4 0xAC120002, V4 0xAC120003}) = V4 0xCB007109"
  using client_is_who_reached_the_edge [of "\<lambda>ip. ip \<in> {V4 0xAC120002, V4 0xAC120003}" "V4 0xAC120003" "[(show_ipv4 0xAC120002, V4 0xAC120002)]"
      "show_ipv4 0xCB007109" "V4 0xCB007109" _ "''198.51.100.7, unknown''"]
  by (simp add: spells_ipv4)

end
