(* ===== verification/National_Days.thy ===== *)
theory National_Days
  imports Paris "HOL-Library.Multiset"
begin

text \<open>
  The national days of the agenda (\<open>apps/shared/src/validation/national_days.rs\<close>): Easter by the
  computus of Meeus, Jones and Butcher, the holidays that follow it, the clock changes, Mother's
  and Father's Day. The calendar is the crate \<open>chrono\<close>'s: the record \<open>calendar\<close> and the function
  \<open>nth_wd\<close> (\<open>NaiveDate::from_weekday_of_month_opt\<close>), which \<open>gregorian\<close> and \<open>nth_ok\<close> describe.
\<close>

section \<open>The days\<close>

datatype national_day_kind = PublicHoliday | ClockChange | Observance

fun day_kind_str :: "national_day_kind \<Rightarrow> string" where
  "day_kind_str PublicHoliday = ''public_holiday''"
| "day_kind_str ClockChange = ''clock_change''"
| "day_kind_str Observance = ''observance''"

record national_day =
  nd_date :: date
  nd_kind :: national_day_kind
  nd_label :: utext

definition MAX_NATIONAL_DAYS_SPAN_DAYS :: int where
  "MAX_NATIONAL_DAYS_SPAN_DAYS = 366"

definition validate_national_days_range :: "date \<Rightarrow> date \<Rightarrow> string + unit" where
  "validate_national_days_range start stop =
     (if stop < start then Inl ''to_before_from''
      else if stop - start \<ge> MAX_NATIONAL_DAYS_SPAN_DAYS then Inl ''range_too_wide''
      else Inr ())"

text \<open>\<open>u32::try_from(n).ok()\<close>.\<close>

definition to_u32 :: "int \<Rightarrow> nat option" where
  "to_u32 n = (if 0 \<le> n \<and> n < 2 ^ 32 then Some (nat n) else None)"

text \<open>\<open>div\<close> and \<open>mod\<close> by a positive number are Euclidean. The products stay within an \<open>i64\<close>.\<close>

definition easter_sunday :: "calendar \<Rightarrow> int \<Rightarrow> date option" where
  "easter_sunday cal year =
     (let a = year mod 19;
          b = year div 100; c = year mod 100;
          d = b div 4; e = b mod 4;
          f = (b + 8) div 25;
          g = (b - f + 1) div 3;
          h = (19 * a + b - d - g + 15) mod 30;
          i = c div 4; k = c mod 4;
          l = (32 + 2 * e + 2 * i - h - k) mod 7;
          m = (a + 11 * h + 22 * l) div 451;
          month = (h + l - 7 * m + 114) div 31;
          day = (h + l - 7 * m + 114) mod 31 + 1
      in case to_u32 month of None \<Rightarrow> None | Some month \<Rightarrow>
         case to_u32 day of None \<Rightarrow> None | Some day \<Rightarrow> from_ymd cal year month day)"

definition last_weekday_of :: "calendar \<Rightarrow> int \<Rightarrow> nat \<Rightarrow> weekday \<Rightarrow> date option" where
  "last_weekday_of cal year month weekday =
     (case (if month = 12 then (if year = 2147483647 then None else Some (year + 1, 1)) else Some (year, month + 1)) of
        None \<Rightarrow> None
      | Some (next_year, next_month) \<Rightarrow>
          (case from_ymd cal next_year next_month 1 of None \<Rightarrow> None | Some first \<Rightarrow>
           case checked_days cal first (- 1) of None \<Rightarrow> None | Some last_day \<Rightarrow>
             let back = (7 + num_days_from_monday (weekday_of last_day) - num_days_from_monday weekday) mod 7
             in checked_days cal last_day (- int back)))"

text \<open>A label is its characters.\<close>

definition mothers_day ::
    "calendar \<Rightarrow> (int \<Rightarrow> nat \<Rightarrow> weekday \<Rightarrow> nat \<Rightarrow> date option) \<Rightarrow> int \<Rightarrow> date option \<Rightarrow> date option" where
  "mothers_day cal nth_wd year pentecost =
     (case last_weekday_of cal year 5 Sun of None \<Rightarrow> None | Some sunday \<Rightarrow>
        if Some sunday = pentecost then nth_wd year 6 Sun 1 else Some sunday)"

definition after_easter :: "calendar \<Rightarrow> date option \<Rightarrow> int \<Rightarrow> date option" where
  "after_easter cal easter n = (case easter of None \<Rightarrow> None | Some e \<Rightarrow> checked_days cal e n)"

definition candidate_days ::
    "calendar \<Rightarrow> (int \<Rightarrow> nat \<Rightarrow> weekday \<Rightarrow> nat \<Rightarrow> date option) \<Rightarrow> int \<Rightarrow> bool \<Rightarrow>
     (date option \<times> national_day_kind \<times> utext) list" where
  "candidate_days cal nth_wd year alsace_moselle =
     (let on = from_ymd cal year;
          easter = easter_sunday cal year;
          after = after_easter cal easter;
          pentecost = after 49
      in [(on 1 1, PublicHoliday, chars ''Jour de l'' @ [39] @ chars ''an''),
          (on 5 1, PublicHoliday, chars ''F'' @ [234] @ chars ''te du Travail''),
          (on 5 8, PublicHoliday, chars ''Victoire 1945''),
          (on 7 14, PublicHoliday, chars ''F'' @ [234] @ chars ''te nationale''),
          (on 8 15, PublicHoliday, chars ''Assomption''),
          (on 11 1, PublicHoliday, chars ''Toussaint''),
          (on 11 11, PublicHoliday, chars ''Armistice 1918''),
          (on 12 25, PublicHoliday, chars ''No'' @ [235] @ chars ''l''),
          (after 1, PublicHoliday, chars ''Lundi de P'' @ [226] @ chars ''ques''),
          (after 39, PublicHoliday, chars ''Ascension''),
          (after 50, PublicHoliday, chars ''Lundi de Pentec'' @ [244] @ chars ''te''),
          (last_weekday_of cal year 3 Sun, ClockChange, chars ''Passage '' @ [224] @ chars '' l'' @ [39] @ chars ''heure d'' @ [39] @ [233] @ chars ''t'' @ [233]),
          (last_weekday_of cal year 10 Sun, ClockChange, chars ''Passage '' @ [224] @ chars '' l'' @ [39] @ chars ''heure d'' @ [39] @ chars ''hiver''),
          (mothers_day cal nth_wd year pentecost, Observance, chars ''F'' @ [234] @ chars ''te des m'' @ [232] @ chars ''res''),
          (nth_wd year 6 Sun 3, Observance, chars ''F'' @ [234] @ chars ''te des p'' @ [232] @ chars ''res'')]
         @ (if alsace_moselle
            then [(after (- 2), PublicHoliday, chars ''Vendredi saint''), (on 12 26, PublicHoliday, chars ''Saint-'' @ [201] @ chars ''tienne'')]
            else []))"

definition days_of_year ::
    "calendar \<Rightarrow> (int \<Rightarrow> nat \<Rightarrow> weekday \<Rightarrow> nat \<Rightarrow> date option) \<Rightarrow> int \<Rightarrow> bool \<Rightarrow> national_day list" where
  "days_of_year cal nth_wd year alsace_moselle =
     List.map_filter
       (\<lambda>(date, kind, label). map_option (\<lambda>d. \<lparr>nd_date = d, nd_kind = kind, nd_label = label\<rparr>) date)
       (candidate_days cal nth_wd year alsace_moselle)"

definition national_days ::
    "calendar \<Rightarrow> (int \<Rightarrow> nat \<Rightarrow> weekday \<Rightarrow> nat \<Rightarrow> date option) \<Rightarrow> date \<Rightarrow> date \<Rightarrow> bool \<Rightarrow> national_day list" where
  "national_days cal nth_wd start stop alsace_moselle =
     (if stop < start then []
      else sort_key nd_date
             (filter (\<lambda>n. start \<le> nd_date n \<and> nd_date n \<le> stop)
               (concat (map (\<lambda>year. days_of_year cal nth_wd year alsace_moselle) [year_of cal start..year_of cal stop]))))"

section \<open>The Gregorian calendar\<close>

definition leap :: "int \<Rightarrow> bool" where
  "leap y \<longleftrightarrow> y mod 4 = 0 \<and> (y mod 100 \<noteq> 0 \<or> y mod 400 = 0)"

definition new_year :: "int \<Rightarrow> date" where
  "new_year y = 365 * (y - 1) + (y - 1) div 4 - (y - 1) div 100 + (y - 1) div 400"

definition month_length :: "int \<Rightarrow> nat \<Rightarrow> nat" where
  "month_length y m = (if m = 2 \<and> leap y then 29 else [31, 28, 31, 30, 31, 30, 31, 31, 30, 31, 30, 31] ! (m - 1))"

definition civil :: "int \<Rightarrow> nat \<Rightarrow> nat \<Rightarrow> date" where
  "civil y m d = new_year y + int ([0, 31, 59, 90, 120, 151, 181, 212, 243, 273, 304, 334] ! (m - 1)) + (if leap y \<and> 2 < m then 1 else 0) + int d - 1"

definition MIN_YEAR :: int where "MIN_YEAR = - 262143"
definition MAX_YEAR :: int where "MAX_YEAR = 262142"

text \<open>What \<open>chrono\<close> documents: the proleptic Gregorian calendar, over half a million years.\<close>

definition gregorian :: "calendar \<Rightarrow> bool" where
  "gregorian cal \<longleftrightarrow>
     (\<forall>y m d. from_ymd cal y m d =
        (if MIN_YEAR \<le> y \<and> y \<le> MAX_YEAR \<and> 1 \<le> m \<and> m \<le> 12 \<and> 1 \<le> d \<and> d \<le> month_length y m then Some (civil y m d) else None)) \<and>
     min_date cal = civil MIN_YEAR 1 1 \<and> max_date cal = civil MAX_YEAR 12 31 \<and>
     (\<forall>d. new_year (year_of cal d) \<le> d \<and> d < new_year (year_of cal d + 1))"

text \<open>The \<open>n\<close>-th Sunday of June, in a year of the calendar.\<close>

definition nth_ok :: "(int \<Rightarrow> nat \<Rightarrow> weekday \<Rightarrow> nat \<Rightarrow> date option) \<Rightarrow> bool" where
  "nth_ok nth_wd \<longleftrightarrow>
     (\<forall>y m w n. MIN_YEAR \<le> y \<and> y \<le> MAX_YEAR \<and> 1 \<le> m \<and> m \<le> 12 \<and> 1 \<le> n \<and> n \<le> 4 \<longrightarrow>
        (\<exists>k. 7 * n - 6 \<le> k \<and> k \<le> 7 * n \<and> nth_wd y m w n = Some (civil y m k) \<and> weekday_of (civil y m k) = w))"

section \<open>Easter\<close>

lemma div_before: "(y - 1) div n = y div n - (if y mod n = 0 then 1 else 0)" if "1 < n" for y n :: int
proof -
  have "y - 1 = (y mod n - 1) + y div n * n" using div_mult_mod_eq [of y n] by linarith
  then have "(y - 1) div n = ((y mod n - 1) + y div n * n) div n" by (rule arg_cong)
  also have "\<dots> = y div n + (y mod n - 1) div n" using that by (simp only: div_mult_self1)
  also have "(y mod n - 1) div n = (if y mod n = 0 then - 1 else 0)"
  proof (cases "y mod n = 0")
    case False
    moreover have "0 \<le> y mod n" "y mod n < n" using that by simp_all
    ultimately have "0 \<le> y mod n - 1" "y mod n - 1 < n" by linarith+
    then show ?thesis using False div_pos_pos_trivial by presburger
  qed (use that in \<open>simp add: div_eq_minus1\<close>)
  finally show ?thesis by simp
qed

lemma march: "civil y 3 d = 365 * (y - 1) + y div 4 - y div 100 + y div 400 + 58 + int d"
proof -
  have "y mod 400 = 0 \<Longrightarrow> y mod 100 = 0" "y mod 100 = 0 \<Longrightarrow> y mod 4 = 0"
    using dvd_trans [of 100 400 y] dvd_trans [of 4 100 y] by (simp_all add: mod_eq_0_iff_dvd)
  then show ?thesis by (auto simp: civil_def new_year_def leap_def div_before)
qed

text \<open>
  The date of the ecclesiastical full moon, in days of March, by the epact: the algorithm of
  Clavius, as the calendar reform of 1582 defines it.
\<close>

definition epact :: "int \<Rightarrow> int" where
  "epact year =
     (let golden = year mod 19 + 1;
          century = year div 100 + 1;
          solar = 3 * century div 4 - 12;
          lunar = (8 * century + 5) div 25 - 5;
          e = (11 * golden + 20 + lunar - solar) mod 30
      in if e = 24 \<or> (e = 25 \<and> golden > 11) then e + 1 else e)"

definition paschal_moon :: "int \<Rightarrow> int" where
  "paschal_moon year = (let n = 44 - epact year in if n < 21 then n + 30 else n)"

lemma april: "civil y 4 d = civil y 3 d + 31"
  by (simp add: civil_def)

lemma solar_is: "3 * (b + 1) div 4 = b - b div 4" for b :: int
proof -
  define q r where "q = b div 4" and "r = b mod 4"
  have b: "b = 4 * q + r" by (simp add: q_def r_def)
  have "\<forall>r \<in> set [0..3]. 3 * (r + 1) div 4 = (r :: int)" by code_simp
  moreover have "r \<in> set [0..3]" by (simp add: r_def)
  moreover have "3 * (b + 1) div 4 = (3 * (r + 1) + 3 * q * 4) div 4" by (simp add: b algebra_simps)
  ultimately show ?thesis using b by (simp only: div_mult_self1) (simp add: q_def [symmetric])
qed

lemma lunar_is: "(b - (b + 8) div 25 + 1) div 3 = (8 * (b + 1) + 5) div 25" for b :: int
proof -
  define f r where "f = (b + 8) div 25" and "r = (b + 8) mod 25"
  have b: "b = 25 * f + (r - 8)" unfolding f_def r_def by presburger
  have "\<forall>r \<in> set [0..24]. (r - 7) div 3 = (8 * r - 51) div (25 :: int)" by code_simp
  moreover have "r \<in> set [0..24]" by (simp add: r_def)
  ultimately have "(r - 7) div 3 = (8 * r - 51) div 25" by blast
  moreover have "(b - f + 1) div 3 = 8 * f + (r - 7) div 3"
  proof -
    have "b - f + 1 = (r - 7) + 8 * f * 3" using b by simp
    then show ?thesis by (simp only: div_mult_self1)
  qed
  moreover have "(8 * (b + 1) + 5) div 25 = 8 * f + (8 * r - 51) div 25"
  proof -
    have "8 * (b + 1) + 5 = (8 * r - 51) + 8 * f * 25" using b by simp
    then show ?thesis by (simp only: div_mult_self1)
  qed
  ultimately show ?thesis by (simp add: f_def)
qed

text \<open>The computus of the code, cleared of its divisions: the days from 21 March to the full moon,\<close>

definition moon_days :: "int \<Rightarrow> int" where
  "moon_days y = (let b = y div 100 in (19 * (y mod 19) + b - b div 4 - (b - (b + 8) div 25 + 1) div 3 + 15) mod 30)"

text \<open>from there to a Sunday, and the two cases where the moon is a day early.\<close>

definition sunday_days :: "int \<Rightarrow> int" where
  "sunday_days y = (32 + 2 * (y div 100 mod 4) + 2 * (y mod 100 div 4) - moon_days y - y mod 100 mod 4) mod 7"

definition late :: "int \<Rightarrow> bool" where
  "late y \<longleftrightarrow> moon_days y = 29 \<or> moon_days y = 28 \<and> 10 < y mod 19"

lemma day_ranges: "0 \<le> moon_days y" "moon_days y < 30" "0 \<le> sunday_days y" "sunday_days y < 7" "0 \<le> y mod 19" "y mod 19 < 19"
  by (simp_all add: moon_days_def sunday_days_def Let_def)

lemma correction:
  "(y mod 19 + 11 * moon_days y + 22 * sunday_days y) div 451 = (if late y \<and> sunday_days y = 6 then 1 else 0)"
proof -
  let ?a = "y mod 19" and ?h = "moon_days y" and ?l = "sunday_days y"
  note r = day_ranges [of y]
  have "x div 451 = (if 451 \<le> x then 1 else 0)" if "0 \<le> x" "x < 902" for x :: int
  proof (cases "451 \<le> x")
    case True
    then show ?thesis using that by (simp add: div_pos_geq)
  qed (use that in \<open>simp\<close>)
  then have "(?a + 11 * ?h + 22 * ?l) div 451 = (if 451 \<le> ?a + 11 * ?h + 22 * ?l then 1 else 0)" using r by simp
  moreover have "451 \<le> ?a + 11 * ?h + 22 * ?l \<longleftrightarrow> late y \<and> ?l = 6"
  proof (cases "?l = 6")
    case False
    then show ?thesis using r by simp
  next
    case True
    then show ?thesis using r by (cases "?h \<le> 27") (auto simp: late_def)
  qed
  ultimately show ?thesis by simp
qed

lemma plain_epact:
  fixes y :: int
  defines "e \<equiv> (11 * (y mod 19 + 1) + 20 + ((8 * (y div 100 + 1) + 5) div 25 - 5) - (3 * (y div 100 + 1) div 4 - 12)) mod 30"
  shows "e = (if moon_days y \<le> 23 then 23 - moon_days y else 53 - moon_days y)"
proof -
  define a b h g where "a = y mod 19" and "b = y div 100" and "h = moon_days y" and "g = (8 * (b + 1) + 5) div 25"
  have "(e + h) mod 30 = ((11 * (a + 1) + 20 + (g - 5) - (b - b div 4 - 12)) + (19 * a + b - b div 4 - g + 15)) mod 30"
    unfolding e_def h_def moon_days_def Let_def a_def [symmetric] b_def [symmetric] lunar_is solar_is g_def [symmetric]
    by (simp only: mod_add_eq)
  also have "\<dots> = (23 + 30 * (a + 1)) mod 30" by (simp add: algebra_simps)
  finally have sum_mod: "(e + h) mod 30 = 23" by simp
  have r: "0 \<le> e" "e < 30" "0 \<le> h" "h < 30" using day_ranges [of y] by (simp_all add: e_def h_def)
  have sum: "e + h = 23 \<or> e + h = 53"
  proof (cases "e + h < 30")
    case False
    then have "(e + h) mod 30 = (e + h - 30) mod 30" by (intro mod_pos_geq) simp_all
    also have "\<dots> = e + h - 30" using False r by (intro mod_pos_pos_trivial) auto
    finally show ?thesis using sum_mod by linarith
  next
    case True
    then have "(e + h) mod 30 = e + h" using r by (intro mod_pos_pos_trivial) auto
    then show ?thesis using sum_mod by linarith
  qed
  have "e = (if h \<le> 23 then 23 - h else 53 - h)"
  proof (cases "h \<le> 23")
    case True
    then have "e + h = 23" using sum r by (elim disjE) linarith+
    then show ?thesis using True by simp
  next
    case False
    then have "e + h = 53" using sum r by (elim disjE) linarith+
    then show ?thesis using False by simp
  qed
  then show ?thesis by (simp only: h_def)
qed

lemma paschal_moon_days: "paschal_moon y = 21 + moon_days y - (if late y then 1 else 0)"
proof -
  let ?h = "moon_days y"
  define e where "e = (11 * (y mod 19 + 1) + 20 + ((8 * (y div 100 + 1) + 5) div 25 - 5) - (3 * (y div 100 + 1) div 4 - 12)) mod 30"
  have e: "e = (if ?h \<le> 23 then 23 - ?h else 53 - ?h)" unfolding e_def by (rule plain_epact)
  note r = day_ranges(1,2) [of y]
  have "epact y = (if e = 24 \<or> (e = 25 \<and> y mod 19 + 1 > 11) then e + 1 else e)"
    unfolding epact_def Let_def e_def by (rule refl)
  moreover have "e = 24 \<or> (e = 25 \<and> y mod 19 + 1 > 11) \<longleftrightarrow> late y"
  proof (cases "?h \<le> 23")
    case True
    then have "e \<noteq> 24" "e \<noteq> 25" "\<not> late y" using r by (simp_all add: e late_def)
    then show ?thesis by blast
  next
    case False
    then have "e = 24 \<longleftrightarrow> ?h = 29" "e = 25 \<longleftrightarrow> ?h = 28" unfolding e by auto
    then show ?thesis unfolding late_def by auto
  qed
  ultimately have "epact y = e + (if late y then 1 else 0)" by simp
  then have n: "44 - epact y = 21 + ?h - (if late y then 1 else 0) - (if ?h \<le> 23 then 0 else 30)" unfolding e by simp
  have "44 - epact y < 21 \<longleftrightarrow> 23 < ?h"
  proof (cases "?h \<le> 23")
    case True
    then have "\<not> late y" by (simp add: late_def)
    then show ?thesis unfolding n using True r by simp
  next
    case False
    then show ?thesis unfolding n using r by simp
  qed
  then show ?thesis unfolding paschal_moon_def Let_def n by simp
qed

lemma reaches_sunday: "(civil y 3 22 + moon_days y + sunday_days y) mod 7 = 6"
proof -
  define b c h where "b = y div 100" and "c = y mod 100" and "h = moon_days y"
  define d e4 i k where "d = b div 4" and "e4 = b mod 4" and "i = c div 4" and "k = c mod 4"
  obtain q where l: "sunday_days y = 32 + 2 * e4 + 2 * i - h - k - 7 * q"
    using mult_div_mod_eq [of 7 "32 + 2 * e4 + 2 * i - h - k"]
    unfolding sunday_days_def h_def e4_def i_def k_def b_def c_def by (metis add_diff_cancel_left')
  have y: "y = 400 * d + 100 * e4 + 4 * i + k"
    using mult_div_mod_eq [of 100 y] mult_div_mod_eq [of 4 b] mult_div_mod_eq [of 4 c]
    unfolding d_def [symmetric] e4_def [symmetric] i_def [symmetric] k_def [symmetric] b_def [symmetric] c_def [symmetric] by linarith
  have ranges: "0 \<le> e4" "e4 < 4" "0 \<le> k" "k < 4" "0 \<le> c" "c < 100" by (simp_all add: e4_def k_def c_def)
  moreover have "4 * i + k = c" unfolding i_def k_def by simp
  ultimately have "0 \<le> i" "i < 25" by linarith+
  with ranges have "y div 4 = 100 * d + 25 * e4 + i" "y div 100 = 4 * d + e4" "y div 400 = d"
    using int_div_pos_eq [of y 4 "100 * d + 25 * e4 + i" k] int_div_pos_eq [of y 100 "4 * d + e4" "4 * i + k"]
      int_div_pos_eq [of y 400 d "100 * e4 + 4 * i + k"] y by simp_all
  then have "civil y 3 22 + h + sunday_days y = 6 + 7 * (20871 * d + 5218 * e4 + 209 * i + 52 * k - 37 - q)"
    unfolding march l by (simp add: y)
  then show ?thesis unfolding h_def by presburger
qed

lemma gregorian_ymd:
  "gregorian cal \<Longrightarrow> MIN_YEAR \<le> y \<Longrightarrow> y \<le> MAX_YEAR \<Longrightarrow> 1 \<le> m \<Longrightarrow> m \<le> 12 \<Longrightarrow> 1 \<le> d \<Longrightarrow> d \<le> month_length y m \<Longrightarrow>
   from_ymd cal y m d = Some (civil y m d)"
  by (simp add: gregorian_def)

text \<open>The date the code computes, counted from 22 March.\<close>

lemma easter_counted:
  assumes cal: "gregorian cal" and y: "MIN_YEAR \<le> y" "y \<le> MAX_YEAR"
  shows "easter_sunday cal y = Some (civil y 3 22 + moon_days y + sunday_days y - (if late y \<and> sunday_days y = 6 then 7 else 0))"
proof -
  define n where "n = moon_days y + sunday_days y - 7 * (if late y \<and> sunday_days y = 6 then 1 else 0)"
  have n: "0 \<le> n" "n \<le> 34" using day_ranges [of y] by (auto simp: n_def late_def)
  have "easter_sunday cal y =
      (case to_u32 ((n + 114) div 31) of None \<Rightarrow> None | Some month \<Rightarrow>
       case to_u32 ((n + 114) mod 31 + 1) of None \<Rightarrow> None | Some day \<Rightarrow> from_ymd cal y month day)"
    unfolding n_def correction [symmetric] unfolding easter_sunday_def Let_def moon_days_def sunday_days_def by (rule refl)
  also have "\<dots> = Some (civil y 3 22 + n)"
  proof (cases "n \<le> 9")
    case True
    then have "(n + 114) div 31 = 3" "(n + 114) mod 31 = n + 21"
      using n int_div_pos_eq [of "n + 114" 31 3 "n + 21"] int_mod_pos_eq [of "n + 114" 31 3 "n + 21"] by simp_all
    moreover have "from_ymd cal y 3 (nat (n + 22)) = Some (civil y 3 (nat (n + 22)))"
      using True n by (intro gregorian_ymd [OF cal y]) (auto simp: month_length_def)
    ultimately show ?thesis using True n by (simp add: to_u32_def march add.commute)
  next
    case False
    then have "(n + 114) div 31 = 4" "(n + 114) mod 31 = n - 10"
      using n int_div_pos_eq [of "n + 114" 31 4 "n - 10"] int_mod_pos_eq [of "n + 114" 31 4 "n - 10"] by simp_all
    moreover have "from_ymd cal y 4 (nat (n - 9)) = Some (civil y 4 (nat (n - 9)))"
      using False n by (intro gregorian_ymd [OF cal y]) (auto simp: month_length_def)
    ultimately show ?thesis using False n by (simp add: to_u32_def april march add.commute)
  qed
  finally show ?thesis by (simp add: n_def)
qed

text \<open>
  C29. Easter, computed by the arithmetic of Meeus, Jones and Butcher, is what the calendar reform
  defines: the first Sunday strictly after the ecclesiastical full moon, whose date follows from
  the epact of the year. It falls from 22 March to 25 April, in every year the calendar holds.
\<close>

theorem easter_after_the_full_moon:
  assumes "gregorian cal" and "MIN_YEAR \<le> y" and "y \<le> MAX_YEAR"
  shows "\<exists>e. easter_sunday cal y = Some e \<and> weekday_of e = Sun
    \<and> civil y 3 1 + paschal_moon y - 1 < e \<and> e \<le> civil y 3 1 + paschal_moon y - 1 + 7
    \<and> civil y 3 22 \<le> e \<and> e \<le> civil y 4 25"
proof -
  define e where "e = civil y 3 22 + moon_days y + sunday_days y - (if late y \<and> sunday_days y = 6 then 7 else 0)"
  have "e mod 7 = (civil y 3 22 + moon_days y + sunday_days y) mod 7" unfolding e_def
    by (simp only: minus_mod_self2 diff_zero simp_thms split: if_split)
  then have "e mod 7 = 6" using reaches_sunday [of y] by simp
  then have "weekday_of e = Sun" by (simp add: weekday_of_def WEEKDAYS_def)
  moreover have "civil y 3 22 = civil y 3 1 + 21" by (simp add: march)
  ultimately show ?thesis
    using easter_counted [OF assms] day_ranges [of y] unfolding paschal_moon_days april
    by (auto simp: e_def [symmetric] march) (auto simp: e_def march late_def split: if_splits)
qed

section \<open>The days of a year\<close>

lemma year_length: "new_year (y + 1) = new_year y + (if leap y then 366 else 365)"
proof -
  have "y mod 400 = 0 \<Longrightarrow> y mod 100 = 0" "y mod 100 = 0 \<Longrightarrow> y mod 4 = 0"
    using dvd_trans [of 100 400 y] dvd_trans [of 4 100 y] by (simp_all add: mod_eq_0_iff_dvd)
  then show ?thesis by (auto simp: new_year_def leap_def div_before)
qed

lemma new_year_mono: "y \<le> z \<Longrightarrow> new_year y \<le> new_year z"
  by (induction z rule: int_ge_induct) (auto simp: year_length)

text \<open>Days of March to December, counted from 1 March.\<close>

lemma in_year: "new_year y + 31 \<le> civil y 3 1" "civil y 12 d = civil y 3 1 + 274 + int d" "new_year (y + 1) = civil y 3 1 + 306"
  by (simp_all add: civil_def year_length)

lemma first_day: "civil y 1 1 = new_year y"
  by (simp add: civil_def)

lemma calendar_ends:
  assumes "gregorian cal" and "MIN_YEAR \<le> y" and "y \<le> MAX_YEAR" and "new_year y \<le> d" and "d < new_year (y + 1)"
  shows "min_date cal \<le> d" "d \<le> max_date cal"
proof -
  have "min_date cal = new_year MIN_YEAR" "max_date cal = new_year (MAX_YEAR + 1) - 1"
    using assms(1) by (simp_all add: gregorian_def civil_def year_length)
  then show "min_date cal \<le> d" "d \<le> max_date cal"
    using new_year_mono [OF assms(2)] new_year_mono [of "y + 1" "MAX_YEAR + 1"] assms(3-5) by simp_all
qed

lemma checked_in_year:
  assumes "gregorian cal" and "MIN_YEAR \<le> y" and "y \<le> MAX_YEAR" and "new_year y \<le> d + n" and "d + n < new_year (y + 1)"
  shows "checked_days cal d n = Some (d + n)"
  using calendar_ends [OF assms] by (simp add: checked_days_def)

lemma weekday_of_iff: "weekday_of d = w \<longleftrightarrow> d mod 7 = int (num_days_from_monday w)"
proof
  assume "d mod 7 = int (num_days_from_monday w)"
  then have "num_days_from_monday (weekday_of d) = num_days_from_monday w" using monday_offset [of d] by simp
  then show "weekday_of d = w" by (cases "weekday_of d"; cases w) simp_all
qed (use monday_offset [of d] in auto)

text \<open>The last Sunday before the first day \<open>first\<close> of the next month.\<close>

definition last_sunday :: "date \<Rightarrow> date \<Rightarrow> bool" where
  "last_sunday first s \<longleftrightarrow> weekday_of s = Sun \<and> first - 7 \<le> s \<and> s < first"

lemma last_sunday_of:
  assumes cal: "gregorian cal" and y: "MIN_YEAR \<le> y" "y \<le> MAX_YEAR" and m: "3 \<le> m" "m < 12"
  obtains s where "last_weekday_of cal y m Sun = Some s" "last_sunday (civil y (m + 1) 1) s"
proof -
  define first where "first = civil y (m + 1) 1"
  have m': "m = 3 \<or> m = 4 \<or> m = 5 \<or> m = 6 \<or> m = 7 \<or> m = 8 \<or> m = 9 \<or> m = 10 \<or> m = 11" using m by arith
  have f: "from_ymd cal y (m + 1) 1 = Some first" unfolding first_def using m' by (intro gregorian_ymd [OF cal y]) (auto simp: month_length_def)
  have r: "new_year y + 31 \<le> first" "first < new_year (y + 1)"
    using m' in_year(1,3) [of y] by (auto simp: first_def civil_def)
  have last_day: "checked_days cal first (- 1) = Some (first - 1)" using checked_in_year [OF cal y, of first "- 1"] r by simp
  define shift where "shift = (7 + num_days_from_monday (weekday_of (first - 1)) - num_days_from_monday Sun) mod 7"
  have b: "int shift = first mod 7"
  proof -
    have "int shift = (1 + int (num_days_from_monday (weekday_of (first - 1)))) mod 7" by (simp add: shift_def zmod_int)
    also have "\<dots> = first mod 7" by (simp add: monday_offset mod_simps)
    finally show ?thesis .
  qed
  have "shift < 7" by (simp add: shift_def)
  then have c: "checked_days cal (first - 1) (- int shift) = Some (first - 1 - int shift)"
    using checked_in_year [OF cal y, of "first - 1" "- int shift"] r by simp
  have "(first - 1 - int shift) mod 7 = (first - first mod 7 - 1) mod 7" by (simp add: b algebra_simps)
  also have "\<dots> = 6"
  proof -
    have "first - first mod 7 - 1 = 6 + 7 * (first div 7 - 1)" by (simp add: minus_mod_eq_mult_div)
    then show ?thesis by (simp only: mod_mult_self2) simp
  qed
  finally have "last_sunday first (first - 1 - int shift)" using \<open>shift < 7\<close> by (simp add: last_sunday_def weekday_of_iff)
  moreover have "last_weekday_of cal y m Sun = Some (first - 1 - int shift)"
  proof -
    have "(m = 12) = False" using m by simp
    then show ?thesis
      by (simp only: last_weekday_of_def if_False option.case prod.case f last_day Let_def shift_def [symmetric] c)
  qed
  ultimately show thesis using that by (simp add: first_def)
qed

lemma easter_in_spring:
  assumes "gregorian cal" and "MIN_YEAR \<le> y" and "y \<le> MAX_YEAR"
  obtains e where "easter_sunday cal y = Some e" "civil y 3 22 \<le> e" "e \<le> civil y 4 25"
proof -
  have n: "0 \<le> moon_days y + sunday_days y - (if late y \<and> sunday_days y = 6 then 7 else 0)"
    "moon_days y + sunday_days y - (if late y \<and> sunday_days y = 6 then 7 else 0) \<le> 34"
    using day_ranges [of y] by (auto simp: late_def)
  then show thesis using that [OF easter_counted [OF assms]] by (simp add: april march)
qed

lemma nth_okD:
  "nth_ok nth_wd \<Longrightarrow> MIN_YEAR \<le> y \<Longrightarrow> y \<le> MAX_YEAR \<Longrightarrow> 1 \<le> m \<Longrightarrow> m \<le> 12 \<Longrightarrow> 1 \<le> n \<Longrightarrow> n \<le> 4 \<Longrightarrow>
   \<exists>k. 7 * n - 6 \<le> k \<and> k \<le> 7 * n \<and> nth_wd y m w n = Some (civil y m k) \<and> weekday_of (civil y m k) = w"
  unfolding nth_ok_def by blast

lemma dates_listed:
  "map fst cs = map Some ds \<Longrightarrow>
   map nd_date (List.map_filter (\<lambda>(date, kind, label). map_option (\<lambda>d. \<lparr>nd_date = d, nd_kind = kind, nd_label = label\<rparr>) date) cs) = ds"
proof (induction cs arbitrary: ds)
  case (Cons c cs)
  then show ?case by (cases ds; cases c) (auto simp: List.map_filter_simps)
qed (simp add: List.map_filter_simps)

lemma year_dates:
  assumes "gregorian cal" and "nth_ok nth_wd" and "MIN_YEAR \<le> y" and "y \<le> MAX_YEAR"
  shows "\<exists>e march october may mother father.
      easter_sunday cal y = Some e \<and> map nd_date (days_of_year cal nth_wd y alsace_moselle) =
        [civil y 1 1, civil y 5 1, civil y 5 8, civil y 7 14, civil y 8 15, civil y 11 1, civil y 11 11, civil y 12 25,
         e + 1, e + 39, e + 50, march, october, mother, father] @ (if alsace_moselle then [e - 2, civil y 12 26] else [])
    \<and> last_sunday (civil y 4 1) march \<and> last_sunday (civil y 11 1) october \<and> last_sunday (civil y 6 1) may
    \<and> (if may = e + 49 then last_sunday (civil y 6 8) mother else mother = may)
    \<and> last_sunday (civil y 6 22) father \<and> mother \<noteq> e + 49"
proof -
  note y = assms(3,4) and cal = assms(1)
  obtain e where e: "easter_sunday cal y = Some e" "civil y 3 22 \<le> e" "e \<le> civil y 4 25" using easter_in_spring [OF cal y] .
  obtain ms where ms: "last_weekday_of cal y 3 Sun = Some ms" "last_sunday (civil y 4 1) ms" using last_sunday_of [OF cal y, of 3] by auto
  obtain os where os: "last_weekday_of cal y 10 Sun = Some os" "last_sunday (civil y 11 1) os" using last_sunday_of [OF cal y, of 10] by auto
  obtain my where my: "last_weekday_of cal y 5 Sun = Some my" "last_sunday (civil y 6 1) my" using last_sunday_of [OF cal y, of 5] by auto
  have june: "\<exists>s. nth_wd y 6 Sun n = Some s \<and> last_sunday (civil y 6 (7 * n + 1)) s" if n: "1 \<le> n" "n \<le> 4" for n
  proof -
    obtain k where "7 * n - 6 \<le> k" "k \<le> 7 * n" "nth_wd y 6 Sun n = Some (civil y 6 k)" "weekday_of (civil y 6 k) = Sun"
      using nth_okD [OF assms(2) y, of 6 n Sun] n by auto
    moreover from this have "civil y 6 (7 * n + 1) - 7 \<le> civil y 6 k" "civil y 6 k < civil y 6 (7 * n + 1)"
      unfolding civil_def by linarith+
    ultimately show ?thesis unfolding last_sunday_def by blast
  qed
  obtain fs where fs: "nth_wd y 6 Sun 3 = Some fs" "last_sunday (civil y 6 22) fs" using june [of 3] by auto
  obtain j where j: "nth_wd y 6 Sun 1 = Some j" "last_sunday (civil y 6 8) j" using june [of 1] by auto
  have fixed: "from_ymd cal y m d = Some (civil y m d)" if "1 \<le> m" "m \<le> 12" "1 \<le> d" "d \<le> month_length y m" for m d
    using gregorian_ymd [OF cal y that] .
  have moved: "after_easter cal (Some e) n = Some (e + n)" if "- 2 \<le> n" "n \<le> 50" for n
    using checked_in_year [OF cal y, of e n] e(2,3) that in_year [of y] by (simp add: after_easter_def march april)
  define mother where "mother = (if my = e + 49 then j else my)"
  have mother: "mothers_day cal nth_wd y (Some (e + 49)) = Some mother"
    using j(1) by (simp add: mothers_day_def my(1) mother_def)
  have "map nd_date (days_of_year cal nth_wd y alsace_moselle) =
        [civil y 1 1, civil y 5 1, civil y 5 8, civil y 7 14, civil y 8 15, civil y 11 1, civil y 11 11, civil y 12 25,
         e + 1, e + 39, e + 50, ms, os, mother, fs] @ (if alsace_moselle then [e - 2, civil y 12 26] else [])"
    unfolding days_of_year_def candidate_days_def Let_def e(1)
    by (rule dates_listed) (simp add: fixed moved ms(1) os(1) fs(1) mother month_length_def)
  moreover have "civil y 6 8 = civil y 6 1 + 7" by (simp add: civil_def)
  then have "mother \<noteq> e + 49" using j(2) my(2) unfolding mother_def last_sunday_def by (simp split: if_splits)
  ultimately show ?thesis using e(1) ms(2) os(2) my(2) j(2) fs(2) by (auto simp: mother_def)
qed

text \<open>
  C1. A year has its fifteen days, seventeen in Alsace-Moselle, with these dates: the fixed ones,
  those counted from Easter, the last Sundays of March and October, Mother's Day on the last Sunday
  of May, or on the first of June when that one is Pentecost, and Father's Day on the third of June.
\<close>

theorem days_of_a_year:
  assumes "gregorian cal" and "nth_ok nth_wd" and "MIN_YEAR \<le> y" and "y \<le> MAX_YEAR"
  shows "\<exists>e march october may mother father.
      easter_sunday cal y = Some e \<and> map nd_date (days_of_year cal nth_wd y alsace_moselle) =
        [civil y 1 1, civil y 5 1, civil y 5 8, civil y 7 14, civil y 8 15, civil y 11 1, civil y 11 11, civil y 12 25,
         e + 1, e + 39, e + 50, march, october, mother, father] @ (if alsace_moselle then [e - 2, civil y 12 26] else [])
    \<and> last_sunday (civil y 4 1) march \<and> last_sunday (civil y 11 1) october \<and> last_sunday (civil y 6 1) may
    \<and> (if may = e + 49 then last_sunday (civil y 6 8) mother else mother = may)
    \<and> last_sunday (civil y 6 22) father \<and> mother \<noteq> e + 49"
  using year_dates [OF assms] .

section \<open>A range of days\<close>

lemma days_in_year:
  assumes cal: "gregorian cal" and "nth_ok nth_wd" and y: "MIN_YEAR \<le> y" "y \<le> MAX_YEAR"
    and n: "n \<in> set (days_of_year cal nth_wd y alsace_moselle)"
  shows "new_year y \<le> nd_date n" "nd_date n < new_year (y + 1)"
proof -
  obtain e march october may mother father where d: "easter_sunday cal y = Some e"
    "map nd_date (days_of_year cal nth_wd y alsace_moselle) =
        [civil y 1 1, civil y 5 1, civil y 5 8, civil y 7 14, civil y 8 15, civil y 11 1, civil y 11 11, civil y 12 25,
         e + 1, e + 39, e + 50, march, october, mother, father] @ (if alsace_moselle then [e - 2, civil y 12 26] else [])"
    and s: "last_sunday (civil y 4 1) march" "last_sunday (civil y 11 1) october" "last_sunday (civil y 6 1) may"
      "if may = e + 49 then last_sunday (civil y 6 8) mother else mother = may" "last_sunday (civil y 6 22) father"
    using year_dates [OF assms(1-4), of alsace_moselle] by blast
  have e: "civil y 3 22 \<le> e" "e \<le> civil y 4 25" using easter_in_spring [OF cal y] d(1) by auto
  have "nd_date n \<in> set (map nd_date (days_of_year cal nth_wd y alsace_moselle))" using n by simp
  then have "new_year y \<le> nd_date n \<and> nd_date n < new_year (y + 1)"
    using e s unfolding d(2) by (auto simp: last_sunday_def civil_def year_length split: if_splits)
  then show "new_year y \<le> nd_date n" "nd_date n < new_year (y + 1)" by simp_all
qed

lemma year_unique:
  assumes "gregorian cal" and "new_year y \<le> d" and "d < new_year (y + 1)"
  shows "year_of cal d = y"
proof -
  have g: "new_year (year_of cal d) \<le> d" "d < new_year (year_of cal d + 1)" using assms(1) by (auto simp: gregorian_def)
  have "\<not> y < year_of cal d" using new_year_mono [of "y + 1" "year_of cal d"] assms(3) g(1) by auto
  moreover have "\<not> year_of cal d < y" using new_year_mono [of "year_of cal d + 1" y] assms(2) g(2) by auto
  ultimately show ?thesis by simp
qed

lemma year_mono:
  assumes "gregorian cal" and "d \<le> d2"
  shows "year_of cal d \<le> year_of cal d2"
proof (rule ccontr)
  assume "\<not> ?thesis"
  then have "new_year (year_of cal d2 + 1) \<le> new_year (year_of cal d)" by (intro new_year_mono) simp
  moreover have "d2 < new_year (year_of cal d2 + 1)" "new_year (year_of cal d) \<le> d" using assms(1) by (auto simp: gregorian_def)
  ultimately show False using assms(2) by simp
qed

text \<open>The years a range leaves out hold none of its days.\<close>

lemma days_of_years:
  assumes cal: "gregorian cal" and "nth_ok nth_wd" and r: "start \<le> stop" "MIN_YEAR \<le> a" "a \<le> year_of cal start" "year_of cal stop \<le> b" "b \<le> MAX_YEAR"
  shows "filter (\<lambda>n. start \<le> nd_date n \<and> nd_date n \<le> stop) (concat (map (\<lambda>y. days_of_year cal nth_wd y am) [a..b])) =
         filter (\<lambda>n. start \<le> nd_date n \<and> nd_date n \<le> stop) (concat (map (\<lambda>y. days_of_year cal nth_wd y am) [year_of cal start..year_of cal stop]))"
proof -
  let ?P = "\<lambda>n. start \<le> nd_date n \<and> nd_date n \<le> stop" and ?D = "\<lambda>y. days_of_year cal nth_wd y am"
  have out: "filter ?P (concat (map ?D ys)) = []"
    if ys: "\<forall>y \<in> set ys. MIN_YEAR \<le> y \<and> y \<le> MAX_YEAR \<and> (y < year_of cal start \<or> year_of cal stop < y)" for ys
  proof -
    have "\<not> ?P n" if n: "y \<in> set ys" "n \<in> set (?D y)" for y n
    proof
      assume "?P n"
      moreover have "year_of cal (nd_date n) = y"
        using ys n days_in_year [OF cal assms(2), of y n am] by (intro year_unique [OF cal]) auto
      ultimately show False using ys n(1) year_mono [OF cal, of start "nd_date n"] year_mono [OF cal, of "nd_date n" stop] by auto
    qed
    then show ?thesis by (auto simp: filter_empty_conv)
  qed
  have "[a..b] = [a..year_of cal start - 1] @ [year_of cal start..year_of cal stop] @ [year_of cal stop + 1..b]"
    using r year_mono [OF cal r(1)] upto_split1 [of a "year_of cal start" b] upto_split2 [of "year_of cal start" "year_of cal stop" b] by simp
  moreover have "filter ?P (concat (map ?D [a..year_of cal start - 1])) = []" "filter ?P (concat (map ?D [year_of cal stop + 1..b])) = []"
    using r year_mono [OF cal r(1)] by (auto intro!: out)
  ultimately show ?thesis by simp
qed

lemma sort_key_split:
  "sort_key f zs = sort_key f (filter (\<lambda>n. f n \<le> m) zs) @ sort_key f (filter (\<lambda>n. \<not> f n \<le> m) zs)" for m :: "'k::linorder"
proof (rule properties_for_sort_key)
  show "mset (sort_key f (filter (\<lambda>n. f n \<le> m) zs) @ sort_key f (filter (\<lambda>n. \<not> f n \<le> m) zs)) = mset zs" by simp
  show "sorted (map f (sort_key f (filter (\<lambda>n. f n \<le> m) zs) @ sort_key f (filter (\<lambda>n. \<not> f n \<le> m) zs)))"
    by (auto simp: sorted_append)
  show "filter (\<lambda>x. f k = f x) (sort_key f (filter (\<lambda>n. f n \<le> m) zs) @ sort_key f (filter (\<lambda>n. \<not> f n \<le> m) zs)) = filter (\<lambda>x. f k = f x) zs" for k
  proof -
    have "filter (\<lambda>x. f x \<le> m \<and> f x = f k) zs = (if f k \<le> m then filter (\<lambda>x. f x = f k) zs else [])"
      "filter (\<lambda>x. \<not> f x \<le> m \<and> f x = f k) zs = (if f k \<le> m then [] else filter (\<lambda>x. f x = f k) zs)"
      by (auto simp: filter_empty_conv intro!: filter_cong)
    then have "filter (\<lambda>x. f x = f k) (sort_key f (filter (\<lambda>n. f n \<le> m) zs) @ sort_key f (filter (\<lambda>n. \<not> f n \<le> m) zs)) = filter (\<lambda>x. f x = f k) zs"
      by (simp add: sort_key_stable)
    then show ?thesis by (simp only: eq_commute [of "f k"])
  qed
qed

text \<open>
  A range lists its days in order, every day of any year that falls in it and no other; and
  cutting it in two cuts the list: the weeks or months of a view show what the year shows.
\<close>

theorem range_of_days:
  assumes "gregorian cal" and "nth_ok nth_wd" and "start \<le> middle" and "middle < stop"
    and "MIN_YEAR \<le> year_of cal start" and "year_of cal stop \<le> MAX_YEAR"
  shows "sorted (map nd_date (national_days cal nth_wd start stop am))
    \<and> (n \<in> set (national_days cal nth_wd start stop am) \<longleftrightarrow>
         start \<le> nd_date n \<and> nd_date n \<le> stop \<and> (\<exists>y. MIN_YEAR \<le> y \<and> y \<le> MAX_YEAR \<and> n \<in> set (days_of_year cal nth_wd y am)))
    \<and> national_days cal nth_wd start stop am = national_days cal nth_wd start middle am @ national_days cal nth_wd (middle + 1) stop am"
proof -
  let ?D = "\<lambda>y. days_of_year cal nth_wd y am"
  let ?all = "concat (map ?D [year_of cal start..year_of cal stop])"
  note cal = assms(1)
  have mono: "year_of cal start \<le> year_of cal (middle + 1)" "year_of cal middle \<le> year_of cal stop" "year_of cal start \<le> year_of cal stop"
    using assms(3,4) by (auto intro!: year_mono [OF cal])
  have whole: "national_days cal nth_wd start stop am = sort_key nd_date (filter (\<lambda>n. start \<le> nd_date n \<and> nd_date n \<le> stop) ?all)"
    using assms(3,4) by (simp add: national_days_def)
  have "national_days cal nth_wd start middle am = sort_key nd_date (filter (\<lambda>n. start \<le> nd_date n \<and> nd_date n \<le> middle) ?all)"
    using assms mono days_of_years [OF cal assms(2), of start middle "year_of cal start" "year_of cal stop" am] by (simp add: national_days_def)
  moreover have "national_days cal nth_wd (middle + 1) stop am = sort_key nd_date (filter (\<lambda>n. middle + 1 \<le> nd_date n \<and> nd_date n \<le> stop) ?all)"
    using assms mono days_of_years [OF cal assms(2), of "middle + 1" stop "year_of cal start" "year_of cal stop" am] by (simp add: national_days_def)
  moreover have "filter (\<lambda>n. nd_date n \<le> middle) (filter (\<lambda>n. start \<le> nd_date n \<and> nd_date n \<le> stop) ?all) = filter (\<lambda>n. start \<le> nd_date n \<and> nd_date n \<le> middle) ?all"
    "filter (\<lambda>n. \<not> nd_date n \<le> middle) (filter (\<lambda>n. start \<le> nd_date n \<and> nd_date n \<le> stop) ?all) = filter (\<lambda>n. middle + 1 \<le> nd_date n \<and> nd_date n \<le> stop) ?all"
    using assms(3,4) by (auto simp only: filter_filter intro!: filter_cong)
  ultimately have cut: "national_days cal nth_wd start stop am = national_days cal nth_wd start middle am @ national_days cal nth_wd (middle + 1) stop am"
    unfolding whole by (subst sort_key_split [of nd_date _ middle]) simp
  have every: "n \<in> set ?all" if d: "start \<le> nd_date n" "nd_date n \<le> stop" and y: "MIN_YEAR \<le> y" "y \<le> MAX_YEAR" "n \<in> set (?D y)" for y
  proof -
    have "year_of cal (nd_date n) = y" using days_in_year [OF cal assms(2) y] by (intro year_unique [OF cal])
    then have "y \<in> set [year_of cal start..year_of cal stop]" using year_mono [OF cal d(1)] year_mono [OF cal d(2)] by simp
    then show ?thesis using y(3) by auto
  qed
  have "n \<in> set (national_days cal nth_wd start stop am) \<longleftrightarrow>
         start \<le> nd_date n \<and> nd_date n \<le> stop \<and> (\<exists>y. MIN_YEAR \<le> y \<and> y \<le> MAX_YEAR \<and> n \<in> set (?D y))"
  proof -
    have "\<exists>y. MIN_YEAR \<le> y \<and> y \<le> MAX_YEAR \<and> n \<in> set (?D y)" if mem: "n \<in> set ?all"
    proof -
      obtain y where "y \<in> {year_of cal start..year_of cal stop}" "n \<in> set (?D y)" using mem by auto
      then show ?thesis using assms(5,6) by (intro exI [of _ y]) simp
    qed
    then show ?thesis unfolding whole using every by auto
  qed
  moreover have "sorted (map nd_date (national_days cal nth_wd start stop am))" unfolding whole by simp
  ultimately show ?thesis using cut by blast
qed

section \<open>A calendar\<close>

text \<open>The Gregorian calendar, computed.\<close>

definition proleptic :: calendar where
  "proleptic = \<lparr>from_ymd = (\<lambda>y m d. if MIN_YEAR \<le> y \<and> y \<le> MAX_YEAR \<and> 1 \<le> m \<and> m \<le> 12 \<and> 1 \<le> d \<and> d \<le> month_length y m then Some (civil y m d) else None),
     min_date = civil MIN_YEAR 1 1, max_date = civil MAX_YEAR 12 31, show_ymd = (\<lambda>_. []), read_ymd = (\<lambda>_. None), show_stamp = (\<lambda>_. []),
     year_of = (\<lambda>d. let x = 400 * d div 146097 in if new_year (x + 2) \<le> d then x + 2 else x + 1)\<rparr>"

definition proleptic_nth :: "int \<Rightarrow> nat \<Rightarrow> weekday \<Rightarrow> nat \<Rightarrow> date option" where
  "proleptic_nth y m w n =
     Some (civil y m (nat ((int (num_days_from_monday w) - civil y m 1) mod 7) + 7 * n - 6))"

lemma new_year_rate: "146097 * x - 699 \<le> 400 * new_year (x + 1)" "400 * new_year (x + 1) \<le> 146097 * x + 396"
proof -
  have "400 * new_year (x + 1) = 146000 * x + 100 * (4 * (x div 4)) - 4 * (100 * (x div 100)) + 400 * (x div 400)"
    by (simp add: new_year_def)
  also have "\<dots> = 146097 * x - 100 * (x mod 4) + 4 * (x mod 100) - x mod 400"
    by (simp add: minus_mod_eq_mult_div [symmetric])
  finally have e: "400 * new_year (x + 1) = 146097 * x - 100 * (x mod 4) + 4 * (x mod 100) - x mod 400" .
  have "0 \<le> x mod 4" "x mod 4 \<le> 3" "0 \<le> x mod 100" "x mod 100 \<le> 99" "0 \<le> x mod 400" "x mod 400 \<le> 399"
    using pos_mod_bound [of 4 x] pos_mod_bound [of 100 x] pos_mod_bound [of 400 x] by simp_all
  then show "146097 * x - 699 \<le> 400 * new_year (x + 1)" "400 * new_year (x + 1) \<le> 146097 * x + 396" unfolding e by linarith+
qed

lemma proleptic_ok: "gregorian proleptic"
proof -
  have "new_year (year_of proleptic d) \<le> d \<and> d < new_year (year_of proleptic d + 1)" for d
  proof -
    define x where "x = 400 * d div 146097"
    have x: "146097 * x \<le> 400 * d" "400 * d < 146097 * x + 146097"
      using mult_div_mod_eq [of 146097 "400 * d"] pos_mod_bound [of 146097 "400 * d"] pos_mod_sign [of 146097 "400 * d"]
      unfolding x_def by linarith+
    have "new_year (x + 1) \<le> d" using new_year_rate(2) [of x] x(1) by linarith
    moreover have "d < new_year (x + 2 + 1)" using new_year_rate(1) [of "x + 2"] x(2) by (simp add: algebra_simps)
    ultimately show ?thesis by (simp add: proleptic_def x_def [symmetric] Let_def add.assoc)
  qed
  then show ?thesis unfolding gregorian_def by (auto simp: proleptic_def)
qed

lemma proleptic_nth_ok: "nth_ok proleptic_nth"
  unfolding nth_ok_def
proof (intro allI impI)
  fix y :: int and m n :: nat and w
  assume "MIN_YEAR \<le> y \<and> y \<le> MAX_YEAR \<and> 1 \<le> m \<and> m \<le> 12 \<and> 1 \<le> n \<and> n \<le> 4"
  then have n: "1 \<le> n" by simp
  define r where "r = (int (num_days_from_monday w) - civil y m 1) mod 7"
  define k where "k = nat r + 7 * n - 6"
  have r: "0 \<le> r" "r \<le> 6" using pos_mod_bound [of 7 "int (num_days_from_monday w) - civil y m 1"] by (simp_all add: r_def)
  then have k: "7 * n - 6 \<le> k" "k \<le> 7 * n" "int k = r + 7 * int n - 6" using n by (auto simp: k_def)
  have "civil y m k = civil y m 1 + r + 7 * (int n - 1)" using k(3) by (simp add: civil_def)
  then have "civil y m k mod 7 = (civil y m 1 + r) mod 7" by (simp only: mod_mult_self2)
  also have "\<dots> = int (num_days_from_monday w) mod 7" by (simp add: r_def mod_simps)
  also have "\<dots> = int (num_days_from_monday w)" by (cases w) simp_all
  finally have "weekday_of (civil y m k) = w" by (simp add: weekday_of_iff)
  moreover have "proleptic_nth y m w n = Some (civil y m k)" by (simp add: proleptic_nth_def k_def r_def)
  ultimately show "\<exists>k. 7 * n - 6 \<le> k \<and> k \<le> 7 * n \<and> proleptic_nth y m w n = Some (civil y m k) \<and> weekday_of (civil y m k) = w"
    using k by blast
qed

text \<open>Easter 2026 is on 5 April, the full moon on 2 April; 2285 and 2038 have the earliest and the latest date.\<close>

lemma easter_after_the_full_moon_witness:
  "easter_sunday proleptic 2026 = Some (civil 2026 4 5) \<and> weekday_of (civil 2026 4 5) = Sun \<and> paschal_moon 2026 = 33
   \<and> easter_sunday proleptic 2285 = Some (civil 2285 3 22) \<and> easter_sunday proleptic 2038 = Some (civil 2038 4 25)"
proof -
  have "moon_days 2026 = 12" "moon_days 2285 = 0" "moon_days 2038 = 29" by (simp_all add: moon_days_def)
  moreover from this have "sunday_days 2026 = 2" "sunday_days 2285 = 0" "sunday_days 2038 = 5" by (simp_all add: sunday_days_def)
  ultimately have "easter_sunday proleptic 2026 = Some (civil 2026 4 5)" "easter_sunday proleptic 2285 = Some (civil 2285 3 22)"
    "easter_sunday proleptic 2038 = Some (civil 2038 4 25)"
    by (simp_all add: easter_counted [OF proleptic_ok] MIN_YEAR_def MAX_YEAR_def april march)
  moreover have "paschal_moon 2026 = 33" by (simp add: paschal_moon_def epact_def)
  moreover have "MIN_YEAR \<le> 2026" "2026 \<le> MAX_YEAR" by (simp_all add: MIN_YEAR_def MAX_YEAR_def)
  then obtain e where "easter_sunday proleptic 2026 = Some e" "weekday_of e = Sun"
    using easter_after_the_full_moon [OF proleptic_ok] by blast
  ultimately show ?thesis by simp
qed

lemma last_sunday_unique: "last_sunday d s \<Longrightarrow> last_sunday d t \<Longrightarrow> s = t"
proof -
  assume "last_sunday d s" and "last_sunday d t"
  then have "(s - t) mod 7 = 0" "- 7 < s - t" "s - t < 7"
    by (auto simp: last_sunday_def weekday_of_iff mod_diff_eq [of s 7 t, symmetric])
  then show "s = t" by presburger
qed

text \<open>In 2020 the last Sunday of May was Pentecost: Mother's Day was on 7 June.\<close>

lemma days_of_a_year_witness:
  "easter_sunday proleptic 2020 = Some (civil 2020 5 31 - 49) \<and> last_sunday (civil 2020 6 1) (civil 2020 5 31)
   \<and> civil 2020 6 7 \<in> set (map nd_date (days_of_year proleptic proleptic_nth 2020 True))
   \<and> length (days_of_year proleptic proleptic_nth 2020 True) = 17"
proof -
  have c: "civil 2020 m d = 737424 + int ([0, 31, 59, 90, 120, 151, 181, 212, 243, 273, 304, 334] ! (m - 1)) + (if 2 < m then 1 else 0) + int d - 1" for m d
    by (simp add: civil_def new_year_def leap_def)
  have y: "MIN_YEAR \<le> 2020" "2020 \<le> MAX_YEAR" by (simp_all add: MIN_YEAR_def MAX_YEAR_def)
  have easter: "easter_sunday proleptic 2020 = Some (civil 2020 5 31 - 49)"
  proof -
    have "moon_days 2020 = 18" by (simp add: moon_days_def)
    moreover from this have "sunday_days 2020 = 3" by (simp add: sunday_days_def)
    ultimately show ?thesis by (simp add: easter_counted [OF proleptic_ok y] late_def c)
  qed
  have sundays: "last_sunday (civil 2020 6 1) (civil 2020 5 31)" "last_sunday (civil 2020 6 8) (civil 2020 6 7)"
    by (simp_all add: last_sunday_def weekday_of_iff c)
  obtain e march october may mother father where d: "easter_sunday proleptic 2020 = Some e"
    "map nd_date (days_of_year proleptic proleptic_nth 2020 True) =
        [civil 2020 1 1, civil 2020 5 1, civil 2020 5 8, civil 2020 7 14, civil 2020 8 15, civil 2020 11 1, civil 2020 11 11, civil 2020 12 25,
         e + 1, e + 39, e + 50, march, october, mother, father] @ (if True then [e - 2, civil 2020 12 26] else [])"
    "last_sunday (civil 2020 6 1) may" "if may = e + 49 then last_sunday (civil 2020 6 8) mother else mother = may"
    using days_of_a_year [OF proleptic_ok proleptic_nth_ok y, of True] by blast
  have "may = civil 2020 5 31" using last_sunday_unique [OF d(3) sundays(1)] .
  moreover have "e + 49 = civil 2020 5 31" using d(1) easter by simp
  ultimately have "last_sunday (civil 2020 6 8) mother" using d(4) by simp
  then have "mother = civil 2020 6 7" using sundays(2) by (rule last_sunday_unique)
  then have "civil 2020 6 7 \<in> set (map nd_date (days_of_year proleptic proleptic_nth 2020 True))" unfolding d(2) by simp
  moreover have "length (map nd_date (days_of_year proleptic proleptic_nth 2020 True)) = 17" unfolding d(2) by simp
  ultimately show ?thesis using easter sundays(1) by (simp only: length_map simp_thms)
qed

text \<open>The last week of 2026, cut at the new year of 2027: Christmas, Saint Stephen's Day, the first of January.\<close>

lemma range_of_days_witness:
  "national_days proleptic proleptic_nth (civil 2026 12 24) (civil 2027 1 6) True =
     national_days proleptic proleptic_nth (civil 2026 12 24) (civil 2026 12 31) True @
     national_days proleptic proleptic_nth (civil 2026 12 31 + 1) (civil 2027 1 6) True"
proof -
  have c: "civil 2026 12 d = 739616 + 334 + int d - 1" "civil 2027 1 d = 739981 + int d - 1" for d
    by (simp_all add: civil_def new_year_def leap_def)
  have "year_of proleptic (civil 2026 12 24) = 2026" "year_of proleptic (civil 2027 1 6) = 2027"
    by (rule year_unique [OF proleptic_ok]; simp add: c new_year_def del: One_nat_def)+
  then show ?thesis
    using range_of_days [OF proleptic_ok proleptic_nth_ok, of "civil 2026 12 24" "civil 2026 12 31" "civil 2027 1 6"]
    by (simp add: c MIN_YEAR_def MAX_YEAR_def del: One_nat_def)
qed

end
