(* ===== verification/School_Holidays.thy ===== *)
theory School_Holidays
  imports National_Days Family_Groups "HOL-Library.List_Lexorder"
begin

text \<open>
  School holidays (\<open>apps/api/src/agenda/school_holidays.rs\<close>): the calendar read from the open data
  of the ministry, its cache, the daily refresh (\<open>jobs/school_holidays.rs\<close>), and the list a family
  gets with the national days (\<open>agenda/national_days.rs\<close>). The HTTP exchange and the JSON parser are
  third-party: the answer is a \<open>json\<close>, or none. \<open>rfc\<close> parses an RFC 3339 instant.
\<close>

section \<open>The answer\<close>

text \<open>\<open>serde_json::Value\<close>: a number is \<open>Some\<close> where \<open>as_u64\<close> is.\<close>

datatype json = Null | Bool bool | Num "nat option" | Str utext | Arr "json list" | Obj "(utext \<times> json) list"

fun json_get :: "json \<Rightarrow> string \<Rightarrow> json option" where
  "json_get (Obj m) field = map_of m (chars field)"
| "json_get _ field = None"

definition PAGE_LIMIT :: nat where
  "PAGE_LIMIT = 100"

record school_holiday =
  sh_zone :: school_zone
  sh_label :: utext
  sh_starts :: date
  sh_ends :: date
  sh_year :: utext

datatype calendar_error =
    UnexpectedShape
  | Truncated nat nat
  | BadField nat string
  | EndBeforeStart nat
  | Conflict school_zone utext date
  | MissingZone school_zone utext

definition all_zones :: "school_zone list" where
  "all_zones = [Zone_A, Zone_B, Zone_C]"

definition zone_of_text :: "utext \<Rightarrow> school_zone option" where
  "zone_of_text value = find (\<lambda>z. chars (zone_str z) = value) all_zones"

section \<open>School years\<close>

text \<open>\<open>format!("{n}")\<close> of an \<open>i32\<close>.\<close>

definition show_int :: "int \<Rightarrow> utext" where
  "show_int n = (if n < 0 then 45 # chars (show_nat (nat (- n))) else chars (show_nat (nat n)))"

definition first_year :: "calendar \<Rightarrow> (date \<Rightarrow> nat) \<Rightarrow> date \<Rightarrow> int" where
  "first_year cal month_of day = (if month_of day \<ge> 9 then year_of cal day else year_of cal day - 1)"

definition school_year_of :: "calendar \<Rightarrow> (date \<Rightarrow> nat) \<Rightarrow> date \<Rightarrow> utext" where
  "school_year_of cal month_of day = (let first = first_year cal month_of day in show_int first @ [45] @ show_int (first + 1))"

definition school_years :: "calendar \<Rightarrow> (date \<Rightarrow> nat) \<Rightarrow> date \<Rightarrow> utext \<times> utext" where
  "school_years cal month_of today =
     (let first = first_year cal month_of today
      in (show_int first @ [45] @ show_int (first + 1), show_int (first + 1) @ [45] @ show_int (first + 2)))"

text \<open>The address asked, and its query.\<close>

definition RECORDS_PATH :: string where
  "RECORDS_PATH = ''/api/explore/v2.1/catalog/datasets/fr-en-calendrier-scolaire/records''"

definition records_url :: "string \<Rightarrow> string" where
  "records_url base_url = rev (dropWhile (\<lambda>c. c = CHR ''/'') (rev base_url)) @ RECORDS_PATH"

definition records_query :: "utext \<times> utext \<Rightarrow> (string \<times> utext) list" where
  "records_query years =
     (let zones = join_with [44] (map (\<lambda>z. [34] @ chars ''Zone '' @ chars (zone_str z) @ [34]) all_zones)
      in [(''where'', chars ''annee_scolaire in ('' @ [34] @ fst years @ [34, 44, 34] @ snd years @ [34] @ chars '') and zones in ('' @ zones @ chars '')''),
          (''group_by'', chars ''zones,annee_scolaire,description,population,start_date,end_date''),
          (''limit'', chars (show_nat PAGE_LIMIT))])"

section \<open>Reading the rows\<close>

definition KEPT_POPULATIONS :: "utext list" where
  "KEPT_POPULATIONS = [chars ''-'', [201] @ chars ''l'' @ [232] @ chars ''ves'']"

definition row_text :: "nat \<Rightarrow> json \<Rightarrow> string \<Rightarrow> calendar_error + utext" where
  "row_text index row field = (case json_get row field of Some (Str s) \<Rightarrow> Inr s | _ \<Rightarrow> Inl (BadField index field))"

definition row_day :: "(utext \<Rightarrow> instant option) \<Rightarrow> zone \<Rightarrow> nat \<Rightarrow> json \<Rightarrow> string \<Rightarrow> calendar_error + date" where
  "row_day rfc z index row field =
     (case row_text index row field of
        Inl e \<Rightarrow> Inl e
      | Inr s \<Rightarrow> (case rfc s of None \<Rightarrow> Inl (BadField index field) | Some t \<Rightarrow> Inr (paris_date z t)))"

text \<open>The two days of a row, once it is kept.\<close>

definition row_period ::
    "(utext \<Rightarrow> instant option) \<Rightarrow> zone \<Rightarrow> nat \<Rightarrow> json \<Rightarrow> school_zone \<Rightarrow> utext \<Rightarrow> utext \<Rightarrow> calendar_error + school_holiday" where
  "row_period rfc z index row zn label school_year =
     (case row_day rfc z index row ''start_date'' of Inl e \<Rightarrow> Inl e | Inr starts_on \<Rightarrow>
      case row_day rfc z index row ''end_date'' of Inl e \<Rightarrow> Inl e | Inr resumes_on \<Rightarrow>
        if resumes_on < starts_on then Inl (EndBeforeStart index)
        else let ends_on = (if resumes_on = starts_on then starts_on else resumes_on - 1)
             in Inr \<lparr>sh_zone = zn, sh_label = label, sh_starts = starts_on, sh_ends = ends_on, sh_year = school_year\<rparr>)"

text \<open>One turn of the loop: \<open>None\<close> is a row left out.\<close>

definition read_row ::
    "(utext \<Rightarrow> instant option) \<Rightarrow> zone \<Rightarrow> utext \<times> utext \<Rightarrow> nat \<Rightarrow> json \<Rightarrow> calendar_error + school_holiday option" where
  "read_row rfc z years index row =
     (case row_text index row ''zones'' of Inl e \<Rightarrow> Inl e | Inr zones \<Rightarrow>
      case (case strip_prefix (chars ''Zone '') zones of None \<Rightarrow> None | Some t \<Rightarrow> zone_of_text t) of None \<Rightarrow> Inr None | Some zn \<Rightarrow>
      case row_text index row ''annee_scolaire'' of Inl e \<Rightarrow> Inl e | Inr school_year \<Rightarrow>
      if \<not> (school_year = fst years \<or> school_year = snd years) then Inr None else
      case row_text index row ''population'' of Inl e \<Rightarrow> Inl e | Inr population \<Rightarrow>
      if population \<notin> set KEPT_POPULATIONS then Inr None else
      case row_text index row ''description'' of Inl e \<Rightarrow> Inl e | Inr description \<Rightarrow>
        (let label = trim_text description
         in if label = [] then Inl (BadField index ''description'')
            else if starts_with (chars ''Pont'') label then Inr None
            else map_sum id Some (row_period rfc z index row zn label school_year)))"

text \<open>The \<open>BTreeMap\<close> is the list of its entries in the order of its keys.\<close>

type_synonym period_key = "string \<times> date \<times> utext"

definition period_key :: "school_holiday \<Rightarrow> period_key" where
  "period_key p = (zone_str (sh_zone p), sh_starts p, sh_label p)"

fun parse_rows ::
    "(utext \<Rightarrow> instant option) \<Rightarrow> zone \<Rightarrow> utext \<times> utext \<Rightarrow> json list \<Rightarrow> nat \<Rightarrow> (period_key \<times> school_holiday) list \<Rightarrow>
     calendar_error + (period_key \<times> school_holiday) list" where
  "parse_rows rfc z years [] index periods = Inr periods"
| "parse_rows rfc z years (row # rows) index periods =
     (case read_row rfc z years index row of
        Inl e \<Rightarrow> Inl e
      | Inr None \<Rightarrow> parse_rows rfc z years rows (index + 1) periods
      | Inr (Some period) \<Rightarrow>
          (case map_of periods (period_key period) of
             None \<Rightarrow> parse_rows rfc z years rows (index + 1) (insort_key fst (period_key period, period) periods)
           | Some seen \<Rightarrow>
               if seen = period then parse_rows rfc z years rows (index + 1) periods
               else Inl (Conflict (sh_zone period) (sh_label period) (sh_starts period))))"

definition missing_zone :: "utext \<Rightarrow> school_holiday list \<Rightarrow> school_zone option" where
  "missing_zone year periods = find (\<lambda>zn. \<not> list_ex (\<lambda>p. sh_zone p = zn \<and> sh_year p = year) periods) all_zones"

definition parse_calendar ::
    "(utext \<Rightarrow> instant option) \<Rightarrow> zone \<Rightarrow> json \<Rightarrow> utext \<times> utext \<Rightarrow> calendar_error + school_holiday list" where
  "parse_calendar rfc z body years =
     (case json_get body ''results'' of
        Some (Arr rows) \<Rightarrow>
          (case (case json_get body ''total_count'' of Some (Num (Some total_count)) \<Rightarrow> if total_count > length rows then Some total_count else None | _ \<Rightarrow> None) of
             Some total_count \<Rightarrow> Inl (Truncated total_count (length rows))
           | None \<Rightarrow>
               (case parse_rows rfc z years rows 0 [] of
                  Inl e \<Rightarrow> Inl e
                | Inr periods \<Rightarrow>
                    (case missing_zone (fst years) (map snd periods) of
                       Some zn \<Rightarrow> Inl (MissingZone zn (fst years))
                     | None \<Rightarrow> Inr (map snd periods))))
      | _ \<Rightarrow> Inl UnexpectedShape)"

section \<open>The cache\<close>

text \<open>
  The table \<open>school_holidays\<close>: its \<open>CHECK\<close>s and its primary key. A statement that breaks one of
  them fails, and the transaction leaves the rows as they were.
\<close>

definition is_year_digit :: "nat \<Rightarrow> bool" where
  "is_year_digit c \<longleftrightarrow> 48 \<le> c \<and> c \<le> 57"

definition year_span_text :: "utext \<Rightarrow> bool" where
  "year_span_text y \<longleftrightarrow> length y = 9 \<and> list_all is_year_digit (take 4 y) \<and> y ! 4 = 45 \<and> list_all is_year_digit (drop 5 y)"

definition row_checks :: "school_holiday \<Rightarrow> bool" where
  "row_checks p \<longleftrightarrow> dropWhile (\<lambda>c. c = 32) (sh_label p) \<noteq> [] \<and> year_span_text (sh_year p) \<and> sh_starts p \<le> sh_ends p"

definition cache_ok :: "school_holiday list \<Rightarrow> bool" where
  "cache_ok rows \<longleftrightarrow> distinct (map period_key rows) \<and> list_all row_checks rows"

definition replace_cache :: "school_holiday list \<Rightarrow> utext \<times> utext \<Rightarrow> school_holiday list \<Rightarrow> school_holiday list option" where
  "replace_cache cache years periods =
     (let kept = filter (\<lambda>p. \<not> (sh_year p = fst years \<or> sh_year p = snd years)) cache;
          rows = kept @ periods
      in if cache_ok rows then Some rows else None)"

text \<open>\<open>ORDER BY starts_on, label\<close>, in the collation of the database.\<close>

definition periods_overlapping :: "(utext \<Rightarrow> 'k::linorder) \<Rightarrow> school_holiday list \<Rightarrow> school_zone \<Rightarrow> date \<Rightarrow> date \<Rightarrow> school_holiday list" where
  "periods_overlapping collate cache zn start stop =
     sort_key (\<lambda>p. (sh_starts p, collate (sh_label p)))
       (filter (\<lambda>p. sh_zone p = zn \<and> sh_starts p \<le> stop \<and> sh_ends p \<ge> start) cache)"

text \<open>One pass of the job: what it cached, and the rows it leaves. \<open>answer\<close> is the JSON that came back, if any.\<close>

datatype refresh_error = No_answer | Refused_answer calendar_error | Cache_failed

definition refresh ::
    "calendar \<Rightarrow> (date \<Rightarrow> nat) \<Rightarrow> (utext \<Rightarrow> instant option) \<Rightarrow> zone \<Rightarrow> (string \<Rightarrow> (string \<times> utext) list \<Rightarrow> json option) \<Rightarrow>
     string \<Rightarrow> date \<Rightarrow> school_holiday list \<Rightarrow> (refresh_error + nat) \<times> school_holiday list" where
  "refresh cal month_of rfc z http_get base_url today cache =
     (let years = school_years cal month_of today
      in case http_get (records_url base_url) (records_query years) of None \<Rightarrow> (Inl No_answer, cache) | Some body \<Rightarrow>
         case parse_calendar rfc z body years of Inl e \<Rightarrow> (Inl (Refused_answer e), cache) | Inr periods \<Rightarrow>
         case replace_cache cache years periods of None \<Rightarrow> (Inl Cache_failed, cache) | Some rows \<Rightarrow> (Inr (length periods), rows))"

section \<open>What a family gets\<close>

record listed_day =
  ld_date :: date
  ld_kind :: string
  ld_label :: utext
  ld_end :: "date option"

definition SCHOOL_HOLIDAY :: string where
  "SCHOOL_HOLIDAY = ''school_holiday''"

datatype list_error = Bad_range string | Group_not_found

text \<open>\<open>group_row\<close> is the row of the group, when the caller is one of its members.\<close>

definition list_national_days ::
    "calendar \<Rightarrow> (int \<Rightarrow> nat \<Rightarrow> weekday \<Rightarrow> nat \<Rightarrow> date option) \<Rightarrow> (utext \<Rightarrow> 'k::linorder) \<Rightarrow> school_holiday list \<Rightarrow>
     (bool \<times> utext option) option \<Rightarrow> date \<Rightarrow> date \<Rightarrow> list_error + listed_day list" where
  "list_national_days cal nth_wd collate cache group_row start stop =
     (case validate_national_days_range start stop of Inl code \<Rightarrow> Inl (Bad_range code) | Inr _ \<Rightarrow>
      case group_row of None \<Rightarrow> Inl Group_not_found | Some (alsace_moselle, school_zone) \<Rightarrow>
        (let holidays = (case (case school_zone of None \<Rightarrow> None | Some s \<Rightarrow> zone_of_text s) of
                           Some zn \<Rightarrow> periods_overlapping collate cache zn start stop
                         | None \<Rightarrow> []);
             days = map (\<lambda>n. \<lparr>ld_date = nd_date n, ld_kind = day_kind_str (nd_kind n), ld_label = nd_label n, ld_end = None\<rparr>)
                      (national_days cal nth_wd start stop alsace_moselle)
                    @ map (\<lambda>h. \<lparr>ld_date = sh_starts h, ld_kind = SCHOOL_HOLIDAY, ld_label = sh_label h, ld_end = Some (sh_ends h)\<rparr>) holidays
         in Inr (sort_key ld_date days)))"

section \<open>What reading keeps\<close>

text \<open>A period as the documentation of the module describes it.\<close>

definition period_ok :: "utext \<times> utext \<Rightarrow> school_holiday \<Rightarrow> bool" where
  "period_ok years p \<longleftrightarrow> (sh_year p = fst years \<or> sh_year p = snd years) \<and> sh_starts p \<le> sh_ends p \<and>
     sh_label p \<noteq> [] \<and> \<not> is_whitespace (hd (sh_label p)) \<and> \<not> is_whitespace (last (sh_label p)) \<and> \<not> starts_with (chars ''Pont'') (sh_label p)"

lemma trim_ends: "trim_by ws s \<noteq> [] \<Longrightarrow> \<not> ws (hd (trim_by ws s)) \<and> \<not> ws (last (trim_by ws s))"
proof -
  let ?a = "dropWhile ws s"
  assume "trim_by ws s \<noteq> []"
  then have ne: "dropWhile ws (rev ?a) \<noteq> []" by (simp add: trim_by_def)
  then have "\<not> ws (hd (dropWhile ws (rev ?a)))" by (rule hd_dropWhile)
  then have last: "\<not> ws (last (trim_by ws s))" by (simp add: trim_by_def last_rev)
  have "?a \<noteq> []" using ne by (auto dest: set_dropWhileD)
  then have "\<not> ws (hd ?a)" by (rule hd_dropWhile)
  moreover have "hd (trim_by ws s) = hd ?a"
  proof -
    have "rev ?a = takeWhile ws (rev ?a) @ dropWhile ws (rev ?a)" by simp
    then have "?a = rev (dropWhile ws (rev ?a)) @ rev (takeWhile ws (rev ?a))" by (metis rev_append rev_rev_ident)
    then have "hd ?a = hd (rev (dropWhile ws (rev ?a)))" using ne by (metis hd_append2 rev_is_Nil_conv)
    then show ?thesis by (simp add: trim_by_def)
  qed
  ultimately show ?thesis using last by simp
qed

text \<open>The position of a row only shows in its errors.\<close>

fun at_row :: "nat \<Rightarrow> calendar_error \<Rightarrow> calendar_error" where
  "at_row j (BadField i field) = BadField j field"
| "at_row j (EndBeforeStart i) = EndBeforeStart j"
| "at_row j e = e"

lemma row_text_at: "row_text j row f = map_sum (at_row j) id (row_text i row f)"
  by (simp add: row_text_def split: option.splits json.splits)

lemma row_day_at: "row_day rfc z j row f = map_sum (at_row j) id (row_day rfc z i row f)"
  unfolding row_day_def row_text_at [of j row f i] by (simp split: sum.splits option.splits)

lemma row_period_at: "row_period rfc z j row zn l y = map_sum (at_row j) id (row_period rfc z i row zn l y)"
  unfolding row_period_def row_day_at [of rfc z j row _ i] by (simp split: sum.splits)

lemma read_row_at: "read_row rfc z years j row = map_sum (at_row j) id (read_row rfc z years i row)"
proof -
  have p: "map_sum id Some (map_sum (at_row j) id x) = map_sum (at_row j) id (map_sum id Some x)" for x :: "calendar_error + school_holiday"
    by (cases x) simp_all
  show ?thesis unfolding read_row_def Let_def row_text_at [of j row _ i] row_period_at [of rfc z j row _ _ _ i] p
    by (simp split: sum.splits option.splits)
qed

lemma read_row_index: "read_row rfc z years i row = Inr r \<longleftrightarrow> read_row rfc z years j row = Inr r"
  unfolding read_row_at [of rfc z years i row j] by (cases "read_row rfc z years j row") simp_all

lemma map_sum_Some: "map_sum id Some x = Inr (Some p) \<longleftrightarrow> x = Inr p"
  by (cases x) auto

lemma read_row_period_ok: "read_row rfc z years i row = Inr (Some p) \<Longrightarrow> period_ok years p"
proof -
  assume "read_row rfc z years i row = Inr (Some p)"
  then have "\<exists>zn y d. row_period rfc z i row zn (trim_text d) y = Inr p \<and> (y = fst years \<or> y = snd years) \<and>
      trim_text d \<noteq> [] \<and> \<not> starts_with (chars ''Pont'') (trim_text d)"
    unfolding read_row_def Let_def by (simp add: map_sum_Some split: sum.splits option.splits if_splits) blast
  then obtain zn y d where p: "row_period rfc z i row zn (trim_text d) y = Inr p" and y: "y = fst years \<or> y = snd years"
    and l: "trim_text d \<noteq> []" "\<not> starts_with (chars ''Pont'') (trim_text d)" by blast
  from p have "sh_label p = trim_text d" "sh_year p = y" "sh_starts p \<le> sh_ends p"
    by (auto simp: row_period_def Let_def split: sum.splits if_splits)
  then show ?thesis using y l trim_ends [OF l(1)] by (simp add: period_ok_def)
qed

text \<open>The periods of an answer, whatever order its rows come in.\<close>

definition periods_of :: "(utext \<Rightarrow> instant option) \<Rightarrow> zone \<Rightarrow> utext \<times> utext \<Rightarrow> json list \<Rightarrow> school_holiday set" where
  "periods_of rfc z years rows = {p. \<exists>row \<in> set rows. read_row rfc z years 0 row = Inr (Some p)}"

definition rows_readable :: "(utext \<Rightarrow> instant option) \<Rightarrow> zone \<Rightarrow> utext \<times> utext \<Rightarrow> json list \<Rightarrow> bool" where
  "rows_readable rfc z years rows \<longleftrightarrow>
     (\<forall>row \<in> set rows. \<exists>r. read_row rfc z years 0 row = Inr r) \<and> inj_on period_key (periods_of rfc z years rows)"

definition entries_ok :: "(period_key \<times> school_holiday) list \<Rightarrow> bool" where
  "entries_ok ps \<longleftrightarrow> sorted (map fst ps) \<and> distinct (map fst ps) \<and> (\<forall>e \<in> set ps. fst e = period_key (snd e))"

lemma entries_insert:
  assumes "entries_ok ps" and "map_of ps (period_key p) = None"
  shows "entries_ok (insort_key fst (period_key p, p) ps)" "snd ` set (insort_key fst (period_key p, p) ps) = insert p (snd ` set ps)"
proof -
  have "period_key p \<notin> set (map fst ps)" using assms(2) by (simp add: map_of_eq_None_iff)
  then show "entries_ok (insort_key fst (period_key p, p) ps)"
  proof -
    have "mset (map fst (insort_key fst (period_key p, p) ps)) = mset (map fst ((period_key p, p) # ps))" by simp
    then have "distinct (map fst (insort_key fst (period_key p, p) ps)) \<longleftrightarrow> distinct (map fst ((period_key p, p) # ps))"
      by (rule mset_eq_imp_distinct_iff)
    then show ?thesis using assms(1) \<open>period_key p \<notin> set (map fst ps)\<close>
      by (auto simp: entries_ok_def sorted_insort_key set_insort_key)
  qed
  show "snd ` set (insort_key fst (period_key p, p) ps) = insert p (snd ` set ps)" by (simp add: set_insort_key)
qed

lemma entries_lookup: "entries_ok ps \<Longrightarrow> map_of ps k = Some p \<longleftrightarrow> p \<in> snd ` set ps \<and> period_key p = k"
proof -
  assume e: "entries_ok ps"
  then have "map_of ps k = Some p \<longleftrightarrow> (k, p) \<in> set ps" by (intro map_of_eq_Some_iff) (simp add: entries_ok_def)
  also have "\<dots> \<longleftrightarrow> p \<in> snd ` set ps \<and> period_key p = k" using e by (force simp: entries_ok_def)
  finally show ?thesis .
qed

lemma entries_inj: "entries_ok ps \<Longrightarrow> inj_on period_key (snd ` set ps)"
  by (rule inj_onI) (metis entries_lookup option.inject)

lemma parse_rows_result:
  assumes "entries_ok ps"
  shows "(\<exists>qs. parse_rows rfc z years rows i ps = Inr qs) \<longleftrightarrow>
      (\<forall>row \<in> set rows. \<exists>r. read_row rfc z years 0 row = Inr r) \<and> inj_on period_key (snd ` set ps \<union> periods_of rfc z years rows)" (is ?result)
    and "parse_rows rfc z years rows i ps = Inr qs \<Longrightarrow> entries_ok qs \<and> snd ` set qs = snd ` set ps \<union> periods_of rfc z years rows" (is "_ \<Longrightarrow> ?entries qs")
proof -
  have "?result \<and> (\<forall>qs. parse_rows rfc z years rows i ps = Inr qs \<longrightarrow> ?entries qs)"
    using assms
  proof (induction rows arbitrary: i ps)
    case Nil
    then show ?case using entries_inj by (simp add: periods_of_def)
  next
    case (Cons row rows)
    show ?case
    proof (cases "read_row rfc z years i row")
      case (Inl e)
      then have "\<not> (\<exists>r. read_row rfc z years 0 row = Inr r)" using read_row_index [of rfc z years i row _ 0] by auto
      then show ?thesis using Inl by simp
    next
      case (Inr r)
      then have r: "read_row rfc z years 0 row = Inr r" using read_row_index [of rfc z years i row r 0] by simp
      show ?thesis
      proof (cases r)
        case None
        then have "periods_of rfc z years (row # rows) = periods_of rfc z years rows" using r by (auto simp: periods_of_def)
        then show ?thesis using Cons.IH [OF Cons.prems, of "i + 1"] Inr r None by simp
      next
        case (Some p)
        have new: "periods_of rfc z years (row # rows) = insert p (periods_of rfc z years rows)" using r Some by (auto simp: periods_of_def)
        show ?thesis
        proof (cases "map_of ps (period_key p)")
          case None
          note e = entries_insert [OF Cons.prems None]
          then show ?thesis using Cons.IH [OF e(1), of "i + 1"] Inr r Some None e(2) by (simp add: new)
        next
          case seen: (Some q)
          then have q: "q \<in> snd ` set ps" "period_key q = period_key p" using entries_lookup [OF Cons.prems] by auto
          show ?thesis
          proof (cases "q = p")
            case True
            then have "snd ` set ps \<union> insert p (periods_of rfc z years rows) = snd ` set ps \<union> periods_of rfc z years rows" using q(1) by auto
            then show ?thesis using Cons.IH [OF Cons.prems, of "i + 1"] Inr r Some seen True by (simp add: new)
          next
            case False
            then have "\<not> inj_on period_key (snd ` set ps \<union> insert p (periods_of rfc z years rows))" using q by (auto simp: inj_on_def)
            then show ?thesis using Inr r Some seen False by (simp add: new)
          qed
        qed
      qed
    qed
  qed
  then show ?result "parse_rows rfc z years rows i ps = Inr qs \<Longrightarrow> ?entries qs" by blast+
qed

text \<open>The rows of an answer that says it is whole.\<close>

definition answer_rows :: "json \<Rightarrow> json list option" where
  "answer_rows body =
     (case json_get body ''results'' of
        Some (Arr rows) \<Rightarrow>
          (case json_get body ''total_count'' of
             Some (Num (Some n)) \<Rightarrow> if n > length rows then None else Some rows
           | _ \<Rightarrow> Some rows)
      | _ \<Rightarrow> None)"

lemma missing_zone_None: "missing_zone y ps = None \<longleftrightarrow> (\<forall>zn. \<exists>p \<in> set ps. sh_zone p = zn \<and> sh_year p = y)"
proof -
  have "(\<forall>zn. P zn) \<longleftrightarrow> (\<forall>zn \<in> set all_zones. P zn)" for P
    by (auto simp: all_zones_def) (metis school_zone.exhaust)
  then show ?thesis by (simp add: missing_zone_def find_None_iff list_ex_iff)
qed

lemma parse_calendar_rows:
  "parse_calendar rfc z body years = Inr ps \<longleftrightarrow>
     (\<exists>rows qs. answer_rows body = Some rows \<and> parse_rows rfc z years rows 0 [] = Inr qs \<and> missing_zone (fst years) (map snd qs) = None \<and> ps = map snd qs)"
  unfolding parse_calendar_def answer_rows_def
  by (auto split: option.splits json.splits sum.splits if_splits)

lemma parse_calendar_result:
  "parse_calendar rfc z body years = Inr ps \<longleftrightarrow>
     (\<exists>rows. answer_rows body = Some rows \<and> rows_readable rfc z years rows \<and> set ps = periods_of rfc z years rows
        \<and> sorted (map period_key ps) \<and> distinct (map period_key ps) \<and> (\<forall>zn. \<exists>p \<in> set ps. sh_zone p = zn \<and> sh_year p = fst years))"
    (is "_ \<longleftrightarrow> (\<exists>rows. ?P rows)")
proof
  have empty: "entries_ok []" by (simp add: entries_ok_def)
  have keys: "map period_key (map snd qs) = map fst qs" if "entries_ok qs" for qs using that by (auto simp: entries_ok_def)
  {
    assume "parse_calendar rfc z body years = Inr ps"
    then obtain rows qs where q: "answer_rows body = Some rows" "parse_rows rfc z years rows 0 [] = Inr qs"
      "missing_zone (fst years) (map snd qs) = None" "ps = map snd qs" unfolding parse_calendar_rows by blast
    then have "rows_readable rfc z years rows" and e: "entries_ok qs" "snd ` set qs = periods_of rfc z years rows"
      using parse_rows_result [OF empty, of rfc z years rows 0] by (auto simp: rows_readable_def)
    moreover have "map period_key ps = map fst qs" unfolding q(4) by (rule keys [OF e(1)])
    moreover have "set ps = snd ` set qs" by (simp add: q(4))
    ultimately show "\<exists>rows. ?P rows"
      using q(1-3) by (intro exI [of _ rows]) (simp add: missing_zone_None entries_ok_def)
  }
  assume "\<exists>rows. ?P rows"
  then obtain rows where r: "?P rows" by blast
  then obtain qs where qs: "parse_rows rfc z years rows 0 [] = Inr qs"
    using parse_rows_result(1) [OF empty, of rfc z years rows 0] by (auto simp: rows_readable_def)
  then have e: "entries_ok qs" "snd ` set qs = periods_of rfc z years rows"
    using parse_rows_result(2) [OF empty] by auto
  have "map snd qs = ps"
  proof (rule map_sorted_distinct_set_unique [of period_key])
    show "inj_on period_key (set (map snd qs) \<union> set ps)" using r e by (simp add: rows_readable_def)
    show "sorted (map period_key (map snd qs))" "distinct (map period_key (map snd qs))"
      unfolding keys [OF e(1)] using e(1) by (simp_all add: entries_ok_def)
    show "sorted (map period_key ps)" "distinct (map period_key ps)" using r by blast+
    show "set (map snd qs) = set ps" using r e by simp
  qed
  moreover have "missing_zone (fst years) ps = None" unfolding missing_zone_None using r by blast
  ultimately show "parse_calendar rfc z body years = Inr ps" using r qs unfolding parse_calendar_rows by blast
qed

text \<open>
  What is read of the calendar: each period of each zone once, in order, however many academies
  repeat it and in whatever order; every zone has one in the current year; each is a period of pupils
  with a name, of one of the two years asked for, and ends no sooner than it starts.
\<close>

theorem calendar_read_once:
  assumes "parse_calendar rfc z body years = Inr ps" and "answer_rows body = Some rows"
  shows "sorted_wrt (<) (map period_key ps) \<and> set ps = periods_of rfc z years rows
    \<and> (\<forall>p. p \<in> set ps \<longrightarrow> period_ok years p) \<and> (\<forall>zn. \<exists>p. p \<in> set ps \<and> sh_zone p = zn \<and> sh_year p = fst years)
    \<and> (\<forall>again. answer_rows again \<noteq> None \<and> set (the (answer_rows again)) = set rows \<longrightarrow> parse_calendar rfc z again years = Inr ps)"
proof -
  have r: "rows_readable rfc z years rows" "set ps = periods_of rfc z years rows" "sorted (map period_key ps)" "distinct (map period_key ps)"
    "\<forall>zn. \<exists>p \<in> set ps. sh_zone p = zn \<and> sh_year p = fst years"
    using assms unfolding parse_calendar_result by auto
  have "parse_calendar rfc z again years = Inr ps" if "answer_rows again = Some rows2" "set rows2 = set rows" for again rows2
    unfolding parse_calendar_result using r that by (intro exI [of _ rows2]) (simp add: rows_readable_def periods_of_def)
  moreover have "period_ok years p" if "p \<in> set ps" for p
    using that read_row_period_ok unfolding r(2) periods_of_def by blast
  moreover have "sorted_wrt (<) (map period_key ps)" unfolding strict_sorted_iff using r(3,4) by blast
  moreover have "\<exists>p. p \<in> set ps \<and> sh_zone p = zn \<and> sh_year p = fst years" for zn using r(5) by blast
  ultimately show ?thesis using r(2) by (metis option.exhaust_sel)
qed

section \<open>The cache keeps its constraints\<close>

lemma year_text:
  assumes "1000 \<le> n" "n \<le> 9998"
  shows "year_span_text (show_int n @ [45] @ show_int (n + 1))"
proof -
  have len: "length (show_nat k) = 4" if "1000 \<le> k" "k \<le> 9999" for k
  proof -
    have digits: "length (show_nat m) = (if m < 10 then 1 else length (show_nat (m div 10)) + 1)" for m
      by (subst show_nat.simps) simp
    have "\<not> k < 10" "\<not> k div 10 < 10" "\<not> k div 100 < 10" "k div 1000 < 10"
      using that by (simp_all add: div_less_iff_less_mult)
    then show ?thesis
      using digits [of k] digits [of "k div 10"] digits [of "k div 100"] digits [of "k div 1000"] by (simp add: div_mult2_eq [symmetric])
  qed
  have dig: "list_all is_year_digit (chars (show_nat k))" for k
    using show_nat_digits [of k] by (auto simp: list_all_iff is_digit_def is_year_digit_def Let_def)
  show ?thesis using assms len [of "nat n"] len [of "nat (n + 1)"] dig by (simp add: show_int_def year_span_text_def nth_append)
qed

lemma parsed_checks:
  assumes "1000 \<le> first_year cal month_of today" "first_year cal month_of today \<le> 9997" and "period_ok (school_years cal month_of today) p"
  shows "row_checks p"
proof -
  let ?y = "school_years cal month_of today"
  have y: "year_span_text (fst ?y)" "year_span_text (snd ?y)"
    using year_text [of "first_year cal month_of today"] year_text [of "first_year cal month_of today + 1"] assms(1,2)
    by (simp_all add: school_years_def Let_def add.commute)
  obtain c cs where c: "sh_label p = c # cs" "\<not> is_whitespace c" using assms(3) by (cases "sh_label p") (auto simp: period_ok_def)
  then have "c \<noteq> 32" by (auto simp: is_whitespace_def)
  then show ?thesis using assms(3) y c(1) by (auto simp: period_ok_def row_checks_def)
qed

lemma replaced:
  assumes "cache_ok cache" and "distinct (map period_key ps)" and "\<forall>p. p \<in> set ps \<longrightarrow> row_checks p"
  shows "replace_cache cache years ps =
    (if \<exists>p q. p \<in> set ps \<and> q \<in> set cache \<and> period_key p = period_key q \<and> sh_year q \<noteq> fst years \<and> sh_year q \<noteq> snd years then None
     else Some (filter (\<lambda>p. \<not> (sh_year p = fst years \<or> sh_year p = snd years)) cache @ ps))"
proof -
  let ?kept = "filter (\<lambda>p. \<not> (sh_year p = fst years \<or> sh_year p = snd years)) cache"
  have "distinct (map period_key ?kept)" using assms(1) by (auto simp: cache_ok_def distinct_map intro: inj_on_subset)
  moreover have "list_all row_checks (?kept @ ps)" using assms by (auto simp: cache_ok_def list_all_iff)
  ultimately have "cache_ok (?kept @ ps) \<longleftrightarrow> set (map period_key ?kept) \<inter> set (map period_key ps) = {}"
    using assms(2) by (simp add: cache_ok_def)
  also have "\<dots> \<longleftrightarrow> \<not> (\<exists>p q. p \<in> set ps \<and> q \<in> set cache \<and> period_key p = period_key q \<and> sh_year q \<noteq> fst years \<and> sh_year q \<noteq> snd years)"
    unfolding disjoint_iff set_map set_filter by blast
  finally show ?thesis by (simp add: replace_cache_def Let_def)
qed

text \<open>
  C30. A refresh replaces the two school years of the cache or changes nothing: it answers how many
  periods it read, the years before stay, every zone has its current year, and the constraints of
  the table hold. Nothing but a period cached under an older year, with the same zone, first day and
  name, makes the rows of a readable answer fail; a second pass on the same answer changes nothing.
\<close>

theorem refresh_replaces_two_years:
  fixes rfc and z and http_get and base_url
  assumes "cache_ok cache" and "1000 \<le> first_year cal month_of today" and "first_year cal month_of today \<le> 9997"
  defines "years \<equiv> school_years cal month_of today"
  defines "pass \<equiv> refresh cal month_of rfc z http_get base_url today"
  defines "body \<equiv> http_get (records_url base_url) (records_query years)"
  shows "case pass cache of
      (Inl e, rows) \<Rightarrow> rows = cache \<and>
        \<not> (\<exists>b ps. body = Some b \<and> parse_calendar rfc z b years = Inr ps \<and>
             \<not> (\<exists>p q. p \<in> set ps \<and> q \<in> set cache \<and> period_key p = period_key q \<and> sh_year q \<noteq> fst years \<and> sh_year q \<noteq> snd years))
    | (Inr n, rows) \<Rightarrow> cache_ok rows \<and> pass rows = (Inr n, rows) \<and>
        (\<exists>b ps. body = Some b \<and> parse_calendar rfc z b years = Inr ps \<and> n = length ps
           \<and> (\<forall>p. p \<in> set rows \<longleftrightarrow> p \<in> set ps \<or> (p \<in> set cache \<and> sh_year p \<noteq> fst years \<and> sh_year p \<noteq> snd years))
           \<and> (\<forall>zn. \<exists>p. p \<in> set rows \<and> sh_zone p = zn \<and> sh_year p = fst years))"
proof (cases body)
  case None
  then have "pass cache = (Inl No_answer, cache)" by (simp add: pass_def refresh_def body_def years_def Let_def)
  then show ?thesis using None by simp
next
  case b: (Some b)
  show ?thesis
  proof (cases "parse_calendar rfc z b years")
    case (Inl e)
    then have "pass cache = (Inl (Refused_answer e), cache)" using b by (simp add: pass_def refresh_def body_def years_def Let_def)
    then show ?thesis using b Inl by simp
  next
    case ps: (Inr ps)
    then obtain rows where r: "set ps = periods_of rfc z years rows" "distinct (map period_key ps)"
      "\<forall>zn. \<exists>p \<in> set ps. sh_zone p = zn \<and> sh_year p = fst years" unfolding parse_calendar_result by blast
    have ok: "period_ok years p" if "p \<in> set ps" for p using that read_row_period_ok unfolding r(1) periods_of_def by blast
    then have checks: "\<forall>p. p \<in> set ps \<longrightarrow> row_checks p" using parsed_checks [OF assms(2,3)] by (simp add: years_def)
    have run: "pass c = (case replace_cache c years ps of None \<Rightarrow> (Inl Cache_failed, c) | Some rows \<Rightarrow> (Inr (length ps), rows))" for c
      using b ps by (simp add: pass_def refresh_def body_def years_def Let_def)
    let ?kept = "filter (\<lambda>p. \<not> (sh_year p = fst years \<or> sh_year p = snd years)) cache"
    note rep = replaced [OF assms(1) r(2) checks, of years]
    show ?thesis
    proof (cases "\<exists>p q. p \<in> set ps \<and> q \<in> set cache \<and> period_key p = period_key q \<and> sh_year q \<noteq> fst years \<and> sh_year q \<noteq> snd years")
      case True
      then have "pass cache = (Inl Cache_failed, cache)" unfolding run rep by simp
      then show ?thesis using b ps True by (simp only: prod.case sum.case option.inject) (metis sum.inject(2))
    next
      case False
      then have new: "replace_cache cache years ps = Some (?kept @ ps)" unfolding rep by simp
      then have c: "cache_ok (?kept @ ps)" by (auto simp: replace_cache_def Let_def split: if_splits)
      have "filter (\<lambda>p. \<not> (sh_year p = fst years \<or> sh_year p = snd years)) (?kept @ ps) = ?kept"
        using ok by (auto simp: period_ok_def filter_empty_conv)
      then have "replace_cache (?kept @ ps) years ps = Some (?kept @ ps)" using c by (simp add: replace_cache_def Let_def)
      moreover have "pass cache = (Inr (length ps), ?kept @ ps)" unfolding run new by simp
      moreover have "\<exists>p. p \<in> set (?kept @ ps) \<and> sh_zone p = zn \<and> sh_year p = fst years" for zn using r(3) by auto
      ultimately show ?thesis using b ps c run [of "?kept @ ps"] by auto
    qed
  qed
qed

section \<open>A family sees the holidays of its zone\<close>

text \<open>
  C31. What a member gets for a range: the days in order, and on every day of it a school holiday
  exactly when one of the family's zone is on; without a zone, none.
\<close>

theorem family_sees_its_holidays:
  assumes "cache_ok cache" and "list_national_days cal nth_wd collate cache (Some (am, chosen)) start stop = Inr days"
    and "start \<le> d" and "d \<le> stop"
  shows "sorted (map ld_date days)
    \<and> ((\<exists>x. x \<in> set days \<and> ld_kind x = SCHOOL_HOLIDAY \<and> ld_date x \<le> d \<and> (\<exists>e. ld_end x = Some e \<and> d \<le> e)) \<longleftrightarrow>
       (\<exists>zn h. chosen = Some (chars (zone_str zn)) \<and> h \<in> set cache \<and> sh_zone h = zn \<and> sh_starts h \<le> d \<and> d \<le> sh_ends h))
    \<and> filter (\<lambda>x. ld_end x = None) days =
        map (\<lambda>n. \<lparr>ld_date = nd_date n, ld_kind = day_kind_str (nd_kind n), ld_label = nd_label n, ld_end = None\<rparr>) (national_days cal nth_wd start stop am)"
proof -
  let ?N = "map (\<lambda>n. \<lparr>ld_date = nd_date n, ld_kind = day_kind_str (nd_kind n), ld_label = nd_label n, ld_end = None\<rparr>) (national_days cal nth_wd start stop am)"
  let ?off = "\<lambda>h. \<lparr>ld_date = sh_starts h, ld_kind = SCHOOL_HOLIDAY, ld_label = sh_label h, ld_end = Some (sh_ends h)\<rparr>"
  define holidays where "holidays =
    (case (case chosen of None \<Rightarrow> None | Some s \<Rightarrow> zone_of_text s) of Some zn \<Rightarrow> periods_overlapping collate cache zn start stop | None \<Rightarrow> [])"
  have days: "days = sort_key ld_date (?N @ map ?off holidays)"
    using assms(2) by (simp add: list_national_days_def holidays_def Let_def split: sum.splits)
  have zone: "zone_of_text s = Some zn \<longleftrightarrow> s = chars (zone_str zn)" for s zn
    by (cases zn) (auto simp: zone_of_text_def all_zones_def split: if_splits)
  have zone': "Some zn = zone_of_text s \<longleftrightarrow> s = chars (zone_str zn)" for s zn using zone [of s zn] by auto
  have held: "h \<in> set holidays \<longleftrightarrow>
      (\<exists>zn. chosen = Some (chars (zone_str zn)) \<and> h \<in> set cache \<and> sh_zone h = zn \<and> sh_starts h \<le> stop \<and> start \<le> sh_ends h)" for h
    by (auto simp: holidays_def periods_overlapping_def zone zone' split: option.splits)
  have "sorted (map nd_date (national_days cal nth_wd start stop am))" by (simp add: national_days_def)
  then have "sorted (map ld_date ?N)" by (simp add: comp_def)
  then have "filter (\<lambda>x. ld_end x = None) days = ?N"
    unfolding days filter_sort by (simp add: filter_map comp_def sort_key_id_if_sorted)
  moreover have "(\<exists>x. x \<in> set days \<and> ld_kind x = SCHOOL_HOLIDAY \<and> ld_date x \<le> d \<and> (\<exists>e. ld_end x = Some e \<and> d \<le> e)) \<longleftrightarrow>
      (\<exists>h \<in> set holidays. sh_starts h \<le> d \<and> d \<le> sh_ends h)" unfolding days by auto
  moreover have "\<dots> \<longleftrightarrow> (\<exists>zn h. chosen = Some (chars (zone_str zn)) \<and> h \<in> set cache \<and> sh_zone h = zn \<and> sh_starts h \<le> d \<and> d \<le> sh_ends h)"
    using assms(3,4) held by fastforce
  moreover have "sorted (map ld_date days)" by (simp add: days)
  ultimately show ?thesis by blast
qed

section \<open>A day's work\<close>

text \<open>
  Christmas of 2026 in the three zones, zone A told twice, as the dataset tells it: day numbers
  stand for the instants. The refresh of 24 December reads it, and a family of zone C sees it.
\<close>

definition utc :: zone where
  "utc = \<lparr>local_of = (\<lambda>t. t), earliest = Some, latest = Some\<rparr>"

definition day_stamp :: "utext \<Rightarrow> instant option" where
  "day_stamp s = Some (int (hd s) * DAY)"

definition sample_row :: "utext \<Rightarrow> school_zone \<Rightarrow> json" where
  "sample_row year zn = Obj [(chars ''zones'', Str (chars ''Zone '' @ chars (zone_str zn))), (chars ''annee_scolaire'', Str year),
     (chars ''population'', Str (chars ''-'')), (chars ''description'', Str (chars '' Noel'')),
     (chars ''start_date'', Str [5]), (chars ''end_date'', Str [8])]"

definition sample_period :: "utext \<Rightarrow> school_zone \<Rightarrow> school_holiday" where
  "sample_period year zn = \<lparr>sh_zone = zn, sh_label = chars ''Noel'', sh_starts = 5, sh_ends = 7, sh_year = year\<rparr>"

definition sample_answer :: "utext \<Rightarrow> json list" where
  "sample_answer year = map (sample_row year) [Zone_B, Zone_A, Zone_C, Zone_A]"

lemma sample_read: "read_row day_stamp utc years i (sample_row (fst years) zn) = Inr (Some (sample_period (fst years) zn))"
  by (cases zn) (simp_all add: read_row_def row_period_def row_day_def row_text_def sample_row_def sample_period_def zone_of_text_def all_zones_def
      strip_prefix_def starts_with_def KEPT_POPULATIONS_def trim_by_def is_whitespace_def day_stamp_def paris_date_def utc_def naive_date_def DAY_def Let_def)

lemma sample_parsed:
  assumes "answer_rows body = Some (sample_answer (fst years))"
  shows "parse_calendar day_stamp utc body years = Inr (map (sample_period (fst years)) [Zone_A, Zone_B, Zone_C])"
proof -
  have z: "(\<forall>zn. P zn) \<longleftrightarrow> P Zone_A \<and> P Zone_B \<and> P Zone_C" for P by (metis school_zone.exhaust)
  have p: "periods_of day_stamp utc years (sample_answer (fst years)) = sample_period (fst years) ` {Zone_A, Zone_B, Zone_C}"
    by (auto simp: periods_of_def sample_answer_def sample_read)
  have "inj_on period_key (sample_period (fst years) ` {Zone_A, Zone_B, Zone_C})" by (auto simp: inj_on_def period_key_def sample_period_def)
  then have "rows_readable day_stamp utc years (sample_answer (fst years))"
    unfolding rows_readable_def p by (auto simp: sample_answer_def sample_read)
  then show ?thesis unfolding parse_calendar_result using assms p
    by (intro exI [of _ "sample_answer (fst years)"]) (simp add: z period_key_def sample_period_def less_eq_char_def less_char_def)
qed

lemma calendar_read_once_witness:
  "\<exists>body. answer_rows body = Some (sample_answer (fst (chars ''2026-2027'', chars ''2027-2028'')))
     \<and> sorted_wrt (<) (map period_key (map (sample_period (chars ''2026-2027'')) [Zone_A, Zone_B, Zone_C]))"
proof -
  let ?years = "(chars ''2026-2027'', chars ''2027-2028'')" and ?rows = "sample_answer (chars ''2026-2027'')"
  have a: "answer_rows (Obj [(chars ''total_count'', Num (Some 4)), (chars ''results'', Arr ?rows)]) = Some (sample_answer (fst ?years))"
    by (simp add: answer_rows_def sample_answer_def)
  show ?thesis using calendar_read_once [OF sample_parsed [OF a] a] a by auto
qed

text \<open>24 December 2026; the cache holds a period of 2025-2026, which stays.\<close>

lemma sample_first_year: "first_year proleptic (\<lambda>_. 12) (civil 2026 12 24) = 2026"
proof -
  have "year_of proleptic (civil 2026 12 24) = 2026"
    by (rule year_unique [OF proleptic_ok]) (simp_all add: civil_def new_year_def leap_def)
  then show ?thesis by (simp add: first_year_def)
qed

lemma refresh_replaces_two_years_witness:
  "let years = school_years proleptic (\<lambda>_. 12) (civil 2026 12 24);
       old = sample_period (chars ''2025-2026'') Zone_B\<lparr>sh_starts := 1\<rparr>
   in \<exists>rows. refresh proleptic (\<lambda>_. 12) day_stamp utc (\<lambda>_ _. Some (Obj [(chars ''results'', Arr (sample_answer (fst years)))])) ''https://data'' (civil 2026 12 24) [old]
        = (Inr 3, rows) \<and> old \<in> set rows \<and> (\<exists>p. p \<in> set rows \<and> sh_zone p = Zone_C \<and> sh_year p = fst years)"
proof -
  define years where "years = school_years proleptic (\<lambda>_. 12) (civil 2026 12 24)"
  define old where "old = sample_period (chars ''2025-2026'') Zone_B\<lparr>sh_starts := 1\<rparr>"
  define body where "body = Obj [(chars ''results'', Arr (sample_answer (fst years)))]"
  have y: "years = (chars ''2026-2027'', chars ''2027-2028'')"
    by (simp add: years_def school_years_def sample_first_year show_int_def show_nat.simps)
  have ok: "cache_ok [old]"
    by (simp add: cache_ok_def old_def sample_period_def row_checks_def year_span_text_def is_year_digit_def)
  have "answer_rows body = Some (sample_answer (fst years))" by (simp add: answer_rows_def body_def)
  then have ps: "parse_calendar day_stamp utc body years = Inr (map (sample_period (fst years)) [Zone_A, Zone_B, Zone_C])" by (rule sample_parsed)
  have other: "sh_year old \<noteq> fst years" "sh_year old \<noteq> snd years" by (simp_all add: old_def sample_period_def y)
  have apart: "\<not> (\<exists>p q. p \<in> set (map (sample_period (fst years)) [Zone_A, Zone_B, Zone_C]) \<and> q \<in> set [old] \<and> period_key p = period_key q \<and> sh_year q \<noteq> fst years \<and> sh_year q \<noteq> snd years)"
    by (auto simp: period_key_def old_def sample_period_def)
  obtain r rows where pass: "refresh proleptic (\<lambda>_. 12) day_stamp utc (\<lambda>_ _. Some body) ''https://data'' (civil 2026 12 24) [old] = (r, rows)" by fastforce
  have t: "case (r, rows) of
      (Inl e, rows) \<Rightarrow> rows = [old] \<and>
        \<not> (\<exists>b ps. Some body = Some b \<and> parse_calendar day_stamp utc b years = Inr ps \<and>
             \<not> (\<exists>p q. p \<in> set ps \<and> q \<in> set [old] \<and> period_key p = period_key q \<and> sh_year q \<noteq> fst years \<and> sh_year q \<noteq> snd years))
    | (Inr n, rows) \<Rightarrow> cache_ok rows \<and> refresh proleptic (\<lambda>_. 12) day_stamp utc (\<lambda>_ _. Some body) ''https://data'' (civil 2026 12 24) rows = (Inr n, rows) \<and>
        (\<exists>b ps. Some body = Some b \<and> parse_calendar day_stamp utc b years = Inr ps \<and> n = length ps
           \<and> (\<forall>p. p \<in> set rows \<longleftrightarrow> p \<in> set ps \<or> (p \<in> set [old] \<and> sh_year p \<noteq> fst years \<and> sh_year p \<noteq> snd years))
           \<and> (\<forall>zn. \<exists>p. p \<in> set rows \<and> sh_zone p = zn \<and> sh_year p = fst years))"
    using refresh_replaces_two_years [OF ok, where cal = proleptic and month_of = "\<lambda>_. 12" and today = "civil 2026 12 24" and rfc = day_stamp and z = utc
        and http_get = "\<lambda>_ _. Some body" and base_url = "''https://data''"]
    unfolding pass years_def [symmetric] sample_first_year by simp
  then obtain n where n: "r = Inr n" using ps apart by (cases r) auto
  then have "n = 3" "old \<in> set rows" "\<exists>p. p \<in> set rows \<and> sh_zone p = Zone_C \<and> sh_year p = fst years" using t ps other by auto
  then show ?thesis using pass n unfolding Let_def years_def [symmetric] old_def [symmetric] body_def [symmetric] by blast
qed

lemma family_sees_its_holidays_witness:
  "\<exists>days. list_national_days proleptic proleptic_nth (\<lambda>l. l) [sample_period (chars ''2026-2027'') Zone_A, sample_period (chars ''2026-2027'') Zone_C]
       (Some (False, Some (chars ''C''))) 0 6 = Inr days \<and>
     (\<exists>x. x \<in> set days \<and> ld_kind x = SCHOOL_HOLIDAY \<and> ld_date x \<le> 6 \<and> (\<exists>e. ld_end x = Some e \<and> 6 \<le> e)) \<and>
     \<not> (\<exists>x. x \<in> set days \<and> ld_kind x = SCHOOL_HOLIDAY \<and> ld_date x \<le> 4 \<and> (\<exists>e. ld_end x = Some e \<and> 4 \<le> e))"
proof -
  let ?cache = "[sample_period (chars ''2026-2027'') Zone_A, sample_period (chars ''2026-2027'') Zone_C]"
  have ok: "cache_ok ?cache"
    by (simp add: cache_ok_def period_key_def sample_period_def row_checks_def year_span_text_def is_year_digit_def)
  obtain days where d: "list_national_days proleptic proleptic_nth (\<lambda>l. l) ?cache (Some (False, Some (chars ''C''))) 0 6 = Inr days"
    by (simp add: list_national_days_def validate_national_days_range_def MAX_NATIONAL_DAYS_SPAN_DAYS_def Let_def)
  have on: "\<exists>zn h. Some (chars ''C'') = Some (chars (zone_str zn)) \<and> h \<in> set ?cache \<and> sh_zone h = zn \<and> sh_starts h \<le> 6 \<and> 6 \<le> sh_ends h"
    by (intro exI [of _ Zone_C] exI [of _ "sample_period (chars ''2026-2027'') Zone_C"]) (simp add: sample_period_def)
  have off: "\<not> (\<exists>zn h. Some (chars ''C'') = Some (chars (zone_str zn)) \<and> h \<in> set ?cache \<and> sh_zone h = zn \<and> sh_starts h \<le> 4 \<and> 4 \<le> sh_ends h)"
    by (auto simp: sample_period_def)
  have "(0 :: int) \<le> 6" "(0 :: int) \<le> 4" "(4 :: int) \<le> 6" by simp_all
  note day = family_sees_its_holidays [OF ok d, THEN conjunct2, THEN conjunct1]
  show ?thesis using day [OF \<open>0 \<le> 6\<close> order_refl, THEN iffD2, OF on] day [OF \<open>0 \<le> 4\<close> \<open>4 \<le> 6\<close>, THEN iffD1] off d by blast
qed

end
