(* ===== verification/Notifications.thy ===== *)
theory Notifications
  imports Markdown Paris Account_Purge
begin

text \<open>
  The notification centre (\<open>apps/api/src/notifications/center.rs\<close>): the text of a notification,
  the two writers every feature calls, the pages a member reads and what he marks read.

  The lower case of a character and the category Cf are tables of Unicode, the clock of Paris and
  the way \<open>chrono\<close> writes a date and an hour are third-party code: \<open>notice_env\<close>. The rows written
  by a statement get their identifiers from a supply, the \<open>gen_random_uuid()\<close> of the database.
\<close>

section \<open>Kinds and events\<close>

datatype kind = Agenda_reminder | Stock_expiry | Message | Invitation | Grocery_item | Budget_alert

definition all_kinds :: "kind list" where
  "all_kinds = [Agenda_reminder, Stock_expiry, Message, Invitation, Grocery_item, Budget_alert]"

fun kind_str :: "kind \<Rightarrow> string" where
  "kind_str Agenda_reminder = ''agenda_reminder''"
| "kind_str Stock_expiry = ''stock_expiry''"
| "kind_str Message = ''message''"
| "kind_str Invitation = ''invitation''"
| "kind_str Grocery_item = ''grocery_item''"
| "kind_str Budget_alert = ''budget_alert''"

definition kind_of_text :: "string \<Rightarrow> kind option" where
  "kind_of_text v = List.find (\<lambda>k. kind_str k = v) all_kinds"

datatype event =
    Reminder_due utext instant bool
  | Expiry utext date
  | Expiry_recap "utext list"
  | Message_posted utext
  | Invited utext utext
  | Grocery_added utext utext
  | Budget_cap_near
  | Budget_cap_reached
  | Category_cap_exceeded utext

fun event_kind :: "event \<Rightarrow> kind" where
  "event_kind (Reminder_due title at all_day) = Agenda_reminder"
| "event_kind (Expiry item on) = Stock_expiry"
| "event_kind (Expiry_recap items) = Stock_expiry"
| "event_kind (Message_posted author) = Message"
| "event_kind (Invited inviter family) = Invitation"
| "event_kind (Grocery_added author item) = Grocery_item"
| "event_kind Budget_cap_near = Budget_alert"
| "event_kind Budget_cap_reached = Budget_alert"
| "event_kind (Category_cap_exceeded category) = Budget_alert"

section \<open>The text\<close>

record notice_env =
  is_format_char :: "nat \<Rightarrow> bool"
  lower_char :: "nat \<Rightarrow> utext"
  paris_zone :: zone
  dmy :: "date \<Rightarrow> utext"
  hm :: "naive \<Rightarrow> utext"

definition quoted :: "utext \<Rightarrow> utext" where
  "quoted t = [171, 32] @ t @ [32, 187]"

definition vowels :: "nat list" where
  "vowels = chars ''a'' @ [224, 226, 228] @ chars ''e'' @ [233, 232, 234, 235] @ chars ''i'' @ [238, 239]
     @ chars ''o'' @ [244, 246] @ chars ''u'' @ [249, 251, 252, 0x153, 230]"

definition de_elided :: "notice_env \<Rightarrow> utext \<Rightarrow> utext" where
  "de_elided env name =
     (case name of
        c # _ \<Rightarrow> if list_all (\<lambda>l. l \<in> set vowels) (lower_char env c) then chars ''d'' @ [39] else chars ''de ''
      | [] \<Rightarrow> chars ''de '')"

definition RECAP_NAMED_ITEMS :: nat where
  "RECAP_NAMED_ITEMS = 2"

text \<open>The loop over the names, which stops once two are spelled out.\<close>

fun recap_names :: "notice_env \<Rightarrow> utext list \<Rightarrow> utext list \<Rightarrow> utext list" where
  "recap_names env [] named = named"
| "recap_names env (item # items) named =
     (if length named = RECAP_NAMED_ITEMS then named
      else let name = sanitize_email_line (is_format_char env) item
           in recap_names env items (if name \<noteq> [] \<and> name \<notin> set named then named @ [name] else named))"

definition recap_body :: "notice_env \<Rightarrow> utext list \<Rightarrow> utext" where
  "recap_body env items =
     (let named = recap_names env items []; count = length items;
          head = (if count = 1 then chars ''1 produit p'' @ [233] @ chars ''rime bient'' @ [244] @ chars ''t''
                  else chars (show_nat count) @ chars '' produits p'' @ [233] @ chars ''riment bient'' @ [244] @ chars ''t'');
          tail = (if length named < count then [0x2026] else chars ''.'')
      in if named = [] then head @ tail else head @ chars '' : '' @ join_with (chars '', '') named @ tail)"

fun body :: "notice_env \<Rightarrow> event \<Rightarrow> utext" where
  "body env (Reminder_due title at all_day) =
     (let here = local_of (paris_zone env) at;
          at_text = (if all_day then dmy env (naive_date here)
                     else dmy env (naive_date here) @ [32, 224, 32] @ hm env here)
      in chars ''Rappel : '' @ quoted (sanitize_email_line (is_format_char env) title) @ chars '' le '' @ at_text @ chars ''.'')"
| "body env (Expiry item on) =
     quoted (sanitize_email_line (is_format_char env) item) @ chars '' est '' @ [224] @ chars '' consommer jusqu'' @ [39]
       @ chars ''au '' @ dmy env on @ chars ''.''"
| "body env (Expiry_recap items) = recap_body env items"
| "body env (Message_posted author) =
     (let author = sanitize_email_line (is_format_char env) author
      in chars ''Nouveau message '' @ de_elided env author @ author @ chars ''.'')"
| "body env (Invited inviter family) =
     sanitize_email_line (is_format_char env) inviter @ chars '' vous invite '' @ [224] @ chars '' rejoindre ''
       @ quoted (sanitize_email_line (is_format_char env) family) @ chars ''.''"
| "body env (Grocery_added author item) =
     sanitize_email_line (is_format_char env) author @ chars '' a ajout'' @ [233, 32]
       @ quoted (sanitize_email_line (is_format_char env) item) @ [32, 224] @ chars '' la liste de courses.''"
| "body env Budget_cap_near =
     chars ''Les d'' @ [233] @ chars ''penses du mois atteignent 80 % du budget de la famille.''"
| "body env Budget_cap_reached =
     chars ''Les d'' @ [233] @ chars ''penses du mois atteignent 100 % du budget de la famille.''"
| "body env (Category_cap_exceeded category) =
     chars ''Les d'' @ [233] @ chars ''penses du mois d'' @ [233] @ chars ''passent le plafond de ''
       @ quoted (sanitize_email_line (is_format_char env) category) @ chars ''.''"

section \<open>Writing\<close>

record account =
  ac_id :: uuid
  ac_deactivated :: bool
  ac_deleted :: bool

record membership =
  mb_group :: uuid
  mb_user :: uuid
  mb_role :: role

record notification =
  nt_id :: uuid
  nt_user :: uuid
  nt_group :: uuid
  nt_kind :: string
  nt_object :: "uuid option"
  nt_actor :: "uuid option"
  nt_body :: utext
  nt_dedup :: "utext option"
  nt_read_at :: "instant option"
  nt_created_at :: instant

record new_notification =
  new_group :: uuid
  new_event :: event
  new_object :: "uuid option"
  new_actor :: "uuid option"
  new_dedup :: "utext option"

record center =
  accounts :: "account list"
  memberships :: "membership list"
  notifications :: "notification list"

text \<open>
  One row of the \<open>INSERT \<dots> ON CONFLICT DO NOTHING\<close>: a row of the same recipient and key, the
  statement's own included, makes it nothing. \<open>NULL\<close> keys never conflict.
\<close>

definition notification_row :: "notice_env \<Rightarrow> instant \<Rightarrow> new_notification \<Rightarrow> uuid \<Rightarrow> uuid \<Rightarrow> notification" where
  "notification_row env now n i user =
     \<lparr>nt_id = i, nt_user = user, nt_group = new_group n, nt_kind = kind_str (event_kind (new_event n)),
      nt_object = new_object n, nt_actor = new_actor n, nt_body = body env (new_event n), nt_dedup = new_dedup n,
      nt_read_at = None, nt_created_at = now\<rparr>"

definition conflicts :: "notification \<Rightarrow> notification \<Rightarrow> bool" where
  "conflicts a b \<longleftrightarrow> nt_user a = nt_user b \<and> nt_dedup a = nt_dedup b \<and> nt_dedup a \<noteq> None"

fun insert_rows :: "notification list \<Rightarrow> notification list \<Rightarrow> notification list \<times> nat" where
  "insert_rows rows [] = (rows, 0)"
| "insert_rows rows (n # ns) =
     (if list_ex (conflicts n) rows then insert_rows rows ns
      else let (rows, written) = insert_rows (rows @ [n]) ns in (rows, Suc written))"

text \<open>The \<open>CHECK\<close> of the table on the text; a statement that breaks it writes nothing.\<close>

datatype write_failure = Check_violated

definition body_fits :: "utext \<Rightarrow> bool" where
  "body_fits t \<longleftrightarrow> 1 \<le> length t \<and> length t \<le> 300"

definition insert_for ::
    "notice_env \<Rightarrow> instant \<Rightarrow> (nat \<Rightarrow> uuid) \<Rightarrow> uuid list \<Rightarrow> new_notification \<Rightarrow> center \<Rightarrow> (write_failure + nat) \<times> center" where
  "insert_for env now fresh recipients n c =
     (if recipients \<noteq> [] \<and> \<not> body_fits (body env (new_event n)) then (Inl Check_violated, c)
      else let (rows, written) = insert_rows (notifications c)
                 (map (\<lambda>(i, user). notification_row env now n (fresh i) user) (enumerate 0 recipients))
           in (Inr written, c\<lparr>notifications := rows\<rparr>))"

definition living :: "center \<Rightarrow> uuid \<Rightarrow> bool" where
  "living c user \<longleftrightarrow> list_ex (\<lambda>a. ac_id a = user \<and> \<not> ac_deactivated a \<and> \<not> ac_deleted a) (accounts c)"

definition told :: "center \<Rightarrow> new_notification \<Rightarrow> uuid list" where
  "told c n = map mb_user (filter (\<lambda>m. mb_group m = new_group n \<and> Some (mb_user m) \<noteq> new_actor n \<and> living c (mb_user m))
     (memberships c))"

definition insert_for_members ::
    "notice_env \<Rightarrow> instant \<Rightarrow> (nat \<Rightarrow> uuid) \<Rightarrow> new_notification \<Rightarrow> center \<Rightarrow> (write_failure + nat) \<times> center" where
  "insert_for_members env now fresh n c = insert_for env now fresh (told c n) n c"

section \<open>Reading\<close>

definition DEFAULT_PAGE_LIMIT :: int where
  "DEFAULT_PAGE_LIMIT = 20"

definition MAX_PAGE_LIMIT :: int where
  "MAX_PAGE_LIMIT = 100"

record list_query =
  q_kind :: "string option"
  q_before_created_at :: "instant option"
  q_before_id :: "uuid option"
  q_limit :: "int option"

datatype center_error = Invalid_notification_kind | Invalid_cursor | No_such_notification

record notice =
  no_id :: uuid
  no_group :: uuid
  no_kind :: string
  no_object :: "uuid option"
  no_body :: utext
  no_read_at :: "instant option"
  no_created_at :: instant

definition notice_of :: "notification \<Rightarrow> notice" where
  "notice_of n = \<lparr>no_id = nt_id n, no_group = nt_group n, no_kind = nt_kind n, no_object = nt_object n, no_body = nt_body n,
     no_read_at = nt_read_at n, no_created_at = nt_created_at n\<rparr>"

definition age_key :: "notification \<Rightarrow> instant \<times> uuid" where
  "age_key n = (nt_created_at n, nt_id n)"

text \<open>The query, without its \<open>LIMIT\<close>.\<close>

definition listed :: "center \<Rightarrow> uuid \<Rightarrow> kind option \<Rightarrow> (instant \<times> uuid) option \<Rightarrow> notification list" where
  "listed c user k before =
     rev (sort_key age_key (filter (\<lambda>n. nt_user n = user
       \<and> (case k of None \<Rightarrow> True | Some k \<Rightarrow> nt_kind n = kind_str k)
       \<and> (case before of None \<Rightarrow> True | Some b \<Rightarrow> age_key n < b)) (notifications c)))"

definition list_notifications :: "center \<Rightarrow> uuid \<Rightarrow> list_query \<Rightarrow> center_error + notice list \<times> bool" where
  "list_notifications c user q =
     (case (case q_kind q of None \<Rightarrow> Inr None
              | Some k \<Rightarrow> (case kind_of_text k of None \<Rightarrow> Inl Invalid_notification_kind | Some k \<Rightarrow> Inr (Some k))) of
        Inl e \<Rightarrow> Inl e
      | Inr k \<Rightarrow>
          if (q_before_created_at q \<noteq> None) \<noteq> (q_before_id q \<noteq> None) then Inl Invalid_cursor
          else let limit = max 1 (min MAX_PAGE_LIMIT (case q_limit q of Some l \<Rightarrow> l | None \<Rightarrow> DEFAULT_PAGE_LIMIT));
                   before = (case (q_before_created_at q, q_before_id q) of (Some at, Some i) \<Rightarrow> Some (at, i) | _ \<Rightarrow> None);
                   rows = take (nat (limit + 1)) (listed c user k before)
               in Inr (map notice_of (take (nat limit) rows), limit < int (length rows)))"

definition unread :: "notification \<Rightarrow> bool" where
  "unread n \<longleftrightarrow> nt_read_at n = None"

definition unread_count :: "center \<Rightarrow> uuid \<Rightarrow> nat" where
  "unread_count c user = length (filter (\<lambda>n. nt_user n = user \<and> unread n) (notifications c))"

definition mark_read :: "center \<Rightarrow> instant \<Rightarrow> uuid \<Rightarrow> uuid \<Rightarrow> (center_error + unit) \<times> center" where
  "mark_read c now user i =
     (let mine = (\<lambda>n. nt_id n = i \<and> nt_user n = user);
          c' = c\<lparr>notifications := map (\<lambda>n. if mine n then n\<lparr>nt_read_at := (case nt_read_at n of Some at \<Rightarrow> Some at | None \<Rightarrow> Some now)\<rparr>
                                         else n) (notifications c)\<rparr>
      in (if length (filter mine (notifications c)) = 0 then Inl No_such_notification else Inr (), c'))"

definition mark_all_read :: "center \<Rightarrow> instant \<Rightarrow> uuid \<Rightarrow> center" where
  "mark_all_read c now user =
     c\<lparr>notifications := map (\<lambda>n. if nt_user n = user \<and> unread n then n\<lparr>nt_read_at := Some now\<rparr> else n) (notifications c)\<rparr>"

section \<open>The text fits\<close>

text \<open>
  What \<open>chrono\<close> documents of \<open>%d/%m/%Y\<close> and \<open>%H:%M\<close>: digits, \<open>/\<close>, \<open>:\<close> and a sign, at most
  thirteen and five characters. The space and the ellipsis are not of category Cf.
\<close>

definition notice_env_ok :: "notice_env \<Rightarrow> bool" where
  "notice_env_ok env \<longleftrightarrow> \<not> is_format_char env 32 \<and> \<not> is_format_char env 0x2026
     \<and> (\<forall>d. length (dmy env d) \<le> 13 \<and> (\<forall>c \<in> set (dmy env d). 33 \<le> c \<and> c \<le> 126))
     \<and> (\<forall>t. length (hm env t) \<le> 5 \<and> (\<forall>c \<in> set (hm env t). 33 \<le> c \<and> c \<le> 126))"

definition one_line :: "utext \<Rightarrow> bool" where
  "one_line t \<longleftrightarrow> list_all (\<lambda>c. (is_whitespace c \<longrightarrow> c = 32) \<and> \<not> is_control c) t"

lemma one_line_simps [simp]:
  "one_line []" "one_line (c # t) \<longleftrightarrow> (is_whitespace c \<longrightarrow> c = 32) \<and> \<not> is_control c \<and> one_line t"
  "one_line (t @ u) \<longleftrightarrow> one_line t \<and> one_line u"
  by (auto simp: one_line_def)

lemma one_line_visible: "\<forall>c \<in> set t. 33 \<le> c \<and> c \<le> 126 \<Longrightarrow> one_line t"
  by (force simp: one_line_def list_all_iff is_whitespace_def is_control_def)

lemma one_line_chars: "list_all (\<lambda>c. 32 \<le> c \<and> c \<le> 126) (chars s) \<Longrightarrow> one_line (chars s)"
  by (force simp: one_line_def list_all_iff is_whitespace_def is_control_def)

lemma one_line_join: "\<forall>p \<in> set ps. one_line p \<Longrightarrow> one_line sep \<Longrightarrow> one_line (join_with sep ps)"
  by (induction sep ps rule: join_with.induct) auto

lemma typed_line:
  assumes "notice_env_ok env"
  shows "length (sanitize_email_line (is_format_char env) v) \<le> 81" "one_line (sanitize_email_line (is_format_char env) v)"
  using assms email_line_is_one_line [of "is_format_char env" v] by (auto simp: notice_env_ok_def one_line_def list_all_iff)

lemma dmy_line: "notice_env_ok env \<Longrightarrow> length (dmy env d) \<le> 13" "notice_env_ok env \<Longrightarrow> one_line (dmy env d)"
  "notice_env_ok env \<Longrightarrow> length (hm env t) \<le> 5" "notice_env_ok env \<Longrightarrow> one_line (hm env t)"
  using one_line_visible [of "dmy env d"] one_line_visible [of "hm env t"] by (auto simp: notice_env_ok_def)

lemma show_nat_length: "0 < k \<Longrightarrow> n < 10 ^ k \<Longrightarrow> length (show_nat n) \<le> k"
proof (induction n arbitrary: k rule: show_nat.induct)
  case (1 n)
  show ?case
  proof (cases "n < 10")
    case True
    then show ?thesis using 1(2) by (subst show_nat.simps) simp
  next
    case False
    then obtain j where k: "k = Suc j" "0 < j" using 1(2,3) by (cases k; cases "k - 1") auto
    have "n div 10 < 10 ^ j" using 1(3) by (simp add: k less_mult_imp_div_less mult.commute)
    then show ?thesis using 1(1) [OF False k(2)] False by (subst show_nat.simps) (simp add: k)
  qed
qed

lemma show_nat_line: "one_line (chars (show_nat n))"
  using show_nat_digits [of n]
  by (auto simp: list_all_iff is_digit_def Let_def is_whitespace_def is_control_def one_line_def)

lemma recap_names_line:
  assumes "notice_env_ok env"
  shows "length named \<le> 2 \<Longrightarrow> \<forall>p \<in> set named. length p \<le> 81 \<and> one_line p \<Longrightarrow>
    length (recap_names env items named) \<le> 2 \<and> (\<forall>p \<in> set (recap_names env items named). length p \<le> 81 \<and> one_line p)"
proof (induction items arbitrary: named)
  case (Cons i rest)
  define n where "n = sanitize_email_line (is_format_char env) i"
  define named2 where "named2 = (if n \<noteq> [] \<and> n \<notin> set named then named @ [n] else named)"
  have step: "recap_names env (i # rest) named = (if length named = 2 then named else recap_names env rest named2)"
    by (simp add: RECAP_NAMED_ITEMS_def n_def named2_def Let_def)
  have n: "length n \<le> 81" "one_line n" using typed_line [OF assms, of i] by (simp_all add: n_def)
  show ?case
  proof (cases "length named = 2")
    case False
    then have "length named2 \<le> 2" using Cons.prems(1) by (simp add: named2_def)
    moreover have "\<forall>p \<in> set named2. length p \<le> 81 \<and> one_line p" using Cons.prems(2) n by (simp add: named2_def)
    ultimately show ?thesis using Cons.IH [of named2] False unfolding step by simp
  qed (use Cons.prems step in simp)
qed simp

lemma join_two: "length ps \<le> 2 \<Longrightarrow> \<forall>p \<in> set ps. length p \<le> 81 \<Longrightarrow> length (join_with (chars '', '') ps) \<le> 164"
  by (induction "chars '', ''" ps rule: join_with.induct) auto

lemma recap_fits:
  assumes "notice_env_ok env" "length items < 2 ^ 64"
  shows "body_fits (recap_body env items) \<and> one_line (recap_body env items)"
proof -
  let ?named = "recap_names env items []"
  have n: "length ?named \<le> 2" "\<forall>p \<in> set ?named. length p \<le> 81" "\<forall>p \<in> set ?named. one_line p"
    using recap_names_line [OF assms(1), of "[]" items] by auto
  have j: "length (join_with (chars '', '') ?named) \<le> 164" using join_two [OF n(1,2)] .
  have l: "one_line (join_with (chars '', '') ?named)" using n(3) by (intro one_line_join) (auto simp: is_control_def is_whitespace_def)
  have d: "length (show_nat (length items)) \<le> 20" using assms(2) by (intro show_nat_length) auto
  show ?thesis using j l d show_nat_line [of "length items"]
    by (auto simp: recap_body_def body_fits_def Let_def is_control_def is_whitespace_def)
qed

lemma de_line: "length (de_elided env name) \<le> 3 \<and> one_line (de_elided env name)"
  by (auto simp: de_elided_def is_control_def is_whitespace_def split: list.split)

fun recap_size :: "event \<Rightarrow> nat" where
  "recap_size (Expiry_recap items) = length items"
| "recap_size e = 0"

theorem notification_text_fits:
  assumes env: "notice_env_ok env" and sz: "recap_size e < 2 ^ 64"
  shows "body_fits (body env e) \<and> one_line (body env e)
    \<and> fst (insert_for env now fresh recipients \<lparr>new_group = g, new_event = e, new_object = obj, new_actor = who, new_dedup = key\<rparr> c)
        \<noteq> Inl Check_violated"
proof -
  note t = typed_line [OF env] and d = dmy_line [OF env] and de = de_line
  have "body_fits (body env e) \<and> one_line (body env e)"
  proof (cases e)
    case (Reminder_due title at all_day)
    show ?thesis using t [of title] d(1,2) [of "naive_date (local_of (paris_zone env) at)"] d(3,4) [of "local_of (paris_zone env) at"]
      by (simp add: Reminder_due body_fits_def quoted_def Let_def is_control_def is_whitespace_def)
  next
    case (Expiry_recap items)
    then show ?thesis using recap_fits [OF env] sz by simp
  next
    case (Expiry item on)
    show ?thesis using t [of item] d(1,2) [of on] by (simp add: Expiry body_fits_def quoted_def is_control_def is_whitespace_def)
  next
    case (Message_posted author)
    show ?thesis using t [of author] de [of env "sanitize_email_line (is_format_char env) author"]
      by (simp add: Message_posted body_fits_def Let_def is_control_def is_whitespace_def)
  next
    case (Invited inviter family)
    show ?thesis using t [of inviter] t [of family] by (simp add: Invited body_fits_def quoted_def is_control_def is_whitespace_def)
  next
    case (Grocery_added author item)
    show ?thesis using t [of author] t [of item] by (simp add: Grocery_added body_fits_def quoted_def is_control_def is_whitespace_def)
  next
    case (Category_cap_exceeded category)
    show ?thesis using t [of category] by (simp add: Category_cap_exceeded body_fits_def quoted_def is_control_def is_whitespace_def)
  qed (simp_all add: body_fits_def is_control_def is_whitespace_def)
  then show ?thesis by (simp add: insert_for_def split_beta)
qed

section \<open>Each member once\<close>

lemma insert_rows_distinct:
  "distinct (map nt_user ns) \<Longrightarrow>
   insert_rows rows ns = (rows @ filter (\<lambda>n. \<not> list_ex (conflicts n) rows) ns,
     length (filter (\<lambda>n. \<not> list_ex (conflicts n) rows) ns))"
proof (induction ns arbitrary: rows)
  case (Cons n ns)
  have "filter (\<lambda>x. \<not> list_ex (conflicts x) (rows @ [n])) ns = filter (\<lambda>x. \<not> list_ex (conflicts x) rows) ns"
  proof (rule filter_cong [OF refl])
    fix x assume "x \<in> set ns"
    then have "nt_user n \<noteq> nt_user x" using Cons.prems by auto
    then show "(\<not> list_ex (conflicts x) (rows @ [n])) = (\<not> list_ex (conflicts x) rows)" by (simp add: conflicts_def)
  qed
  then show ?case using Cons by (simp add: split_beta)
qed simp

lemma new_rows_users: "map nt_user (map (\<lambda>(i, user). notification_row env now n (fresh i) user) (enumerate k us)) = us"
  by (rule nth_equalityI) (auto simp: nth_enumerate_eq notification_row_def)

definition has_key :: "center \<Rightarrow> uuid \<Rightarrow> utext option \<Rightarrow> bool" where
  "has_key c user key \<longleftrightarrow> key \<noteq> None \<and> list_ex (\<lambda>r. nt_user r = user \<and> nt_dedup r = key) (notifications c)"

lemma row_conflicts:
  "list_ex (conflicts (notification_row env now n i user)) (notifications c) \<longleftrightarrow> has_key c user (new_dedup n)"
  by (auto simp: conflicts_def has_key_def notification_row_def list_ex_iff)

lemma insert_for_distinct:
  assumes fits: "body_fits (body env (new_event n))" and d: "distinct us"
  shows "\<exists>rows. insert_for env now fresh us n c = (Inr (length rows), c\<lparr>notifications := notifications c @ rows\<rparr>)
    \<and> map nt_user rows = filter (\<lambda>u. \<not> has_key c u (new_dedup n)) us
    \<and> (\<forall>r \<in> set rows. \<exists>i u. r = notification_row env now n i u)"
proof -
  let ?ns = "map (\<lambda>(i, user). notification_row env now n (fresh i) user) (enumerate 0 us)"
  let ?P = "\<lambda>r. \<not> list_ex (conflicts r) (notifications c)"
  have u: "map nt_user ?ns = us" by (rule new_rows_users)
  have each: "\<exists>i u. r = notification_row env now n i u" if "r \<in> set ?ns" for r
    using that by auto
  have "?P r \<longleftrightarrow> \<not> has_key c (nt_user r) (new_dedup n)" if "r \<in> set ?ns" for r
    using each [OF that] row_conflicts [of env now n _ _ c] by (auto simp: notification_row_def)
  then have "filter ?P ?ns = filter (\<lambda>r. \<not> has_key c (nt_user r) (new_dedup n)) ?ns" by (intro filter_cong) auto
  then have "map nt_user (filter ?P ?ns) = filter (\<lambda>u. \<not> has_key c u (new_dedup n)) (map nt_user ?ns)"
    by (simp only: filter_map o_def)
  then show ?thesis using insert_rows_distinct [of ?ns "notifications c"] fits d u each
    by (intro exI [of _ "filter ?P ?ns"]) (auto simp: insert_for_def)
qed

lemma told_set:
  "set (told c n) = mb_user ` {m \<in> set (memberships c). mb_group m = new_group n \<and> Some (mb_user m) \<noteq> new_actor n \<and> living c (mb_user m)}"
  by (auto simp: told_def)

lemma told_distinct: "distinct (map (\<lambda>m. (mb_group m, mb_user m)) (memberships c)) \<Longrightarrow> distinct (told c n)"
  unfolding told_def by (induction "memberships c" arbitrary: c rule: list.induct) (auto simp: distinct_map inj_on_def)

text \<open>
  C37. An event always reaches the centre: exactly one unread notification, with the text of the
  event, for each member of the group whose account lives, other than its author, who has none
  under its key yet; writing a keyed event again tells nobody.
\<close>

theorem members_told_once:
  assumes env: "notice_env_ok env" and sz: "recap_size (new_event n) < 2 ^ 64"
    and key: "distinct (map (\<lambda>m. (mb_group m, mb_user m)) (memberships c))"
  shows "\<exists>rows. insert_for_members env now fresh n c = (Inr (length rows), c\<lparr>notifications := notifications c @ rows\<rparr>)
    \<and> distinct (map nt_user rows)
    \<and> set (map nt_user rows) = mb_user ` {m \<in> set (memberships c). mb_group m = new_group n
         \<and> Some (mb_user m) \<noteq> new_actor n \<and> living c (mb_user m) \<and> \<not> has_key c (mb_user m) (new_dedup n)}
    \<and> (\<forall>r \<in> set rows. nt_body r = body env (new_event n) \<and> nt_kind r = kind_str (event_kind (new_event n))
         \<and> nt_group r = new_group n \<and> unread r \<and> nt_created_at r = now)
    \<and> (new_dedup n \<noteq> None \<longrightarrow> (let c' = c\<lparr>notifications := notifications c @ rows\<rparr> in
         insert_for_members env later fresh2 n c' = (Inr 0, c')))"
proof -
  have fits: "body_fits (body env (new_event n))" using notification_text_fits [OF env sz] by blast
  obtain rows where r: "insert_for env now fresh (told c n) n c = (Inr (length rows), c\<lparr>notifications := notifications c @ rows\<rparr>)"
    "map nt_user rows = filter (\<lambda>u. \<not> has_key c u (new_dedup n)) (told c n)"
    "\<forall>r \<in> set rows. \<exists>i u. r = notification_row env now n i u"
    using insert_for_distinct [OF fits told_distinct [OF key], where c = c and now = now and fresh = fresh] by blast
  let ?c = "c\<lparr>notifications := notifications c @ rows\<rparr>"
  have t: "told ?c n = told c n" by (simp add: told_def living_def)
  have again: "insert_for env later fresh2 (told c n) n ?c = (Inr 0, ?c)" if "new_dedup n \<noteq> None"
  proof -
    have "has_key ?c u (new_dedup n)" if u: "u \<in> set (told c n)" for u
    proof (cases "has_key c u (new_dedup n)")
      case False
      then have "u \<in> set (map nt_user rows)" using u r(2) by simp
      then obtain x where "x \<in> set rows" "nt_user x = u" by auto
      moreover then have "nt_dedup x = new_dedup n" using r(3) by (auto simp: notification_row_def)
      ultimately show ?thesis using \<open>new_dedup n \<noteq> None\<close> by (auto simp: has_key_def list_ex_iff)
    qed (auto simp: has_key_def)
    then have "filter (\<lambda>u. \<not> has_key ?c u (new_dedup n)) (told c n) = []" by (simp add: filter_empty_conv)
    then show ?thesis using insert_for_distinct [OF fits told_distinct [OF key, of n], where c = ?c and now = later and fresh = fresh2] by auto
  qed
  have users: "set (map nt_user rows) = {u \<in> set (told c n). \<not> has_key c u (new_dedup n)}" using r(2) by auto
  have "nt_body x = body env (new_event n) \<and> nt_kind x = kind_str (event_kind (new_event n))
         \<and> nt_group x = new_group n \<and> unread x \<and> nt_created_at x = now" if "x \<in> set rows" for x
    using r(3) that by (auto simp: notification_row_def unread_def)
  moreover have "distinct (map nt_user rows)" using told_distinct [OF key, of n] r(2) by simp
  ultimately show ?thesis using r(1) again t users
    by (intro exI [of _ rows]) (auto simp: insert_for_members_def told_set Let_def)
qed

section \<open>The pages cover the list\<close>

lemma filter_below:
  "sorted_wrt (\<lambda>a b. key b < (key a :: 'k::linorder)) xs \<Longrightarrow> i < length xs \<Longrightarrow> filter (\<lambda>x. key x < key (xs ! i)) xs = drop (Suc i) xs"
proof (induction xs arbitrary: i)
  case (Cons x xs)
  show ?case
  proof (cases i)
    case 0
    then show ?thesis using Cons.prems(1) by (simp add: filter_id_conv)
  next
    case (Suc j)
    then have "key (xs ! j) < key x" using Cons.prems by simp
    then show ?thesis using Cons Suc by (simp add: less_not_sym)
  qed
qed simp

lemma listed_sorted:
  assumes "distinct (map nt_id (notifications c))"
  shows "sorted_wrt (\<lambda>a b. age_key b < age_key a) (listed c user k before)"
proof -
  let ?xs = "filter (\<lambda>n. nt_user n = user \<and> (case k of None \<Rightarrow> True | Some k \<Rightarrow> nt_kind n = kind_str k)
       \<and> (case before of None \<Rightarrow> True | Some b \<Rightarrow> age_key n < b)) (notifications c)"
  have "distinct (map nt_id ?xs)" using assms by (simp add: distinct_map_filter)
  then have "distinct (map age_key ?xs)" by (auto simp: distinct_map inj_on_def age_key_def)
  then have "sorted (map age_key (sort_key age_key ?xs))" "distinct (map age_key (sort_key age_key ?xs))"
    by (auto simp: distinct_map)
  then have "sorted_wrt (<) (map age_key (sort_key age_key ?xs))" using strict_sorted_iff by blast
  then show ?thesis by (simp add: listed_def sorted_wrt_rev sorted_wrt_map)
qed

lemma listed_after: "listed c user k (Some b) = filter (\<lambda>n. age_key n < b) (listed c user k None)"
  by (simp add: listed_def rev_filter [symmetric] filter_sort conj_ac)

lemma kind_text: "kind_of_text (kind_str k) = Some k"
  by (cases k) (simp_all add: kind_of_text_def all_kinds_def)

lemma page_of:
  assumes "q_kind q = map_option kind_str k"
    and "q_before_created_at q = map_option fst before" "q_before_id q = map_option snd before"
    and "l = nat (max 1 (min MAX_PAGE_LIMIT (case q_limit q of Some l \<Rightarrow> l | None \<Rightarrow> DEFAULT_PAGE_LIMIT)))"
  shows "list_notifications c user q =
    Inr (map notice_of (take l (listed c user k before)), l < length (listed c user k before))"
proof -
  define m where "m = max 1 (min MAX_PAGE_LIMIT (case q_limit q of Some l \<Rightarrow> l | None \<Rightarrow> DEFAULT_PAGE_LIMIT))"
  have m: "1 \<le> m" "l = nat m" "nat (m + 1) = Suc l" "m = int l" using assms(4) by (auto simp: m_def)
  have k: "(case map_option kind_str k of None \<Rightarrow> Inr None
      | Some t \<Rightarrow> (case kind_of_text t of None \<Rightarrow> Inl Invalid_notification_kind | Some k \<Rightarrow> Inr (Some k))) = Inr k"
    by (cases k) (simp_all add: kind_text)
  have b: "(case (map_option fst before, map_option snd before) of (Some at, Some i) \<Rightarrow> Some (at, i) | _ \<Rightarrow> None) = before"
    "(map_option fst before \<noteq> None) \<noteq> (map_option snd before \<noteq> None) \<longleftrightarrow> False"
    by (cases before; simp)+
  have r: "take l (take (Suc l) xs) = take l xs" "m < int (length (take (Suc l) xs)) \<longleftrightarrow> l < length xs" for xs :: "notification list"
    using m(4) by auto
  show ?thesis
    by (simp only: list_notifications_def assms(1-3) k b m_def [symmetric] m(3) m(2) [symmetric] r Let_def sum.case if_False)
qed

theorem pages_cover_the_list:
  assumes ids: "distinct (map nt_id (notifications c))"
    and q: "q_kind q = map_option kind_str k" "q_before_created_at q = None" "q_before_id q = None"
    and l: "l = nat (max 1 (min MAX_PAGE_LIMIT (case q_limit q of Some l \<Rightarrow> l | None \<Rightarrow> DEFAULT_PAGE_LIMIT)))"
  shows "\<exists>entire. distinct entire
    \<and> set entire = {n \<in> set (notifications c). nt_user n = user \<and> (k = None \<or> nt_kind n = kind_str (the k))}
    \<and> sorted_wrt (\<lambda>a b. age_key b < age_key a) entire
    \<and> list_notifications c user q = Inr (map notice_of (take l entire), l < length entire)
    \<and> (\<forall>i < length entire.
         list_notifications c user (q\<lparr>q_before_created_at := Some (nt_created_at (entire ! i)), q_before_id := Some (nt_id (entire ! i))\<rparr>)
           = Inr (map notice_of (take l (drop (Suc i) entire)), Suc i + l < length entire))"
proof -
  let ?e = "listed c user k None"
  have sorted: "sorted_wrt (\<lambda>a b. age_key b < age_key a) ?e" using listed_sorted [OF ids] .
  have d: "distinct ?e" using ids by (simp add: listed_def distinct_map)
  have "list_notifications c user (q\<lparr>q_before_created_at := Some (nt_created_at (?e ! i)), q_before_id := Some (nt_id (?e ! i))\<rparr>)
           = Inr (map notice_of (take l (drop (Suc i) ?e)), Suc i + l < length ?e)" if i: "i < length ?e" for i
  proof -
    let ?q = "q\<lparr>q_before_created_at := Some (nt_created_at (?e ! i)), q_before_id := Some (nt_id (?e ! i))\<rparr>"
    have "listed c user k (Some (age_key (?e ! i))) = drop (Suc i) ?e"
      using filter_below [OF sorted i] by (simp add: listed_after)
    then show ?thesis
      using page_of [of ?q k "Some (age_key (?e ! i))" l c user] q l i by (simp add: age_key_def less_diff_conv add.commute)
  qed
  moreover have "list_notifications c user q = Inr (map notice_of (take l ?e), l < length ?e)"
    using page_of [of q k None l c user] q l by simp
  moreover have "set ?e = {n \<in> set (notifications c). nt_user n = user \<and> (k = None \<or> nt_kind n = kind_str (the k))}"
    by (cases k) (auto simp: listed_def)
  ultimately show ?thesis using d sorted by blast
qed

section \<open>What is read\<close>

datatype reading = Read_one uuid | Read_all

definition reads :: "instant \<Rightarrow> uuid \<Rightarrow> center \<Rightarrow> reading \<Rightarrow> center" where
  "reads now user c r = (case r of Read_one i \<Rightarrow> snd (mark_read c now user i) | Read_all \<Rightarrow> mark_all_read c now user)"

lemma find_mine:
  "List.find (\<lambda>n. nt_id n = i \<and> nt_user n = user) rows = None \<longleftrightarrow> filter (\<lambda>n. nt_id n = i \<and> nt_user n = user) rows = []"
  by (auto simp: find_None_iff filter_empty_conv)

lemma unread_after_one:
  "distinct (map nt_id rows) \<Longrightarrow> List.find (\<lambda>n. nt_id n = i \<and> nt_user n = user) rows = Some n \<Longrightarrow>
   length (filter (\<lambda>n. nt_user n = user \<and> unread n) (map (\<lambda>n. if nt_id n = i \<and> nt_user n = user
      then n\<lparr>nt_read_at := (case nt_read_at n of Some at \<Rightarrow> Some at | None \<Rightarrow> Some now)\<rparr> else n) rows)) + (if unread n then 1 else 0)
   = length (filter (\<lambda>n. nt_user n = user \<and> unread n) rows)"
proof (induction rows)
  case (Cons r rows)
  show ?case
  proof (cases "nt_id r = i \<and> nt_user r = user")
    case True
    then have "map (\<lambda>n. if nt_id n = i \<and> nt_user n = user
      then n\<lparr>nt_read_at := (case nt_read_at n of Some at \<Rightarrow> Some at | None \<Rightarrow> Some now)\<rparr> else n) rows = rows"
      using Cons.prems(1) by (intro map_idI) (force simp: image_iff)
    then show ?thesis using True Cons.prems(2) by (auto simp: unread_def split: option.split)
  next
    case False
    then have "List.find (\<lambda>n. nt_id n = i \<and> nt_user n = user) rows = Some n" using Cons.prems(2) by (auto split: if_splits)
    from Cons.IH [OF _ this] False Cons.prems(1) show ?thesis by (simp only: list.map filter.simps if_False split: if_split) auto
  qed
qed simp

theorem reading_is_ones_own:
  assumes "distinct (map nt_id (notifications c))"
  shows "list_all2 (\<lambda>n n'. n' = n \<or> nt_user n = user \<and> unread n \<and> n' = n\<lparr>nt_read_at := Some now\<rparr>)
      (notifications c) (notifications (reads now user c r))
    \<and> unread_count (mark_all_read c now user) user = 0
    \<and> (case List.find (\<lambda>n. nt_id n = i \<and> nt_user n = user) (notifications c) of
         None \<Rightarrow> mark_read c now user i = (Inl No_such_notification, c)
       | Some n \<Rightarrow> fst (mark_read c now user i) = Inr ()
           \<and> unread_count (snd (mark_read c now user i)) user + (if unread n then 1 else 0) = unread_count c user)"
proof -
  have "list_all2 (\<lambda>n n'. n' = n \<or> nt_user n = user \<and> unread n \<and> n' = n\<lparr>nt_read_at := Some now\<rparr>)
      (notifications c) (notifications (reads now user c r))"
    by (auto simp: reads_def mark_read_def mark_all_read_def Let_def list_all2_map2 unread_def intro!: list_all2_same [THEN iffD2]
        split: reading.split option.split)
  moreover have "unread_count (mark_all_read c now user) user = 0"
    by (auto simp: unread_count_def mark_all_read_def filter_empty_conv unread_def)
  moreover have "mark_read c now user i = (Inl No_such_notification, c)"
    if "List.find (\<lambda>n. nt_id n = i \<and> nt_user n = user) (notifications c) = None"
  proof -
    have "filter (\<lambda>n. nt_id n = i \<and> nt_user n = user) (notifications c) = []" using that find_mine by blast
    moreover from this have "map (\<lambda>n. if nt_id n = i \<and> nt_user n = user
      then n\<lparr>nt_read_at := (case nt_read_at n of Some at \<Rightarrow> Some at | None \<Rightarrow> Some now)\<rparr> else n) (notifications c) = notifications c"
      by (intro map_idI) (auto simp: filter_empty_conv)
    ultimately show ?thesis by (simp add: mark_read_def Let_def)
  qed
  moreover have "fst (mark_read c now user i) = Inr ()
           \<and> unread_count (snd (mark_read c now user i)) user + (if unread n then 1 else 0) = unread_count c user"
    if n: "List.find (\<lambda>n. nt_id n = i \<and> nt_user n = user) (notifications c) = Some n" for n
    using unread_after_one [OF assms n, of now] n find_mine [of i user "notifications c"]
    by (simp add: mark_read_def unread_count_def Let_def)
  ultimately show ?thesis
    by (cases "List.find (\<lambda>n. nt_id n = i \<and> nt_user n = user) (notifications c)") (simp_all only: option.case)
qed

section \<open>A family of three\<close>

definition plain_env :: notice_env where
  "plain_env = \<lparr>is_format_char = (\<lambda>c. c = 0x200B), lower_char = (\<lambda>c. [c]), paris_zone = demo_zone,
     dmy = (\<lambda>d. chars ''02/11/2026''), hm = (\<lambda>t. chars ''16:30'')\<rparr>"

lemma plain_env_ok: "notice_env_ok plain_env"
  by (simp add: notice_env_ok_def plain_env_def)

definition one_notice :: "uuid \<Rightarrow> uuid \<Rightarrow> instant \<Rightarrow> notification" where
  "one_notice i user at = \<lparr>nt_id = i, nt_user = user, nt_group = 10, nt_kind = ''message'', nt_object = None, nt_actor = None,
     nt_body = chars ''hello'', nt_dedup = None, nt_read_at = None, nt_created_at = at\<rparr>"

definition busy_center :: center where
  "busy_center =
     \<lparr>accounts = map (\<lambda>i. \<lparr>ac_id = i, ac_deactivated = (i = 3), ac_deleted = False\<rparr>) [1, 2, 3],
      memberships = map (\<lambda>i. \<lparr>mb_group = 10, mb_user = i, mb_role = Member\<rparr>) [1, 2, 3],
      notifications = [one_notice 100 2 5, one_notice 101 2 7, one_notice 102 1 6, one_notice 103 2 7]\<rparr>"

lemma busy_ids: "distinct (map nt_id (notifications busy_center))"
  by (simp add: busy_center_def one_notice_def)

lemma notification_text_fits_witness:
  "body_fits (body plain_env (Grocery_added (chars ''Alice'') (chars ''Milk'')))"
  by (rule notification_text_fits [OF plain_env_ok, THEN conjunct1]) simp

lemma members_told_once_witness:
  "\<exists>rows :: notification list. fst (insert_for_members plain_env 9 (\<lambda>i. 200 + i)
       \<lparr>new_group = 10, new_event = Grocery_added (chars ''Alice'') (chars ''Milk''), new_object = None, new_actor = Some 1, new_dedup = None\<rparr>
       busy_center) = Inr (length rows) \<and> map nt_user rows = [2]"
proof -
  let ?n = "\<lparr>new_group = 10, new_event = Grocery_added (chars ''Alice'') (chars ''Milk''), new_object = None, new_actor = Some 1, new_dedup = None\<rparr>"
  obtain rows where r: "insert_for_members plain_env 9 (\<lambda>i. 200 + i) ?n busy_center
      = (Inr (length rows), busy_center\<lparr>notifications := notifications busy_center @ rows\<rparr>)"
    "distinct (map nt_user rows)"
    "set (map nt_user rows) = mb_user ` {m \<in> set (memberships busy_center). mb_group m = new_group ?n
         \<and> Some (mb_user m) \<noteq> new_actor ?n \<and> living busy_center (mb_user m) \<and> \<not> has_key busy_center (mb_user m) (new_dedup ?n)}"
    using members_told_once [OF plain_env_ok, of ?n busy_center 9 "\<lambda>i. 200 + i"] by (auto simp: busy_center_def)
  have "set (map nt_user rows) = {2}"
    unfolding r(3) set_filter [symmetric] by (simp add: busy_center_def living_def has_key_def)
  then have "map nt_user rows = [2]" using r(2) by (cases "map nt_user rows"; cases "tl (map nt_user rows)") auto
  then show ?thesis using r(1) by (intro exI [of _ rows]) (simp only: fst_conv)
qed

lemma pages_cover_the_list_witness:
  "\<exists>entire. length entire = 3 \<and> list_notifications busy_center 2
     \<lparr>q_kind = Some ''message'', q_before_created_at = None, q_before_id = None, q_limit = Some 2\<rparr> = Inr (map notice_of (take 2 entire), True)"
proof -
  let ?q = "\<lparr>q_kind = Some ''message'', q_before_created_at = None, q_before_id = None, q_limit = Some 2\<rparr>"
  have l: "2 = nat (max 1 (min MAX_PAGE_LIMIT (case q_limit ?q of Some l \<Rightarrow> l | None \<Rightarrow> DEFAULT_PAGE_LIMIT)))"
    by (simp add: MAX_PAGE_LIMIT_def)
  obtain e where e: "distinct e" "set e = {n \<in> set (notifications busy_center). nt_user n = 2 \<and> (Some Message = None \<or> nt_kind n = kind_str (the (Some Message)))}"
      "list_notifications busy_center 2 ?q = Inr (map notice_of (take 2 e), 2 < length e)"
    using pages_cover_the_list [OF busy_ids _ _ _ l, of "Some Message" 2] by auto
  have "set e = {one_notice 100 2 5, one_notice 101 2 7, one_notice 103 2 7}"
    unfolding e(2) by (auto simp: busy_center_def one_notice_def)
  then have "card (set e) = 3" by (simp add: one_notice_def)
  then have "length e = 3" using distinct_card [OF e(1)] by simp
  with e(3) show ?thesis by auto
qed

lemma reading_is_ones_own_witness:
  "unread_count (snd (mark_read busy_center 9 2 101)) 2 + 1 = unread_count busy_center 2
   \<and> mark_read busy_center 9 2 102 = (Inl No_such_notification, busy_center)"
proof -
  have f: "List.find (\<lambda>n. nt_id n = 101 \<and> nt_user n = 2) (notifications busy_center) = Some (one_notice 101 2 7)"
    "List.find (\<lambda>n. nt_id n = 102 \<and> nt_user n = 2) (notifications busy_center) = None"
    by (simp_all add: busy_center_def one_notice_def)
  note r = reading_is_ones_own [OF busy_ids, where now = 9 and user = 2 and r = Read_all, THEN conjunct2, THEN conjunct2]
  show ?thesis using r [of 101] r [of 102] by (simp only: f option.case) (simp add: one_notice_def unread_def)
qed

end
