(* ===== verification/Stock_Items.thy ===== *)
theory Stock_Items
  imports Notifications Cooked Products "HOL-Library.Multiset"
begin

text \<open>
  The stock of a family (\<open>apps/api/src/stocks/items.rs\<close>, the shared rules of
  \<open>apps/shared/src/validation/stocks.rs\<close>): an article is created, read, listed, edited, removed,
  and the ones about to expire are counted.

  A quantity of a request is any \<open>f64\<close>; what is stored is one too. The unique index on the codes is
  the only constraint a handler can meet; the rows' identifiers come from the database. The tables
  are those of every family, and each statement filters on the family it is given.
\<close>

section \<open>Quantities\<close>

datatype f64 = Fin quantity | Plus_infinity | Minus_infinity | Not_a_number

fun f_less :: "f64 \<Rightarrow> f64 \<Rightarrow> bool" where
  "f_less (Fin a) (Fin b) = (a < b)"
| "f_less (Fin a) Plus_infinity = True"
| "f_less Minus_infinity (Fin b) = True"
| "f_less Minus_infinity Plus_infinity = True"
| "f_less x y = False"

definition f_le :: "f64 \<Rightarrow> f64 \<Rightarrow> bool" where
  "f_le x y \<longleftrightarrow> f_less x y \<or> (x = y \<and> x \<noteq> Not_a_number)"

text \<open>The order of the database's \<open>float8\<close>: \<open>NaN\<close> equals itself and is above every other value.\<close>

definition sql_le :: "f64 \<Rightarrow> f64 \<Rightarrow> bool" where
  "sql_le x y \<longleftrightarrow> f_le x y \<or> y = Not_a_number"

fun is_finite :: "f64 \<Rightarrow> bool" where
  "is_finite (Fin a) = True"
| "is_finite x = False"

definition MAX_QUANTITY :: f64 where
  "MAX_QUANTITY = Fin 1000000000"

datatype item_form_error = NameRequired | QuantityNegative | QuantityTooLarge | ThresholdNegative | ThresholdTooLarge

fun item_form_code :: "item_form_error \<Rightarrow> string" where
  "item_form_code NameRequired = ''name_required''"
| "item_form_code QuantityNegative = ''quantity_must_be_non_negative''"
| "item_form_code QuantityTooLarge = ''quantity_too_large''"
| "item_form_code ThresholdNegative = ''reorder_threshold_must_be_non_negative''"
| "item_form_code ThresholdTooLarge = ''reorder_threshold_too_large''"

definition check_quantities :: "f64 \<Rightarrow> f64 option \<Rightarrow> item_form_error + unit" where
  "check_quantities q threshold =
     (if f_less q (Fin 0) then Inl QuantityNegative
      else if \<not> is_finite q \<or> f_less MAX_QUANTITY q then Inl QuantityTooLarge
      else case threshold of
             None \<Rightarrow> Inr ()
           | Some t \<Rightarrow>
               if f_less t (Fin 0) then Inl ThresholdNegative
               else if \<not> is_finite t \<or> f_less MAX_QUANTITY t then Inl ThresholdTooLarge
               else Inr ())"

definition validate_item_form :: "utext \<Rightarrow> f64 \<Rightarrow> f64 option \<Rightarrow> item_form_error + unit" where
  "validate_item_form name q threshold = (if trim_text name = [] then Inl NameRequired else check_quantities q threshold)"

definition is_low_stock :: "f64 \<Rightarrow> f64 option \<Rightarrow> bool" where
  "is_low_stock q threshold = (case threshold of Some t \<Rightarrow> f_le q t | None \<Rightarrow> False)"

section \<open>Expiry\<close>

definition EXPIRY_SOON_DAYS :: int where
  "EXPIRY_SOON_DAYS = 3"

datatype expiry_status = Expired | Soon | Fresh | Unknown

definition expiry_status :: "date option \<Rightarrow> date \<Rightarrow> expiry_status" where
  "expiry_status on today =
     (case on of
        None \<Rightarrow> Unknown
      | Some d \<Rightarrow> let days_left = d - today
                in if days_left < 0 then Expired else if days_left \<le> EXPIRY_SOON_DAYS then Soon else Fresh)"

definition expiring_until :: "date \<Rightarrow> date" where
  "expiring_until today = today + EXPIRY_SOON_DAYS"

section \<open>The tables\<close>

record stock_row =
  st_id :: uuid
  st_group :: uuid
  st_created_by :: uuid
  st_name :: utext
  st_category :: "utext option"
  st_quantity :: f64
  st_unit :: utext
  st_threshold :: "f64 option"
  st_expires_on :: "date option"
  st_barcode :: "utext option"
  st_updated_at :: instant

datatype grocery_source = Manual | From_recipe | Low_stock

record grocery_row =
  gr_id :: uuid
  gr_group :: uuid
  gr_created_by :: uuid
  gr_name :: utext
  gr_quantity :: "f64 option"
  gr_unit :: "utext option"
  gr_checked :: bool
  gr_source :: grocery_source
  gr_recipe :: "uuid option"
  gr_created_at :: instant
  gr_updated_at :: instant

text \<open>The selections of recipes (\<open>sl_planned\<close> when the status is \<open>planned\<close>), the recipes and their ingredients.\<close>

record selection_row =
  sl_id :: uuid
  sl_group :: uuid
  sl_recipe :: uuid
  sl_planned :: bool
  sl_created_at :: instant
  sl_servings :: "int option"

record recipe_row =
  rc_id :: uuid
  rc_servings :: "int option"

record ingredient_row =
  ig_id :: uuid
  ig_recipe :: uuid
  ig_name :: utext
  ig_quantity :: "quantity option"
  ig_unit :: "utext option"
  ig_optional :: bool

record household =
  people :: center
  stock_items :: "stock_row list"
  grocery_items :: "grocery_row list"
  selection_rows :: "selection_row list"
  recipe_rows :: "recipe_row list"
  ingredient_rows :: "ingredient_row list"

datatype api_error = Bad_request string | Conflict string | Forbidden | Not_found | Internal

text \<open>\<open>require_role\<close>: the role of the caller in the family.\<close>

definition require_role :: "household \<Rightarrow> uuid \<Rightarrow> uuid \<Rightarrow> api_error + role" where
  "require_role db g user =
     (case List.find (\<lambda>m. mb_group m = g \<and> mb_user m = user) (memberships (people db)) of
        None \<Rightarrow> Inl Forbidden | Some m \<Rightarrow> Inr (mb_role m))"

lemma role_of_member:
  "m \<in> set (memberships (people db)) \<Longrightarrow> mb_group m = g \<Longrightarrow> mb_user m = user \<Longrightarrow> \<exists>r. require_role db g user = Inr r"
  by (auto simp: require_role_def find_None_iff split: option.split)

definition can_modify :: "role \<Rightarrow> bool \<Rightarrow> bool" where
  "can_modify r creator \<longleftrightarrow> creator \<or> r = Owner \<or> r = Admin"

text \<open>\<open>result.and_then(..)\<close>, the \<open>?\<close> of the handlers.\<close>

definition and_then :: "'e + 'a \<Rightarrow> ('a \<Rightarrow> 'e + 'b) \<Rightarrow> 'e + 'b" where
  "and_then r f = (case r of Inl e \<Rightarrow> Inl e | Inr x \<Rightarrow> f x)"

section \<open>Reading\<close>

record stock_response =
  sr_row :: stock_row
  sr_low_stock :: bool
  sr_status :: expiry_status

definition stock_response :: "date \<Rightarrow> stock_row \<Rightarrow> stock_response" where
  "stock_response today r =
     \<lparr>sr_row = r, sr_low_stock = (case st_threshold r of Some t \<Rightarrow> f_le (st_quantity r) t | None \<Rightarrow> False),
      sr_status = expiry_status (st_expires_on r) today\<rparr>"

definition of_group :: "household \<Rightarrow> uuid \<Rightarrow> stock_row list" where
  "of_group db g = filter (\<lambda>r. st_group r = g) (stock_items db)"

definition stock_item :: "household \<Rightarrow> uuid \<Rightarrow> uuid \<Rightarrow> stock_row option" where
  "stock_item db g i = List.find (\<lambda>r. st_id r = i \<and> st_group r = g) (stock_items db)"

definition get_stock_item :: "household \<Rightarrow> date \<Rightarrow> uuid \<Rightarrow> uuid \<Rightarrow> uuid \<Rightarrow> api_error + stock_response" where
  "get_stock_item db today user g i =
     and_then (require_role db g user) (\<lambda>_.
       case stock_item db g i of None \<Rightarrow> Inl Not_found | Some r \<Rightarrow> Inr (stock_response today r))"

datatype stock_sort = By_name | By_expiry

definition parse_sort :: "string option \<Rightarrow> api_error + stock_sort" where
  "parse_sort s =
     (case s of None \<Rightarrow> Inr By_name
      | Some t \<Rightarrow> if t = ''expires_on'' then Inr By_expiry else Inl (Bad_request ''invalid_sort''))"

text \<open>\<open>ORDER BY CASE WHEN $2 THEN expires_on END ASC NULLS LAST, name\<close>, in the collation of the database.\<close>

definition order_key :: "kitchen_env \<Rightarrow> bool \<Rightarrow> stock_row \<Rightarrow> bool \<times> date option \<times> utext" where
  "order_key env by_expiry r =
     (let on = (if by_expiry then st_expires_on r else None) in (on = None, on, collate env (st_name r)))"

definition list_stock_items ::
    "kitchen_env \<Rightarrow> household \<Rightarrow> date \<Rightarrow> uuid \<Rightarrow> uuid \<Rightarrow> bool \<Rightarrow> string option \<Rightarrow> api_error + stock_response list" where
  "list_stock_items env db today user g low_stock s =
     and_then (parse_sort s) (\<lambda>by. and_then (require_role db g user) (\<lambda>_.
       Inr (filter (\<lambda>i. \<not> low_stock \<or> sr_low_stock i)
         (map (stock_response today) (sort_key (order_key env (by = By_expiry)) (of_group db g))))))"

definition expiring_count :: "household \<Rightarrow> date \<Rightarrow> uuid \<Rightarrow> uuid \<Rightarrow> api_error + nat" where
  "expiring_count db today user g =
     and_then (require_role db g user) (\<lambda>_.
       Inr (length (filter (\<lambda>r. \<not> sql_le (st_quantity r) (Fin 0)
         \<and> (case st_expires_on r of None \<Rightarrow> False | Some d \<Rightarrow> d \<le> expiring_until today)) (of_group db g))))"

section \<open>Writing\<close>

record create_stock =
  cs_name :: utext
  cs_category :: "utext option"
  cs_quantity :: f64
  cs_unit :: utext
  cs_threshold :: "f64 option"
  cs_expires_on :: "date option"
  cs_barcode :: "utext option"

definition validate_request :: "f64 \<Rightarrow> f64 option \<Rightarrow> api_error + unit" where
  "validate_request q threshold =
     (case check_quantities q threshold of Inl e \<Rightarrow> Inl (Bad_request (item_form_code e)) | Inr u \<Rightarrow> Inr u)"

definition barcode_to_store :: "utext option \<Rightarrow> api_error + utext option" where
  "barcode_to_store barcode =
     (case map_option trim_text barcode of
        None \<Rightarrow> Inr None
      | Some raw \<Rightarrow>
          if raw = [] then Inr None
          else case normalize_code raw of None \<Rightarrow> Inl (Bad_request ''invalid_barcode'') | Some c \<Rightarrow> Inr (Some c))"

text \<open>The \<open>INSERT\<close>, under the unique index of the codes of a family.\<close>

definition insert_stock :: "stock_row \<Rightarrow> household \<Rightarrow> api_error + household" where
  "insert_stock r db =
     (if st_barcode r \<noteq> None \<and> list_ex (\<lambda>x. st_group x = st_group r \<and> st_barcode x = st_barcode r) (stock_items db)
      then Inl (Conflict ''barcode_already_in_stock'')
      else Inr (db\<lparr>stock_items := stock_items db @ [r]\<rparr>))"

definition create_stock_item ::
    "household \<Rightarrow> instant \<Rightarrow> date \<Rightarrow> uuid \<Rightarrow> uuid \<Rightarrow> uuid \<Rightarrow> create_stock \<Rightarrow> api_error + stock_response \<times> household" where
  "create_stock_item db now today user g new_id b =
     (let name = trim_text (cs_name b); unit = normalize_unit (cs_unit b)
      in if name = [] then Inl (Bad_request ''name_required'')
         else and_then (validate_request (cs_quantity b) (cs_threshold b)) (\<lambda>_.
              and_then (barcode_to_store (cs_barcode b)) (\<lambda>barcode.
              and_then (require_role db g user) (\<lambda>_.
                let r = \<lparr>st_id = new_id, st_group = g, st_created_by = user, st_name = name, st_category = cs_category b,
                         st_quantity = cs_quantity b, st_unit = unit, st_threshold = cs_threshold b,
                         st_expires_on = cs_expires_on b, st_barcode = barcode, st_updated_at = now\<rparr>
                in and_then (insert_stock r db) (\<lambda>db. Inr (stock_response today r, db))))))"

text \<open>A field of the \<open>PATCH\<close> that can be cleared is absent, null or a value.\<close>

record update_stock_request =
  us_name :: "utext option"
  us_category :: "utext option option"
  us_quantity :: "f64 option"
  us_unit :: "utext option"
  us_threshold :: "f64 option option"
  us_expires_on :: "date option option"

definition touches_full_record :: "update_stock_request \<Rightarrow> bool" where
  "touches_full_record b \<longleftrightarrow> us_name b \<noteq> None \<or> us_category b \<noteq> None \<or> us_unit b \<noteq> None
     \<or> us_threshold b \<noteq> None \<or> us_expires_on b \<noteq> None"

definition given_or :: "'a option \<Rightarrow> 'a \<Rightarrow> 'a" where
  "given_or v old = (case v of Some x \<Rightarrow> x | None \<Rightarrow> old)"

definition updated_row :: "instant \<Rightarrow> update_stock_request \<Rightarrow> stock_row \<Rightarrow> stock_row" where
  "updated_row now b r =
     r\<lparr>st_name := given_or (map_option trim_text (us_name b)) (st_name r), st_category := given_or (us_category b) (st_category r),
       st_quantity := given_or (us_quantity b) (st_quantity r), st_unit := given_or (map_option normalize_unit (us_unit b)) (st_unit r),
       st_threshold := given_or (us_threshold b) (st_threshold r), st_expires_on := given_or (us_expires_on b) (st_expires_on r),
       st_updated_at := now\<rparr>"

definition set_row :: "uuid \<Rightarrow> uuid \<Rightarrow> stock_row \<Rightarrow> stock_row list \<Rightarrow> stock_row list" where
  "set_row g i r' = map (\<lambda>r. if st_id r = i \<and> st_group r = g then r' else r)"

definition update_stock_item ::
    "household \<Rightarrow> instant \<Rightarrow> date \<Rightarrow> uuid \<Rightarrow> uuid \<Rightarrow> uuid \<Rightarrow> update_stock_request \<Rightarrow> api_error + stock_response \<times> household" where
  "update_stock_item db now today user g i b =
     and_then (require_role db g user) (\<lambda>actor_role.
       case stock_item db g i of
         None \<Rightarrow> Inl Not_found
       | Some existing \<Rightarrow>
           let full_edit = touches_full_record b
           in if full_edit \<and> \<not> can_modify actor_role (st_created_by existing = user) then Inl Forbidden
              else if map_option trim_text (us_name b) = Some [] then Inl (Bad_request ''name_required'')
              else let r = updated_row now b existing
                   in and_then (validate_request (st_quantity r) (if full_edit then st_threshold r else None)) (\<lambda>_.
                        Inr (stock_response today r, db\<lparr>stock_items := set_row g i r (stock_items db)\<rparr>)))"

definition delete_stock_item :: "household \<Rightarrow> uuid \<Rightarrow> uuid \<Rightarrow> uuid \<Rightarrow> api_error + household" where
  "delete_stock_item db user g i =
     and_then (require_role db g user) (\<lambda>actor_role.
       case stock_item db g i of
         None \<Rightarrow> Inl Not_found
       | Some existing \<Rightarrow>
           if \<not> can_modify actor_role (st_created_by existing = user) then Inl Forbidden
           else Inr (db\<lparr>stock_items := filter (\<lambda>r. \<not> (st_id r = i \<and> st_group r = g)) (stock_items db)\<rparr>))"

section \<open>What every write keeps\<close>

definition in_bounds :: "f64 \<Rightarrow> bool" where
  "in_bounds q \<longleftrightarrow> (case q of Fin x \<Rightarrow> 0 \<le> x \<and> x \<le> 1000000000 | _ \<Rightarrow> False)"

definition row_ok :: "stock_row \<Rightarrow> bool" where
  "row_ok r \<longleftrightarrow> in_bounds (st_quantity r) \<and> (case st_threshold r of None \<Rightarrow> True | Some t \<Rightarrow> in_bounds t)
     \<and> st_name r \<noteq> [] \<and> trim_text (st_name r) = st_name r \<and> st_unit r \<noteq> [] \<and> trim_text (st_unit r) = st_unit r
     \<and> (case st_barcode r of None \<Rightarrow> True | Some c \<Rightarrow> (length c = 8 \<or> length c = 13) \<and> all_digits c \<and> check_digit_holds c)"

definition stock_ok :: "stock_row list \<Rightarrow> bool" where
  "stock_ok rows \<longleftrightarrow> (\<forall>r \<in> set rows. row_ok r) \<and> distinct (map st_id rows)
     \<and> distinct (map (\<lambda>r. (st_group r, st_barcode r)) (filter (\<lambda>r. st_barcode r \<noteq> None) rows))"

lemma and_then_Inr: "and_then r f = Inr y \<longleftrightarrow> (\<exists>x. r = Inr x \<and> f x = Inr y)"
  by (cases r) (simp_all add: and_then_def)

lemma and_then_simps [simp]: "and_then (Inl e) f = Inl e" "and_then (Inr x) f = f x"
  by (simp_all add: and_then_def)

lemma not_below: "\<not> f_less q (Fin 0) \<and> is_finite q \<and> \<not> f_less MAX_QUANTITY q \<longleftrightarrow> in_bounds q"
  by (cases q) (auto simp: in_bounds_def MAX_QUANTITY_def)

lemma check_quantities_ok:
  "check_quantities q t = Inr () \<longleftrightarrow> in_bounds q \<and> (case t of None \<Rightarrow> True | Some t \<Rightarrow> in_bounds t)"
  unfolding not_below [symmetric] by (auto simp: check_quantities_def split: option.splits)

lemma validate_ok: "validate_request q t = Inr u \<longleftrightarrow> in_bounds q \<and> (case t of None \<Rightarrow> True | Some t \<Rightarrow> in_bounds t)"
  unfolding check_quantities_ok [symmetric] by (cases "check_quantities q t") (simp_all add: validate_request_def)

lemma barcode_ok:
  "barcode_to_store b = Inr c \<Longrightarrow> (case c of None \<Rightarrow> True | Some c \<Rightarrow> (length c = 8 \<or> length c = 13) \<and> all_digits c \<and> check_digit_holds c)"
  by (auto simp: barcode_to_store_def split: option.splits if_splits
      dest!: normalize_shape)

lemma unit_ok: "normalize_unit u \<noteq> [] \<and> trim_text (normalize_unit u) = normalize_unit u"
proof -
  have "DEFAULT_UNIT \<noteq> [] \<and> trim_text DEFAULT_UNIT = DEFAULT_UNIT"
    by (simp add: DEFAULT_UNIT_def trim_by_def is_whitespace_def)
  then show ?thesis by (cases "trim_text u = []") (simp_all add: normalize_unit_def)
qed

lemma item_found: "stock_item db g i = Some r \<Longrightarrow> r \<in> set (stock_items db) \<and> st_id r = i \<and> st_group r = g"
  by (auto simp: stock_item_def find_Some_iff in_set_conv_nth)

lemma keyed_distinct_add:
  "distinct (map f (filter P xs)) \<Longrightarrow> \<not> (P r \<and> list_ex (\<lambda>x. P x \<and> f x = f r) xs) \<Longrightarrow> distinct (map f (filter P (xs @ [r])))"
  by (auto simp: list_ex_iff image_iff)

lemma insert_ok:
  assumes "insert_stock r db = Inr db'" "row_ok r" "st_id r \<notin> st_id ` set (stock_items db)" "stock_ok (stock_items db)"
  shows "stock_ok (stock_items db') \<and> db' = db\<lparr>stock_items := stock_items db @ [r]\<rparr>"
  using assms by (auto simp: insert_stock_def stock_ok_def list_ex_iff split: if_splits)

lemma set_row_ok:
  assumes ok: "stock_ok rows" and r: "r \<in> set rows" "st_id r = i" "st_group r = g"
    and r': "row_ok r'" "st_id r' = i" "st_group r' = g" "st_barcode r' = st_barcode r"
  shows "stock_ok (set_row g i r' rows)"
proof -
  let ?f = "\<lambda>x. if st_id x = i \<and> st_group x = g then r' else x"
  have same: "x = r" if "x \<in> set rows" "st_id x = i" for x
    using ok that r by (auto simp: stock_ok_def distinct_map inj_on_def)
  have keep: "st_id (?f x) = st_id x" "st_group (?f x) = st_group x" "st_barcode (?f x) = st_barcode x" if "x \<in> set rows" for x
    using same [OF that] r r' by auto
  have "map st_id (map ?f rows) = map st_id rows" using keep by simp
  moreover have "filter (\<lambda>r. st_barcode r \<noteq> None) (map ?f rows) = map ?f (filter (\<lambda>r. st_barcode r \<noteq> None) rows)"
    using keep(3) by (simp add: filter_map o_def cong: filter_cong)
  moreover have "map (\<lambda>r. (st_group r, st_barcode r)) (map ?f (filter (\<lambda>r. st_barcode r \<noteq> None) rows))
      = map (\<lambda>r. (st_group r, st_barcode r)) (filter (\<lambda>r. st_barcode r \<noteq> None) rows)"
    using keep by simp
  moreover have "\<forall>x \<in> set (map ?f rows). row_ok x" using ok r' by (auto simp: stock_ok_def)
  ultimately show ?thesis using ok unfolding stock_ok_def set_row_def by presburger
qed

lemma stock_ok_filter: "stock_ok rows \<Longrightarrow> stock_ok (filter P rows)"
  by (auto simp: stock_ok_def distinct_map_filter filter_filter conj_commute inj_on_def distinct_map)

lemma create_Inr:
  "create_stock_item db now today user g new_id b = Inr (res, db') \<longleftrightarrow>
   (\<exists>barcode r. trim_text (cs_name b) \<noteq> [] \<and> in_bounds (cs_quantity b) \<and> (case cs_threshold b of None \<Rightarrow> True | Some t \<Rightarrow> in_bounds t)
      \<and> barcode_to_store (cs_barcode b) = Inr barcode \<and> (\<exists>x. require_role db g user = Inr x)
      \<and> r = \<lparr>st_id = new_id, st_group = g, st_created_by = user, st_name = trim_text (cs_name b), st_category = cs_category b,
              st_quantity = cs_quantity b, st_unit = normalize_unit (cs_unit b), st_threshold = cs_threshold b,
              st_expires_on = cs_expires_on b, st_barcode = barcode, st_updated_at = now\<rparr>
      \<and> insert_stock r db = Inr db' \<and> res = stock_response today r)"
proof (cases "trim_text (cs_name b) = []")
  case False
  have "validate_request (cs_quantity b) (cs_threshold b) = Inr x \<longleftrightarrow>
      in_bounds (cs_quantity b) \<and> (case cs_threshold b of None \<Rightarrow> True | Some t \<Rightarrow> in_bounds t)" for x by (rule validate_ok)
  then show ?thesis using False by (auto simp: create_stock_item_def Let_def and_then_Inr)
qed (simp add: create_stock_item_def)

lemma create_ok:
  assumes c: "create_stock_item db now today user g new_id b = Inr (res, db')"
    and new: "new_id \<notin> st_id ` set (stock_items db)" and ok: "stock_ok (stock_items db)"
  shows "stock_ok (stock_items db') \<and> (\<exists>r. db' = db\<lparr>stock_items := stock_items db @ [r]\<rparr> \<and> st_group r = g)"
proof -
  obtain barcode r where r: "trim_text (cs_name b) \<noteq> []" "in_bounds (cs_quantity b)" "case cs_threshold b of None \<Rightarrow> True | Some t \<Rightarrow> in_bounds t"
      "barcode_to_store (cs_barcode b) = Inr barcode"
      "r = \<lparr>st_id = new_id, st_group = g, st_created_by = user, st_name = trim_text (cs_name b), st_category = cs_category b,
              st_quantity = cs_quantity b, st_unit = normalize_unit (cs_unit b), st_threshold = cs_threshold b,
              st_expires_on = cs_expires_on b, st_barcode = barcode, st_updated_at = now\<rparr>"
      "insert_stock r db = Inr db'"
    using c unfolding create_Inr by blast
  have "row_ok r" using r(1-3) barcode_ok [OF r(4)] unit_ok [of "cs_unit b"] by (simp add: row_ok_def r(5))
  moreover have "st_id r \<notin> st_id ` set (stock_items db)" "st_group r = g" using new by (simp_all add: r(5))
  ultimately show ?thesis using insert_ok [OF r(6)] ok by blast
qed

lemma update_Inr:
  "update_stock_item db now today user g i b = Inr (res, db') \<longleftrightarrow>
   (\<exists>actor r. require_role db g user = Inr actor \<and> stock_item db g i = Some r
      \<and> (touches_full_record b \<longrightarrow> can_modify actor (st_created_by r = user))
      \<and> map_option trim_text (us_name b) \<noteq> Some []
      \<and> in_bounds (st_quantity (updated_row now b r))
      \<and> (touches_full_record b \<longrightarrow> (case st_threshold (updated_row now b r) of None \<Rightarrow> True | Some t \<Rightarrow> in_bounds t))
      \<and> res = stock_response today (updated_row now b r)
      \<and> db' = db\<lparr>stock_items := set_row g i (updated_row now b r) (stock_items db)\<rparr>)"
proof (cases "stock_item db g i")
  case (Some r)
  have "validate_request (st_quantity (updated_row now b r)) t = Inr x \<longleftrightarrow>
      in_bounds (st_quantity (updated_row now b r)) \<and> (case t of None \<Rightarrow> True | Some t \<Rightarrow> in_bounds t)" for t x by (rule validate_ok)
  then show ?thesis by (auto simp: update_stock_item_def Let_def and_then_Inr Some)
qed (auto simp: update_stock_item_def and_then_Inr)

lemma updated_ok:
  assumes "row_ok r" "map_option trim_text (us_name b) \<noteq> Some []" "in_bounds (st_quantity (updated_row now b r))"
    "case st_threshold (updated_row now b r) of None \<Rightarrow> True | Some t \<Rightarrow> in_bounds t"
  shows "row_ok (updated_row now b r)"
proof -
  have "given_or (map_option trim_text (us_name b)) (st_name r) \<noteq> []
      \<and> trim_text (given_or (map_option trim_text (us_name b)) (st_name r)) = given_or (map_option trim_text (us_name b)) (st_name r)"
    using assms(1,2) by (cases "us_name b") (simp_all add: given_or_def row_ok_def)
  moreover have "given_or (map_option normalize_unit (us_unit b)) (st_unit r) \<noteq> []
      \<and> trim_text (given_or (map_option normalize_unit (us_unit b)) (st_unit r)) = given_or (map_option normalize_unit (us_unit b)) (st_unit r)"
    using assms(1) unit_ok by (cases "us_unit b") (simp_all add: given_or_def row_ok_def)
  ultimately show ?thesis using assms by (simp add: row_ok_def updated_row_def)
qed

lemma quantity_only: "\<not> touches_full_record b \<Longrightarrow> updated_row now b r = r\<lparr>st_quantity := given_or (us_quantity b) (st_quantity r), st_updated_at := now\<rparr>"
  by (simp add: touches_full_record_def updated_row_def given_or_def)

lemma update_ok:
  assumes u: "update_stock_item db now today user g i b = Inr (res, db')" and ok: "stock_ok (stock_items db)"
  shows "stock_ok (stock_items db')"
proof -
  obtain actor r where r: "stock_item db g i = Some r" "map_option trim_text (us_name b) \<noteq> Some []" "in_bounds (st_quantity (updated_row now b r))"
      "touches_full_record b \<longrightarrow> (case st_threshold (updated_row now b r) of None \<Rightarrow> True | Some t \<Rightarrow> in_bounds t)"
      "db' = db\<lparr>stock_items := set_row g i (updated_row now b r) (stock_items db)\<rparr>"
    using u unfolding update_Inr by blast
  have f: "r \<in> set (stock_items db)" "st_id r = i" "st_group r = g" using item_found [OF r(1)] by auto
  then have "row_ok r" using ok by (simp add: stock_ok_def)
  moreover then have "case st_threshold (updated_row now b r) of None \<Rightarrow> True | Some t \<Rightarrow> in_bounds t"
    using r(4) quantity_only [of b now r] by (cases "touches_full_record b") (simp_all add: row_ok_def)
  ultimately have "row_ok (updated_row now b r)" using updated_ok r(2,3) by blast
  moreover have "st_id (updated_row now b r) = i" "st_group (updated_row now b r) = g" "st_barcode (updated_row now b r) = st_barcode r"
    using f by (simp_all add: updated_row_def)
  ultimately show ?thesis using set_row_ok [OF ok f] by (simp add: r(5))
qed

lemma delete_Inr:
  "delete_stock_item db user g i = Inr db' \<longleftrightarrow>
   (\<exists>actor r. require_role db g user = Inr actor \<and> stock_item db g i = Some r \<and> can_modify actor (st_created_by r = user)
      \<and> db' = db\<lparr>stock_items := filter (\<lambda>r. \<not> (st_id r = i \<and> st_group r = g)) (stock_items db)\<rparr>)"
  by (cases "stock_item db g i") (auto simp: delete_stock_item_def and_then_Inr)

section \<open>The count is what the list shows\<close>

lemma stock_response_sel [simp]:
  "sr_row (stock_response today r) = r"
  "sr_low_stock (stock_response today r) = is_low_stock (st_quantity r) (st_threshold r)"
  "sr_status (stock_response today r) = expiry_status (st_expires_on r) today"
  by (simp_all add: stock_response_def is_low_stock_def)

definition soonest_first :: "stock_response list \<Rightarrow> bool" where
  "soonest_first shown \<longleftrightarrow> sorted_wrt (\<lambda>a b. case st_expires_on (sr_row b) of
     None \<Rightarrow> True | Some y \<Rightarrow> (case st_expires_on (sr_row a) of None \<Rightarrow> False | Some x \<Rightarrow> x \<le> y)) shown"

lemma length_filter_sorted: "length (filter P (sort_key k xs)) = length (filter P xs)"
  by (metis mset_filter mset_sort size_mset)

lemma expiring_iff: "expiry_status (Some d) today \<in> {Expired, Soon} \<longleftrightarrow> d \<le> expiring_until today"
  by (auto simp: expiry_status_def expiring_until_def EXPIRY_SOON_DAYS_def Let_def)

theorem count_is_what_the_list_shows:
  assumes ok: "stock_ok (stock_items db)" and l: "list_stock_items env db today user g False s = Inr shown"
  shows "expiring_count db today user g =
      Inr (length (filter (\<lambda>i. st_quantity (sr_row i) \<noteq> Fin 0 \<and> sr_status i \<in> {Expired, Soon}) shown))
    \<and> mset (map sr_row shown) = mset (of_group db g)
    \<and> list_stock_items env db today user g True s =
        Inr (filter (\<lambda>i. is_low_stock (st_quantity (sr_row i)) (st_threshold (sr_row i))) shown)
    \<and> (s = Some ''expires_on'' \<longrightarrow> soonest_first shown)"
proof -
  obtain sorting r where p: "parse_sort s = Inr sorting" "require_role db g user = Inr r"
    using l by (auto simp: list_stock_items_def and_then_Inr)
  define K where "K = order_key env (sorting = By_expiry)"
  have shown: "shown = map (stock_response today) (sort_key K (of_group db g))"
    using l by (simp add: list_stock_items_def p K_def)
  have pos: "\<not> sql_le (st_quantity x) (Fin 0) \<longleftrightarrow> st_quantity x \<noteq> Fin 0" if "x \<in> set (of_group db g)" for x
    using ok that by (cases "st_quantity x") (auto simp: stock_ok_def of_group_def row_ok_def in_bounds_def sql_le_def f_le_def)
  have "length (filter (\<lambda>i. st_quantity (sr_row i) \<noteq> Fin 0 \<and> sr_status i \<in> {Expired, Soon}) shown)
      = length (filter (\<lambda>x. st_quantity x \<noteq> Fin 0 \<and> expiry_status (st_expires_on x) today \<in> {Expired, Soon}) (of_group db g))"
    by (simp add: shown filter_map o_def length_filter_sorted)
  also have "filter (\<lambda>x. st_quantity x \<noteq> Fin 0 \<and> expiry_status (st_expires_on x) today \<in> {Expired, Soon}) (of_group db g)
      = filter (\<lambda>x. \<not> sql_le (st_quantity x) (Fin 0) \<and> (case st_expires_on x of None \<Rightarrow> False | Some d \<Rightarrow> d \<le> expiring_until today)) (of_group db g)"
  proof (rule filter_cong [OF refl])
    fix x assume "x \<in> set (of_group db g)"
    then show "(st_quantity x \<noteq> Fin 0 \<and> expiry_status (st_expires_on x) today \<in> {Expired, Soon})
        = (\<not> sql_le (st_quantity x) (Fin 0) \<and> (case st_expires_on x of None \<Rightarrow> False | Some d \<Rightarrow> d \<le> expiring_until today))"
      using pos [of x] expiring_iff [of _ today] by (cases "st_expires_on x") (simp_all add: expiry_status_def)
  qed
  finally have count: "expiring_count db today user g =
      Inr (length (filter (\<lambda>i. st_quantity (sr_row i) \<noteq> Fin 0 \<and> sr_status i \<in> {Expired, Soon}) shown))"
    by (simp add: expiring_count_def p)
  have rows: "map sr_row shown = sort_key K (of_group db g)" by (simp add: shown o_def)
  have low: "list_stock_items env db today user g True s =
        Inr (filter (\<lambda>i. is_low_stock (st_quantity (sr_row i)) (st_threshold (sr_row i))) shown)"
    by (simp add: list_stock_items_def p K_def [symmetric] shown filter_map o_def)
  have "soonest_first shown" if "s = Some ''expires_on''"
  proof -
    have "sorted_wrt (\<lambda>a b. K a \<le> K b) (sort_key K (of_group db g))"
      using sorted_sort_key [of K "of_group db g"] by (simp add: sorted_wrt_map)
    moreover have "sorting = By_expiry" using that p by (simp add: parse_sort_def)
    ultimately have "sorted_wrt (\<lambda>a b. case st_expires_on b of None \<Rightarrow> True | Some y \<Rightarrow> (case st_expires_on a of None \<Rightarrow> False | Some x \<Rightarrow> x \<le> y))
        (sort_key K (of_group db g))"
      by (elim sorted_wrt_mono_rel [rotated]) (auto simp: K_def order_key_def Let_def less_eq_option_def split: option.splits)
    then show ?thesis by (simp add: soonest_first_def shown sorted_wrt_map cong: option.case_cong)
  qed
  then show ?thesis using count rows low by simp
qed

section \<open>A stock\<close>

definition milk :: stock_row where
  "milk = \<lparr>st_id = 7, st_group = 10, st_created_by = 1, st_name = chars ''milk'', st_category = None, st_quantity = Fin 2,
     st_unit = chars ''l'', st_threshold = Some (Fin 2), st_expires_on = Some 102, st_barcode = None, st_updated_at = 0\<rparr>"

definition rice :: stock_row where
  "rice = milk\<lparr>st_id := 8, st_name := chars ''rice'', st_quantity := Fin (1 / 2), st_unit := chars ''kg'', st_threshold := None,
     st_expires_on := None\<rparr>"

definition small_house :: household where
  "small_house = \<lparr>people = busy_center, stock_items = [rice, milk], grocery_items = [], selection_rows = [], recipe_rows = [], ingredient_rows = []\<rparr>"

lemma small_house_ok: "stock_ok (stock_items small_house)"
  by (simp add: small_house_def stock_ok_def row_ok_def milk_def rice_def in_bounds_def trim_by_def is_whitespace_def)

lemma small_house_member: "require_role small_house 10 1 = Inr Member" "require_role small_house 10 2 = Inr Member"
  by (simp_all add: require_role_def small_house_def busy_center_def)

definition plain_kitchen :: kitchen_env where
  "plain_kitchen = \<lparr>fl = (\<lambda>x. x), lower = (\<lambda>s. s), collate = (\<lambda>s. s)\<rparr>"

lemma count_is_what_the_list_shows_witness:
  "\<exists>shown. list_stock_items plain_kitchen small_house 100 1 10 False (Some ''expires_on'') = Inr shown
    \<and> soonest_first shown \<and> expiring_count small_house 100 1 10 = Inr 1"
proof -
  obtain shown where l: "list_stock_items plain_kitchen small_house 100 1 10 False (Some ''expires_on'') = Inr shown"
    by (simp add: list_stock_items_def parse_sort_def small_house_member del: One_nat_def)
  have "soonest_first shown"
    using count_is_what_the_list_shows [OF small_house_ok l] by simp
  moreover have "expiring_count small_house 100 1 10 = Inr 1"
    by (simp add: expiring_count_def small_house_member of_group_def del: One_nat_def)
       (simp add: small_house_def milk_def rice_def sql_le_def f_le_def expiring_until_def EXPIRY_SOON_DAYS_def)
  ultimately show ?thesis using l by blast
qed

end
