(* ===== verification/Grocery.thy ===== *)
theory Grocery
  imports Stock_Items
begin

text \<open>
  The grocery list of a family (\<open>apps/api/src/grocery_list/items.rs\<close>, \<open>planned.rs\<close>) and what the
  planned recipes lack of the stock (\<open>apps/api/src/recipes/availability.rs\<close>).

  Quantities of recipes and stock are finite in the sums; the infinities of \<open>f64\<close> are left aside
  there, as in the preview of a cooked recipe.
\<close>

section \<open>The lines of the planned recipes\<close>

text \<open>\<open>grocery_list::normalize_unit\<close>: a quantity without a unit gets the default one.\<close>

definition grocery_unit :: "'q option \<Rightarrow> utext option \<Rightarrow> utext option" where
  "grocery_unit quantity unit =
     (case map_option trim_text unit of
        Some u \<Rightarrow> if u \<noteq> [] then Some u else map_option (\<lambda>_. DEFAULT_UNIT) quantity
      | None \<Rightarrow> map_option (\<lambda>_. DEFAULT_UNIT) quantity)"

record planned_ingredient =
  pi_recipe :: uuid
  pi_name :: utext
  pi_quantity :: "quantity option"
  pi_unit :: "utext option"
  pi_written_for :: "int option"
  pi_cooked_for :: "int option"

record planned_line =
  ln_recipe :: uuid
  ln_name :: utext
  ln_quantity :: "quantity option"
  ln_unit :: "utext option"

definition add_quantities :: "kitchen_env \<Rightarrow> quantity \<Rightarrow> quantity \<Rightarrow> quantity" where
  "add_quantities env a b = without_binary_noise env (fl env (a + b))"

definition same_unit :: "kitchen_env \<Rightarrow> utext option \<Rightarrow> utext option \<Rightarrow> bool" where
  "same_unit env a b =
     (case (a, b) of
        (Some a, Some b) \<Rightarrow> lower env (trim_text a) = lower env (trim_text b)
      | (None, None) \<Rightarrow> True
      | _ \<Rightarrow> False)"

definition scaled :: "kitchen_env \<Rightarrow> planned_ingredient \<Rightarrow> quantity option" where
  "scaled env ing = scale_quantity env (pi_quantity ing) (pi_written_for ing) (pi_cooked_for ing)"

definition scaled_unit :: "kitchen_env \<Rightarrow> planned_ingredient \<Rightarrow> utext option" where
  "scaled_unit env ing = grocery_unit (scaled env ing) (pi_unit ing)"

text \<open>One turn of the loop: the line of the name takes the quantity, or a line is pushed.\<close>

definition summed :: "kitchen_env \<Rightarrow> planned_ingredient \<Rightarrow> planned_line \<Rightarrow> planned_line" where
  "summed env ing l =
     (case (ln_quantity l, scaled env ing) of
        (Some so_far, Some q) \<Rightarrow>
          if same_unit env (ln_unit l) (scaled_unit env ing) then l\<lparr>ln_quantity := Some (add_quantities env so_far q)\<rparr> else l
      | _ \<Rightarrow> l)"

fun add_line :: "kitchen_env \<Rightarrow> planned_ingredient \<Rightarrow> (utext \<times> planned_line) list \<Rightarrow> (utext \<times> planned_line) list" where
  "add_line env ing [] =
     [(lower env (trim_text (pi_name ing)),
       \<lparr>ln_recipe = pi_recipe ing, ln_name = trim_text (pi_name ing), ln_quantity = scaled env ing, ln_unit = scaled_unit env ing\<rparr>)]"
| "add_line env ing ((k, l) # ls) =
     (if k = lower env (trim_text (pi_name ing)) then (k, summed env ing l) # ls else (k, l) # add_line env ing ls)"

definition plan_lines :: "kitchen_env \<Rightarrow> planned_ingredient list \<Rightarrow> planned_line list" where
  "plan_lines env ings = map snd (foldl (\<lambda>ls ing. add_line env ing ls) [] ings)"

section \<open>What the stock lacks\<close>

record recipe_ingredient =
  ri_name :: utext
  ri_quantity :: "quantity option"
  ri_unit :: "utext option"
  ri_optional :: bool

definition needs :: "kitchen_env \<Rightarrow> uuid \<Rightarrow> recipe_ingredient list \<Rightarrow> int option \<Rightarrow> int option \<Rightarrow> planned_line list" where
  "needs env recipe ings written_for cooked_for =
     plan_lines env (map (\<lambda>i. \<lparr>pi_recipe = recipe, pi_name = ri_name i, pi_quantity = ri_quantity i, pi_unit = ri_unit i,
       pi_written_for = written_for, pi_cooked_for = cooked_for\<rparr>) (filter (\<lambda>i. \<not> ri_optional i) ings))"

definition lines_for :: "kitchen_env \<Rightarrow> planned_line \<Rightarrow> stock_line list \<Rightarrow> stock_line list" where
  "lines_for env need stock =
     filter (\<lambda>s. 0 < held s \<and> article_key env (line_name s) = article_key env (ln_name need)
       \<and> (ln_quantity need = None
          \<or> article_key env (line_unit s) = article_key env (case ln_unit need of Some u \<Rightarrow> u | None \<Rightarrow> []))) stock"

definition held_together :: "kitchen_env \<Rightarrow> stock_line list \<Rightarrow> quantity" where
  "held_together env ls = foldl (\<lambda>so_far s. without_binary_noise env (fl env (so_far + held s))) 0 ls"

definition missing_one :: "kitchen_env \<Rightarrow> stock_line list \<Rightarrow> planned_line \<Rightarrow> planned_line option" where
  "missing_one env stock need =
     (case ln_quantity need of
        None \<Rightarrow> if lines_for env need stock = [] then Some need else None
      | Some q \<Rightarrow>
          let short = without_binary_noise env (fl env (q - held_together env (lines_for env need stock)))
          in if 0 < short then Some (need\<lparr>ln_quantity := Some short\<rparr>) else None)"

definition missing :: "kitchen_env \<Rightarrow> planned_line list \<Rightarrow> stock_line list \<Rightarrow> planned_line list" where
  "missing env ns stock = List.map_filter (missing_one env stock) ns"

definition expiring :: "stock_line \<Rightarrow> date \<Rightarrow> bool" where
  "expiring s today \<longleftrightarrow> expiry_status (line_expires s) today \<in> {Soon, Expired}"

definition pressing :: "kitchen_env \<Rightarrow> stock_line list \<Rightarrow> date \<Rightarrow> planned_line \<Rightarrow> date option" where
  "pressing env stock today need =
     (case min_list_opt (List.map_filter line_expires (filter (\<lambda>s. expiring s today) (lines_for env need stock))) of
        None \<Rightarrow> None
      | Some nearest \<Rightarrow>
          let lasting = filter (\<lambda>s. \<not> expiring s today) (lines_for env need stock);
              covered = (case ln_quantity need of None \<Rightarrow> lasting \<noteq> [] | Some q \<Rightarrow> q \<le> held_together env lasting)
          in if \<not> covered then Some nearest else None)"

definition use_by :: "kitchen_env \<Rightarrow> planned_line list \<Rightarrow> stock_line list \<Rightarrow> date \<Rightarrow> date option" where
  "use_by env ns stock today = min_list_opt (List.map_filter (pressing env stock today) ns)"

definition by_priority :: "('t \<times> date option) list \<Rightarrow> ('t \<times> date option) list" where
  "by_priority items = sort_key (\<lambda>(t, d). (d = None, d)) items"

record availability =
  av_selection :: uuid
  av_missing :: "planned_line list"
  av_use_by :: "date option"

fun value_of :: "f64 \<Rightarrow> quantity" where
  "value_of (Fin q) = q"
| "value_of x = 0"

definition stock_line_of :: "stock_row \<Rightarrow> stock_line" where
  "stock_line_of r = \<lparr>line_id = st_id r, line_name = st_name r, line_unit = st_unit r, held = value_of (st_quantity r),
     line_expires = st_expires_on r\<rparr>"

text \<open>The join of the two queries, in their order; \<open>chunk_by\<close> on the selection.\<close>

record planned_row =
  pl_selection :: uuid
  pl_recipe :: uuid
  pl_created_at :: instant
  pl_ingredient :: uuid
  pl_name :: utext
  pl_quantity :: "quantity option"
  pl_unit :: "utext option"
  pl_optional :: bool
  pl_written_for :: "int option"
  pl_cooked_for :: "int option"

definition planned_row :: "selection_row \<Rightarrow> recipe_row \<Rightarrow> ingredient_row \<Rightarrow> planned_row" where
  "planned_row s r i =
     \<lparr>pl_selection = sl_id s, pl_recipe = sl_recipe s, pl_created_at = sl_created_at s, pl_ingredient = ig_id i, pl_name = ig_name i,
      pl_quantity = ig_quantity i, pl_unit = ig_unit i, pl_optional = ig_optional i, pl_written_for = rc_servings r,
      pl_cooked_for = sl_servings s\<rparr>"

definition planned_rows :: "kitchen_env \<Rightarrow> household \<Rightarrow> uuid \<Rightarrow> planned_row list" where
  "planned_rows env db g =
     sort_key (\<lambda>p. (pl_created_at p, pl_selection p, collate env (pl_name p), pl_ingredient p))
       [planned_row s r i. s \<leftarrow> filter (\<lambda>s. sl_group s = g \<and> sl_planned s) (selection_rows db),
          r \<leftarrow> filter (\<lambda>r. rc_id r = sl_recipe s) (recipe_rows db),
          i \<leftarrow> filter (\<lambda>i. ig_recipe i = sl_recipe s) (ingredient_rows db)]"

function chunks :: "planned_row list \<Rightarrow> planned_row list list" where
  "chunks [] = []"
| "chunks (p # ps) =
     (p # takeWhile (\<lambda>x. pl_selection x = pl_selection p) ps) # chunks (dropWhile (\<lambda>x. pl_selection x = pl_selection p) ps)"
  by pat_completeness auto
termination by (relation "measure length") (auto simp: less_Suc_eq_le length_dropWhile_le)

definition availability_of :: "kitchen_env \<Rightarrow> stock_line list \<Rightarrow> date \<Rightarrow> planned_row list \<Rightarrow> availability" where
  "availability_of env stock today chunk =
     (let ns = needs env (pl_recipe (hd chunk))
                 (map (\<lambda>r. \<lparr>ri_name = pl_name r, ri_quantity = pl_quantity r, ri_unit = pl_unit r, ri_optional = pl_optional r\<rparr>) chunk)
                 (pl_written_for (hd chunk)) (pl_cooked_for (hd chunk))
      in \<lparr>av_selection = pl_selection (hd chunk), av_missing = missing env ns stock, av_use_by = use_by env ns stock today\<rparr>)"

definition planned_availability :: "kitchen_env \<Rightarrow> household \<Rightarrow> uuid \<Rightarrow> uuid option \<Rightarrow> date \<Rightarrow> availability list" where
  "planned_availability env db g recipe today =
     (let rows = filter (\<lambda>p. recipe = None \<or> recipe = Some (pl_recipe p)) (planned_rows env db g);
          stock = map stock_line_of (of_group db g)
      in map (availability_of env stock today) (chunks rows))"

section \<open>The list\<close>

definition validate_quantity :: "f64 option \<Rightarrow> api_error + unit" where
  "validate_quantity q =
     (case q of Some x \<Rightarrow> if f_less x (Fin 0) then Inl (Bad_request ''quantity_must_be_non_negative'') else Inr () | None \<Rightarrow> Inr ())"

definition grocery_item :: "household \<Rightarrow> uuid \<Rightarrow> uuid \<Rightarrow> grocery_row option" where
  "grocery_item db g i = List.find (\<lambda>r. gr_id r = i \<and> gr_group r = g) (grocery_items db)"

definition set_grocery :: "uuid \<Rightarrow> uuid \<Rightarrow> (grocery_row \<Rightarrow> grocery_row) \<Rightarrow> household \<Rightarrow> household" where
  "set_grocery g i f db = db\<lparr>grocery_items := map (\<lambda>r. if gr_id r = i \<and> gr_group r = g then f r else r) (grocery_items db)\<rparr>"

record create_grocery =
  cg_name :: utext
  cg_quantity :: "f64 option"
  cg_unit :: "utext option"

definition create_grocery_item ::
    "notice_env \<Rightarrow> household \<Rightarrow> instant \<Rightarrow> uuid \<Rightarrow> utext \<Rightarrow> uuid \<Rightarrow> uuid \<Rightarrow> (nat \<Rightarrow> uuid) \<Rightarrow> create_grocery \<Rightarrow>
     api_error + grocery_row \<times> household" where
  "create_grocery_item env db now user author g new_id fresh b =
     (let name = trim_text (cg_name b)
      in if name = [] then Inl (Bad_request ''name_required'')
         else and_then (validate_quantity (cg_quantity b)) (\<lambda>_.
           let unit = grocery_unit (cg_quantity b) (cg_unit b)
           in and_then (require_role db g user) (\<lambda>_.
             let r = \<lparr>gr_id = new_id, gr_group = g, gr_created_by = user, gr_name = name, gr_quantity = cg_quantity b, gr_unit = unit,
                      gr_checked = False, gr_source = Manual, gr_recipe = None, gr_created_at = now, gr_updated_at = now\<rparr>;
                 n = \<lparr>new_group = g, new_event = Grocery_added author name, new_object = Some new_id, new_actor = Some user,
                      new_dedup = None\<rparr>
             in case insert_for_members env now fresh n (people db) of
                  (Inl e, c) \<Rightarrow> Inl Internal
                | (Inr written, c) \<Rightarrow> Inr (r, db\<lparr>people := c, grocery_items := grocery_items db @ [r]\<rparr>))))"

definition get_grocery_item :: "household \<Rightarrow> uuid \<Rightarrow> uuid \<Rightarrow> uuid \<Rightarrow> api_error + grocery_row" where
  "get_grocery_item db user g i =
     and_then (require_role db g user) (\<lambda>_. case grocery_item db g i of None \<Rightarrow> Inl Not_found | Some r \<Rightarrow> Inr r)"

definition list_grocery_items :: "kitchen_env \<Rightarrow> household \<Rightarrow> uuid \<Rightarrow> uuid \<Rightarrow> api_error + grocery_row list" where
  "list_grocery_items env db user g =
     and_then (require_role db g user) (\<lambda>_.
       Inr (sort_key (\<lambda>r. (gr_checked r, collate env (gr_name r))) (filter (\<lambda>r. gr_group r = g) (grocery_items db))))"

definition check_grocery_item ::
    "household \<Rightarrow> instant \<Rightarrow> uuid \<Rightarrow> uuid \<Rightarrow> uuid \<Rightarrow> bool \<Rightarrow> api_error + grocery_row \<times> household" where
  "check_grocery_item db now user g i checked =
     and_then (require_role db g user) (\<lambda>_.
       let f = (\<lambda>r. r\<lparr>gr_checked := checked, gr_updated_at := now\<rparr>)
       in case grocery_item db g i of None \<Rightarrow> Inl Not_found | Some r \<Rightarrow> Inr (f r, set_grocery g i f db))"

record update_grocery =
  ug_name :: "utext option"
  ug_quantity :: "f64 option option"
  ug_unit :: "utext option option"

definition update_grocery_item ::
    "household \<Rightarrow> instant \<Rightarrow> uuid \<Rightarrow> uuid \<Rightarrow> uuid \<Rightarrow> update_grocery \<Rightarrow> api_error + grocery_row \<times> household" where
  "update_grocery_item db now user g i b =
     and_then (require_role db g user) (\<lambda>actor_role.
       case grocery_item db g i of
         None \<Rightarrow> Inl Not_found
       | Some existing \<Rightarrow>
           if \<not> can_modify actor_role (gr_created_by existing = user) then Inl Forbidden
           else if map_option trim_text (ug_name b) = Some [] then Inl (Bad_request ''name_required'')
           else let quantity = given_or (ug_quantity b) (gr_quantity existing)
                in and_then (validate_quantity quantity) (\<lambda>_.
                  let unit = grocery_unit quantity (given_or (ug_unit b) (gr_unit existing));
                      f = (\<lambda>r. r\<lparr>gr_name := given_or (map_option trim_text (ug_name b)) (gr_name r), gr_quantity := quantity,
                                 gr_unit := unit, gr_updated_at := now\<rparr>)
                  in Inr (f existing, set_grocery g i f db)))"

definition delete_grocery_item :: "household \<Rightarrow> uuid \<Rightarrow> uuid \<Rightarrow> uuid \<Rightarrow> api_error + household" where
  "delete_grocery_item db user g i =
     and_then (require_role db g user) (\<lambda>actor_role.
       case grocery_item db g i of
         None \<Rightarrow> Inl Not_found
       | Some existing \<Rightarrow>
           if \<not> can_modify actor_role (gr_created_by existing = user) then Inl Forbidden
           else Inr (db\<lparr>grocery_items := filter (\<lambda>r. \<not> (gr_id r = i \<and> gr_group r = g)) (grocery_items db)\<rparr>))"

section \<open>The generation\<close>

text \<open>
  The two loops of the generation and the one of a recipe's missing ingredients: a line whose key
  was seen is skipped (\<open>HashSet::insert\<close>), the others are inserted, each under an identifier of
  its own.
\<close>

fun insert_unseen ::
    "('l \<Rightarrow> utext) \<Rightarrow> ('l \<Rightarrow> uuid \<Rightarrow> grocery_row) \<Rightarrow> (nat \<Rightarrow> uuid) \<Rightarrow> 'l list \<Rightarrow> utext list \<times> grocery_row list \<Rightarrow>
     utext list \<times> grocery_row list" where
  "insert_unseen key mk fresh [] (seen, created) = (seen, created)"
| "insert_unseen key mk fresh (l # ls) (seen, created) =
     (if key l \<in> set seen then insert_unseen key mk fresh ls (seen, created)
      else insert_unseen key mk fresh ls (key l # seen, created @ [mk l (fresh (length created))]))"

definition unchecked_keys :: "kitchen_env \<Rightarrow> household \<Rightarrow> uuid \<Rightarrow> utext list" where
  "unchecked_keys env db g = map (\<lambda>r. article_key env (gr_name r)) (filter (\<lambda>r. gr_group r = g \<and> \<not> gr_checked r) (grocery_items db))"

definition planned_item :: "instant \<Rightarrow> uuid \<Rightarrow> uuid \<Rightarrow> planned_line \<Rightarrow> uuid \<Rightarrow> grocery_row" where
  "planned_item now user g l i =
     \<lparr>gr_id = i, gr_group = g, gr_created_by = user, gr_name = ln_name l, gr_quantity = map_option Fin (ln_quantity l), gr_unit = ln_unit l,
      gr_checked = False, gr_source = From_recipe, gr_recipe = Some (ln_recipe l), gr_created_at = now, gr_updated_at = now\<rparr>"

definition low_stock_row :: "instant \<Rightarrow> uuid \<Rightarrow> uuid \<Rightarrow> stock_row \<Rightarrow> uuid \<Rightarrow> grocery_row" where
  "low_stock_row now user g s i =
     \<lparr>gr_id = i, gr_group = g, gr_created_by = user, gr_name = trim_text (st_name s), gr_quantity = None, gr_unit = None,
      gr_checked = False, gr_source = Low_stock, gr_recipe = None, gr_created_at = now, gr_updated_at = now\<rparr>"

definition in_stock :: "kitchen_env \<Rightarrow> household \<Rightarrow> uuid \<Rightarrow> utext list" where
  "in_stock env db g = map (\<lambda>r. article_key env (st_name r)) (filter (\<lambda>r. \<not> sql_le (st_quantity r) (Fin 0)) (of_group db g))"

definition wanted_by_recipes :: "kitchen_env \<Rightarrow> household \<Rightarrow> uuid \<Rightarrow> planned_ingredient list" where
  "wanted_by_recipes env db g =
     filter (\<lambda>i. article_key env (pi_name i) \<notin> set (in_stock env db g))
       (map (\<lambda>p. \<lparr>pi_recipe = pl_recipe p, pi_name = pl_name p, pi_quantity = pl_quantity p, pi_unit = pl_unit p,
                   pi_written_for = pl_written_for p, pi_cooked_for = pl_cooked_for p\<rparr>)
         (filter (\<lambda>p. \<not> pl_optional p) (planned_rows env db g)))"

definition running_low :: "household \<Rightarrow> uuid \<Rightarrow> stock_row list" where
  "running_low db g = filter (\<lambda>r. case st_threshold r of None \<Rightarrow> False | Some t \<Rightarrow> sql_le (st_quantity r) t) (of_group db g)"

definition generate_grocery_items ::
    "kitchen_env \<Rightarrow> household \<Rightarrow> instant \<Rightarrow> uuid \<Rightarrow> uuid \<Rightarrow> (nat \<Rightarrow> uuid) \<Rightarrow> api_error + grocery_row list \<times> household" where
  "generate_grocery_items env db now user g fresh =
     and_then (require_role db g user) (\<lambda>_.
       let created = snd
             (insert_unseen (\<lambda>s. article_key env (st_name s)) (low_stock_row now user g) fresh (running_low db g)
               (insert_unseen (\<lambda>l. lower env (ln_name l)) (planned_item now user g) fresh (plan_lines env (wanted_by_recipes env db g))
                 (unchecked_keys env db g, [])))
       in Inr (created, db\<lparr>grocery_items := grocery_items db @ created\<rparr>))"

definition add_missing_grocery_items ::
    "kitchen_env \<Rightarrow> household \<Rightarrow> instant \<Rightarrow> date \<Rightarrow> uuid \<Rightarrow> uuid \<Rightarrow> uuid \<Rightarrow> (nat \<Rightarrow> uuid) \<Rightarrow>
     api_error + grocery_row list \<times> household" where
  "add_missing_grocery_items env db now today user g recipe fresh =
     and_then (require_role db g user) (\<lambda>_.
       if \<not> list_ex (\<lambda>s. sl_recipe s = recipe \<and> sl_group s = g \<and> sl_planned s) (selection_rows db) then Inl Not_found
       else let lacking = concat (map av_missing (planned_availability env db g (Some recipe) today));
                created = snd (insert_unseen (\<lambda>l. article_key env (ln_name l)) (planned_item now user g) fresh lacking (unchecked_keys env db g, []))
            in Inr (created, db\<lparr>grocery_items := grocery_items db @ created\<rparr>))"

section \<open>One line per article\<close>

text \<open>The reference: the articles in the order of their first call, each with what its calls add up to.\<close>

definition ing_key :: "kitchen_env \<Rightarrow> planned_ingredient \<Rightarrow> utext" where
  "ing_key env i = article_key env (pi_name i)"

definition first_calls :: "kitchen_env \<Rightarrow> planned_ingredient list \<Rightarrow> utext list" where
  "first_calls env ings = rev (remdups (rev (map (ing_key env) ings)))"

definition line_of :: "kitchen_env \<Rightarrow> planned_ingredient list \<Rightarrow> utext \<Rightarrow> planned_line" where
  "line_of env ings k =
     (let calls = filter (\<lambda>i. ing_key env i = k) ings; f = hd calls
      in \<lparr>ln_recipe = pi_recipe f, ln_name = trim_text (pi_name f),
          ln_quantity = (case scaled env f of
             None \<Rightarrow> None
           | Some q \<Rightarrow> Some (foldl (add_quantities env) q (List.map_filter
               (\<lambda>i. if same_unit env (scaled_unit env f) (scaled_unit env i) then scaled env i else None) (tl calls)))),
          ln_unit = scaled_unit env f\<rparr>)"

lemma first_calls_snoc:
  "first_calls env (ings @ [i]) =
     (if ing_key env i \<in> ing_key env ` set ings then first_calls env ings else first_calls env ings @ [ing_key env i])"
  by (simp add: first_calls_def)

lemma first_calls_set [simp]: "set (first_calls env ings) = ing_key env ` set ings" "distinct (first_calls env ings)"
  by (simp_all add: first_calls_def)

lemma add_line_new:
  "ing_key env i \<notin> fst ` set ls \<Longrightarrow> add_line env i ls = ls @ [(ing_key env i,
     \<lparr>ln_recipe = pi_recipe i, ln_name = trim_text (pi_name i), ln_quantity = scaled env i, ln_unit = scaled_unit env i\<rparr>)]"
  by (induction ls) (auto simp: ing_key_def article_key_def)

lemma add_line_old:
  "distinct (map fst ls) \<Longrightarrow> ing_key env i \<in> fst ` set ls \<Longrightarrow>
   add_line env i ls = map (\<lambda>(k, l). (k, if k = ing_key env i then summed env i l else l)) ls"
proof (induction ls)
  case (Cons kl ls)
  obtain k l where kl: "kl = (k, l)" by force
  show ?case
  proof (cases "k = ing_key env i")
    case True
    then have "map (\<lambda>(k, l). (k, if k = ing_key env i then summed env i l else l)) ls = ls"
      using Cons.prems(1) by (intro map_idI) (auto simp: kl image_iff)
    then show ?thesis using True by (simp add: kl ing_key_def article_key_def)
  next
    case False
    then show ?thesis using Cons by (simp add: kl ing_key_def article_key_def)
  qed
qed simp

lemma map_filter_snoc: "List.map_filter f (xs @ [x]) = List.map_filter f xs @ (case f x of None \<Rightarrow> [] | Some y \<Rightarrow> [y])"
  by (simp add: List.map_filter_def split: option.split)

lemma line_of_snoc:
  assumes "ing_key env i \<in> ing_key env ` set ings"
  shows "line_of env (ings @ [i]) (ing_key env i) = summed env i (line_of env ings (ing_key env i))"
proof -
  obtain f fs where c: "filter (\<lambda>j. ing_key env j = ing_key env i) ings = f # fs"
    using assms by (cases "filter (\<lambda>j. ing_key env j = ing_key env i) ings") (auto simp: filter_empty_conv)
  show ?thesis
    by (cases "scaled env f"; cases "scaled env i") (simp_all add: line_of_def c summed_def map_filter_snoc)
qed

lemma line_of_other: "ing_key env i \<noteq> k \<Longrightarrow> line_of env (ings @ [i]) k = line_of env ings k"
  by (simp add: line_of_def)

lemma line_of_first:
  assumes "ing_key env i \<notin> ing_key env ` set ings"
  shows "line_of env (ings @ [i]) (ing_key env i) =
    \<lparr>ln_recipe = pi_recipe i, ln_name = trim_text (pi_name i), ln_quantity = scaled env i, ln_unit = scaled_unit env i\<rparr>"
proof -
  have "filter (\<lambda>j. ing_key env j = ing_key env i) ings = []" using assms by (force simp: filter_empty_conv image_iff)
  then show ?thesis by (simp add: line_of_def List.map_filter_def split: option.split)
qed

lemma planned_state:
  "foldl (\<lambda>ls ing. add_line env ing ls) [] ings = map (\<lambda>k. (k, line_of env ings k)) (first_calls env ings)"
proof (induction ings rule: rev_induct)
  case (snoc i ings)
  let ?ls = "map (\<lambda>k. (k, line_of env ings k)) (first_calls env ings)"
  have keys: "fst ` set ?ls = ing_key env ` set ings" "distinct (map fst ?ls)" by (simp_all add: image_image o_def)
  show ?case
  proof (cases "ing_key env i \<in> ing_key env ` set ings")
    case True
    then have "add_line env i ?ls = map (\<lambda>(k, l). (k, if k = ing_key env i then summed env i l else l)) ?ls"
      using keys by (intro add_line_old) simp_all
    also have "\<dots> = map (\<lambda>k. (k, line_of env (ings @ [i]) k)) (first_calls env ings)"
      using line_of_snoc [OF True] line_of_other [of env i _ ings] by (auto simp: o_def)
    finally show ?thesis using snoc True by (simp add: first_calls_snoc)
  next
    case False
    then have "line_of env (ings @ [i]) k = line_of env ings k" if "k \<in> set (first_calls env ings)" for k
      using that by (intro line_of_other) auto
    moreover have "add_line env i ?ls = ?ls @ [(ing_key env i, line_of env (ings @ [i]) (ing_key env i))]"
      using add_line_new [of env i ?ls] False keys(1) line_of_first [OF False] by simp
    ultimately show ?thesis using snoc False by (simp add: first_calls_snoc)
  qed
qed (simp add: first_calls_def)

theorem one_line_per_article:
  "plan_lines env ings = map (line_of env ings) (first_calls env ings)"
  by (simp add: plan_lines_def planned_state o_def)

section \<open>The generation completes the list once\<close>

definition row_key :: "kitchen_env \<Rightarrow> grocery_row \<Rightarrow> utext" where
  "row_key env r = article_key env (gr_name r)"

lemma insert_unseen_new:
  assumes "\<forall>l \<in> set ls. \<forall>i. row_key env (mk l i) = key l"
  shows "\<exists>new seen'. insert_unseen key mk fresh ls (seen, created) = (seen', created @ new)
    \<and> set seen' = set seen \<union> key ` set ls \<and> distinct (map (row_key env) new)
    \<and> row_key env ` set new = key ` set ls - set seen \<and> (\<forall>r \<in> set new. \<exists>l \<in> set ls. \<exists>i. r = mk l i)"
  using assms
proof (induction ls arbitrary: seen created)
  case (Cons l ls)
  show ?case
  proof (cases "key l \<in> set seen")
    case True
    then show ?thesis using Cons.IH [of seen created] Cons.prems by (auto simp: insert_absorb)
  next
    case False
    let ?r = "mk l (fresh (length created))"
    obtain new seen' where n: "insert_unseen key mk fresh ls (key l # seen, created @ [?r]) = (seen', (created @ [?r]) @ new)"
      "set seen' = set (key l # seen) \<union> key ` set ls" "distinct (map (row_key env) new)"
      "row_key env ` set new = key ` set ls - set (key l # seen)" "\<forall>r \<in> set new. \<exists>l \<in> set ls. \<exists>i. r = mk l i"
      using Cons.IH [of "key l # seen" "created @ [?r]"] Cons.prems by auto
    have k: "row_key env ?r = key l" using Cons.prems by simp
    have "distinct (map (row_key env) (?r # new))" using n(3,4) k by auto
    moreover have "row_key env ` set (?r # new) = key ` set (l # ls) - set seen" using n(4) k False by auto
    moreover have "\<forall>r \<in> set (?r # new). \<exists>l \<in> set (l # ls). \<exists>i. r = mk l i" using n(5) by auto
    ultimately show ?thesis using n(1,2) False by (intro exI [of _ "?r # new"] exI [of _ seen']) auto
  qed
qed simp

lemma plan_line_names: "l \<in> set (plan_lines env ings) \<Longrightarrow> trim_text (ln_name l) = ln_name l"
  unfolding plan_lines_def planned_state by (auto simp: line_of_def Let_def)

lemma plan_line_keys: "(\<lambda>l. article_key env (ln_name l)) ` set (plan_lines env ings) = ing_key env ` set ings"
proof -
  have "article_key env (ln_name (line_of env ings k)) = k" if kin: "k \<in> ing_key env ` set ings" for k
  proof -
    obtain f fs where c: "filter (\<lambda>j. ing_key env j = k) ings = f # fs"
      using kin by (cases "filter (\<lambda>j. ing_key env j = k) ings") (auto simp: filter_empty_conv)
    then have "ing_key env f = k" by (metis (mono_tags, lifting) filter_eq_ConsD)
    then show ?thesis by (simp add: line_of_def Let_def c) (simp add: article_key_def ing_key_def)
  qed
  then show ?thesis unfolding plan_lines_def planned_state by (force simp: image_image)
qed

lemma article_key_trim: "article_key env (trim_text n) = article_key env n"
  by (simp add: article_key_def)

lemma planned_item_key: "l \<in> set (plan_lines env ings) \<Longrightarrow> row_key env (planned_item now user g l i) = lower env (ln_name l)"
  by (simp add: row_key_def planned_item_def article_key_def plan_line_names)

lemma low_stock_key: "row_key env (low_stock_row now user g s i) = article_key env (st_name s)"
  by (simp add: row_key_def low_stock_row_def article_key_trim)

lemma lower_keys: "(\<lambda>l. lower env (ln_name l)) ` set (plan_lines env ings) = ing_key env ` set ings"
  unfolding plan_line_keys [symmetric] by (intro image_cong) (simp_all add: article_key_def plan_line_names)

text \<open>
  What the list should hold, read off the rows and apart from the queries: the articles the
  planned recipes of the family call for and of which its stock holds nothing above zero, and those
  of its stock at or below their threshold. \<open>at_most\<close> is the order of \<open>float8\<close>.
\<close>

fun at_most :: "f64 \<Rightarrow> f64 \<Rightarrow> bool" where
  "at_most (Fin a) (Fin b) = (a \<le> b)"
| "at_most x Not_a_number = True"
| "at_most Not_a_number y = False"
| "at_most x Plus_infinity = True"
| "at_most Plus_infinity y = False"
| "at_most Minus_infinity y = True"
| "at_most (Fin a) Minus_infinity = False"

definition held_articles :: "kitchen_env \<Rightarrow> household \<Rightarrow> uuid \<Rightarrow> utext set" where
  "held_articles env db g =
     {lower env (trim_text (st_name r)) |r. r \<in> set (stock_items db) \<and> st_group r = g \<and> \<not> at_most (st_quantity r) (Fin 0)}"

definition called_for :: "kitchen_env \<Rightarrow> household \<Rightarrow> uuid \<Rightarrow> utext set" where
  "called_for env db g =
     {lower env (trim_text (ig_name i)) |s r i.
        s \<in> set (selection_rows db) \<and> sl_group s = g \<and> sl_planned s
        \<and> r \<in> set (recipe_rows db) \<and> rc_id r = sl_recipe s
        \<and> i \<in> set (ingredient_rows db) \<and> ig_recipe i = sl_recipe s \<and> \<not> ig_optional i}
     - held_articles env db g"

definition runs_low :: "kitchen_env \<Rightarrow> household \<Rightarrow> uuid \<Rightarrow> utext set" where
  "runs_low env db g =
     {lower env (trim_text (st_name r)) |r t.
        r \<in> set (stock_items db) \<and> st_group r = g \<and> st_threshold r = Some t \<and> at_most (st_quantity r) t}"

definition still_to_buy :: "kitchen_env \<Rightarrow> household \<Rightarrow> uuid \<Rightarrow> utext set" where
  "still_to_buy env db g =
     {lower env (trim_text (gr_name r)) |r. r \<in> set (grocery_items db) \<and> gr_group r = g \<and> \<not> gr_checked r}"

lemma sql_at_most: "sql_le x y = at_most x y"
  by (cases x; cases y) (auto simp: sql_le_def f_le_def)

lemma held_in_stock: "held_articles env db g = set (in_stock env db g)"
  by (auto simp: held_articles_def in_stock_def of_group_def sql_at_most article_key_def)

lemma still_unchecked: "still_to_buy env db g = set (unchecked_keys env db g)"
  by (auto simp: still_to_buy_def unchecked_keys_def article_key_def)

lemma planned_rows_from:
  "p \<in> set (planned_rows env db g) \<longleftrightarrow> (\<exists>s r i. p = planned_row s r i
     \<and> s \<in> set (selection_rows db) \<and> sl_group s = g \<and> sl_planned s
     \<and> r \<in> set (recipe_rows db) \<and> rc_id r = sl_recipe s
     \<and> i \<in> set (ingredient_rows db) \<and> ig_recipe i = sl_recipe s)"
  by (auto simp: planned_rows_def)

lemma called_planned: "called_for env db g =
    {article_key env (pl_name p) |p. p \<in> set (planned_rows env db g) \<and> \<not> pl_optional p} - set (in_stock env db g)"
proof -
  have "{article_key env (pl_name p) |p. p \<in> set (planned_rows env db g) \<and> \<not> pl_optional p} =
    {article_key env (pl_name (planned_row s r i)) |s r i.
        s \<in> set (selection_rows db) \<and> sl_group s = g \<and> sl_planned s
        \<and> r \<in> set (recipe_rows db) \<and> rc_id r = sl_recipe s
        \<and> i \<in> set (ingredient_rows db) \<and> ig_recipe i = sl_recipe s \<and> \<not> pl_optional (planned_row s r i)}"
    unfolding planned_rows_from by blast
  then show ?thesis unfolding called_for_def held_in_stock by (simp add: planned_row_def article_key_def)
qed

lemma wanted_keys: "ing_key env ` set (wanted_by_recipes env db g) = called_for env db g"
proof -
  have "ing_key env ` set (wanted_by_recipes env db g) =
    (\<lambda>p. article_key env (pl_name p)) ` {p \<in> set (planned_rows env db g). \<not> pl_optional p \<and> article_key env (pl_name p) \<notin> set (in_stock env db g)}"
    by (simp add: wanted_by_recipes_def ing_key_def filter_map image_image o_def conj_ac)
  then show ?thesis by (auto simp: called_planned)
qed

lemma low_keys: "runs_low env db g = {article_key env (st_name r) |r. r \<in> set (running_low db g)}"
  by (auto simp: runs_low_def running_low_def of_group_def sql_at_most article_key_def split: option.splits)

lemma generated:
  assumes "require_role db g user = Inr bar"
  shows "\<exists>created. generate_grocery_items env db now user g fresh = Inr (created, db\<lparr>grocery_items := grocery_items db @ created\<rparr>)
    \<and> distinct (map (row_key env) created)
    \<and> row_key env ` set created = (called_for env db g \<union> runs_low env db g) - set (unchecked_keys env db g)
    \<and> (\<forall>r \<in> set created. gr_group r = g \<and> gr_created_by r = user \<and> \<not> gr_checked r)"
proof -
  let ?p = "plan_lines env (wanted_by_recipes env db g)"
  let ?u = "unchecked_keys env db g"
  obtain new1 seen1 where one: "insert_unseen (\<lambda>l. lower env (ln_name l)) (planned_item now user g) fresh ?p (?u, []) = (seen1, new1)"
    "set seen1 = set ?u \<union> called_for env db g" "distinct (map (row_key env) new1)"
    "row_key env ` set new1 = called_for env db g - set ?u" "\<forall>r \<in> set new1. \<exists>l \<in> set ?p. \<exists>i. r = planned_item now user g l i"
    using insert_unseen_new [of ?p env "planned_item now user g" "\<lambda>l. lower env (ln_name l)" fresh ?u "[]"]
    by (auto simp: planned_item_key lower_keys wanted_keys)
  have low: "(\<lambda>s. article_key env (st_name s)) ` set (running_low db g) = runs_low env db g" by (auto simp: low_keys)
  obtain new2 seen2 where two: "insert_unseen (\<lambda>s. article_key env (st_name s)) (low_stock_row now user g) fresh (running_low db g) (seen1, new1)
      = (seen2, new1 @ new2)" "distinct (map (row_key env) new2)" "row_key env ` set new2 = runs_low env db g - set seen1"
    "\<forall>r \<in> set new2. \<exists>l \<in> set (running_low db g). \<exists>i. r = low_stock_row now user g l i"
    using insert_unseen_new [of "running_low db g" env "low_stock_row now user g" "\<lambda>s. article_key env (st_name s)" fresh seen1 new1]
    by (auto simp: low_stock_key low)
  have "generate_grocery_items env db now user g fresh = Inr (new1 @ new2, db\<lparr>grocery_items := grocery_items db @ new1 @ new2\<rparr>)"
    by (simp add: generate_grocery_items_def assms one(1) two(1) Let_def)
  moreover have "distinct (map (row_key env) (new1 @ new2))"
    using one(2,3,4) two(2,3) by auto
  moreover have "row_key env ` set (new1 @ new2) = (called_for env db g \<union> runs_low env db g) - set ?u"
    using one(2,4) two(3) by (simp add: image_Un) blast
  moreover have "\<forall>r \<in> set (new1 @ new2). gr_group r = g \<and> gr_created_by r = user \<and> \<not> gr_checked r"
    using one(5) two(4) by (auto simp: planned_item_def low_stock_row_def)
  ultimately show ?thesis by blast
qed

lemma only_list_changes:
  assumes "db' = db\<lparr>grocery_items := items\<rparr>"
  shows "called_for env db' g = called_for env db g" "runs_low env db' g = runs_low env db g"
    "require_role db' g user = require_role db g user"
  by (simp_all add: assms called_for_def runs_low_def held_articles_def require_role_def)

lemma unchecked_append:
  "\<forall>r \<in> set created. gr_group r = g \<and> \<not> gr_checked r \<Longrightarrow> db' = db\<lparr>grocery_items := grocery_items db @ created\<rparr> \<Longrightarrow>
   set (unchecked_keys env db' g) = set (unchecked_keys env db g) \<union> row_key env ` set created"
  by (auto simp: unchecked_keys_def row_key_def)

text \<open>
  C36. Generating the list always succeeds for a member of the family. It appends, in his name and
  unchecked, exactly one line for each article that a planned recipe of the family calls for and
  of which the stock holds nothing, or that the stock holds at or below its threshold, unless an
  unchecked line already names it; an article held in stock and not running low is not added,
  whatever quantity the recipes need. Every such article is then on the list, and generating
  again, whoever does it, adds nothing.
\<close>

theorem generation_completes_once:
  assumes member: "\<exists>m \<in> set (memberships (people db)). mb_group m = g \<and> mb_user m = user"
    and again: "\<exists>m \<in> set (memberships (people db)). mb_group m = g \<and> mb_user m = user2"
  shows "\<exists>created db'. generate_grocery_items env db now user g fresh = Inr (created, db')
    \<and> db' = db\<lparr>grocery_items := grocery_items db @ created\<rparr>
    \<and> distinct (map (\<lambda>r. lower env (trim_text (gr_name r))) created)
    \<and> {lower env (trim_text (gr_name r)) |r. r \<in> set created} = (called_for env db g \<union> runs_low env db g) - still_to_buy env db g
    \<and> (\<forall>r \<in> set created. gr_group r = g \<and> gr_created_by r = user \<and> \<not> gr_checked r)
    \<and> called_for env db g \<union> runs_low env db g \<subseteq> still_to_buy env db' g
    \<and> generate_grocery_items env db' later user2 g fresh2 = Inr ([], db')"
proof -
  obtain bar bar2 where roles: "require_role db g user = Inr bar" "require_role db g user2 = Inr bar2"
    using member again role_of_member by metis
  obtain created where c: "generate_grocery_items env db now user g fresh = Inr (created, db\<lparr>grocery_items := grocery_items db @ created\<rparr>)"
    "distinct (map (row_key env) created)"
    "row_key env ` set created = (called_for env db g \<union> runs_low env db g) - set (unchecked_keys env db g)"
    "\<forall>r \<in> set created. gr_group r = g \<and> gr_created_by r = user \<and> \<not> gr_checked r"
    using generated [OF roles(1)] by blast
  let ?db = "db\<lparr>grocery_items := grocery_items db @ created\<rparr>"
  note same = only_list_changes [OF refl, where db = db and items = "grocery_items db @ created" and g = g]
  have u: "set (unchecked_keys env ?db g) = set (unchecked_keys env db g) \<union> row_key env ` set created"
    using c(4) by (intro unchecked_append) auto
  have sub: "called_for env db g \<union> runs_low env db g \<subseteq> set (unchecked_keys env ?db g)" unfolding u c(3) by blast
  have "require_role ?db g user2 = Inr bar2" using roles(2) same(3) by simp
  from generated [OF this, of env later fresh2] obtain created2 where d:
    "generate_grocery_items env ?db later user2 g fresh2 = Inr (created2, ?db\<lparr>grocery_items := grocery_items ?db @ created2\<rparr>)"
    "row_key env ` set created2 = (called_for env ?db g \<union> runs_low env ?db g) - set (unchecked_keys env ?db g)" by blast
  have "row_key env ` set created2 = {}" unfolding d(2) same(1,2) using sub by blast
  then have "created2 = []" by simp
  then have "generate_grocery_items env ?db later user2 g fresh2 = Inr ([], ?db)" using d(1) by simp
  moreover have "row_key env = (\<lambda>r. lower env (trim_text (gr_name r)))" by (simp add: row_key_def article_key_def fun_eq_iff)
  ultimately show ?thesis
    using c sub unfolding still_unchecked by (intro exI [of _ created] exI [of _ ?db]) (auto simp: image_def)
qed

lemma missing_added_once:
  assumes "add_missing_grocery_items env db now today user g recipe fresh = Inr (created, db')" "require_role db g user2 = Inr bar2"
  shows "add_missing_grocery_items env db' later today user2 g recipe fresh2 = Inr ([], db')"
proof -
  let ?l = "concat (map av_missing (planned_availability env db g (Some recipe) today))"
  have k: "\<forall>l \<in> set ls. \<forall>i. row_key env (planned_item t u g l i) = article_key env (ln_name l)" for ls t u
    by (simp add: row_key_def planned_item_def)
  obtain r where r: "require_role db g user = Inr r" using assms(1) by (auto simp: add_missing_grocery_items_def and_then_Inr)
  have sel: "list_ex (\<lambda>s. sl_recipe s = recipe \<and> sl_group s = g \<and> sl_planned s) (selection_rows db)"
    using assms(1) r by (auto simp: add_missing_grocery_items_def split: if_splits)
  obtain new seen where n: "insert_unseen (\<lambda>l. article_key env (ln_name l)) (planned_item now user g) fresh ?l (unchecked_keys env db g, []) = (seen, [] @ new)"
    "row_key env ` set new = (\<lambda>l. article_key env (ln_name l)) ` set ?l - set (unchecked_keys env db g)"
    "\<forall>r \<in> set new. \<exists>l \<in> set ?l. \<exists>i. r = planned_item now user g l i"
    using insert_unseen_new [OF k [where ls = ?l and t = now and u = user], of fresh "unchecked_keys env db g" "[]"] by auto
  have db: "created = new" "db' = db\<lparr>grocery_items := grocery_items db @ new\<rparr>"
    using assms(1) r sel n(1) by (auto simp: add_missing_grocery_items_def Let_def)
  have avail: "planned_availability env db' g (Some recipe) today = planned_availability env db g (Some recipe) today"
    by (simp add: db(2) planned_availability_def planned_rows_def of_group_def)
  have u: "set (unchecked_keys env db' g) = set (unchecked_keys env db g) \<union> row_key env ` set new"
    using n(3) by (intro unchecked_append [OF _ db(2)]) (auto simp: planned_item_def)
  obtain new2 seen2 where m: "insert_unseen (\<lambda>l. article_key env (ln_name l)) (planned_item later user2 g) fresh2 ?l (unchecked_keys env db' g, []) = (seen2, [] @ new2)"
    "row_key env ` set new2 = (\<lambda>l. article_key env (ln_name l)) ` set ?l - set (unchecked_keys env db' g)"
    using insert_unseen_new [OF k [where ls = ?l and t = later and u = user2], of fresh2 "unchecked_keys env db' g" "[]"] by auto
  have "row_key env ` set new2 = {}" unfolding m(2) u n(2) by blast
  then have "new2 = []" by simp
  moreover have "require_role db' g user2 = Inr bar2" "selection_rows db' = selection_rows db"
    using assms(2) by (simp_all add: db(2) require_role_def)
  ultimately show ?thesis using m(1) sel by (simp add: add_missing_grocery_items_def avail Let_def)
qed

section \<open>A list to complete\<close>

definition soup_house :: household where
  "soup_house = small_house\<lparr>
     selection_rows := [\<lparr>sl_id = 50, sl_group = 10, sl_recipe = 60, sl_planned = True, sl_created_at = 1, sl_servings = Some 4\<rparr>],
     recipe_rows := [\<lparr>rc_id = 60, rc_servings = Some 2\<rparr>],
     ingredient_rows := [\<lparr>ig_id = 70, ig_recipe = 60, ig_name = chars ''leek'', ig_quantity = None, ig_unit = None, ig_optional = False\<rparr>,
       \<lparr>ig_id = 71, ig_recipe = 60, ig_name = chars ''rice'', ig_quantity = None, ig_unit = None, ig_optional = False\<rparr>]\<rparr>"

lemma generation_completes_once_witness:
  "\<exists>created db'. generate_grocery_items plain_kitchen soup_house 5 1 10 (\<lambda>i. 300 + i) = Inr (created, db')
    \<and> chars ''leek'' \<in> still_to_buy plain_kitchen db' 10
    \<and> generate_grocery_items plain_kitchen db' 6 2 10 (\<lambda>i. 400 + i) = Inr ([], db')"
proof -
  have m: "\<exists>m \<in> set (memberships (people soup_house)). mb_group m = 10 \<and> mb_user m = 1"
    "\<exists>m \<in> set (memberships (people soup_house)). mb_group m = 10 \<and> mb_user m = 2"
    by (simp_all add: soup_house_def small_house_def busy_center_def)
  obtain created db' where g: "generate_grocery_items plain_kitchen soup_house 5 1 10 (\<lambda>i. 300 + i) = Inr (created, db')"
    "called_for plain_kitchen soup_house 10 \<union> runs_low plain_kitchen soup_house 10 \<subseteq> still_to_buy plain_kitchen db' 10"
    "generate_grocery_items plain_kitchen db' 6 2 10 (\<lambda>i. 400 + i) = Inr ([], db')"
    using generation_completes_once [OF m, of plain_kitchen 5 "\<lambda>i. 300 + i" 6 "\<lambda>i. 400 + i"] by blast
  have "chars ''leek'' \<notin> held_articles plain_kitchen soup_house 10"
    by (auto simp: held_articles_def soup_house_def small_house_def rice_def milk_def plain_kitchen_def trim_by_def is_whitespace_def)
  then have "chars ''leek'' \<in> called_for plain_kitchen soup_house 10"
    by (simp add: called_for_def soup_house_def plain_kitchen_def trim_by_def is_whitespace_def
        conj_disj_distribL conj_disj_distribR ex_disj_distrib)
  then show ?thesis using g by blast
qed

end
