(* ===== verification/Reception.thy ===== *)
theory Reception
  imports Grocery
begin

text \<open>
  Receiving the groceries into the stock (\<open>apps/api/src/stocks/reception.rs\<close>,
  \<open>merge_target\<close> of \<open>apps/shared/src/validation/stocks.rs\<close>), and the requests of the family on its
  stock and its list taken together.

  The rows of the list a reception takes are locked until it ends. The stock it read is not: what
  other transactions commit before its updates is the argument \<open>between\<close>.
\<close>

section \<open>The lot\<close>

datatype reception_mode = Merge | New_line

record received_item =
  rv_id :: uuid
  rv_name :: "utext option"
  rv_quantity :: "f64 option"
  rv_unit :: "utext option"
  rv_expires_on :: "date option"
  rv_mode :: "reception_mode option"

record lot_line =
  le_name :: utext
  le_quantity :: f64
  le_unit :: utext
  le_expires_on :: "date option"

definition check_lot :: "uuid list \<Rightarrow> api_error + unit" where
  "check_lot ids =
     (if ids = [] then Inl (Bad_request ''items_required'')
      else if \<not> distinct ids then Inl (Bad_request ''duplicate_grocery_item'')
      else Inr ())"

definition received_line :: "received_item \<Rightarrow> grocery_row \<Rightarrow> api_error + lot_line" where
  "received_line item grocery =
     (let name = trim_text (given_or (rv_name item) (gr_name grocery));
          q = (case rv_quantity item of Some q \<Rightarrow> q | None \<Rightarrow> (case gr_quantity grocery of Some q \<Rightarrow> q | None \<Rightarrow> Fin 1));
          unit = (case rv_unit item of Some u \<Rightarrow> u | None \<Rightarrow> (case gr_unit grocery of Some u \<Rightarrow> u | None \<Rightarrow> []))
      in if name = [] then Inl (Bad_request ''name_required'')
         else if \<not> is_finite q \<or> f_less MAX_QUANTITY q then Inl (Bad_request ''quantity_too_large'')
         else if f_le q (Fin 0) then Inl (Bad_request ''quantity_must_be_positive'')
         else Inr \<lparr>le_name = name, le_quantity = q, le_unit = normalize_unit unit, le_expires_on = rv_expires_on item\<rparr>)"

section \<open>The plan\<close>

record candidate =
  cd_id :: uuid
  cd_name :: utext
  cd_unit :: utext
  cd_expires_on :: "date option"

definition merge_target :: "kitchen_env \<Rightarrow> utext \<Rightarrow> utext \<Rightarrow> date option \<Rightarrow> candidate list \<Rightarrow> uuid option" where
  "merge_target env name unit on cs =
     map_option cd_id
       (min_by_key (\<lambda>c. (cd_expires_on c \<noteq> on, cd_expires_on c, cd_id c))
         (filter (\<lambda>c. on = None \<or> cd_expires_on c = on)
           (filter (\<lambda>c. article_key env (cd_name c) = article_key env name \<and> article_key env (cd_unit c) = article_key env unit) cs)))"

definition resolve_target :: "reception_mode option \<Rightarrow> uuid option \<Rightarrow> api_error + uuid option" where
  "resolve_target mode p =
     (case mode of
        None \<Rightarrow> Inr p
      | Some New_line \<Rightarrow> Inr None
      | Some Merge \<Rightarrow> (case p of Some i \<Rightarrow> Inr (Some i) | None \<Rightarrow> Inl (Conflict ''no_stock_to_merge'')))"

datatype target = On_its_own | On_stock uuid | On_lot nat

fun mode_of :: "target \<Rightarrow> reception_mode" where
  "mode_of On_its_own = New_line"
| "mode_of (On_stock i) = Merge"
| "mode_of (On_lot n) = Merge"

fun plan_from ::
    "kitchen_env \<Rightarrow> nat \<Rightarrow> (uuid \<times> lot_line \<times> reception_mode option) list \<Rightarrow> candidate list \<Rightarrow> (uuid \<times> nat) list \<Rightarrow>
     api_error + target list" where
  "plan_from env index [] cs created = Inr []"
| "plan_from env index ((gid, line, mode) # articles) cs created =
     and_then (resolve_target mode (merge_target env (le_name line) (le_unit line) (le_expires_on line) cs)) (\<lambda>r.
       case r of
         Some i \<Rightarrow>
           let t = (case map_of created i of Some creator \<Rightarrow> On_lot creator | None \<Rightarrow> On_stock i)
           in and_then (plan_from env (Suc index) articles cs created) (\<lambda>ts. Inr (t # ts))
       | None \<Rightarrow>
           let c = \<lparr>cd_id = gid, cd_name = le_name line, cd_unit = le_unit line, cd_expires_on = le_expires_on line\<rparr>
           in and_then (plan_from env (Suc index) articles (cs @ [c]) (created @ [(gid, index)])) (\<lambda>ts. Inr (On_its_own # ts)))"

definition plan :: "kitchen_env \<Rightarrow> (uuid \<times> lot_line \<times> reception_mode option) list \<Rightarrow> candidate list \<Rightarrow> api_error + target list" where
  "plan env articles stock = plan_from env 0 articles stock []"

definition candidates :: "stock_row list \<Rightarrow> candidate list" where
  "candidates = map (\<lambda>s. \<lparr>cd_id = st_id s, cd_name = st_name s, cd_unit = st_unit s, cd_expires_on = st_expires_on s\<rparr>)"

section \<open>The proposal\<close>

record reception_line =
  rl_id :: uuid
  rl_name :: utext
  rl_quantity :: f64
  rl_unit :: utext
  rl_expires_on :: "date option"
  rl_mode :: reception_mode
  rl_stock_item :: "stock_response option"

definition as_is :: "uuid \<Rightarrow> received_item" where
  "as_is i = \<lparr>rv_id = i, rv_name = None, rv_quantity = None, rv_unit = None, rv_expires_on = None, rv_mode = None\<rparr>"

definition receivable :: "kitchen_env \<Rightarrow> household \<Rightarrow> uuid \<Rightarrow> (uuid \<times> lot_line) list" where
  "receivable env db g =
     List.map_filter (\<lambda>r. case received_line (as_is (gr_id r)) r of Inl e \<Rightarrow> None | Inr l \<Rightarrow> Some (gr_id r, l))
       (sort_key (\<lambda>r. (collate env (gr_name r), gr_id r)) (filter (\<lambda>r. gr_group r = g \<and> gr_checked r) (grocery_items db)))"

definition proposed_line :: "household \<Rightarrow> date \<Rightarrow> uuid \<Rightarrow> (uuid \<times> lot_line) \<times> target \<Rightarrow> reception_line" where
  "proposed_line db today g = (\<lambda>((i, line), t).
     \<lparr>rl_id = i, rl_name = le_name line, rl_quantity = le_quantity line, rl_unit = le_unit line, rl_expires_on = None,
      rl_mode = mode_of t,
      rl_stock_item = (case t of
         On_stock s \<Rightarrow> map_option (stock_response today) (List.find (\<lambda>r. st_id r = s) (of_group db g))
       | _ \<Rightarrow> None)\<rparr>)"

definition get_reception :: "kitchen_env \<Rightarrow> household \<Rightarrow> date \<Rightarrow> uuid \<Rightarrow> uuid \<Rightarrow> api_error + reception_line list" where
  "get_reception env db today user g =
     and_then (require_role db g user) (\<lambda>_.
       let received = receivable env db g
       in and_then (plan env (map (\<lambda>(i, l). (i, l, None)) received) (candidates (of_group db g))) (\<lambda>targets.
            Inr (map (proposed_line db today g) (zip received targets))))"

section \<open>The reception\<close>

fun f_add :: "kitchen_env \<Rightarrow> f64 \<Rightarrow> f64 \<Rightarrow> f64" where
  "f_add env (Fin a) (Fin b) = Fin (fl env (a + b))"
| "f_add env Not_a_number y = Not_a_number"
| "f_add env x Not_a_number = Not_a_number"
| "f_add env Plus_infinity Minus_infinity = Not_a_number"
| "f_add env Minus_infinity Plus_infinity = Not_a_number"
| "f_add env Plus_infinity y = Plus_infinity"
| "f_add env Minus_infinity y = Minus_infinity"
| "f_add env x Plus_infinity = Plus_infinity"
| "f_add env x Minus_infinity = Minus_infinity"

fun f_neg :: "f64 \<Rightarrow> f64" where
  "f_neg (Fin a) = Fin (- a)"
| "f_neg Plus_infinity = Minus_infinity"
| "f_neg Minus_infinity = Plus_infinity"
| "f_neg Not_a_number = Not_a_number"

definition is_row :: "uuid \<Rightarrow> uuid \<Rightarrow> stock_row \<Rightarrow> bool" where
  "is_row g i r \<longleftrightarrow> st_id r = i \<and> st_group r = g"

text \<open>The guarded \<open>UPDATE\<close>, and what the request makes of its finding no row.\<close>

definition merge_into :: "kitchen_env \<Rightarrow> instant \<Rightarrow> uuid \<Rightarrow> uuid \<Rightarrow> f64 \<Rightarrow> stock_row list \<Rightarrow> api_error + stock_row \<times> stock_row list" where
  "merge_into env now g i q stock =
     (let hit = (\<lambda>r. is_row g i r \<and> sql_le (st_quantity r) (f_add env MAX_QUANTITY (f_neg q)));
          f = (\<lambda>r. r\<lparr>st_quantity := f_add env (st_quantity r) q, st_updated_at := now\<rparr>)
      in case List.find hit stock of
           Some r \<Rightarrow> Inr (f r, map (\<lambda>r. if hit r then f r else r) stock)
         | None \<Rightarrow> Inl (if list_ex (is_row g i) stock then Bad_request ''quantity_too_large'' else Not_found))"

definition new_row :: "instant \<Rightarrow> uuid \<Rightarrow> uuid \<Rightarrow> uuid \<Rightarrow> lot_line \<Rightarrow> stock_row" where
  "new_row now user g i line =
     \<lparr>st_id = i, st_group = g, st_created_by = user, st_name = le_name line, st_category = None, st_quantity = le_quantity line,
      st_unit = le_unit line, st_threshold = None, st_expires_on = le_expires_on line, st_barcode = None, st_updated_at = now\<rparr>"

fun land ::
    "kitchen_env \<Rightarrow> instant \<Rightarrow> uuid \<Rightarrow> uuid \<Rightarrow> (nat \<Rightarrow> uuid) \<Rightarrow> (lot_line \<times> target) list \<Rightarrow> uuid list \<Rightarrow> stock_row list \<Rightarrow>
     api_error + stock_row list \<times> stock_row list" where
  "land env now user g fresh [] landed stock = Inr ([], stock)"
| "land env now user g fresh ((line, t) # rest) landed stock =
     and_then
       (case (case t of On_stock i \<Rightarrow> Some i | On_lot creator \<Rightarrow> Some (landed ! creator) | On_its_own \<Rightarrow> None) of
          Some i \<Rightarrow> merge_into env now g i (le_quantity line) stock
        | None \<Rightarrow> let r = new_row now user g (fresh (length landed)) line in Inr (r, stock @ [r]))
       (\<lambda>(row, stock). and_then (land env now user g fresh rest (landed @ [st_id row]) stock) (\<lambda>(rows, stock). Inr (row # rows, stock)))"

fun each :: "('a \<Rightarrow> 'e + 'b) \<Rightarrow> 'a list \<Rightarrow> 'e + 'b list" where
  "each f [] = Inr []"
| "each f (x # xs) = and_then (f x) (\<lambda>y. and_then (each f xs) (\<lambda>ys. Inr (y # ys)))"

definition lot_lines :: "household \<Rightarrow> uuid \<Rightarrow> received_item list \<Rightarrow> api_error + lot_line list" where
  "lot_lines db g items =
     each (\<lambda>item. case grocery_item db g (rv_id item) of None \<Rightarrow> Inl Not_found | Some r \<Rightarrow> received_line item r) items"

definition received_response :: "date \<Rightarrow> (received_item \<times> lot_line) \<times> target \<times> stock_row \<Rightarrow> reception_line" where
  "received_response today = (\<lambda>((item, line), t, row).
     \<lparr>rl_id = rv_id item, rl_name = le_name line, rl_quantity = le_quantity line, rl_unit = le_unit line,
      rl_expires_on = le_expires_on line, rl_mode = mode_of t, rl_stock_item = Some (stock_response today row)\<rparr>)"

definition receive ::
    "kitchen_env \<Rightarrow> (stock_row list \<Rightarrow> stock_row list) \<Rightarrow> household \<Rightarrow> instant \<Rightarrow> date \<Rightarrow> uuid \<Rightarrow> uuid \<Rightarrow> (nat \<Rightarrow> uuid) \<Rightarrow>
     received_item list \<Rightarrow> api_error + reception_line list \<times> household" where
  "receive env between db now today user g fresh items =
     (let ids = map rv_id items in
      and_then (check_lot ids) (\<lambda>_.
      and_then (require_role db g user) (\<lambda>_.
      let groceries = filter (\<lambda>r. gr_group r = g \<and> gr_id r \<in> set ids) (grocery_items db) in
      if length groceries \<noteq> length ids then Inl Not_found
      else
        and_then (lot_lines db g items) (\<lambda>lines.
        and_then (plan env (map (\<lambda>(item, line). (rv_id item, line, rv_mode item)) (zip items lines)) (candidates (of_group db g))) (\<lambda>targets.
        and_then (land env now user g fresh (zip lines targets) [] (between (stock_items db))) (\<lambda>(rows, stock).
        Inr (map (received_response today) (zip (zip items lines) (zip targets rows)),
             db\<lparr>stock_items := stock,
                grocery_items := filter (\<lambda>r. \<not> (gr_group r = g \<and> gr_id r \<in> set ids)) (grocery_items db)\<rparr>)))))))"

section \<open>What is planned\<close>

text \<open>
  The targets of a plan: a line of the stock the article may join, or the line an earlier article
  of the lot opens and that it may join.
\<close>

definition joins :: "kitchen_env \<Rightarrow> lot_line \<Rightarrow> utext \<times> utext \<times> date option \<Rightarrow> bool" where
  "joins env l = (\<lambda>(name, unit, on). article_key env name = article_key env (le_name l) \<and> article_key env unit = article_key env (le_unit l)
     \<and> (le_expires_on l = None \<or> on = le_expires_on l))"

definition targets_ok :: "kitchen_env \<Rightarrow> stock_row list \<Rightarrow> lot_line list \<Rightarrow> target list \<Rightarrow> bool" where
  "targets_ok env stock ls ts \<longleftrightarrow> length ts = length ls \<and> (\<forall>j < length ls. case ts ! j of
       On_its_own \<Rightarrow> True
     | On_stock i \<Rightarrow> \<exists>r \<in> set stock. st_id r = i \<and> joins env (ls ! j) (st_name r, st_unit r, st_expires_on r)
     | On_lot c \<Rightarrow> c < j \<and> ts ! c = On_its_own \<and> joins env (ls ! j) (le_name (ls ! c), le_unit (ls ! c), le_expires_on (ls ! c)))"

lemma merge_target_joins:
  "merge_target env (le_name l) (le_unit l) (le_expires_on l) cs = Some i \<Longrightarrow>
   \<exists>c \<in> set cs. cd_id c = i \<and> joins env l (cd_name c, cd_unit c, cd_expires_on c)"
  by (auto simp: merge_target_def joins_def dest!: min_by_key_in)

text \<open>The candidates at an index: the stock, then the lines the earlier articles opened.\<close>

definition known :: "candidate list \<Rightarrow> (uuid \<times> lot_line) list \<Rightarrow> target list \<Rightarrow> candidate list" where
  "known stock xs ts = stock @ map (\<lambda>j. \<lparr>cd_id = fst (xs ! j), cd_name = le_name (snd (xs ! j)), cd_unit = le_unit (snd (xs ! j)),
     cd_expires_on = le_expires_on (snd (xs ! j))\<rparr>) (filter (\<lambda>j. ts ! j = On_its_own) [0..<length ts])"

definition opened :: "(uuid \<times> lot_line) list \<Rightarrow> target list \<Rightarrow> (uuid \<times> nat) list" where
  "opened xs ts = map (\<lambda>j. (fst (xs ! j), j)) (filter (\<lambda>j. ts ! j = On_its_own) [0..<length ts])"

lemma own_snoc: "filter (\<lambda>j. (ts @ [t]) ! j = On_its_own) [0..<length (ts @ [t])] =
    filter (\<lambda>j. ts ! j = On_its_own) [0..<length ts] @ (if t = On_its_own then [length ts] else [])"
proof -
  have "filter (\<lambda>j. (ts @ [t]) ! j = On_its_own) [0..<length ts] = filter (\<lambda>j. ts ! j = On_its_own) [0..<length ts]"
    by (intro filter_cong) (auto simp: nth_append)
  then show ?thesis by simp
qed

lemma known_snoc: "known stock xs (ts @ [t]) = known stock xs ts @ (if t = On_its_own
    then [\<lparr>cd_id = fst (xs ! length ts), cd_name = le_name (snd (xs ! length ts)), cd_unit = le_unit (snd (xs ! length ts)),
       cd_expires_on = le_expires_on (snd (xs ! length ts))\<rparr>] else [])"
  unfolding known_def own_snoc by simp

lemma opened_snoc: "opened xs (ts @ [t]) = opened xs ts @ (if t = On_its_own then [(fst (xs ! length ts), length ts)] else [])"
  unfolding opened_def own_snoc by simp

definition step_ok :: "kitchen_env \<Rightarrow> candidate list \<Rightarrow> (uuid \<times> lot_line) list \<Rightarrow> target list \<Rightarrow> nat \<Rightarrow> bool" where
  "step_ok env stock xs ts j \<longleftrightarrow> (case ts ! j of
       On_its_own \<Rightarrow> True
     | On_stock i \<Rightarrow> \<exists>c \<in> set stock. cd_id c = i \<and> joins env (snd (xs ! j)) (cd_name c, cd_unit c, cd_expires_on c)
     | On_lot c \<Rightarrow> c < j \<and> ts ! c = On_its_own
         \<and> joins env (snd (xs ! j)) (le_name (snd (xs ! c)), le_unit (snd (xs ! c)), le_expires_on (snd (xs ! c))))"

lemma step_ok_append: "j < length ts \<Longrightarrow> step_ok env stock xs (ts @ us) j = step_ok env stock xs ts j"
  by (cases "ts ! j") (auto simp: step_ok_def nth_append)

lemma plan_from_ok:
  assumes ids: "distinct (map fst xs)" "cd_id ` set stock \<inter> fst ` set xs = {}"
  shows "plan_from env k (map (\<lambda>((i, l), m). (i, l, m)) (zip (drop k xs) ms)) (known stock xs ts) (opened xs ts) = Inr us \<Longrightarrow>
    length ts = k \<Longrightarrow> length ms = length xs - k \<Longrightarrow> k \<le> length xs \<Longrightarrow> \<forall>j < k. step_ok env stock xs ts j \<Longrightarrow>
    length (ts @ us) = length xs \<and> (\<forall>j < length xs. step_ok env stock xs (ts @ us) j)"
proof (induction "length xs - k" arbitrary: k ms ts us)
  case 0
  then show ?case by simp
next
  case (Suc n)
  then have k: "k < length xs" by simp
  obtain i l where x: "xs ! k = (i, l)" by force
  obtain m ms' where ms: "ms = m # ms'" using Suc.prems(3) k by (cases ms) auto
  have d: "drop k xs = (i, l) # drop (Suc k) xs" using Cons_nth_drop_Suc [OF k] x by simp
  let ?p = "merge_target env (le_name l) (le_unit l) (le_expires_on l) (known stock xs ts)"
  let ?arts = "map (\<lambda>((i, l), m). (i, l, m)) (zip (drop (Suc k) xs) ms')"
  obtain r where r: "resolve_target m ?p = Inr r" using Suc.prems(1) by (cases "resolve_target m ?p") (simp_all add: d ms)
  have go: "length (ts @ t # us') = length xs \<and> (\<forall>j < length xs. step_ok env stock xs (ts @ t # us') j)"
    if "plan_from env (Suc k) ?arts (known stock xs (ts @ [t])) (opened xs (ts @ [t])) = Inr us'" "step_ok env stock xs (ts @ [t]) k" for t us'
  proof -
    have "\<forall>j < Suc k. step_ok env stock xs (ts @ [t]) j"
      using Suc.prems(2,5) that(2) step_ok_append [of _ ts env stock xs "[t]"] by (auto simp: less_Suc_eq)
    then show ?thesis using Suc.hyps(1) [of "Suc k" ms' "ts @ [t]" us'] Suc.hyps(2) Suc.prems(2,3) that(1) k ms by simp
  qed
  show ?case
  proof (cases r)
    case None
    have e: "known stock xs ts @ [\<lparr>cd_id = i, cd_name = le_name l, cd_unit = le_unit l, cd_expires_on = le_expires_on l\<rparr>]
        = known stock xs (ts @ [On_its_own])" "opened xs ts @ [(i, k)] = opened xs (ts @ [On_its_own])"
      using x Suc.prems(2) by (simp_all add: known_snoc opened_snoc)
    obtain us' where us: "us = On_its_own # us'"
      "plan_from env (Suc k) ?arts (known stock xs (ts @ [On_its_own])) (opened xs (ts @ [On_its_own])) = Inr us'"
      using Suc.prems(1) unfolding e [symmetric] by (auto simp: d ms r None and_then_Inr)
    have "step_ok env stock xs (ts @ [On_its_own]) k" using Suc.prems(2) by (simp add: step_ok_def nth_append)
    then show ?thesis using go [OF us(2)] us(1) by simp
  next
    case (Some id)
    then have p: "?p = Some id" using r by (cases m; cases ?p) (auto simp: resolve_target_def split: reception_mode.splits)
    define t where "t = (case map_of (opened xs ts) id of Some creator \<Rightarrow> On_lot creator | None \<Rightarrow> On_stock id)"
    have own: "t \<noteq> On_its_own" by (simp add: t_def split: option.split)
    obtain us' where us: "us = t # us'" "plan_from env (Suc k) ?arts (known stock xs ts) (opened xs ts) = Inr us'"
      using Suc.prems(1) by (auto simp: d ms r Some and_then_Inr t_def Let_def)
    obtain c where c: "c \<in> set (known stock xs ts)" "cd_id c = id" "joins env l (cd_name c, cd_unit c, cd_expires_on c)"
      using merge_target_joins [OF p] by blast
    have "step_ok env stock xs (ts @ [t]) k"
    proof (cases "c \<in> set stock")
      case True
      then have "id \<notin> fst ` set xs" using ids(2) c(2) by blast
      moreover have "fst ` set (opened xs ts) \<subseteq> fst ` set xs" using Suc.prems(2) k by (auto simp: opened_def)
      ultimately have "map_of (opened xs ts) id = None" unfolding map_of_eq_None_iff by blast
      then show ?thesis using True c x Suc.prems(2) by (auto simp: step_ok_def t_def)
    next
      case False
      then obtain j where j: "j < k" "ts ! j = On_its_own"
        "c = \<lparr>cd_id = fst (xs ! j), cd_name = le_name (snd (xs ! j)), cd_unit = le_unit (snd (xs ! j)), cd_expires_on = le_expires_on (snd (xs ! j))\<rparr>"
        using c(1) Suc.prems(2) by (auto simp: known_def)
      have "inj_on (\<lambda>j. fst (xs ! j)) {..<length xs}"
        using ids(1) by (auto simp: inj_on_def distinct_conv_nth)
      then have "distinct (map fst (opened xs ts))" using k Suc.prems(2)
        by (auto simp: opened_def o_def distinct_map inj_on_def)
      moreover have "(id, j) \<in> set (opened xs ts)" using j c(2) Suc.prems(2) by (auto simp: opened_def)
      ultimately have "map_of (opened xs ts) id = Some j" by simp
      then show ?thesis using j c(3) x Suc.prems(2) by (simp add: step_ok_def t_def nth_append)
    qed
    then show ?thesis using go [of t us'] us own by (simp add: known_snoc opened_snoc)
  qed
qed

lemma zip_map_self: "map (\<lambda>((i, l), m). (i, l, m)) (zip xs (map (\<lambda>_. m) xs)) = map (\<lambda>(i, l). (i, l, m)) xs"
  by (induction xs) auto

lemma plan_ok:
  assumes "plan env (map (\<lambda>((i, l), m). (i, l, m)) (zip xs ms)) (candidates stock) = Inr ts" "length ms = length xs"
    "distinct (map fst xs)" "st_id ` set stock \<inter> fst ` set xs = {}"
  shows "targets_ok env stock (map snd xs) ts"
proof -
  have ids: "cd_id ` set (candidates stock) \<inter> fst ` set xs = {}" using assms(4) by (force simp: candidates_def)
  have "known (candidates stock) xs [] = candidates stock" "opened xs [] = []" by (simp_all add: known_def opened_def)
  then have "length ts = length xs \<and> (\<forall>j < length xs. step_ok env (candidates stock) xs ts j)"
    using plan_from_ok [OF assms(3) ids, of env 0 ms "[]" ts] assms(1,2) by (simp add: plan_def)
  then show ?thesis by (auto simp: targets_ok_def step_ok_def candidates_def split: target.splits)
qed

lemma plan_from_default: "\<exists>ts. plan_from env k (map (\<lambda>(i, l). (i, l, None)) xs) cs created = Inr ts \<and> length ts = length xs"
proof (induction xs arbitrary: k cs created)
  case (Cons x xs)
  obtain i l where x: "x = (i, l)" by force
  let ?p = "merge_target env (le_name l) (le_unit l) (le_expires_on l) cs"
  let ?c = "\<lparr>cd_id = i, cd_name = le_name l, cd_unit = le_unit l, cd_expires_on = le_expires_on l\<rparr>"
  show ?case
  proof (cases ?p)
    case None
    with Cons.IH [of "Suc k" "cs @ [?c]" "created @ [(i, k)]"] show ?thesis by (auto simp: x resolve_target_def)
  next
    case (Some a)
    with Cons.IH [of "Suc k" cs created] show ?thesis by (auto simp: x resolve_target_def Let_def)
  qed
qed simp

lemma plan_with_modes:
  "plan_from env k (map (\<lambda>(i, l). (i, l, None)) xs) cs created = Inr ts \<Longrightarrow>
   list_all2 (\<lambda>m t. m = None \<or> m = Some (mode_of t)) ms ts \<Longrightarrow>
   plan_from env k (map (\<lambda>((i, l), m). (i, l, m)) (zip xs ms)) cs created = Inr ts"
proof (induction xs arbitrary: k cs created ts ms)
  case (Cons x xs)
  obtain i l where x: "x = (i, l)" by force
  let ?p = "merge_target env (le_name l) (le_unit l) (le_expires_on l) cs"
  let ?c = "\<lparr>cd_id = i, cd_name = le_name l, cd_unit = le_unit l, cd_expires_on = le_expires_on l\<rparr>"
  show ?case
  proof (cases ?p)
    case None
    then obtain us where us: "ts = On_its_own # us"
        "plan_from env (Suc k) (map (\<lambda>(i, l). (i, l, None)) xs) (cs @ [?c]) (created @ [(i, k)]) = Inr us"
      using Cons.prems(1) by (auto simp: x resolve_target_def and_then_Inr)
    obtain m ms' where m: "ms = m # ms'" "m = None \<or> m = Some New_line" "list_all2 (\<lambda>m t. m = None \<or> m = Some (mode_of t)) ms' us"
      using Cons.prems(2) us(1) by (auto simp: list_all2_Cons2)
    from Cons.IH [OF us(2) m(3)] m(2) show ?thesis by (auto simp: x m(1) us(1) None resolve_target_def)
  next
    case (Some a)
    define t where "t = (case map_of created a of Some creator \<Rightarrow> On_lot creator | None \<Rightarrow> On_stock a)"
    obtain us where us: "ts = t # us" "plan_from env (Suc k) (map (\<lambda>(i, l). (i, l, None)) xs) cs created = Inr us"
      using Cons.prems(1) Some by (auto simp: x resolve_target_def and_then_Inr t_def Let_def)
    have "mode_of t = Merge" by (simp add: t_def split: option.split)
    then obtain m ms' where m: "ms = m # ms'" "m = None \<or> m = Some Merge" "list_all2 (\<lambda>m t. m = None \<or> m = Some (mode_of t)) ms' us"
      using Cons.prems(2) us(1) by (auto simp: list_all2_Cons2)
    from Cons.IH [OF us(2) m(3)] m(2) show ?thesis by (auto simp: x m(1) us(1) Some resolve_target_def t_def Let_def)
  qed
qed simp

section \<open>Where the lot lands\<close>

definition landing :: "(nat \<Rightarrow> uuid) \<Rightarrow> target list \<Rightarrow> nat \<Rightarrow> uuid" where
  "landing fresh ts j = (case ts ! j of On_its_own \<Rightarrow> fresh j | On_stock i \<Rightarrow> i | On_lot c \<Rightarrow> fresh c)"

definition merges :: "(nat \<Rightarrow> uuid) \<Rightarrow> lot_line list \<Rightarrow> target list \<Rightarrow> nat \<Rightarrow> (uuid \<times> f64) list" where
  "merges fresh ls ts n = map (\<lambda>j. (landing fresh ts j, le_quantity (ls ! j))) (filter (\<lambda>j. ts ! j \<noteq> On_its_own) [0..<n])"

definition openings :: "instant \<Rightarrow> uuid \<Rightarrow> uuid \<Rightarrow> (nat \<Rightarrow> uuid) \<Rightarrow> lot_line list \<Rightarrow> target list \<Rightarrow> nat \<Rightarrow> stock_row list" where
  "openings now user g fresh ls ts n = map (\<lambda>j. new_row now user g (fresh j) (ls ! j)) (filter (\<lambda>j. ts ! j = On_its_own) [0..<n])"

definition credited :: "kitchen_env \<Rightarrow> instant \<Rightarrow> uuid \<Rightarrow> (uuid \<times> f64) list \<Rightarrow> stock_row \<Rightarrow> stock_row" where
  "credited env now g adds r =
     (let mine = map snd (filter (\<lambda>(i, q). is_row g i r) adds)
      in r\<lparr>st_quantity := foldl (f_add env) (st_quantity r) mine, st_updated_at := (if mine = [] then st_updated_at r else now)\<rparr>)"

lemma credited_sel [simp]:
  "st_id (credited env now g adds r) = st_id r" "st_group (credited env now g adds r) = st_group r"
  "is_row g' i (credited env now g adds r) = is_row g' i r" "credited env now g [] r = r"
  by (simp_all add: credited_def is_row_def Let_def)

lemma credited_snoc:
  "credited env now g (adds @ [(i, q)]) r =
     (if is_row g i r then (credited env now g adds r)\<lparr>st_quantity := f_add env (st_quantity (credited env now g adds r)) q, st_updated_at := now\<rparr>
      else credited env now g adds r)"
  by (simp add: credited_def Let_def)

lemma credited_none: "\<forall>(i, q) \<in> set adds. i \<noteq> st_id r \<Longrightarrow> credited env now g adds r = r"
proof -
  assume "\<forall>(i, q) \<in> set adds. i \<noteq> st_id r"
  then have "filter (\<lambda>(i, q). is_row g i r) adds = []" by (auto simp: filter_empty_conv is_row_def)
  then show ?thesis by (simp add: credited_def)
qed

lemma merge_into_Inr:
  assumes m: "merge_into env now g i q stock = Inr (hit_row, stock')" and d: "distinct (map st_id stock)"
  shows "stock' = map (\<lambda>r. if is_row g i r then r\<lparr>st_quantity := f_add env (st_quantity r) q, st_updated_at := now\<rparr> else r) stock"
    and "\<exists>r \<in> set stock. is_row g i r \<and> sql_le (st_quantity r) (f_add env MAX_QUANTITY (f_neg q))
      \<and> hit_row = r\<lparr>st_quantity := f_add env (st_quantity r) q, st_updated_at := now\<rparr>"
proof -
  let ?hit = "\<lambda>r. is_row g i r \<and> sql_le (st_quantity r) (f_add env MAX_QUANTITY (f_neg q))"
  obtain r where r: "List.find ?hit stock = Some r"
    using m by (cases "List.find ?hit stock") (auto simp: merge_into_def Let_def)
  have in_r: "r \<in> set stock" "?hit r" using find_holds [OF r] by auto
  have "?hit x \<longleftrightarrow> is_row g i x" if "x \<in> set stock" for x
    using d in_r that by (auto simp: is_row_def distinct_map inj_on_def)
  then have "map (\<lambda>x. if ?hit x then x\<lparr>st_quantity := f_add env (st_quantity x) q, st_updated_at := now\<rparr> else x) stock
      = map (\<lambda>r. if is_row g i r then r\<lparr>st_quantity := f_add env (st_quantity r) q, st_updated_at := now\<rparr> else r) stock"
    by simp
  then show "stock' = map (\<lambda>r. if is_row g i r then r\<lparr>st_quantity := f_add env (st_quantity r) q, st_updated_at := now\<rparr> else r) stock"
    using m r by (force simp: merge_into_def Let_def)
  show "\<exists>r \<in> set stock. is_row g i r \<and> sql_le (st_quantity r) (f_add env MAX_QUANTITY (f_neg q))
      \<and> hit_row = r\<lparr>st_quantity := f_add env (st_quantity r) q, st_updated_at := now\<rparr>"
    using m r in_r by (auto simp: merge_into_def Let_def)
qed

definition fresh_ids :: "(nat \<Rightarrow> uuid) \<Rightarrow> stock_row list \<Rightarrow> bool" where
  "fresh_ids fresh stock \<longleftrightarrow> inj fresh \<and> (\<forall>j. fresh j \<notin> st_id ` set stock)"

lemma openings_ids: "map st_id (openings now user g fresh ls ts n) = map fresh (filter (\<lambda>j. ts ! j = On_its_own) [0..<n])"
  by (simp add: openings_def new_row_def)

lemma base_distinct:
  assumes "distinct (map st_id stock)" "fresh_ids fresh stock"
  shows "distinct (map st_id (map (credited env now g adds) (stock @ openings now user g fresh ls ts n)))"
proof -
  have "inj fresh" using assms(2) by (simp add: fresh_ids_def)
  then have "inj_on fresh A" for A by (rule inj_on_subset) simp
  then have "distinct (map st_id (openings now user g fresh ls ts n))" unfolding openings_ids by (simp add: distinct_map)
  moreover have "st_id ` set stock \<inter> st_id ` set (openings now user g fresh ls ts n) = {}"
    using assms(2) unfolding set_map [symmetric] openings_ids by (fastforce simp: fresh_ids_def image_iff)
  ultimately show ?thesis using assms(1) by (simp add: o_def)
qed

lemma merges_Suc: "merges fresh ls ts (Suc n) = merges fresh ls ts n @
    (if ts ! n = On_its_own then [] else [(landing fresh ts n, le_quantity (ls ! n))])"
  and openings_Suc: "openings now user g fresh ls ts (Suc n) = openings now user g fresh ls ts n @
    (if ts ! n = On_its_own then [new_row now user g (fresh n) (ls ! n)] else [])"
  by (simp_all add: merges_def openings_def)

text \<open>The stock once the first articles have landed.\<close>

definition landed_stock ::
    "kitchen_env \<Rightarrow> instant \<Rightarrow> uuid \<Rightarrow> uuid \<Rightarrow> (nat \<Rightarrow> uuid) \<Rightarrow> lot_line list \<Rightarrow> target list \<Rightarrow> stock_row list \<Rightarrow> nat \<Rightarrow> stock_row list" where
  "landed_stock env now user g fresh ls ts stock n =
     map (credited env now g (merges fresh ls ts n)) (stock @ openings now user g fresh ls ts n)"

lemma target_at:
  assumes "targets_ok env read ls ts" "j < length ls"
  shows "case ts ! j of On_its_own \<Rightarrow> True
    | On_stock i \<Rightarrow> \<exists>r \<in> set read. st_id r = i \<and> joins env (ls ! j) (st_name r, st_unit r, st_expires_on r)
    | On_lot c \<Rightarrow> c < j \<and> ts ! c = On_its_own \<and> joins env (ls ! j) (le_name (ls ! c), le_unit (ls ! c), le_expires_on (ls ! c))"
  using assms unfolding targets_ok_def by blast

lemma own_step:
  assumes ok: "targets_ok env read ls ts" and f: "fresh_ids fresh read" and k: "k < length ls" and own: "ts ! k = On_its_own"
  shows "landed_stock env now user g fresh ls ts stock k @ [new_row now user g (fresh k) (ls ! k)]
    = landed_stock env now user g fresh ls ts stock (Suc k)"
proof -
  have fresh: "\<forall>m. fresh m \<notin> st_id ` set read" "inj fresh" using f by (auto simp: fresh_ids_def)
  have "i \<noteq> fresh k" if iq: "(i, q) \<in> set (merges fresh ls ts k)" for i q
  proof -
    obtain j where j: "j < k" "ts ! j \<noteq> On_its_own" "i = landing fresh ts j" using iq by (auto simp: merges_def)
    have "j < length ls" using j(1) k by simp
    from target_at [OF ok this] show ?thesis using j fresh by (cases "ts ! j") (force simp: landing_def inj_eq)+
  qed
  then have "credited env now g (merges fresh ls ts k) (new_row now user g (fresh k) (ls ! k)) = new_row now user g (fresh k) (ls ! k)"
    by (intro credited_none) (auto simp: new_row_def)
  then show ?thesis by (simp add: landed_stock_def merges_Suc openings_Suc own)
qed

lemma merge_step:
  assumes d: "distinct (map st_id stock)" and f: "fresh_ids fresh stock" and own: "ts ! k \<noteq> On_its_own"
    and m: "merge_into env now g (landing fresh ts k) (le_quantity (ls ! k)) (landed_stock env now user g fresh ls ts stock k) = Inr (r, st)"
  shows "st = landed_stock env now user g fresh ls ts stock (Suc k) \<and> st_id r = landing fresh ts k"
proof -
  have "distinct (map st_id (landed_stock env now user g fresh ls ts stock k))"
    unfolding landed_stock_def by (rule base_distinct [OF d f])
  note mi = merge_into_Inr [OF m this]
  have "st = landed_stock env now user g fresh ls ts stock (Suc k)"
    unfolding mi(1) by (simp add: landed_stock_def merges_Suc openings_Suc own credited_snoc)
  then show ?thesis using mi(2) by (auto simp: is_row_def)
qed

lemma landing_at:
  assumes ok: "targets_ok env read ls ts" and k: "k < length ls" and own: "ts ! k \<noteq> On_its_own"
  shows "(case ts ! k of On_stock i \<Rightarrow> Some i | On_lot c \<Rightarrow> Some (map (landing fresh ts) [0..<k] ! c) | On_its_own \<Rightarrow> None)
    = Some (landing fresh ts k)"
  using target_at [OF ok k] own k by (auto simp: landing_def split: target.splits)

lemma zip_drop_Cons: "k < length ls \<Longrightarrow> length ts = length ls \<Longrightarrow> drop k (zip ls ts) = (ls ! k, ts ! k) # drop (Suc k) (zip ls ts)"
  by (simp add: Cons_nth_drop_Suc [symmetric])

text \<open>The stock the targets were read from, and the one they are applied to.\<close>

lemma land_from:
  assumes ok: "targets_ok env read ls ts" and d: "distinct (map st_id stock)" and f: "fresh_ids fresh stock" "fresh_ids fresh read"
  shows "land env now user g fresh (drop k (zip ls ts)) (map (landing fresh ts) [0..<k])
      (landed_stock env now user g fresh ls ts stock k) = Inr (rows, stock') \<Longrightarrow> k \<le> length ls \<Longrightarrow>
    stock' = landed_stock env now user g fresh ls ts stock (length ls) \<and> map st_id rows = map (landing fresh ts) [k..<length ls]"
proof (induction "length ls - k" arbitrary: k rows)
  case 0
  then show ?case by simp
next
  case (Suc n)
  then have k: "k < length ls" by simp
  have len: "length ts = length ls" using ok by (simp add: targets_ok_def)
  let ?S = "landed_stock env now user g fresh ls ts stock"
  note dr = zip_drop_Cons [OF k len]
  have rec: ?case if "rows = r # rs" "st_id r = landing fresh ts k" "st = ?S (Suc k)"
      "land env now user g fresh (drop (Suc k) (zip ls ts)) (map (landing fresh ts) [0..<k] @ [st_id r]) st = Inr (rs, stock')" for r rs st
  proof -
    have "land env now user g fresh (drop (Suc k) (zip ls ts)) (map (landing fresh ts) [0..<Suc k]) (?S (Suc k)) = Inr (rs, stock')"
      using that(4) unfolding that(2,3) by simp
    moreover have "n = length ls - Suc k" using Suc.hyps(2) by simp
    ultimately have "stock' = ?S (length ls) \<and> map st_id rs = map (landing fresh ts) [Suc k..<length ls]" using Suc.hyps(1) k by simp
    moreover have "[k..<length ls] = k # [Suc k..<length ls]" using k by (simp add: upt_conv_Cons)
    ultimately show ?thesis using that(1,2) by simp
  qed
  show ?case
  proof (cases "ts ! k = On_its_own")
    case True
    let ?new = "new_row now user g (fresh k) (ls ! k)"
    obtain rs where rs: "rows = ?new # rs"
      "land env now user g fresh (drop (Suc k) (zip ls ts)) (map (landing fresh ts) [0..<k] @ [st_id ?new]) (?S k @ [?new]) = Inr (rs, stock')"
      using Suc.prems(1) by (auto simp: dr True and_then_Inr Let_def)
    have "st_id ?new = landing fresh ts k" by (simp add: new_row_def landing_def True)
    then show ?thesis using rec [OF rs(1) _ own_step [OF ok f(2) k True] rs(2)] by blast
  next
    case False
    obtain r st rs where rs: "rows = r # rs" "merge_into env now g (landing fresh ts k) (le_quantity (ls ! k)) (?S k) = Inr (r, st)"
      "land env now user g fresh (drop (Suc k) (zip ls ts)) (map (landing fresh ts) [0..<k] @ [st_id r]) st = Inr (rs, stock')"
      using Suc.prems(1) by (auto simp: dr landing_at [OF ok k False] and_then_Inr)
    then show ?thesis using rec [OF rs(1) _ _ rs(3)] merge_step [OF d f(1) False rs(2)] by blast
  qed
qed

lemma land_closed:
  assumes "targets_ok env read ls ts" "distinct (map st_id stock)" "fresh_ids fresh stock" "fresh_ids fresh read"
    "land env now user g fresh (zip ls ts) [] stock = Inr (rows, stock')"
  shows "stock' = landed_stock env now user g fresh ls ts stock (length ls) \<and> map st_id rows = map (landing fresh ts) [0..<length ls]"
  using land_from [OF assms(1-4), of now user g 0 rows stock'] assms(5)
  by (simp add: landed_stock_def merges_def openings_def map_idI)

text \<open>With the targets read from the stock they are applied to, nothing but the bound refuses the lot.\<close>

lemma land_refused:
  assumes ok: "targets_ok env read ls ts" and d: "distinct (map st_id stock)" and f: "fresh_ids fresh stock" "fresh_ids fresh read"
    and same: "\<forall>r \<in> set read. r \<in> set stock \<and> st_group r = g"
  shows "land env now user g fresh (drop k (zip ls ts)) (map (landing fresh ts) [0..<k])
      (landed_stock env now user g fresh ls ts stock k) = Inl e \<Longrightarrow> k \<le> length ls \<Longrightarrow> e = Bad_request ''quantity_too_large''"
proof (induction "length ls - k" arbitrary: k)
  case 0
  then show ?case by simp
next
  case (Suc n)
  then have k: "k < length ls" by simp
  have len: "length ts = length ls" using ok by (simp add: targets_ok_def)
  let ?S = "landed_stock env now user g fresh ls ts stock"
  note dr = zip_drop_Cons [OF k len]
  have n: "n = length ls - Suc k" using Suc.hyps(2) by simp
  have and_then_Inl: "and_then x h = Inl e \<longleftrightarrow> x = Inl e \<or> (\<exists>y. x = Inr y \<and> h y = Inl e)" for x :: "api_error + 'p" and h :: "'p \<Rightarrow> api_error + 'q"
    by (cases x) auto
  show ?case
  proof (cases "ts ! k = On_its_own")
    case True
    have "land env now user g fresh (drop (Suc k) (zip ls ts)) (map (landing fresh ts) [0..<Suc k]) (?S (Suc k)) = Inl e"
      using Suc.prems(1) own_step [OF ok f(2) k True, where now = now and user = user and g = g and stock = stock]
      by (simp add: dr True Let_def and_then_Inl new_row_def landing_def)
    then show ?thesis using Suc.hyps(1) [OF n] k by simp
  next
    case False
    have exists: "list_ex (is_row g (landing fresh ts k)) (?S k)"
    proof (cases "ts ! k")
      case (On_stock i)
      then obtain r where "r \<in> set read" "st_id r = i" using target_at [OF ok k] by auto
      then have "r \<in> set stock" "is_row g i r" using same by (auto simp: is_row_def)
      then show ?thesis using On_stock unfolding landed_stock_def list_ex_iff
        by (intro bexI [of _ "credited env now g (merges fresh ls ts k) r"]) (auto simp: landing_def)
    next
      case (On_lot c)
      then have "c < k" "ts ! c = On_its_own" using target_at [OF ok k] by auto
      then have "new_row now user g (fresh c) (ls ! c) \<in> set (openings now user g fresh ls ts k)" by (auto simp: openings_def)
      moreover have "is_row g (fresh c) (new_row now user g (fresh c) (ls ! c))" by (simp add: is_row_def new_row_def)
      ultimately show ?thesis using On_lot unfolding landed_stock_def list_ex_iff
        by (intro bexI [of _ "credited env now g (merges fresh ls ts k) (new_row now user g (fresh c) (ls ! c))"]) (auto simp: landing_def)
    qed (use False in simp)
    show ?thesis
    proof (cases "merge_into env now g (landing fresh ts k) (le_quantity (ls ! k)) (?S k)")
      case (Inl e')
      then have "e' = Bad_request ''quantity_too_large''" using exists by (auto simp: merge_into_def Let_def split: option.splits)
      then show ?thesis using Suc.prems(1) Inl by (simp add: dr landing_at [OF ok k False])
    next
      case (Inr p)
      obtain r st where p: "p = (r, st)" by force
      have "st = ?S (Suc k)" "st_id r = landing fresh ts k" using merge_step [OF d f(1) False Inr [unfolded p]] by auto
      then have "land env now user g fresh (drop (Suc k) (zip ls ts)) (map (landing fresh ts) [0..<Suc k]) (?S (Suc k)) = Inl e"
        using Suc.prems(1) Inr by (simp add: dr landing_at [OF ok k False] p and_then_Inl)
      then show ?thesis using Suc.hyps(1) [OF n] k by simp
    qed
  qed
qed

section \<open>What a reception does\<close>

lemma each_Inr: "each f xs = Inr ys \<longleftrightarrow> list_all2 (\<lambda>x y. f x = Inr y) xs ys"
proof (induction xs arbitrary: ys)
  case (Cons x xs)
  then show ?case by (cases ys) (auto simp: and_then_Inr)
qed auto

lemma resolve_mode: "resolve_target m p = Inr r \<Longrightarrow> m = None \<or> m = Some (case r of None \<Rightarrow> New_line | Some a \<Rightarrow> Merge)"
  by (auto simp: resolve_target_def split: option.splits reception_mode.splits)

lemma plan_modes:
  "plan_from env k (map (\<lambda>((i, l), m). (i, l, m)) (zip xs ms)) cs created = Inr ts \<Longrightarrow> length ms = length xs \<Longrightarrow>
   list_all2 (\<lambda>m t. m = None \<or> m = Some (mode_of t)) ms ts"
proof (induction xs arbitrary: k cs created ts ms)
  case (Cons x xs)
  obtain i l where x: "x = (i, l)" by force
  obtain m ms' where m: "ms = m # ms'" using Cons.prems(2) by (cases ms) auto
  let ?p = "merge_target env (le_name l) (le_unit l) (le_expires_on l) cs"
  let ?c = "\<lparr>cd_id = i, cd_name = le_name l, cd_unit = le_unit l, cd_expires_on = le_expires_on l\<rparr>"
  let ?arts = "map (\<lambda>((i, l), m). (i, l, m)) (zip xs ms')"
  obtain r where r: "resolve_target m ?p = Inr r" using Cons.prems(1) by (cases "resolve_target m ?p") (simp_all add: x m)
  have m_r: "m = None \<or> m = Some (case r of None \<Rightarrow> New_line | Some a \<Rightarrow> Merge)"
    using resolve_mode [OF r] .
  show ?case
  proof (cases r)
    case None
    then obtain us where us: "ts = On_its_own # us" "plan_from env (Suc k) ?arts (cs @ [?c]) (created @ [(i, k)]) = Inr us"
      using Cons.prems(1) r by (auto simp: x m and_then_Inr)
    then show ?thesis using Cons.IH [OF us(2)] Cons.prems(2) m_r None by (simp add: m)
  next
    case (Some a)
    define t where "t = (case map_of created a of Some creator \<Rightarrow> On_lot creator | None \<Rightarrow> On_stock a)"
    obtain us where us: "ts = t # us" "plan_from env (Suc k) ?arts cs created = Inr us"
      using Cons.prems(1) r Some by (auto simp: x m and_then_Inr Let_def t_def)
    have "mode_of t = Merge" by (simp add: t_def split: option.split)
    then show ?thesis using Cons.IH [OF us(2)] Cons.prems(2) m_r Some us(1) by (simp add: m)
  qed
qed simp

lemma article_shape:
  "length ls = length items \<Longrightarrow> map (\<lambda>(item, line). (rv_id item, line, rv_mode item)) (zip items ls)
   = map (\<lambda>((i, l), m). (i, l, m)) (zip (zip (map rv_id items) ls) (map rv_mode items))"
proof (induction items arbitrary: ls)
  case (Cons i is')
  then show ?case by (cases ls) auto
qed simp

lemma check_lot_Inr: "check_lot ids = Inr u \<longleftrightarrow> ids \<noteq> [] \<and> distinct ids"
  by (simp add: check_lot_def)

lemma receive_Inr:
  "receive env between db now today user g fresh items = Inr (shown, db') \<longleftrightarrow>
   (\<exists>ls ts rows stock. map rv_id items \<noteq> [] \<and> distinct (map rv_id items) \<and> (\<exists>role. require_role db g user = Inr role)
      \<and> length (filter (\<lambda>r. gr_group r = g \<and> gr_id r \<in> set (map rv_id items)) (grocery_items db)) = length items
      \<and> lot_lines db g items = Inr ls
      \<and> plan env (map (\<lambda>((i, l), m). (i, l, m)) (zip (zip (map rv_id items) ls) (map rv_mode items))) (candidates (of_group db g)) = Inr ts
      \<and> land env now user g fresh (zip ls ts) [] (between (stock_items db)) = Inr (rows, stock)
      \<and> shown = map (received_response today) (zip (zip items ls) (zip ts rows))
      \<and> db' = db\<lparr>stock_items := stock,
            grocery_items := filter (\<lambda>r. \<not> (gr_group r = g \<and> gr_id r \<in> set (map rv_id items))) (grocery_items db)\<rparr>)"
proof -
  have shape: "map (\<lambda>(item, line). (rv_id item, line, rv_mode item)) (zip items ls)
      = map (\<lambda>((i, l), m). (i, l, m)) (zip (zip (map rv_id items) ls) (map rv_mode items))" if "lot_lines db g items = Inr ls" for ls
    using that by (intro article_shape) (auto simp: lot_lines_def each_Inr list_all2_lengthD)
  show ?thesis by (auto simp: receive_def Let_def and_then_Inr check_lot_Inr shape simp del: set_map)
qed

lemma reception_result:
  assumes r: "receive env between db now today user g fresh items = Inr (shown, db')"
    and ids: "distinct (map st_id (between (stock_items db)))"
    and f: "fresh_ids fresh (between (stock_items db))" "fresh_ids fresh (of_group db g)"
    and apart: "st_id ` set (of_group db g) \<inter> gr_id ` set (grocery_items db) = {}"
  shows "\<exists>ls ts. list_all2 (\<lambda>item l. \<exists>r. grocery_item db g (rv_id item) = Some r \<and> received_line item r = Inr l) items ls
    \<and> targets_ok env (of_group db g) ls ts
    \<and> list_all2 (\<lambda>item t. rv_mode item = None \<or> rv_mode item = Some (mode_of t)) items ts
    \<and> stock_items db' = landed_stock env now user g fresh ls ts (between (stock_items db)) (length ls)
    \<and> map (\<lambda>l. map_option (st_id \<circ> sr_row) (rl_stock_item l)) shown = map (Some \<circ> landing fresh ts) [0..<length items]
    \<and> db' = db\<lparr>stock_items := stock_items db',
        grocery_items := filter (\<lambda>r. \<not> (gr_group r = g \<and> gr_id r \<in> rv_id ` set items)) (grocery_items db)\<rparr>"
proof -
  obtain ls ts rows stock where x: "distinct (map rv_id items)" "lot_lines db g items = Inr ls"
      "plan env (map (\<lambda>((i, l), m). (i, l, m)) (zip (zip (map rv_id items) ls) (map rv_mode items))) (candidates (of_group db g)) = Inr ts"
      "land env now user g fresh (zip ls ts) [] (between (stock_items db)) = Inr (rows, stock)"
      "shown = map (received_response today) (zip (zip items ls) (zip ts rows))"
      "db' = db\<lparr>stock_items := stock,
            grocery_items := filter (\<lambda>r. \<not> (gr_group r = g \<and> gr_id r \<in> set (map rv_id items))) (grocery_items db)\<rparr>"
    using r unfolding receive_Inr by blast
  have lines: "list_all2 (\<lambda>item l. \<exists>r. grocery_item db g (rv_id item) = Some r \<and> received_line item r = Inr l) items ls"
    using x(2) unfolding lot_lines_def each_Inr by (rule list_all2_mono) (auto split: option.splits)
  then have len: "length ls = length items" by (simp add: list_all2_lengthD)
  let ?xs = "zip (map rv_id items) ls"
  have xs: "length (map rv_mode items) = length ?xs" "map fst ?xs = map rv_id items" "map snd ?xs = ls" using len by simp_all
  have "rv_id ` set items \<subseteq> gr_id ` set (grocery_items db)"
  proof
    fix i assume "i \<in> rv_id ` set items"
    then obtain it where it: "it \<in> set items" "i = rv_id it" by blast
    then obtain r where "grocery_item db g i = Some r" using lines by (auto simp: list_all2_conv_all_nth in_set_conv_nth)
    then show "i \<in> gr_id ` set (grocery_items db)" using find_holds by (force simp: grocery_item_def)
  qed
  then have "st_id ` set (of_group db g) \<inter> fst ` set ?xs = {}"
    using apart unfolding set_map [symmetric] xs(2) by auto
  then have tok: "targets_ok env (of_group db g) ls ts" using plan_ok [OF x(3) xs(1)] xs(2,3) x(1) by simp
  have modes: "list_all2 (\<lambda>m t. m = None \<or> m = Some (mode_of t)) (map rv_mode items) ts"
    using plan_modes x(3) xs(1) unfolding plan_def by blast
  note lc = land_closed [OF tok ids f x(4)]
  have lr: "length rows = length items" "length ts = length items"
    using lc tok len by (auto simp: targets_ok_def dest!: arg_cong [of "map st_id rows" _ length])
  have "map (\<lambda>l. map_option (st_id \<circ> sr_row) (rl_stock_item l)) shown = map (\<lambda>row. Some (st_id row)) rows"
    unfolding x(5) using len lr by (intro nth_equalityI) (auto simp: received_response_def)
  also have "\<dots> = map Some (map st_id rows)" by simp
  also have "\<dots> = map (Some \<circ> landing fresh ts) [0..<length items]" using lc len by simp
  finally show ?thesis
    using lines tok modes lc x(6) by (intro exI [of _ ls] exI [of _ ts]) (simp add: list_all2_map1)
qed

section \<open>A lot sent back as proposed\<close>

lemma normalize_unit_idem: "normalize_unit (normalize_unit u) = normalize_unit u"
  using unit_ok [of u] by (simp add: normalize_unit_def [of "normalize_unit u"] Let_def)

definition sent_as_shown :: "received_item \<Rightarrow> reception_line \<Rightarrow> bool" where
  "sent_as_shown it s \<longleftrightarrow> rv_id it = rl_id s \<and> rv_name it \<in> {None, Some (rl_name s)} \<and> rv_quantity it \<in> {None, Some (rl_quantity s)}
     \<and> rv_unit it \<in> {None, Some (rl_unit s)} \<and> rv_expires_on it = rl_expires_on s \<and> rv_mode it \<in> {None, Some (rl_mode s)}"

definition applied_as_shown :: "reception_line \<Rightarrow> reception_line \<Rightarrow> bool" where
  "applied_as_shown s l \<longleftrightarrow> rl_id l = rl_id s \<and> rl_name l = rl_name s \<and> rl_quantity l = rl_quantity s \<and> rl_unit l = rl_unit s
     \<and> rl_expires_on l = rl_expires_on s \<and> rl_mode l = rl_mode s
     \<and> (case rl_stock_item s of None \<Rightarrow> True
        | Some r \<Rightarrow> map_option (st_id \<circ> sr_row) (rl_stock_item l) = Some (st_id (sr_row r)))"

lemma received_again:
  assumes "received_line (as_is i) r = Inr l" "rv_name it \<in> {None, Some (le_name l)}" "rv_quantity it \<in> {None, Some (le_quantity l)}"
    "rv_unit it \<in> {None, Some (le_unit l)}" "rv_expires_on it = None"
  shows "received_line it r = Inr l"
proof -
  let ?q = "case gr_quantity r of Some q \<Rightarrow> q | None \<Rightarrow> Fin 1"
  let ?u = "case gr_unit r of Some u \<Rightarrow> u | None \<Rightarrow> []"
  have l: "l = \<lparr>le_name = trim_text (gr_name r), le_quantity = ?q, le_unit = normalize_unit ?u, le_expires_on = None\<rparr>"
    and ok: "trim_text (gr_name r) \<noteq> []" "is_finite ?q" "\<not> f_less MAX_QUANTITY ?q" "\<not> f_le ?q (Fin 0)"
    using assms(1) by (auto simp: received_line_def as_is_def given_or_def Let_def split: if_splits)
  have "trim_text (given_or (rv_name it) (gr_name r)) = trim_text (gr_name r)"
    using assms(2) l by (auto simp: given_or_def)
  moreover have "(case rv_quantity it of Some q \<Rightarrow> q | None \<Rightarrow> ?q) = ?q" using assms(3) l by auto
  moreover have "normalize_unit (case rv_unit it of Some u \<Rightarrow> u | None \<Rightarrow> ?u) = normalize_unit ?u"
    using assms(4) l by (auto simp: normalize_unit_idem)
  ultimately show ?thesis using ok assms(5) by (simp add: received_line_def Let_def l)
qed

lemma receivable_rows:
  "(i, l) \<in> set (receivable env db g) \<Longrightarrow> \<exists>r \<in> set (grocery_items db). gr_id r = i \<and> gr_group r = g \<and> received_line (as_is i) r = Inr l"
  by (auto simp: receivable_def List.map_filter_def split: sum.splits)

lemma receivable_ids:
  assumes "distinct (map gr_id (grocery_items db))"
  shows "distinct (map fst (receivable env db g))"
proof -
  let ?f = "\<lambda>r. case received_line (as_is (gr_id r)) r of Inl e \<Rightarrow> None | Inr l \<Rightarrow> Some (gr_id r, l)"
  have m: "map fst (List.map_filter ?f xs) = map gr_id (filter (\<lambda>r. ?f r \<noteq> None) xs)" for xs
    by (induction xs) (auto simp: List.map_filter_def split: sum.splits)
  have "distinct (map gr_id (sort_key k (filter P (grocery_items db))))" for k :: "grocery_row \<Rightarrow> utext \<times> uuid" and P
    using assms by (auto simp: distinct_map inj_on_def)
  then show ?thesis unfolding receivable_def m by (simp add: distinct_map_filter)
qed

lemma unique_grocery:
  assumes "distinct (map gr_id (grocery_items db))" "r \<in> set (grocery_items db)" "gr_group r = g"
  shows "grocery_item db g (gr_id r) = Some r"
proof (cases "grocery_item db g (gr_id r)")
  case None
  then show ?thesis using assms(2,3) by (auto simp: grocery_item_def find_None_iff)
next
  case (Some x)
  then have "x \<in> set (grocery_items db)" "gr_id x = gr_id r" using find_holds by (force simp: grocery_item_def)+
  then show ?thesis using Some assms(1,2) by (auto simp: distinct_map inj_on_def)
qed

lemma lot_present:
  assumes d: "distinct (map gr_id (grocery_items db))" and ids: "distinct ids"
    and all: "\<forall>i \<in> set ids. \<exists>r \<in> set (grocery_items db). gr_id r = i \<and> gr_group r = g"
  shows "length (filter (\<lambda>r. gr_group r = g \<and> gr_id r \<in> set ids) (grocery_items db)) = length ids"
proof -
  let ?rs = "filter (\<lambda>r. gr_group r = g \<and> gr_id r \<in> set ids) (grocery_items db)"
  have "distinct (map gr_id ?rs)" using d by (simp add: distinct_map_filter)
  then have "length (map gr_id ?rs) = card (set (map gr_id ?rs))" by (rule distinct_card [symmetric])
  also have "set (map gr_id ?rs) = set ids"
  proof (intro equalityI subsetI)
    fix i assume "i \<in> set ids"
    then obtain r where "r \<in> set (grocery_items db)" "gr_id r = i" "gr_group r = g" using all by blast
    then show "i \<in> set (map gr_id ?rs)" using \<open>i \<in> set ids\<close> by auto
  qed auto
  finally show ?thesis using distinct_card [OF ids] by simp
qed

text \<open>
  C33. A proposal sent back unchanged, by any member, while nothing changed in between, is applied
  line by line as it was shown: the same articles, quantities and modes, merged into the stock
  line that was displayed. It can only be refused for a sum that goes over the bound.
\<close>

theorem proposal_applies_as_shown:
  assumes shown: "get_reception env db today user g = Inr shown" and ne: "shown \<noteq> []"
    and sent: "list_all2 sent_as_shown items shown" and member: "require_role db g user2 = Inr role2"
    and gids: "distinct (map gr_id (grocery_items db))" and sids: "distinct (map st_id (stock_items db))"
    and f: "fresh_ids fresh (stock_items db)" and apart: "st_id ` set (stock_items db) \<inter> gr_id ` set (grocery_items db) = {}"
  shows "case receive env (\<lambda>stock. stock) db now today2 user2 g fresh items of
      Inl e \<Rightarrow> e = Bad_request ''quantity_too_large''
    | Inr (lines, db') \<Rightarrow> list_all2 applied_as_shown shown lines"
proof -
  let ?X = "receivable env db g"
  let ?R = "of_group db g"
  obtain ts where p: "plan env (map (\<lambda>(i, l). (i, l, None)) ?X) (candidates ?R) = Inr ts" "length ts = length ?X"
    using plan_from_default unfolding plan_def by blast
  have sh: "shown = map (proposed_line db today g) (zip ?X ts)"
    using shown p(1) by (auto simp: get_reception_def and_then_Inr Let_def)
  have len: "length items = length ?X" using sent p(2) by (simp add: sh list_all2_lengthD)
  have at: "sent_as_shown (items ! j) (proposed_line db today g (?X ! j, ts ! j))" if "j < length ?X" for j
    using sent that p(2) len by (simp add: sh list_all2_conv_all_nth)
  have it: "rv_id (items ! j) = fst (?X ! j)" "rv_expires_on (items ! j) = None"
      "rv_mode (items ! j) = None \<or> rv_mode (items ! j) = Some (mode_of (ts ! j))"
      "\<exists>r. grocery_item db g (fst (?X ! j)) = Some r \<and> received_line (items ! j) r = Inr (snd (?X ! j))" if j: "j < length ?X" for j
  proof -
    obtain i l where x: "?X ! j = (i, l)" by force
    show "rv_id (items ! j) = fst (?X ! j)" "rv_expires_on (items ! j) = None"
      "rv_mode (items ! j) = None \<or> rv_mode (items ! j) = Some (mode_of (ts ! j))"
      using at [OF j] by (auto simp: sent_as_shown_def proposed_line_def x)
    obtain r where r: "r \<in> set (grocery_items db)" "gr_id r = i" "gr_group r = g" "received_line (as_is i) r = Inr l"
      using receivable_rows [of i l env db g] x j nth_mem [of j ?X] by auto
    have "received_line (items ! j) r = Inr l"
      using at [OF j] by (intro received_again [OF r(4)]) (auto simp: sent_as_shown_def proposed_line_def x)
    then show "\<exists>r. grocery_item db g (fst (?X ! j)) = Some r \<and> received_line (items ! j) r = Inr (snd (?X ! j))"
      using unique_grocery [OF gids r(1,3)] r(2) x by auto
  qed
  have ids: "map rv_id items = map fst ?X" using len it(1) by (intro nth_equalityI) auto
  have dis: "distinct (map rv_id items)" unfolding ids by (rule receivable_ids [OF gids])
  have lines: "lot_lines db g items = Inr (map snd ?X)"
    unfolding lot_lines_def each_Inr list_all2_conv_all_nth
  proof (intro conjI allI impI)
    fix j assume "j < length items"
    then have j: "j < length ?X" by (simp add: len)
    obtain r where "grocery_item db g (fst (?X ! j)) = Some r" "received_line (items ! j) r = Inr (snd (?X ! j))" using it(4) [OF j] by blast
    then show "(case grocery_item db g (rv_id (items ! j)) of None \<Rightarrow> Inl Not_found | Some r \<Rightarrow> received_line (items ! j) r) = Inr (map snd ?X ! j)"
      using it(1) [OF j] j by simp
  qed (simp add: len)
  have pl: "plan env (map (\<lambda>((i, l), m). (i, l, m)) (zip (zip (map rv_id items) (map snd ?X)) (map rv_mode items))) (candidates ?R) = Inr ts"
    unfolding ids zip_map_fst_snd plan_def
    using p(1)[unfolded plan_def] len p(2) it(3) by (intro plan_with_modes) (auto simp: list_all2_conv_all_nth)
  have cnt: "length (filter (\<lambda>r. gr_group r = g \<and> gr_id r \<in> set (map rv_id items)) (grocery_items db)) = length items"
  proof -
    have "\<exists>r \<in> set (grocery_items db). gr_id r = i \<and> gr_group r = g" if here: "i \<in> set (map rv_id items)" for i
    proof -
      obtain l where "(i, l) \<in> set ?X" using here unfolding ids by auto
      then show ?thesis using receivable_rows by blast
    qed
    then show ?thesis using lot_present [OF gids dis, of g] by simp
  qed
  have R: "\<forall>r \<in> set ?R. r \<in> set (stock_items db) \<and> st_group r = g" by (auto simp: of_group_def)
  have fR: "fresh_ids fresh ?R" using f by (auto simp: fresh_ids_def of_group_def)
  have "fst ` set ?X \<subseteq> gr_id ` set (grocery_items db)" using receivable_rows [of _ _ env db g] by force
  then have "st_id ` set ?R \<inter> fst ` set (zip (map fst ?X) (map snd ?X)) = {}" using apart R by (fastforce simp: zip_map_fst_snd)
  then have tok: "targets_ok env ?R (map snd ?X) ts"
    using plan_ok [OF pl [unfolded ids]] receivable_ids [OF gids] len by (simp add: zip_map_fst_snd)
  have start: "landed_stock env now user2 g fresh (map snd ?X) ts (stock_items db) 0 = stock_items db"
    by (simp add: landed_stock_def merges_def openings_def map_idI)
  have "check_lot (map rv_id items) = Inr ()" using ne dis len p(2) by (auto simp: check_lot_def sh)
  then have rec: "receive env (\<lambda>stock. stock) db now today2 user2 g fresh items =
      and_then (land env now user2 g fresh (zip (map snd ?X) ts) [] (stock_items db)) (\<lambda>(rows, stock).
        Inr (map (received_response today2) (zip (zip items (map snd ?X)) (zip ts rows)),
             db\<lparr>stock_items := stock,
                grocery_items := filter (\<lambda>r. \<not> (gr_group r = g \<and> gr_id r \<in> set (map rv_id items))) (grocery_items db)\<rparr>))"
    using member cnt lines pl article_shape [of "map snd ?X" items] len
    by (simp add: receive_def Let_def del: set_map)
  show ?thesis
  proof (cases "land env now user2 g fresh (zip (map snd ?X) ts) [] (stock_items db)")
    case (Inl e)
    have "e = Bad_request ''quantity_too_large''"
      using land_refused [OF tok sids f fR R, of now user2 0 e] Inl start by simp
    then show ?thesis by (simp add: rec Inl)
  next
    case (Inr q)
    obtain rows stock' where q: "q = (rows, stock')" by force
    have lands: "map st_id rows = map (landing fresh ts) [0..<length ?X]"
      using land_closed [OF tok sids f fR Inr [unfolded q]] by simp
    then have lr: "length rows = length ?X" by (metis length_map length_upt minus_nat.diff_0)
    have row_at: "st_id (rows ! j) = landing fresh ts j" if "j < length ?X" for j
      using arg_cong [OF lands, of "\<lambda>xs. xs ! j"] that lr by simp
    have "list_all2 applied_as_shown shown (map (received_response today2) (zip (zip items (map snd ?X)) (zip ts rows)))"
      unfolding list_all2_conv_all_nth
    proof (intro conjI allI impI)
      show "length shown = length (map (received_response today2) (zip (zip items (map snd ?X)) (zip ts rows)))"
        using len lr p(2) by (simp add: sh)
      fix j assume "j < length shown"
      then have j: "j < length ?X" using p(2) by (simp add: sh)
      obtain i l where x: "?X ! j = (i, l)" by force
      have le: "rl_expires_on (proposed_line db today g ((i, l), ts ! j)) = le_expires_on l"
        using receivable_rows [of i l env db g] x j nth_mem [of j ?X]
        by (auto simp: proposed_line_def received_line_def as_is_def Let_def split: if_splits)
      show "applied_as_shown (shown ! j) (map (received_response today2) (zip (zip items (map snd ?X)) (zip ts rows)) ! j)"
        using it(1) [OF j] x le row_at [OF j] j lr len p(2)
        by (auto simp: sh applied_as_shown_def received_response_def proposed_line_def landing_def dest!: find_holds split: target.splits option.splits)
    qed
    then show ?thesis by (simp add: rec Inr q)
  qed
qed

text \<open>
  C32. When a reception is accepted, there is a plan in which every article joins a line of the
  family's stock of its name and unit, or a line an earlier article of the lot opens, as its mode
  asks, or opens one; the stock is then what other transactions left it, with the lines opened
  appended and every line credited, in order, with the articles that join it; the response names
  the line each article landed on, the lot leaves the list and nothing else changes.
\<close>

theorem reception_effects:
  assumes "receive env between db now today user g fresh items = Inr (shown, db')"
    and "distinct (map st_id (between (stock_items db)))"
    and "fresh_ids fresh (between (stock_items db))" "fresh_ids fresh (of_group db g)"
    and "st_id ` set (of_group db g) \<inter> gr_id ` set (grocery_items db) = {}"
  shows "\<exists>ls ts. list_all2 (\<lambda>item l. \<exists>r. grocery_item db g (rv_id item) = Some r \<and> received_line item r = Inr l) items ls
    \<and> targets_ok env (of_group db g) ls ts
    \<and> list_all2 (\<lambda>item t. rv_mode item = None \<or> rv_mode item = Some (mode_of t)) items ts
    \<and> stock_items db' = map (credited env now g (merges fresh ls ts (length ls)))
        (between (stock_items db) @ openings now user g fresh ls ts (length ls))
    \<and> map (\<lambda>l. map_option (st_id \<circ> sr_row) (rl_stock_item l)) shown = map (Some \<circ> landing fresh ts) [0..<length items]
    \<and> db' = db\<lparr>stock_items := stock_items db',
        grocery_items := filter (\<lambda>r. \<not> (gr_group r = g \<and> gr_id r \<in> rv_id ` set items)) (grocery_items db)\<rparr>"
  using reception_result [OF assms] unfolding landed_stock_def .

section \<open>A lot\<close>

definition shopping :: household where
  "shopping = small_house\<lparr>grocery_items := map (\<lambda>(i, n, q). \<lparr>gr_id = i, gr_group = 10, gr_created_by = 2, gr_name = n, gr_quantity = q, gr_unit = None,
     gr_checked = True, gr_source = Manual, gr_recipe = None, gr_created_at = 0, gr_updated_at = 0\<rparr>) [(30, chars ''flour'', Some (Fin 3)), (31, chars ''salt'', None)]\<rparr>"

definition shopping_shown :: "reception_line list" where
  "shopping_shown = map (\<lambda>(i, n, q). \<lparr>rl_id = i, rl_name = n, rl_quantity = Fin q, rl_unit = DEFAULT_UNIT, rl_expires_on = None, rl_mode = New_line,
     rl_stock_item = None\<rparr>) [(30, chars ''flour'', 3), (31, chars ''salt'', 1)]"

lemmas shopping_simps = shopping_def small_house_def milk_def rice_def plain_kitchen_def

lemma shopping_get: "get_reception plain_kitchen shopping 100 1 10 = Inr shopping_shown"
proof -
  have role: "require_role shopping 10 1 = Inr Member" using small_house_member(1) by (simp add: shopping_def require_role_def)
  have rows: "sort_key (\<lambda>r. (collate plain_kitchen (gr_name r), gr_id r)) (filter (\<lambda>r. gr_group r = 10 \<and> gr_checked r) (grocery_items shopping)) = grocery_items shopping"
    by (simp add: shopping_simps)
  have rec: "receivable plain_kitchen shopping 10 = [(30, \<lparr>le_name = chars ''flour'', le_quantity = Fin 3, le_unit = DEFAULT_UNIT, le_expires_on = None\<rparr>),
      (31, \<lparr>le_name = chars ''salt'', le_quantity = Fin 1, le_unit = DEFAULT_UNIT, le_expires_on = None\<rparr>)]"
    unfolding receivable_def rows
    by (simp add: shopping_def List.map_filter_def received_line_def as_is_def given_or_def Let_def MAX_QUANTITY_def f_le_def normalize_unit_def trim_by_def is_whitespace_def)
  show ?thesis
    by (simp add: get_reception_def role rec Let_def plan_def merge_target_def resolve_target_def article_key_def candidates_def of_group_def
        proposed_line_def shopping_shown_def trim_by_def is_whitespace_def del: One_nat_def)
       (simp add: shopping_simps trim_by_def is_whitespace_def)
qed

lemma shopping_ids: "distinct (map gr_id (grocery_items shopping))" "distinct (map st_id (stock_items shopping))"
    "fresh_ids (\<lambda>i. 500 + i) (stock_items shopping)" "st_id ` set (stock_items shopping) \<inter> gr_id ` set (grocery_items shopping) = {}"
    "require_role shopping 10 2 = Inr Member"
  using small_house_member(2) by (auto simp: shopping_def small_house_def milk_def rice_def fresh_ids_def inj_def require_role_def)

definition shopping_lot :: "received_item list" where
  "shopping_lot = [as_is 30, (as_is 31)\<lparr>rv_name := Some (chars ''salt''), rv_mode := Some New_line\<rparr>]"

lemma proposal_applies_as_shown_witness:
  "list_all2 sent_as_shown shopping_lot shopping_shown \<and>
   (case receive plain_kitchen (\<lambda>stock. stock) shopping 7 100 2 10 (\<lambda>i. 500 + i) shopping_lot of
      Inl e \<Rightarrow> e = Bad_request ''quantity_too_large''
    | Inr (lines, db') \<Rightarrow> list_all2 applied_as_shown shopping_shown lines)"
proof -
  have sent: "list_all2 sent_as_shown shopping_lot shopping_shown"
    by (simp add: shopping_lot_def shopping_shown_def sent_as_shown_def as_is_def)
  have ne: "shopping_shown \<noteq> []" by (simp add: shopping_shown_def)
  show ?thesis
    using proposal_applies_as_shown [OF shopping_get ne sent shopping_ids(5,1,2,3,4)] sent by blast
qed

definition shopping_lines :: "lot_line list" where
  "shopping_lines = [\<lparr>le_name = chars ''flour'', le_quantity = Fin 3, le_unit = DEFAULT_UNIT, le_expires_on = None\<rparr>,
     \<lparr>le_name = chars ''milk'', le_quantity = Fin 1, le_unit = chars ''l'', le_expires_on = None\<rparr>]"

definition milk_lot :: "received_item list" where
  "milk_lot = [as_is 30, (as_is 31)\<lparr>rv_name := Some (chars ''milk''), rv_unit := Some (chars ''l'')\<rparr>]"

lemma milk_received:
  "\<exists>shown db'. receive plain_kitchen (\<lambda>stock. stock) shopping 7 100 2 10 (\<lambda>i. 500 + i) milk_lot = Inr (shown, db')"
proof -
  have lines: "lot_lines shopping 10 milk_lot = Inr shopping_lines"
    by (simp add: lot_lines_def milk_lot_def shopping_lines_def as_is_def grocery_item_def shopping_def received_line_def given_or_def Let_def
        MAX_QUANTITY_def f_le_def normalize_unit_def trim_by_def is_whitespace_def)
  have p: "plan plain_kitchen [(30, shopping_lines ! 0, None), (31, shopping_lines ! 1, None)] (candidates (of_group shopping 10)) = Inr [On_its_own, On_stock 7]"
    by (simp add: plan_def shopping_lines_def merge_target_def resolve_target_def article_key_def candidates_def of_group_def shopping_simps
        trim_by_def is_whitespace_def Let_def)
  have l: "\<exists>rows stock. land plain_kitchen 7 2 10 (\<lambda>i. 500 + i) (zip shopping_lines [On_its_own, On_stock 7]) [] (stock_items shopping) = Inr (rows, stock)"
    by (simp add: shopping_lines_def merge_into_def shopping_simps new_row_def is_row_def MAX_QUANTITY_def sql_le_def f_le_def Let_def)
  show ?thesis
    unfolding receive_Inr using lines p l shopping_ids(5)
    by (auto simp: milk_lot_def as_is_def shopping_lines_def shopping_def)
qed

lemma reception_effects_witness:
  "\<exists>shown db' ls ts. receive plain_kitchen (\<lambda>stock. stock) shopping 7 100 2 10 (\<lambda>i. 500 + i) milk_lot = Inr (shown, db')
    \<and> targets_ok plain_kitchen (of_group shopping 10) ls ts
    \<and> stock_items db' = map (credited plain_kitchen 7 10 (merges (\<lambda>i. 500 + i) ls ts (length ls)))
        (stock_items shopping @ openings 7 2 10 (\<lambda>i. 500 + i) ls ts (length ls))"
proof -
  obtain shown db' where r: "receive plain_kitchen (\<lambda>stock. stock) shopping 7 100 2 10 (\<lambda>i. 500 + i) milk_lot = Inr (shown, db')"
    using milk_received by blast
  have "fresh_ids (\<lambda>i. 500 + i) (of_group shopping 10)" "st_id ` set (of_group shopping 10) \<inter> gr_id ` set (grocery_items shopping) = {}"
    using shopping_ids(3,4) by (auto simp: fresh_ids_def of_group_def)
  then show ?thesis using reception_effects [OF r shopping_ids(2,3)] r by blast
qed

end
