(* ===== verification/Household.thy ===== *)
theory Household
  imports Reception
begin

text \<open>
  The requests a family makes on its stock and its grocery list, taken together: whatever their
  order, the tables keep what each handler relies on, and each member stays within his rights.

  Each request runs alone: the locks and the transactions of the database are taken as they are
  documented, and the gap a reception leaves open is in \<open>Reception\<close>.
\<close>

section \<open>The requests\<close>

datatype household_request =
    Create_stock create_stock
  | Update_stock uuid update_stock_request
  | Delete_stock uuid
  | Receive_lot "received_item list"
  | Create_grocery utext create_grocery
  | Check_grocery uuid bool
  | Update_grocery uuid update_grocery
  | Delete_grocery uuid
  | Generate_list
  | Add_missing uuid

record caller =
  c_user :: uuid
  c_group :: uuid
  c_now :: instant
  c_today :: date
  c_fresh :: "nat \<Rightarrow> uuid"

definition committed :: "household \<Rightarrow> ('r \<Rightarrow> household) \<Rightarrow> api_error + 'r \<Rightarrow> household" where
  "committed db f r = (case r of Inl e \<Rightarrow> db | Inr x \<Rightarrow> f x)"

definition perform :: "notice_env \<Rightarrow> kitchen_env \<Rightarrow> caller \<Rightarrow> household_request \<Rightarrow> household \<Rightarrow> household" where
  "perform nenv env c q db =
     (let user = c_user c; g = c_group c; now = c_now c; today = c_today c; fresh = c_fresh c
      in case q of
           Create_stock b \<Rightarrow> committed db snd (create_stock_item db now today user g (fresh 0) b)
         | Update_stock i b \<Rightarrow> committed db snd (update_stock_item db now today user g i b)
         | Delete_stock i \<Rightarrow> committed db id (delete_stock_item db user g i)
         | Receive_lot items \<Rightarrow> committed db snd (receive env (\<lambda>stock. stock) db now today user g fresh items)
         | Create_grocery author b \<Rightarrow> committed db snd (create_grocery_item nenv db now user author g (fresh 0) (\<lambda>n. fresh (Suc n)) b)
         | Check_grocery i checked \<Rightarrow> committed db snd (check_grocery_item db now user g i checked)
         | Update_grocery i b \<Rightarrow> committed db snd (update_grocery_item db now user g i b)
         | Delete_grocery i \<Rightarrow> committed db id (delete_grocery_item db user g i)
         | Generate_list \<Rightarrow> committed db snd (generate_grocery_items env db now user g fresh)
         | Add_missing recipe \<Rightarrow> committed db snd (add_missing_grocery_items env db now today user g recipe fresh))"

text \<open>The identifiers the database draws are new to both tables.\<close>

definition unused :: "(nat \<Rightarrow> uuid) \<Rightarrow> household \<Rightarrow> bool" where
  "unused fresh db \<longleftrightarrow> inj fresh \<and> (\<forall>j. fresh j \<notin> st_id ` set (stock_items db) \<and> fresh j \<notin> gr_id ` set (grocery_items db))"

inductive reaches :: "notice_env \<Rightarrow> kitchen_env \<Rightarrow> household \<Rightarrow> household \<Rightarrow> bool" for nenv env db where
  start: "reaches nenv env db db"
| request: "reaches nenv env db db' \<Longrightarrow> unused (c_fresh c) db' \<Longrightarrow> reaches nenv env db (perform nenv env c q db')"

section \<open>Rounding\<close>

text \<open>
  What IEEE 754 says of the rounding of doubles below \<open>2 ^ 30\<close>: monotone, exact on 0, off by at
  most half a unit of the last place, and a tie above the bound of the stock (an even multiple of
  \<open>2 ^ (-23)\<close>) goes to it.
\<close>

definition rounding_ok :: "kitchen_env \<Rightarrow> bool" where
  "rounding_ok env \<longleftrightarrow> (\<forall>a b. a \<le> b \<longrightarrow> fl env a \<le> fl env b) \<and> fl env 0 = 0
     \<and> (\<forall>x. \<bar>x\<bar> \<le> 2 ^ 30 \<longrightarrow> \<bar>fl env x - x\<bar> \<le> 1 / 2 ^ 24)
     \<and> fl env (1000000000 + 1 / 2 ^ 24) = 1000000000"

lemma guarded_sum:
  assumes r: "rounding_ok env" and a: "0 \<le> a" "a \<le> fl env (1000000000 + - q)" and q: "0 < q" "q \<le> 1000000000"
  shows "0 \<le> fl env (a + q) \<and> fl env (a + q) \<le> 1000000000"
proof -
  have mono: "x \<le> y \<Longrightarrow> fl env x \<le> fl env y" for x y using r by (simp add: rounding_ok_def)
  have "\<bar>1000000000 + - q\<bar> \<le> 2 ^ 30" using q by simp
  then have "\<bar>fl env (1000000000 + - q) - (1000000000 + - q)\<bar> \<le> 1 / 2 ^ 24" using r unfolding rounding_ok_def by blast
  then have "a + q \<le> 1000000000 + 1 / 2 ^ 24" using a(2) by linarith
  from mono [OF this] have "fl env (a + q) \<le> 1000000000" using r by (simp add: rounding_ok_def)
  moreover have "fl env 0 \<le> fl env (a + q)" using a(1) q(1) by (intro mono) simp
  ultimately show ?thesis using r by (simp add: rounding_ok_def)
qed

section \<open>What every request keeps\<close>

definition groceries_ok :: "grocery_row list \<Rightarrow> bool" where
  "groceries_ok rows \<longleftrightarrow> distinct (map gr_id rows) \<and> (\<forall>r \<in> set rows. gr_quantity r \<noteq> None \<longrightarrow> gr_unit r \<noteq> None)"

definition household_ok :: "household \<Rightarrow> bool" where
  "household_ok db \<longleftrightarrow> stock_ok (stock_items db) \<and> groceries_ok (grocery_items db)
     \<and> st_id ` set (stock_items db) \<inter> gr_id ` set (grocery_items db) = {}"

definition lot_line_ok :: "lot_line \<Rightarrow> bool" where
  "lot_line_ok l \<longleftrightarrow> (\<exists>q. le_quantity l = Fin q \<and> 0 < q \<and> q \<le> 1000000000) \<and> le_name l \<noteq> [] \<and> trim_text (le_name l) = le_name l
     \<and> le_unit l \<noteq> [] \<and> trim_text (le_unit l) = le_unit l"

lemma received_line_ok: "received_line item r = Inr l \<Longrightarrow> lot_line_ok l"
proof -
  assume a: "received_line item r = Inr l"
  let ?q = "case rv_quantity item of Some q \<Rightarrow> q | None \<Rightarrow> (case gr_quantity r of Some q \<Rightarrow> q | None \<Rightarrow> Fin 1)"
  have q: "is_finite ?q" "\<not> f_less MAX_QUANTITY ?q" "\<not> f_le ?q (Fin 0)" "le_quantity l = ?q"
    and n: "trim_text (given_or (rv_name item) (gr_name r)) \<noteq> []" "le_name l = trim_text (given_or (rv_name item) (gr_name r))"
    and u: "\<exists>u. le_unit l = normalize_unit u"
    using a by (auto simp: received_line_def Let_def split: if_splits)
  have "\<exists>q. ?q = Fin q \<and> 0 < q \<and> q \<le> 1000000000"
    using q(1-3) by (cases ?q) (simp_all add: MAX_QUANTITY_def f_le_def)
  moreover obtain u where "le_unit l = normalize_unit u" using u by blast
  ultimately show ?thesis using n q(4) unit_ok [of u] by (simp add: lot_line_ok_def)
qed

lemma new_row_ok: "lot_line_ok l \<Longrightarrow> row_ok (new_row now user g i l)"
  by (auto simp: row_ok_def new_row_def lot_line_ok_def in_bounds_def)

lemma merged_row_ok:
  assumes r: "rounding_ok env" and ok: "row_ok x" and l: "lot_line_ok l"
    and guard: "sql_le (st_quantity x) (f_add env MAX_QUANTITY (f_neg (le_quantity l)))"
  shows "row_ok (x\<lparr>st_quantity := f_add env (st_quantity x) (le_quantity l), st_updated_at := now\<rparr>)"
proof -
  obtain q where q: "le_quantity l = Fin q" "0 < q" "q \<le> 1000000000" using l by (auto simp: lot_line_ok_def)
  obtain a where a: "st_quantity x = Fin a" "0 \<le> a" using ok by (auto simp: row_ok_def in_bounds_def split: f64.splits)
  have "a \<le> fl env (1000000000 + - q)" using guard by (auto simp: a q MAX_QUANTITY_def sql_le_def f_le_def)
  from guarded_sum [OF r a(2) this q(2,3)] show ?thesis using ok by (simp add: row_ok_def in_bounds_def a q)
qed

lemma merge_keeps:
  assumes r: "rounding_ok env" and ok: "stock_ok stock" and l: "lot_line_ok l"
    and m: "merge_into env now g i (le_quantity l) stock = Inr (hit_row, stock')"
  shows "stock_ok stock' \<and> st_id ` set stock' = st_id ` set stock"
proof -
  let ?f = "\<lambda>r. r\<lparr>st_quantity := f_add env (st_quantity r) (le_quantity l), st_updated_at := now\<rparr>"
  have d: "distinct (map st_id stock)" using ok by (simp add: stock_ok_def)
  obtain x where x: "x \<in> set stock" "st_id x = i" "st_group x = g" "sql_le (st_quantity x) (f_add env MAX_QUANTITY (f_neg (le_quantity l)))"
    using merge_into_Inr(2) [OF m d] by (auto simp: is_row_def)
  have inj: "inj_on st_id (set stock)" using d by (simp add: distinct_map)
  have "(if is_row g i r then ?f r else r) = (if st_id r = i \<and> st_group r = g then ?f x else r)" if "r \<in> set stock" for r
  proof (cases "is_row g i r")
    case True
    then have "r = x" using inj_onD [OF inj _ that x(1)] x(2) by (simp add: is_row_def)
    then show ?thesis using True by (simp add: is_row_def)
  qed (auto simp: is_row_def)
  then have "stock' = set_row g i (?f x) stock"
    unfolding merge_into_Inr(1) [OF m d] set_row_def by (intro map_cong) simp_all
  moreover have "row_ok (?f x)" using merged_row_ok [OF r _ l x(4)] ok x(1) by (simp add: stock_ok_def)
  ultimately have "stock_ok stock'" using set_row_ok [OF ok x(1-3), of "?f x"] x by simp
  moreover have "map st_id stock' = map st_id stock" unfolding merge_into_Inr(1) [OF m d] by simp
  then have "st_id ` set stock' = st_id ` set stock" by (metis set_map)
  ultimately show ?thesis by simp
qed

lemma land_keeps:
  assumes r: "rounding_ok env" and inj: "inj fresh"
  shows "land env now user g fresh rest landed stock = Inr (rows, stock') \<Longrightarrow> stock_ok stock \<Longrightarrow> \<forall>(l, t) \<in> set rest. lot_line_ok l \<Longrightarrow>
    \<forall>j \<ge> length landed. fresh j \<notin> st_id ` set stock \<Longrightarrow>
    stock_ok stock' \<and> st_id ` set stock' \<subseteq> st_id ` set stock \<union> range fresh"
proof (induction rest arbitrary: landed stock rows)
  case (Cons lt rest)
  obtain l t where lt: "lt = (l, t)" by force
  have l: "lot_line_ok l" using Cons.prems(3) by (simp add: lt)
  let ?i = "case t of On_stock i \<Rightarrow> Some i | On_lot creator \<Rightarrow> Some (landed ! creator) | On_its_own \<Rightarrow> None"
  show ?case
  proof (cases ?i)
    case None
    let ?new = "new_row now user g (fresh (length landed)) l"
    obtain rs where rs: "land env now user g fresh rest (landed @ [st_id ?new]) (stock @ [?new]) = Inr (rs, stock')"
      using Cons.prems(1) by (auto simp: lt None and_then_Inr Let_def)
    have id: "st_id ?new = fresh (length landed)" "st_barcode ?new = None" by (simp_all add: new_row_def)
    have "stock_ok (stock @ [?new])"
      using Cons.prems(2,4) new_row_ok [OF l] id by (auto simp: stock_ok_def)
    moreover have "\<forall>j \<ge> Suc (length landed). fresh j \<notin> st_id ` set (stock @ [?new])"
      using Cons.prems(4) inj id by (auto simp: inj_eq)
    ultimately show ?thesis using Cons.IH [OF rs] Cons.prems(3) id by (auto simp: lt)
  next
    case (Some i)
    obtain hit_row st rs where m: "merge_into env now g i (le_quantity l) stock = Inr (hit_row, st)"
      "land env now user g fresh rest (landed @ [st_id hit_row]) st = Inr (rs, stock')"
      using Cons.prems(1) by (auto simp: lt Some and_then_Inr)
    note k = merge_keeps [OF r Cons.prems(2) l m(1)]
    show ?thesis using Cons.IH [OF m(2)] k Cons.prems(3,4) by (auto simp: lt)
  qed
qed auto

lemma grocery_unit_some: "\<exists>v. grocery_unit (Some q) u = Some v"
  by (auto simp: grocery_unit_def split: option.split)

lemma grocery_unit_not_None [simp]: "grocery_unit (Some q) u \<noteq> None"
  using grocery_unit_some [of q u] by auto

lemma plan_units: "l \<in> set (plan_lines env ings) \<Longrightarrow> ln_quantity l \<noteq> None \<Longrightarrow> ln_unit l \<noteq> None"
  unfolding plan_lines_def planned_state
  by (auto simp: line_of_def Let_def scaled_unit_def grocery_unit_some split: option.splits)

lemma missing_units:
  assumes "l \<in> set (missing env ns stock)" "\<forall>n \<in> set ns. ln_quantity n \<noteq> None \<longrightarrow> ln_unit n \<noteq> None"
  shows "ln_quantity l \<noteq> None \<longrightarrow> ln_unit l \<noteq> None"
proof -
  obtain n where n: "n \<in> set ns" "missing_one env stock n = Some l"
    using assms(1) by (auto simp: missing_def List.map_filter_def)
  have "ln_unit l = ln_unit n \<and> (ln_quantity l \<noteq> None \<longrightarrow> ln_quantity n \<noteq> None)"
    using n(2) by (auto simp: missing_one_def Let_def split: option.splits if_splits)
  then show ?thesis using assms(2) n(1) by auto
qed

lemma chunk_availability_units:
  "\<forall>av \<in> set (planned_availability env db g recipe today). \<forall>l \<in> set (av_missing av). ln_quantity l \<noteq> None \<longrightarrow> ln_unit l \<noteq> None"
  by (auto simp: planned_availability_def availability_of_def Let_def needs_def dest!: missing_units plan_units)

lemma insert_unseen_ids:
  "(\<And>l i. gr_id (mk l i) = i) \<Longrightarrow> map gr_id created = map fresh [0..<length created] \<Longrightarrow>
   insert_unseen key mk fresh ls (seen, created) = (seen', created') \<Longrightarrow> map gr_id created' = map fresh [0..<length created']"
proof (induction ls arbitrary: seen created)
  case (Cons l ls)
  have "map gr_id (created @ [mk l (fresh (length created))]) = map fresh [0..<length (created @ [mk l (fresh (length created))])]"
    using Cons.prems(1,2) by simp
  from Cons.IH [OF Cons.prems(1) this, of "key l # seen"] Cons.IH [OF Cons.prems(1,2), of seen] Cons.prems(3)
  show ?case by (simp split: if_splits)
qed simp

lemma insert_unseen_from:
  "insert_unseen key mk fresh ls (seen, created) = (seen', created') \<Longrightarrow> r \<in> set created' \<Longrightarrow>
   r \<in> set created \<or> (\<exists>l \<in> set ls. \<exists>i. r = mk l i)"
proof (induction ls arbitrary: seen created)
  case (Cons l ls)
  from Cons.IH [of seen created] Cons.IH [of "key l # seen" "created @ [mk l (fresh (length created))]"] Cons.prems
  show ?case by (auto split: if_splits)
qed simp

lemma append_keeps:
  assumes ok: "household_ok db" and f: "unused fresh db" and ids: "map gr_id created = map fresh [0..<length created]"
    and units: "\<forall>r \<in> set created. gr_quantity r \<noteq> None \<longrightarrow> gr_unit r \<noteq> None"
  shows "household_ok (db\<lparr>grocery_items := grocery_items db @ created\<rparr>)"
proof -
  have "inj_on fresh A" for A using f by (auto simp: unused_def inj_on_def inj_def)
  then have "distinct (map gr_id created)" unfolding ids by (simp add: distinct_map)
  moreover have new: "gr_id ` set created \<subseteq> range fresh" unfolding set_map [symmetric] ids by auto
  moreover have "range fresh \<inter> st_id ` set (stock_items db) = {}" "range fresh \<inter> gr_id ` set (grocery_items db) = {}"
    using f by (auto simp: unused_def)
  ultimately have "distinct (map gr_id (grocery_items db @ created))" "st_id ` set (stock_items db) \<inter> gr_id ` set (grocery_items db @ created) = {}"
    using ok unfolding household_ok_def groceries_ok_def map_append distinct_append set_append image_Un set_map by blast+
  moreover have "\<forall>r \<in> set (grocery_items db @ created). gr_quantity r \<noteq> None \<longrightarrow> gr_unit r \<noteq> None"
    using ok units unfolding household_ok_def groceries_ok_def by auto
  ultimately show ?thesis using ok by (simp add: household_ok_def groceries_ok_def del: map_append set_append)
qed

lemma set_grocery_keeps:
  assumes "household_ok db" "\<And>r. gr_id (f r) = gr_id r" "\<And>r. (gr_quantity r \<noteq> None \<longrightarrow> gr_unit r \<noteq> None) \<Longrightarrow> (gr_quantity (f r) \<noteq> None \<longrightarrow> gr_unit (f r) \<noteq> None)"
  shows "household_ok (set_grocery g i f db)"
proof -
  define rows where "rows = map (\<lambda>r. if gr_id r = i \<and> gr_group r = g then f r else r) (grocery_items db)"
  have ids: "map gr_id rows = map gr_id (grocery_items db)" by (simp add: rows_def assms(2))
  have "\<forall>r \<in> set rows. gr_quantity r \<noteq> None \<longrightarrow> gr_unit r \<noteq> None"
    using assms(1,3) by (auto simp: household_ok_def groceries_ok_def rows_def)
  moreover have "gr_id ` set rows = gr_id ` set (grocery_items db)" using ids by (metis set_map)
  ultimately have "household_ok (db\<lparr>grocery_items := rows\<rparr>)" using assms(1) ids by (simp add: household_ok_def groceries_ok_def)
  then show ?thesis by (simp add: set_grocery_def rows_def)
qed

lemma delete_keeps:
  "household_ok db \<Longrightarrow> household_ok (db\<lparr>grocery_items := filter P (grocery_items db)\<rparr>)"
  "household_ok db \<Longrightarrow> household_ok (db\<lparr>stock_items := filter Q (stock_items db)\<rparr>)"
  using stock_ok_filter [of "stock_items db" Q] by (auto simp: household_ok_def groceries_ok_def distinct_map_filter)

lemma stock_change_keeps:
  "household_ok db \<Longrightarrow> stock_ok rows \<Longrightarrow> st_id ` set rows \<inter> gr_id ` set (grocery_items db) = {} \<Longrightarrow> household_ok (db\<lparr>stock_items := rows\<rparr>)"
  by (simp add: household_ok_def)

lemma set_row_ids: "st_id r' = i \<Longrightarrow> st_id ` set (set_row g i r' rows) \<subseteq> st_id ` set rows"
proof
  fix x assume r': "st_id r' = i" and "x \<in> st_id ` set (set_row g i r' rows)"
  then obtain r where "r \<in> set rows" "x = st_id (if st_id r = i \<and> st_group r = g then r' else r)" by (auto simp: set_row_def)
  then have "r \<in> set rows" "x = st_id r" using r' by (auto split: if_splits)
  then show "x \<in> st_id ` set rows" by blast
qed

lemma receive_keeps:
  assumes r: "rounding_ok env" and ok: "household_ok db" and f: "unused fresh db"
    and x: "receive env (\<lambda>stock. stock) db now today user g fresh items = Inr (shown, db')"
  shows "household_ok db'"
proof -
  obtain ls ts rows stock where e: "lot_lines db g items = Inr ls"
      "land env now user g fresh (zip ls ts) [] (stock_items db) = Inr (rows, stock)"
      "db' = db\<lparr>stock_items := stock,
            grocery_items := filter (\<lambda>r. \<not> (gr_group r = g \<and> gr_id r \<in> set (map rv_id items))) (grocery_items db)\<rparr>"
    using x unfolding receive_Inr by blast
  have "lot_line_ok l" if l: "l \<in> set ls" for l
  proof -
    obtain item where "(case grocery_item db g (rv_id item) of None \<Rightarrow> Inl Not_found | Some r \<Rightarrow> received_line item r) = Inr l"
      using e(1) l unfolding lot_lines_def each_Inr by (force simp: list_all2_conv_all_nth in_set_conv_nth)
    then show ?thesis using received_line_ok by (auto split: option.splits)
  qed
  then have lines: "\<forall>(l, t) \<in> set (zip ls ts). lot_line_ok l" by (auto dest: set_zip_leftD)
  have "stock_ok stock \<and> st_id ` set stock \<subseteq> st_id ` set (stock_items db) \<union> range fresh"
    using land_keeps [OF r _ e(2) _ lines] ok f by (simp add: household_ok_def unused_def)
  moreover have "range fresh \<inter> gr_id ` set (grocery_items db) = {}" using f by (auto simp: unused_def)
  ultimately have "stock_ok stock" "st_id ` set stock \<inter> gr_id ` set (grocery_items db) = {}"
    using ok unfolding household_ok_def by blast+
  then have "household_ok (db\<lparr>stock_items := stock\<rparr>)" using ok by (intro stock_change_keeps)
  from delete_keeps(1) [OF this] show ?thesis by (simp add: e(3))
qed

lemma generate_keeps:
  assumes "household_ok db" "unused fresh db" "generate_grocery_items env db now user g fresh = Inr (created, db')"
  shows "household_ok db'"
proof -
  let ?p = "plan_lines env (wanted_by_recipes env db g)"
  obtain seen1 new1 where one: "insert_unseen (\<lambda>l. lower env (ln_name l)) (planned_item now user g) fresh ?p (unchecked_keys env db g, []) = (seen1, new1)"
    by force
  obtain seen2 new2 where two: "insert_unseen (\<lambda>s. article_key env (st_name s)) (low_stock_row now user g) fresh (running_low db g) (seen1, new1) = (seen2, new2)"
    by force
  have db: "db' = db\<lparr>grocery_items := grocery_items db @ new2\<rparr>"
    using assms(3) by (auto simp: generate_grocery_items_def and_then_Inr Let_def one two)
  have ids1: "map gr_id new1 = map fresh [0..<length new1]"
    by (rule insert_unseen_ids [OF _ _ one]) (simp_all add: planned_item_def)
  have ids2: "map gr_id new2 = map fresh [0..<length new2]"
    by (rule insert_unseen_ids [OF _ ids1 two]) (simp add: low_stock_row_def)
  have from1: "\<forall>r \<in> set new1. \<exists>l \<in> set ?p. \<exists>i. r = planned_item now user g l i" using insert_unseen_from [OF one] by auto
  have from2: "\<forall>r \<in> set new2. r \<in> set new1 \<or> (\<exists>s i. r = low_stock_row now user g s i)" using insert_unseen_from [OF two] by blast
  have "\<forall>r \<in> set new2. gr_quantity r \<noteq> None \<longrightarrow> gr_unit r \<noteq> None"
    using from1 from2 plan_units by (fastforce simp: planned_item_def low_stock_row_def)
  then show ?thesis unfolding db by (intro append_keeps [OF assms(1,2) ids2])
qed

lemma missing_keeps:
  assumes "household_ok db" "unused fresh db" "add_missing_grocery_items env db now today user g recipe fresh = Inr (created, db')"
  shows "household_ok db'"
proof -
  let ?l = "concat (map av_missing (planned_availability env db g (Some recipe) today))"
  obtain seen new where one: "insert_unseen (\<lambda>l. article_key env (ln_name l)) (planned_item now user g) fresh ?l (unchecked_keys env db g, []) = (seen, new)"
    by force
  have db: "db' = db\<lparr>grocery_items := grocery_items db @ new\<rparr>"
    using assms(3) by (auto simp: add_missing_grocery_items_def and_then_Inr Let_def one split: if_splits)
  have ids: "map gr_id new = map fresh [0..<length new]"
    by (rule insert_unseen_ids [OF _ _ one]) (simp_all add: planned_item_def)
  have "\<forall>r \<in> set new. \<exists>l \<in> set ?l. \<exists>i. r = planned_item now user g l i" using insert_unseen_from [OF one] by auto
  then have "\<forall>r \<in> set new. gr_quantity r \<noteq> None \<longrightarrow> gr_unit r \<noteq> None"
    using chunk_availability_units [of env db g "Some recipe" today] by (fastforce simp: planned_item_def)
  then show ?thesis unfolding db by (intro append_keeps [OF assms(1,2) ids])
qed

lemma committed_ok:
  "household_ok db \<Longrightarrow> (\<And>x. r = Inr x \<Longrightarrow> household_ok (f x)) \<Longrightarrow> household_ok (committed db f r)"
  by (cases r) (simp_all add: committed_def)

lemma insert_for_people:
  "insert_for env now fresh us n c = (res, c') \<Longrightarrow> memberships c' = memberships c \<and> accounts c' = accounts c"
  by (auto simp: insert_for_def split_beta split: if_splits)

lemma create_grocery_Inr:
  assumes "create_grocery_item nenv db now user author g new_id fresh b = Inr (r, db')"
  shows "\<exists>c. db' = db\<lparr>people := c, grocery_items := grocery_items db @ [r]\<rparr> \<and> gr_id r = new_id \<and> gr_group r = g
    \<and> (gr_quantity r \<noteq> None \<longrightarrow> gr_unit r \<noteq> None) \<and> memberships c = memberships (people db) \<and> (\<exists>x. require_role db g user = Inr x)"
proof -
  obtain p x where "r = \<lparr>gr_id = new_id, gr_group = g, gr_created_by = user, gr_name = trim_text (cg_name b), gr_quantity = cg_quantity b,
      gr_unit = grocery_unit (cg_quantity b) (cg_unit b), gr_checked = False, gr_source = Manual, gr_recipe = None, gr_created_at = now, gr_updated_at = now\<rparr>"
    "db' = db\<lparr>people := p, grocery_items := grocery_items db @ [r]\<rparr>" "memberships p = memberships (people db)" "require_role db g user = Inr x"
    using assms by (auto simp: create_grocery_item_def Let_def and_then_Inr insert_for_members_def split: if_splits sum.splits prod.splits
        dest!: insert_for_people)
  then show ?thesis using grocery_unit_some by (intro exI [of _ p]) auto
qed

lemma create_effect:
  assumes "create_stock_item db now today user g new_id b = Inr (res, db')"
  shows "\<exists>r. db' = db\<lparr>stock_items := stock_items db @ [r]\<rparr> \<and> st_id r = new_id \<and> st_group r = g \<and> (\<exists>x. require_role db g user = Inr x)"
proof -
  obtain barcode r x where "require_role db g user = Inr x" "st_id r = new_id" "st_group r = g" "insert_stock r db = Inr db'"
    using assms unfolding create_Inr by force
  then show ?thesis by (auto simp: insert_stock_def split: if_splits)
qed

lemma update_grocery_effect:
  assumes "update_grocery_item db now user g i b = Inr (res, db')"
  shows "\<exists>r x n q u. require_role db g user = Inr r \<and> grocery_item db g i = Some x \<and> can_modify r (gr_created_by x = user)
    \<and> db' = set_grocery g i (\<lambda>r. r\<lparr>gr_name := given_or n (gr_name r), gr_quantity := q, gr_unit := grocery_unit q u, gr_updated_at := now\<rparr>) db"
proof (cases "grocery_item db g i")
  case (Some x)
  show ?thesis using assms
    by (simp add: update_grocery_item_def Some and_then_Inr Let_def split: if_splits) blast
qed (use assms in \<open>auto simp: update_grocery_item_def and_then_Inr\<close>)

lemma check_grocery_effect:
  "check_grocery_item db now user g i checked = Inr (res, db') \<Longrightarrow>
   (\<exists>r. require_role db g user = Inr r) \<and> db' = set_grocery g i (\<lambda>r. r\<lparr>gr_checked := checked, gr_updated_at := now\<rparr>) db"
  by (auto simp: check_grocery_item_def and_then_Inr Let_def split: option.splits)

lemma delete_grocery_effect:
  "delete_grocery_item db user g i = Inr db' \<Longrightarrow>
   \<exists>r x. require_role db g user = Inr r \<and> grocery_item db g i = Some x \<and> can_modify r (gr_created_by x = user)
     \<and> db' = db\<lparr>grocery_items := filter (\<lambda>r. \<not> (gr_id r = i \<and> gr_group r = g)) (grocery_items db)\<rparr>"
  by (auto simp: delete_grocery_item_def and_then_Inr split: option.splits if_splits)

lemma household_people: "household_ok (db\<lparr>people := c\<rparr>) = household_ok db"
  by (simp add: household_ok_def)

lemma perform_keeps:
  assumes r: "rounding_ok env" and ok: "household_ok db" and f: "unused (c_fresh c) db"
  shows "household_ok (perform nenv env c q db)"
proof (cases q)
  case (Create_stock b)
  have "household_ok db'" if cr: "create_stock_item db (c_now c) (c_today c) (c_user c) (c_group c) (c_fresh c 0) b = Inr (res, db')" for res db'
  proof -
    have new: "c_fresh c 0 \<notin> st_id ` set (stock_items db)" "c_fresh c 0 \<notin> gr_id ` set (grocery_items db)" using f by (auto simp: unused_def)
    obtain r where k: "db' = db\<lparr>stock_items := stock_items db @ [r]\<rparr>" "st_id r = c_fresh c 0" using create_effect [OF cr] by blast
    moreover have "stock_ok (stock_items db')" using create_ok [OF cr new(1)] ok by (simp add: household_ok_def)
    ultimately have k: "stock_ok (stock_items db')" "db' = db\<lparr>stock_items := stock_items db @ [r]\<rparr>" "st_id r = c_fresh c 0" by auto
    then show ?thesis using ok new(2) by (auto simp: household_ok_def)
  qed
  then show ?thesis unfolding perform_def Let_def Create_stock household_request.case by (intro committed_ok [OF ok]) auto
next
  case (Update_stock i b)
  have "household_ok db'" if u: "update_stock_item db (c_now c) (c_today c) (c_user c) (c_group c) i b = Inr (res, db')" for res db'
  proof -
    obtain x where x: "stock_item db (c_group c) i = Some x" "db' = db\<lparr>stock_items := set_row (c_group c) i (updated_row (c_now c) b x) (stock_items db)\<rparr>"
      using u unfolding update_Inr by blast
    have "st_id (updated_row (c_now c) b x) = i" using item_found [OF x(1)] by (simp add: updated_row_def)
    then show ?thesis using update_ok [OF u] ok set_row_ids [of "updated_row (c_now c) b x" i "c_group c" "stock_items db"]
      unfolding x(2) household_ok_def by auto
  qed
  then show ?thesis unfolding perform_def Let_def Update_stock household_request.case by (intro committed_ok [OF ok]) auto
next
  case (Delete_stock i)
  show ?thesis using delete_keeps(2) [OF ok] unfolding perform_def Let_def Delete_stock household_request.case
    by (intro committed_ok [OF ok]) (auto simp: delete_Inr)
next
  case (Receive_lot items)
  show ?thesis using receive_keeps [OF r ok f] unfolding perform_def Let_def Receive_lot household_request.case by (intro committed_ok [OF ok]) auto
next
  case (Create_grocery author b)
  have "household_ok db'" if g: "create_grocery_item nenv db (c_now c) (c_user c) author (c_group c) (c_fresh c 0) (\<lambda>n. c_fresh c (Suc n)) b = Inr (res, db')" for res db'
  proof -
    obtain p where p: "db' = db\<lparr>people := p, grocery_items := grocery_items db @ [res]\<rparr>" "gr_id res = c_fresh c 0" "gr_quantity res \<noteq> None \<longrightarrow> gr_unit res \<noteq> None"
      using create_grocery_Inr [OF g] by blast
    have "household_ok (db\<lparr>grocery_items := grocery_items db @ [res]\<rparr>)"
      using append_keeps [OF ok f, of "[res]"] p(2,3) by simp
    then show ?thesis by (simp add: p(1) household_ok_def)
  qed
  then show ?thesis unfolding perform_def Let_def Create_grocery household_request.case by (intro committed_ok [OF ok]) auto
next
  case (Check_grocery i checked)
  have "household_ok db'" if "check_grocery_item db (c_now c) (c_user c) (c_group c) i checked = Inr (res, db')" for res db'
    using check_grocery_effect [OF that] by (auto intro!: set_grocery_keeps ok)
  then show ?thesis unfolding perform_def Let_def Check_grocery household_request.case by (intro committed_ok [OF ok]) auto
next
  case (Update_grocery i b)
  have "household_ok db'" if "update_grocery_item db (c_now c) (c_user c) (c_group c) i b = Inr (res, db')" for res db'
    using update_grocery_effect [OF that] by (auto intro!: set_grocery_keeps ok simp: grocery_unit_some)
  then show ?thesis unfolding perform_def Let_def Update_grocery household_request.case by (intro committed_ok [OF ok]) auto
next
  case (Delete_grocery i)
  have "household_ok db'" if "delete_grocery_item db (c_user c) (c_group c) i = Inr db'" for db'
    using delete_grocery_effect [OF that] delete_keeps(1) [OF ok] by auto
  then show ?thesis unfolding perform_def Let_def Delete_grocery household_request.case by (intro committed_ok [OF ok]) auto
next
  case Generate_list
  show ?thesis using generate_keeps [OF ok f] unfolding perform_def Let_def Generate_list household_request.case by (intro committed_ok [OF ok]) auto
next
  case (Add_missing recipe)
  show ?thesis using missing_keeps [OF ok f] unfolding perform_def Let_def Add_missing household_request.case by (intro committed_ok [OF ok]) auto
qed

lemma bounded_rows:
  assumes "household_ok db" "r \<in> set (stock_items db)"
  shows "\<exists>q. st_quantity r = Fin q \<and> 0 \<le> q \<and> q \<le> 1000000000"
proof -
  have "in_bounds (st_quantity r)" using assms by (simp add: household_ok_def stock_ok_def row_ok_def)
  then show ?thesis by (cases "st_quantity r") (simp_all add: in_bounds_def)
qed

text \<open>
  C34. Whatever sequence of requests families make on their stock and their lists, starting from
  tables that are in order, they stay in order: identifiers are unique, every quantity stored in
  the stock is a number between zero and a billion (a merge cannot carry one past the bound
  through rounding), the names and units of the stock are trimmed and not empty, its codes are
  valid and unique in their family, and a line of a list with a quantity has a unit. The names and
  quantities of a list are under no such bound.
\<close>

theorem requests_keep_the_household:
  "reaches nenv env db db' \<Longrightarrow> rounding_ok env \<Longrightarrow> household_ok db \<Longrightarrow>
   household_ok db' \<and> (\<forall>r \<in> set (stock_items db'). \<exists>q. st_quantity r = Fin q \<and> 0 \<le> q \<and> q \<le> 1000000000)"
proof (induction rule: reaches.induct)
  case start
  then show ?case using bounded_rows by blast
next
  case (request db' c q)
  then have "household_ok (perform nenv env c q db')" using perform_keeps by blast
  then show ?case using bounded_rows by blast
qed

section \<open>Rights\<close>

text \<open>
  What a request leaves of the rows of a family: a stock row keeps all but its quantity, a row of
  the list all but its being checked, unless the caller may modify it or receives it.
\<close>

definition same_article :: "stock_row \<Rightarrow> stock_row \<Rightarrow> bool" where
  "same_article r r' \<longleftrightarrow> r' = r\<lparr>st_quantity := st_quantity r', st_updated_at := st_updated_at r'\<rparr>"

definition same_item :: "grocery_row \<Rightarrow> grocery_row \<Rightarrow> bool" where
  "same_item r r' \<longleftrightarrow> r' = r\<lparr>gr_checked := gr_checked r', gr_updated_at := gr_updated_at r'\<rparr>"

definition rights_by_role :: "caller \<Rightarrow> household_request \<Rightarrow> household \<Rightarrow> household \<Rightarrow> bool" where
  "rights_by_role c q db db' \<longleftrightarrow>
     ((\<forall>r. require_role db (c_group c) (c_user c) \<noteq> Inr r) \<longrightarrow> db' = db)
     \<and> (\<forall>g. g \<noteq> c_group c \<longrightarrow> of_group db' g = of_group db g
          \<and> filter (\<lambda>r. gr_group r = g) (grocery_items db') = filter (\<lambda>r. gr_group r = g) (grocery_items db))
     \<and> (require_role db (c_group c) (c_user c) = Inr Member \<longrightarrow>
          (\<forall>r \<in> set (stock_items db). st_created_by r \<noteq> c_user c \<longrightarrow> (\<exists>r' \<in> set (stock_items db'). same_article r r'))
          \<and> (\<forall>r \<in> set (grocery_items db). gr_created_by r \<noteq> c_user c \<longrightarrow>
               (\<exists>r' \<in> set (grocery_items db'). same_item r r')
               \<or> (\<exists>items. q = Receive_lot items \<and> gr_id r \<in> rv_id ` set items)))
     \<and> selection_rows db' = selection_rows db \<and> recipe_rows db' = recipe_rows db \<and> ingredient_rows db' = ingredient_rows db
     \<and> memberships (people db') = memberships (people db)"

lemma same_refl [simp]: "same_article r r" "same_item x x"
  by (simp_all add: same_article_def same_item_def)

lemma kept [intro]: "r \<in> A \<Longrightarrow> \<exists>r' \<in> A. same_article r r'" "x \<in> B \<Longrightarrow> \<exists>x' \<in> B. same_item x x'"
  by (rule bexI [of _ r], auto) (rule bexI [of _ x], auto)

lemma no_change: "rights_by_role c q db db"
  unfolding rights_by_role_def by auto

lemma committed_rights:
  "(\<And>x. r = Inr x \<Longrightarrow> rights_by_role c q db (f x)) \<Longrightarrow> rights_by_role c q db (committed db f r)"
  by (cases r) (simp_all add: committed_def no_change)

text \<open>Rows of the list added for the family by a member.\<close>

lemma added_rights:
  assumes "\<exists>x. require_role db (c_group c) (c_user c) = Inr x" "\<forall>r \<in> set created. gr_group r = c_group c" "memberships p = memberships (people db)"
  shows "rights_by_role c q db (db\<lparr>people := p, grocery_items := grocery_items db @ created\<rparr>)"
  using assms unfolding rights_by_role_def of_group_def by (auto simp: filter_empty_conv)

lemma set_grocery_rights:
  assumes "\<exists>x. require_role db (c_group c) (c_user c) = Inr x" "\<And>r. gr_group (f r) = gr_group r"
    and "\<And>r. r \<in> set (grocery_items db) \<Longrightarrow> gr_id r = i \<Longrightarrow> gr_group r = c_group c \<Longrightarrow> gr_created_by r \<noteq> c_user c \<Longrightarrow>
      require_role db (c_group c) (c_user c) = Inr Member \<Longrightarrow> same_item r (f r)"
  shows "rights_by_role c q db (set_grocery (c_group c) i f db)"
proof -
  let ?h = "\<lambda>r. if gr_id r = i \<and> gr_group r = c_group c then f r else r"
  have "filter (\<lambda>r. gr_group r = g) (map ?h rows) = filter (\<lambda>r. gr_group r = g) rows" if "g \<noteq> c_group c" for g rows
    using that assms(2) by (induction rows) auto
  moreover have "\<exists>r' \<in> set (map ?h (grocery_items db)). same_item r r'"
    if "r \<in> set (grocery_items db)" "gr_created_by r \<noteq> c_user c" "require_role db (c_group c) (c_user c) = Inr Member" for r
    using that assms(3) [of r] by (intro bexI [of _ "?h r"]) auto
  ultimately show ?thesis using assms(1) unfolding rights_by_role_def set_grocery_def of_group_def by auto
qed

lemma not_modifiable: "can_modify Member b \<longleftrightarrow> b"
  by (simp add: can_modify_def)

lemma receive_rights:
  assumes ok: "household_ok db" and f: "unused (c_fresh c) db"
    and x: "receive env (\<lambda>stock. stock) db (c_now c) (c_today c) (c_user c) (c_group c) (c_fresh c) items = Inr (shown, db')"
  shows "rights_by_role c (Receive_lot items) db db'"
proof -
  let ?g = "c_group c"
  have d: "distinct (map st_id (stock_items db))" using ok by (simp add: household_ok_def stock_ok_def)
  have fr: "fresh_ids (c_fresh c) (stock_items db)" "fresh_ids (c_fresh c) (of_group db ?g)"
    and ap: "st_id ` set (of_group db ?g) \<inter> gr_id ` set (grocery_items db) = {}"
    using f ok by (auto simp: fresh_ids_def unused_def of_group_def household_ok_def)
  obtain ls ts where e: "stock_items db' = landed_stock env (c_now c) (c_user c) ?g (c_fresh c) ls ts (stock_items db) (length ls)"
    "db' = db\<lparr>stock_items := stock_items db', grocery_items := filter (\<lambda>r. \<not> (gr_group r = ?g \<and> gr_id r \<in> rv_id ` set items)) (grocery_items db)\<rparr>"
    using reception_result [OF x d fr ap] by blast
  let ?adds = "merges (c_fresh c) ls ts (length ls)"
  have other: "credited env (c_now c) ?g ?adds r = r" if "st_group r \<noteq> ?g" for r
  proof -
    have "filter (\<lambda>(i, q). is_row ?g i r) ?adds = []" using that by (auto simp: filter_empty_conv is_row_def)
    then show ?thesis by (simp add: credited_def)
  qed
  have rows: "filter (\<lambda>r. st_group r = g) (stock_items db') = filter (\<lambda>r. st_group r = g) (stock_items db)" if g: "g \<noteq> ?g" for g
  proof -
    have "filter (\<lambda>r. st_group r = g) (map (credited env (c_now c) ?g ?adds) rows) = filter (\<lambda>r. st_group r = g) rows" for rows
      using g other by (induction rows) auto
    moreover have "filter (\<lambda>r. st_group r = g) (openings (c_now c) (c_user c) ?g (c_fresh c) ls ts (length ls)) = []"
      using g by (auto simp: filter_empty_conv openings_def new_row_def)
    ultimately show ?thesis unfolding e(1) landed_stock_def by (simp del: map_append add: filter_append)
  qed
  have same: "\<exists>r' \<in> set (stock_items db'). same_article r r'" if "r \<in> set (stock_items db)" for r
    unfolding e(1) landed_stock_def using that
    by (intro bexI [of _ "credited env (c_now c) ?g ?adds r"]) (auto simp: same_article_def credited_def Let_def)
  have member: "\<exists>x. require_role db ?g (c_user c) = Inr x" using x by (auto simp: receive_Inr)
  have g: "filter (\<lambda>r. gr_group r = g) (grocery_items db') = filter (\<lambda>r. gr_group r = g) (grocery_items db)" if "g \<noteq> ?g" for g
    by (subst e(2)) (use that in \<open>auto intro!: filter_cong\<close>)
  have l: "r \<in> set (grocery_items db') \<or> gr_id r \<in> rv_id ` set items" if "r \<in> set (grocery_items db)" for r
    by (subst e(2)) (use that in auto)
  have rest: "selection_rows db' = selection_rows db \<and> recipe_rows db' = recipe_rows db \<and> ingredient_rows db' = ingredient_rows db
      \<and> memberships (people db') = memberships (people db)" by (subst (1 2 3 4) e(2)) simp
  have items: "(\<exists>r' \<in> set (grocery_items db'). same_item r r') \<or> (\<exists>its. Receive_lot items = Receive_lot its \<and> gr_id r \<in> rv_id ` set its)"
    if "r \<in> set (grocery_items db)" for r using l [OF that] same_refl(2) by blast
  show ?thesis unfolding rights_by_role_def of_group_def using rows same member g rest items by (metis (no_types, lifting))
qed


lemma stock_rights:
  assumes "\<exists>x. require_role db (c_group c) (c_user c) = Inr x"
    and "\<And>g. g \<noteq> c_group c \<Longrightarrow> filter (\<lambda>r. st_group r = g) rows = filter (\<lambda>r. st_group r = g) (stock_items db)"
    and "\<And>r. require_role db (c_group c) (c_user c) = Inr Member \<Longrightarrow> r \<in> set (stock_items db) \<Longrightarrow> st_created_by r \<noteq> c_user c \<Longrightarrow>
      \<exists>r' \<in> set rows. same_article r r'"
  shows "rights_by_role c q db (db\<lparr>stock_items := rows\<rparr>)"
  using assms unfolding rights_by_role_def of_group_def by auto

lemma grocery_rights:
  assumes "\<exists>x. require_role db (c_group c) (c_user c) = Inr x"
    and "\<And>g. g \<noteq> c_group c \<Longrightarrow> filter (\<lambda>r. gr_group r = g) rows = filter (\<lambda>r. gr_group r = g) (grocery_items db)"
    and "\<And>r. require_role db (c_group c) (c_user c) = Inr Member \<Longrightarrow> r \<in> set (grocery_items db) \<Longrightarrow> gr_created_by r \<noteq> c_user c \<Longrightarrow>
      \<exists>r' \<in> set rows. same_item r r'"
  shows "rights_by_role c q db (db\<lparr>grocery_items := rows\<rparr>)"
  using assms unfolding rights_by_role_def of_group_def by auto

lemma only_one:
  assumes "distinct (map f xs)" "x \<in> set xs" "y \<in> set xs" "f x = f y"
  shows "x = y"
  using assms by (auto simp: distinct_map dest: inj_onD)

lemma grocery_found: "grocery_item db g i = Some r \<Longrightarrow> r \<in> set (grocery_items db) \<and> gr_id r = i \<and> gr_group r = g"
  by (auto simp: grocery_item_def find_Some_iff in_set_conv_nth)

lemma update_stock_rights:
  assumes ok: "household_ok db" and u: "update_stock_item db (c_now c) (c_today c) (c_user c) (c_group c) i b = Inr (res, db')"
  shows "rights_by_role c q db db'"
proof -
  let ?g = "c_group c"
  have d: "distinct (map st_id (stock_items db))" using ok by (simp add: household_ok_def stock_ok_def)
  obtain actor_role x where x: "require_role db ?g (c_user c) = Inr actor_role" "stock_item db ?g i = Some x"
    "touches_full_record b \<longrightarrow> can_modify actor_role (st_created_by x = c_user c)"
    "db' = db\<lparr>stock_items := set_row ?g i (updated_row (c_now c) b x) (stock_items db)\<rparr>"
    using u unfolding update_Inr by blast
  note f = item_found [OF x(2)]
  let ?h = "\<lambda>r. if st_id r = i \<and> st_group r = ?g then updated_row (c_now c) b x else r"
  have id: "st_group (updated_row (c_now c) b x) = ?g" using f by (simp add: updated_row_def)
  have "filter (\<lambda>r. st_group r = g) (map ?h rows) = filter (\<lambda>r. st_group r = g) rows" if "g \<noteq> ?g" for g rows
    using that id by (induction rows) auto
  moreover have "same_article r (?h r)"
    if r: "r \<in> set (stock_items db)" "st_created_by r \<noteq> c_user c" "require_role db ?g (c_user c) = Inr Member" for r
  proof (cases "st_id r = i \<and> st_group r = ?g")
    case True
    then have "r = x" using only_one [OF d r(1)] f by simp
    then have "\<not> touches_full_record b" using x(1,3) r by (simp add: not_modifiable)
    then have "same_article x (updated_row (c_now c) b x)"
      by (simp add: touches_full_record_def same_article_def updated_row_def given_or_def)
    then show ?thesis using True \<open>r = x\<close> by simp
  qed auto
  then have "\<exists>r' \<in> set (map ?h (stock_items db)). same_article r r'"
    if "r \<in> set (stock_items db)" "st_created_by r \<noteq> c_user c" "require_role db ?g (c_user c) = Inr Member" for r
    using that by (intro bexI [of _ "?h r"]) simp_all
  ultimately show ?thesis unfolding x(4) set_row_def using x(1) by (intro stock_rights) blast+
qed

lemma delete_stock_rights:
  assumes ok: "household_ok db" and u: "delete_stock_item db (c_user c) (c_group c) i = Inr db'"
  shows "rights_by_role c q db db'"
proof -
  let ?g = "c_group c"
  have d: "distinct (map st_id (stock_items db))" using ok by (simp add: household_ok_def stock_ok_def)
  obtain actor_role x where x: "require_role db ?g (c_user c) = Inr actor_role" "stock_item db ?g i = Some x"
    "can_modify actor_role (st_created_by x = c_user c)"
    "db' = db\<lparr>stock_items := filter (\<lambda>r. \<not> (st_id r = i \<and> st_group r = ?g)) (stock_items db)\<rparr>"
    using u unfolding delete_Inr by blast
  note f = item_found [OF x(2)]
  have "\<not> (st_id r = i \<and> st_group r = ?g)"
    if r: "r \<in> set (stock_items db)" "st_created_by r \<noteq> c_user c" "require_role db ?g (c_user c) = Inr Member" for r
    using only_one [OF d r(1)] f x(1,3) r(2,3) by (auto simp: not_modifiable)
  then show ?thesis unfolding x(4) by (intro stock_rights) (use x(1) in \<open>auto intro: filter_cong\<close>)
qed

lemma update_grocery_rights:
  assumes ok: "household_ok db" and u: "update_grocery_item db (c_now c) (c_user c) (c_group c) i b = Inr (res, db')"
  shows "rights_by_role c q db db'"
proof -
  have d: "distinct (map gr_id (grocery_items db))" using ok by (simp add: household_ok_def groceries_ok_def)
  obtain actor_role x n k v where x: "require_role db (c_group c) (c_user c) = Inr actor_role" "grocery_item db (c_group c) i = Some x"
    "can_modify actor_role (gr_created_by x = c_user c)"
    "db' = set_grocery (c_group c) i (\<lambda>r. r\<lparr>gr_name := given_or n (gr_name r), gr_quantity := k, gr_unit := grocery_unit k v, gr_updated_at := c_now c\<rparr>) db"
    using update_grocery_effect [OF u] by blast
  have "gr_created_by r = c_user c" if "r \<in> set (grocery_items db)" "gr_id r = i" "require_role db (c_group c) (c_user c) = Inr Member" for r
    using only_one [OF d that(1), of x] grocery_found [OF x(2)] x(1,3) that(2,3) by (auto simp: not_modifiable)
  then show ?thesis unfolding x(4) by (intro set_grocery_rights) (use x(1) in auto)
qed

lemma delete_grocery_rights:
  assumes ok: "household_ok db" and u: "delete_grocery_item db (c_user c) (c_group c) i = Inr db'"
  shows "rights_by_role c q db db'"
proof -
  let ?g = "c_group c"
  have d: "distinct (map gr_id (grocery_items db))" using ok by (simp add: household_ok_def groceries_ok_def)
  obtain actor_role x where x: "require_role db ?g (c_user c) = Inr actor_role" "grocery_item db ?g i = Some x"
    "can_modify actor_role (gr_created_by x = c_user c)"
    "db' = db\<lparr>grocery_items := filter (\<lambda>r. \<not> (gr_id r = i \<and> gr_group r = ?g)) (grocery_items db)\<rparr>"
    using delete_grocery_effect [OF u] by blast
  have "\<not> (gr_id r = i \<and> gr_group r = ?g)"
    if r: "r \<in> set (grocery_items db)" "gr_created_by r \<noteq> c_user c" "require_role db ?g (c_user c) = Inr Member" for r
    using only_one [OF d r(1)] grocery_found [OF x(2)] x(1,3) r(2,3) by (auto simp: not_modifiable)
  then show ?thesis unfolding x(4) by (intro grocery_rights) (use x(1) in \<open>auto intro: filter_cong\<close>)
qed


lemma generate_rights:
  assumes x: "generate_grocery_items env db now (c_user c) (c_group c) fresh = Inr (created, db')"
  shows "rights_by_role c q db db'"
proof -
  obtain bar where r: "require_role db (c_group c) (c_user c) = Inr bar" using x by (auto simp: generate_grocery_items_def and_then_Inr)
  obtain new where "db' = db\<lparr>grocery_items := grocery_items db @ new\<rparr>" "\<forall>r \<in> set new. gr_group r = c_group c"
    using generated [OF r, of env now fresh] x by auto
  then show ?thesis using added_rights [of db c new "people db"] r by simp
qed

lemma missing_rights:
  assumes x: "add_missing_grocery_items env db now today (c_user c) (c_group c) recipe fresh = Inr (created, db')"
  shows "rights_by_role c q db db'"
proof -
  obtain bar where r: "require_role db (c_group c) (c_user c) = Inr bar" using x by (auto simp: add_missing_grocery_items_def and_then_Inr)
  let ?l = "concat (map av_missing (planned_availability env db (c_group c) (Some recipe) today))"
  obtain seen new where one: "insert_unseen (\<lambda>l. article_key env (ln_name l)) (planned_item now (c_user c) (c_group c)) fresh ?l
      (unchecked_keys env db (c_group c), []) = (seen, new)" by force
  have "db' = db\<lparr>grocery_items := grocery_items db @ new\<rparr>"
    using x by (auto simp: add_missing_grocery_items_def and_then_Inr Let_def one split: if_splits)
  moreover have "\<forall>r \<in> set new. gr_group r = c_group c" using insert_unseen_from [OF one] by (fastforce simp: planned_item_def)
  ultimately show ?thesis using added_rights [of db c new "people db"] r by simp
qed

lemma perform_rights:
  assumes ok: "household_ok db" and f: "unused (c_fresh c) db"
  shows "rights_by_role c q db (perform nenv env c q db)"
proof (cases q)
  case (Create_stock b)
  have "rights_by_role c q db db'" if "create_stock_item db (c_now c) (c_today c) (c_user c) (c_group c) (c_fresh c 0) b = Inr (res, db')" for res db'
    using create_effect [OF that] by (auto intro!: stock_rights)
  then show ?thesis unfolding perform_def Let_def Create_stock household_request.case by (intro committed_rights) auto
next
  case (Update_stock i b)
  show ?thesis using update_stock_rights [OF ok] unfolding perform_def Let_def Update_stock household_request.case by (intro committed_rights) auto
next
  case (Delete_stock i)
  show ?thesis using delete_stock_rights [OF ok] unfolding perform_def Let_def Delete_stock household_request.case by (intro committed_rights) auto
next
  case (Receive_lot items)
  show ?thesis using receive_rights [OF ok f] unfolding perform_def Let_def Receive_lot household_request.case by (intro committed_rights) auto
next
  case (Create_grocery author b)
  have "rights_by_role c q db db'"
    if g: "create_grocery_item nenv db (c_now c) (c_user c) author (c_group c) (c_fresh c 0) (\<lambda>n. c_fresh c (Suc n)) b = Inr (res, db')" for res db'
    using create_grocery_Inr [OF g] added_rights [of db c "[res]"] by auto
  then show ?thesis unfolding perform_def Let_def Create_grocery household_request.case by (intro committed_rights) auto
next
  case (Check_grocery i checked)
  have "rights_by_role c q db db'" if "check_grocery_item db (c_now c) (c_user c) (c_group c) i checked = Inr (res, db')" for res db'
    using check_grocery_effect [OF that] by (auto intro!: set_grocery_rights simp: same_item_def)
  then show ?thesis unfolding perform_def Let_def Check_grocery household_request.case by (intro committed_rights) auto
next
  case (Update_grocery i b)
  show ?thesis using update_grocery_rights [OF ok] unfolding perform_def Let_def Update_grocery household_request.case by (intro committed_rights) auto
next
  case (Delete_grocery i)
  show ?thesis using delete_grocery_rights [OF ok] unfolding perform_def Let_def Delete_grocery household_request.case by (intro committed_rights) auto
next
  case Generate_list
  show ?thesis using generate_rights unfolding perform_def Let_def Generate_list household_request.case by (intro committed_rights) auto
next
  case (Add_missing recipe)
  show ?thesis using missing_rights unfolding perform_def Let_def Add_missing household_request.case by (intro committed_rights) auto
qed

text \<open>
  The same, with the caller read off the members' table: an outsider has no row in the family,
  a plain member has, and only with that role.
\<close>

definition within_rights :: "caller \<Rightarrow> household_request \<Rightarrow> household \<Rightarrow> household \<Rightarrow> bool" where
  "within_rights c q db db' \<longleftrightarrow>
     (let own = {m \<in> set (memberships (people db)). mb_group m = c_group c \<and> mb_user m = c_user c}
      in (own = {} \<longrightarrow> db' = db)
       \<and> (\<forall>g. g \<noteq> c_group c \<longrightarrow>
            filter (\<lambda>r. st_group r = g) (stock_items db') = filter (\<lambda>r. st_group r = g) (stock_items db)
            \<and> filter (\<lambda>r. gr_group r = g) (grocery_items db') = filter (\<lambda>r. gr_group r = g) (grocery_items db))
       \<and> (own \<noteq> {} \<and> (\<forall>m \<in> own. mb_role m = Member) \<longrightarrow>
            (\<forall>r \<in> set (stock_items db). st_created_by r \<noteq> c_user c \<longrightarrow> (\<exists>r' \<in> set (stock_items db'). same_article r r'))
            \<and> (\<forall>r \<in> set (grocery_items db). gr_created_by r \<noteq> c_user c \<longrightarrow>
                 (\<exists>r' \<in> set (grocery_items db'). same_item r r')
                 \<or> (\<exists>items. q = Receive_lot items \<and> gr_id r \<in> rv_id ` set items)))
       \<and> selection_rows db' = selection_rows db \<and> recipe_rows db' = recipe_rows db \<and> ingredient_rows db' = ingredient_rows db
       \<and> memberships (people db') = memberships (people db))"

lemma role_of_rows:
  "(\<forall>r. require_role db g u \<noteq> Inr r) \<longleftrightarrow> {m \<in> set (memberships (people db)). mb_group m = g \<and> mb_user m = u} = {}"
  "require_role db g u = Inr r \<Longrightarrow> \<exists>m \<in> set (memberships (people db)). mb_group m = g \<and> mb_user m = u \<and> mb_role m = r"
  by (auto simp: require_role_def find_None_iff find_Some_iff split: option.splits)

lemma rights_of_rows: "rights_by_role c q db db' \<Longrightarrow> within_rights c q db db'"
proof -
  assume r: "rights_by_role c q db db'"
  let ?own = "{m \<in> set (memberships (people db)). mb_group m = c_group c \<and> mb_user m = c_user c}"
  have role: "require_role db (c_group c) (c_user c) = Inr Member" if "?own \<noteq> {}" "\<forall>m \<in> ?own. mb_role m = Member"
  proof -
    have "\<exists>x. require_role db (c_group c) (c_user c) = Inr x" using that(1) unfolding role_of_rows(1) [symmetric] by simp
    then obtain x where x: "require_role db (c_group c) (c_user c) = Inr x" ..
    from role_of_rows(2) [OF x] that(2) have "x = Member" by blast
    with x show ?thesis by simp
  qed
  show ?thesis
    using r unfolding within_rights_def rights_by_role_def of_group_def Let_def role_of_rows(1)
    by (elim conjE, intro conjI) (assumption | (rule impI, elim conjE, drule (1) role, drule (1) mp, elim conjE, intro conjI, assumption+))+
qed

text \<open>
  C35. A request changes nothing when its author has no row among the members of the family it
  names, never touches the rows of another family, and when the author is a plain member there
  leaves the articles others created as they are but for their quantity, and the lines others
  wrote on the list but for their being checked or received with a lot; recipes, selections and
  memberships never change.
\<close>

theorem members_keep_to_their_rights:
  assumes ok: "household_ok db" and f: "unused (c_fresh c) db"
  shows "within_rights c q db (perform nenv env c q db)"
  by (rule rights_of_rows [OF perform_rights [OF ok f]])

section \<open>Concrete requests\<close>

text \<open>A rounding to the multiples of \<open>2 ^ (-23)\<close>, ties towards the lower one.\<close>

definition coarse_kitchen :: kitchen_env where
  "coarse_kitchen = plain_kitchen\<lparr>fl := \<lambda>x. of_int \<lceil>x * 8388608 - 1 / 2\<rceil> / 8388608\<rparr>"

lemma coarse_rounding: "rounding_ok coarse_kitchen"
proof -
  have "\<bar>of_int \<lceil>x * 8388608 - 1 / 2\<rceil> / 8388608 - x\<bar> \<le> 1 / 2 ^ 24" for x :: quantity
  proof -
    have "x * 8388608 - 1 / 2 \<le> of_int \<lceil>x * 8388608 - 1 / 2\<rceil>" "of_int \<lceil>x * 8388608 - 1 / 2\<rceil> < x * 8388608 - 1 / 2 + 1"
      by linarith+
    moreover have "\<bar>z / 8388608 - x\<bar> \<le> 1 / 2 ^ 24" if "x * 8388608 - 1 / 2 \<le> z" "z < x * 8388608 - 1 / 2 + 1" for z
      using that unfolding abs_le_iff by (simp add: field_simps)
    ultimately show ?thesis by blast
  qed
  moreover have "of_int \<lceil>a * 8388608 - 1 / 2\<rceil> / 8388608 \<le> (of_int \<lceil>b * 8388608 - 1 / 2\<rceil> / 8388608 :: quantity)" if "a \<le> b" for a b :: quantity
    using that by (simp add: divide_right_mono ceiling_mono)
  moreover have "\<lceil>(1000000000 + 1 / 2 ^ 24) * 8388608 - 1 / 2 :: quantity\<rceil> = 8388608000000000" by (simp add: ceiling_eq_iff)
  moreover have "\<lceil>- (1 / 2 :: quantity)\<rceil> = 0" by (simp add: ceiling_eq_iff)
  ultimately show ?thesis by (simp add: rounding_ok_def coarse_kitchen_def)
qed


definition more_milk :: household_request where
  "more_milk = Update_stock 7 \<lparr>us_name = None, us_category = None, us_quantity = Some (Fin 999999999), us_unit = None,
     us_threshold = None, us_expires_on = None\<rparr>"

definition member :: caller where
  "member = \<lparr>c_user = 2, c_group = 10, c_now = 7, c_today = 100, c_fresh = \<lambda>i. 500 + i\<rparr>"

lemma small_household: "household_ok small_house" "unused (c_fresh member) small_house"
  using small_house_ok by (auto simp: household_ok_def groceries_ok_def small_house_def unused_def member_def milk_def rice_def inj_def)

lemma more_milk_done: "\<exists>r \<in> set (stock_items (perform nenv env member more_milk small_house)). st_id r = 7 \<and> st_quantity r = Fin 999999999"
proof -
  have i: "stock_item small_house 10 7 = Some milk" by (simp add: stock_item_def small_house_def milk_def rice_def)
  show ?thesis
    by (simp add: perform_def more_milk_def member_def Let_def committed_def update_stock_item_def small_house_member i touches_full_record_def
        given_or_def updated_row_def validate_request_def set_row_def del: One_nat_def)
       (simp add: small_house_def milk_def rice_def check_quantities_def MAX_QUANTITY_def)
qed

lemma requests_keep_the_household_witness:
  "\<exists>db. reaches plain_env coarse_kitchen small_house db \<and> household_ok db \<and> (\<exists>r \<in> set (stock_items db). st_quantity r = Fin 999999999)"
proof -
  have "reaches plain_env coarse_kitchen small_house (perform plain_env coarse_kitchen member more_milk small_house)"
    by (intro reaches.intros small_household)
  then show ?thesis
    using requests_keep_the_household [OF _ coarse_rounding small_household(1)] more_milk_done by blast
qed

lemma members_keep_to_their_rights_witness:
  "within_rights member more_milk small_house (perform plain_env plain_kitchen member more_milk small_house)
   \<and> within_rights member (Delete_stock 7) small_house (perform plain_env plain_kitchen member (Delete_stock 7) small_house)"
  using members_keep_to_their_rights [OF small_household] by blast

end
