(* ===== verification/Budget.thy ===== *)
theory Budget
  imports Reception
begin

text \<open>
  The budget of a family: the amounts, the caps and the months (\<open>apps/shared/src/validation/budget.rs\<close>),
  the categories and the caps (\<open>apps/api/src/budget/categories.rs\<close>), the alerts (\<open>alerts.rs\<close>) and the
  expenses with their monthly summary (\<open>entries.rs\<close>).

  Each request runs alone: every write of an expense that can cross a cap holds the lock of its
  family. What the extractor of \<open>axum\<close> made of a body is an argument, an error or a value. Years,
  months and the addition of a month are \<open>chrono\<close>'s, and the lower case of a name the database's:
  \<open>budget_env\<close>.
\<close>

section \<open>Amounts\<close>

record budget_env =
  kitchen :: kitchen_env
  notices :: notice_env
  ymd :: "date \<Rightarrow> int \<times> nat \<times> nat"
  ymd_opt :: "int \<Rightarrow> nat \<Rightarrow> nat \<Rightarrow> date option"
  plus_month :: "date \<Rightarrow> date option"
  minus_month :: "date \<Rightarrow> date option"
  sql_lower :: "utext \<Rightarrow> utext"

definition I64_MAX :: int where
  "I64_MAX = 2 ^ 63 - 1"

definition I64_MIN :: int where
  "I64_MIN = - (2 ^ 63)"

definition sat :: "int \<Rightarrow> int" where
  "sat x = max I64_MIN (min I64_MAX x)"

text \<open>\<open>f64::round\<close>, away from zero on a tie; \<open>as i64\<close> saturates.\<close>

definition round_away :: "quantity \<Rightarrow> int" where
  "round_away x = (if 0 \<le> x then \<lfloor>x + 1 / 2\<rfloor> else - \<lfloor>- x + 1 / 2\<rfloor>)"

datatype entry_form_error = Entry_name_required | Amount_negative | Amount_too_large

fun entry_form_code :: "entry_form_error \<Rightarrow> string" where
  "entry_form_code Entry_name_required = ''name_required''"
| "entry_form_code Amount_negative = ''amount_must_be_non_negative''"
| "entry_form_code Amount_too_large = ''amount_too_large''"

definition AMOUNT_MAX_EUROS :: int where
  "AMOUNT_MAX_EUROS = 10000000000"

definition bounded_cents :: "budget_env \<Rightarrow> quantity \<Rightarrow> int option" where
  "bounded_cents env amount =
     (let cents = round_away (fl (kitchen env) (amount * 100))
      in if cents > AMOUNT_MAX_EUROS * 100 then None else Some (sat cents))"

definition amount_to_cents :: "budget_env \<Rightarrow> f64 \<Rightarrow> entry_form_error + int" where
  "amount_to_cents env amount =
     (if \<not> is_finite amount \<or> f_less amount (Fin 0) then Inl Amount_negative
      else case bounded_cents env (value_of amount) of None \<Rightarrow> Inl Amount_too_large | Some c \<Rightarrow> Inr c)"

definition validate_entry_form :: "budget_env \<Rightarrow> utext \<Rightarrow> f64 \<Rightarrow> entry_form_error + unit" where
  "validate_entry_form env name amount =
     (if trim_text name = [] then Inl Entry_name_required
      else case amount_to_cents env amount of Inl e \<Rightarrow> Inl e | Inr c \<Rightarrow> Inr ())"

definition can_access_budget :: "role \<Rightarrow> bool" where
  "can_access_budget r \<longleftrightarrow> r = Owner \<or> r = Admin"

definition can_modify_entry :: "role \<Rightarrow> bool \<Rightarrow> bool" where
  "can_modify_entry r creator \<longleftrightarrow> creator \<or> r = Owner \<or> r = Admin"

definition cents_to_euros :: "budget_env \<Rightarrow> int \<Rightarrow> quantity" where
  "cents_to_euros env c = fl (kitchen env) (fl (kitchen env) (of_int c) / 100)"

definition remaining :: "budget_env \<Rightarrow> quantity \<Rightarrow> quantity \<Rightarrow> quantity" where
  "remaining env spent bnd =
     (let cents = (\<lambda>x. sat (round_away (fl (kitchen env) (x * 100))))
      in cents_to_euros env (cents bnd - cents spent))"

section \<open>Categories and caps\<close>

definition CATEGORY_NAME_MAX :: nat where
  "CATEGORY_NAME_MAX = 40"

definition CATEGORIES_MAX :: nat where
  "CATEGORIES_MAX = 30"

definition CATEGORY_COLORS :: "string list" where
  "CATEGORY_COLORS = [''blue'', ''violet'', ''green'', ''orange'', ''ochre'']"

datatype category_error = Name_required | Name_too_long | Invalid_color | Cap_not_positive | Cap_too_large

fun category_code :: "category_error \<Rightarrow> string" where
  "category_code Name_required = ''name_required''"
| "category_code Name_too_long = ''name_too_long''"
| "category_code Invalid_color = ''invalid_color''"
| "category_code Cap_not_positive = ''cap_must_be_positive''"
| "category_code Cap_too_large = ''amount_too_large''"

definition validate_category_name :: "utext \<Rightarrow> category_error + utext" where
  "validate_category_name name =
     (let name = trim_text name
      in if name = [] then Inl Name_required
         else if length name > CATEGORY_NAME_MAX then Inl Name_too_long
         else Inr name)"

definition is_category_color :: "string \<Rightarrow> bool" where
  "is_category_color color \<longleftrightarrow> color \<in> set CATEGORY_COLORS"

definition cap_to_cents :: "budget_env \<Rightarrow> f64 \<Rightarrow> category_error + int" where
  "cap_to_cents env amount =
     (if \<not> is_finite amount then Inl Cap_not_positive
      else case bounded_cents env (value_of amount) of
             None \<Rightarrow> Inl Cap_too_large
           | Some c \<Rightarrow> if c \<le> 0 then Inl Cap_not_positive else Inr c)"

record usage_of_cap =
  percent :: "int option"
  over_cap :: bool

text \<open>The \<open>/\<close> of \<open>i128\<close> rounds towards zero.\<close>

definition quot :: "int \<Rightarrow> int \<Rightarrow> int" where
  "quot a b = (if 0 \<le> a then a div b else - (- a div b))"

definition cap_usage :: "int \<Rightarrow> int option \<Rightarrow> usage_of_cap" where
  "cap_usage spent bnd =
     (case bnd of
        Some c \<Rightarrow>
          if c > 0
          then let p = quot (spent * 100) c
               in \<lparr>percent = Some (if I64_MIN \<le> p \<and> p \<le> I64_MAX then p else I64_MAX), over_cap = spent > c\<rparr>
          else \<lparr>percent = None, over_cap = False\<rparr>
      | None \<Rightarrow> \<lparr>percent = None, over_cap = False\<rparr>)"

section \<open>Months\<close>

definition parse_month :: "budget_env \<Rightarrow> string \<Rightarrow> date option" where
  "parse_month env s =
     (case split_once (CHR ''-'') s of
        None \<Rightarrow> None
      | Some (year, mon) \<Rightarrow>
          if length year \<noteq> 4 \<or> length mon \<noteq> 2 then None
          else if \<not> list_all is_digit (year @ mon) then None
          else ymd_opt env (int (digits_value year)) (digits_value mon) 1)"

text \<open>\<open>{:04}\<close> and \<open>{:02}\<close>; a negative year keeps its sign, counted in the width.\<close>

definition pad :: "nat \<Rightarrow> string \<Rightarrow> string" where
  "pad n s = replicate (n - length s) (CHR ''0'') @ s"

definition month_param :: "budget_env \<Rightarrow> date \<Rightarrow> string" where
  "month_param env d =
     (case ymd env d of (y, m, _) \<Rightarrow>
        (if 0 \<le> y then pad 4 (show_nat (nat y)) else CHR ''-'' # pad 3 (show_nat (nat (- y)))) @ [CHR ''-''] @ pad 2 (show_nat m))"

text \<open>\<open>with_day(1)\<close>.\<close>

definition first_of :: "budget_env \<Rightarrow> date \<Rightarrow> date" where
  "first_of env d = (case ymd env d of (_, _, n) \<Rightarrow> d - (int n - 1))"

definition previous_month :: "budget_env \<Rightarrow> date \<Rightarrow> date option" where
  "previous_month env d = minus_month env (first_of env d)"

definition next_month :: "budget_env \<Rightarrow> date \<Rightarrow> date option" where
  "next_month env d = plus_month env (first_of env d)"

definition in_month :: "budget_env \<Rightarrow> date \<Rightarrow> date \<Rightarrow> bool" where
  "in_month env d month \<longleftrightarrow> fst (ymd env d) = fst (ymd env month) \<and> fst (snd (ymd env d)) = fst (snd (ymd env month))"

section \<open>The tables\<close>

record entry_row =
  en_id :: uuid
  en_group :: uuid
  en_created_by :: uuid
  en_category :: "uuid option"
  en_paid_by :: "uuid option"
  en_name :: utext
  en_cents :: int
  en_spent_at :: date
  en_created_at :: instant
  en_updated_at :: instant

record category_row =
  ct_id :: uuid
  ct_group :: uuid
  ct_name :: utext
  ct_color :: string
  ct_cap :: "int option"
  ct_created_at :: instant
  ct_updated_at :: instant

record settings_row =
  bs_group :: uuid
  bs_cap :: "int option"
  bs_global :: bool
  bs_category :: bool

record alert_row =
  al_group :: uuid
  al_month :: date
  al_category :: "uuid option"
  al_percent :: int

record link_row =
  lk_entry :: uuid
  lk_item :: uuid
  lk_group :: uuid

record ledger =
  house :: household
  names :: "uuid \<Rightarrow> utext"
  expenses :: "entry_row list"
  categories :: "category_row list"
  budget_settings :: "settings_row list"
  sent_alerts :: "alert_row list"
  links :: "link_row list"

definition require_budget_access :: "ledger \<Rightarrow> uuid \<Rightarrow> uuid \<Rightarrow> api_error + role" where
  "require_budget_access db g user =
     and_then (require_role (house db) g user) (\<lambda>r. if \<not> can_access_budget r then Inl Not_found else Inr r)"


section \<open>The caps\<close>

text \<open>The row of the settings, written with its defaults on first use, and the lock of the family.\<close>

definition settings_of :: "ledger \<Rightarrow> uuid \<Rightarrow> settings_row option" where
  "settings_of db g = List.find (\<lambda>s. bs_group s = g) (budget_settings db)"

definition default_settings :: "uuid \<Rightarrow> settings_row" where
  "default_settings g = \<lparr>bs_group = g, bs_cap = None, bs_global = True, bs_category = True\<rparr>"

definition lock_settings :: "ledger \<Rightarrow> uuid \<Rightarrow> settings_row \<times> ledger" where
  "lock_settings db g =
     (case settings_of db g of
        Some s \<Rightarrow> (s, db)
      | None \<Rightarrow> (default_settings g, db\<lparr>budget_settings := budget_settings db @ [default_settings g]\<rparr>))"

definition lock_family :: "ledger \<Rightarrow> uuid \<Rightarrow> ledger" where
  "lock_family db g = snd (lock_settings db g)"

definition family_cap_cents :: "ledger \<Rightarrow> uuid \<Rightarrow> int option" where
  "family_cap_cents db g = (case settings_of db g of Some s \<Rightarrow> bs_cap s | None \<Rightarrow> None)"

definition set_settings :: "uuid \<Rightarrow> (settings_row \<Rightarrow> settings_row) \<Rightarrow> ledger \<Rightarrow> ledger" where
  "set_settings g f db = db\<lparr>budget_settings := map (\<lambda>s. if bs_group s = g then f s else s) (budget_settings (lock_family db g))\<rparr>"

definition category_refused :: "category_error + 'b \<Rightarrow> api_error + 'b" where
  "category_refused r = (case r of Inl e \<Rightarrow> Inl (Bad_request (category_code e)) | Inr x \<Rightarrow> Inr x)"

definition optional_cap :: "budget_env \<Rightarrow> f64 option \<Rightarrow> category_error + int option" where
  "optional_cap env bnd =
     (case bnd of None \<Rightarrow> Inr None | Some x \<Rightarrow> (case cap_to_cents env x of Inl e \<Rightarrow> Inl e | Inr c \<Rightarrow> Inr (Some c)))"

definition get_budget_settings :: "budget_env \<Rightarrow> ledger \<Rightarrow> uuid \<Rightarrow> uuid \<Rightarrow> api_error + quantity option" where
  "get_budget_settings env db user g =
     and_then (require_budget_access db g user) (\<lambda>_. Inr (map_option (cents_to_euros env) (family_cap_cents db g)))"

definition put_budget_settings ::
    "budget_env \<Rightarrow> ledger \<Rightarrow> uuid \<Rightarrow> uuid \<Rightarrow> api_error + f64 option \<Rightarrow> api_error + quantity option \<times> ledger" where
  "put_budget_settings env db user g b =
     and_then (require_budget_access db g user) (\<lambda>_.
     and_then b (\<lambda>bnd.
     and_then (category_refused (optional_cap env bnd)) (\<lambda>cents.
       Inr (map_option (cents_to_euros env) cents, set_settings g (\<lambda>s. s\<lparr>bs_cap := cents\<rparr>) db))))"

definition get_alert_settings :: "ledger \<Rightarrow> uuid \<Rightarrow> uuid \<Rightarrow> api_error + bool \<times> bool" where
  "get_alert_settings db user g =
     and_then (require_budget_access db g user) (\<lambda>_.
       Inr (case settings_of db g of Some s \<Rightarrow> (bs_global s, bs_category s) | None \<Rightarrow> (True, True)))"

definition patch_alert_settings ::
    "ledger \<Rightarrow> uuid \<Rightarrow> uuid \<Rightarrow> api_error + bool option \<times> bool option \<Rightarrow> api_error + (bool \<times> bool) \<times> ledger" where
  "patch_alert_settings db user g b =
     and_then (require_budget_access db g user) (\<lambda>_.
     and_then b (\<lambda>(global, by_cat).
       let db' = set_settings g (\<lambda>s. s\<lparr>bs_global := given_or global (bs_global s), bs_category := given_or by_cat (bs_category s)\<rparr>) db
       in Inr (case settings_of db' g of Some s \<Rightarrow> (bs_global s, bs_category s) | None \<Rightarrow> (True, True), db')))"

section \<open>The categories\<close>

definition valid_color :: "string \<Rightarrow> category_error + string" where
  "valid_color color = (if is_category_color color then Inr color else Inl Invalid_color)"

record shown_category =
  cv_row :: category_row
  cv_cap :: "quantity option"

definition category_shown :: "budget_env \<Rightarrow> category_row \<Rightarrow> shown_category" where
  "category_shown env r = \<lparr>cv_row = r, cv_cap = map_option (cents_to_euros env) (ct_cap r)\<rparr>"

definition categories_of :: "ledger \<Rightarrow> uuid \<Rightarrow> category_row list" where
  "categories_of db g = filter (\<lambda>c. ct_group c = g) (categories db)"

definition category_of :: "ledger \<Rightarrow> uuid \<Rightarrow> uuid \<Rightarrow> category_row option" where
  "category_of db g i = List.find (\<lambda>c. ct_id c = i \<and> ct_group c = g) (categories db)"

definition list_budget_categories :: "budget_env \<Rightarrow> ledger \<Rightarrow> uuid \<Rightarrow> uuid \<Rightarrow> api_error + shown_category list" where
  "list_budget_categories env db user g =
     and_then (require_budget_access db g user) (\<lambda>_.
       Inr (map (category_shown env)
         (sort_key (\<lambda>c. collate (kitchen env) (sql_lower env (ct_name c))) (categories_of db g))))"

text \<open>The unique index on the names of a family, whatever their case.\<close>

definition name_taken :: "budget_env \<Rightarrow> ledger \<Rightarrow> uuid \<Rightarrow> uuid \<Rightarrow> utext \<Rightarrow> bool" where
  "name_taken env db g i name \<longleftrightarrow>
     list_ex (\<lambda>c. ct_group c = g \<and> ct_id c \<noteq> i \<and> sql_lower env (ct_name c) = sql_lower env name) (categories db)"

record category_body =
  cb_name :: utext
  cb_color :: string
  cb_cap :: "f64 option"

definition create_budget_category ::
    "budget_env \<Rightarrow> ledger \<Rightarrow> instant \<Rightarrow> uuid \<Rightarrow> uuid \<Rightarrow> uuid \<Rightarrow> api_error + category_body \<Rightarrow> api_error + shown_category \<times> ledger" where
  "create_budget_category env db now user g new_id b =
     and_then (require_budget_access db g user) (\<lambda>_.
     and_then b (\<lambda>b.
     and_then (category_refused (validate_category_name (cb_name b))) (\<lambda>name.
     and_then (category_refused (valid_color (cb_color b))) (\<lambda>color.
     and_then (category_refused (optional_cap env (cb_cap b))) (\<lambda>bnd.
       let db = lock_family db g in
       if length (categories_of db g) \<ge> CATEGORIES_MAX then Inl (Conflict ''category_limit_reached'')
       else if name_taken env db g new_id name then Inl (Conflict ''category_name_taken'')
       else let r = \<lparr>ct_id = new_id, ct_group = g, ct_name = name, ct_color = color, ct_cap = bnd, ct_created_at = now, ct_updated_at = now\<rparr>
            in Inr (category_shown env r, db\<lparr>categories := categories db @ [r]\<rparr>))))))"

record category_patch =
  cp_name :: "utext option"
  cp_color :: "string option"
  cp_cap :: "f64 option option"

definition optionally :: "('a \<Rightarrow> 'e + 'b) \<Rightarrow> 'a option \<Rightarrow> 'e + 'b option" where
  "optionally f v = (case v of None \<Rightarrow> Inr None | Some x \<Rightarrow> (case f x of Inl e \<Rightarrow> Inl e | Inr y \<Rightarrow> Inr (Some y)))"

definition update_budget_category ::
    "budget_env \<Rightarrow> ledger \<Rightarrow> instant \<Rightarrow> uuid \<Rightarrow> uuid \<Rightarrow> uuid \<Rightarrow> api_error + category_patch \<Rightarrow> api_error + shown_category \<times> ledger" where
  "update_budget_category env db now user g i b =
     and_then (require_budget_access db g user) (\<lambda>_.
     and_then b (\<lambda>b.
     and_then (category_refused (optionally validate_category_name (cp_name b))) (\<lambda>name.
     and_then (category_refused (optionally valid_color (cp_color b))) (\<lambda>color.
     and_then (category_refused (optionally (optional_cap env) (cp_cap b))) (\<lambda>bnd.
       case category_of db g i of
         None \<Rightarrow> Inl Not_found
       | Some existing \<Rightarrow>
           let r = existing\<lparr>ct_name := given_or name (ct_name existing), ct_color := given_or color (ct_color existing),
                     ct_cap := given_or bnd (ct_cap existing), ct_updated_at := now\<rparr>
           in if name_taken env db g i (ct_name r) then Inl (Conflict ''category_name_taken'')
              else Inr (category_shown env r, db\<lparr>categories := map (\<lambda>c. if ct_id c = i \<and> ct_group c = g then r else c) (categories db)\<rparr>))))))"

text \<open>The keys of the expenses are \<open>ON DELETE SET NULL\<close>, those of the alerts \<open>ON DELETE CASCADE\<close>.\<close>

definition delete_budget_category :: "ledger \<Rightarrow> uuid \<Rightarrow> uuid \<Rightarrow> uuid \<Rightarrow> api_error + ledger" where
  "delete_budget_category db user g i =
     and_then (require_budget_access db g user) (\<lambda>_.
       case category_of db g i of
         None \<Rightarrow> Inl Not_found
       | Some existing \<Rightarrow>
           Inr (db\<lparr>categories := filter (\<lambda>c. \<not> (ct_id c = i \<and> ct_group c = g)) (categories db),
                   expenses := map (\<lambda>e. if en_group e = g \<and> en_category e = Some i then e\<lparr>en_category := None\<rparr> else e) (expenses db),
                   sent_alerts := filter (\<lambda>a. \<not> (al_group a = g \<and> al_category a = Some i)) (sent_alerts db)\<rparr>))"

section \<open>The alerts\<close>

datatype threshold = Eighty_percent | Cap_reached | Over_cap

fun threshold_percent :: "threshold \<Rightarrow> int" where
  "threshold_percent Eighty_percent = 80"
| "threshold_percent Cap_reached = 100"
| "threshold_percent Over_cap = 100"

fun reached :: "threshold \<Rightarrow> int \<Rightarrow> int \<Rightarrow> bool" where
  "reached Eighty_percent spent bnd = (spent * 100 \<ge> bnd * 80)"
| "reached Cap_reached spent bnd = (spent \<ge> bnd)"
| "reached Over_cap spent bnd = (spent > bnd)"

definition FAMILY_THRESHOLDS :: "threshold list" where
  "FAMILY_THRESHOLDS = [Eighty_percent, Cap_reached]"

definition CATEGORY_THRESHOLDS :: "threshold list" where
  "CATEGORY_THRESHOLDS = [Over_cap]"

definition crossed :: "threshold list \<Rightarrow> int \<Rightarrow> int \<Rightarrow> int option \<Rightarrow> threshold list" where
  "crossed ts before after bnd =
     (case bnd of
        Some c \<Rightarrow> if c > 0 then filter (\<lambda>t. \<not> reached t before c \<and> reached t after c) ts else []
      | None \<Rightarrow> [])"

text \<open>The \<open>SUM(..)::bigint\<close> of the database fails outside of its range.\<close>

definition sum_cents :: "entry_row list \<Rightarrow> api_error + int" where
  "sum_cents es = (let s = sum_list (map en_cents es) in if I64_MIN \<le> s \<and> s \<le> I64_MAX then Inr s else Inl Internal)"

definition spent_between :: "ledger \<Rightarrow> uuid \<Rightarrow> date \<Rightarrow> date \<Rightarrow> entry_row list" where
  "spent_between db g month next = filter (\<lambda>e. en_group e = g \<and> month \<le> en_spent_at e \<and> en_spent_at e < next) (expenses db)"

definition in_category :: "uuid option \<Rightarrow> entry_row list \<Rightarrow> entry_row list" where
  "in_category cat es = filter (\<lambda>e. cat \<noteq> None \<and> en_category e = cat) es"

definition totals :: "ledger \<Rightarrow> uuid \<Rightarrow> date \<Rightarrow> date \<Rightarrow> uuid option \<Rightarrow> api_error + int \<times> int" where
  "totals db g month next cat =
     (let es = spent_between db g month next
      in and_then (sum_cents es) (\<lambda>f. and_then (sum_cents (in_category cat es)) (\<lambda>c. Inr (f, c))))"

record month_watch =
  w_group :: uuid
  w_month :: date
  w_next :: date
  w_cap :: "int option"
  w_category :: "category_row option"
  w_before :: "int \<times> int"

definition watched_category :: "ledger \<Rightarrow> uuid \<Rightarrow> settings_row \<Rightarrow> uuid option \<Rightarrow> category_row option" where
  "watched_category db g s cat =
     (case cat of
        Some i \<Rightarrow>
          if bs_category s
          then (case category_of db g i of Some c \<Rightarrow> if ct_cap c = None then None else Some c | None \<Rightarrow> None)
          else None
      | None \<Rightarrow> None)"

definition watch :: "budget_env \<Rightarrow> date \<Rightarrow> ledger \<Rightarrow> uuid \<Rightarrow> date \<Rightarrow> uuid option \<Rightarrow> api_error + month_watch option \<times> ledger" where
  "watch env today db g spent_at cat =
     (if \<not> in_month env spent_at today then Inr (None, db)
      else
        let (s, db) = lock_settings db g;
            bnd = (if bs_global s then bs_cap s else None);
            cat = watched_category db g s cat
        in if bnd = None \<and> cat = None then Inr (None, db)
           else
             let month = first_of env spent_at
             in case plus_month env month of
                  None \<Rightarrow> Inl (Bad_request ''invalid_spent_at'')
                | Some next \<Rightarrow>
                    and_then (totals db g month next (map_option ct_id cat)) (\<lambda>before.
                      Inr (Some \<lparr>w_group = g, w_month = month, w_next = next, w_cap = bnd, w_category = cat, w_before = before\<rparr>, db)))"

definition alerted_members :: "ledger \<Rightarrow> uuid \<Rightarrow> uuid list" where
  "alerted_members db g =
     map mb_user (filter (\<lambda>m. mb_group m = g \<and> living (people (house db)) (mb_user m) \<and> can_access_budget (mb_role m))
       (memberships (people (house db))))"

definition alert_event :: "category_row option \<Rightarrow> threshold \<Rightarrow> event" where
  "alert_event cat t =
     (case cat of
        Some c \<Rightarrow> Category_cap_exceeded (ct_name c)
      | None \<Rightarrow> if t = Eighty_percent then Budget_cap_near else Budget_cap_reached)"

definition send_alert ::
    "budget_env \<Rightarrow> instant \<Rightarrow> (threshold \<Rightarrow> nat \<Rightarrow> uuid) \<Rightarrow> month_watch \<Rightarrow> category_row option \<Rightarrow> threshold \<Rightarrow> ledger \<Rightarrow>
     api_error + uuid list \<times> ledger" where
  "send_alert env now fresh w cat t db =
     (let a = \<lparr>al_group = w_group w, al_month = w_month w, al_category = map_option ct_id cat, al_percent = threshold_percent t\<rparr>
      in if a \<in> set (sent_alerts db) then Inr ([], db)
         else
           let recipients = alerted_members db (w_group w);
               n = \<lparr>new_group = w_group w, new_event = alert_event cat t, new_object = map_option ct_id cat,
                    new_actor = None, new_dedup = None\<rparr>
           in case insert_for (notices env) now (fresh t) recipients n (people (house db)) of
                (Inl e, c) \<Rightarrow> Inl Internal
              | (Inr written, c) \<Rightarrow>
                  Inr (recipients, db\<lparr>sent_alerts := sent_alerts db @ [a], house := (house db)\<lparr>people := c\<rparr>\<rparr>))"

fun send_alerts ::
    "budget_env \<Rightarrow> instant \<Rightarrow> (threshold \<Rightarrow> nat \<Rightarrow> uuid) \<Rightarrow> month_watch \<Rightarrow> category_row option \<Rightarrow> threshold list \<Rightarrow> ledger \<Rightarrow>
     api_error + uuid list \<times> ledger" where
  "send_alerts env now fresh w cat [] db = Inr ([], db)"
| "send_alerts env now fresh w cat (t # ts) db =
     and_then (send_alert env now fresh w cat t db) (\<lambda>(us, db).
     and_then (send_alerts env now fresh w cat ts db) (\<lambda>(vs, db). Inr (us @ vs, db)))"

definition fire ::
    "budget_env \<Rightarrow> instant \<Rightarrow> (threshold \<Rightarrow> nat \<Rightarrow> uuid) \<Rightarrow> month_watch \<Rightarrow> ledger \<Rightarrow> api_error + uuid list \<times> ledger" where
  "fire env now fresh w db =
     and_then (totals db (w_group w) (w_month w) (w_next w) (map_option ct_id (w_category w))) (\<lambda>(family, cat).
     and_then (send_alerts env now fresh w None (crossed FAMILY_THRESHOLDS (fst (w_before w)) family (w_cap w)) db) (\<lambda>(us, db).
     and_then
       (case w_category w of
          None \<Rightarrow> Inr ([], db)
        | Some c \<Rightarrow> send_alerts env now fresh w (Some c) (crossed CATEGORY_THRESHOLDS (snd (w_before w)) cat (ct_cap c)) db)
       (\<lambda>(vs, db). Inr (remdups_adj (sort (us @ vs)), db))))"

text \<open>What a handler does of a watch.\<close>

definition fire_if ::
    "budget_env \<Rightarrow> instant \<Rightarrow> (threshold \<Rightarrow> nat \<Rightarrow> uuid) \<Rightarrow> month_watch option \<Rightarrow> ledger \<Rightarrow> api_error + uuid list \<times> ledger" where
  "fire_if env now fresh w db = (case w of Some w \<Rightarrow> fire env now fresh w db | None \<Rightarrow> Inr ([], db))"


section \<open>The expenses\<close>

record entry_body =
  eb_name :: utext
  eb_amount :: f64
  eb_spent_at :: "date option"
  eb_item :: "uuid option"
  eb_items :: "uuid list"
  eb_category :: "uuid option"
  eb_paid_by :: "uuid option"

record entry_patch =
  ep_name :: "utext option"
  ep_amount :: "f64 option"
  ep_spent_at :: "date option"
  ep_category :: "uuid option option"
  ep_items :: "uuid list option"
  ep_paid_by :: "uuid option option"

record shown_entry =
  ev_row :: entry_row
  ev_amount :: quantity
  ev_items :: "(uuid \<times> utext) list"

definition to_cents :: "budget_env \<Rightarrow> f64 \<Rightarrow> api_error + int" where
  "to_cents env amount =
     (case amount_to_cents env amount of Inl e \<Rightarrow> Inl (Bad_request (entry_form_code e)) | Inr c \<Rightarrow> Inr c)"

definition GROCERY_ITEMS_MAX :: nat where
  "GROCERY_ITEMS_MAX = 100"

fun first_seen :: "uuid list \<Rightarrow> uuid list \<Rightarrow> uuid list" where
  "first_seen seen [] = []"
| "first_seen seen (i # rest) = (if i \<in> set seen then first_seen seen rest else i # first_seen (i # seen) rest)"

definition grocery_item_ids :: "uuid list \<Rightarrow> api_error + uuid list" where
  "grocery_item_ids named =
     (let ids = first_seen [] named
      in if length ids > GROCERY_ITEMS_MAX then Inl (Bad_request ''too_many_grocery_items'') else Inr ids)"

text \<open>The items an expense links to, by name.\<close>

definition linked_items :: "budget_env \<Rightarrow> ledger \<Rightarrow> uuid \<Rightarrow> uuid \<Rightarrow> (uuid \<times> utext) list" where
  "linked_items env db g entry =
     map (\<lambda>r. (gr_id r, gr_name r))
       (sort_key (\<lambda>r. (collate (kitchen env) (sql_lower env (gr_name r)), gr_id r))
         (filter (\<lambda>r. gr_group r = g \<and> list_ex (\<lambda>l. lk_group l = g \<and> lk_entry l = entry \<and> lk_item l = gr_id r) (links db))
           (grocery_items (house db))))"

definition entry_shown :: "budget_env \<Rightarrow> ledger \<Rightarrow> uuid \<Rightarrow> entry_row \<Rightarrow> shown_entry" where
  "entry_shown env db g r =
     \<lparr>ev_row = r, ev_amount = cents_to_euros env (en_cents r), ev_items = linked_items env db g (en_id r)\<rparr>"

definition set_links :: "uuid \<Rightarrow> uuid \<Rightarrow> uuid list \<Rightarrow> ledger \<Rightarrow> api_error + ledger" where
  "set_links g entry ids db =
     (let found = filter (\<lambda>r. gr_group r = g \<and> gr_id r \<in> set ids) (grocery_items (house db));
          kept = filter (\<lambda>l. \<not> (lk_group l = g \<and> lk_entry l = entry \<and> lk_item l \<notin> set ids)) (links db);
          fresh = filter (\<lambda>i. \<not> list_ex (\<lambda>l. lk_entry l = entry \<and> lk_item l = i) kept) ids
      in if length found \<noteq> length ids then Inl Not_found
         else if list_ex (\<lambda>l. lk_group l = g \<and> lk_item l \<in> set ids \<and> lk_entry l \<noteq> entry) (links db)
         then Inl (Conflict ''grocery_item_already_priced'')
         else Inr (db\<lparr>links := kept @ map (\<lambda>i. \<lparr>lk_entry = entry, lk_item = i, lk_group = g\<rparr>) fresh\<rparr>))"

definition require_category :: "ledger \<Rightarrow> uuid \<Rightarrow> uuid \<Rightarrow> api_error + unit" where
  "require_category db g i = (if category_of db g i = None then Inl Not_found else Inr ())"

definition require_payer :: "ledger \<Rightarrow> uuid \<Rightarrow> uuid \<Rightarrow> api_error + unit" where
  "require_payer db g user =
     (if list_ex (\<lambda>m. mb_group m = g \<and> mb_user m = user) (memberships (people (house db))) then Inr ()
      else Inl (Bad_request ''paid_by_not_a_member''))"

definition if_given :: "('a \<Rightarrow> api_error + unit) \<Rightarrow> 'a option \<Rightarrow> api_error + unit" where
  "if_given f v = (case v of Some x \<Rightarrow> f x | None \<Rightarrow> Inr ())"

definition entry_of :: "ledger \<Rightarrow> uuid \<Rightarrow> uuid \<Rightarrow> entry_row option" where
  "entry_of db g i = List.find (\<lambda>e. en_id e = i \<and> en_group e = g) (expenses db)"

definition set_entry :: "uuid \<Rightarrow> uuid \<Rightarrow> entry_row \<Rightarrow> ledger \<Rightarrow> ledger" where
  "set_entry g i r db = db\<lparr>expenses := map (\<lambda>e. if en_id e = i \<and> en_group e = g then r else e) (expenses db)\<rparr>"

definition create_budget_entry ::
    "budget_env \<Rightarrow> ledger \<Rightarrow> instant \<Rightarrow> date \<Rightarrow> uuid \<Rightarrow> uuid \<Rightarrow> uuid \<Rightarrow> (threshold \<Rightarrow> nat \<Rightarrow> uuid) \<Rightarrow> api_error + entry_body \<Rightarrow>
     api_error + shown_entry \<times> uuid list \<times> ledger" where
  "create_budget_entry env db now today user g new_id fresh b =
     and_then (require_budget_access db g user) (\<lambda>_.
     and_then b (\<lambda>b.
       if trim_text (eb_name b) = [] then Inl (Bad_request ''name_required'')
       else
         and_then (to_cents env (eb_amount b)) (\<lambda>cents.
         and_then (if_given (require_category db g) (eb_category b)) (\<lambda>_.
         and_then (if_given (require_payer db g) (eb_paid_by b)) (\<lambda>_.
         and_then (grocery_item_ids ((case eb_item b of Some i \<Rightarrow> [i] | None \<Rightarrow> []) @ eb_items b)) (\<lambda>ids.
           let db = (if ids \<noteq> [] then lock_family db g else db);
               spent_at = given_or (eb_spent_at b) today
           in and_then (watch env today db g spent_at (eb_category b)) (\<lambda>(w, db).
                let r = \<lparr>en_id = new_id, en_group = g, en_created_by = user, en_category = eb_category b, en_paid_by = eb_paid_by b,
                         en_name = trim_text (eb_name b), en_cents = cents, en_spent_at = spent_at, en_created_at = now, en_updated_at = now\<rparr>;
                    db = db\<lparr>expenses := expenses db @ [r]\<rparr>
                in and_then (if ids \<noteq> [] then set_links g new_id ids db else Inr db) (\<lambda>db.
                   and_then (fire_if env now fresh w db) (\<lambda>(alerted, db).
                     Inr (entry_shown env db g r, alerted, db))))))))))"

text \<open>The expense a price updates, and how many items it links to.\<close>

definition priced_by :: "ledger \<Rightarrow> uuid \<Rightarrow> uuid \<Rightarrow> entry_row option" where
  "priced_by db g item =
     List.find (\<lambda>e. en_group e = g \<and> list_ex (\<lambda>l. lk_group l = g \<and> lk_item l = item \<and> lk_entry l = en_id e) (links db)) (expenses db)"

definition link_count :: "ledger \<Rightarrow> entry_row \<Rightarrow> nat" where
  "link_count db e = length (filter (\<lambda>l. lk_entry l = en_id e \<and> lk_group l = en_group e) (links db))"

definition set_grocery_item_price ::
    "budget_env \<Rightarrow> ledger \<Rightarrow> instant \<Rightarrow> date \<Rightarrow> uuid \<Rightarrow> uuid \<Rightarrow> uuid \<Rightarrow> uuid \<Rightarrow> (threshold \<Rightarrow> nat \<Rightarrow> uuid) \<Rightarrow>
     api_error + f64 \<times> date option \<Rightarrow> api_error + shown_entry \<times> uuid list \<times> ledger" where
  "set_grocery_item_price env db now today user g item new_id fresh b =
     and_then (require_budget_access db g user) (\<lambda>_.
     and_then b (\<lambda>(amount, spent_at).
     and_then (to_cents env amount) (\<lambda>cents.
       let db = lock_family db g
       in case grocery_item (house db) g item of
            None \<Rightarrow> Inl Not_found
          | Some i \<Rightarrow>
              let existing = priced_by db g item
              in if (case existing of Some e \<Rightarrow> link_count db e > 1 | None \<Rightarrow> False)
                 then Inl (Conflict ''grocery_item_priced_with_others'')
                 else
                   let spent_at = given_or spent_at today
                   in and_then (watch env today db g spent_at (case existing of Some e \<Rightarrow> en_category e | None \<Rightarrow> None)) (\<lambda>(w, db).
                        let (r, db) = (case existing of
                              Some e \<Rightarrow>
                                let r = e\<lparr>en_name := gr_name i, en_cents := cents, en_spent_at := spent_at, en_updated_at := now\<rparr>
                                in (r, set_entry g (en_id e) r db)
                            | None \<Rightarrow>
                                let r = \<lparr>en_id = new_id, en_group = g, en_created_by = user, en_category = None, en_paid_by = None,
                                         en_name = gr_name i, en_cents = cents, en_spent_at = spent_at, en_created_at = now, en_updated_at = now\<rparr>
                                in (r, db\<lparr>expenses := expenses db @ [r],
                                          links := links db @ [\<lparr>lk_entry = new_id, lk_item = item, lk_group = g\<rparr>]\<rparr>))
                        in and_then (fire_if env now fresh w db) (\<lambda>(alerted, db). Inr (entry_shown env db g r, alerted, db))))))"

definition get_budget_entry :: "budget_env \<Rightarrow> ledger \<Rightarrow> uuid \<Rightarrow> uuid \<Rightarrow> uuid \<Rightarrow> api_error + shown_entry" where
  "get_budget_entry env db user g i =
     and_then (require_budget_access db g user) (\<lambda>_.
       case entry_of db g i of None \<Rightarrow> Inl Not_found | Some r \<Rightarrow> Inr (entry_shown env db g r))"

definition list_budget_entries :: "budget_env \<Rightarrow> ledger \<Rightarrow> uuid \<Rightarrow> uuid \<Rightarrow> api_error + shown_entry list" where
  "list_budget_entries env db user g =
     and_then (require_budget_access db g user) (\<lambda>_.
       Inr (map (entry_shown env db g)
         (sort_key (\<lambda>e. (- en_spent_at e, - en_created_at e)) (filter (\<lambda>e. en_group e = g) (expenses db)))))"

text \<open>A field of the patch that can be cleared: kept, cleared, or checked and set.\<close>

definition patched :: "('a \<Rightarrow> api_error + unit) \<Rightarrow> 'a option option \<Rightarrow> 'a option \<Rightarrow> api_error + 'a option" where
  "patched check v old =
     (case v of
        None \<Rightarrow> Inr old
      | Some None \<Rightarrow> Inr None
      | Some (Some x) \<Rightarrow> and_then (check x) (\<lambda>_. Inr (Some x)))"

definition update_budget_entry ::
    "budget_env \<Rightarrow> ledger \<Rightarrow> instant \<Rightarrow> date \<Rightarrow> uuid \<Rightarrow> uuid \<Rightarrow> uuid \<Rightarrow> (threshold \<Rightarrow> nat \<Rightarrow> uuid) \<Rightarrow> api_error + entry_patch \<Rightarrow>
     api_error + shown_entry \<times> uuid list \<times> ledger" where
  "update_budget_entry env db now today user g i fresh b =
     and_then (require_budget_access db g user) (\<lambda>actor_role.
     and_then b (\<lambda>b.
       let db = lock_family db g
       in case entry_of db g i of
            None \<Rightarrow> Inl Not_found
          | Some existing \<Rightarrow>
              if \<not> can_modify_entry actor_role (en_created_by existing = user) then Inl Forbidden
              else if map_option trim_text (ep_name b) = Some [] then Inl (Bad_request ''name_required'')
              else
                and_then (case ep_amount b of Some a \<Rightarrow> to_cents env a | None \<Rightarrow> Inr (en_cents existing)) (\<lambda>cents.
                let spent_at = given_or (ep_spent_at b) (en_spent_at existing) in
                and_then (patched (require_category db g) (ep_category b) (en_category existing)) (\<lambda>cat.
                and_then (patched (require_payer db g) (ep_paid_by b) (en_paid_by existing)) (\<lambda>paid_by.
                and_then (case ep_items b of None \<Rightarrow> Inr None | Some ids \<Rightarrow> and_then (grocery_item_ids ids) (\<lambda>ids. Inr (Some ids))) (\<lambda>ids.
                and_then (watch env today db g spent_at cat) (\<lambda>(w, db).
                  let r = existing\<lparr>en_name := given_or (map_option trim_text (ep_name b)) (en_name existing), en_cents := cents,
                            en_spent_at := spent_at, en_category := cat, en_paid_by := paid_by, en_updated_at := now\<rparr>;
                      db = set_entry g i r db
                  in and_then (case ids of Some ids \<Rightarrow> set_links g i ids db | None \<Rightarrow> Inr db) (\<lambda>db.
                     and_then (fire_if env now fresh w db) (\<lambda>(alerted, db).
                       Inr (entry_shown env db g r, alerted, db))))))))))"

text \<open>The links of an expense go with it.\<close>

definition delete_budget_entry :: "ledger \<Rightarrow> uuid \<Rightarrow> uuid \<Rightarrow> uuid \<Rightarrow> api_error + ledger" where
  "delete_budget_entry db user g i =
     and_then (require_budget_access db g user) (\<lambda>actor_role.
       case entry_of db g i of
         None \<Rightarrow> Inl Not_found
       | Some existing \<Rightarrow>
           if \<not> can_modify_entry actor_role (en_created_by existing = user) then Inl Forbidden
           else Inr (db\<lparr>expenses := filter (\<lambda>e. \<not> (en_id e = i \<and> en_group e = g)) (expenses db),
                        links := filter (\<lambda>l. \<not> (lk_entry l = i \<and> lk_group l = g)) (links db)\<rparr>))"

section \<open>The summary\<close>

record category_usage =
  cu_category :: category_row
  cu_total :: quantity
  cu_cap :: "quantity option"
  cu_usage :: usage_of_cap

record month_summary =
  ms_period :: date
  ms_total :: quantity
  ms_cap :: "quantity option"
  ms_usage :: usage_of_cap
  ms_categories :: "category_usage list"
  ms_uncategorized :: quantity
  ms_payers :: "(uuid \<times> utext \<times> quantity) list"
  ms_without_payer :: quantity

definition sat_add :: "int \<Rightarrow> int \<Rightarrow> int" where
  "sat_add a b = sat (a + b)"

definition period_totals :: "budget_env \<Rightarrow> ledger \<Rightarrow> uuid \<Rightarrow> api_error + (date \<times> int) list" where
  "period_totals env db g =
     (let es = filter (\<lambda>e. en_group e = g) (expenses db)
      in each (\<lambda>p. and_then (sum_cents (filter (\<lambda>e. first_of env (en_spent_at e) = p) es)) (\<lambda>s. Inr (p, s)))
           (rev (sort (remdups (map (\<lambda>e. first_of env (en_spent_at e)) es)))))"

definition category_totals :: "budget_env \<Rightarrow> ledger \<Rightarrow> uuid \<Rightarrow> entry_row list \<Rightarrow> api_error + (category_row \<times> int) list" where
  "category_totals env db g es =
     each (\<lambda>c. and_then (sum_cents (filter (\<lambda>e. en_category e = Some (ct_id c)) es)) (\<lambda>s. Inr (c, s)))
       (sort_key (\<lambda>c. collate (kitchen env) (sql_lower env (ct_name c))) (categories_of db g))"

definition payers :: "ledger \<Rightarrow> entry_row list \<Rightarrow> uuid list" where
  "payers db es =
     filter (\<lambda>u. list_ex (\<lambda>a. ac_id a = u) (accounts (people (house db)))) (remdups (List.map_filter en_paid_by es))"

definition payer_totals :: "budget_env \<Rightarrow> ledger \<Rightarrow> entry_row list \<Rightarrow> api_error + (uuid \<times> int) list" where
  "payer_totals env db es =
     and_then (each (\<lambda>u. and_then (sum_cents (filter (\<lambda>e. en_paid_by e = Some u) es)) (\<lambda>s. Inr (u, s))) (payers db es)) (\<lambda>ps.
       Inr (sort_key (\<lambda>(u, s). (- s, collate (kitchen env) (sql_lower env (names db u)), u)) ps))"

definition budget_summary ::
    "budget_env \<Rightarrow> ledger \<Rightarrow> date \<Rightarrow> uuid \<Rightarrow> uuid \<Rightarrow> api_error + string option \<Rightarrow> api_error + (date \<times> quantity) list \<times> month_summary" where
  "budget_summary env db today user g query =
     and_then (require_budget_access db g user) (\<lambda>_.
     and_then (case query of Inl e \<Rightarrow> Inl (Bad_request ''invalid_month'') | Inr q \<Rightarrow> Inr q) (\<lambda>query.
     and_then (case query of
         Some s \<Rightarrow> (case parse_month env s of Some m \<Rightarrow> Inr m | None \<Rightarrow> Inl (Bad_request ''invalid_month''))
       | None \<Rightarrow> Inr (first_of env today)) (\<lambda>month.
       case plus_month env month of
         None \<Rightarrow> Inl (Bad_request ''invalid_month'')
       | Some next \<Rightarrow>
           let es = spent_between db g month next;
               bnd = family_cap_cents db g
           in and_then (period_totals env db g) (\<lambda>periods.
              and_then (category_totals env db g es) (\<lambda>cats.
              and_then (sum_cents (filter (\<lambda>e. en_category e = None) es)) (\<lambda>uncategorized.
              and_then (payer_totals env db es) (\<lambda>ps.
                let spent = foldl sat_add uncategorized (map snd cats);
                    paid = foldl sat_add 0 (map snd ps)
                in Inr (map (\<lambda>(p, s). (p, cents_to_euros env s)) periods,
                        \<lparr>ms_period = month, ms_total = cents_to_euros env spent, ms_cap = map_option (cents_to_euros env) bnd,
                         ms_usage = cap_usage spent bnd,
                         ms_categories = map (\<lambda>(c, s). \<lparr>cu_category = c, cu_total = cents_to_euros env s,
                             cu_cap = map_option (cents_to_euros env) (ct_cap c), cu_usage = cap_usage s (ct_cap c)\<rparr>) cats,
                         ms_uncategorized = cents_to_euros env uncategorized,
                         ms_payers = map (\<lambda>(u, s). (u, names db u, cents_to_euros env s)) ps,
                         ms_without_payer = cents_to_euros env (sat (spent - paid))\<rparr>))))))))"

end
