(* ===== verification/Budget_Laws.thy ===== *)
theory Budget_Laws
  imports Household Budget
begin

text \<open>
  What the budget of a family keeps: who reaches it, what its tables hold, what its summary adds up
  and which overruns its alerts tell (\<open>apps/api/src/budget\<close>).
\<close>

section \<open>The requests\<close>

datatype budget_request =
    Create_entry "api_error + entry_body"
  | Price_item uuid "api_error + f64 \<times> date option"
  | Update_entry uuid "api_error + entry_patch"
  | Delete_entry uuid
  | Get_entry uuid
  | List_entries
  | Summary "api_error + string option"
  | Create_category "api_error + category_body"
  | Update_category uuid "api_error + category_patch"
  | Delete_category uuid
  | List_categories
  | Get_settings
  | Put_settings "api_error + f64 option"
  | Get_alerts
  | Patch_alerts "api_error + bool option \<times> bool option"

definition answered :: "ledger \<Rightarrow> ('r \<Rightarrow> ledger) \<Rightarrow> api_error + 'r \<Rightarrow> api_error option \<times> ledger" where
  "answered db f r = (case r of Inl e \<Rightarrow> (Some e, db) | Inr x \<Rightarrow> (None, f x))"

definition alert_ids :: "(nat \<Rightarrow> uuid) \<Rightarrow> threshold \<Rightarrow> nat \<Rightarrow> uuid" where
  "alert_ids fresh t n = fresh (Suc (3 * n + (case t of Eighty_percent \<Rightarrow> 0 | Cap_reached \<Rightarrow> 1 | Over_cap \<Rightarrow> 2)))"

definition perform_budget :: "budget_env \<Rightarrow> caller \<Rightarrow> budget_request \<Rightarrow> ledger \<Rightarrow> api_error option \<times> ledger" where
  "perform_budget env c q db =
     (let user = c_user c; g = c_group c; now = c_now c; today = c_today c; new_id = c_fresh c 0; fresh = alert_ids (c_fresh c)
      in case q of
           Create_entry b \<Rightarrow> answered db (\<lambda>(_, _, db). db) (create_budget_entry env db now today user g new_id fresh b)
         | Price_item i b \<Rightarrow> answered db (\<lambda>(_, _, db). db) (set_grocery_item_price env db now today user g i new_id fresh b)
         | Update_entry i b \<Rightarrow> answered db (\<lambda>(_, _, db). db) (update_budget_entry env db now today user g i fresh b)
         | Delete_entry i \<Rightarrow> answered db id (delete_budget_entry db user g i)
         | Get_entry i \<Rightarrow> answered db (\<lambda>_. db) (get_budget_entry env db user g i)
         | List_entries \<Rightarrow> answered db (\<lambda>_. db) (list_budget_entries env db user g)
         | Summary m \<Rightarrow> answered db (\<lambda>_. db) (budget_summary env db today user g m)
         | Create_category b \<Rightarrow> answered db snd (create_budget_category env db now user g new_id b)
         | Update_category i b \<Rightarrow> answered db snd (update_budget_category env db now user g i b)
         | Delete_category i \<Rightarrow> answered db id (delete_budget_category db user g i)
         | List_categories \<Rightarrow> answered db (\<lambda>_. db) (list_budget_categories env db user g)
         | Get_settings \<Rightarrow> answered db (\<lambda>_. db) (get_budget_settings env db user g)
         | Put_settings b \<Rightarrow> answered db snd (put_budget_settings env db user g b)
         | Get_alerts \<Rightarrow> answered db (\<lambda>_. db) (get_alert_settings db user g)
         | Patch_alerts b \<Rightarrow> answered db snd (patch_alert_settings db user g b))"

lemmas budget_handlers =
  create_budget_entry_def set_grocery_item_price_def update_budget_entry_def delete_budget_entry_def get_budget_entry_def
  list_budget_entries_def budget_summary_def create_budget_category_def update_budget_category_def delete_budget_category_def
  list_budget_categories_def get_budget_settings_def put_budget_settings_def get_alert_settings_def patch_alert_settings_def

section \<open>Who reaches the budget\<close>

lemma bar_refused:
  assumes "\<not> (\<exists>r. require_role (house db) g user = Inr r \<and> can_access_budget r)"
  shows "require_budget_access db g user = Inl (if require_role (house db) g user = Inr Member then Not_found else Forbidden)"
proof (cases "require_role (house db) g user")
  case (Inl e)
  then have "e = Forbidden" by (auto simp: require_role_def split: option.splits)
  then show ?thesis using Inl by (simp add: require_budget_access_def)
next
  case (Inr r)
  then have "r = Member" using assms by (cases r) (auto simp: can_access_budget_def)
  then show ?thesis using Inr by (simp add: require_budget_access_def can_access_budget_def)
qed

text \<open>
  Who does not reach the budget changes nothing through any of its routes and learns nothing of them:
  a member without the role is answered that there is no such resource, and a stranger is refused,
  whatever the body of the request.
\<close>

theorem children_see_no_budget:
  assumes "\<not> (\<exists>r. require_role (house db) (c_group c) (c_user c) = Inr r \<and> can_access_budget r)"
  shows "perform_budget env c q db = (Some (if require_role (house db) (c_group c) (c_user c) = Inr Member then Not_found else Forbidden), db)"
  using bar_refused [OF assms] by (cases q) (simp_all add: perform_budget_def Let_def budget_handlers answered_def)

section \<open>Amounts\<close>

text \<open>What IEEE 754 says of the rounding of the doubles met here: off by at most a part in \<open>2 ^ 53\<close>.\<close>

definition relative_ok :: "kitchen_env \<Rightarrow> bool" where
  "relative_ok env \<longleftrightarrow> fl env 0 = 0 \<and> (\<forall>x. 1 / 1000 \<le> x \<and> x \<le> 10 ^ 15 \<longrightarrow> \<bar>fl env x - x\<bar> \<le> x / 2 ^ 53)
     \<and> (\<forall>n. \<bar>n\<bar> \<le> 2 ^ 53 \<longrightarrow> fl env (of_int n) = of_int n)"

lemma round_near: "0 \<le> c \<Longrightarrow> \<bar>x - of_int c\<bar> < 1 / 2 \<Longrightarrow> round_away x = c"
proof -
  assume c: "0 \<le> c" and x: "\<bar>x - of_int c\<bar> < 1 / 2"
  show ?thesis
  proof (cases "0 \<le> x")
    case True
    have "of_int c \<le> x + 1 / 2" "x + 1 / 2 < of_int c + 1" using x by linarith+
    then show ?thesis using True by (simp add: round_away_def floor_eq_iff)
  next
    case False
    then have "c = 0" using c x by (cases "c = 0") (auto simp: abs_less_iff)
    moreover have "\<lfloor>- x + 1 / 2\<rfloor> = 0" using False x \<open>c = 0\<close> by (simp add: floor_eq_iff)
    ultimately show ?thesis using False by (simp add: round_away_def)
  qed
qed

text \<open>
  An amount read from the database and sent back as it was shown is the same number of cents, for
  an expense and for a cap, over the whole range of amounts.
\<close>

theorem amount_reads_back:
  assumes r: "relative_ok (kitchen env)" and c: "0 \<le> c" "c \<le> AMOUNT_MAX_EUROS * 100"
  shows "amount_to_cents env (Fin (cents_to_euros env c)) = Inr c
    \<and> (0 < c \<longrightarrow> cap_to_cents env (Fin (cents_to_euros env c)) = Inr c)"
proof -
  let ?f = "fl (kitchen env)"
  have big: "c \<le> 1000000000000" using c(2) by (simp add: AMOUNT_MAX_EUROS_def)
  have e: "cents_to_euros env c = ?f (of_int c / 100)" using r c(1) big by (simp add: cents_to_euros_def relative_ok_def)
  have near: "\<bar>?f (?f (of_int c / 100) * 100) - of_int c\<bar> < 1 / 2 \<and> 0 \<le> ?f (of_int c / 100)"
  proof (cases "c = 0")
    case True
    then show ?thesis using r by (simp add: relative_ok_def)
  next
    case False
    then have c1: "1 \<le> (of_int c :: quantity)" "(of_int c :: quantity) \<le> 1000000000000" using c(1) big by linarith+
    define x where "x = (of_int c / 100 :: quantity)"
    have x: "1 / 100 \<le> x" "x \<le> 10000000000" "of_int c = x * 100" using c1 by (simp_all add: x_def)
    have rel: "1 / 1000 \<le> y \<Longrightarrow> y \<le> 10 ^ 15 \<Longrightarrow> \<bar>?f y - y\<bar> \<le> y / 2 ^ 53" for y using r by (simp add: relative_ok_def)
    have fx: "\<bar>?f x - x\<bar> \<le> x / 2 ^ 53" using x by (intro rel) simp_all
    have d: "x / 2 ^ 53 \<le> 1 / 100000" "x / 2 ^ 53 \<le> x / 2" using x(1,2) by simp_all
    have lo: "x / 2 \<le> ?f x" and hi: "?f x \<le> x + 1 / 100000" and near: "\<bar>?f x - x\<bar> \<le> 1 / 100000"
      using fx d unfolding abs_le_iff by linarith+
    have "(10 :: quantity) ^ 15 = 1000000000000000" by simp
    then have "1 / 1000 \<le> ?f x * 100" "?f x * 100 \<le> 10 ^ 15" using lo hi x(1,2) by linarith+
    from rel [OF this] have "\<bar>?f (?f x * 100) - ?f x * 100\<bar> \<le> ?f x * 100 / 2 ^ 53" .
    moreover have "?f x * 100 / 2 ^ 53 \<le> 1 / 1000" using hi x(2) by simp
    ultimately have "\<bar>?f (?f x * 100) - ?f x * 100\<bar> \<le> 1 / 1000" by linarith
    then have "\<bar>?f (?f x * 100) - x * 100\<bar> < 1 / 2" using near unfolding abs_le_iff abs_less_iff by linarith
    moreover have "0 \<le> ?f x" using lo x(1) by linarith
    ultimately show ?thesis by (simp add: x_def)
  qed
  have "round_away (?f (?f (of_int c / 100) * 100)) = c" using round_near [OF c(1)] near by blast
  moreover have "sat c = c" using c(1) big by (simp add: sat_def I64_MAX_def I64_MIN_def)
  ultimately have b: "bounded_cents env (cents_to_euros env c) = Some c" using c(2) by (simp add: bounded_cents_def e)
  have "amount_to_cents env (Fin (cents_to_euros env c)) = Inr c" using near by (simp add: amount_to_cents_def b) (simp add: e)
  moreover have "0 < c \<longrightarrow> cap_to_cents env (Fin (cents_to_euros env c)) = Inr c" by (simp add: cap_to_cents_def b)
  ultimately show ?thesis by blast
qed


section \<open>The tables\<close>

definition expense_ok :: "ledger \<Rightarrow> entry_row \<Rightarrow> bool" where
  "expense_ok db e \<longleftrightarrow> 0 \<le> en_cents e \<and> en_cents e \<le> AMOUNT_MAX_EUROS * 100
     \<and> (case en_category e of None \<Rightarrow> True | Some i \<Rightarrow> (i, en_group e) \<in> (\<lambda>c. (ct_id c, ct_group c)) ` set (categories db))
     \<and> (case en_paid_by e of None \<Rightarrow> True
        | Some u \<Rightarrow> (en_group e, u) \<in> (\<lambda>m. (mb_group m, mb_user m)) ` set (memberships (people (house db))))"

definition cap_ok :: "int option \<Rightarrow> bool" where
  "cap_ok k \<longleftrightarrow> (case k of None \<Rightarrow> True | Some c \<Rightarrow> 0 < c \<and> c \<le> AMOUNT_MAX_EUROS * 100)"

definition category_ok :: "category_row \<Rightarrow> bool" where
  "category_ok c \<longleftrightarrow> ct_name c \<noteq> [] \<and> trim_text (ct_name c) = ct_name c \<and> length (ct_name c) \<le> CATEGORY_NAME_MAX
     \<and> is_category_color (ct_color c) \<and> cap_ok (ct_cap c)"

definition categories_ok :: "budget_env \<Rightarrow> category_row list \<Rightarrow> bool" where
  "categories_ok env cs \<longleftrightarrow> (\<forall>c \<in> set cs. category_ok c) \<and> distinct (map ct_id cs)
     \<and> distinct (map (\<lambda>c. (ct_group c, sql_lower env (ct_name c))) cs)
     \<and> (\<forall>g. length (filter (\<lambda>c. ct_group c = g) cs) \<le> CATEGORIES_MAX)"

definition links_ok :: "ledger \<Rightarrow> bool" where
  "links_ok db \<longleftrightarrow> distinct (map lk_item (links db))
     \<and> (\<forall>l \<in> set (links db). (lk_entry l, lk_group l) \<in> (\<lambda>e. (en_id e, en_group e)) ` set (expenses db)
          \<and> (lk_item l, lk_group l) \<in> (\<lambda>r. (gr_id r, gr_group r)) ` set (grocery_items (house db)))"

definition settings_ok :: "settings_row list \<Rightarrow> bool" where
  "settings_ok ss \<longleftrightarrow> distinct (map bs_group ss) \<and> (\<forall>s \<in> set ss. cap_ok (bs_cap s))"

definition ledger_ok :: "budget_env \<Rightarrow> ledger \<Rightarrow> bool" where
  "ledger_ok env db \<longleftrightarrow> (\<forall>e \<in> set (expenses db). expense_ok db e) \<and> distinct (map en_id (expenses db))
     \<and> categories_ok env (categories db) \<and> links_ok db \<and> settings_ok (budget_settings db)
     \<and> distinct (map gr_id (grocery_items (house db)))
     \<and> mb_user ` set (memberships (people (house db))) \<subseteq> ac_id ` set (accounts (people (house db)))
     \<and> distinct (sent_alerts db)"

section \<open>The summary\<close>

text \<open>What \<open>chrono\<close> documents of \<open>with_day\<close> and \<open>checked_add_months\<close>.\<close>

definition months_ok :: "budget_env \<Rightarrow> bool" where
  "months_ok env \<longleftrightarrow> inj (ymd env)
     \<and> (\<forall>d y m n. ymd env d = (y, m, n) \<longrightarrow> 1 \<le> n \<and> ymd env (d - (int n - 1)) = (y, m, 1))
     \<and> (\<forall>m n. snd (snd (ymd env m)) = 1 \<longrightarrow> plus_month env m = Some n \<longrightarrow> (\<forall>d. m \<le> d \<and> d < n \<longleftrightarrow> in_month env d m))
     \<and> (\<forall>y m d. ymd_opt env y m 1 = Some d \<longrightarrow> ymd env d = (y, m, 1))"

lemma first_of_month:
  assumes "months_ok env"
  shows "snd (snd (ymd env (first_of env d))) = 1" "in_month env d (first_of env d)"
    "snd (snd (ymd env m)) = 1 \<Longrightarrow> in_month env d m \<longleftrightarrow> first_of env d = m"
proof -
  obtain y k n where d: "ymd env d = (y, k, n)" by (cases "ymd env d") auto
  have f: "1 \<le> n" "ymd env (first_of env d) = (y, k, 1)" using assms d by (auto simp: months_ok_def first_of_def)
  show "snd (snd (ymd env (first_of env d))) = 1" "in_month env d (first_of env d)" by (simp_all add: f d in_month_def)
  assume m: "snd (snd (ymd env m)) = 1"
  have "in_month env d m \<longleftrightarrow> ymd env (first_of env d) = ymd env m"
    using m unfolding f(2) by (cases "ymd env m") (auto simp: in_month_def d)
  also have "\<dots> \<longleftrightarrow> first_of env d = m" using assms by (auto simp: months_ok_def dest: injD)
  finally show "in_month env d m \<longleftrightarrow> first_of env d = m" .
qed

lemma month_range:
  assumes "months_ok env" "snd (snd (ymd env m)) = 1" "plus_month env m = Some n"
  shows "m \<le> d \<and> d < n \<longleftrightarrow> first_of env d = m"
  using assms first_of_month(3) [OF assms(1,2)] unfolding months_ok_def by blast

lemma sum_cents_Inr: "sum_cents es = Inr s \<longleftrightarrow> s = sum_list (map en_cents es) \<and> I64_MIN \<le> s \<and> s \<le> I64_MAX"
  by (auto simp: sum_cents_def Let_def)

lemma each_totals:
  "each (\<lambda>k. and_then (sum_cents (f k)) (\<lambda>s. Inr (k, s))) ks = Inr ts \<longleftrightarrow>
   ts = map (\<lambda>k. (k, sum_list (map en_cents (f k)))) ks \<and> (\<forall>k \<in> set ks. \<exists>s. sum_cents (f k) = Inr s)"
  by (induction ks arbitrary: ts) (auto simp: and_then_Inr sum_cents_Inr)

text \<open>A sum by the value of a key, over keys without repetition that the values are among.\<close>

lemma sum_by_key:
  assumes "distinct ks" "\<forall>e \<in> set es. f e \<in> set ks"
  shows "sum_list (map (\<lambda>k. sum_list (map en_cents (filter (\<lambda>e. f e = k) es))) ks) = sum_list (map en_cents es)"
  using assms(2)
proof (induction es)
  case (Cons e es)
  have "sum_list (map (\<lambda>k. sum_list (map en_cents (filter (\<lambda>x. f x = k) (e # es)))) ks)
      = sum_list (map (\<lambda>k. (if f e = k then en_cents e else 0) + sum_list (map en_cents (filter (\<lambda>x. f x = k) es))) ks)"
    by (rule arg_cong [where f = sum_list]) (auto simp: map_eq_conv)
  also have "\<dots> = sum_list (map (\<lambda>k. if f e = k then en_cents e else 0) ks) + sum_list (map en_cents es)"
    using Cons by (simp add: sum_list_addf)
  also have "sum_list (map (\<lambda>k. if f e = k then en_cents e else 0) ks) = en_cents e"
    using assms(1) Cons.prems by (simp add: sum_list_distinct_conv_sum_set sum.delta')
  finally show ?case by simp
qed (simp add: sum_list_0)

lemma sat_fold: "\<forall>x \<in> set xs. 0 \<le> x \<Longrightarrow> 0 \<le> a \<Longrightarrow> a + sum_list xs \<le> I64_MAX \<Longrightarrow> foldl sat_add a xs = a + sum_list xs"
proof (induction xs arbitrary: a)
  case (Cons x xs)
  have "0 \<le> sum_list xs" using Cons.prems(1) by (intro sum_list_nonneg) simp
  then have "sat_add a x = a + x" using Cons.prems by (simp add: sat_add_def sat_def I64_MIN_def I64_MAX_def)
  then show ?case using Cons.IH [of "a + x"] Cons.prems by (simp add: add.assoc)
qed simp


definition month_entries :: "budget_env \<Rightarrow> ledger \<Rightarrow> uuid \<Rightarrow> date \<Rightarrow> entry_row list" where
  "month_entries env db g m = filter (\<lambda>e. en_group e = g \<and> first_of env (en_spent_at e) = m) (expenses db)"

abbreviation cents_of :: "entry_row list \<Rightarrow> int" where
  "cents_of es \<equiv> sum_list (map en_cents es)"

lemma spent_between_month:
  assumes "months_ok env" "snd (snd (ymd env m)) = 1" "plus_month env m = Some n"
  shows "spent_between db g m n = month_entries env db g m"
  unfolding spent_between_def month_entries_def using month_range [OF assms] by (intro filter_cong) auto

lemma by_category:
  assumes ok: "ledger_ok env db" and es: "set es \<subseteq> set (expenses db)" "\<forall>e \<in> set es. en_group e = g"
    and cs: "mset cs = mset (categories_of db g)"
  shows "cents_of (filter (\<lambda>e. en_category e = None) es) + sum_list (map (\<lambda>c. cents_of (filter (\<lambda>e. en_category e = Some (ct_id c)) es)) cs)
    = cents_of es"
proof -
  have "mset (map ct_id cs) = mset (map ct_id (categories_of db g))" using cs by (metis mset_map)
  moreover have "distinct (map ct_id (categories_of db g))"
    using ok by (simp add: ledger_ok_def categories_ok_def categories_of_def distinct_map_filter)
  ultimately have "distinct (map ct_id cs)" by (metis mset_eq_imp_distinct_iff)
  then have d: "distinct (None # map (\<lambda>c. Some (ct_id c)) cs)" by (auto simp: distinct_map inj_on_def)
  have "en_category e \<in> set (None # map (\<lambda>c. Some (ct_id c)) cs)" if e: "e \<in> set es" for e
  proof (cases "en_category e")
    case (Some i)
    have "expense_ok db e" "en_group e = g" using e es ok by (auto simp: ledger_ok_def)
    then obtain c where "c \<in> set (categories_of db g)" "ct_id c = i" using Some by (auto simp: expense_ok_def categories_of_def)
    then show ?thesis using Some cs by (force dest: mset_eq_setD)
  qed simp
  then show ?thesis using sum_by_key [OF d, of es en_category] by (simp add: o_def)
qed

lemma by_payer:
  assumes ok: "ledger_ok env db" and es: "set es \<subseteq> set (expenses db)" and us: "mset us = mset (payers db es)"
  shows "cents_of (filter (\<lambda>e. en_paid_by e = None) es) + sum_list (map (\<lambda>u. cents_of (filter (\<lambda>e. en_paid_by e = Some u) es)) us)
    = cents_of es"
proof -
  have "distinct (payers db es)" by (simp add: payers_def)
  then have "distinct us" using us by (metis mset_eq_imp_distinct_iff)
  then have d: "distinct (None # map Some us)" by (auto simp: distinct_map inj_on_def)
  have "en_paid_by e \<in> set (None # map Some us)" if e: "e \<in> set es" for e
  proof (cases "en_paid_by e")
    case (Some u)
    have "expense_ok db e" using e es ok by (auto simp: ledger_ok_def)
    then have "u \<in> mb_user ` set (memberships (people (house db)))" using Some by (force simp: expense_ok_def)
    then have "u \<in> ac_id ` set (accounts (people (house db)))" using ok by (auto simp: ledger_ok_def)
    then have "u \<in> set (payers db es)" using e Some by (force simp: payers_def list_ex_iff List.map_filter_def)
    then show ?thesis using us Some by (auto dest: mset_eq_setD)
  qed simp
  then show ?thesis using sum_by_key [OF d, of es en_paid_by] by (simp add: o_def)
qed

lemma summary_Inr:
  assumes m: "months_ok env" and x: "budget_summary env db today user g q = Inr (periods, s)"
  shows "\<exists>ts cats unc ps. let es = month_entries env db g (ms_period s) in
      period_totals env db g = Inr ts \<and> periods = map (\<lambda>(p, t). (p, cents_to_euros env t)) ts
    \<and> category_totals env db g es = Inr cats \<and> unc = cents_of (filter (\<lambda>e. en_category e = None) es) \<and> payer_totals env db es = Inr ps
    \<and> s = (let spent = foldl sat_add unc (map snd cats); paid = foldl sat_add 0 (map snd ps); bnd = family_cap_cents db g in
        \<lparr>ms_period = ms_period s, ms_total = cents_to_euros env spent, ms_cap = map_option (cents_to_euros env) bnd,
         ms_usage = cap_usage spent bnd,
         ms_categories = map (\<lambda>(c, t). \<lparr>cu_category = c, cu_total = cents_to_euros env t,
             cu_cap = map_option (cents_to_euros env) (ct_cap c), cu_usage = cap_usage t (ct_cap c)\<rparr>) cats,
         ms_uncategorized = cents_to_euros env unc, ms_payers = map (\<lambda>(u, t). (u, names db u, cents_to_euros env t)) ps,
         ms_without_payer = cents_to_euros env (sat (spent - paid))\<rparr>)"
proof -
  have day: "snd (snd (ymd env month)) = 1" if "(case query of
         Some s \<Rightarrow> (case parse_month env s of Some m \<Rightarrow> Inr m | None \<Rightarrow> Inl (Bad_request ''invalid_month''))
       | None \<Rightarrow> Inr (first_of env today)) = (Inr month :: api_error + date)" for query month
    using that first_of_month(1) [OF m] m
    by (auto simp: parse_month_def months_ok_def split: option.splits prod.splits if_splits)
  obtain query month n where r: "(case query of
         Some s \<Rightarrow> (case parse_month env s of Some m \<Rightarrow> Inr m | None \<Rightarrow> Inl (Bad_request ''invalid_month''))
       | None \<Rightarrow> Inr (first_of env today)) = (Inr month :: api_error + date)"
      "plus_month env month = Some n" "snd (snd (ymd env month)) = 1"
    and rest: "(let es = spent_between db g month n; bnd = family_cap_cents db g
           in and_then (period_totals env db g) (\<lambda>periods.
              and_then (category_totals env db g es) (\<lambda>cats.
              and_then (sum_cents (filter (\<lambda>e. en_category e = None) es)) (\<lambda>uncategorized.
              and_then (payer_totals env db es) (\<lambda>ps.
                let spent = foldl sat_add uncategorized (map snd cats);
                    paid = foldl sat_add 0 (map snd ps)
                in Inr (map (\<lambda>(p, s). (p, cents_to_euros env s)) periods,
                        \<lparr>ms_period = month, ms_total = cents_to_euros env spent, ms_cap = map_option (cents_to_euros env) bnd,
                         ms_usage = cap_usage spent bnd,
                         ms_categories = map (\<lambda>(c, s). \<lparr>cu_category = c, cu_total = cents_to_euros env s,
                             cu_cap = map_option (cents_to_euros env) (ct_cap c), cu_usage = cap_usage s (ct_cap c)\<rparr>) cats,
                         ms_uncategorized = cents_to_euros env uncategorized,
                         ms_payers = map (\<lambda>(u, s). (u, names db u, cents_to_euros env s)) ps,
                         ms_without_payer = cents_to_euros env (sat (spent - paid))\<rparr>)))))) = Inr (periods, s)"
    using x day unfolding budget_summary_def and_then_Inr by (force split: option.splits)
  have p: "ms_period s = month" using rest by (auto simp: Let_def and_then_Inr)
  show ?thesis using rest unfolding p spent_between_month [OF m r(3,2)]
    by (auto simp: Let_def and_then_Inr sum_cents_Inr)
qed


lemma payer_totals_Inr:
  assumes "payer_totals env db es = Inr ps"
  shows "\<exists>us. mset us = mset (payers db es) \<and> ps = map (\<lambda>u. (u, cents_of (filter (\<lambda>e. en_paid_by e = Some u) es))) us"
proof -
  let ?t = "\<lambda>u. (u, cents_of (filter (\<lambda>e. en_paid_by e = Some u) es))"
  let ?k = "\<lambda>(u, s). (- s, collate (kitchen env) (sql_lower env (names db u)), u)"
  have e: "ps = sort_key ?k (map ?t (payers db es))" using assms by (auto simp: payer_totals_def and_then_Inr each_totals)
  then have "\<forall>x \<in> set ps. ?t (fst x) = x" by auto
  then have "ps = map ?t (map fst ps)" by (simp add: map_idI [symmetric] o_def cong: map_cong)
  moreover have "mset (map fst ps) = mset (payers db es)"
    unfolding e mset_map mset_sort by (simp add: image_mset.compositionality o_def)
  ultimately show ?thesis by blast
qed

lemma cents_nonneg: "ledger_ok env db \<Longrightarrow> set es \<subseteq> set (expenses db) \<Longrightarrow> 0 \<le> cents_of es"
  by (intro sum_list_nonneg) (auto simp: ledger_ok_def expense_ok_def)

text \<open>
  C40. The summary of a month adds up: when the calendar is the one \<open>chrono\<close> documents and the tables
  are in order, its total is that of the expenses dated in the month, and is also the sum over its
  categories (each of the family's once, with the expenses filed under it and the share of its own
  cap) and the expenses filed under none, and the sum over who paid and nobody, with no saturation
  on the way; the totals per month list the month with the same total.
\<close>

theorem summary_adds_up:
  assumes m: "months_ok env" and ok: "ledger_ok env db" and x: "budget_summary env db today user g q = Inr (periods, s)"
  shows "\<exists>cats unc pys nobody. let es = month_entries env db g (ms_period s); spent = cents_of es in
      ms_total s = cents_to_euros env spent \<and> ms_usage s = cap_usage spent (family_cap_cents db g)
    \<and> map (\<lambda>u. (cu_category u, cu_total u, cu_usage u)) (ms_categories s) = map (\<lambda>(c, t). (c, cents_to_euros env t, cap_usage t (ct_cap c))) cats
    \<and> mset (map fst cats) = mset (categories_of db g)
    \<and> (\<forall>(c, t) \<in> set cats. t = cents_of (filter (\<lambda>e. en_category e = Some (ct_id c)) es))
    \<and> ms_uncategorized s = cents_to_euros env unc \<and> spent = unc + sum_list (map snd cats)
    \<and> ms_payers s = map (\<lambda>(u, t). (u, names db u, cents_to_euros env t)) pys
    \<and> (\<forall>(u, t) \<in> set pys. t = cents_of (filter (\<lambda>e. en_paid_by e = Some u) es))
    \<and> ms_without_payer s = cents_to_euros env nobody \<and> nobody = cents_of (filter (\<lambda>e. en_paid_by e = None) es)
    \<and> spent = nobody + sum_list (map snd pys)
    \<and> (es \<noteq> [] \<longrightarrow> (ms_period s, ms_total s) \<in> set periods)"
proof -
  let ?es = "month_entries env db g (ms_period s)"
  obtain ts cats unc ps where i: "period_totals env db g = Inr ts" "periods = map (\<lambda>(p, t). (p, cents_to_euros env t)) ts"
    "category_totals env db g ?es = Inr cats" "unc = cents_of (filter (\<lambda>e. en_category e = None) ?es)" "payer_totals env db ?es = Inr ps"
    and s: "s = (let spent = foldl sat_add unc (map snd cats); paid = foldl sat_add 0 (map snd ps); bnd = family_cap_cents db g in
        \<lparr>ms_period = ms_period s, ms_total = cents_to_euros env spent, ms_cap = map_option (cents_to_euros env) bnd,
         ms_usage = cap_usage spent bnd,
         ms_categories = map (\<lambda>(c, t). \<lparr>cu_category = c, cu_total = cents_to_euros env t,
             cu_cap = map_option (cents_to_euros env) (ct_cap c), cu_usage = cap_usage t (ct_cap c)\<rparr>) cats,
         ms_uncategorized = cents_to_euros env unc, ms_payers = map (\<lambda>(u, t). (u, names db u, cents_to_euros env t)) ps,
         ms_without_payer = cents_to_euros env (sat (spent - paid))\<rparr>)"
    using summary_Inr [OF m x] unfolding Let_def by blast
  have sub: "set ?es \<subseteq> set (expenses db)" "\<forall>e \<in> set ?es. en_group e = g" by (auto simp: month_entries_def)
  have nn: "0 \<le> cents_of (filter P ?es)" for P using cents_nonneg [OF ok, of "filter P ?es"] sub(1) by auto
  define cs where "cs = sort_key (\<lambda>c. collate (kitchen env) (sql_lower env (ct_name c))) (categories_of db g)"
  have cats: "cats = map (\<lambda>c. (c, cents_of (filter (\<lambda>e. en_category e = Some (ct_id c)) ?es))) cs"
    using i(3) by (simp add: category_totals_def each_totals cs_def)
  have mc: "mset cs = mset (categories_of db g)" by (simp add: cs_def)
  obtain us where us: "mset us = mset (payers db ?es)" "ps = map (\<lambda>u. (u, cents_of (filter (\<lambda>e. en_paid_by e = Some u) ?es))) us"
    using payer_totals_Inr [OF i(5)] by blast
  define nobody where "nobody = cents_of (filter (\<lambda>e. en_paid_by e = None) ?es)"
  have c: "cents_of ?es = unc + sum_list (map snd cats)" using by_category [OF ok sub mc] by (simp add: cats i(4) o_def)
  have p: "cents_of ?es = nobody + sum_list (map snd ps)" using by_payer [OF ok sub(1) us(1)] by (simp add: us(2) nobody_def o_def)
  have bound: "cents_of ?es \<le> I64_MAX \<and> (?es \<noteq> [] \<longrightarrow> (ms_period s, cents_of ?es) \<in> set ts)"
  proof (cases "?es = []")
    case False
    let ?g = "filter (\<lambda>e. en_group e = g) (expenses db)"
    have e: "filter (\<lambda>e. first_of env (en_spent_at e) = ms_period s) ?g = ?es" by (simp add: month_entries_def conj_commute)
    obtain x where "x \<in> set ?g" "first_of env (en_spent_at x) = ms_period s" using hd_in_set [OF False] by (auto simp: month_entries_def)
    then have "ms_period s \<in> set (map (\<lambda>e. first_of env (en_spent_at e)) ?g)" by force
    then have k: "ms_period s \<in> set (rev (sort (remdups (map (\<lambda>e. first_of env (en_spent_at e)) ?g))))" by simp
    have "(ms_period s, cents_of (filter (\<lambda>e. first_of env (en_spent_at e) = ms_period s) ?g)) \<in> set ts
        \<and> (\<exists>t. sum_cents (filter (\<lambda>e. first_of env (en_spent_at e) = ms_period s) ?g) = Inr t)"
      using i(1) k unfolding period_totals_def Let_def each_totals by auto
    then show ?thesis unfolding e by (auto simp: sum_cents_Inr)
  qed (simp add: I64_MAX_def)
  have fc: "foldl sat_add unc (map snd cats) = cents_of ?es"
    unfolding c using c bound nn by (intro sat_fold) (auto simp: cats i(4))
  have pp: "sum_list (map snd ps) \<le> cents_of ?es" using p nn [of "\<lambda>e. en_paid_by e = None"] by (simp add: nobody_def)
  have fp: "foldl sat_add 0 (map snd ps) = 0 + sum_list (map snd ps)"
    using pp bound nn by (intro sat_fold) (auto simp: us(2))
  have "0 \<le> nobody" using nn by (simp add: nobody_def)
  then have sn: "sat (cents_of ?es - sum_list (map snd ps)) = nobody"
  proof -
    have "0 \<le> sum_list (map snd ps)" using nn by (intro sum_list_nonneg) (auto simp: us(2))
    then have "cents_of ?es - sum_list (map snd ps) = nobody" "nobody \<le> I64_MAX" using p bound by linarith+
    then show ?thesis using \<open>0 \<le> nobody\<close> by (simp add: sat_def I64_MIN_def)
  qed
  have v: "ms_total s = cents_to_euros env (cents_of ?es)" "ms_usage s = cap_usage (cents_of ?es) (family_cap_cents db g)"
    "map (\<lambda>u. (cu_category u, cu_total u, cu_usage u)) (ms_categories s) = map (\<lambda>(c, t). (c, cents_to_euros env t, cap_usage t (ct_cap c))) cats"
    "ms_uncategorized s = cents_to_euros env unc" "ms_payers s = map (\<lambda>(u, t). (u, names db u, cents_to_euros env t)) ps"
    "ms_without_payer s = cents_to_euros env nobody"
    by (subst s, simp add: Let_def fc fp sn case_prod_unfold)+
  have "mset (map fst cats) = mset (categories_of db g)" using mc by (simp add: cats o_def)
  moreover have "?es \<noteq> [] \<longrightarrow> (ms_period s, ms_total s) \<in> set periods" using bound by (force simp: i(2) v(1))
  ultimately show ?thesis unfolding Let_def using v c p
    by (intro exI [of _ cats] exI [of _ unc] exI [of _ ps] exI [of _ nobody]) (auto simp: cats us(2) nobody_def)
qed

section \<open>A family of two and its ledger\<close>

text \<open>Months of thirty days, from a year zero that starts on day zero.\<close>

definition plain_budget :: budget_env where
  "plain_budget = \<lparr>kitchen = plain_kitchen, notices = plain_env,
     ymd = (\<lambda>d. (d div 30 div 12, Suc (nat (d div 30 mod 12)), Suc (nat (d mod 30)))),
     ymd_opt = (\<lambda>y m n. if 1 \<le> m \<and> m \<le> 12 \<and> 1 \<le> n \<and> n \<le> 30 then Some ((12 * y + (int m - 1)) * 30 + (int n - 1)) else None),
     plus_month = (\<lambda>d. Some (d + 30)), minus_month = (\<lambda>d. Some (d - 30)), sql_lower = (\<lambda>s. s)\<rparr>"

lemma same_thirty: "(a :: int) div 30 = b div 30 \<longleftrightarrow> a div 30 div 12 = b div 30 div 12 \<and> a div 30 mod 12 = b div 30 mod 12"
  by (metis mult_div_mod_eq)

lemma even_months: "months_ok (plain_budget\<lparr>kitchen := k\<rparr>)"
proof -
  have "inj (\<lambda>d :: int. (d div 30 div 12, Suc (nat (d div 30 mod 12)), Suc (nat (d mod 30))))"
  proof (rule injI)
    fix a b :: int
    assume "(a div 30 div 12, Suc (nat (a div 30 mod 12)), Suc (nat (a mod 30))) = (b div 30 div 12, Suc (nat (b div 30 mod 12)), Suc (nat (b mod 30)))"
    then have "a div 30 = b div 30" "a mod 30 = b mod 30" unfolding same_thirty by (auto simp: eq_nat_nat_iff)
    then show "a = b" by (metis mult_div_mod_eq)
  qed
  moreover have "(d - d mod 30) div 30 = d div 30" "(d - d mod 30) mod 30 = 0" for d :: int by (simp_all add: minus_mod_eq_mult_div)
  moreover have "m \<le> d \<and> d < m + 30 \<longleftrightarrow> d div 30 div 12 = m div 30 div 12 \<and> nat (d div 30 mod 12) = nat (m div 30 mod 12)" if "m mod 30 \<le> 0" for m d :: int
  proof -
    have "0 \<le> m mod 30" "0 \<le> d mod 30" "d mod 30 < 30" by simp_all
    moreover have "30 * (m div 30) + m mod 30 = m" "30 * (d div 30) + d mod 30 = d" by (rule mult_div_mod_eq)+
    ultimately have "m \<le> d \<and> d < m + 30 \<longleftrightarrow> d div 30 = m div 30" using that by linarith
    then show ?thesis unfolding same_thirty by (simp add: eq_nat_nat_iff)
  qed
  moreover have "(12 * y + (int k - 1)) * 30 div 30 div 12 = y" "nat ((12 * y + (int k - 1)) * 30 div 30 mod 12) = k - 1" "(12 * y + (int k - 1)) * 30 mod 30 = 0"
    if "1 \<le> k" "k \<le> 12" for y :: int and k :: nat
    using that by simp_all
  ultimately show ?thesis
    by (auto simp: months_ok_def plain_budget_def in_month_def split: if_splits)
qed

definition both :: household where
  "both = small_house\<lparr>people := busy_center\<lparr>memberships := [\<lparr>mb_group = 10, mb_user = 1, mb_role = Owner\<rparr>,
     \<lparr>mb_group = 10, mb_user = 2, mb_role = Member\<rparr>]\<rparr>\<rparr>"

definition food :: category_row where
  "food = \<lparr>ct_id = 60, ct_group = 10, ct_name = chars ''food'', ct_color = ''green'', ct_cap = Some 10000, ct_created_at = 1, ct_updated_at = 1\<rparr>"

definition spending :: "uuid \<Rightarrow> uuid option \<Rightarrow> uuid option \<Rightarrow> int \<Rightarrow> date \<Rightarrow> entry_row" where
  "spending i k payer cents d = \<lparr>en_id = i, en_group = 10, en_created_by = 1, en_category = k, en_paid_by = payer, en_name = chars ''shop'',
     en_cents = cents, en_spent_at = d, en_created_at = 2, en_updated_at = 2\<rparr>"

definition accounts_book :: ledger where
  "accounts_book = \<lparr>house = both, names = (\<lambda>_. chars ''Ann''),
     expenses = [spending 70 (Some 60) (Some 1) 7000 35, spending 71 None None 500 40, spending 72 None (Some 2) 900 10],
     categories = [food], budget_settings = [\<lparr>bs_group = 10, bs_cap = Some 20000, bs_global = True, bs_category = True\<rparr>],
     sent_alerts = [], links = []\<rparr>"

lemmas book_simps = accounts_book_def spending_def food_def both_def small_house_def busy_center_def milk_def rice_def

lemma book_ok: "ledger_ok (plain_budget\<lparr>kitchen := k\<rparr>) accounts_book"
  by (simp add: ledger_ok_def expense_ok_def categories_ok_def category_ok_def cap_ok_def links_ok_def settings_ok_def book_simps
      CATEGORIES_MAX_def CATEGORY_NAME_MAX_def is_category_color_def CATEGORY_COLORS_def AMOUNT_MAX_EUROS_def trim_by_def is_whitespace_def)

lemma book_roles: "require_role both 10 1 = Inr Owner" "require_role both 10 2 = Inr Member"
  by (simp_all add: require_role_def both_def small_house_def)

lemma children_see_no_budget_witness:
  "perform_budget plain_budget member (Summary (Inr None)) accounts_book = (Some Not_found, accounts_book)"
proof -
  have "house accounts_book = both" "c_group member = 10" "c_user member = 2" by (simp_all add: accounts_book_def member_def)
  then show ?thesis using children_see_no_budget [of accounts_book member plain_budget "Summary (Inr None)"] book_roles(2)
    by (simp add: can_access_budget_def)
qed

lemma exact_relative: "relative_ok plain_kitchen"
  by (simp add: relative_ok_def plain_kitchen_def)

lemma amount_reads_back_witness:
  "amount_to_cents plain_budget (Fin (cents_to_euros plain_budget 1999)) = Inr 1999
   \<and> cap_to_cents plain_budget (Fin (cents_to_euros plain_budget 1999)) = Inr 1999"
  using amount_reads_back [of plain_budget 1999] exact_relative by (simp add: plain_budget_def AMOUNT_MAX_EUROS_def)

lemma summary_adds_up_witness:
  "\<exists>periods s. budget_summary plain_budget accounts_book 45 1 10 (Inr (Some ''0000-02'')) = Inr (periods, s)
     \<and> ms_period s = 30 \<and> ms_total s = cents_to_euros plain_budget 7500 \<and> (30, cents_to_euros plain_budget 7500) \<in> set periods"
proof -
  have m: "months_ok plain_budget" "ledger_ok plain_budget accounts_book"
    using even_months [of plain_kitchen] book_ok [of plain_kitchen] by (simp_all add: plain_budget_def)
  have p: "parse_month plain_budget ''0000-02'' = Some 30"
    by (simp add: parse_month_def plain_budget_def is_digit_def digits_value_def digit_value_def)
  have f: "first_of plain_budget 35 = 30" "first_of plain_budget 40 = 30" "first_of plain_budget 10 = 0"
    by (simp_all add: first_of_def plain_budget_def)
  have access: "require_budget_access accounts_book 10 1 = Inr Owner"
    using book_roles(1) by (simp add: require_budget_access_def can_access_budget_def accounts_book_def)
  have es: "spent_between accounts_book 10 30 60 = [spending 70 (Some 60) (Some 1) 7000 35, spending 71 None None 500 40]"
    by (simp add: spent_between_def accounts_book_def spending_def)
  have "\<exists>ts. period_totals plain_budget accounts_book 10 = Inr ts"
    by (simp add: period_totals_def accounts_book_def spending_def f Let_def sum_cents_def I64_MIN_def I64_MAX_def)
  moreover have "\<exists>cats. category_totals plain_budget accounts_book 10 (spent_between accounts_book 10 30 60) = Inr cats"
    unfolding es by (simp add: category_totals_def categories_of_def accounts_book_def food_def spending_def sum_cents_def I64_MIN_def I64_MAX_def)
  moreover have "\<exists>ps. payer_totals plain_budget accounts_book (spent_between accounts_book 10 30 60) = Inr ps"
    unfolding es by (simp add: payer_totals_def payers_def book_simps List.map_filter_def sum_cents_def I64_MIN_def I64_MAX_def)
  moreover have "sum_cents (filter (\<lambda>e. en_category e = None) (spent_between accounts_book 10 30 60)) = Inr 500"
    unfolding es by (simp add: spending_def sum_cents_def I64_MIN_def I64_MAX_def)
  moreover have "plus_month plain_budget 30 = Some 60" by (simp add: plain_budget_def)
  ultimately obtain periods s where s: "budget_summary plain_budget accounts_book 45 1 10 (Inr (Some ''0000-02'')) = Inr (periods, s)" "ms_period s = 30"
    using access p by (auto simp: budget_summary_def Let_def)
  have "month_entries plain_budget accounts_book 10 30 = [spending 70 (Some 60) (Some 1) 7000 35, spending 71 None None 500 40]"
    by (simp add: month_entries_def accounts_book_def spending_def first_of_def plain_budget_def)
  then have "cents_of (month_entries plain_budget accounts_book 10 30) = 7500" by (simp add: spending_def)
  then show ?thesis using summary_adds_up [OF m s(1)] s by (auto simp: Let_def)
qed

end
