(* ===== verification/Budget_Kept.thy ===== *)
theory Budget_Kept
  imports Budget_Laws
begin

text \<open>
  What every request keeps of the budget's tables, and what its alerts tell: each overrun of a month
  once, and none of them unsaid.
\<close>

section \<open>What a request writes beside its own row\<close>

lemma lock_family_sel [simp]:
  "house (lock_family db g) = house db" "names (lock_family db g) = names db" "expenses (lock_family db g) = expenses db"
  "categories (lock_family db g) = categories db" "links (lock_family db g) = links db" "sent_alerts (lock_family db g) = sent_alerts db"
  by (simp_all add: lock_family_def lock_settings_def split: option.split)

lemma lock_settings_snd: "lock_settings db g = (s, db') \<Longrightarrow> db' = lock_family db g \<and> settings_of db' g = Some s"
  by (auto simp: lock_family_def lock_settings_def settings_of_def default_settings_def find_None_iff find_Some_iff nth_append
      split: option.splits intro!: exI [of _ "length (budget_settings db)"])

text \<open>The text of an alert, and what the tables hold more once alerts were told: a notification for each member alerted.\<close>

definition alert_text :: "budget_env \<Rightarrow> ledger \<Rightarrow> alert_row \<Rightarrow> utext" where
  "alert_text env db a =
     body (notices env) (case al_category a of
         None \<Rightarrow> if al_percent a = 80 then Budget_cap_near else Budget_cap_reached
       | Some i \<Rightarrow> Category_cap_exceeded (case category_of db (al_group a) i of Some c \<Rightarrow> ct_name c | None \<Rightarrow> []))"

text \<open>
  The members an alert is for, read off the rows: the owner and the admins of the family whose
  account is neither deactivated nor deleted.
\<close>

definition budget_holders :: "ledger \<Rightarrow> uuid \<Rightarrow> uuid list" where
  "budget_holders db g =
     map mb_user (filter (\<lambda>m. mb_group m = g \<and> (mb_role m = Owner \<or> mb_role m = Admin) \<and>
         (\<exists>a \<in> set (accounts (people (house db))). ac_id a = mb_user m \<and> \<not> ac_deactivated a \<and> \<not> ac_deleted a))
       (memberships (people (house db))))"

lemma alerted_holders: "alerted_members db g = budget_holders db g"
  unfolding alerted_members_def budget_holders_def
  by (intro arg_cong [where f = "map mb_user"] filter_cong refl)
     (auto simp: living_def list_ex_iff can_access_budget_def)

definition notified :: "budget_env \<Rightarrow> ledger \<Rightarrow> alert_row list \<Rightarrow> (uuid \<times> uuid \<times> string \<times> utext) list" where
  "notified env db sent =
     concat (map (\<lambda>a. map (\<lambda>u. (u, al_group a, ''budget_alert'', alert_text env db a)) (budget_holders db (al_group a))) sent)"

abbreviation gist :: "notification \<Rightarrow> uuid \<times> uuid \<times> string \<times> utext" where
  "gist n \<equiv> (nt_user n, nt_group n, nt_kind n, nt_body n)"

definition told_more :: "budget_env \<Rightarrow> ledger \<Rightarrow> ledger \<Rightarrow> bool" where
  "told_more env db db' \<longleftrightarrow> (\<exists>sent rows. let c = people (house db) in
     db' = db\<lparr>sent_alerts := sent_alerts db @ sent, house := (house db)\<lparr>people := c\<lparr>notifications := notifications c @ rows\<rparr>\<rparr>\<rparr>
     \<and> distinct sent \<and> set sent \<inter> set (sent_alerts db) = {} \<and> map gist rows = notified env db sent)"

lemma told_refl [simp]: "told_more env db db"
  unfolding told_more_def Let_def by (intro exI [of _ "[]"]) (simp add: notified_def)

lemma told_same:
  assumes "told_more env a b"
  shows "alerted_members b g = alerted_members a g" "alert_text env b x = alert_text env a x" "category_of b g i = category_of a g i"
    "categories b = categories a" "expenses b = expenses a" "links b = links a" "budget_settings b = budget_settings a"
    "grocery_items (house b) = grocery_items (house a)" "memberships (people (house b)) = memberships (people (house a))"
    "accounts (people (house b)) = accounts (people (house a))" "set (sent_alerts a) \<subseteq> set (sent_alerts b)"
proof -
  obtain sent rows where b: "b = a\<lparr>sent_alerts := sent_alerts a @ sent,
      house := (house a)\<lparr>people := (people (house a))\<lparr>notifications := notifications (people (house a)) @ rows\<rparr>\<rparr>\<rparr>"
    using assms unfolding told_more_def Let_def by blast
  show "alerted_members b g = alerted_members a g" "category_of b g i = category_of a g i"
    "categories b = categories a" "expenses b = expenses a" "links b = links a" "budget_settings b = budget_settings a"
    "grocery_items (house b) = grocery_items (house a)" "memberships (people (house b)) = memberships (people (house a))"
    "accounts (people (house b)) = accounts (people (house a))" "set (sent_alerts a) \<subseteq> set (sent_alerts b)"
    by (simp_all add: b alerted_members_def living_def category_of_def)
  have c: "category_of b = category_of a" by (intro ext) (simp add: b category_of_def)
  show "alert_text env b x = alert_text env a x" unfolding alert_text_def c ..
qed

lemma told_trans:
  assumes "told_more env a b" "told_more env b c"
  shows "told_more env a c"
proof -
  obtain s1 r1 where 1: "b = a\<lparr>sent_alerts := sent_alerts a @ s1,
      house := (house a)\<lparr>people := (people (house a))\<lparr>notifications := notifications (people (house a)) @ r1\<rparr>\<rparr>\<rparr>"
    "distinct s1" "set s1 \<inter> set (sent_alerts a) = {}" "map gist r1 = notified env a s1" using assms(1) unfolding told_more_def Let_def by blast
  obtain s2 r2 where 2: "c = b\<lparr>sent_alerts := sent_alerts b @ s2,
      house := (house b)\<lparr>people := (people (house b))\<lparr>notifications := notifications (people (house b)) @ r2\<rparr>\<rparr>\<rparr>"
    "distinct s2" "set s2 \<inter> set (sent_alerts b) = {}" "map gist r2 = notified env b s2" using assms(2) unfolding told_more_def Let_def by blast
  have "notified env b s2 = notified env a s2" unfolding notified_def alerted_holders [symmetric] using told_same(1,2) [OF assms(1)] by simp
  then have "map gist (r1 @ r2) = notified env a (s1 @ s2)" using 1(4) 2(4) by (simp add: notified_def)
  then show ?thesis unfolding told_more_def Let_def using 1(1-3) 2(1-3)
    by (intro exI [of _ "s1 @ s2"] exI [of _ "r1 @ r2"]) auto
qed

lemma insert_rows_unkeyed: "\<forall>n \<in> set ns. nt_dedup n = None \<Longrightarrow> insert_rows rows ns = (rows @ ns, length ns)"
  by (induction ns arbitrary: rows) (auto simp: conflicts_def list_ex_iff)

lemma insert_for_unkeyed:
  assumes "insert_for env now fresh us n c = (Inr written, c')" "new_dedup n = None"
  shows "\<exists>rows. c' = c\<lparr>notifications := notifications c @ rows\<rparr>
    \<and> map gist rows = map (\<lambda>u. (u, new_group n, kind_str (event_kind (new_event n)), body env (new_event n))) us"
proof -
  let ?ns = "map (\<lambda>(i, user). notification_row env now n (fresh i) user) (enumerate 0 us)"
  have r: "insert_rows (notifications c) ?ns = (notifications c @ ?ns, length ?ns)"
    using assms(2) by (intro insert_rows_unkeyed) (auto simp: notification_row_def)
  have "c' = c\<lparr>notifications := notifications c @ ?ns\<rparr>"
    using assms(1) unfolding insert_for_def r by (auto split: if_splits)
  moreover have "map gist ?ns = map (\<lambda>u. (u, new_group n, kind_str (event_kind (new_event n)), body env (new_event n))) us"
    by (rule nth_equalityI) (simp_all add: notification_row_def nth_enumerate_eq)
  ultimately show ?thesis by (intro exI [of _ ?ns]) simp
qed

lemma send_alert_told:
  assumes "send_alert env now fresh w k t db = Inr (us, db')"
    and k: "k = None \<and> t \<noteq> Over_cap \<or> (\<exists>c. k = Some c \<and> category_of db (w_group w) (ct_id c) = Some c)"
  shows "told_more env db db'
    \<and> \<lparr>al_group = w_group w, al_month = w_month w, al_category = map_option ct_id k, al_percent = threshold_percent t\<rparr> \<in> set (sent_alerts db')"
proof -
  let ?a = "\<lparr>al_group = w_group w, al_month = w_month w, al_category = map_option ct_id k, al_percent = threshold_percent t\<rparr>"
  let ?n = "\<lparr>new_group = w_group w, new_event = alert_event k t, new_object = map_option ct_id k, new_actor = None, new_dedup = None\<rparr>"
  show ?thesis
  proof (cases "?a \<in> set (sent_alerts db)")
    case True
    then show ?thesis using assms(1) by (simp add: send_alert_def Let_def)
  next
    case False
    obtain written c where i: "insert_for (notices env) now (fresh t) (alerted_members db (w_group w)) ?n (people (house db)) = (Inr written, c)"
      and db: "db' = db\<lparr>sent_alerts := sent_alerts db @ [?a], house := (house db)\<lparr>people := c\<rparr>\<rparr>"
      using assms(1) False by (auto simp: send_alert_def Let_def split: prod.splits sum.splits)
    obtain rows where rows: "c = (people (house db))\<lparr>notifications := notifications (people (house db)) @ rows\<rparr>"
      "map gist rows = map (\<lambda>u. (u, w_group w, kind_str (event_kind (alert_event k t)), body (notices env) (alert_event k t))) (alerted_members db (w_group w))"
      using insert_for_unkeyed [OF i] by auto
    have "kind_str (event_kind (alert_event k t)) = ''budget_alert''" by (simp add: alert_event_def split: option.split)
    moreover have "alert_text env db ?a = body (notices env) (alert_event k t)"
      using k by (cases t) (auto simp: alert_text_def alert_event_def)
    ultimately have "map gist rows = notified env db [?a]" using rows(2) by (simp add: notified_def alerted_holders)
    then show ?thesis unfolding told_more_def Let_def using False db rows(1)
      by (intro conjI exI [of _ "[?a]"] exI [of _ rows]) simp_all
  qed
qed

lemma send_alerts_told:
  "send_alerts env now fresh w k ts db = Inr (us, db') \<Longrightarrow>
   k = None \<and> Over_cap \<notin> set ts \<or> (\<exists>c. k = Some c \<and> category_of db (w_group w) (ct_id c) = Some c) \<Longrightarrow>
   told_more env db db' \<and> (\<forall>t \<in> set ts. \<lparr>al_group = w_group w, al_month = w_month w, al_category = map_option ct_id k,
      al_percent = threshold_percent t\<rparr> \<in> set (sent_alerts db'))"
proof (induction ts arbitrary: db us)
  case (Cons t ts)
  obtain us1 db1 us2 where s: "send_alert env now fresh w k t db = Inr (us1, db1)" "send_alerts env now fresh w k ts db1 = Inr (us2, db')"
    using Cons.prems(1) by (auto simp: and_then_Inr)
  have t: "told_more env db db1 \<and> \<lparr>al_group = w_group w, al_month = w_month w, al_category = map_option ct_id k,
      al_percent = threshold_percent t\<rparr> \<in> set (sent_alerts db1)" using Cons.prems(2) by (intro send_alert_told [OF s(1)]) auto
  have "told_more env db1 db' \<and> (\<forall>t \<in> set ts. \<lparr>al_group = w_group w, al_month = w_month w, al_category = map_option ct_id k,
      al_percent = threshold_percent t\<rparr> \<in> set (sent_alerts db'))"
    using Cons.prems(2) told_same(3) t by (intro Cons.IH [OF s(2)]) auto
  then show ?case using t told_trans told_same(11) by (metis insert_iff list.simps(15) subsetD)
qed simp

text \<open>The watch of a group, as \<open>watch\<close> makes it: its category, if any, is one of the group.\<close>

definition watch_ok :: "ledger \<Rightarrow> month_watch \<Rightarrow> bool" where
  "watch_ok db w \<longleftrightarrow> (case w_category w of None \<Rightarrow> True | Some c \<Rightarrow> category_of db (w_group w) (ct_id c) = Some c)"

lemma fire_told:
  assumes f: "fire env now fresh w db = Inr (us, db')" and w: "watch_ok db w"
  shows "told_more env db db' \<and> (\<exists>family cat. totals db (w_group w) (w_month w) (w_next w) (map_option ct_id (w_category w)) = Inr (family, cat)
    \<and> (\<forall>t \<in> set (crossed FAMILY_THRESHOLDS (fst (w_before w)) family (w_cap w)).
         \<lparr>al_group = w_group w, al_month = w_month w, al_category = None, al_percent = threshold_percent t\<rparr> \<in> set (sent_alerts db'))
    \<and> (\<forall>c. w_category w = Some c \<longrightarrow> (\<forall>t \<in> set (crossed CATEGORY_THRESHOLDS (snd (w_before w)) cat (ct_cap c)).
         \<lparr>al_group = w_group w, al_month = w_month w, al_category = Some (ct_id c), al_percent = threshold_percent t\<rparr> \<in> set (sent_alerts db'))))"
proof -
  obtain family cat us1 db1 us2 where t: "totals db (w_group w) (w_month w) (w_next w) (map_option ct_id (w_category w)) = Inr (family, cat)"
    and s: "send_alerts env now fresh w None (crossed FAMILY_THRESHOLDS (fst (w_before w)) family (w_cap w)) db = Inr (us1, db1)"
    and k: "(case w_category w of None \<Rightarrow> Inr ([], db1)
      | Some c \<Rightarrow> send_alerts env now fresh w (Some c) (crossed CATEGORY_THRESHOLDS (snd (w_before w)) cat (ct_cap c)) db1) = Inr (us2, db')"
    using f by (auto simp: fire_def and_then_Inr)
  have "Over_cap \<notin> set (crossed FAMILY_THRESHOLDS (fst (w_before w)) family (w_cap w))"
    by (auto simp: crossed_def FAMILY_THRESHOLDS_def split: option.splits)
  note one = send_alerts_told [OF s, simplified, OF this]
  have two: "told_more env db1 db' \<and> (\<forall>c. w_category w = Some c \<longrightarrow> (\<forall>t \<in> set (crossed CATEGORY_THRESHOLDS (snd (w_before w)) cat (ct_cap c)).
         \<lparr>al_group = w_group w, al_month = w_month w, al_category = Some (ct_id c), al_percent = threshold_percent t\<rparr> \<in> set (sent_alerts db')))"
  proof (cases "w_category w")
    case None
    then show ?thesis using k by simp
  next
    case (Some c)
    have "category_of db1 (w_group w) (ct_id c) = Some c" using w Some told_same(3) [OF conjunct1 [OF one]] by (simp add: watch_ok_def)
    then show ?thesis using send_alerts_told [of env now fresh w "Some c" _ db1 us2 db'] k Some by simp
  qed
  have "told_more env db db'" using told_trans one two by blast
  moreover have "set (sent_alerts db1) \<subseteq> set (sent_alerts db')" using told_same(11) two by blast
  ultimately show ?thesis using t one two by (intro conjI exI [of _ family] exI [of _ cat]) auto
qed


section \<open>No overrun unsaid\<close>

definition current_settings :: "ledger \<Rightarrow> uuid \<Rightarrow> settings_row" where
  "current_settings db g = (case settings_of db g of Some s \<Rightarrow> s | None \<Rightarrow> default_settings g)"

definition category_spent :: "budget_env \<Rightarrow> ledger \<Rightarrow> uuid \<Rightarrow> date \<Rightarrow> uuid \<Rightarrow> int" where
  "category_spent env db g m i = cents_of (filter (\<lambda>e. en_category e = Some i) (month_entries env db g m))"

abbreviation family_spent :: "budget_env \<Rightarrow> ledger \<Rightarrow> uuid \<Rightarrow> date \<Rightarrow> int" where
  "family_spent env db g m \<equiv> cents_of (month_entries env db g m)"

text \<open>Every threshold the spending of the month has reached was told, where the family watches it.\<close>

definition family_said :: "budget_env \<Rightarrow> ledger \<Rightarrow> uuid \<Rightarrow> date \<Rightarrow> bool" where
  "family_said env db g m \<longleftrightarrow>
     (let s = current_settings db g
      in bs_global s \<longrightarrow> (\<forall>c. bs_cap s = Some c \<longrightarrow> (\<forall>t \<in> set FAMILY_THRESHOLDS. reached t (family_spent env db g m) c \<longrightarrow>
           \<lparr>al_group = g, al_month = m, al_category = None, al_percent = threshold_percent t\<rparr> \<in> set (sent_alerts db))))"

definition category_said :: "budget_env \<Rightarrow> ledger \<Rightarrow> uuid \<Rightarrow> date \<Rightarrow> bool" where
  "category_said env db g m \<longleftrightarrow>
     (bs_category (current_settings db g) \<longrightarrow> (\<forall>k \<in> set (categories_of db g). \<forall>c. ct_cap k = Some c \<longrightarrow>
        category_spent env db g m (ct_id k) > c \<longrightarrow>
        \<lparr>al_group = g, al_month = m, al_category = Some (ct_id k), al_percent = 100\<rparr> \<in> set (sent_alerts db)))"

lemma reached_mono: "reached t a c \<Longrightarrow> a \<le> b \<Longrightarrow> reached t b c"
  by (cases t) auto

lemma current_after_lock:
  "lock_settings db g = (s, db1) \<Longrightarrow> s = current_settings db g \<and> current_settings db1 g = s"
  by (auto simp: current_settings_def dest: lock_settings_snd) (auto simp: lock_settings_def split: option.splits)

lemma same_month:
  assumes "months_ok env" "in_month env d today"
  shows "first_of env d = first_of env today"
proof -
  have "in_month env today (first_of env today)" using first_of_month(2) [OF assms(1)] .
  then have "in_month env d (first_of env today)" using assms(2) by (simp add: in_month_def)
  then show ?thesis using first_of_month(1,3) [OF assms(1)] by blast
qed

lemma totals_month:
  assumes "months_ok env" "plus_month env (first_of env d) = Some n" "totals db g (first_of env d) n k = Inr (f, c)"
  shows "f = family_spent env db g (first_of env d)" "k = Some i \<Longrightarrow> c = category_spent env db g (first_of env d) i"
  using assms(3) spent_between_month [OF assms(1) first_of_month(1) [OF assms(1)] assms(2), of db g]
  by (auto simp: totals_def Let_def and_then_Inr sum_cents_Inr category_spent_def in_category_def)

lemma watch_cases:
  assumes m: "months_ok env" and w: "watch env today db g d k = Inr (w, db1)"
  obtains
    (elsewhere) "\<not> in_month env d today" "w = None" "db1 = db"
  | (unwatched) "in_month env d today" "w = None" "db1 = lock_family db g"
      "bs_global (current_settings db g) \<longrightarrow> bs_cap (current_settings db g) = None"
      "watched_category db g (current_settings db g) k = None"
  | (watched) x where "in_month env d today" "w = Some x" "db1 = lock_family db g" "w_group x = g" "w_month x = first_of env today"
      "plus_month env (first_of env today) = Some (w_next x)"
      "w_cap x = (if bs_global (current_settings db g) then bs_cap (current_settings db g) else None)"
      "w_category x = watched_category db g (current_settings db g) k"
      "fst (w_before x) = family_spent env db g (first_of env today)"
      "\<forall>c. w_category x = Some c \<longrightarrow> snd (w_before x) = category_spent env db g (first_of env today) (ct_id c)"
proof (cases "in_month env d today")
  case False
  then show ?thesis using w elsewhere by (simp add: watch_def)
next
  case True
  note sm = same_month [OF m True]
  obtain s db2 where l: "lock_settings db g = (s, db2)" by force
  have db2: "db2 = lock_family db g" "s = current_settings db g" using lock_settings_snd [OF l] current_after_lock [OF l] by auto
  have wc: "watched_category db2 g s k = watched_category db g s k" by (simp add: db2(1) watched_category_def category_of_def split: option.split)
  have me: "month_entries env db2 g x = month_entries env db g x" for x by (simp add: db2(1) month_entries_def)
  show ?thesis
  proof (cases "(if bs_global s then bs_cap s else None) = None \<and> watched_category db g s k = None")
    case none: True
    then have "w = None" "db1 = db2" using w True by (auto simp: watch_def l wc Let_def)
    then show ?thesis using unwatched True none db2 by (auto split: if_splits)
  next
    case False
    then obtain n before where n: "plus_month env (first_of env today) = Some n"
        "totals db2 g (first_of env today) n (map_option ct_id (watched_category db g s k)) = Inr before"
        "w = Some \<lparr>w_group = g, w_month = first_of env today, w_next = n, w_cap = (if bs_global s then bs_cap s else None),
           w_category = watched_category db g s k, w_before = before\<rparr>" "db1 = db2"
      using w True by (auto simp: watch_def l wc Let_def sm and_then_Inr split: option.splits)
    obtain f c where b: "before = (f, c)" by force
    have "f = family_spent env db g (first_of env today)"
      "\<forall>i. map_option ct_id (watched_category db g s k) = Some i \<longrightarrow> c = category_spent env db g (first_of env today) i"
      using totals_month [OF m n(1) n(2) [unfolded b]] by (simp_all add: me category_spent_def)
    then show ?thesis using watched [OF True n(3)] n(1,4) db2 b by auto
  qed
qed


lemma watched_is: "watched_category db g s k = Some c \<Longrightarrow> k = Some (ct_id c) \<and> bs_category s \<and> category_of db g (ct_id c) = Some c \<and> ct_cap c \<noteq> None"
  by (auto simp: watched_category_def category_of_def find_Some_iff split: option.splits if_splits)

lemma category_of_unique:
  assumes "categories_ok env (categories db)" "c \<in> set (categories_of db g)"
  shows "category_of db g (ct_id c) = Some c"
proof -
  have c: "c \<in> set (categories db)" "ct_group c = g" using assms(2) by (auto simp: categories_of_def)
  obtain x where x: "category_of db g (ct_id c) = Some x"
    using c by (cases "category_of db g (ct_id c)") (auto simp: category_of_def find_None_iff)
  then have "x \<in> set (categories db)" "ct_id x = ct_id c" using find_holds by (force simp: category_of_def)+
  then have "x = c" using assms(1) c(1) only_one [of ct_id "categories db" x c] by (simp add: categories_ok_def)
  then show ?thesis using x by simp
qed

text \<open>
  A write of an expense dated \<open>d\<close> and filed under \<open>k\<close>: the other categories spend no more than
  before, and nothing does when \<open>d\<close> is out of the month.
\<close>

definition only_raises :: "budget_env \<Rightarrow> date \<Rightarrow> uuid \<Rightarrow> date \<Rightarrow> uuid option \<Rightarrow> ledger \<Rightarrow> ledger \<Rightarrow> bool" where
  "only_raises env today g d k db db' \<longleftrightarrow>
     (\<forall>i. Some i \<noteq> k \<or> \<not> in_month env d today \<longrightarrow>
        category_spent env db' g (first_of env today) i \<le> category_spent env db g (first_of env today) i)
     \<and> (\<not> in_month env d today \<longrightarrow> family_spent env db' g (first_of env today) \<le> family_spent env db g (first_of env today))"

lemma same_rows:
  assumes "expenses db' = expenses db"
  shows "month_entries env db' g m = month_entries env db g m"
  using assms by (simp add: month_entries_def)

lemma write_said:
  assumes m: "months_ok env" and w: "watch env today db g d k = Inr (w, db1)" and ok: "categories_ok env (categories db)"
    and sok: "settings_ok (budget_settings db)" and two: "db2 = db1\<lparr>expenses := es, links := ls\<rparr>" and f: "fire_if env now fresh w db2 = Inr (us, db3)"
    and raise: "only_raises env today g d k db db2" and M: "M = first_of env today"
    and said: "family_said env db g M" "category_said env db g M"
  shows "family_said env db3 g M" "category_said env db3 g M"
proof -
  have sel: "categories db2 = categories db" "sent_alerts db2 = sent_alerts db" "budget_settings db2 = budget_settings db1" "db1 = db \<or> db1 = lock_family db g"
    using watch_cases [OF m w] two by (cases; simp)+
  have cs: "categories_of db2 g = categories_of db g" "\<And>i. category_of db2 g i = category_of db g i"
    using sel(1) by (simp_all add: categories_of_def category_of_def)
  have cur: "current_settings db2 g = current_settings db g"
    using sel(3,4) current_after_lock [of db g] by (cases "lock_settings db g") (auto simp: lock_family_def current_settings_def settings_of_def)
  have cap: "\<forall>c \<in> set (categories_of db g). \<forall>x. ct_cap c = Some x \<longrightarrow> 0 < x"
    using ok by (auto simp: categories_ok_def category_ok_def cap_ok_def categories_of_def)
  have t: "told_more env db2 db3" if "w = None \<or> (\<exists>x. w = Some x \<and> watch_ok db2 x)"
    using that f fire_told by (auto simp: fire_if_def)
  have finish: "family_said env db3 g M \<and> category_said env db3 g M"
    if t: "told_more env db2 db3"
      and fam: "\<forall>t \<in> set FAMILY_THRESHOLDS. \<forall>c. bs_global (current_settings db g) \<longrightarrow> bs_cap (current_settings db g) = Some c \<longrightarrow> reached t (family_spent env db2 g M) c \<longrightarrow>
           \<lparr>al_group = g, al_month = M, al_category = None, al_percent = threshold_percent t\<rparr> \<in> set (sent_alerts db3)"
      and cat: "\<forall>k \<in> set (categories_of db g). \<forall>c. bs_category (current_settings db g) \<longrightarrow> ct_cap k = Some c \<longrightarrow> category_spent env db2 g M (ct_id k) > c \<longrightarrow>
           \<lparr>al_group = g, al_month = M, al_category = Some (ct_id k), al_percent = 100\<rparr> \<in> set (sent_alerts db3)"
  proof -
    have "current_settings db3 g = current_settings db g" using told_same(7) [OF t] cur by (simp add: current_settings_def settings_of_def)
    moreover have "categories_of db3 g = categories_of db g" using told_same(4) [OF t] cs(1) by (simp add: categories_of_def)
    moreover have "month_entries env db3 g M = month_entries env db2 g M" by (rule same_rows) (rule told_same(5) [OF t])
    ultimately show ?thesis using fam cat by (auto simp: family_said_def category_said_def category_spent_def Let_def)
  qed
  have kept: "a \<in> set (sent_alerts db) \<Longrightarrow> told_more env db2 db3 \<Longrightarrow> a \<in> set (sent_alerts db3)" for a
    using told_same(11) [of env db2 db3] sel(2) by auto
  have lower: "Some i \<noteq> k \<or> \<not> in_month env d today \<Longrightarrow> category_spent env db2 g M i \<le> category_spent env db g M i" for i
    using raise by (simp add: only_raises_def M)
  have "family_said env db3 g M \<and> category_said env db3 g M"
  proof (cases rule: watch_cases [OF m w])
    case 1
    note elsewhere = 1
    then have tt: "told_more env db2 db3" using t by simp
    have fl: "family_spent env db2 g M \<le> family_spent env db g M" using raise elsewhere(1) by (simp add: only_raises_def M)
    show ?thesis using kept [OF _ tt] said reached_mono [OF _ fl] lower elsewhere(1) order.strict_trans2
      by (intro finish tt) (fastforce simp: family_said_def category_said_def Let_def)+
  next
    case 2
    note unwatched = 2
    then have tt: "told_more env db2 db3" using t by simp
    have no: "ct_cap c = None" if "c \<in> set (categories_of db g)" "k = Some (ct_id c)" "bs_category (current_settings db g)" for c
      using unwatched(5) that category_of_unique [OF ok that(1)] by (simp add: watched_category_def split: if_splits)
    show ?thesis
    proof (intro finish tt ballI allI impI)
      fix c x assume c: "c \<in> set (categories_of db g)" "bs_category (current_settings db g)" "ct_cap c = Some x" "x < category_spent env db2 g M (ct_id c)"
      then have "Some (ct_id c) \<noteq> k" using no by auto
      from lower [OF disjI1, OF this] c(4) have "x < category_spent env db g M (ct_id c)" by simp
      then show "\<lparr>al_group = g, al_month = M, al_category = Some (ct_id c), al_percent = 100\<rparr> \<in> set (sent_alerts db3)"
        using said(2) c(1-3) by (intro kept tt) (auto simp: category_said_def)
    qed (use unwatched(4) in simp)
  next
    case (3 x)
    note watched = 3
    have wok: "watch_ok db2 x" using watched_is watched(4,8) cs(2) by (auto simp: watch_ok_def split: option.split)
    then have tt: "told_more env db2 db3" using t watched(2) by blast
    obtain fam cat where tot: "totals db2 g M (w_next x) (map_option ct_id (w_category x)) = Inr (fam, cat)"
      and a1: "\<forall>t \<in> set (crossed FAMILY_THRESHOLDS (family_spent env db g M) fam (w_cap x)).
         \<lparr>al_group = g, al_month = M, al_category = None, al_percent = threshold_percent t\<rparr> \<in> set (sent_alerts db3)"
      and a2: "\<forall>c. w_category x = Some c \<longrightarrow> (\<forall>t \<in> set (crossed CATEGORY_THRESHOLDS (snd (w_before x)) cat (ct_cap c)).
         \<lparr>al_group = g, al_month = M, al_category = Some (ct_id c), al_percent = threshold_percent t\<rparr> \<in> set (sent_alerts db3))"
      using fire_told [OF _ wok, of env now fresh us db3] f watched(2,4,5,9) by (auto simp: fire_if_def M)
    note tm = totals_month [OF m watched(6) tot [unfolded M]]
    show ?thesis
    proof (intro finish tt ballI allI impI)
      fix t c assume c: "t \<in> set FAMILY_THRESHOLDS" "bs_global (current_settings db g)" "bs_cap (current_settings db g) = Some c" "reached t (family_spent env db2 g M) c"
      show "\<lparr>al_group = g, al_month = M, al_category = None, al_percent = threshold_percent t\<rparr> \<in> set (sent_alerts db3)"
      proof (cases "reached t (family_spent env db g M) c")
        case True
        then show ?thesis using said(1) c(1-3) by (intro kept tt) (auto simp: family_said_def Let_def)
      next
        case False
        have "0 < c" using sok c(3) by (force simp: current_settings_def settings_of_def settings_ok_def cap_ok_def default_settings_def
            split: option.splits dest: find_holds)
        then have "t \<in> set (crossed FAMILY_THRESHOLDS (family_spent env db g M) fam (w_cap x))"
          using False c watched(7) tm(1) by (simp add: crossed_def M)
        then show ?thesis using a1 by blast
      qed
    next
      fix c y assume c: "c \<in> set (categories_of db g)" "bs_category (current_settings db g)" "ct_cap c = Some y" "y < category_spent env db2 g M (ct_id c)"
      show "\<lparr>al_group = g, al_month = M, al_category = Some (ct_id c), al_percent = 100\<rparr> \<in> set (sent_alerts db3)"
      proof (cases "k = Some (ct_id c)")
        case True
        have wc: "w_category x = Some c" using True c(2,3) category_of_unique [OF ok c(1)] watched(8) by (simp add: watched_category_def)
        have "cat = category_spent env db2 g M (ct_id c)" using tm(2) wc by (simp add: M)
        then have now: "y < cat" using c(4) by simp
        show ?thesis
        proof (cases "category_spent env db g M (ct_id c) > y")
          case True
          then show ?thesis using said(2) c(1-3) by (intro kept tt) (auto simp: category_said_def)
        next
          case False
          have "0 < y" using cap c(1,3) by blast
          then have "Over_cap \<in> set (crossed CATEGORY_THRESHOLDS (snd (w_before x)) cat (ct_cap c))"
            using False now c(3) wc watched(10) by (simp add: crossed_def CATEGORY_THRESHOLDS_def M)
          then show ?thesis using a2 wc by fastforce
        qed
      next
        case False
        then have "y < category_spent env db g M (ct_id c)" using lower [of "ct_id c"] c(4) by simp
        then show ?thesis using said(2) c(1-3) by (intro kept tt) (auto simp: category_said_def)
      qed
    qed
  qed
  then show "family_said env db3 g M" "category_said env db3 g M" by auto
qed


section \<open>What every request keeps\<close>

lemma expense_ok_cong:
  "categories db' = categories db \<Longrightarrow> memberships (people (house db')) = memberships (people (house db)) \<Longrightarrow> expense_ok db' e = expense_ok db e"
  unfolding expense_ok_def by (erule ssubst, erule ssubst) (rule refl)

lemma expense_ok_simps [simp]:
  "expense_ok (db\<lparr>expenses := es\<rparr>) e = expense_ok db e" "expense_ok (db\<lparr>links := ls\<rparr>) e = expense_ok db e"
  "expense_ok (db\<lparr>expenses := es, links := ls\<rparr>) e = expense_ok db e" "expense_ok (lock_family db g) e = expense_ok db e"
  by (rule expense_ok_cong; simp)+

lemma told_ok: "ledger_ok env a \<Longrightarrow> told_more env a b \<Longrightarrow> ledger_ok env b"
proof -
  assume ok: "ledger_ok env a" and t: "told_more env a b"
  have "expense_ok b e = expense_ok a e" for e using told_same(4,9) [OF t] by (rule expense_ok_cong)
  then show "ledger_ok env b" using ok t by (auto simp: told_more_def Let_def ledger_ok_def links_ok_def image_subset_iff)
qed

lemma lock_ok: "ledger_ok env db \<Longrightarrow> ledger_ok env (lock_family db g)"
proof -
  assume ok: "ledger_ok env db"
  have "settings_ok (budget_settings (lock_family db g))"
    using ok by (auto simp: ledger_ok_def lock_family_def lock_settings_def settings_ok_def settings_of_def default_settings_def cap_ok_def
        find_None_iff split: option.split)
  then show ?thesis using ok by (simp add: ledger_ok_def links_ok_def)
qed

lemma set_links_Inr:
  assumes ok: "ledger_ok env db" and e: "(entry, g) \<in> (\<lambda>e. (en_id e, en_group e)) ` set (expenses db)" and d: "distinct ids"
    and x: "set_links g entry ids db = Inr db'"
  shows "ledger_ok env db' \<and> db' = db\<lparr>links := links db'\<rparr>"
proof -
  let ?items = "grocery_items (house db)"
  let ?found = "filter (\<lambda>r. gr_group r = g \<and> gr_id r \<in> set ids) ?items"
  define kept where "kept = filter (\<lambda>l. \<not> (lk_group l = g \<and> lk_entry l = entry \<and> lk_item l \<notin> set ids)) (links db)"
  define new where "new = map (\<lambda>i. \<lparr>lk_entry = entry, lk_item = i, lk_group = g\<rparr>) (filter (\<lambda>i. \<not> list_ex (\<lambda>l. lk_entry l = entry \<and> lk_item l = i) kept) ids)"
  have len: "length ?found = length ids" and free: "\<not> list_ex (\<lambda>l. lk_group l = g \<and> lk_item l \<in> set ids \<and> lk_entry l \<noteq> entry) (links db)"
    and db': "db' = db\<lparr>links := kept @ new\<rparr>"
    using x by (auto simp: set_links_def Let_def kept_def new_def split: if_splits)
  have lk: "links_ok db" and gd: "distinct (map gr_id ?items)" using ok by (simp_all add: ledger_ok_def)
  have "card (set (map gr_id ?found)) = length ids"
    using distinct_card [of "map gr_id ?found"] gd len by (simp add: distinct_map_filter)
  then have "set (map gr_id ?found) = set ids"
    using d by (intro card_subset_eq) (auto simp: distinct_card)
  then have there: "i \<in> set ids \<Longrightarrow> \<exists>r \<in> set ?items. gr_id r = i \<and> gr_group r = g" for i by (force simp: set_eq_iff)
  have "lk_item l \<noteq> i" if l: "l \<in> set kept" and i: "i \<in> set ids" "\<not> list_ex (\<lambda>l. lk_entry l = entry \<and> lk_item l = i) kept" for l i
  proof
    assume li: "lk_item l = i"
    have "l \<in> set (links db)" using l by (simp add: kept_def)
    then have "(i, lk_group l) \<in> (\<lambda>r. (gr_id r, gr_group r)) ` set ?items" using lk li by (auto simp: links_ok_def)
    then have "lk_group l = g" using there [OF i(1)] only_one [OF gd] by fastforce
    then have "lk_entry l = entry" using free li i(1) \<open>l \<in> set (links db)\<close> by (auto simp: list_ex_iff)
    then show False using i(2) l li by (auto simp: list_ex_iff)
  qed
  moreover have "distinct (map lk_item kept)" using lk by (simp add: kept_def links_ok_def distinct_map_filter)
  ultimately have "distinct (map lk_item (kept @ new))" using d by (auto simp: new_def o_def)
  moreover have "\<forall>l \<in> set (kept @ new). (lk_entry l, lk_group l) \<in> (\<lambda>e. (en_id e, en_group e)) ` set (expenses db)
      \<and> (lk_item l, lk_group l) \<in> (\<lambda>r. (gr_id r, gr_group r)) ` set ?items"
    using lk e there by (force simp: kept_def new_def links_ok_def)
  ultimately have "links_ok db'" by (simp add: db' links_ok_def)
  then show ?thesis using ok by (auto simp: db' ledger_ok_def)
qed

lemma add_expense_ok:
  assumes "ledger_ok env db" "expense_ok db r" "en_id r \<notin> en_id ` set (expenses db)"
  shows "ledger_ok env (db\<lparr>expenses := expenses db @ [r]\<rparr>)"
  using assms by (auto simp: ledger_ok_def links_ok_def)

lemma set_expense_ok:
  assumes ok: "ledger_ok env db" and x: "entry_of db g i = Some x" and r: "expense_ok db r" "en_id r = i" "en_group r = g"
  shows "ledger_ok env (set_entry g i r db)"
proof -
  let ?f = "\<lambda>e. if en_id e = i \<and> en_group e = g then r else e"
  have key: "(en_id (?f e), en_group (?f e)) = (en_id e, en_group e)" for e using r by simp
  have ids: "map (en_id \<circ> ?f) (expenses db) = map en_id (expenses db)" using r by simp
  have "distinct (map en_id (map ?f (expenses db)))" using ok unfolding ledger_ok_def map_map ids by blast
  moreover have "(\<lambda>e. (en_id e, en_group e)) ` set (map ?f (expenses db)) = (\<lambda>e. (en_id e, en_group e)) ` set (expenses db)"
    unfolding set_map image_image key ..
  ultimately show ?thesis using ok r(1)
    unfolding set_entry_def ledger_ok_def links_ok_def by (auto simp del: map_map)
qed

lemma category_there: "category_of db g i = Some c \<Longrightarrow> (i, g) \<in> (\<lambda>c. (ct_id c, ct_group c)) ` set (categories db)"
  using find_holds by (force simp: category_of_def)

lemma round_nonneg: "rounding_ok env \<Longrightarrow> 0 \<le> x \<Longrightarrow> 0 \<le> round_away (fl env x)"
proof -
  assume r: "rounding_ok env" and x: "0 \<le> x"
  have "fl env 0 \<le> fl env x" "fl env 0 = 0" using r x unfolding rounding_ok_def by blast+
  then have "0 \<le> fl env x" by simp
  then have "0 \<le> \<lfloor>fl env x + 1 / 2\<rfloor>" unfolding zero_le_floor by simp
  then show ?thesis using \<open>0 \<le> fl env x\<close> by (simp add: round_away_def)
qed

lemma to_cents_ok:
  assumes "rounding_ok (kitchen env)" "to_cents env a = Inr c"
  shows "0 \<le> c \<and> c \<le> AMOUNT_MAX_EUROS * 100"
proof -
  obtain x where x: "a = Fin x" "0 \<le> x" "bounded_cents env x = Some c"
    using assms(2) by (cases a) (auto simp: to_cents_def amount_to_cents_def split: if_splits option.splits)
  have "0 \<le> round_away (fl (kitchen env) (x * 100))" using round_nonneg [OF assms(1)] x(2) by simp
  then show ?thesis using x(3) by (auto simp: bounded_cents_def Let_def sat_def I64_MIN_def I64_MAX_def AMOUNT_MAX_EUROS_def split: if_splits)
qed


section \<open>One write of an expense\<close>

definition told_between :: "budget_env \<Rightarrow> ledger \<Rightarrow> ledger \<Rightarrow> bool" where
  "told_between env db db' \<longleftrightarrow> (\<exists>sent rows. sent_alerts db' = sent_alerts db @ sent \<and> distinct sent \<and> set sent \<inter> set (sent_alerts db) = {}
     \<and> notifications (people (house db')) = notifications (people (house db)) @ rows \<and> map gist rows = notified env db sent
     \<and> categories db' = categories db \<and> memberships (people (house db')) = memberships (people (house db))
     \<and> accounts (people (house db')) = accounts (people (house db)))"

lemma notified_cong:
  assumes "categories b = categories a" "memberships (people (house b)) = memberships (people (house a))"
    "accounts (people (house b)) = accounts (people (house a))"
  shows "notified env b sent = notified env a sent"
proof -
  have c: "category_of b = category_of a" by (intro ext) (simp add: category_of_def assms(1))
  have t: "alert_text env b = alert_text env a" by (rule ext) (unfold alert_text_def c, rule refl)
  have m: "budget_holders b = budget_holders a" by (rule ext) (simp add: budget_holders_def assms(2,3))
  show ?thesis unfolding notified_def t m ..
qed

lemma told_between_refl: "told_between env db db"
  unfolding told_between_def by (intro exI [of _ "[]"]) (simp add: notified_def)

lemma told_between_trans:
  assumes "told_between env a b" "told_between env b c"
  shows "told_between env a c"
proof -
  obtain s1 r1 where 1: "sent_alerts b = sent_alerts a @ s1" "distinct s1" "set s1 \<inter> set (sent_alerts a) = {}"
    "notifications (people (house b)) = notifications (people (house a)) @ r1" "map gist r1 = notified env a s1"
    and same: "categories b = categories a" "memberships (people (house b)) = memberships (people (house a))"
    "accounts (people (house b)) = accounts (people (house a))" using assms(1) unfolding told_between_def by blast
  obtain s2 r2 where 2: "sent_alerts c = sent_alerts b @ s2" "distinct s2" "set s2 \<inter> set (sent_alerts b) = {}"
    "notifications (people (house c)) = notifications (people (house b)) @ r2" "map gist r2 = notified env b s2"
    "categories c = categories b" "memberships (people (house c)) = memberships (people (house b))"
    "accounts (people (house c)) = accounts (people (house b))" using assms(2) unfolding told_between_def by blast
  have "map gist (r1 @ r2) = notified env a (s1 @ s2)" using 1(5) 2(5) notified_cong [OF same] by (simp add: notified_def)
  then show ?thesis unfolding told_between_def using 1(1-4) 2(1-4,6-8) same
    by (intro exI [of _ "s1 @ s2"] exI [of _ "r1 @ r2"]) auto
qed

lemma told_more_between: "told_more env a b \<Longrightarrow> told_between env a b"
  unfolding told_more_def told_between_def Let_def by (elim exE, intro exI) auto

lemma quiet_between:
  "sent_alerts b = sent_alerts a \<Longrightarrow> house b = house a \<Longrightarrow> categories b = categories a \<Longrightarrow> told_between env a b"
  unfolding told_between_def by (intro exI [of _ "[]"]) (simp add: notified_def)

definition said :: "budget_env \<Rightarrow> ledger \<Rightarrow> uuid \<Rightarrow> date \<Rightarrow> bool" where
  "said env db g m \<longleftrightarrow> family_said env db g m \<and> category_said env db g m"

definition step_fine :: "budget_env \<Rightarrow> date \<Rightarrow> ledger \<Rightarrow> ledger \<Rightarrow> bool" where
  "step_fine env m db db' \<longleftrightarrow> ledger_ok env db' \<and> told_between env db db' \<and> (\<forall>g. said env db g m \<longrightarrow> said env db' g m)"

lemma find_in_append: "List.find P (xs @ ys) = (case List.find P xs of Some x \<Rightarrow> Some x | None \<Rightarrow> List.find P ys)"
  by (induction xs) auto

lemma current_cong: "budget_settings b = budget_settings a \<Longrightarrow> current_settings b g = current_settings a g"
  by (simp add: current_settings_def settings_of_def)

lemma lock_settings_other: "g0 \<noteq> g \<Longrightarrow> settings_of (lock_family db g) g0 = settings_of db g0"
  by (cases "settings_of db g") (auto simp: lock_family_def lock_settings_def settings_of_def default_settings_def find_in_append split: option.split)

lemma current_lock [simp]: "current_settings (lock_family db g) g0 = current_settings db g0"
proof (cases "g0 = g")
  case True
  then show ?thesis using current_after_lock [of db g] by (cases "lock_settings db g") (simp add: lock_family_def)
qed (simp add: current_settings_def lock_settings_other)

lemma said_cong:
  assumes "current_settings b g = current_settings a g" "categories b = categories a" "set (sent_alerts a) \<subseteq> set (sent_alerts b)"
    "month_entries env b g m = month_entries env a g m" "said env a g m"
  shows "said env b g m"
proof -
  have "categories_of b g = categories_of a g" using assms(2) by (simp add: categories_of_def)
  then show ?thesis using assms(1,3,4,5) unfolding said_def family_said_def category_said_def category_spent_def Let_def by auto
qed

lemma only_raises_cong:
  "expenses a = expenses b \<Longrightarrow> only_raises env today g d k a c \<Longrightarrow> only_raises env today g d k b c"
  unfolding only_raises_def category_spent_def month_entries_def by simp

lemma expense_write:
  assumes m: "months_ok env" and M: "M = first_of env today" and ok: "ledger_ok env db" and l: "dbl = db \<or> dbl = lock_family db g"
    and w: "watch env today dbl g d k = Inr (w, db1)" and two: "db2 = db1\<lparr>expenses := es, links := ls\<rparr>" and ok2: "ledger_ok env db2"
    and f: "fire_if env now fresh w db2 = Inr (us, db3)" and raise: "only_raises env today g d k db db2"
    and others: "\<And>g0 m. g0 \<noteq> g \<Longrightarrow> month_entries env db2 g0 m = month_entries env db g0 m"
  shows "step_fine env M db db3"
proof -
  have db1: "db1 = dbl \<or> db1 = lock_family dbl g" using watch_cases [OF m w] by metis
  have "current_settings db2 g0 = current_settings db1 g0" for g0 using two by (intro current_cong) simp
  then have same: "sent_alerts db2 = sent_alerts db" "house db2 = house db" "categories db2 = categories db"
    "current_settings db2 g0 = current_settings db g0" for g0
    using l db1 two by auto
  have okl: "ledger_ok env dbl" using l ok lock_ok by blast
  have wok: "watch_ok db2 x" if x: "w = Some x" for x
  proof -
    have "category_of db2 g i = category_of dbl g i" for i using two db1 by (auto simp: category_of_def)
    moreover have "w_group x = g" "w_category x = watched_category dbl g (current_settings dbl g) k"
      using x by (cases rule: watch_cases [OF m w]; simp)+
    ultimately show ?thesis using watched_is by (auto simp: watch_ok_def split: option.split)
  qed
  have t: "told_more env db2 db3" using f fire_told wok by (cases w) (auto simp: fire_if_def)
  have "told_between env db db3" using quiet_between [OF same(1-3)] told_more_between [OF t] told_between_trans by blast
  moreover have "said env db3 g M" if s: "said env db g M"
  proof -
    have "said env dbl g M" using s l by (auto intro: said_cong simp: month_entries_def)
    then have sl: "family_said env dbl g M" "category_said env dbl g M" by (simp_all add: said_def)
    have "only_raises env today g d k dbl db2" using l by (intro only_raises_cong [OF _ raise]) auto
    then show ?thesis using write_said [OF m w _ _ two f _ M sl] okl by (simp add: said_def ledger_ok_def)
  qed
  moreover have "said env db3 g0 M" if g0: "g0 \<noteq> g" "said env db g0 M" for g0
  proof -
    have "said env db2 g0 M" using g0 same others by (intro said_cong [OF _ _ _ _ g0(2)]) auto
    moreover have "current_settings db3 g0 = current_settings db2 g0" using told_same(7) [OF t] by (simp add: current_settings_def settings_of_def)
    moreover have "month_entries env db3 g0 M = month_entries env db2 g0 M" by (rule same_rows) (rule told_same(5) [OF t])
    ultimately show ?thesis using told_same(4,11) [OF t] by (intro said_cong [of db3 g0 db2]) auto
  qed
  ultimately show ?thesis using told_ok [OF ok2 t] unfolding step_fine_def by metis
qed


section \<open>The handlers\<close>

lemma first_seen_distinct: "distinct (first_seen seen xs) \<and> set (first_seen seen xs) \<inter> set seen = {}"
  by (induction seen xs rule: first_seen.induct) auto

lemma item_ids_distinct: "grocery_item_ids named = Inr ids \<Longrightarrow> distinct ids"
  using first_seen_distinct [of "[]" named] by (auto simp: grocery_item_ids_def Let_def split: if_splits)

lemma category_checked: "require_category db g i = Inr u \<Longrightarrow> (i, g) \<in> (\<lambda>c. (ct_id c, ct_group c)) ` set (categories db)"
  by (auto simp: require_category_def split: if_splits dest: category_there)

lemma payer_checked: "require_payer db g u = Inr x \<Longrightarrow> (g, u) \<in> (\<lambda>m. (mb_group m, mb_user m)) ` set (memberships (people (house db)))"
  by (auto simp: require_payer_def list_ex_iff split: if_splits)

lemma watch_db: "watch env today db g d k = Inr (w, db1) \<Longrightarrow> db1 = db \<or> db1 = lock_family db g"
  by (auto simp: watch_def Let_def and_then_Inr split: if_splits prod.splits option.splits dest: lock_settings_snd)

lemma replace_lowers:
  "\<forall>e \<in> set es. 0 \<le> en_cents e \<Longrightarrow> \<forall>e \<in> set es. f e = e \<or> \<not> P (f e) \<Longrightarrow> cents_of (filter P (map f es)) \<le> cents_of (filter P es)"
  by (induction es) auto

lemma filter_lowers:
  "\<forall>e \<in> set es. 0 \<le> en_cents e \<Longrightarrow> cents_of (filter P (filter Q es)) \<le> cents_of (filter P es)"
  by (induction es) auto

lemma same_month_iff: "months_ok env \<Longrightarrow> first_of env d = first_of env today \<longleftrightarrow> in_month env d today"
proof -
  assume m: "months_ok env"
  have "in_month env d (first_of env today) \<longleftrightarrow> in_month env d today"
    using first_of_month(2) [OF m, of today] by (simp add: in_month_def)
  then show ?thesis using first_of_month(3) [OF m first_of_month(1) [OF m]] by blast
qed

lemma and_thenE: "and_then r f = Inr y \<Longrightarrow> (\<And>x. r = Inr x \<Longrightarrow> f x = Inr y \<Longrightarrow> P) \<Longrightarrow> P"
  by (auto simp: and_then_Inr)

lemma raises_append:
  assumes "months_ok env" "expenses db' = expenses db @ [r]" "en_spent_at r = d" "en_category r = k"
  shows "only_raises env today g d k db db'"
proof -
  have "first_of env d = first_of env today \<longleftrightarrow> in_month env d today"
    by (rule same_month_iff [OF assms(1)])
  then show ?thesis using assms(2-4) by (auto simp: only_raises_def category_spent_def month_entries_def)
qed

lemma raises_replace:
  assumes "months_ok env" "expenses db' = map (\<lambda>e. if P e then r else e) (expenses db)" "en_spent_at r = d" "en_category r = k"
    "\<forall>e \<in> set (expenses db). 0 \<le> en_cents e"
  shows "only_raises env today g d k db db'"
proof -
  have d: "first_of env d = first_of env today \<longleftrightarrow> in_month env d today"
    by (rule same_month_iff [OF assms(1)])
  have "cents_of (filter Q (expenses db')) \<le> cents_of (filter Q (expenses db))" if "\<not> Q r" for Q
    unfolding assms(2) using that by (intro replace_lowers assms(5)) auto
  from this [of "\<lambda>e. en_group e = g \<and> first_of env (en_spent_at e) = first_of env today"]
    this [of "\<lambda>e. (en_group e = g \<and> first_of env (en_spent_at e) = first_of env today) \<and> en_category e = Some i" for i]
  show ?thesis using d assms(3,4)
    by (auto simp: only_raises_def category_spent_def month_entries_def conj_commute)
qed

definition new_ids :: "caller \<Rightarrow> ledger \<Rightarrow> bool" where
  "new_ids c db \<longleftrightarrow> c_fresh c 0 \<notin> en_id ` set (expenses db) \<and> c_fresh c 0 \<notin> ct_id ` set (categories db)"

lemma create_step:
  assumes m: "months_ok env" and r: "rounding_ok (kitchen env)" and ok: "ledger_ok env db" and new: "new_id \<notin> en_id ` set (expenses db)"
    and x: "create_budget_entry env db now today user g new_id fresh b = Inr (v, us, db')"
  shows "step_fine env (first_of env today) db db'"
proof -
  obtain b :: entry_body where b: "(if trim_text (eb_name b) = [] then Inl (Bad_request ''name_required'')
       else
         and_then (to_cents env (eb_amount b)) (\<lambda>cents.
         and_then (if_given (require_category db g) (eb_category b)) (\<lambda>_.
         and_then (if_given (require_payer db g) (eb_paid_by b)) (\<lambda>_.
         and_then (grocery_item_ids ((case eb_item b of Some i \<Rightarrow> [i] | None \<Rightarrow> []) @ eb_items b)) (\<lambda>ids.
           let db = (if ids \<noteq> [] then lock_family db g else db);
               spent_at = given_or (eb_spent_at b) today
           in and_then (watch env today db g spent_at (eb_category b)) (\<lambda>(w, db).
                let r = \<lparr>en_id = new_id, en_group = g, en_created_by = user, en_category = eb_category b, en_paid_by = eb_paid_by b,
                         en_name = trim_text (eb_name b), en_cents = cents, en_spent_at = spent_at, en_created_at = now, en_updated_at = now\<rparr>;
                    db = db\<lparr>expenses := expenses db @ [r]\<rparr>
                in and_then (if ids \<noteq> [] then set_links g new_id ids db else Inr db) (\<lambda>db.
                   and_then (fire_if env now fresh w db) (\<lambda>(alerted, db).
                     Inr (entry_shown env db g r, alerted, db))))))))) = Inr (v, us, db')"
    using x unfolding create_budget_entry_def by (elim and_thenE) (rule that)
  then have "trim_text (eb_name b) \<noteq> []" by auto
  note b = b [unfolded if_not_P [OF this]]
  obtain cents u1 u2 ids where c: "to_cents env (eb_amount b) = Inr cents" "if_given (require_category db g) (eb_category b) = Inr u1"
      "if_given (require_payer db g) (eb_paid_by b) = Inr u2" "grocery_item_ids ((case eb_item b of Some i \<Rightarrow> [i] | None \<Rightarrow> []) @ eb_items b) = Inr ids"
    and rest: "(let db = (if ids \<noteq> [] then lock_family db g else db);
               spent_at = given_or (eb_spent_at b) today
           in and_then (watch env today db g spent_at (eb_category b)) (\<lambda>(w, db).
                let r = \<lparr>en_id = new_id, en_group = g, en_created_by = user, en_category = eb_category b, en_paid_by = eb_paid_by b,
                         en_name = trim_text (eb_name b), en_cents = cents, en_spent_at = spent_at, en_created_at = now, en_updated_at = now\<rparr>;
                    db = db\<lparr>expenses := expenses db @ [r]\<rparr>
                in and_then (if ids \<noteq> [] then set_links g new_id ids db else Inr db) (\<lambda>db.
                   and_then (fire_if env now fresh w db) (\<lambda>(alerted, db).
                     Inr (entry_shown env db g r, alerted, db))))) = Inr (v, us, db')"
    using b by (elim and_thenE) (rule that)
  define dbl where "dbl = (if ids \<noteq> [] then lock_family db g else db)"
  define row where "row = \<lparr>en_id = new_id, en_group = g, en_created_by = user, en_category = eb_category b, en_paid_by = eb_paid_by b,
      en_name = trim_text (eb_name b), en_cents = cents, en_spent_at = given_or (eb_spent_at b) today, en_created_at = now, en_updated_at = now\<rparr>"
  obtain w db1 db2 where w: "watch env today dbl g (given_or (eb_spent_at b) today) (eb_category b) = Inr (w, db1)"
    and l: "(if ids \<noteq> [] then set_links g new_id ids (db1\<lparr>expenses := expenses db1 @ [row]\<rparr>) else Inr (db1\<lparr>expenses := expenses db1 @ [row]\<rparr>)) = Inr db2"
    and f: "fire_if env now fresh w db2 = Inr (us, db')"
    using rest [unfolded Let_def, folded row_def dbl_def] by (auto simp: and_then_Inr)
  have dbl: "dbl = db \<or> dbl = lock_family db g" "ledger_ok env dbl" using ok lock_ok by (auto simp: dbl_def)
  have db1: "db1 = dbl \<or> db1 = lock_family dbl g" "ledger_ok env db1" using watch_db [OF w] dbl(2) lock_ok by auto
  have same: "expenses db1 = expenses db" "\<And>e. expense_ok db1 e = expense_ok db e" using db1(1) dbl(1) by auto
  have row: "expense_ok db row"
    using to_cents_ok [OF r c(1)] c(2,3)
    by (auto simp: expense_ok_def row_def if_given_def split: option.splits dest: category_checked payer_checked)
  have ok1: "ledger_ok env (db1\<lparr>expenses := expenses db1 @ [row]\<rparr>)"
    using add_expense_ok [OF db1(2)] row new same by (simp add: row_def)
  have "ledger_ok env db2 \<and> db2 = db1\<lparr>expenses := expenses db @ [row], links := links db2\<rparr>"
  proof (cases "ids = []")
    case True
    then show ?thesis using l ok1 same by simp
  next
    case False
    have "(new_id, g) \<in> (\<lambda>e. (en_id e, en_group e)) ` set (expenses (db1\<lparr>expenses := expenses db1 @ [row]\<rparr>))" by (simp add: row_def)
    from set_links_Inr [OF ok1 this item_ids_distinct [OF c(4)], of db2] show ?thesis using l False same by simp
  qed
  then have two: "ledger_ok env db2" "db2 = db1\<lparr>expenses := expenses db @ [row], links := links db2\<rparr>" by auto
  have ex: "expenses db2 = expenses db @ [row]" by (subst two(2)) simp
  show ?thesis
    by (rule expense_write [OF m refl ok dbl(1) w two(2,1) f])
      (auto simp: month_entries_def ex row_def intro!: raises_append [OF m ex])
qed


lemma entry_there: "entry_of db g i = Some e \<Longrightarrow> e \<in> set (expenses db) \<and> en_id e = i \<and> en_group e = g"
  by (auto simp: entry_of_def find_Some_iff)

lemma set_entry_sel [simp]:
  "expenses (set_entry g i r db) = map (\<lambda>e. if en_id e = i \<and> en_group e = g then r else e) (expenses db)"
  by (simp add: set_entry_def)

lemma others_replaced:
  assumes "expenses db' = map (\<lambda>e. if en_id e = i \<and> en_group e = g then r else e) (expenses db)" "en_group r = g" "g0 \<noteq> g"
  shows "month_entries env db' g0 m = month_entries env db g0 m"
proof -
  have f: "filter P (map (\<lambda>e. if en_id e = i \<and> en_group e = g then r else e) es) = filter P es"
    if "\<And>e. P e \<Longrightarrow> en_group e = g0" for P and es :: "entry_row list"
  proof -
    have "\<not> P r" "en_group e = g \<Longrightarrow> \<not> P e" for e using that [of r] that [of e] assms(2,3) by auto
    then show ?thesis by (induction es) simp_all
  qed
  show ?thesis unfolding month_entries_def assms(1) by (rule f) simp
qed

lemma cents_of_ok: "ledger_ok env db \<Longrightarrow> \<forall>e \<in> set (expenses db). 0 \<le> en_cents e"
  by (auto simp: ledger_ok_def expense_ok_def)

text \<open>Both ends of an update: the row replaced, and its links set or left.\<close>

lemma replace_write:
  assumes m: "months_ok env" and ok: "ledger_ok env db" and dbl: "dbl = db \<or> dbl = lock_family db g" and e: "entry_of db g i = Some e"
    and w: "watch env today dbl g d k = Inr (w, db1)" and r: "expense_ok db r" "en_id r = i" "en_group r = g" "en_spent_at r = d" "en_category r = k"
    and l: "(case ids of Some ids \<Rightarrow> set_links g i ids (set_entry g i r db1) | None \<Rightarrow> Inr (set_entry g i r db1)) = Inr db2"
    and ids: "\<forall>x. ids = Some x \<longrightarrow> distinct x" and f: "fire_if env now fresh w db2 = Inr (us, db')"
  shows "step_fine env (first_of env today) db db'"
proof -
  have dbl2: "ledger_ok env dbl" using ok lock_ok dbl by blast
  have db1: "db1 = dbl \<or> db1 = lock_family dbl g" "ledger_ok env db1" using watch_db [OF w] dbl2 lock_ok by auto
  have same: "expenses db1 = expenses db" "\<And>e. expense_ok db1 e = expense_ok db e" using db1(1) dbl by auto
  have e1: "entry_of db1 g i = Some e" using e by (simp add: entry_of_def same)
  have ok1: "ledger_ok env (set_entry g i r db1)" using set_expense_ok [OF db1(2) e1] r same by simp
  have in1: "(i, g) \<in> (\<lambda>e. (en_id e, en_group e)) ` set (expenses (set_entry g i r db1))"
    using entry_there [OF e1] r by force
  have "ledger_ok env db2 \<and> db2 = (set_entry g i r db1)\<lparr>links := links db2\<rparr>"
    using l ok1 set_links_Inr [OF ok1 in1] ids by (cases ids) auto
  then have two: "ledger_ok env db2" "db2 = db1\<lparr>expenses := map (\<lambda>e. if en_id e = i \<and> en_group e = g then r else e) (expenses db), links := links db2\<rparr>"
    by (blast, simp add: set_entry_def same)
  have ex: "expenses db2 = map (\<lambda>e. if en_id e = i \<and> en_group e = g then r else e) (expenses db)" by (subst two(2)) simp
  show ?thesis
    by (rule expense_write [OF m refl ok dbl w two(2,1) f])
      (auto intro: raises_replace [OF m ex r(4,5)] others_replaced [OF ex r(3)] dest: cents_of_ok [OF ok, THEN bspec])
qed

lemma unpriced:
  assumes ok: "ledger_ok env db" and i: "grocery_item (house db) g item = Some it" and n: "priced_by db g item = None"
  shows "item \<notin> lk_item ` set (links db)"
proof
  assume "item \<in> lk_item ` set (links db)"
  then obtain l where l: "l \<in> set (links db)" "lk_item l = item" by auto
  have it: "it \<in> set (grocery_items (house db))" "gr_id it = item" "gr_group it = g"
    using i by (auto simp: grocery_item_def find_Some_iff)
  have lk: "links_ok db" "distinct (map gr_id (grocery_items (house db)))" using ok by (simp_all add: ledger_ok_def)
  obtain x where x: "x \<in> set (grocery_items (house db))" "gr_id x = item" "gr_group x = lk_group l"
    using lk(1) l by (auto simp: links_ok_def)
  have "x = it" using only_one [OF lk(2) x(1) it(1)] x(2) it(2) by simp
  then have "lk_group l = g" using x it by simp
  moreover obtain e where "e \<in> set (expenses db)" "en_id e = lk_entry l" "en_group e = lk_group l"
    using lk(1) l by (force simp: links_ok_def)
  ultimately show False using n l unfolding priced_by_def find_None_iff list_ex_iff by metis
qed

lemma price_step:
  assumes m: "months_ok env" and r: "rounding_ok (kitchen env)" and ok: "ledger_ok env db" and new: "new_id \<notin> en_id ` set (expenses db)"
    and x: "set_grocery_item_price env db now today user g item new_id fresh b = Inr (v, us, db')"
  shows "step_fine env (first_of env today) db db'"
proof -
  define dbl where "dbl = lock_family db g"
  have okl: "ledger_ok env dbl" using ok lock_ok by (simp add: dbl_def)
  obtain it where it: "grocery_item (house dbl) g item = Some it"
    using x by (cases "grocery_item (house dbl) g item") (auto simp: set_grocery_item_price_def and_then_Inr dbl_def Let_def)
  let ?new = "\<lambda>cents d. \<lparr>en_id = new_id, en_group = g, en_created_by = user, en_category = None, en_paid_by = None,
      en_name = gr_name it, en_cents = cents, en_spent_at = d, en_created_at = now, en_updated_at = now\<rparr>"
  obtain cents0 cents d w db1 where c: "to_cents env cents0 = Inr cents"
    and w: "watch env today dbl g d (case priced_by dbl g item of Some e \<Rightarrow> en_category e | None \<Rightarrow> None) = Inr (w, db1)"
    and f: "fire_if env now fresh w (case priced_by dbl g item of
          Some e \<Rightarrow> set_entry g (en_id e) (e\<lparr>en_name := gr_name it, en_cents := cents, en_spent_at := d, en_updated_at := now\<rparr>) db1
        | None \<Rightarrow> db1\<lparr>expenses := expenses db1 @ [?new cents d],
                    links := links db1 @ [\<lparr>lk_entry = new_id, lk_item = item, lk_group = g\<rparr>]\<rparr>) = Inr (us, db')"
  proof (cases "priced_by dbl g item")
    case None
    then show ?thesis using x it that
      by (auto simp: set_grocery_item_price_def and_then_Inr Let_def simp flip: dbl_def)
  next
    case (Some e)
    then show ?thesis using x it that
      by (auto simp: set_grocery_item_price_def and_then_Inr Let_def simp flip: dbl_def split: if_splits)
  qed
  have db1: "db1 = dbl \<or> db1 = lock_family dbl g" using watch_db [OF w] .
  have same: "expenses db1 = expenses db" "links db1 = links db" "expense_ok db1 e = expense_ok db e" "house db1 = house db" for e
    using db1 by (auto simp: dbl_def)
  note bounds = to_cents_ok [OF r c]
  show ?thesis
  proof (cases "priced_by dbl g item")
    case (Some e)
    have e: "e \<in> set (expenses db)" "en_group e = g" using Some by (auto simp: priced_by_def find_Some_iff dbl_def)
    have eo: "entry_of db g (en_id e) = Some e"
    proof -
      obtain y where y: "entry_of db g (en_id e) = Some y" using e by (cases "entry_of db g (en_id e)") (auto simp: entry_of_def find_None_iff)
      have "distinct (map en_id (expenses db))" using ok by (simp add: ledger_ok_def)
      from only_one [OF this, of y e] show ?thesis using entry_there [OF y] e y by simp
    qed
    let ?r = "e\<lparr>en_name := gr_name it, en_cents := cents, en_spent_at := d, en_updated_at := now\<rparr>"
    have "expense_ok db ?r" using ok e(1) bounds by (auto simp: ledger_ok_def expense_ok_def split: option.splits)
    moreover have "fire_if env now fresh w (set_entry g (en_id e) ?r db1) = Inr (us, db')" using f Some by simp
    ultimately show ?thesis
      using Some e w by (intro replace_write [OF m ok disjI2 eo, where ids = None and r = ?r]) (auto simp: dbl_def)
  next
    case None
    let ?r = "?new cents d"
    let ?l = "\<lparr>lk_entry = new_id, lk_item = item, lk_group = g\<rparr>"
    define db2 where "db2 = db1\<lparr>expenses := expenses db1 @ [?r], links := links db1 @ [?l]\<rparr>"
    have f: "fire_if env now fresh w db2 = Inr (us, db')" using f None by (simp add: db2_def)
    have ok1: "ledger_ok env db1" using db1 okl lock_ok by auto
    have "expense_ok db1 ?r" using bounds by (simp add: expense_ok_def)
    then have "ledger_ok env (db1\<lparr>expenses := expenses db1 @ [?r]\<rparr>)" using add_expense_ok [OF ok1] new same by simp
    moreover have "item \<notin> lk_item ` set (links db1)" using unpriced [OF okl it None] same by (simp add: dbl_def)
    moreover have "(item, g) \<in> (\<lambda>r. (gr_id r, gr_group r)) ` set (grocery_items (house db1))"
      using it same by (force simp: grocery_item_def find_Some_iff dbl_def)
    ultimately have ok2: "ledger_ok env db2" by (auto simp: db2_def ledger_ok_def links_ok_def)
    have ex: "expenses db2 = expenses db @ [?r]" by (simp add: db2_def same)
    show ?thesis
      by (rule expense_write [OF m refl ok _ w [unfolded None option.case] db2_def ok2 f])
        (auto simp: month_entries_def ex dbl_def intro!: raises_append [OF m ex])
  qed
qed

lemma patched_ok: "patched check v old = Inr r \<Longrightarrow> r = old \<or> r = None \<or> (\<exists>x. r = Some x \<and> check x = Inr ())"
  by (auto simp: patched_def and_then_Inr split: option.splits)

lemma update_step:
  assumes m: "months_ok env" and r: "rounding_ok (kitchen env)" and ok: "ledger_ok env db"
    and x: "update_budget_entry env db now today user g i fresh b = Inr (v, us, db')"
  shows "step_fine env (first_of env today) db db'"
proof -
  define dbl where "dbl = lock_family db g"
  obtain e where e: "entry_of dbl g i = Some e"
    using x by (cases "entry_of dbl g i") (auto simp: update_budget_entry_def and_then_Inr dbl_def Let_def)
  obtain bd :: entry_patch and cents cat paid_by ids w db1 db2 where
      c: "(case ep_amount bd of Some a \<Rightarrow> to_cents env a | None \<Rightarrow> Inr (en_cents e)) = Inr cents"
    and p: "patched (require_category dbl g) (ep_category bd) (en_category e) = Inr cat"
      "patched (require_payer dbl g) (ep_paid_by bd) (en_paid_by e) = Inr paid_by"
    and ids: "(case ep_items bd of None \<Rightarrow> Inr None | Some ids \<Rightarrow> and_then (grocery_item_ids ids) (\<lambda>ids. Inr (Some ids))) = Inr ids"
    and w: "watch env today dbl g (given_or (ep_spent_at bd) (en_spent_at e)) cat = Inr (w, db1)"
    and l: "(let r = e\<lparr>en_name := given_or (map_option trim_text (ep_name bd)) (en_name e), en_cents := cents,
              en_spent_at := given_or (ep_spent_at bd) (en_spent_at e), en_category := cat, en_paid_by := paid_by, en_updated_at := now\<rparr>
        in case ids of Some ids \<Rightarrow> set_links g i ids (set_entry g i r db1) | None \<Rightarrow> Inr (set_entry g i r db1)) = Inr db2"
    and f: "fire_if env now fresh w db2 = Inr (us, db')"
    using x that by (auto simp: update_budget_entry_def and_then_Inr Let_def e simp flip: dbl_def split: if_splits)
  define r1 where "r1 = e\<lparr>en_name := given_or (map_option trim_text (ep_name bd)) (en_name e), en_cents := cents,
              en_spent_at := given_or (ep_spent_at bd) (en_spent_at e), en_category := cat, en_paid_by := paid_by, en_updated_at := now\<rparr>"
  have e0: "entry_of db g i = Some e" using e by (simp add: dbl_def entry_of_def)
  note there = entry_there [OF e0]
  have eo: "expense_ok db e" using ok there by (simp add: ledger_ok_def)
  have "0 \<le> cents \<and> cents \<le> AMOUNT_MAX_EUROS * 100"
    using c to_cents_ok [OF r] eo by (auto simp: expense_ok_def split: option.splits)
  moreover have "case cat of None \<Rightarrow> True | Some k \<Rightarrow> (k, g) \<in> (\<lambda>c. (ct_id c, ct_group c)) ` set (categories db)"
    using patched_ok [OF p(1)] eo there category_checked [of dbl g] by (auto simp: expense_ok_def dbl_def split: option.splits)
  moreover have "case paid_by of None \<Rightarrow> True | Some u \<Rightarrow> (g, u) \<in> (\<lambda>m. (mb_group m, mb_user m)) ` set (memberships (people (house db)))"
    using patched_ok [OF p(2)] eo there payer_checked [of dbl g] by (auto simp: expense_ok_def dbl_def split: option.splits)
  ultimately have "expense_ok db r1" using there unfolding expense_ok_def r1_def by (simp split: option.splits)
  moreover have "\<forall>x. ids = Some x \<longrightarrow> distinct x"
    using ids item_ids_distinct by (auto simp: and_then_Inr split: option.splits)
  ultimately show ?thesis
    using l [unfolded Let_def, folded r1_def] there w f
    by (intro replace_write [OF m ok disjI2 e0, where ids = ids and r = r1]) (simp_all add: dbl_def r1_def)
qed

lemma delete_step:
  assumes ok: "ledger_ok env db" and x: "delete_budget_entry db user g i = Inr db'"
  shows "step_fine env m db db'"
proof -
  let ?P = "\<lambda>e. \<not> (en_id e = i \<and> en_group e = g)" and ?L = "\<lambda>l. \<not> (lk_entry l = i \<and> lk_group l = g)"
  have db': "db' = db\<lparr>expenses := filter ?P (expenses db), links := filter ?L (links db)\<rparr>"
    using x by (auto simp: delete_budget_entry_def and_then_Inr split: option.splits if_splits)
  have "links_ok db'"
    using ok by (force simp: db' ledger_ok_def links_ok_def distinct_map_filter)
  moreover have "\<forall>e \<in> set (expenses db'). expense_ok db' e" using ok by (simp add: db' ledger_ok_def)
  ultimately have okd: "ledger_ok env db'" using ok by (simp add: db' ledger_ok_def distinct_map_filter)
  have low: "cents_of (filter Q (expenses db')) \<le> cents_of (filter Q (expenses db))" for Q
    unfolding db' using filter_lowers [OF cents_of_ok [OF ok]] by simp
  have fam: "family_spent env db' g m \<le> family_spent env db g m" for g using low by (simp add: month_entries_def)
  have cat: "category_spent env db' g m k \<le> category_spent env db g m k" for g k
    using low by (simp add: category_spent_def month_entries_def)
  have "said env db' g0 m" if s: "said env db g0 m" for g0
  proof -
    have cur: "current_settings db' g0 = current_settings db g0" "categories_of db' g0 = categories_of db g0" "sent_alerts db' = sent_alerts db"
      by (simp_all add: db' current_settings_def settings_of_def categories_of_def)
    show ?thesis using s reached_mono [OF _ fam] order.strict_trans2 [OF _ cat]
      unfolding said_def family_said_def category_said_def Let_def cur by blast
  qed
  moreover have "told_between env db db'" by (rule quiet_between) (simp_all add: db')
  ultimately show ?thesis using okd by (simp add: step_fine_def)
qed

section \<open>The categories and the settings\<close>

lemma set_settings_ok:
  assumes ok: "ledger_ok env db" and f: "\<And>s. bs_group (f s) = bs_group s" "\<And>s. cap_ok (bs_cap s) \<Longrightarrow> cap_ok (bs_cap (f s))"
  shows "ledger_ok env (set_settings g f db)"
proof -
  have k: "map (\<lambda>s. bs_group (if bs_group s = g then f s else s)) ss = map bs_group ss" for ss using f(1) by (induction ss) auto
  have "settings_ok (budget_settings (lock_family db g))" using lock_ok [OF ok] by (simp add: ledger_ok_def)
  then have "settings_ok (budget_settings (set_settings g f db))"
    using f by (auto simp: settings_ok_def set_settings_def k o_def)
  moreover have "expense_ok (set_settings g f db) e = expense_ok db e" for e by (rule expense_ok_cong) (simp_all add: set_settings_def)
  ultimately show ?thesis using ok by (simp add: ledger_ok_def links_ok_def set_settings_def)
qed

lemma optional_cap_ok: "category_refused (optional_cap env b) = Inr k \<Longrightarrow> cap_ok k"
  by (auto simp: category_refused_def optional_cap_def cap_to_cents_def bounded_cents_def cap_ok_def Let_def sat_def
      I64_MIN_def I64_MAX_def AMOUNT_MAX_EUROS_def split: option.splits sum.splits if_splits)

lemma settings_step:
  assumes "ledger_ok env db"
  shows "put_budget_settings env db user g b = Inr (q, db') \<Longrightarrow> ledger_ok env db'"
    "patch_alert_settings db user g p = Inr (r, db') \<Longrightarrow> ledger_ok env db'"
  using optional_cap_ok
  by (auto simp: put_budget_settings_def patch_alert_settings_def and_then_Inr Let_def intro!: set_settings_ok [OF assms])

lemma valid_name: "category_refused (validate_category_name n) = Inr name \<Longrightarrow>
  name \<noteq> [] \<and> trim_text name = name \<and> length name \<le> CATEGORY_NAME_MAX"
  by (auto simp: category_refused_def validate_category_name_def Let_def split: sum.splits if_splits)

lemma same_tables_ok:
  assumes "ledger_ok env db" "categories_ok env cs" "(\<lambda>c. (ct_id c, ct_group c)) ` set (categories db) \<subseteq> (\<lambda>c. (ct_id c, ct_group c)) ` set cs"
  shows "ledger_ok env (db\<lparr>categories := cs\<rparr>)"
proof -
  have "expense_ok (db\<lparr>categories := cs\<rparr>) e" if "expense_ok db e" for e
    using that assms(3) unfolding expense_ok_def by (auto split: option.splits)
  then show ?thesis using assms(1,2) by (simp add: ledger_ok_def links_ok_def)
qed

lemma category_created:
  assumes ok: "ledger_ok env db" and new: "new_id \<notin> ct_id ` set (categories db)"
    and x: "create_budget_category env db now user g new_id b = Inr (v, db')"
  shows "ledger_ok env db'"
proof -
  obtain n name c color k bnd r where v: "category_refused (validate_category_name n) = Inr name" "category_refused (valid_color c) = Inr color"
      "category_refused (optional_cap env k) = Inr bnd"
    and r: "r = \<lparr>ct_id = new_id, ct_group = g, ct_name = name, ct_color = color, ct_cap = bnd, ct_created_at = now, ct_updated_at = now\<rparr>"
    and full: "length (categories_of db g) < CATEGORIES_MAX" and taken: "\<not> name_taken env db g new_id name"
    and db': "db' = (lock_family db g)\<lparr>categories := categories db @ [r]\<rparr>"
    using x by (auto simp: create_budget_category_def and_then_Inr Let_def categories_of_def name_taken_def split: if_splits)
  have "category_ok r" using valid_name [OF v(1)] optional_cap_ok [OF v(3)] v(2)
    by (auto simp: category_ok_def r category_refused_def valid_color_def split: sum.splits if_splits)
  moreover have "(g, sql_lower env name) \<notin> (\<lambda>c. (ct_group c, sql_lower env (ct_name c))) ` set (categories db)"
    using taken new by (auto simp: name_taken_def list_ex_iff)
  ultimately have "categories_ok env (categories db @ [r])"
    using ok new full by (auto simp: ledger_ok_def categories_ok_def categories_of_def r)
  then show ?thesis unfolding db' using lock_ok [OF ok] by (intro same_tables_ok) auto
qed

lemma valid_color_ok: "category_refused (valid_color c) = Inr color \<Longrightarrow> is_category_color color"
  by (auto simp: category_refused_def valid_color_def split: if_splits)

lemma distinct_replaced:
  assumes i: "distinct (map i xs)" and k: "distinct (map k xs)" and P: "\<And>x. P x \<Longrightarrow> i x = i r"
    and new: "\<And>x. x \<in> set xs \<Longrightarrow> i x \<noteq> i r \<Longrightarrow> k x \<noteq> k r"
  shows "distinct (map k (map (\<lambda>x. if P x then r else x) xs))"
proof -
  have "inj_on (\<lambda>x. k (if P x then r else x)) (set xs)"
  proof (rule inj_onI)
    fix a b assume ab: "a \<in> set xs" "b \<in> set xs" and e: "k (if P a then r else a) = k (if P b then r else b)"
    have "x = y" if "P x" "x \<in> set xs" "y \<in> set xs" "k (if P y then r else y) = k r" for x y
    proof -
      have "i y = i r" using that new [of y] P [of y] by (cases "P y") auto
      then show ?thesis using only_one [OF i, of x y] P that by simp
    qed
    from this [of a b] this [of b a] show "a = b"
      using ab e only_one [OF k, of a b] by (cases "P a"; cases "P b") auto
  qed
  then show ?thesis using i by (simp add: distinct_map o_def)
qed

lemma patch_given:
  assumes "category_refused (optionally f v) = Inr x" "\<And>y z. category_refused (f y) = Inr z \<Longrightarrow> Q z" "Q old"
  shows "Q (given_or x old)"
  using assms(1,3) assms(2) [of "the v"]
  by (cases v) (auto simp: optionally_def category_refused_def given_or_def split: sum.splits)

lemma category_updated:
  assumes ok: "ledger_ok env db" and x: "update_budget_category env db now user g i b = Inr (v, db')"
  shows "ledger_ok env db'"
proof -
  obtain b' :: category_patch and name color bnd e where
      v: "category_refused (optionally validate_category_name (cp_name b')) = Inr name"
      "category_refused (optionally valid_color (cp_color b')) = Inr color"
      "category_refused (optionally (optional_cap env) (cp_cap b')) = Inr bnd"
    and e: "category_of db g i = Some e" and rest: "(let r = e\<lparr>ct_name := given_or name (ct_name e), ct_color := given_or color (ct_color e),
                     ct_cap := given_or bnd (ct_cap e), ct_updated_at := now\<rparr>
           in \<not> name_taken env db g i (ct_name r) \<and>
              db' = db\<lparr>categories := map (\<lambda>c. if ct_id c = i \<and> ct_group c = g then r else c) (categories db)\<rparr>)"
    using x that by (auto simp: update_budget_category_def and_then_Inr Let_def split: if_splits option.splits)
  define r where "r = e\<lparr>ct_name := given_or name (ct_name e), ct_color := given_or color (ct_color e),
                     ct_cap := given_or bnd (ct_cap e), ct_updated_at := now\<rparr>"
  let ?f = "\<lambda>c. if ct_id c = i \<and> ct_group c = g then r else c"
  have taken: "\<not> name_taken env db g i (ct_name r)" and db': "db' = db\<lparr>categories := map ?f (categories db)\<rparr>"
    using rest by (simp_all add: r_def Let_def)
  have there: "e \<in> set (categories db)" "ct_id e = i" "ct_group e = g" using e by (auto simp: category_of_def find_Some_iff)
  have cs: "categories_ok env (categories db)" using ok by (simp add: ledger_ok_def)
  have key: "ct_id (?f c) = ct_id c" "ct_group (?f c) = ct_group c" for c using there by (simp_all add: r_def)
  have eok: "category_ok e" using cs there(1) by (simp add: categories_ok_def)
  have n: "ct_name r \<noteq> [] \<and> trim_text (ct_name r) = ct_name r \<and> length (ct_name r) \<le> CATEGORY_NAME_MAX"
    using patch_given [OF v(1), of "\<lambda>n. n \<noteq> [] \<and> trim_text n = n \<and> length n \<le> CATEGORY_NAME_MAX" "ct_name e"] valid_name eok
    by (simp add: r_def category_ok_def)
  have color: "ct_color r = given_or color (ct_color e)" and bnd: "ct_cap r = given_or bnd (ct_cap e)" by (simp_all add: r_def)
  have "is_category_color (ct_color r)"
    unfolding color by (rule patch_given [OF v(2)], erule valid_color_ok, use eok in \<open>simp add: category_ok_def\<close>)
  moreover have "cap_ok (ct_cap r)"
    unfolding bnd by (rule patch_given [OF v(3)], erule optional_cap_ok, use eok in \<open>simp add: category_ok_def\<close>)
  ultimately have okr: "category_ok r" using n by (simp add: category_ok_def)
  let ?k = "\<lambda>c. (ct_group c, sql_lower env (ct_name c))"
  have "distinct (map ?k (map ?f (categories db)))"
    using cs taken there by (intro distinct_replaced [where i = ct_id]) (auto simp: categories_ok_def name_taken_def list_ex_iff r_def)
  moreover have "length (filter (\<lambda>c. ct_group c = h) (map ?f cs)) = length (filter (\<lambda>c. ct_group c = h) cs)" for h cs
    by (induction cs) (simp_all add: key(2))
  moreover have "ct_id \<circ> ?f = ct_id" by (rule ext) (simp add: key(1))
  ultimately have "categories_ok env (map ?f (categories db))"
    using cs okr by (auto simp: categories_ok_def)
  moreover have "(\<lambda>c. (ct_id c, ct_group c)) ` set (map ?f cs) = (\<lambda>c. (ct_id c, ct_group c)) ` set cs" for cs
    unfolding set_map image_image key ..
  ultimately show ?thesis unfolding db' using ok by (intro same_tables_ok) auto
qed

lemma category_deleted:
  assumes ok: "ledger_ok env db" and x: "delete_budget_category db user g i = Inr db'"
  shows "ledger_ok env db'"
proof -
  let ?P = "\<lambda>c. \<not> (ct_id c = i \<and> ct_group c = g)"
  define f where "f = (\<lambda>e :: entry_row. if en_group e = g \<and> en_category e = Some i then e\<lparr>en_category := None\<rparr> else e)"
  have db': "db' = db\<lparr>categories := filter ?P (categories db), expenses := map f (expenses db),
                   sent_alerts := filter (\<lambda>a. \<not> (al_group a = g \<and> al_category a = Some i)) (sent_alerts db)\<rparr>"
    using x by (auto simp: delete_budget_category_def and_then_Inr f_def split: option.splits)
  have key: "(en_id (f e), en_group (f e)) = (en_id e, en_group e)" for e by (simp add: f_def)
  have "expense_ok db' (f e)" if "expense_ok db e" for e
    using that unfolding expense_ok_def by (auto simp: db' f_def image_iff split: option.splits)
  moreover have "expenses db' = map f (expenses db)" by (simp add: db')
  ultimately have "\<forall>e \<in> set (expenses db'). expense_ok db' e" using ok by (auto simp: ledger_ok_def)
  moreover have "categories_ok env (categories db')"
  proof -
    have "length (filter Q (filter ?P cs)) \<le> length (filter Q cs)" for Q and cs :: "category_row list" by (induction cs) auto
    then have "length (filter (\<lambda>c. ct_group c = h) (filter ?P (categories db))) \<le> CATEGORIES_MAX" for h
      using ok unfolding ledger_ok_def categories_ok_def by (meson le_trans)
    then show ?thesis using ok unfolding db' ledger_ok_def categories_ok_def by (simp add: distinct_map_filter del: filter_filter)
  qed
  moreover have "en_id \<circ> f = en_id" using key by (simp add: fun_eq_iff)
  moreover have "(\<lambda>e. (en_id e, en_group e)) ` set (expenses db') = (\<lambda>e. (en_id e, en_group e)) ` set (expenses db)"
    unfolding db' using key by (simp add: image_image)
  ultimately show ?thesis using ok by (auto simp: db' ledger_ok_def links_ok_def)
qed

section \<open>Sequences of requests\<close>

lemma expense_request:
  assumes m: "months_ok env" and r: "rounding_ok (kitchen env)" and ok: "ledger_ok env db" and new: "new_ids c db"
    and q: "(\<exists>b. q = Create_entry b) \<or> (\<exists>i b. q = Price_item i b) \<or> (\<exists>i b. q = Update_entry i b) \<or> (\<exists>i. q = Delete_entry i)"
    and x: "perform_budget env c q db = (e, db')"
  shows "step_fine env (first_of env (c_today c)) db db'"
proof -
  have same: "step_fine env M db db" for M using ok told_between_refl by (simp add: step_fine_def)
  note n = new [unfolded new_ids_def, THEN conjunct1]
  show ?thesis
    using q x same create_step [OF m r ok n] price_step [OF m r ok n] update_step [OF m r ok] delete_step [OF ok]
    by (elim disjE exE) (auto simp: perform_budget_def Let_def answered_def split: sum.splits)
qed

text \<open>The requests that change neither a cap nor what is watched.\<close>

fun keeps_caps :: "budget_request \<Rightarrow> bool" where
  "keeps_caps (Create_category _) = False"
| "keeps_caps (Update_category _ _) = False"
| "keeps_caps (Delete_category _) = False"
| "keeps_caps (Put_settings _) = False"
| "keeps_caps (Patch_alerts _) = False"
| "keeps_caps _ = True"

inductive budgeted :: "budget_env \<Rightarrow> (caller \<Rightarrow> budget_request \<Rightarrow> bool) \<Rightarrow> ledger \<Rightarrow> ledger \<Rightarrow> bool" for env allowed db0 where
  begun: "budgeted env allowed db0 db0"
| asked: "budgeted env allowed db0 db \<Longrightarrow> allowed c q \<Longrightarrow> new_ids c db \<Longrightarrow> perform_budget env c q db = (e, db') \<Longrightarrow> budgeted env allowed db0 db'"

lemma request_fine:
  assumes "months_ok env" "rounding_ok (kitchen env)" "ledger_ok env db" "new_ids c db" "keeps_caps q" "perform_budget env c q db = (e, db')"
  shows "step_fine env (first_of env (c_today c)) db db'"
proof -
  have same: "step_fine env M db db" for M using assms(3) told_between_refl by (simp add: step_fine_def)
  show ?thesis
    using assms(5,6) same expense_request [OF assms(1-4) _ assms(6)]
    by (cases q) (auto simp: perform_budget_def Let_def answered_def split: sum.splits)
qed

lemma request_kept:
  assumes "months_ok env" "rounding_ok (kitchen env)" "ledger_ok env db" "new_ids c db" "perform_budget env c q db = (e, db')"
  shows "ledger_ok env db'"
proof (cases "keeps_caps q")
  case True
  then show ?thesis using request_fine [OF assms(1-4) True assms(5)] by (simp add: step_fine_def)
next
  case False
  note n = assms(4) [unfolded new_ids_def, THEN conjunct2]
  show ?thesis
    using False assms(3,5) settings_step [OF assms(3)] category_created [OF assms(3) n] category_updated [OF assms(3)] category_deleted [OF assms(3)]
    by (cases q) (auto simp: perform_budget_def Let_def answered_def split: sum.splits)
qed

text \<open>
  C39. Whatever sequence of requests families make on their budget, starting from tables that are in
  order, they stay in order: every amount lies between zero and ten billion euros, every cap is
  positive and as bounded, every expense is filed under a category of its family or none and paid by
  one of its members or nobody, the categories of a family are at most thirty, with trimmed names of
  one to forty characters that no two share whatever their case and colours of the palette, an item
  of the list is linked to one expense at most, of its family, and an alert is recorded once.
\<close>

theorem budget_keeps_its_tables:
  "budgeted env allowed db db' \<Longrightarrow> months_ok env \<Longrightarrow> rounding_ok (kitchen env) \<Longrightarrow> ledger_ok env db \<Longrightarrow> ledger_ok env db'"
  by (induction rule: budgeted.induct) (auto intro: request_kept)

lemma sequence_fine:
  "budgeted env allowed db db' \<Longrightarrow> months_ok env \<Longrightarrow> rounding_ok (kitchen env) \<Longrightarrow> ledger_ok env db \<Longrightarrow>
   (\<And>c q. allowed c q \<Longrightarrow> keeps_caps q \<and> first_of env (c_today c) = m) \<Longrightarrow> step_fine env m db db'"
proof (induction rule: budgeted.induct)
  case begun
  then show ?case using told_between_refl by (simp add: step_fine_def)
next
  case (asked db1 c q e db2)
  have one: "step_fine env m db db1" using asked.IH asked.prems by blast
  have "step_fine env (first_of env (c_today c)) db1 db2"
    using one asked.prems(4) [OF asked.hyps(2)] by (intro request_fine [OF asked.prems(1,2) _ asked.hyps(3) _ asked.hyps(4)]) (auto simp: step_fine_def)
  then show ?case using one asked.prems(4) [OF asked.hyps(2)] told_between_trans unfolding step_fine_def by blast
qed

text \<open>
  What a family has been told of a month, read off the rows: eighty percent of its cap and its
  cap once its expenses of the month have reached them, unless it switched these alerts off, and
  each category its expenses have carried past its cap, likewise.
\<close>

definition spent_on :: "budget_env \<Rightarrow> ledger \<Rightarrow> uuid \<Rightarrow> date \<Rightarrow> (entry_row \<Rightarrow> bool) \<Rightarrow> int" where
  "spent_on env db g m P =
     sum_list (map en_cents (filter (\<lambda>e. en_group e = g \<and> first_of env (en_spent_at e) = m \<and> P e) (expenses db)))"

definition month_told :: "budget_env \<Rightarrow> ledger \<Rightarrow> uuid \<Rightarrow> date \<Rightarrow> bool" where
  "month_told env db g m \<longleftrightarrow>
     (\<forall>s \<in> set (budget_settings db). \<forall>c. bs_group s = g \<and> bs_global s \<and> bs_cap s = Some c \<longrightarrow>
        (80 * c \<le> 100 * spent_on env db g m (\<lambda>_. True) \<longrightarrow>
           \<lparr>al_group = g, al_month = m, al_category = None, al_percent = 80\<rparr> \<in> set (sent_alerts db))
        \<and> (c \<le> spent_on env db g m (\<lambda>_. True) \<longrightarrow>
           \<lparr>al_group = g, al_month = m, al_category = None, al_percent = 100\<rparr> \<in> set (sent_alerts db)))
     \<and> ((\<forall>s \<in> set (budget_settings db). bs_group s = g \<longrightarrow> bs_category s) \<longrightarrow>
        (\<forall>k \<in> set (categories db). \<forall>c. ct_group k = g \<and> ct_cap k = Some c
             \<and> c < spent_on env db g m (\<lambda>e. en_category e = Some (ct_id k)) \<longrightarrow>
           \<lparr>al_group = g, al_month = m, al_category = Some (ct_id k), al_percent = 100\<rparr> \<in> set (sent_alerts db)))"

lemma spent_on_month:
  "spent_on env db g m (\<lambda>_. True) = family_spent env db g m"
  "spent_on env db g m (\<lambda>e. en_category e = Some i) = category_spent env db g m i"
  by (simp_all add: spent_on_def month_entries_def category_spent_def conj_ac)

lemma month_told_said:
  assumes "ledger_ok env db"
  shows "month_told env db g m \<longleftrightarrow> said env db g m"
proof -
  have d: "distinct (map bs_group (budget_settings db))" using assms by (simp add: ledger_ok_def settings_ok_def)
  note u = month_told_def said_def family_said_def category_said_def spent_on_month
  show ?thesis
  proof (cases "settings_of db g")
    case None
    then have "s \<in> set (budget_settings db) \<Longrightarrow> bs_group s \<noteq> g" for s by (auto simp: settings_of_def find_None_iff)
    moreover have "current_settings db g = default_settings g" using None by (simp add: current_settings_def)
    ultimately show ?thesis unfolding u by (auto simp: default_settings_def categories_of_def)
  next
    case (Some s)
    then have s: "s \<in> set (budget_settings db)" "bs_group s = g" by (auto simp: settings_of_def find_Some_iff)
    have only: "x = s" if "x \<in> set (budget_settings db)" "bs_group x = g" for x
      using d s that by (auto simp: distinct_map dest: inj_onD)
    have cur: "current_settings db g = s" using Some by (simp add: current_settings_def)
    have all: "(\<forall>x \<in> set (budget_settings db). bs_group x = g \<longrightarrow> P x) \<longleftrightarrow> P s" for P
      using only s by blast
    have all2: "(\<forall>x \<in> set (budget_settings db). \<forall>c. bs_group x = g \<and> bs_global x \<and> bs_cap x = Some c \<longrightarrow> P c) \<longleftrightarrow>
        (bs_global s \<longrightarrow> (\<forall>c. bs_cap s = Some c \<longrightarrow> P c))" for P
      using only s by blast
    show ?thesis unfolding u all all2 cur Let_def
      by (auto simp: FAMILY_THRESHOLDS_def categories_of_def mult.commute)
  qed
qed

text \<open>
  C38. Over a month in which the caps, the categories and the switches of the alerts stay as they
  are, and that opened with everything its expenses had already reached told: whatever expenses
  are written, changed and deleted, and whatever items of the list are priced, a family that
  watches its cap has been told of eighty percent and of the cap once its spending of the month
  has reached them, and of a category past its cap; each of these was told once; and what the
  notifications hold more is exactly one notification of the right text for each alert sent and
  each owner or admin of the family whose account is neither deactivated nor deleted. The
  opening condition is not always met: an expense dated ahead, in a later month, alerts
  nobody, so that month may open past its cap untold.
\<close>

theorem no_overrun_unsaid:
  assumes "budgeted env (\<lambda>c q. keeps_caps q \<and> first_of env (c_today c) = m) db db'"
    and "months_ok env" "rounding_ok (kitchen env)" "ledger_ok env db" "\<And>g. month_told env db g m"
  shows "month_told env db' g m
    \<and> (\<exists>sent rows. sent_alerts db' = sent_alerts db @ sent \<and> distinct (sent_alerts db')
         \<and> notifications (people (house db')) = notifications (people (house db)) @ rows
         \<and> map gist rows = notified env db sent)"
proof -
  have "step_fine env m db db'" by (rule sequence_fine [OF assms(1-4)]) blast
  then have "ledger_ok env db'" "said env db' g m" "told_between env db db'" "distinct (sent_alerts db')"
    using assms(5) month_told_said [OF assms(4)] by (auto simp: step_fine_def ledger_ok_def)
  then show ?thesis using month_told_said unfolding told_between_def by blast
qed

section \<open>A family's month\<close>

definition run_budget :: budget_env where
  "run_budget = plain_budget\<lparr>kitchen := coarse_kitchen\<rparr>"

definition owner :: caller where
  "owner = \<lparr>c_user = 1, c_group = 10, c_now = 7, c_today = 44, c_fresh = \<lambda>i. 500 + i\<rparr>"

definition big_shop :: budget_request where
  "big_shop = Create_entry (Inr \<lparr>eb_name = chars ''party'', eb_amount = Fin 150, eb_spent_at = None, eb_item = None, eb_items = [],
     eb_category = Some 60, eb_paid_by = None\<rparr>)"

lemma run_ok: "months_ok run_budget" "rounding_ok (kitchen run_budget)" "ledger_ok run_budget accounts_book"
  using even_months book_ok coarse_rounding by (simp_all add: run_budget_def)

lemma run_first: "first_of run_budget 44 = 30" "first_of run_budget 35 = 30" "first_of run_budget 40 = 30" "first_of run_budget 10 = 0"
  by (simp_all add: first_of_def run_budget_def plain_budget_def)

lemma book_new: "new_ids owner accounts_book"
  by (simp add: new_ids_def owner_def accounts_book_def spending_def food_def)

lemma alerts_fit: "body_fits (body plain_env (alert_event k t))"
  by (rule notification_text_fits [OF plain_env_ok, THEN conjunct1]) (auto simp: alert_event_def split: option.split)

lemma send_alert_sent: "notices env = plain_env \<Longrightarrow> \<exists>x. send_alert env now fresh w k t db = Inr x"
  using alerts_fit by (auto simp: send_alert_def Let_def insert_for_def split: prod.split)

lemma send_alerts_sent: "notices env = plain_env \<Longrightarrow> \<exists>x. send_alerts env now fresh w k ts db = Inr x"
proof (induction ts arbitrary: db)
  case (Cons t ts)
  obtain us db1 where "send_alert env now fresh w k t db = Inr (us, db1)" using send_alert_sent [OF Cons.prems] by fastforce
  then show ?case using Cons.IH [OF Cons.prems, of db1] by auto
qed simp

lemma fire_sent:
  assumes "notices env = plain_env" "\<exists>x. totals db (w_group w) (w_month w) (w_next w) (map_option ct_id (w_category w)) = Inr x"
  shows "\<exists>x. fire env now fresh w db = Inr x"
proof -
  obtain f c where t: "totals db (w_group w) (w_month w) (w_next w) (map_option ct_id (w_category w)) = Inr (f, c)" using assms(2) by fastforce
  obtain us db1 where 1: "send_alerts env now fresh w None (crossed FAMILY_THRESHOLDS (fst (w_before w)) f (w_cap w)) db = Inr (us, db1)"
    using send_alerts_sent [OF assms(1)] by fastforce
  show ?thesis
  proof (cases "w_category w")
    case None
    then show ?thesis using t 1 by (simp add: fire_def)
  next
    case (Some k)
    obtain x where "send_alerts env now fresh w (Some k) (crossed CATEGORY_THRESHOLDS (snd (w_before w)) c (ct_cap k)) db1 = Inr x"
      using send_alerts_sent [OF assms(1)] by blast
    then show ?thesis using t 1 Some by (cases x) (simp add: fire_def)
  qed
qed

lemma big_shop_cents: "to_cents run_budget (Fin 150) = Inr 15000"
proof -
  have "fl coarse_kitchen 15000 = 15000" by (simp add: coarse_kitchen_def ceiling_eq_iff)
  then show ?thesis
    by (simp add: to_cents_def amount_to_cents_def bounded_cents_def run_budget_def round_away_def sat_def I64_MIN_def I64_MAX_def
        AMOUNT_MAX_EUROS_def floor_eq_iff)
qed

lemma book_access: "require_budget_access accounts_book 10 1 = Inr Owner"
  using book_roles(1) by (simp add: require_budget_access_def can_access_budget_def accounts_book_def)

lemma big_shop_watch:
  "watch run_budget 44 accounts_book 10 44 (Some 60) = Inr (Some \<lparr>w_group = 10, w_month = 30, w_next = 60, w_cap = Some 20000,
     w_category = Some food, w_before = (7500, 7000)\<rparr>, accounts_book)"
  by (simp add: watch_def in_month_def lock_settings_def settings_of_def watched_category_def category_of_def accounts_book_def food_def
      run_first run_budget_def plain_budget_def totals_def spent_between_def in_category_def spending_def sum_cents_def Let_def I64_MIN_def I64_MAX_def
      first_of_def)

lemma big_shop_done: "\<exists>db'. perform_budget run_budget owner big_shop accounts_book = (None, db') \<and> family_spent run_budget db' 10 30 = 22500
    \<and> budget_settings db' = budget_settings accounts_book"
proof -
  let ?r = "\<lparr>en_id = 500, en_group = 10, en_created_by = 1, en_category = Some 60, en_paid_by = None,
      en_name = trim_text (chars ''party''), en_cents = 15000, en_spent_at = 44, en_created_at = 7, en_updated_at = 7\<rparr>"
  let ?w = "\<lparr>w_group = 10, w_month = 30, w_next = 60, w_cap = Some 20000, w_category = Some food, w_before = (7500, 7000)\<rparr>"
  define db2 where "db2 = accounts_book\<lparr>expenses := expenses accounts_book @ [?r]\<rparr>"
  have name: "trim_text (chars ''party'') \<noteq> []" by (simp add: trim_by_def is_whitespace_def)
  have k: "category_of accounts_book 10 60 = Some food" by (simp add: category_of_def accounts_book_def food_def)
  have "\<exists>x. totals db2 10 30 60 (Some 60) = Inr x"
    by (simp add: db2_def totals_def spent_between_def in_category_def accounts_book_def spending_def sum_cents_def I64_MIN_def I64_MAX_def)
  moreover have "notices run_budget = plain_env" by (simp add: run_budget_def plain_budget_def)
  ultimately obtain us db' where f: "fire run_budget 7 (alert_ids (\<lambda>i. 500 + i)) ?w db2 = Inr (us, db')"
    using fire_sent [of run_budget db2 ?w 7 "alert_ids (\<lambda>i. 500 + i)"] by (auto simp: food_def)
  have "watch_ok db2 ?w" by (simp add: watch_ok_def db2_def category_of_def accounts_book_def food_def)
  from fire_told [OF f this] have t: "told_more run_budget db2 db'" by blast
  then have "expenses db' = expenses db2" by (rule told_same)
  then have "family_spent run_budget db' 10 30 = 22500"
    by (simp add: month_entries_def db2_def accounts_book_def spending_def run_first)
  moreover have "perform_budget run_budget owner big_shop accounts_book = (None, db')"
    using f name by (simp add: perform_budget_def owner_def big_shop_def Let_def create_budget_entry_def book_access book_access [unfolded One_nat_def] big_shop_cents require_category_def k
        if_given_def grocery_item_ids_def GROCERY_ITEMS_MAX_def given_or_def big_shop_watch fire_if_def answered_def db2_def)
  moreover have "budget_settings db' = budget_settings accounts_book" using told_same(7) [OF t] by (simp add: db2_def)
  ultimately show ?thesis by blast
qed

lemma big_shop_run:
  assumes "perform_budget run_budget owner big_shop accounts_book = (e, db')"
  shows "budgeted run_budget (\<lambda>c q. keeps_caps q \<and> first_of run_budget (c_today c) = 30) accounts_book db'"
  using book_new assms by (intro budgeted.intros(2) [OF budgeted.intros(1)]) (auto simp: big_shop_def owner_def run_first)

lemma book_said: "said run_budget accounts_book g 30"
  by (cases "g = 10") (auto simp: said_def family_said_def category_said_def category_spent_def month_entries_def accounts_book_def spending_def food_def
      run_first current_settings_def settings_of_def default_settings_def categories_of_def FAMILY_THRESHOLDS_def Let_def)

lemma budget_keeps_its_tables_witness:
  "\<exists>db'. perform_budget run_budget owner big_shop accounts_book = (None, db') \<and> ledger_ok run_budget db'"
  using big_shop_done big_shop_run budget_keeps_its_tables [OF _ run_ok] by blast

lemma no_overrun_unsaid_witness:
  "\<exists>db'. perform_budget run_budget owner big_shop accounts_book = (None, db')
     \<and> (\<forall>p \<in> {80, 100}. \<lparr>al_group = 10, al_month = 30, al_category = None, al_percent = p\<rparr> \<in> set (sent_alerts db'))
     \<and> distinct (sent_alerts db') \<and> (\<exists>n \<in> set (notifications (people (house db'))). nt_user n = 1 \<and> nt_kind n = ''budget_alert'')"
proof -
  obtain db' where p: "perform_budget run_budget owner big_shop accounts_book = (None, db')" "family_spent run_budget db' 10 30 = 22500"
    "budget_settings db' = budget_settings accounts_book" using big_shop_done by blast
  note all = no_overrun_unsaid [OF big_shop_run [OF p(1)] run_ok book_said [folded month_told_said [OF run_ok(3)]]]
  have "\<lparr>bs_group = 10, bs_cap = Some 20000, bs_global = True, bs_category = True\<rparr> \<in> set (budget_settings db')"
    unfolding p(3) by (simp add: accounts_book_def)
  then have a: "\<forall>p \<in> {80, 100}. \<lparr>al_group = 10, al_month = 30, al_category = None, al_percent = p\<rparr> \<in> set (sent_alerts db')"
    using all [of 10, THEN conjunct1] p(2) unfolding month_told_def spent_on_month by fastforce
  obtain sent rows where s: "sent_alerts db' = sent_alerts accounts_book @ sent" "distinct (sent_alerts db')"
    "notifications (people (house db')) = notifications (people (house accounts_book)) @ rows" "map gist rows = notified run_budget accounts_book sent"
    using all [of 10] by blast
  have "1 \<in> set (budget_holders accounts_book 10)"
    by (simp add: budget_holders_def book_simps)
  moreover have "\<lparr>al_group = 10, al_month = 30, al_category = None, al_percent = 80\<rparr> \<in> set sent" using a s(1) by (simp add: accounts_book_def)
  ultimately have "\<exists>x \<in> set (map gist rows). fst x = 1 \<and> fst (snd (snd x)) = ''budget_alert''" unfolding s(4) notified_def by force
  then obtain n where "n \<in> set rows" "nt_user n = 1" "nt_kind n = ''budget_alert''" by auto
  then have "\<exists>n \<in> set (notifications (people (house db'))). nt_user n = 1 \<and> nt_kind n = ''budget_alert''"
    unfolding s(3) by (intro bexI [of _ n]) simp_all
  then show ?thesis using p(1) a s(2) by blast
qed

end
