(* ===== verification/Spec2Isabelle.thy ===== *)
theory Spec2Isabelle
  imports Throttle_Store Rate_Limit Csp_Throttle Strings Paris Agenda_Form Recurrence Products
    Http_Guard Push Purge_Pass Markdown Cooked_Done Family_Groups Recipe_Import Client_Ip School_Holidays Budget_Kept
begin

text \<open>
  The backend of a family organiser: an agenda, a stock and a grocery list, recipes, a budget,
  notifications, groups of users and their accounts. The program is four Rust crates:
  \<open>apps/api\<close> (the HTTP interface over PostgreSQL), \<open>apps/shared\<close> (the rules both sides of the
  interface apply), \<open>apps/http_guard\<close> (what stands in front of every handler) and \<open>apps/web\<close> (the
  pages). This development models the core logic of the first three.

  \<^bold>\<open>How the code is modelled.\<close>

  \<^item> Instants are integers of microseconds, days numbers of days, identifiers naturals. A text is
    a \<open>string\<close> where the code works on its bytes and the list of its Unicode scalar values
    (\<open>utext\<close>) where it counts or tests characters. An \<open>f64\<close> of a request is a finite rational, an
    infinity or NaN; an operation on finite ones is the exact result rounded by the parameter \<open>fl\<close>.
  \<^item> A handler is a function of the rows it reads to an answer and the rows it leaves, its errors
    values of a datatype in the order the code tests them; a refused request changes nothing, as its
    transaction is rolled back. Where a handler works under a lock it is one such function. Where
    it reads rows it does not lock and writes later, what other transactions commit in between is an
    argument (\<open>gap\<close>, \<open>env\<close>, \<open>between\<close>), so a theorem about it holds for every interleaving, or its
    hypothesis says which ones. Sequences of requests are inductive relations (\<open>reaches\<close>,
    \<open>budgeted\<close>, and the step relations of \<open>Http_Guard\<close>, \<open>Throttle\<close> and \<open>Push\<close>).
  \<^item> A loop is structural recursion where it is one, \<open>partial_function (option)\<close> where it might not
    end: its value \<open>None\<close> is a walk that never ends or a panic, and that it does not happen is proved
    (\<open>rendering_returns\<close>, \<open>unroll_lists_the_series\<close>). The one bounded search is the printing of a
    quantity with twelve digits, which looks for the decimal exponent in 400 steps: a double is
    below ten to the 309th and above ten to the -324th, so the search ends before.
  \<^item> Third-party code is a record of functions or an argument, with what the code relies on as
    named hypotheses: the calendar and the clock of \<open>chrono\<close> and \<open>chrono-tz\<close> (\<open>calendar\<close>, \<open>zone\<close>,
    \<open>tz_laws\<close>, \<open>gregorian\<close>, \<open>months_ok\<close>), the crate \<open>rrule\<close> (\<open>rrule_crate\<close>), \<open>ipnet\<close>, URLs, the DNS and the
    HTTP client, JSON, the semaphore of \<open>tokio\<close>, tables of Unicode, the lower case and the collation
    of the database, IEEE rounding (\<open>rounding_ok\<close>, \<open>relative_ok\<close>). Each hypothesis is met by an
    instance in a witness. Identifiers come from a supply \<open>fresh\<close>, which stands for
    \<open>gen_random_uuid()\<close>.

  \<^bold>\<open>The theories.\<close>

  \<^item> \<open>Prelude\<close>, \<open>Strings\<close>: association lists for the hash maps, the locale \<open>window_budget\<close> (a state in
    which a budget bounds what a window admits: no more than the budget is admitted before the window
    ends, whatever the steps), and what is used of Rust's strings. The locale is interpreted
    on the login table (\<open>pair_budget\<close> in \<open>Throttle\<close>) and on the CSP reports (\<open>report_budget\<close>).
  \<^item> \<open>Throttle\<close>, \<open>Throttle_Store\<close> (\<open>api/src/auth/throttle.rs\<close>): the decision table of logins
    and the transactions over its rows; its bounds, the ten admissions of a window, the refinement of
    the table by the rows and the ceiling under interleaving. \<open>Rate_Limit\<close> (\<open>rate_limit.rs\<close>) and
    \<open>Csp_Throttle\<close> (\<open>csp_report_throttle.rs\<close>): the other two limits.
  \<^item> \<open>Http_Guard\<close> (\<open>http_guard/src\<close>): the upload gate and its interleavings, the bounds on reading a
    body, the cross-origin check. \<open>Ip_Text\<close>, \<open>Client_Ip\<close> (\<open>client_ip.rs\<close>): which address a request
    comes from. \<open>Destination\<close> (\<open>public_destination.rs\<close>): which addresses a request may go to;
    \<open>Recipe_Import\<close> (\<open>recipes/import.rs\<close>) rests on both \<open>Destination\<close> and \<open>Rate_Limit\<close>.
  \<^item> \<open>Paris\<close>, \<open>Agenda_Form\<close> (\<open>shared/src/validation/agenda.rs\<close>): civil days on the clock of Paris, the
    recurrence rules of the picker and the forms. \<open>Recurrence\<close> (\<open>agenda/recurrence.rs\<close>): the unroll
    of a series, its exclusions and its split. \<open>National_Days\<close> (\<open>validation/national_days.rs\<close>) and
    \<open>School_Holidays\<close> (\<open>agenda/school_holidays.rs\<close>, \<open>agenda/national_days.rs\<close>,
    \<open>jobs/school_holidays.rs\<close>).
  \<^item> \<open>Account_Purge\<close>, \<open>Purge_Pass\<close> (\<open>jobs/account_purge.rs\<close>, \<open>groups/succession.rs\<close>): the end of an
    account, the hourly pass and the succession of the groups. \<open>Family_Groups\<close> (\<open>groups/mod.rs\<close>,
    \<open>validation/groups.rs\<close>, \<open>validation/auth.rs\<close>): members, roles, invitations. \<open>Markdown\<close>
    (\<open>validation/rgpd.rs\<close>): the renderer of the legal texts.
  \<^item> \<open>Push\<close> (\<open>notifications/push.rs\<close>): the devices and their pending pushes. \<open>Notifications\<close>
    (\<open>notifications/center.rs\<close>): the centre, which \<open>Grocery\<close> and \<open>Budget\<close> write to.
  \<^item> \<open>Products\<close> (\<open>stocks/barcode.rs\<close>, \<open>gs1.rs\<close>, \<open>shelf_life.rs\<close>), \<open>Stock_Items\<close> (\<open>stocks/items.rs\<close>,
    \<open>validation/stocks.rs\<close>), \<open>Grocery\<close> (\<open>grocery_list/items.rs\<close>, \<open>planned.rs\<close>,
    \<open>recipes/availability.rs\<close>), \<open>Reception\<close> (\<open>stocks/reception.rs\<close>): the stock, the list, and
    what a reception moves from one to the other. \<open>Household\<close> composes them: every
    request on the two, in any order. \<open>Cooked\<close>, \<open>Cooked_Done\<close> (\<open>recipes/outcome.rs\<close>): a planned recipe
    cooked or abandoned, and what it takes from the stock.
  \<^item> \<open>Budget\<close> (\<open>budget\<close>, \<open>validation/budget.rs\<close>), on the tables of the household: amounts, caps,
    categories, alerts, expenses and their summary. \<open>Budget_Laws\<close>: who reaches it, amounts that read
    back, the summary. \<open>Budget_Kept\<close>: its tables over sequences of requests, and the alerts.

  In each theory the definitions come first, in the order of the code, then the invariant of the
  component and what each operation keeps of it, then the properties (their blocks are numbered C1
  and up), then concrete inputs on which the hypotheses of a property hold.

  \<^bold>\<open>What the lemmas show.\<close> Bounds and rates (C1 to C6); the agenda: all-day spans, rules that read
  back, series that unroll whole, national days and holidays; the guards: no upload past the
  limits, no import towards a private address, the client named by the trusted proxies; accounts
  and groups: a purge only when its time has come and then whole, the groups it leaves empty
  included, an heir by rank, one owner in each group, nobody above his role in a request served
  alone, with the interleaving in which the code loses the owner of a group
  (\<open>removal_races_transfer\<close>); the household: stored quantities stay in bounds over any sequence of
  requests, a reception does what was shown, a generation completes the list once, cooking takes
  what was asked; notifications told once; the budget: sums that agree, tables that stay in order,
  and no overrun unsaid in a month that opened with all said.

  What a property promises is stated over the rows and the texts, in definitions of its own, apart
  from the functions of the code: \<open>rule_reads\<close> (a recurrence rule), \<open>opens_window\<close> (a login),
  \<open>two_years_after\<close> (a purge), \<open>link_allowed\<close> (a link), \<open>taken_in_order\<close> (the lots of a recipe),
  \<open>called_for\<close> and \<open>runs_low\<close> (a list), \<open>within_rights\<close> and \<open>allowed\<close> (roles), \<open>month_told\<close> and
  \<open>budget_holders\<close> (alerts).

  \<^bold>\<open>Not modelled.\<close> The pages (\<open>apps/web\<close>), the mobile shell and the migrations, which hold no logic
  of their own beside display. Of the backend: sessions, passwords, tokens and the sign-in with
  Google (third-party cryptography around short checks); the handlers of events, reminders and
  attachments, the chat and its WebSocket; the imports of Google calendars; the recipe book beside
  the import, the outcome and the availability; the scan of products against Open Food Facts;
  the jobs beside the purge and the holidays; preferences of notifications; the export of an
  account; administration; object storage, emails, the database pool. Connection errors, row-level
  security and timeouts are outside of the model. The instants are unbounded, so the panics of
  \<open>chrono\<close> in its last years are too.
\<close>

end
